(* ===== verification/Emb6_Prelude.thy ===== *)
theory Emb6_Prelude
  imports Main "HOL-Library.Word" "HOL-Library.Monad_Syntax"
begin

section \<open>Shared types, automation and generic lemmas\<close>

text \<open>
  Names of the machine integers of the C sources, the pointer type, the collections of
  simplification and introduction facts the component theories feed, and the lemmas on
  lists and words that several components share.
\<close>

unbundle bit_operations_syntax

type_synonym u8 = "8 word"
type_synonym u16 = "16 word"
type_synonym u32 = "32 word"
type_synonym u64 = "64 word"

text \<open>A pointer is an address; the null pointer of C is address 0.\<close>

type_synonym ptr = nat

abbreviation NULL :: ptr where "NULL \<equiv> 0"

named_theorems heap_simps \<open>rewrites for reads and writes of linked structures\<close>
named_theorems inv_intros \<open>preservation of component invariants\<close>
named_theorems codec_simps \<open>rewrites for encoders and decoders\<close>

subsection \<open>Lists\<close>

lemma remove1_append_notin [simp]: "x \<notin> set xs \<Longrightarrow> remove1 x (xs @ ys) = xs @ remove1 x ys"
  by (induction xs) auto

lemma distinct_remove1_snoc: "distinct xs \<Longrightarrow> distinct (remove1 x xs @ [x])"
  by auto

lemma filter_remove1_distinct:
  "distinct xs \<Longrightarrow> filter P (remove1 x xs) = remove1 x (filter P xs)"
  by (induction xs) (auto simp: remove1_idem)

lemma take_list_update_ge [simp]: "n \<le> i \<Longrightarrow> take n (xs[i := v]) = take n xs"
  by (rule take_update_cancel)

lemma count_list_update:
  "i < length xs \<Longrightarrow>
   count_list (xs[i := v]) a + (if xs ! i = a then 1 else 0)
     = count_list xs a + (if v = a then 1 else 0)"
proof (induction xs arbitrary: i)
  case Nil
  then show ?case by simp
next
  case (Cons x xs)
  show ?case
  proof (cases i)
    case 0
    then show ?thesis by simp
  next
    case (Suc j)
    then show ?thesis using Cons.IH [of j] Cons.prems by (auto split: if_splits)
  qed
qed

subsection \<open>Words\<close>

lemma word_of_nat_unat_mod: "(of_nat n :: 'a::len word) = of_nat (n mod 2 ^ LENGTH('a))"
  by (simp add: word_unat_eq_iff unat_of_nat)

lemma and_mask_eq_mod:
  "unat (w AND mask n :: 'a::len word) = unat w mod 2 ^ n"
  by (metis take_bit_eq_mask unsigned_take_bit_eq take_bit_eq_mod)

lemma unat_diff_mod:
  "unat (a - b :: 'a::len word) = (unat a + 2 ^ LENGTH('a) - unat b) mod 2 ^ LENGTH('a)"
proof (cases "unat b \<le> unat a")
  case True
  have "unat a - unat b < 2 ^ LENGTH('a)"
    using unsigned_less [of a, where ?'a = nat] by (rule le_less_trans [OF diff_le_self])
  then have "(unat a - unat b + 2 ^ LENGTH('a)) mod 2 ^ LENGTH('a) = unat a - unat b"
    by simp
  moreover have "unat a + 2 ^ LENGTH('a) - unat b = (unat a - unat b) + 2 ^ LENGTH('a)"
    using True by simp
  ultimately show ?thesis using True by (simp only: unat_sub_if' if_True)
next
  case False
  have "unat b < 2 ^ LENGTH('a)" by (rule unsigned_less)
  with False have "unat a + 2 ^ LENGTH('a) - unat b < 2 ^ LENGTH('a)" by arith
  then show ?thesis using False by (simp only: unat_sub_if' if_False mod_less)
qed

lemma length_takeWhile_lt: "x \<in> set xs \<Longrightarrow> \<not> P x \<Longrightarrow> length (takeWhile P xs) < length xs"
  by (induction xs) auto

end
