(* ===== verification/Clist.thy ===== *)
theory Clist
  imports Emb6_Prelude
begin

section \<open>The linked-list library (utils/src/list.c)\<close>

text \<open>
  Every list of the stack is intrusive: the first field of an item is its \<open>next\<close> pointer,
  and a \<open>list_t\<close> is the address of a head pointer. The model keeps the head cell and the
  store of \<open>next\<close> fields, so aliasing (an item that is on a list twice, a pointer kept
  across a removal) has in the model the effect it has in the code.

  A loop that follows \<open>next\<close> pointers need not end, and a write through the null pointer
  has no defined effect: both are the result \<open>None\<close>. The loops are
  \<^theory_text>\<open>partial_function (option)\<close>; \<open>is_clist cl xs\<close> says that the list is the
  null-terminated chain of the items \<open>xs\<close>, and on such lists every operation is proved to
  return, with its result described on \<open>xs\<close>.
\<close>

subsection \<open>State and operations\<close>

record clist =
  cl_head :: ptr
  cl_next :: "ptr \<Rightarrow> ptr"

definition list_init :: "clist \<Rightarrow> clist" where
  "list_init l = l\<lparr>cl_head := NULL\<rparr>"

definition list_head :: "clist \<Rightarrow> ptr" where
  "list_head l = cl_head l"

text \<open>Both arguments of \<open>list_copy\<close> are views of one memory; the head cell is copied.\<close>

definition list_copy :: "clist \<Rightarrow> clist \<Rightarrow> clist" where
  "list_copy dest src = dest\<lparr>cl_head := cl_head src\<rparr>"

partial_function (option) tail_loop :: "(ptr \<Rightarrow> ptr) \<Rightarrow> ptr \<Rightarrow> ptr option" where
  "tail_loop nx l = (if nx l = NULL then Some l else tail_loop nx (nx l))"

definition list_tail :: "clist \<Rightarrow> ptr option" where
  "list_tail cl =
     (if cl_head cl = NULL then Some NULL else tail_loop (cl_next cl) (cl_head cl))"

partial_function (option) remove_loop :: "clist \<Rightarrow> ptr \<Rightarrow> ptr \<Rightarrow> ptr \<Rightarrow> clist option" where
  "remove_loop cl item r l =
     (if l = NULL then Some cl
      else if l = item then
        (let cl1 = (if r = NULL then cl\<lparr>cl_head := cl_next cl l\<rparr>
                    else cl\<lparr>cl_next := (cl_next cl)(r := cl_next cl l)\<rparr>)
         in Some (cl1\<lparr>cl_next := (cl_next cl1)(l := NULL)\<rparr>))
      else remove_loop cl item l (cl_next cl l))"

definition list_remove :: "clist \<Rightarrow> ptr \<Rightarrow> clist option" where
  "list_remove cl item =
     (if cl_head cl = NULL then Some cl else remove_loop cl item NULL (cl_head cl))"

definition list_add :: "clist \<Rightarrow> ptr \<Rightarrow> clist option" where
  "list_add cl item = do {
     cl1 \<leftarrow> list_remove cl item;
     if item = NULL then None else do {
       let cl2 = cl1\<lparr>cl_next := (cl_next cl1)(item := NULL)\<rparr>;
       l \<leftarrow> list_tail cl2;
       Some (if l = NULL then cl2\<lparr>cl_head := item\<rparr>
             else cl2\<lparr>cl_next := (cl_next cl2)(l := item)\<rparr>)
     }
   }"

definition list_push :: "clist \<Rightarrow> ptr \<Rightarrow> clist option" where
  "list_push cl item = do {
     cl1 \<leftarrow> list_remove cl item;
     if item = NULL then None
     else Some (cl1\<lparr>cl_next := (cl_next cl1)(item := cl_head cl1), cl_head := item\<rparr>)
   }"

partial_function (option) chop_loop :: "(ptr \<Rightarrow> ptr) \<Rightarrow> ptr \<Rightarrow> ptr option" where
  "chop_loop nx l = (if nx (nx l) = NULL then Some l else chop_loop nx (nx l))"

definition list_chop :: "clist \<Rightarrow> (ptr \<times> clist) option" where
  "list_chop cl =
     (if cl_head cl = NULL then Some (NULL, cl)
      else if cl_next cl (cl_head cl) = NULL then
        Some (cl_head cl, cl\<lparr>cl_head := NULL\<rparr>)
      else do {
        l \<leftarrow> chop_loop (cl_next cl) (cl_head cl);
        Some (cl_next cl l, cl\<lparr>cl_next := (cl_next cl)(l := NULL)\<rparr>)
      })"

definition list_pop :: "clist \<Rightarrow> ptr \<times> clist" where
  "list_pop cl =
     (cl_head cl,
      if cl_head cl \<noteq> NULL then cl\<lparr>cl_head := cl_next cl (cl_head cl)\<rparr> else cl)"

partial_function (option) length_loop :: "(ptr \<Rightarrow> ptr) \<Rightarrow> ptr \<Rightarrow> nat \<Rightarrow> nat option" where
  "length_loop nx l n = (if l = NULL then Some n else length_loop nx (nx l) (Suc n))"

definition list_length :: "clist \<Rightarrow> nat option" where
  "list_length cl = length_loop (cl_next cl) (cl_head cl) 0"

definition list_insert :: "clist \<Rightarrow> ptr \<Rightarrow> ptr \<Rightarrow> clist option" where
  "list_insert cl previtem newitem =
     (if previtem = NULL then list_push cl newitem
      else if newitem = NULL then None
      else
        (let nx1 = (cl_next cl)(newitem := cl_next cl previtem)
         in Some (cl\<lparr>cl_next := nx1(previtem := newitem)\<rparr>)))"

definition list_item_next :: "clist \<Rightarrow> ptr \<Rightarrow> ptr" where
  "list_item_next cl item = (if item = NULL then NULL else cl_next cl item)"

subsection \<open>Well-formed lists\<close>

fun chain :: "(ptr \<Rightarrow> ptr) \<Rightarrow> ptr \<Rightarrow> ptr list \<Rightarrow> bool" where
  "chain nx p [] \<longleftrightarrow> p = NULL"
| "chain nx p (x # xs) \<longleftrightarrow> p = x \<and> x \<noteq> NULL \<and> chain nx (nx x) xs"

fun_cases chain_ConsE: "chain nx p (x # xs)"

definition is_clist :: "clist \<Rightarrow> ptr list \<Rightarrow> bool" where
  "is_clist cl xs \<longleftrightarrow> chain (cl_next cl) (cl_head cl) xs"

lemma chain_unique: "chain nx p xs \<Longrightarrow> chain nx p ys \<Longrightarrow> xs = ys"
proof (induction xs arbitrary: p ys)
  case Nil
  then show ?case by (cases ys) auto
next
  case (Cons x xs)
  then show ?case by (cases ys) auto
qed

lemma chain_append:
  "chain nx p (xs @ y # ys) \<Longrightarrow> chain nx y (y # ys)"
  by (induction xs arbitrary: p) auto

lemma chain_distinct: "chain nx p xs \<Longrightarrow> distinct xs"
proof (induction xs arbitrary: p)
  case Nil
  then show ?case by simp
next
  case (Cons x xs)
  then have rest: "chain nx (nx x) xs" and px: "chain nx x (x # xs)" by auto
  have "x \<notin> set xs"
  proof
    assume "x \<in> set xs"
    then obtain ys zs where xs: "xs = ys @ x # zs" by (auto dest: split_list)
    from rest have "chain nx x (x # zs)" unfolding xs by (rule chain_append)
    with px have "x # xs = x # zs" by (rule chain_unique)
    with xs show False by simp
  qed
  with Cons.IH [OF rest] show ?case by simp
qed

lemma chain_nonnull: "chain nx p xs \<Longrightarrow> x \<in> set xs \<Longrightarrow> x \<noteq> NULL"
  by (induction xs arbitrary: p) auto

lemma chain_update_notin [heap_simps]:
  "q \<notin> set xs \<Longrightarrow> chain (nx(q := v)) p xs = chain nx p xs"
  by (induction xs arbitrary: p) auto

lemma chain_next_head: "chain nx p (x # xs) \<Longrightarrow> nx x = (case xs of [] \<Rightarrow> NULL | y # _ \<Rightarrow> y)"
  by (cases xs) auto

lemma chain_snoc:
  "chain nx p (xs @ [y]) \<Longrightarrow> z \<noteq> NULL \<Longrightarrow> z \<notin> set (xs @ [y]) \<Longrightarrow> nx z = NULL \<Longrightarrow>
   chain (nx(y := z)) p (xs @ [y, z])"
proof (induction xs arbitrary: p)
  case Nil
  then show ?case by auto
next
  case (Cons x xs)
  have "x \<noteq> y" using chain_distinct [OF Cons.prems(1)] by auto
  moreover have "chain (nx(y := z)) (nx x) (xs @ [y, z])"
    using Cons.prems by (intro Cons.IH) auto
  ultimately show "chain (nx(y := z)) p ((x # xs) @ [y, z])" using Cons.prems by simp
qed

lemma chain_cut:
  "chain nx p (xs @ y # ys) \<Longrightarrow> chain (nx(y := NULL)) p (xs @ [y])"
proof (induction xs arbitrary: p)
  case Nil
  then show ?case by simp
next
  case (Cons x xs)
  have "x \<noteq> y" using chain_distinct [OF Cons.prems] by auto
  moreover have "chain (nx(y := NULL)) (nx x) (xs @ [y])"
    using Cons.prems by (intro Cons.IH) auto
  ultimately show "chain (nx(y := NULL)) p ((x # xs) @ [y])" using Cons.prems by simp
qed

lemma chain_unlink:
  "chain nx p (xs @ r # y # ys) \<Longrightarrow> chain (nx(r := nx y)) p (xs @ r # ys)"
proof (induction xs arbitrary: p)
  case Nil
  have "distinct (r # y # ys)" using chain_distinct [OF Nil.prems] by simp
  with Nil.prems show "chain (nx(r := nx y)) p ([] @ r # ys)" by (simp add: heap_simps)
next
  case (Cons x xs)
  have "x \<noteq> r" using chain_distinct [OF Cons.prems] by auto
  moreover have "chain (nx(r := nx y)) (nx x) (xs @ r # ys)"
    using Cons.prems by (intro Cons.IH) auto
  ultimately show "chain (nx(r := nx y)) p ((x # xs) @ r # ys)" using Cons.prems by simp
qed

lemma chain_splice:
  "chain nx p (xs @ r # ys) \<Longrightarrow> z \<noteq> NULL \<Longrightarrow> z \<notin> set (xs @ r # ys) \<Longrightarrow>
   chain ((nx(z := nx r))(r := z)) p (xs @ r # z # ys)"
proof (induction xs arbitrary: p)
  case Nil
  have "distinct (r # ys)" using chain_distinct [OF Nil.prems(1)] by simp
  with Nil.prems show "chain ((nx(z := nx r))(r := z)) p ([] @ r # z # ys)"
    by (simp add: heap_simps)
next
  case (Cons x xs)
  have "x \<noteq> r" using chain_distinct [OF Cons.prems(1)] by auto
  moreover have "chain ((nx(z := nx r))(r := z)) (nx x) (xs @ r # z # ys)"
    using Cons.prems by (intro Cons.IH) auto
  ultimately show "chain ((nx(z := nx r))(r := z)) p ((x # xs) @ r # z # ys)"
    using Cons.prems by simp
qed

lemma is_clist_distinct: "is_clist cl xs \<Longrightarrow> distinct xs"
  by (auto simp: is_clist_def dest: chain_distinct)

lemma is_clist_nonnull: "is_clist cl xs \<Longrightarrow> x \<in> set xs \<Longrightarrow> x \<noteq> NULL"
  by (auto simp: is_clist_def dest: chain_nonnull)

lemma is_clist_unique: "is_clist cl xs \<Longrightarrow> is_clist cl ys \<Longrightarrow> xs = ys"
  by (auto simp: is_clist_def dest: chain_unique)

subsection \<open>Every operation on a well-formed list returns, with the expected list\<close>

lemma tail_loop_chain: "chain nx p (xs @ [y]) \<Longrightarrow> tail_loop nx p = Some y"
proof (induction xs arbitrary: p)
  case Nil
  then show ?case by (simp add: tail_loop.simps)
next
  case (Cons x xs)
  then have "chain nx (nx x) (xs @ [y])" by simp
  moreover from this have "nx x \<noteq> NULL" by (cases xs) auto
  ultimately show ?case using Cons by (simp add: tail_loop.simps [of nx x])
qed

lemma list_tail_correct:
  "is_clist cl xs \<Longrightarrow> list_tail cl = Some (if xs = [] then NULL else last xs)"
proof (cases xs rule: rev_cases)
  case Nil
  then show "is_clist cl xs \<Longrightarrow> ?thesis" by (simp add: list_tail_def is_clist_def)
next
  case (snoc ys y)
  assume "is_clist cl xs"
  then have c: "chain (cl_next cl) (cl_head cl) (ys @ [y])" by (simp add: is_clist_def snoc)
  then have "cl_head cl \<noteq> NULL" by (cases ys) auto
  with c show ?thesis by (simp add: list_tail_def tail_loop_chain snoc)
qed

lemma remove_loop_notin:
  "chain (cl_next cl) l ys \<Longrightarrow> item \<notin> set ys \<Longrightarrow> remove_loop cl item r l = Some cl"
proof (induction ys arbitrary: l r)
  case Nil
  then show ?case by (simp add: remove_loop.simps)
next
  case (Cons y ys)
  then show ?case by (simp add: remove_loop.simps [of cl item r y])
qed

definition unlink :: "clist \<Rightarrow> ptr \<Rightarrow> ptr \<Rightarrow> clist" where
  "unlink cl r item =
     (let cl1 = (if r = NULL then cl\<lparr>cl_head := cl_next cl item\<rparr>
                 else cl\<lparr>cl_next := (cl_next cl)(r := cl_next cl item)\<rparr>)
      in cl1\<lparr>cl_next := (cl_next cl1)(item := NULL)\<rparr>)"

lemma remove_loop_in:
  "chain (cl_next cl) l (ys @ item # zs) \<Longrightarrow> item \<notin> set ys \<Longrightarrow>
   remove_loop cl item r l = Some (unlink cl (if ys = [] then r else last ys) item)"
proof (induction ys arbitrary: l r)
  case Nil
  then show ?case by (simp add: remove_loop.simps [of cl item r item] unlink_def Let_def)
next
  case (Cons y ys)
  then show ?case by (simp add: remove_loop.simps [of cl item r y])
qed

lemma is_clist_unlink:
  assumes "is_clist cl (ys @ item # zs)"
  shows "is_clist (unlink cl (if ys = [] then NULL else last ys) item) (ys @ zs)"
proof (cases ys rule: rev_cases)
  case Nil
  have "item \<notin> set zs" using is_clist_distinct [OF assms] by simp
  with assms show ?thesis
    unfolding Nil by (simp add: is_clist_def unlink_def Let_def heap_simps)
next
  case (snoc us u)
  have d: "distinct (us @ u # item # zs)" using is_clist_distinct [OF assms] by (simp add: snoc)
  have u0: "u \<noteq> NULL" using is_clist_nonnull [OF assms, of u] by (simp add: snoc)
  have c: "chain (cl_next cl) (cl_head cl) (us @ u # item # zs)"
    using assms by (simp add: is_clist_def snoc)
  have "chain ((cl_next cl)(u := cl_next cl item)) (cl_head cl) (us @ u # zs)"
    by (rule chain_unlink [OF c])
  then have "chain (((cl_next cl)(u := cl_next cl item))(item := NULL)) (cl_head cl) (us @ u # zs)"
    using d by (subst chain_update_notin) auto
  then show ?thesis using u0 by (simp add: is_clist_def unlink_def Let_def snoc)
qed

lemma list_remove_notin: "is_clist cl xs \<Longrightarrow> x \<notin> set xs \<Longrightarrow> list_remove cl x = Some cl"
  by (auto simp: list_remove_def is_clist_def intro: remove_loop_notin)

lemma list_remove_in:
  assumes "is_clist cl (ys @ x # zs)"
  shows "list_remove cl x = Some (unlink cl (if ys = [] then NULL else last ys) x)"
proof -
  have c: "chain (cl_next cl) (cl_head cl) (ys @ x # zs)" using assms by (simp add: is_clist_def)
  then have "cl_head cl \<noteq> NULL" by (cases ys) auto
  moreover have "x \<notin> set ys" using is_clist_distinct [OF assms] by auto
  ultimately show ?thesis using remove_loop_in [OF c] by (simp add: list_remove_def)
qed

text \<open>
  The effect of \<open>list_remove\<close> on the items and on memory: the item is unlinked and its own
  \<open>next\<close> field is cleared; cells that are not on the list keep their contents.
\<close>

lemma list_remove_correct:
  assumes "is_clist cl xs"
  shows "\<exists>cl'. list_remove cl x = Some cl' \<and> is_clist cl' (remove1 x xs) \<and>
    (x \<in> set xs \<longrightarrow> cl_next cl' x = NULL) \<and> (x \<notin> set xs \<longrightarrow> cl' = cl) \<and>
    (\<forall>p. p \<notin> set xs \<longrightarrow> cl_next cl' p = cl_next cl p)"
proof (cases "x \<in> set xs")
  case False
  then show ?thesis using assms by (simp add: list_remove_notin remove1_idem)
next
  case True
  then obtain ys zs where xs: "xs = ys @ x # zs" by (auto dest: split_list)
  with assms have d: "distinct (ys @ x # zs)" by (simp add: is_clist_distinct del: distinct_append)
  then have "remove1 x xs = ys @ zs" by (simp add: xs)
  moreover have "is_clist (unlink cl (if ys = [] then NULL else last ys) x) (ys @ zs)"
    using is_clist_unlink assms by (simp add: xs)
  ultimately show ?thesis
    using list_remove_in assms True d
    by (auto simp: xs unlink_def Let_def)
qed

lemma is_clist_update_notin [heap_simps]:
  "q \<notin> set xs \<Longrightarrow> is_clist (cl\<lparr>cl_next := (cl_next cl)(q := v)\<rparr>) xs = is_clist cl xs"
  by (simp add: is_clist_def chain_update_notin)

lemma list_add_correct:
  assumes "is_clist cl xs" and "x \<noteq> NULL"
  shows "\<exists>cl'. list_add cl x = Some cl' \<and> is_clist cl' (remove1 x xs @ [x]) \<and>
    (\<forall>p. p \<notin> insert x (set xs) \<longrightarrow> cl_next cl' p = cl_next cl p)"
proof -
  let ?ys = "remove1 x xs"
  obtain cl1 where rm: "list_remove cl x = Some cl1" and c1: "is_clist cl1 ?ys"
    and fr: "\<forall>p. p \<notin> set xs \<longrightarrow> cl_next cl1 p = cl_next cl p"
    using list_remove_correct [OF assms(1)] by blast
  have x: "x \<notin> set ?ys" using is_clist_distinct [OF assms(1)] by simp
  let ?cl2 = "cl1\<lparr>cl_next := (cl_next cl1)(x := NULL)\<rparr>"
  have c2: "is_clist ?cl2 ?ys" using c1 x by (simp add: is_clist_update_notin)
  show ?thesis
  proof (cases ?ys rule: rev_cases)
    case Nil
    then have "list_tail ?cl2 = Some NULL" using list_tail_correct [OF c2] by simp
    then show ?thesis using rm assms(2) fr Nil
      by (simp add: list_add_def Let_def is_clist_def)
  next
    case (snoc us u)
    have sub: "set ?ys \<subseteq> set xs" by (rule set_remove1_subset)
    have u: "u \<noteq> NULL" "u \<in> set xs" using is_clist_nonnull [OF c2, of u] sub by (auto simp: snoc)
    have "list_tail ?cl2 = Some u" using list_tail_correct [OF c2] by (simp add: snoc)
    moreover have "chain ((cl_next ?cl2)(u := x)) (cl_head ?cl2) (us @ [u, x])"
      using c2 x assms(2) by (intro chain_snoc) (auto simp: is_clist_def snoc)
    ultimately show ?thesis using rm assms(2) fr u
      by (auto simp: list_add_def Let_def is_clist_def snoc)
  qed
qed

lemma list_push_correct:
  assumes "is_clist cl xs" and "x \<noteq> NULL"
  shows "\<exists>cl'. list_push cl x = Some cl' \<and> is_clist cl' (x # remove1 x xs) \<and>
    (\<forall>p. p \<notin> insert x (set xs) \<longrightarrow> cl_next cl' p = cl_next cl p)"
proof -
  obtain cl1 where rm: "list_remove cl x = Some cl1" and c1: "is_clist cl1 (remove1 x xs)"
    and fr: "\<forall>p. p \<notin> set xs \<longrightarrow> cl_next cl1 p = cl_next cl p"
    using list_remove_correct [OF assms(1)] by blast
  have "x \<notin> set (remove1 x xs)" using is_clist_distinct [OF assms(1)] by simp
  with rm c1 fr assms(2) show ?thesis
    by (simp add: list_push_def is_clist_def chain_update_notin)
qed

lemma list_pop_correct:
  assumes "is_clist cl xs"
  shows "fst (list_pop cl) = (case xs of [] \<Rightarrow> NULL | x # _ \<Rightarrow> x) \<and>
    is_clist (snd (list_pop cl)) (tl xs) \<and> cl_next (snd (list_pop cl)) = cl_next cl"
  using assms by (cases xs) (auto simp: list_pop_def is_clist_def)

lemma chop_loop_chain: "chain nx p (xs @ [y, z]) \<Longrightarrow> chop_loop nx p = Some y"
proof (induction xs arbitrary: p)
  case Nil
  then show ?case by (simp add: chop_loop.simps)
next
  case (Cons x xs)
  then have "chain nx (nx x) (xs @ [y, z])" by simp
  moreover from this have "nx (nx x) \<noteq> NULL" by (cases xs; cases "tl xs") auto
  ultimately show ?case using Cons by (simp add: chop_loop.simps [of nx x])
qed

lemma list_chop_correct:
  assumes "is_clist cl xs"
  shows "\<exists>cl'. list_chop cl = Some (if xs = [] then NULL else last xs, cl') \<and>
    is_clist cl' (butlast xs)"
proof (cases xs rule: rev_cases)
  case Nil
  then show ?thesis using assms by (simp add: list_chop_def is_clist_def)
next
  case (snoc ys z)
  show ?thesis
  proof (cases ys rule: rev_cases)
    case Nil
    then show ?thesis using assms snoc by (simp add: list_chop_def is_clist_def)
  next
    case (snoc us y)
    with assms \<open>xs = ys @ [z]\<close> have c: "chain (cl_next cl) (cl_head cl) (us @ [y, z])"
      by (simp add: is_clist_def)
    have h: "cl_head cl \<noteq> NULL" "cl_next cl (cl_head cl) \<noteq> NULL"
      using c by (cases us; cases "tl us"; auto)+
    have yz: "cl_next cl y = z" using chain_append [of "cl_next cl" _ us y "[z]"] c by auto
    have "chain ((cl_next cl)(y := NULL)) (cl_head cl) (us @ [y])"
      using c by (intro chain_cut [where ys = "[z]"]) simp
    then show ?thesis using h chop_loop_chain [OF c] yz snoc \<open>xs = ys @ [z]\<close>
      by (simp add: list_chop_def is_clist_def butlast_append)
  qed
qed

lemma list_insert_correct:
  assumes "is_clist cl (xs @ r # ys)" and "z \<noteq> NULL" and "z \<notin> set (xs @ r # ys)"
  shows "\<exists>cl'. list_insert cl r z = Some cl' \<and> is_clist cl' (xs @ r # z # ys) \<and>
    (\<forall>p. p \<notin> {r, z} \<longrightarrow> cl_next cl' p = cl_next cl p)"
proof -
  have "r \<noteq> NULL" using is_clist_nonnull [OF assms(1), of r] by simp
  moreover have "chain (((cl_next cl)(z := cl_next cl r))(r := z)) (cl_head cl) (xs @ r # z # ys)"
    using assms by (intro chain_splice) (auto simp: is_clist_def)
  ultimately show ?thesis using assms(2)
    by (simp add: list_insert_def is_clist_def Let_def)
qed

lemma length_loop_chain: "chain nx p xs \<Longrightarrow> length_loop nx p n = Some (n + length xs)"
proof (induction xs arbitrary: p n)
  case Nil
  then show ?case by (simp add: length_loop.simps)
next
  case (Cons x xs)
  then show ?case by (simp add: length_loop.simps [of nx x])
qed

lemma length_loop_returns:
  assumes "length_loop nx p n = Some m"
  shows "\<exists>xs. chain nx p xs \<and> m = n + length xs"
proof (rule length_loop.raw_induct
    [where P = "\<lambda>nx p n m. \<exists>xs. chain nx p xs \<and> m = n + length xs", OF _ assms])
  fix f nx p n m
  assume IH: "\<And>nx p n m. f nx p n = Some m \<Longrightarrow> \<exists>xs. chain nx p xs \<and> m = n + length xs"
    and eq: "(if p = NULL then Some n else f nx (nx p) (Suc n)) = Some m"
  show "\<exists>xs. chain nx p xs \<and> m = n + length xs"
  proof (cases "p = NULL")
    case True
    with eq show ?thesis by (intro exI [of _ "[]"]) simp
  next
    case False
    with eq have "f nx (nx p) (Suc n) = Some m" by simp
    from IH [OF this] obtain xs where "chain nx (nx p) xs" "m = Suc n + length xs" by blast
    with False show ?thesis by (intro exI [of _ "p # xs"]) simp
  qed
qed

subsection \<open>The contract of an intrusive queue\<close>

text \<open>
  What the timers, the neighbour tables and the packet queues rely on: \<open>repr l xs\<close> relates a
  list to its items, in order. The lemmas of the locale are proved from the contract alone.
\<close>

locale intrusive_list =
  fixes repr :: "'l \<Rightarrow> ptr list \<Rightarrow> bool"
    and add :: "'l \<Rightarrow> ptr \<Rightarrow> 'l option"
    and push :: "'l \<Rightarrow> ptr \<Rightarrow> 'l option"
    and rem :: "'l \<Rightarrow> ptr \<Rightarrow> 'l option"
    and pop :: "'l \<Rightarrow> ptr \<times> 'l"
  assumes repr_distinct: "repr l xs \<Longrightarrow> distinct xs"
    and repr_nonnull: "repr l xs \<Longrightarrow> x \<in> set xs \<Longrightarrow> x \<noteq> NULL"
    and add_ok: "repr l xs \<Longrightarrow> x \<noteq> NULL \<Longrightarrow>
      \<exists>l'. add l x = Some l' \<and> repr l' (remove1 x xs @ [x])"
    and push_ok: "repr l xs \<Longrightarrow> x \<noteq> NULL \<Longrightarrow>
      \<exists>l'. push l x = Some l' \<and> repr l' (x # remove1 x xs)"
    and rem_ok: "repr l xs \<Longrightarrow> \<exists>l'. rem l x = Some l' \<and> repr l' (remove1 x xs)"
    and pop_ok: "repr l xs \<Longrightarrow>
      fst (pop l) = (case xs of [] \<Rightarrow> NULL | x # _ \<Rightarrow> x) \<and> repr (snd (pop l)) (tl xs)"
begin

fun add_all :: "'l \<Rightarrow> ptr list \<Rightarrow> 'l option" where
  "add_all l [] = Some l"
| "add_all l (x # xs) = add l x \<bind> (\<lambda>l'. add_all l' xs)"

fun pops :: "nat \<Rightarrow> 'l \<Rightarrow> ptr list" where
  "pops 0 l = []"
| "pops (Suc n) l = fst (pop l) # pops n (snd (pop l))"

lemma add_all_ok:
  "repr l xs \<Longrightarrow> distinct ys \<Longrightarrow> set ys \<inter> set xs = {} \<Longrightarrow> NULL \<notin> set ys \<Longrightarrow>
   \<exists>l'. add_all l ys = Some l' \<and> repr l' (xs @ ys)"
proof (induction ys arbitrary: l xs)
  case Nil
  then show ?case by simp
next
  case (Cons y ys)
  then obtain l1 where l1: "add l y = Some l1" "repr l1 (remove1 y xs @ [y])"
    using add_ok [of l xs y] by auto
  with Cons.prems have "repr l1 (xs @ [y])" by (simp add: remove1_idem)
  with Cons.prems have "\<exists>l'. add_all l1 ys = Some l' \<and> repr l' ((xs @ [y]) @ ys)"
    by (intro Cons.IH) auto
  with l1 show ?case by auto
qed

lemma pops_fifo: "repr l xs \<Longrightarrow> n \<le> length xs \<Longrightarrow> pops n l = take n xs"
proof (induction n arbitrary: l xs)
  case 0
  then show ?case by simp
next
  case (Suc n)
  then obtain y ys where xs: "xs = y # ys" by (cases xs) auto
  with Suc pop_ok [OF Suc.prems(1)] show ?case by simp
qed

lemma add_all_pops:
  assumes "repr l []" and "distinct ys" and "NULL \<notin> set ys"
  shows "map_option (pops (length ys)) (add_all l ys) = Some ys"
proof -
  obtain l' where "add_all l ys = Some l'" "repr l' ys"
    using add_all_ok [OF assms(1,2)] assms(3) by auto
  then show ?thesis by (simp add: pops_fifo)
qed

lemma add_then_rem:
  assumes "repr l xs" and "x \<noteq> NULL" and "x \<notin> set xs"
  shows "\<exists>l1 l2. add l x = Some l1 \<and> rem l1 x = Some l2 \<and> repr l2 xs"
proof -
  obtain l1 where l1: "add l x = Some l1" "repr l1 (xs @ [x])"
    using add_ok [OF assms(1,2)] assms(3) by (auto simp: remove1_idem)
  then show ?thesis using rem_ok [of l1 "xs @ [x]" x] assms(3) by (auto simp: remove1_idem)
qed

end

lemma list_pop_ok:
  "is_clist cl xs \<Longrightarrow>
   fst (list_pop cl) = (case xs of [] \<Rightarrow> NULL | x # _ \<Rightarrow> x) \<and> is_clist (snd (list_pop cl)) (tl xs)"
  using list_pop_correct [of cl xs] by blast

interpretation il: intrusive_list is_clist list_add list_push list_remove list_pop
  by unfold_locales
    (erule is_clist_distinct, erule is_clist_nonnull, assumption,
     metis list_add_correct, metis list_push_correct, metis list_remove_correct,
     erule list_pop_ok)

text \<open>A list built in memory from an array of items, for concrete runs.\<close>

fun link_up :: "(ptr \<Rightarrow> ptr) \<Rightarrow> ptr list \<Rightarrow> (ptr \<Rightarrow> ptr)" where
  "link_up nx [] = nx"
| "link_up nx [x] = nx(x := NULL)"
| "link_up nx (x # y # ys) = (link_up nx (y # ys))(x := y)"

definition clist_of :: "ptr list \<Rightarrow> clist" where
  "clist_of xs = \<lparr>cl_head = (case xs of [] \<Rightarrow> NULL | x # _ \<Rightarrow> x),
                  cl_next = link_up (\<lambda>_. NULL) xs\<rparr>"

lemma chain_link_up:
  "distinct xs \<Longrightarrow> NULL \<notin> set xs \<Longrightarrow> chain (link_up nx xs) (case xs of [] \<Rightarrow> NULL | x # _ \<Rightarrow> x) xs"
  by (induction nx xs rule: link_up.induct) (auto simp: heap_simps)

lemma is_clist_clist_of: "distinct xs \<Longrightarrow> NULL \<notin> set xs \<Longrightarrow> is_clist (clist_of xs) xs"
  using chain_link_up [of xs] by (simp add: is_clist_def clist_of_def)

subsection \<open>Properties\<close>

text \<open>
  on any well-formed list, adding an item returns, and puts the item at the end exactly
  once: it leaves the place it had before, if any, and the others keep their order. The
  \<open>next\<close> fields of all other objects in memory are untouched.
\<close>

theorem list_add_moves_to_end:
  assumes "is_clist cl xs" and "x \<noteq> NULL"
  shows "\<exists>cl'. list_add cl x = Some cl' \<and> is_clist cl' (remove1 x xs @ [x]) \<and>
    (\<forall>p. p \<notin> insert x (set xs) \<longrightarrow> cl_next cl' p = cl_next cl p)"
  using assms by (rule list_add_correct)

theorem list_add_moves_to_end_witness:
  "\<exists>cl'. list_add (clist_of [4, 8, 12]) 8 = Some cl' \<and> is_clist cl' [4, 12, 8]"
  using list_add_moves_to_end [OF is_clist_clist_of [of "[4, 8, 12]"], of 8] by auto

text \<open>
  C16: counting the items of a list returns exactly when the list is a null-terminated chain,
  and then gives its length; on a cyclic list the loop never ends.
\<close>

theorem list_length_returns_iff:
  "list_length cl = Some n \<longleftrightarrow> (\<exists>xs. is_clist cl xs \<and> n = length xs)"
  using length_loop_returns [of "cl_next cl" "cl_head cl" 0 n] length_loop_chain
  by (auto simp: list_length_def is_clist_def)

text \<open>
  items added one after the other to an empty list come out of \<open>list_pop\<close> in the order in
  which they were added.
\<close>

theorem list_add_pop_fifo:
  assumes "is_clist cl []" and "distinct ys" and "NULL \<notin> set ys"
  shows "map_option (il.pops (length ys)) (il.add_all cl ys) = Some ys"
  using assms by (rule il.add_all_pops)

theorem list_add_pop_fifo_witness:
  "map_option (il.pops 3) (il.add_all (clist_of []) [12, 4, 8]) = Some [12, 4, 8]"
  using list_add_pop_fifo [OF is_clist_clist_of [of "[]"], of "[12, 4, 8]"]
  by (simp add: eval_nat_numeral)

end
