(* ===== verification/Memb.thy ===== *)
theory Memb
  imports Emb6_Prelude
begin

section \<open>The block allocator (utils/src/memb.c)\<close>

text \<open>
  A pool is a reference-count array and a contiguous memory of \<open>m_num\<close> blocks of
  \<open>m_size\<close> bytes at \<open>m_mem\<close>. Block pointers are addresses, computed and compared as the
  code does. The counts are \<open>char\<close>s that only ever hold 0 and 1 (they are incremented only
  when they are 0), so they are integers here.
\<close>

record memb =
  m_size :: nat
  m_num :: nat
  m_count :: "int list"
  m_mem :: ptr
  m_data :: "u8 list"

definition memb_init :: "memb \<Rightarrow> memb" where
  "memb_init m = m\<lparr>m_count := replicate (m_num m) 0,
                   m_data := replicate (m_size m * m_num m) 0\<rparr>"

definition block_addr :: "memb \<Rightarrow> nat \<Rightarrow> ptr" where
  "block_addr m i = m_mem m + i * m_size m"

function alloc_loop :: "memb \<Rightarrow> nat \<Rightarrow> ptr \<times> memb" where
  "alloc_loop m i =
     (if i < m_num m then
        if m_count m ! i = 0
        then (block_addr m i, m\<lparr>m_count := (m_count m)[i := m_count m ! i + 1]\<rparr>)
        else alloc_loop m (Suc i)
      else (NULL, m))"
  by pat_completeness auto
termination by (relation "measure (\<lambda>(m, i). m_num m - i)") auto

declare alloc_loop.simps [simp del]

definition memb_alloc :: "memb \<Rightarrow> ptr \<times> memb" where
  "memb_alloc m = alloc_loop m 0"

text \<open>\<open>memb_allocm\<close>: the inner loop counts the free blocks from \<open>i\<close> on, up to \<open>n\<close>; the outer
  loop skips the counted blocks (\<open>i += j\<close>) and, by its own increment, the occupied block.\<close>

function run_loop :: "memb \<Rightarrow> int \<Rightarrow> nat \<Rightarrow> nat \<Rightarrow> nat" where
  "run_loop m n i j =
     (if j + i < m_num m \<and> int j < n then
        if m_count m ! (i + j) = 0 then run_loop m n i (Suc j) else j
      else j)"
  by pat_completeness auto
termination by (relation "measure (\<lambda>(m, n, i, j). m_num m - (i + j))") auto

declare run_loop.simps [simp del]

fun inc_run :: "int list \<Rightarrow> nat \<Rightarrow> nat \<Rightarrow> int list" where
  "inc_run c i 0 = c"
| "inc_run c i (Suc k) = inc_run (c[i := c ! i + 1]) (Suc i) k"

function allocm_loop :: "memb \<Rightarrow> int \<Rightarrow> nat \<Rightarrow> ptr \<times> memb" where
  "allocm_loop m n i =
     (if i < m_num m then
        if m_count m ! i = 0 then
          (let j = run_loop m n i 0
           in if int j < n then allocm_loop m n (Suc (i + j))
              else (block_addr m i, m\<lparr>m_count := inc_run (m_count m) i (nat n)\<rparr>))
        else allocm_loop m n (Suc i)
      else (NULL, m))"
  by pat_completeness auto
termination by (relation "measure (\<lambda>(m, n, i). m_num m - i)") auto

declare allocm_loop.simps [simp del]

definition memb_allocm :: "memb \<Rightarrow> int \<Rightarrow> ptr \<times> memb" where
  "memb_allocm m n = allocm_loop m n 0"

function free_loop :: "memb \<Rightarrow> ptr \<Rightarrow> nat \<Rightarrow> ptr \<Rightarrow> int \<times> memb" where
  "free_loop m p i ptr2 =
     (if i < m_num m then
        if ptr2 = p then
          (let c = (if m_count m ! i > 0 then (m_count m)[i := m_count m ! i - 1]
                    else m_count m)
           in (c ! i, m\<lparr>m_count := c\<rparr>))
        else free_loop m p (Suc i) (ptr2 + m_size m)
      else (-1, m))"
  by pat_completeness auto
termination by (relation "measure (\<lambda>(m, p, i, q). m_num m - i)") auto

declare free_loop.simps [simp del]

definition memb_free :: "memb \<Rightarrow> ptr \<Rightarrow> int \<times> memb" where
  "memb_free m p = free_loop m p 0 (m_mem m)"

text \<open>\<open>memb_freem\<close> decrements up to \<open>n\<close> counts from the block on, stopping at the pool's end.\<close>

fun dec_run :: "int list \<Rightarrow> nat \<Rightarrow> nat \<Rightarrow> nat \<Rightarrow> int list" where
  "dec_run c num i 0 = c"
| "dec_run c num i (Suc k) =
     (if i < num
      then dec_run (if c ! i > 0 then c[i := c ! i - 1] else c) num (Suc i) k
      else c)"

function freem_loop :: "memb \<Rightarrow> ptr \<Rightarrow> int \<Rightarrow> nat \<Rightarrow> ptr \<Rightarrow> int \<times> memb" where
  "freem_loop m p n i ptr2 =
     (if i < m_num m then
        if ptr2 = p then
          (let c = dec_run (m_count m) (m_num m) i (nat n)
           in (c ! i, m\<lparr>m_count := c\<rparr>))
        else freem_loop m p n (Suc i) (ptr2 + m_size m)
      else (-1, m))"
  by pat_completeness auto
termination by (relation "measure (\<lambda>(m, p, n, i, q). m_num m - i)") auto

declare freem_loop.simps [simp del]

definition memb_freem :: "memb \<Rightarrow> ptr \<Rightarrow> int \<Rightarrow> int \<times> memb" where
  "memb_freem m p n = freem_loop m p n 0 (m_mem m)"

definition memb_inmemb :: "memb \<Rightarrow> ptr \<Rightarrow> bool" where
  "memb_inmemb m p \<longleftrightarrow> m_mem m \<le> p \<and> p < m_mem m + m_num m * m_size m"

function numfree_loop :: "memb \<Rightarrow> nat \<Rightarrow> nat \<Rightarrow> nat" where
  "numfree_loop m i num_free =
     (if i < m_num m
      then numfree_loop m (Suc i) (if m_count m ! i = 0 then Suc num_free else num_free)
      else num_free)"
  by pat_completeness auto
termination by (relation "measure (\<lambda>(m, i, f). m_num m - i)") auto

declare numfree_loop.simps [simp del]

definition memb_numfree :: "memb \<Rightarrow> nat" where
  "memb_numfree m = numfree_loop m 0 0"

subsection \<open>The pool invariant\<close>

definition memb_ok :: "memb \<Rightarrow> bool" where
  "memb_ok m \<longleftrightarrow> length (m_count m) = m_num m \<and> set (m_count m) \<subseteq> {0, 1} \<and>
     0 < m_size m \<and> m_mem m \<noteq> NULL"

definition memb_used :: "memb \<Rightarrow> ptr set" where
  "memb_used m = {block_addr m i | i. i < m_num m \<and> m_count m ! i \<noteq> 0}"

definition same_pool :: "memb \<Rightarrow> memb \<Rightarrow> bool" where
  "same_pool m m' \<longleftrightarrow> m_size m' = m_size m \<and> m_num m' = m_num m \<and> m_mem m' = m_mem m"

lemma memb_ok_count: "memb_ok m \<Longrightarrow> i < m_num m \<Longrightarrow> m_count m ! i = 0 \<or> m_count m ! i = 1"
  using nth_mem [of i "m_count m"] by (auto simp: memb_ok_def simp del: nth_mem)

lemma block_addr_inj: "memb_ok m \<Longrightarrow> block_addr m i = block_addr m j \<longleftrightarrow> i = j"
  by (auto simp: memb_ok_def block_addr_def)

lemma block_addr_nonnull: "memb_ok m \<Longrightarrow> block_addr m i \<noteq> NULL"
  by (auto simp: memb_ok_def block_addr_def)

lemma block_addr_inmemb: "memb_ok m \<Longrightarrow> i < m_num m \<Longrightarrow> memb_inmemb m (block_addr m i)"
  by (auto simp: memb_ok_def block_addr_def memb_inmemb_def)

lemma memb_init_ok: "0 < m_size m \<Longrightarrow> m_mem m \<noteq> NULL \<Longrightarrow> memb_ok (memb_init m)"
  by (auto simp: memb_ok_def memb_init_def)

lemma memb_init_used: "memb_used (memb_init m) = {}"
  by (auto simp: memb_used_def memb_init_def)

subsection \<open>Allocation\<close>

lemma alloc_loop_some:
  "i \<le> k \<Longrightarrow> k < m_num m \<Longrightarrow> m_count m ! k = 0 \<Longrightarrow> \<forall>j. i \<le> j \<and> j < k \<longrightarrow> m_count m ! j \<noteq> 0 \<Longrightarrow>
   alloc_loop m i = (block_addr m k, m\<lparr>m_count := (m_count m)[k := 1]\<rparr>)"
proof (induction m i rule: alloc_loop.induct)
  case (1 m i)
  show ?case
  proof (cases "i = k")
    case True
    with 1 show ?thesis by (simp add: alloc_loop.simps [of m k])
  next
    case False
    with 1 show ?thesis by (simp add: alloc_loop.simps [of m i])
  qed
qed

lemma alloc_loop_none:
  "\<forall>j. i \<le> j \<and> j < m_num m \<longrightarrow> m_count m ! j \<noteq> 0 \<Longrightarrow> alloc_loop m i = (NULL, m)"
proof (induction m i rule: alloc_loop.induct)
  case (1 m i)
  then show ?case by (simp add: alloc_loop.simps [of m i])
qed

lemma memb_alloc_cases:
  obtains (full) "\<forall>j < m_num m. m_count m ! j \<noteq> 0" "memb_alloc m = (NULL, m)"
  | (block) k where "k < m_num m" "m_count m ! k = 0" "\<forall>j < k. m_count m ! j \<noteq> 0"
      "memb_alloc m = (block_addr m k, m\<lparr>m_count := (m_count m)[k := 1]\<rparr>)"
proof (cases "\<exists>k. k < m_num m \<and> m_count m ! k = 0")
  case False
  then show ?thesis using full by (simp add: memb_alloc_def alloc_loop_none)
next
  case True
  define k where "k = (LEAST k. k < m_num m \<and> m_count m ! k = 0)"
  have k: "k < m_num m \<and> m_count m ! k = 0" unfolding k_def using True by (rule LeastI_ex)
  have "m_count m ! j \<noteq> 0" if "j < k" for j
    using not_less_Least [of j "\<lambda>k. k < m_num m \<and> m_count m ! k = 0"] that k
    unfolding k_def by auto
  with k show ?thesis using block [of k] by (simp add: memb_alloc_def alloc_loop_some [of 0 k])
qed

lemma memb_set_ok: "memb_ok m \<Longrightarrow> v = 0 \<or> v = 1 \<Longrightarrow> memb_ok (m\<lparr>m_count := (m_count m)[k := v]\<rparr>)"
  using set_update_subset_insert [of "m_count m" k v] by (auto simp: memb_ok_def)

lemma memb_used_set:
  "memb_ok m \<Longrightarrow> k < m_num m \<Longrightarrow>
   memb_used (m\<lparr>m_count := (m_count m)[k := 1]\<rparr>) = insert (block_addr m k) (memb_used m)"
  by (auto simp: memb_used_def memb_ok_def block_addr_def nth_list_update split: if_splits)

lemma memb_used_clear:
  "memb_ok m \<Longrightarrow> k < m_num m \<Longrightarrow>
   memb_used (m\<lparr>m_count := (m_count m)[k := 0]\<rparr>) = memb_used m - {block_addr m k}"
  by (auto simp: memb_used_def memb_ok_def block_addr_def nth_list_update split: if_splits)

lemma memb_used_block:
  "memb_ok m \<Longrightarrow> i < m_num m \<Longrightarrow> block_addr m i \<in> memb_used m \<longleftrightarrow> m_count m ! i \<noteq> 0"
  by (auto simp: memb_used_def block_addr_inj)

lemma memb_alloc_ok [inv_intros]: "memb_ok m \<Longrightarrow> memb_ok (snd (memb_alloc m))"
  by (cases rule: memb_alloc_cases [of m]) (auto intro: memb_set_ok)

lemma memb_alloc_block:
  assumes "memb_ok m" and "fst (memb_alloc m) \<noteq> NULL"
  shows "fst (memb_alloc m) \<notin> memb_used m \<and> memb_inmemb m (fst (memb_alloc m)) \<and>
    memb_used (snd (memb_alloc m)) = insert (fst (memb_alloc m)) (memb_used m)"
proof (cases rule: memb_alloc_cases [of m])
  case full
  then show ?thesis using assms by simp
next
  case (block k)
  then show ?thesis
    using assms by (simp add: memb_used_block memb_used_set block_addr_inmemb)
qed

lemma memb_alloc_full:
  assumes "memb_ok m"
  shows "fst (memb_alloc m) = NULL \<longleftrightarrow> (\<forall>i < m_num m. block_addr m i \<in> memb_used m)"
proof (cases rule: memb_alloc_cases [of m])
  case full
  then show ?thesis using assms by (simp add: memb_used_block)
next
  case (block k)
  then show ?thesis using assms by (auto simp: memb_used_block block_addr_nonnull)
qed

lemma memb_alloc_fail_unchanged: "fst (memb_alloc m) = NULL \<Longrightarrow> memb_ok m \<Longrightarrow> snd (memb_alloc m) = m"
  by (cases rule: memb_alloc_cases [of m]) (auto dest: block_addr_nonnull)

subsection \<open>Release\<close>

lemma free_loop_block:
  "memb_ok m \<Longrightarrow> i \<le> k \<Longrightarrow> k < m_num m \<Longrightarrow>
   free_loop m (block_addr m k) i (block_addr m i) = (0, m\<lparr>m_count := (m_count m)[k := 0]\<rparr>)"
proof (induction "m_num m - i" arbitrary: i)
  case 0
  then show ?case by simp
next
  case (Suc n)
  have next_block: "block_addr m i + m_size m = block_addr m (Suc i)"
    by (simp add: block_addr_def)
  show ?case
  proof (cases "i = k")
    case True
    have "m_count m ! k = 0 \<Longrightarrow> (m_count m)[k := 0] = m_count m" by (metis list_update_id)
    then show ?thesis
      using True Suc.prems memb_ok_count [of m k]
      by (auto simp: free_loop.simps [of m _ k] memb_ok_def)
  next
    case False
    then have "free_loop m (block_addr m k) (Suc i) (block_addr m (Suc i))
        = (0, m\<lparr>m_count := (m_count m)[k := 0]\<rparr>)"
      using Suc by (intro Suc.hyps(1)) auto
    then show ?thesis using False Suc.prems
      by (simp add: free_loop.simps [of m _ i] block_addr_inj next_block)
  qed
qed

lemma free_loop_foreign:
  "\<forall>k. i \<le> k \<and> k < m_num m \<longrightarrow> block_addr m k \<noteq> p \<Longrightarrow> free_loop m p i (block_addr m i) = (-1, m)"
proof (induction "m_num m - i" arbitrary: i)
  case 0
  then show ?case by (simp add: free_loop.simps [of m _ i])
next
  case (Suc n)
  have "block_addr m i + m_size m = block_addr m (Suc i)" by (simp add: block_addr_def)
  moreover have "free_loop m p (Suc i) (block_addr m (Suc i)) = (-1, m)"
    using Suc by (intro Suc.hyps(1)) auto
  ultimately show ?case using Suc by (simp add: free_loop.simps [of m _ i])
qed

lemma memb_free_block:
  "memb_ok m \<Longrightarrow> k < m_num m \<Longrightarrow>
   memb_free m (block_addr m k) = (0, m\<lparr>m_count := (m_count m)[k := 0]\<rparr>)"
  using free_loop_block [of m 0 k] by (simp add: memb_free_def block_addr_def)

lemma memb_free_foreign:
  "\<forall>k < m_num m. block_addr m k \<noteq> p \<Longrightarrow> memb_free m p = (-1, m)"
  using free_loop_foreign [of 0 m p] by (simp add: memb_free_def block_addr_def)

lemma memb_free_ok [inv_intros]: "memb_ok m \<Longrightarrow> memb_ok (snd (memb_free m p))"
proof (cases "\<exists>k < m_num m. block_addr m k = p")
  case True
  then show "memb_ok m \<Longrightarrow> ?thesis" by (auto simp: memb_free_block memb_set_ok)
next
  case False
  then show "memb_ok m \<Longrightarrow> ?thesis" by (simp add: memb_free_foreign)
qed

lemma memb_free_used: "memb_ok m \<Longrightarrow> memb_used (snd (memb_free m p)) = memb_used m - {p}"
proof (cases "\<exists>k < m_num m. block_addr m k = p")
  case True
  then show "memb_ok m \<Longrightarrow> ?thesis" by (auto simp: memb_free_block memb_used_clear)
next
  case False
  then have "p \<notin> memb_used m" by (auto simp: memb_used_def)
  with False show "memb_ok m \<Longrightarrow> ?thesis" by (simp add: memb_free_foreign)
qed

lemma memb_alloc_same_pool: "same_pool m (snd (memb_alloc m))"
  by (cases rule: memb_alloc_cases [of m]) (auto simp: same_pool_def)

lemma memb_free_same_pool: "memb_ok m \<Longrightarrow> same_pool m (snd (memb_free m p))"
  by (cases "\<exists>k < m_num m. block_addr m k = p")
    (auto simp: same_pool_def memb_free_block memb_free_foreign)

subsection \<open>Several consecutive blocks\<close>

lemma run_loop_spec:
  "j \<le> run_loop m n i j \<and> (\<forall>k. j \<le> k \<and> k < run_loop m n i j \<longrightarrow> i + k < m_num m \<and> m_count m ! (i + k) = 0) \<and>
   (int (run_loop m n i j) < n \<longrightarrow>
      m_num m \<le> i + run_loop m n i j \<or> m_count m ! (i + run_loop m n i j) \<noteq> 0) \<and>
   (int j \<le> max 0 n \<longrightarrow> int (run_loop m n i j) \<le> max 0 n)"
proof (induction m n i j rule: run_loop.induct)
  case (1 m n i j)
  show ?case
  proof (cases "j + i < m_num m \<and> int j < n \<and> m_count m ! (i + j) = 0")
    case True
    then have eq: "run_loop m n i j = run_loop m n i (Suc j)" by (simp add: run_loop.simps [of m n i j])
    have IH: "Suc j \<le> run_loop m n i (Suc j) \<and>
      (\<forall>k. Suc j \<le> k \<and> k < run_loop m n i (Suc j) \<longrightarrow> i + k < m_num m \<and> m_count m ! (i + k) = 0) \<and>
      (int (run_loop m n i (Suc j)) < n \<longrightarrow>
        m_num m \<le> i + run_loop m n i (Suc j) \<or> m_count m ! (i + run_loop m n i (Suc j)) \<noteq> 0) \<and>
      (int (Suc j) \<le> max 0 n \<longrightarrow> int (run_loop m n i (Suc j)) \<le> max 0 n)"
      using 1 True by simp
    have "i + k < m_num m \<and> m_count m ! (i + k) = 0" if "j \<le> k" "k < run_loop m n i (Suc j)" for k
    proof (cases "k = j")
      case True
      then show ?thesis using \<open>j + i < m_num m \<and> int j < n \<and> m_count m ! (i + j) = 0\<close> by simp
    next
      case False
      with that have "Suc j \<le> k \<and> k < run_loop m n i (Suc j)" by simp
      with IH show ?thesis by blast
    qed
    then show ?thesis using IH True unfolding eq by auto
  next
    case False
    then show ?thesis by (auto simp: run_loop.simps [of m n i j] add.commute)
  qed
qed

lemma length_inc_run [simp]: "length (inc_run c i k) = length c"
  by (induction c i k rule: inc_run.induct) auto

lemma inc_run_nth:
  "i + k \<le> length c \<Longrightarrow> j < length c \<Longrightarrow>
   inc_run c i k ! j = (if i \<le> j \<and> j < i + k then c ! j + 1 else c ! j)"
  by (induction c i k rule: inc_run.induct) (auto simp: nth_list_update)

text \<open>A run of \<open>n\<close> free blocks at \<open>i\<close>.\<close>

definition free_run :: "memb \<Rightarrow> nat \<Rightarrow> nat \<Rightarrow> bool" where
  "free_run m n i \<longleftrightarrow> i + n \<le> m_num m \<and> (\<forall>j. i \<le> j \<and> j < i + n \<longrightarrow> m_count m ! j = 0)"

lemma run_loop_full:
  assumes "\<not> int (run_loop m n i 0) < n" and "i < m_num m"
  shows "free_run m (nat n) i"
proof (cases "n \<le> 0")
  case True
  then show ?thesis using assms(2) by (simp add: free_run_def)
next
  case False
  with run_loop_spec [of 0 m n i] assms(1) have r: "run_loop m n i 0 = nat n" by auto
  have all: "k < nat n \<Longrightarrow> i + k < m_num m \<and> m_count m ! (i + k) = 0" for k
    using run_loop_spec [of 0 m n i] r by auto
  moreover have "i + nat n \<le> m_num m" using all [of "nat n - 1"] False by auto
  moreover have "m_count m ! j = 0" if "i \<le> j" "j < i + nat n" for j
    using all [of "j - i"] that by simp
  ultimately show ?thesis by (simp add: free_run_def)
qed

lemma run_loop_short:
  assumes "int (run_loop m n i 0) < n" and "i \<le> k" and "k \<le> i + run_loop m n i 0"
  shows "\<not> free_run m (nat n) k"
proof
  let ?r = "run_loop m n i 0"
  assume f: "free_run m (nat n) k"
  have "i + ?r < k + nat n" using assms by linarith
  with f assms(3) have "i + ?r < m_num m" and "m_count m ! (i + ?r) = 0"
    by (auto simp: free_run_def)
  with run_loop_spec [of 0 m n i] assms show False by auto
qed

lemma allocm_loop_cases:
  "memb_ok m \<Longrightarrow> 0 < n \<Longrightarrow>
   (allocm_loop m n i = (NULL, m) \<and> (\<forall>k \<ge> i. \<not> free_run m (nat n) k)) \<or>
   (\<exists>k \<ge> i. k < m_num m \<and> free_run m (nat n) k \<and> (\<forall>k' \<ge> i. k' < k \<longrightarrow> \<not> free_run m (nat n) k') \<and>
      allocm_loop m n i = (block_addr m k, m\<lparr>m_count := inc_run (m_count m) k (nat n)\<rparr>))"
proof (induction m n i rule: allocm_loop.induct)
  case (1 m n i)
  let ?r = "run_loop m n i 0"
  consider (stop) "\<not> i < m_num m" | (busy) "i < m_num m" "m_count m ! i \<noteq> 0"
    | (short) "i < m_num m" "m_count m ! i = 0" "int ?r < n"
    | (found) "i < m_num m" "m_count m ! i = 0" "\<not> int ?r < n" by blast
  then show ?case
  proof cases
    case stop
    then show ?thesis using "1.prems"
      by (auto simp: allocm_loop.simps [of m n i] free_run_def)
  next
    case busy
    then have no: "\<not> free_run m (nat n) i" using "1.prems" by (auto simp: free_run_def)
    have "allocm_loop m n i = allocm_loop m n (Suc i)"
      using busy by (simp add: allocm_loop.simps [of m n i])
    with "1.IH"(2) [OF busy "1.prems"] no show ?thesis
      by (metis Suc_leI le_neq_implies_less Suc_leD)
  next
    case short
    have no: "i \<le> k \<Longrightarrow> k < Suc (i + ?r) \<Longrightarrow> \<not> free_run m (nat n) k" for k
      using run_loop_short [OF short(3), of k] by simp
    have eq: "allocm_loop m n i = allocm_loop m n (Suc (i + ?r))"
      using short by (simp add: allocm_loop.simps [of m n i] Let_def)
    have le: "k \<ge> Suc (i + ?r) \<Longrightarrow> k \<ge> i" for k by simp
    from "1.IH"(1) [OF short(1,2) refl short(3) "1.prems"] show ?thesis
      unfolding eq using no le by (metis not_less)
  next
    case found
    have "free_run m (nat n) i" by (rule run_loop_full [OF found(3,1)])
    moreover have "allocm_loop m n i = (block_addr m i, m\<lparr>m_count := inc_run (m_count m) i (nat n)\<rparr>)"
      using found by (simp add: allocm_loop.simps [of m n i] Let_def)
    ultimately show ?thesis using found(1) by auto
  qed
qed

lemma memb_used_inc_run:
  assumes "memb_ok m" and "free_run m k i"
  shows "memb_ok (m\<lparr>m_count := inc_run (m_count m) i k\<rparr>) \<and>
    memb_used (m\<lparr>m_count := inc_run (m_count m) i k\<rparr>)
      = memb_used m \<union> {block_addr m j | j. i \<le> j \<and> j < i + k}"
proof -
  have len: "length (m_count m) = m_num m" and ik: "i + k \<le> m_num m"
    using assms by (auto simp: memb_ok_def free_run_def)
  have at: "inc_run (m_count m) i k ! j = (if i \<le> j \<and> j < i + k then 1 else m_count m ! j)"
    if "j < m_num m" for j
  proof (cases "i \<le> j \<and> j < i + k")
    case True
    then have "m_count m ! j = 0" using assms(2) by (auto simp: free_run_def)
    with True that ik show ?thesis by (simp add: inc_run_nth len)
  next
    case False
    with that ik show ?thesis by (auto simp: inc_run_nth len)
  qed
  have "set (inc_run (m_count m) i k) \<subseteq> {0, 1}"
  proof
    fix x assume "x \<in> set (inc_run (m_count m) i k)"
    then obtain j where j: "j < m_num m" "x = inc_run (m_count m) i k ! j"
      by (auto simp: in_set_conv_nth len)
    then show "x \<in> {0, 1}" using at [OF j(1)] memb_ok_count [OF assms(1) j(1)] by auto
  qed
  then have "memb_ok (m\<lparr>m_count := inc_run (m_count m) i k\<rparr>)"
    using assms(1) by (simp add: memb_ok_def)
  moreover have "memb_used (m\<lparr>m_count := inc_run (m_count m) i k\<rparr>)
      = memb_used m \<union> {block_addr m j | j. i \<le> j \<and> j < i + k}"
  proof -
    have "memb_used (m\<lparr>m_count := inc_run (m_count m) i k\<rparr>)
        = {block_addr m j | j. j < m_num m \<and> inc_run (m_count m) i k ! j \<noteq> 0}"
      by (simp add: memb_used_def block_addr_def)
    also have "\<dots> = {block_addr m j | j. j < m_num m \<and> (i \<le> j \<and> j < i + k \<or> m_count m ! j \<noteq> 0)}"
      using at by (metis (mono_tags, opaque_lifting) zero_neq_one)
    also have "\<dots> = memb_used m \<union> {block_addr m j | j. i \<le> j \<and> j < i + k}"
      using ik unfolding memb_used_def by auto
    finally show ?thesis .
  qed
  ultimately show ?thesis ..
qed

subsection \<open>Counting the free blocks\<close>

lemma numfree_loop_count:
  "numfree_loop m i f = f + card {k. i \<le> k \<and> k < m_num m \<and> m_count m ! k = 0}"
proof (induction m i f rule: numfree_loop.induct)
  case (1 m i f)
  let ?S = "\<lambda>i. {k. i \<le> k \<and> k < m_num m \<and> m_count m ! k = 0}"
  have fin: "finite (?S (Suc i))" by simp
  show ?case
  proof (cases "i < m_num m")
    case True
    have "?S i = (if m_count m ! i = 0 then insert i (?S (Suc i)) else ?S (Suc i))"
      using True by (auto simp: Suc_le_eq order.order_iff_strict)
    then have "card (?S i) = card (?S (Suc i)) + (if m_count m ! i = 0 then 1 else 0)"
      using fin by (simp add: card_insert_disjoint)
    then show ?thesis using 1 True by (simp add: numfree_loop.simps [of m i f])
  next
    case False
    then have "?S i = {}" by auto
    with False show ?thesis by (simp only: numfree_loop.simps [of m i f] if_False card.empty add_0_right)
  qed
qed

lemma memb_numfree_card: "memb_numfree m = card {k. k < m_num m \<and> m_count m ! k = 0}"
  by (simp add: memb_numfree_def numfree_loop_count)

subsection \<open>The contract of a block pool\<close>

locale block_pool =
  fixes ok :: "'m \<Rightarrow> bool"
    and used :: "'m \<Rightarrow> ptr set"
    and alloc :: "'m \<Rightarrow> ptr \<times> 'm"
    and free :: "'m \<Rightarrow> ptr \<Rightarrow> int \<times> 'm"
  assumes alloc_ok: "ok m \<Longrightarrow> ok (snd (alloc m))"
    and free_ok: "ok m \<Longrightarrow> ok (snd (free m p))"
    and alloc_fresh: "ok m \<Longrightarrow> fst (alloc m) \<noteq> NULL \<Longrightarrow>
      fst (alloc m) \<notin> used m \<and> used (snd (alloc m)) = insert (fst (alloc m)) (used m)"
    and alloc_fail: "ok m \<Longrightarrow> fst (alloc m) = NULL \<Longrightarrow> snd (alloc m) = m"
    and free_used: "ok m \<Longrightarrow> used (snd (free m p)) = used m - {p}"
begin

fun allocs :: "nat \<Rightarrow> 'm \<Rightarrow> ptr list \<times> 'm" where
  "allocs 0 m = ([], m)"
| "allocs (Suc n) m =
     (let (p, m1) = alloc m; (ps, m2) = allocs n m1
      in (if p = NULL then ps else p # ps, m2))"

lemma alloc_then_free:
  "ok m \<Longrightarrow> fst (alloc m) \<noteq> NULL \<Longrightarrow> used (snd (free (snd (alloc m)) (fst (alloc m)))) = used m"
  using alloc_fresh [of m] free_used [of "snd (alloc m)" "fst (alloc m)"] alloc_ok [of m] by auto

lemma allocs_sound:
  "ok m \<Longrightarrow> ok (snd (allocs n m)) \<and> distinct (fst (allocs n m)) \<and>
    set (fst (allocs n m)) \<inter> used m = {} \<and>
    used (snd (allocs n m)) = used m \<union> set (fst (allocs n m))"
proof (induction n arbitrary: m)
  case 0
  then show ?case by simp
next
  case (Suc n)
  obtain p m1 where a: "alloc m = (p, m1)" by (cases "alloc m")
  obtain ps m2 where as: "allocs n m1 = (ps, m2)" by (cases "allocs n m1")
  have IH: "ok m2 \<and> distinct ps \<and> set ps \<inter> used m1 = {} \<and> used m2 = used m1 \<union> set ps"
    using Suc.IH [of m1] alloc_ok [OF Suc.prems] a as by simp
  show ?case
  proof (cases "p = NULL")
    case True
    with alloc_fail [OF Suc.prems] a have "m1 = m" by simp
    with IH True a as show ?thesis by simp
  next
    case False
    with alloc_fresh [OF Suc.prems] a have "p \<notin> used m" "used m1 = insert p (used m)" by auto
    with IH False a as show ?thesis by auto
  qed
qed

end

interpretation bp: block_pool memb_ok memb_used memb_alloc memb_free
  by unfold_locales
    (erule memb_alloc_ok, erule memb_free_ok, blast dest: memb_alloc_block,
     erule (1) memb_alloc_fail_unchanged, erule memb_free_used)

subsection \<open>Properties\<close>

definition sample_pool :: memb where
  "sample_pool = \<lparr>m_size = 8, m_num = 5, m_count = [0, 1, 0, 0, 1], m_mem = 1000, m_data = []\<rparr>"

lemma sample_pool_ok: "memb_ok sample_pool"
  by (simp add: memb_ok_def sample_pool_def)

text \<open>
  an allocation returns the null pointer exactly when every block of the pool is in use;
  otherwise it returns a block of the pool that was not in use and marks that block, and no
  other, as used.
\<close>

theorem memb_alloc_sound:
  assumes "memb_ok m"
  shows "(fst (memb_alloc m) = NULL \<longleftrightarrow> (\<forall>i < m_num m. block_addr m i \<in> memb_used m)) \<and>
    (fst (memb_alloc m) \<noteq> NULL \<longrightarrow>
      memb_inmemb m (fst (memb_alloc m)) \<and> fst (memb_alloc m) \<notin> memb_used m \<and>
      memb_used (snd (memb_alloc m)) = insert (fst (memb_alloc m)) (memb_used m)) \<and>
    memb_ok (snd (memb_alloc m))"
  using memb_alloc_full [OF assms] memb_alloc_block [OF assms] memb_alloc_ok [OF assms] by blast

theorem memb_alloc_sound_witness:
  "fst (memb_alloc sample_pool) = 1000 \<and> 1000 \<notin> memb_used sample_pool"
proof -
  have "fst (memb_alloc sample_pool) = 1000"
    by (simp add: memb_alloc_def alloc_loop.simps sample_pool_def block_addr_def)
  then show ?thesis using memb_alloc_sound [OF sample_pool_ok] by auto
qed

text \<open>
  C17: the search for \<open>n\<close> consecutive blocks, which skips ahead over the blocks it has
  counted, misses nothing: it returns the null pointer only when the pool has no run of \<open>n\<close>
  free blocks, and otherwise the first such run, whose blocks it marks as used.
\<close>

theorem memb_allocm_first_fit:
  assumes "memb_ok m" and "0 < n"
  shows "(memb_allocm m n = (NULL, m) \<and> (\<forall>k. \<not> free_run m (nat n) k)) \<or>
    (\<exists>k. free_run m (nat n) k \<and> (\<forall>k' < k. \<not> free_run m (nat n) k') \<and>
      fst (memb_allocm m n) = block_addr m k \<and> memb_ok (snd (memb_allocm m n)) \<and>
      memb_used (snd (memb_allocm m n))
        = memb_used m \<union> {block_addr m j | j. k \<le> j \<and> j < k + nat n})"
  using allocm_loop_cases [OF assms, of 0] memb_used_inc_run [OF assms(1)]
  unfolding memb_allocm_def by fastforce

theorem memb_allocm_first_fit_witness:
  "fst (memb_allocm sample_pool 2) = block_addr sample_pool 2 \<and> \<not> free_run sample_pool 2 1"
proof -
  have f: "fst (memb_allocm sample_pool 2) = block_addr sample_pool 2"
    by (simp add: memb_allocm_def allocm_loop.simps run_loop.simps sample_pool_def block_addr_def)
  then have "fst (memb_allocm sample_pool 2) \<noteq> NULL"
    by (simp add: block_addr_nonnull sample_pool_ok)
  with f show ?thesis
    using memb_allocm_first_fit [OF sample_pool_ok, of 2] block_addr_inj [OF sample_pool_ok]
    by (force simp: sample_pool_ok)
qed

text \<open>
  blocks handed out by successive allocations are pairwise different and disjoint from
  the blocks that were in use, and the pool records exactly these blocks as used.
\<close>

theorem memb_allocs_disjoint:
  assumes "memb_ok m"
  shows "distinct (fst (bp.allocs n m)) \<and> set (fst (bp.allocs n m)) \<inter> memb_used m = {} \<and>
    memb_used (snd (bp.allocs n m)) = memb_used m \<union> set (fst (bp.allocs n m))"
  using bp.allocs_sound [OF assms] by blast

theorem memb_allocs_disjoint_witness: "distinct (fst (bp.allocs 3 sample_pool))"
  using memb_allocs_disjoint [OF sample_pool_ok] by blast

text \<open>
  releasing the block an allocation returned gives back the set of used blocks of before
  the allocation, releasing it once more changes nothing, and releasing a pointer that is not
  the start of a block is refused with -1 and leaves the pool as it is.
\<close>

theorem memb_free_inverse:
  assumes "memb_ok m" and "fst (memb_alloc m) = p" and "p \<noteq> NULL"
    and "\<forall>k < m_num m. block_addr m k \<noteq> q"
  shows "memb_used (snd (memb_free (snd (memb_alloc m)) p)) = memb_used m \<and>
    memb_used (snd (memb_free (snd (memb_free (snd (memb_alloc m)) p)) p)) = memb_used m \<and>
    memb_free m q = (-1, m)"
  using assms bp.alloc_then_free [OF assms(1)] memb_alloc_block [OF assms(1)]
  by (auto simp: memb_free_used memb_free_ok memb_alloc_ok memb_free_foreign)

theorem memb_free_inverse_witness:
  "memb_used (snd (memb_free (snd (memb_alloc sample_pool)) 1000)) = memb_used sample_pool \<and>
   memb_free sample_pool 1001 = (-1, sample_pool)"
proof -
  have "fst (memb_alloc sample_pool) = 1000"
    by (simp add: memb_alloc_def alloc_loop.simps sample_pool_def block_addr_def)
  moreover have "\<forall>k < m_num sample_pool. block_addr sample_pool k \<noteq> 1001"
    by (auto simp: sample_pool_def block_addr_def)
  ultimately show ?thesis
    using memb_free_inverse [OF sample_pool_ok, of 1000 1001] by simp
qed

end
