(* ===== verification/Ringbufs.thy ===== *)
theory Ringbufs
  imports Emb6_Prelude
begin

section \<open>Ring buffers (utils/src/ringbufindex.c, utils/src/ringbuffer.c)\<close>

text \<open>
  \<open>ringbufindex\<close> keeps the two indices of a ring whose slots are elsewhere; it is what the
  TSCH packet queues are built on. The C expression \<open>((put_ptr - get_ptr) & mask)\<close> is an
  \<open>int\<close> computation masked with an 8-bit mask, which has the same value as the 8-bit word
  expression used here.

  \<open>ringbuffer\<close> is a byte ring of 1024 slots that overwrites its oldest byte when it is full.
\<close>

subsection \<open>ringbufindex\<close>

record ringbufindex =
  rbi_mask :: u8
  put_ptr :: u8
  get_ptr :: u8

definition ringbufindex_init :: "u8 \<Rightarrow> ringbufindex" where
  "ringbufindex_init sz = \<lparr>rbi_mask = sz - 1, put_ptr = 0, get_ptr = 0\<rparr>"

definition ringbufindex_put :: "ringbufindex \<Rightarrow> int \<times> ringbufindex" where
  "ringbufindex_put r =
     (if (put_ptr r - get_ptr r) AND rbi_mask r = rbi_mask r then (0, r)
      else (1, r\<lparr>put_ptr := (put_ptr r + 1) AND rbi_mask r\<rparr>))"

definition ringbufindex_peek_put :: "ringbufindex \<Rightarrow> int" where
  "ringbufindex_peek_put r =
     (if (put_ptr r - get_ptr r) AND rbi_mask r = rbi_mask r then -1 else uint (put_ptr r))"

definition ringbufindex_get :: "ringbufindex \<Rightarrow> int \<times> ringbufindex" where
  "ringbufindex_get r =
     (if (put_ptr r - get_ptr r) AND rbi_mask r > 0
      then (uint (get_ptr r), r\<lparr>get_ptr := (get_ptr r + 1) AND rbi_mask r\<rparr>)
      else (-1, r))"

definition ringbufindex_peek_get :: "ringbufindex \<Rightarrow> int" where
  "ringbufindex_peek_get r =
     (if (put_ptr r - get_ptr r) AND rbi_mask r > 0 then uint (get_ptr r) else -1)"

definition ringbufindex_size :: "ringbufindex \<Rightarrow> int" where
  "ringbufindex_size r = uint (rbi_mask r) + 1"

definition ringbufindex_elements :: "ringbufindex \<Rightarrow> int" where
  "ringbufindex_elements r = uint ((put_ptr r - get_ptr r) AND rbi_mask r)"

definition ringbufindex_full :: "ringbufindex \<Rightarrow> bool" where
  "ringbufindex_full r \<longleftrightarrow> (put_ptr r - get_ptr r) AND rbi_mask r = rbi_mask r"

definition ringbufindex_empty :: "ringbufindex \<Rightarrow> bool" where
  "ringbufindex_empty r \<longleftrightarrow> ringbufindex_elements r = 0"

subsection \<open>Circular runs of indices\<close>

definition circ :: "nat \<Rightarrow> nat \<Rightarrow> nat \<Rightarrow> nat list" where
  "circ sz g n = map (\<lambda>i. (g + i) mod sz) [0..<n]"

lemma length_circ [simp]: "length (circ sz g n) = n"
  by (simp add: circ_def)

lemma circ_0 [simp]: "circ sz g 0 = []"
  by (simp add: circ_def)

lemma circ_snoc: "circ sz g (Suc n) = circ sz g n @ [(g + n) mod sz]"
  by (simp add: circ_def)

lemma circ_Cons: "circ sz g (Suc n) = g mod sz # circ sz (Suc g mod sz) n"
proof -
  have "[0..<Suc n] = 0 # map Suc [0..<n]" by (simp add: map_Suc_upt upt_conv_Cons del: upt_Suc)
  then show ?thesis by (simp add: circ_def comp_def mod_simps del: upt_Suc)
qed

lemma circ_nth: "i < n \<Longrightarrow> circ sz g n ! i = (g + i) mod sz"
  by (simp add: circ_def)

lemma mod_add_left_inj:
  assumes "(g + i) mod sz = (g + j) mod sz" and "i < sz" and "j < (sz::nat)"
  shows "i = j"
proof -
  have "int (g + i) mod int sz = int (g + j) mod int sz" using assms(1) by (metis of_nat_mod)
  then have d: "int sz dvd int i - int j" by (simp add: mod_eq_dvd_iff)
  then have "int i - int j = 0" using assms(2,3) zdvd_not_zless [of "int i - int j" "int sz"]
      zdvd_not_zless [of "int j - int i" "int sz"] by (cases i j rule: linorder_cases) (auto simp: dvd_diff_commute)
  then show ?thesis by simp
qed

lemma distinct_circ: "n \<le> sz \<Longrightarrow> distinct (circ sz g n)"
  by (auto simp: circ_def distinct_map inj_on_def dest: mod_add_left_inj)

lemma circ_fresh: "n < sz \<Longrightarrow> (g + n) mod sz \<notin> set (circ sz g n)"
  using distinct_circ [of "Suc n" sz g] by (simp add: circ_snoc)

subsection \<open>Masked index arithmetic\<close>

lemma unat_sub_and_mask:
  fixes a b :: "'a::len word"
  assumes "k \<le> LENGTH('a)" and "unat a < 2 ^ k" and "unat b < 2 ^ k"
  shows "unat ((a - b) AND mask k) = (unat a + 2 ^ k - unat b) mod 2 ^ k"
proof -
  let ?m = "LENGTH('a)"
  have d: "(2::nat) ^ ?m = 2 ^ k * 2 ^ (?m - k)" using assms(1) by (simp flip: power_add)
  have dvd: "(2::nat) ^ k dvd 2 ^ ?m" using assms(1) by (rule le_imp_power_dvd)
  have "unat a + 2 ^ ?m - unat b = (unat a + 2 ^ k - unat b) + 2 ^ k * (2 ^ (?m - k) - 1)"
    using assms(3) power_increasing [OF assms(1), of "2::nat"] d
    by (simp add: diff_mult_distrib2)
  then have "(unat a + 2 ^ ?m - unat b) mod 2 ^ k = (unat a + 2 ^ k - unat b) mod 2 ^ k"
    by (simp only: mod_mult_self2)
  moreover have "unat ((a - b) AND mask k) = (unat a + 2 ^ ?m - unat b) mod 2 ^ k"
    using dvd by (simp add: and_mask_eq_mod unat_diff_mod mod_mod_cancel)
  ultimately show ?thesis by simp
qed

lemma unat_inc_and_mask:
  fixes a :: "'a::len word"
  assumes "k \<le> LENGTH('a)"
  shows "unat ((a + 1) AND mask k) = Suc (unat a) mod 2 ^ k"
proof -
  have dvd: "(2::nat) ^ k dvd 2 ^ LENGTH('a)" using assms by (rule le_imp_power_dvd)
  then show ?thesis
    by (simp add: and_mask_eq_mod unat_word_ariths mod_mod_cancel)
qed

lemma unat_add_and_mask:
  fixes a b :: "'a::len word"
  assumes "k \<le> LENGTH('a)"
  shows "unat ((a + b) AND mask k) = (unat a + unat b) mod 2 ^ k"
proof -
  have dvd: "(2::nat) ^ k dvd 2 ^ LENGTH('a)" using assms by (rule le_imp_power_dvd)
  then show ?thesis
    by (simp add: and_mask_eq_mod unat_word_ariths mod_mod_cancel)
qed

lemma unat_mask8: "k \<le> 8 \<Longrightarrow> unat (mask k :: u8) = 2 ^ k - 1"
proof -
  assume "k \<le> 8"
  then have "k = 0 \<or> k = 1 \<or> k = 2 \<or> k = 3 \<or> k = 4 \<or> k = 5 \<or> k = 6 \<or> k = 7 \<or> k = 8" by linarith
  then show ?thesis by (elim disjE) (simp_all add: mask_eq_exp_minus_1)
qed

lemma ring_distance:
  fixes a b s :: nat
  assumes "a < s" and "b < s"
  shows "(b + (a + s - b) mod s) mod s = a" and "(a + s - b) mod s < s"
proof -
  have "(b + (a + s - b) mod s) mod s = (b + (a + s - b)) mod s" by (simp add: mod_simps)
  also have "b + (a + s - b) = a + s" using assms by simp
  finally show "(b + (a + s - b) mod s) mod s = a" using assms by simp
  show "(a + s - b) mod s < s" using assms by simp
qed

subsection \<open>The invariant and the indices in use\<close>

definition rbi_ok :: "nat \<Rightarrow> ringbufindex \<Rightarrow> bool" where
  "rbi_ok k r \<longleftrightarrow> k \<le> 8 \<and> rbi_mask r = mask k \<and> unat (put_ptr r) < 2 ^ k \<and> unat (get_ptr r) < 2 ^ k"

definition rbi_count :: "ringbufindex \<Rightarrow> nat" where
  "rbi_count r = unat ((put_ptr r - get_ptr r) AND rbi_mask r)"

definition rbi_elems :: "nat \<Rightarrow> ringbufindex \<Rightarrow> nat list" where
  "rbi_elems k r = circ (2 ^ k) (unat (get_ptr r)) (rbi_count r)"

lemma rbi_count_eq:
  "rbi_ok k r \<Longrightarrow> rbi_count r = (unat (put_ptr r) + 2 ^ k - unat (get_ptr r)) mod 2 ^ k"
  by (simp add: rbi_ok_def rbi_count_def unat_sub_and_mask)

lemma rbi_count_less: "rbi_ok k r \<Longrightarrow> rbi_count r < 2 ^ k"
  by (simp add: rbi_count_eq)

lemma rbi_put_eq: "rbi_ok k r \<Longrightarrow> (unat (get_ptr r) + rbi_count r) mod 2 ^ k = unat (put_ptr r)"
  using ring_distance(1) [of "unat (put_ptr r)" "2 ^ k" "unat (get_ptr r)"]
  by (simp only: rbi_count_eq) (simp add: rbi_ok_def)

lemma rbi_full_iff:
  "rbi_ok k r \<Longrightarrow> (put_ptr r - get_ptr r) AND rbi_mask r = rbi_mask r \<longleftrightarrow> rbi_count r = 2 ^ k - 1"
  by (simp add: rbi_count_def word_unat_eq_iff rbi_ok_def unat_mask8)

lemma rbi_nonempty_iff: "(put_ptr r - get_ptr r) AND rbi_mask r > 0 \<longleftrightarrow> rbi_count r > 0"
  by (simp add: rbi_count_def word_less_nat_alt)

lemma ring_snoc:
  fixes g c c' n p :: nat
  assumes "(g + c) mod n = p" and "(g + c') mod n = Suc p mod n" and "Suc c < n" and "c' < n"
  shows "c' = Suc c"
proof -
  have "(g + c') mod n = (g + Suc c) mod n" using assms(1,2) by (metis add_Suc_right mod_Suc_eq)
  then show ?thesis using mod_add_left_inj [of g c' n "Suc c"] assms(3,4) by simp
qed

lemma ring_tl:
  fixes g c c' n p :: nat
  assumes "(g + Suc c) mod n = p" and "(Suc g mod n + c') mod n = p" and "Suc c < n" and "c' < n"
  shows "c' = c"
proof -
  have "(Suc g + c') mod n = (Suc g + c) mod n" using assms(1,2) by (simp add: mod_simps)
  then show ?thesis using mod_add_left_inj [of "Suc g" c' n c] assms(3,4) by simp
qed

lemma rbi_put_count:
  assumes "rbi_ok k r" and "rbi_count r \<noteq> 2 ^ k - 1"
  shows "rbi_ok k (r\<lparr>put_ptr := (put_ptr r + 1) AND rbi_mask r\<rparr>) \<and>
    rbi_count (r\<lparr>put_ptr := (put_ptr r + 1) AND rbi_mask r\<rparr>) = Suc (rbi_count r)"
proof -
  define r' where "r' = r\<lparr>put_ptr := (put_ptr r + 1) AND rbi_mask r\<rparr>"
  have ok: "rbi_ok k r'"
    using assms(1) by (auto simp: rbi_ok_def unat_inc_and_mask r'_def)
  have p: "unat (put_ptr r') = Suc (unat (put_ptr r)) mod 2 ^ k"
    using assms(1) by (simp add: rbi_ok_def unat_inc_and_mask r'_def)
  have g: "get_ptr r' = get_ptr r" by (simp add: r'_def)
  have c: "Suc (rbi_count r) < 2 ^ k" using rbi_count_less [OF assms(1)] assms(2) by simp
  have "rbi_count r' = Suc (rbi_count r)"
    using ring_snoc [OF rbi_put_eq [OF assms(1)] _ c rbi_count_less [OF ok]] rbi_put_eq [OF ok] p g
    by simp
  with ok show ?thesis by (simp add: r'_def)
qed

lemma rbi_get_count:
  assumes "rbi_ok k r" and "rbi_count r = Suc c"
  shows "rbi_ok k (r\<lparr>get_ptr := (get_ptr r + 1) AND rbi_mask r\<rparr>) \<and>
    rbi_count (r\<lparr>get_ptr := (get_ptr r + 1) AND rbi_mask r\<rparr>) = c"
proof -
  define r' where "r' = r\<lparr>get_ptr := (get_ptr r + 1) AND rbi_mask r\<rparr>"
  have ok: "rbi_ok k r'"
    using assms(1) by (auto simp: rbi_ok_def unat_inc_and_mask r'_def)
  have g: "unat (get_ptr r') = Suc (unat (get_ptr r)) mod 2 ^ k"
    using assms(1) by (simp add: rbi_ok_def unat_inc_and_mask r'_def)
  have p: "put_ptr r' = put_ptr r" by (simp add: r'_def)
  have c: "Suc c < 2 ^ k" using rbi_count_less [OF assms(1)] assms(2) by simp
  have "rbi_count r' = c"
    using ring_tl [of "unat (get_ptr r)" c _ "unat (put_ptr r)" "rbi_count r'", OF _ _ c rbi_count_less [OF ok]]
      rbi_put_eq [OF assms(1)] rbi_put_eq [OF ok] assms(2) p g
    by simp
  with ok show ?thesis by (simp add: r'_def)
qed

lemma rbi_put_less: "rbi_ok k r \<Longrightarrow> unat (put_ptr r) < 2 ^ k"
  by (simp add: rbi_ok_def)

lemma length_rbi_elems [simp]: "length (rbi_elems k r) = rbi_count r"
  by (simp add: rbi_elems_def)

lemma ringbufindex_init_ok:
  "k \<le> 8 \<Longrightarrow> rbi_ok k (ringbufindex_init (2 ^ k)) \<and> rbi_elems k (ringbufindex_init (2 ^ k)) = []"
  by (simp add: rbi_ok_def ringbufindex_init_def rbi_elems_def rbi_count_def mask_eq_exp_minus_1)

lemma ringbufindex_put_full:
  "rbi_ok k r \<Longrightarrow> length (rbi_elems k r) = 2 ^ k - 1 \<Longrightarrow>
    ringbufindex_put r = (0, r) \<and> ringbufindex_peek_put r = -1"
  by (simp add: ringbufindex_put_def ringbufindex_peek_put_def rbi_full_iff)

lemma rbi_elems_put:
  assumes "rbi_ok k r" and "rbi_count r \<noteq> 2 ^ k - 1"
  shows "rbi_elems k (r\<lparr>put_ptr := (put_ptr r + 1) AND rbi_mask r\<rparr>) = rbi_elems k r @ [unat (put_ptr r)]"
  using rbi_put_count [OF assms] rbi_put_eq [OF assms(1)] by (simp add: rbi_elems_def circ_snoc)

lemma rbi_elems_get:
  assumes "rbi_ok k r" and "rbi_count r = Suc c"
  shows "rbi_elems k r = unat (get_ptr r) # rbi_elems k (r\<lparr>get_ptr := (get_ptr r + 1) AND rbi_mask r\<rparr>)"
proof -
  have "unat (get_ptr r) < 2 ^ k" "unat ((get_ptr r + 1) AND rbi_mask r) = Suc (unat (get_ptr r)) mod 2 ^ k"
    using assms(1) by (simp_all add: rbi_ok_def unat_inc_and_mask)
  with rbi_get_count [OF assms] show ?thesis by (simp add: rbi_elems_def assms(2) circ_Cons)
qed

lemma put_ptr_fresh:
  assumes "rbi_ok k r" and "rbi_count r \<noteq> 2 ^ k - 1"
  shows "unat (put_ptr r) \<notin> set (rbi_elems k r)"
  using circ_fresh [of "rbi_count r" "2 ^ k" "unat (get_ptr r)"] rbi_count_less [OF assms(1)]
    rbi_put_eq [OF assms(1)] by (simp add: rbi_elems_def)

lemma ringbufindex_put_room:
  assumes "rbi_ok k r" and "length (rbi_elems k r) \<noteq> 2 ^ k - 1"
  shows "\<exists>i. ringbufindex_peek_put r = int i \<and> i < 2 ^ k \<and> i \<notin> set (rbi_elems k r) \<and>
    fst (ringbufindex_put r) = 1 \<and> rbi_ok k (snd (ringbufindex_put r)) \<and>
    rbi_elems k (snd (ringbufindex_put r)) = rbi_elems k r @ [i]"
  using assms put_ptr_fresh [OF assms(1)] rbi_put_count [OF assms(1)] rbi_elems_put [OF assms(1)]
  by (intro exI [of _ "unat (put_ptr r)"])
    (auto simp: ringbufindex_put_def ringbufindex_peek_put_def rbi_full_iff rbi_put_less)

lemma ringbufindex_get_empty:
  "rbi_elems k r = [] \<Longrightarrow> ringbufindex_get r = (-1, r) \<and> ringbufindex_peek_get r = -1"
  using rbi_nonempty_iff [of r] length_rbi_elems [of k r]
  by (simp add: ringbufindex_get_def ringbufindex_peek_get_def)

lemma ringbufindex_get_some:
  assumes "rbi_ok k r" and "rbi_elems k r = i # xs"
  shows "fst (ringbufindex_get r) = int i \<and> ringbufindex_peek_get r = int i \<and>
    rbi_ok k (snd (ringbufindex_get r)) \<and> rbi_elems k (snd (ringbufindex_get r)) = xs"
proof -
  have c: "rbi_count r = Suc (length xs)" using assms(2) length_rbi_elems [of k r] by simp
  then show ?thesis
    using rbi_elems_get [OF assms(1) c] rbi_get_count [OF assms(1) c] assms rbi_nonempty_iff [of r]
    by (simp add: ringbufindex_get_def ringbufindex_peek_get_def)
qed

lemma ringbufindex_get_none_same: "fst (ringbufindex_get r) = -1 \<Longrightarrow> snd (ringbufindex_get r) = r"
proof -
  have "uint (get_ptr r) \<noteq> -1" using uint_ge_0 [of "get_ptr r"] by linarith
  then show "fst (ringbufindex_get r) = -1 \<Longrightarrow> ?thesis" by (simp add: ringbufindex_get_def split: if_splits)
qed

lemma ringbufindex_counts:
  "rbi_ok k r \<Longrightarrow> ringbufindex_elements r = int (rbi_count r)"
  "rbi_ok k r \<Longrightarrow> ringbufindex_size r = 2 ^ k"
  "rbi_ok k r \<Longrightarrow> ringbufindex_full r \<longleftrightarrow> rbi_count r = 2 ^ k - 1"
  "rbi_ok k r \<Longrightarrow> ringbufindex_empty r \<longleftrightarrow> rbi_count r = 0"
proof -
  show e: "ringbufindex_elements r = int (rbi_count r)"
    by (simp add: ringbufindex_elements_def rbi_count_def)
  then show "ringbufindex_empty r \<longleftrightarrow> rbi_count r = 0" by (simp add: ringbufindex_empty_def)
  assume ok: "rbi_ok k r"
  then show "ringbufindex_full r \<longleftrightarrow> rbi_count r = 2 ^ k - 1"
    by (simp add: ringbufindex_full_def rbi_full_iff)
  have "uint (rbi_mask r) = int (unat (rbi_mask r))" by simp
  also have "\<dots> = 2 ^ k - 1" using ok by (simp add: rbi_ok_def unat_mask8 of_nat_diff del: nat_uint_eq)
  finally show "ringbufindex_size r = 2 ^ k" by (simp add: ringbufindex_size_def)
qed

lemma ringbufindex_empty_elems: "ringbufindex_empty r \<longleftrightarrow> rbi_elems k r = []"
  by (simp add: ringbufindex_empty_def ringbufindex_elements_def rbi_count_def uint_0_iff unat_eq_zero flip: length_0_conv)

subsection \<open>The client's view: a queue whose slots are elsewhere\<close>

text \<open>
  A client stores an item in the slot \<open>peek_put\<close> names and then calls \<open>put\<close>; it reads the item of
  the slot \<open>get\<close> names. The locale states what it relies on, and shows that this is a queue.
\<close>

datatype 'x ring_op = Put 'x | Get

datatype 'x ring_result = Was_put bool | Got "'x option"

primrec run_ops :: "('o \<Rightarrow> 's \<Rightarrow> 'r \<times> 's) \<Rightarrow> 'o list \<Rightarrow> 's \<Rightarrow> 'r list \<times> 's" where
  "run_ops f [] s = ([], s)"
| "run_ops f (op # ops) s = (let (r, s) = f op s; (rs, s) = run_ops f ops s in (r # rs, s))"

text \<open>What is promised: a queue that holds at most \<open>cap\<close> items, refuses an item when it is full, and gives the oldest one.\<close>

fun queue_step :: "nat \<Rightarrow> 'x ring_op \<Rightarrow> 'x list \<Rightarrow> 'x ring_result \<times> 'x list" where
  "queue_step cap (Put x) q = (if length q < cap then (Was_put True, q @ [x]) else (Was_put False, q))"
| "queue_step cap Get [] = (Got None, [])"
| "queue_step cap Get (x # q) = (Got (Some x), q)"

locale index_ring =
  fixes ok :: "'r \<Rightarrow> bool" and elems :: "'r \<Rightarrow> nat list" and cap :: nat
    and put :: "'r \<Rightarrow> int \<times> 'r" and peek_put :: "'r \<Rightarrow> int" and get :: "'r \<Rightarrow> int \<times> 'r"
  assumes put_full: "ok r \<Longrightarrow> length (elems r) = cap \<Longrightarrow> put r = (0, r) \<and> peek_put r = -1"
    and put_room: "ok r \<Longrightarrow> length (elems r) \<noteq> cap \<Longrightarrow>
      \<exists>i. peek_put r = int i \<and> i \<notin> set (elems r) \<and> fst (put r) = 1 \<and> ok (snd (put r)) \<and>
        elems (snd (put r)) = elems r @ [i]"
    and get_empty: "elems r = [] \<Longrightarrow> get r = (-1, r)"
    and get_some: "ok r \<Longrightarrow> elems r = i # xs \<Longrightarrow>
      fst (get r) = int i \<and> ok (snd (get r)) \<and> elems (snd (get r)) = xs"
begin

definition contents :: "'r \<times> (nat \<Rightarrow> 'x) \<Rightarrow> 'x list" where
  "contents q = map (snd q) (elems (fst q))"

definition enqueue :: "'x \<Rightarrow> 'r \<times> (nat \<Rightarrow> 'x) \<Rightarrow> bool \<times> ('r \<times> (nat \<Rightarrow> 'x))" where
  "enqueue x q =
     (fst (put (fst q)) \<noteq> 0,
      (snd (put (fst q)), if peek_put (fst q) = -1 then snd q else (snd q)(nat (peek_put (fst q)) := x)))"

definition dequeue :: "'r \<times> (nat \<Rightarrow> 'x) \<Rightarrow> 'x option \<times> ('r \<times> (nat \<Rightarrow> 'x))" where
  "dequeue q =
     (if fst (get (fst q)) = -1 then (None, q)
      else (Some (snd q (nat (fst (get (fst q))))), (snd (get (fst q)), snd q)))"

lemma enqueue_room:
  assumes "ok (fst q)" and "length (contents q) \<noteq> cap"
  shows "fst (enqueue x q)" and "ok (fst (snd (enqueue x q)))"
    and "contents (snd (enqueue x q)) = contents q @ [x]"
  using assms put_room [of "fst q"] by (auto simp: enqueue_def contents_def)

lemma enqueue_full:
  "ok (fst q) \<Longrightarrow> length (contents q) = cap \<Longrightarrow> enqueue x q = (False, q)"
  using put_full [of "fst q"] by (simp add: enqueue_def contents_def)

lemma dequeue_some:
  assumes "ok (fst q)" and "contents q = x # xs"
  shows "fst (dequeue q) = Some x" and "ok (fst (snd (dequeue q)))" and "contents (snd (dequeue q)) = xs"
  using assms get_some [of "fst q"] by (auto simp: dequeue_def contents_def)

lemma dequeue_none: "contents q = [] \<Longrightarrow> dequeue q = (None, q)"
  using get_empty [of "fst q"] by (simp add: dequeue_def contents_def)

definition step :: "'x ring_op \<Rightarrow> 'r \<times> (nat \<Rightarrow> 'x) \<Rightarrow> 'x ring_result \<times> ('r \<times> (nat \<Rightarrow> 'x))" where
  "step op q = (case op of Put x \<Rightarrow> (let (b, q) = enqueue x q in (Was_put b, q)) | Get \<Rightarrow> (let (x, q) = dequeue q in (Got x, q)))"

lemma step_refines:
  assumes "ok (fst q)" and "length (contents q) \<le> cap"
  shows "fst (step op q) = fst (queue_step cap op (contents q)) \<and> ok (fst (snd (step op q))) \<and>
    contents (snd (step op q)) = snd (queue_step cap op (contents q)) \<and> length (contents (snd (step op q))) \<le> cap"
proof (cases op)
  case (Put x)
  then show ?thesis using assms enqueue_room [of q x] enqueue_full [of q x]
    by (cases "length (contents q) = cap") (simp_all add: step_def split_beta)
next
  case Get
  then show ?thesis using assms dequeue_some [of q] dequeue_none [of q]
    by (cases "contents q") (simp_all add: step_def split_beta)
qed

lemma run_refines:
  "ok (fst q) \<Longrightarrow> length (contents q) \<le> cap \<Longrightarrow>
    fst (run_ops step ops q) = fst (run_ops (queue_step cap) ops (contents q)) \<and> ok (fst (snd (run_ops step ops q))) \<and>
    contents (snd (run_ops step ops q)) = snd (run_ops (queue_step cap) ops (contents q))"
proof (induction ops arbitrary: q)
  case (Cons op ops)
  note s = step_refines [OF Cons.prems, of op, THEN conjunct1] step_refines [OF Cons.prems, of op, THEN conjunct2]
  then have "ok (fst (snd (step op q)))" "length (contents (snd (step op q))) \<le> cap" by blast+
  from Cons.IH [OF this] s show ?case by (simp add: split_beta Let_def)
qed simp

end

interpretation ri: index_ring "rbi_ok k" "rbi_elems k" "2 ^ k - 1"
    ringbufindex_put ringbufindex_peek_put ringbufindex_get for k
proof (unfold_locales, goal_cases)
  case (1 r) then show ?case by (rule ringbufindex_put_full)
next
  case (2 r) then show ?case using ringbufindex_put_room [of k r] by auto
next
  case (3 r) then show ?case using ringbufindex_get_empty by blast
next
  case (4 r i xs) then show ?case using ringbufindex_get_some by blast
qed

text \<open>The steps of the client written out over the operations of the code.\<close>

definition ring_step :: "'x ring_op \<Rightarrow> ringbufindex \<times> (nat \<Rightarrow> 'x) \<Rightarrow> 'x ring_result \<times> (ringbufindex \<times> (nat \<Rightarrow> 'x))" where
  "ring_step op = (\<lambda>(r, slots).
     case op of
       Put x \<Rightarrow> (let i = ringbufindex_peek_put r; (done, r) = ringbufindex_put r in
         (Was_put (done \<noteq> 0), (r, if i = -1 then slots else slots(nat i := x))))
     | Get \<Rightarrow> (let (i, r) = ringbufindex_get r in (Got (if i = -1 then None else Some (slots (nat i))), (r, slots))))"

lemma ring_step_eq: "ring_step = ri.step"
proof (intro ext)
  fix op :: "'x ring_op" and q :: "ringbufindex \<times> (nat \<Rightarrow> 'x)"
  show "ring_step op q = ri.step op q"
    using ringbufindex_get_none_same [of "fst q"]
    by (cases op; cases q) (auto simp: ring_step_def ri.step_def ri.enqueue_def ri.dequeue_def split_beta Let_def)
qed

text \<open>
  C18: A client that stores an item in the slot \<open>peek_put\<close> names and puts, and reads the slot \<open>get\<close> names (the way the TSCH queues use
  the ring), has a bounded FIFO queue: after any sequence of puts and gets on a ring of size \<open>2 ^ k\<close>, in any order and number, so that the
  indices wrap around and the ring is full and empty on the way, every answer is that of a queue of capacity \<open>2 ^ k - 1\<close> (a
  put is refused exactly when the queue is full, a get gives the oldest item, or nothing exactly when it is empty), the items in the slots are those
  of the queue in its order, and \<open>elements\<close>, \<open>full\<close> and \<open>empty\<close> tell its length.
\<close>

theorem ringbufindex_fifo:
  assumes "k \<le> 8"
  shows "let (answers, r, slots') = run_ops ring_step ops (ringbufindex_init (2 ^ k), slots);
             (expected, q) = run_ops (queue_step (2 ^ k - 1)) ops []
         in answers = expected \<and> map slots' (rbi_elems k r) = q \<and> ringbufindex_elements r = int (length q) \<and>
            (ringbufindex_full r \<longleftrightarrow> length q = 2 ^ k - 1) \<and> (ringbufindex_empty r \<longleftrightarrow> q = [])"
proof -
  let ?q0 = "(ringbufindex_init (2 ^ k), slots)"
  obtain answers r slots' where run: "run_ops ring_step ops ?q0 = (answers, r, slots')" by (cases "run_ops ring_step ops ?q0")
  obtain expected q where spec: "run_ops (queue_step (2 ^ k - 1)) ops [] = (expected, q)" by (cases "run_ops (queue_step (2 ^ k - 1)) ops []")
  have "rbi_ok k (fst ?q0)" "ri.contents k ?q0 = []" using ringbufindex_init_ok [OF assms] by (simp_all add: ri.contents_def)
  then have r: "answers = expected" "rbi_ok k r" "map slots' (rbi_elems k r) = q"
    using ri.run_refines [of k ?q0 ops] run spec by (simp_all add: ri.contents_def flip: ring_step_eq)
  moreover have "rbi_count r = length q" using arg_cong [OF r(3), of length] by simp
  ultimately show ?thesis unfolding run spec using ringbufindex_counts [OF r(2)] by simp
qed

theorem ringbufindex_fifo_witness:
  "let ops = [Put CHR ''a'', Put CHR ''b'', Get, Put CHR ''c'', Put CHR ''d'', Put CHR ''e'', Get];
       (answers, r, slots) = run_ops ring_step ops (ringbufindex_init (2 ^ 2), \<lambda>_. CHR ''-'')
   in answers = [Was_put True, Was_put True, Got (Some (CHR ''a'')), Was_put True, Was_put True, Was_put False, Got (Some (CHR ''b''))] \<and>
      map slots (rbi_elems 2 r) = ''cd'' \<and> put_ptr r < get_ptr r"
  using ringbufindex_fifo [of 2 "[Put CHR ''a'', Put CHR ''b'', Get, Put CHR ''c'', Put CHR ''d'', Put CHR ''e'', Get]" "\<lambda>_. CHR ''-''"]
  by (simp add: split_beta Let_def) (simp add: ring_step_def ringbufindex_init_def ringbufindex_put_def ringbufindex_get_def ringbufindex_peek_put_def)

subsection \<open>ringbuffer: a ring of bytes\<close>

record ringb =
  a_buf :: "u8 list"
  sz_tail :: u16
  sz_head :: u16

definition RB_MASK :: u16 where
  "RB_MASK = 1023"

definition ringb_init :: "ringb \<Rightarrow> ringb" where
  "ringb_init rb = rb\<lparr>sz_tail := 0, sz_head := 0\<rparr>"

definition ringb_empty :: "ringb \<Rightarrow> bool" where
  "ringb_empty rb \<longleftrightarrow> sz_head rb = sz_tail rb"

definition ringb_full :: "ringb \<Rightarrow> bool" where
  "ringb_full rb \<longleftrightarrow> (sz_head rb - sz_tail rb) AND RB_MASK = RB_MASK"

definition ringb_items :: "ringb \<Rightarrow> u8" where
  "ringb_items rb = ucast ((sz_head rb - sz_tail rb) AND RB_MASK)"

definition ringb_pusha :: "ringb \<Rightarrow> u8 \<Rightarrow> ringb" where
  "ringb_pusha rb d =
     (let rb = (if ringb_full rb then rb\<lparr>sz_tail := (sz_tail rb + 1) AND RB_MASK\<rparr> else rb);
          rb = rb\<lparr>a_buf := (a_buf rb)[unat (sz_head rb) := d]\<rparr>
      in rb\<lparr>sz_head := (sz_head rb + 1) AND RB_MASK\<rparr>)"

text \<open>The data a caller passes are the bytes at \<open>p_data\<close>; the loop reads the first \<open>size\<close> of them.\<close>

definition ringb_push :: "ringb \<Rightarrow> u8 list \<Rightarrow> u16 \<Rightarrow> ringb" where
  "ringb_push rb p_data sz = fold (\<lambda>i rb. ringb_pusha rb (p_data ! i)) [0..<unat sz] rb"

definition ringb_pulla :: "ringb \<Rightarrow> u8 option \<times> ringb" where
  "ringb_pulla rb =
     (if ringb_empty rb then (None, rb)
      else (Some (a_buf rb ! unat (sz_tail rb)), rb\<lparr>sz_tail := (sz_tail rb + 1) AND RB_MASK\<rparr>))"

text \<open>\<open>pull_loop n\<close> is the loop with \<open>n = len - cnt\<close> rounds left; it yields the bytes written.\<close>

primrec pull_loop :: "nat \<Rightarrow> ringb \<Rightarrow> u8 list \<times> ringb" where
  "pull_loop 0 rb = ([], rb)"
| "pull_loop (Suc n) rb =
     (case ringb_pulla rb of
        (None, rb) \<Rightarrow> ([], rb)
      | (Some d, rb) \<Rightarrow> (let (ds, rb) = pull_loop n rb in (d # ds, rb)))"

definition ringb_pull :: "ringb \<Rightarrow> u16 \<Rightarrow> u8 list \<times> ringb" where
  "ringb_pull rb len = (if ringb_empty rb then ([], rb) else pull_loop (unat len) rb)"

definition ringb_peek :: "ringb \<Rightarrow> u16 \<Rightarrow> u8 option" where
  "ringb_peek rb index =
     (if index \<ge> ucast (ringb_items rb) then None
      else Some (a_buf rb ! unat ((sz_tail rb + index) AND RB_MASK)))"

subsubsection \<open>The bytes in the ring\<close>

definition ringb_ok :: "ringb \<Rightarrow> bool" where
  "ringb_ok rb \<longleftrightarrow> length (a_buf rb) = 1024 \<and> unat (sz_tail rb) < 1024 \<and> unat (sz_head rb) < 1024"

definition ringb_count :: "ringb \<Rightarrow> nat" where
  "ringb_count rb = unat ((sz_head rb - sz_tail rb) AND RB_MASK)"

definition ringb_bytes :: "ringb \<Rightarrow> u8 list" where
  "ringb_bytes rb = map (\<lambda>i. a_buf rb ! i) (circ 1024 (unat (sz_tail rb)) (ringb_count rb))"

lemma RB_MASK_eq: "RB_MASK = mask 10"
  by (simp add: RB_MASK_def mask_eq_exp_minus_1)

lemma RB_inc: "unat ((w + 1) AND RB_MASK) = Suc (unat w) mod 1024"
  using unat_inc_and_mask [of 10 w] by (simp add: RB_MASK_eq)

lemma ringb_count_eq:
  "ringb_ok rb \<Longrightarrow> ringb_count rb = (unat (sz_head rb) + 1024 - unat (sz_tail rb)) mod 1024"
  using unat_sub_and_mask [of 10 "sz_head rb" "sz_tail rb"] by (simp add: ringb_ok_def ringb_count_def RB_MASK_eq)

lemma ringb_count_less: "ringb_ok rb \<Longrightarrow> ringb_count rb < 1024"
  by (simp add: ringb_count_eq)

lemma ringb_head_eq: "ringb_ok rb \<Longrightarrow> (unat (sz_tail rb) + ringb_count rb) mod 1024 = unat (sz_head rb)"
  using ring_distance(1) [of "unat (sz_head rb)" 1024 "unat (sz_tail rb)"]
  by (simp only: ringb_count_eq) (simp add: ringb_ok_def)

lemma length_ringb_bytes [simp]: "length (ringb_bytes rb) = ringb_count rb"
  by (simp add: ringb_bytes_def)

lemma ringb_full_iff: "ringb_full rb \<longleftrightarrow> ringb_count rb = 1023"
  by (simp add: ringb_full_def ringb_count_def RB_MASK_def word_unat_eq_iff)

lemma ringb_empty_iff: "ringb_ok rb \<Longrightarrow> ringb_empty rb \<longleftrightarrow> ringb_bytes rb = []"
proof -
  assume ok: "ringb_ok rb"
  have "ringb_count rb = 0 \<longleftrightarrow> unat (sz_head rb) = unat (sz_tail rb)"
    using ringb_head_eq [OF ok] ok by (auto simp: ringb_ok_def ringb_count_eq)
  then show ?thesis
    by (simp add: ringb_empty_def word_unat_eq_iff flip: length_0_conv)
qed

lemma ringb_drop_oldest:
  assumes ok: "ringb_ok rb" and ne: "ringb_count rb = Suc c"
  defines "rb' \<equiv> rb\<lparr>sz_tail := (sz_tail rb + 1) AND RB_MASK\<rparr>"
  shows "ringb_ok rb'" and "ringb_bytes rb = a_buf rb ! unat (sz_tail rb) # ringb_bytes rb'"
proof -
  show ok': "ringb_ok rb'" using ok by (simp add: ringb_ok_def rb'_def RB_inc)
  have t: "unat (sz_tail rb') = Suc (unat (sz_tail rb)) mod 1024" by (simp add: rb'_def RB_inc)
  have h: "sz_head rb' = sz_head rb" by (simp add: rb'_def)
  have c: "Suc c < 1024" using ringb_count_less [OF ok] ne by simp
  have "ringb_count rb' = c"
    using ring_tl [of "unat (sz_tail rb)" c _ "unat (sz_head rb)" "ringb_count rb'", OF _ _ c ringb_count_less [OF ok']]
      ringb_head_eq [OF ok] ringb_head_eq [OF ok'] ne t h by simp
  then show "ringb_bytes rb = a_buf rb ! unat (sz_tail rb) # ringb_bytes rb'"
    using ne t ok by (simp add: ringb_bytes_def circ_Cons ringb_ok_def) (simp add: rb'_def)
qed

lemma ringb_append:
  fixes d :: u8
  assumes ok: "ringb_ok rb" and room: "ringb_count rb \<noteq> 1023"
  defines "rb' \<equiv> rb\<lparr>a_buf := (a_buf rb)[unat (sz_head rb) := d], sz_head := (sz_head rb + 1) AND RB_MASK\<rparr>"
  shows "ringb_ok rb'" and "ringb_bytes rb' = ringb_bytes rb @ [d]"
proof -
  show ok': "ringb_ok rb'" using ok by (simp add: ringb_ok_def rb'_def RB_inc)
  have h: "unat (sz_head rb') = Suc (unat (sz_head rb)) mod 1024" by (simp add: rb'_def RB_inc)
  have t: "sz_tail rb' = sz_tail rb" by (simp add: rb'_def)
  have c: "Suc (ringb_count rb) < 1024" using ringb_count_less [OF ok] room by simp
  have "ringb_count rb' = Suc (ringb_count rb)"
    using ring_snoc [OF ringb_head_eq [OF ok] _ c ringb_count_less [OF ok']] ringb_head_eq [OF ok'] h t
    by simp
  moreover have "unat (sz_head rb) \<notin> set (circ 1024 (unat (sz_tail rb)) (ringb_count rb))"
    using circ_fresh [of "ringb_count rb" 1024 "unat (sz_tail rb)"] ringb_head_eq [OF ok] c by simp
  ultimately show "ringb_bytes rb' = ringb_bytes rb @ [d]"
    using ok ringb_head_eq [OF ok] t
    by (auto simp: ringb_bytes_def circ_snoc ringb_ok_def) (auto simp: rb'_def nth_list_update)
qed

lemma ringb_pusha_bytes:
  assumes "ringb_ok rb"
  shows "ringb_ok (ringb_pusha rb d)"
    and "ringb_bytes (ringb_pusha rb d) = drop (ringb_count rb + 1 - 1023) (ringb_bytes rb @ [d])"
proof (atomize (full), cases "ringb_full rb")
  case True
  then have c: "ringb_count rb = Suc 1022" by (simp add: ringb_full_iff)
  let ?rb = "rb\<lparr>sz_tail := (sz_tail rb + 1) AND RB_MASK\<rparr>"
  note d1 = ringb_drop_oldest [OF assms c]
  have "ringb_count ?rb = 1022" using d1(2) c by (metis length_Cons length_ringb_bytes nat.inject)
  then show "ringb_ok (ringb_pusha rb d) \<and>
      ringb_bytes (ringb_pusha rb d) = drop (ringb_count rb + 1 - 1023) (ringb_bytes rb @ [d])"
    using ringb_append [OF d1(1), of d] True c by (simp add: ringb_pusha_def d1(2))
next
  case False
  then have c: "ringb_count rb \<noteq> 1023" by (simp add: ringb_full_iff)
  then show "ringb_ok (ringb_pusha rb d) \<and>
      ringb_bytes (ringb_pusha rb d) = drop (ringb_count rb + 1 - 1023) (ringb_bytes rb @ [d])"
    using ringb_append [OF assms c, of d] ringb_count_less [OF assms] False
    by (simp add: ringb_pusha_def)
qed

definition last_n :: "nat \<Rightarrow> 'a list \<Rightarrow> 'a list" where
  "last_n n xs = drop (length xs - n) xs"

lemma last_n_last_n_snoc: "last_n n (last_n n xs @ [x]) = last_n n (xs @ [x])"
  by (cases "length xs \<le> n") (auto simp: last_n_def Suc_diff_le)

lemma ringb_pusha_last_n:
  assumes "ringb_ok rb" shows "ringb_bytes (ringb_pusha rb d) = last_n 1023 (ringb_bytes rb @ [d])"
  using ringb_pusha_bytes [OF assms] by (simp add: last_n_def)

lemma last_n_bytes: "ringb_ok rb \<Longrightarrow> last_n 1023 (ringb_bytes rb) = ringb_bytes rb"
  using ringb_count_less [of rb] by (simp add: last_n_def)

lemma ringb_push_fold:
  "ringb_ok rb \<Longrightarrow> ringb_ok (fold (\<lambda>d rb. ringb_pusha rb d) ds rb) \<and>
    ringb_bytes (fold (\<lambda>d rb. ringb_pusha rb d) ds rb) = last_n 1023 (ringb_bytes rb @ ds)"
proof (induction ds rule: rev_induct)
  case Nil then show ?case by (simp add: last_n_bytes)
next
  case (snoc d ds)
  then show ?case
    by (simp add: ringb_pusha_bytes(1) ringb_pusha_last_n last_n_last_n_snoc)
qed

lemma ringb_push_eq:
  "unat sz \<le> length p \<Longrightarrow> ringb_push rb p sz = fold (\<lambda>d rb. ringb_pusha rb d) (take (unat sz) p) rb"
proof -
  assume "unat sz \<le> length p"
  then have "take (unat sz) p = map ((!) p) [0..<unat sz]"
    by (metis map_nth take_map take_upt add_0)
  then show ?thesis by (simp add: ringb_push_def fold_map comp_def)
qed

lemma ringb_pulla_some:
  assumes "ringb_ok rb" and "ringb_bytes rb = d # ds"
  shows "fst (ringb_pulla rb) = Some d" and "ringb_ok (snd (ringb_pulla rb))"
    and "ringb_bytes (snd (ringb_pulla rb)) = ds"
  using ringb_drop_oldest [OF assms(1), of "length ds"] assms length_ringb_bytes [of rb]
  by (simp_all add: ringb_pulla_def ringb_empty_iff)

lemma pull_loop_eq:
  "ringb_ok rb \<Longrightarrow> fst (pull_loop n rb) = take n (ringb_bytes rb) \<and> ringb_ok (snd (pull_loop n rb)) \<and>
    ringb_bytes (snd (pull_loop n rb)) = drop n (ringb_bytes rb)"
proof (induction n arbitrary: rb)
  case 0 then show ?case by simp
next
  case (Suc n)
  show ?case
  proof (cases "ringb_bytes rb")
    case Nil
    then show ?thesis using Suc.prems by (simp add: ringb_pulla_def ringb_empty_iff)
  next
    case (Cons d ds)
    note p = ringb_pulla_some [OF Suc.prems Cons]
    obtain rb' where rb': "ringb_pulla rb = (Some d, rb')" using p(1) by (cases "ringb_pulla rb") simp
    then show ?thesis using Suc.IH [of rb'] p Cons by (simp add: case_prod_unfold)
  qed
qed

lemma ringb_pull_eq:
  "ringb_ok rb \<Longrightarrow> fst (ringb_pull rb len) = take (unat len) (ringb_bytes rb) \<and> ringb_ok (snd (ringb_pull rb len)) \<and>
    ringb_bytes (snd (ringb_pull rb len)) = drop (unat len) (ringb_bytes rb)"
  by (simp add: ringb_pull_def pull_loop_eq ringb_empty_iff)

text \<open>
  Pushing a block keeps the newest 1023 bytes in order, dropping the oldest; pulling
  returns the oldest bytes first, exactly as many as were asked for or are there, and leaves the rest.
\<close>

theorem ringb_push_pull:
  assumes "ringb_ok rb" and "unat sz \<le> length p"
  shows "ringb_ok (ringb_push rb p sz) \<and>
    ringb_bytes (ringb_push rb p sz) = last_n 1023 (ringb_bytes rb @ take (unat sz) p) \<and>
    fst (ringb_pull (ringb_push rb p sz) len)
      = take (unat len) (last_n 1023 (ringb_bytes rb @ take (unat sz) p)) \<and>
    ringb_bytes (snd (ringb_pull (ringb_push rb p sz) len))
      = drop (unat len) (last_n 1023 (ringb_bytes rb @ take (unat sz) p))"
  using ringb_push_fold [OF assms(1), of "take (unat sz) p"] assms(2)
    ringb_pull_eq [of "ringb_push rb p sz" len]
  by (simp_all add: ringb_push_eq)

lemma ringb_init_bytes: "length (a_buf rb) = 1024 \<Longrightarrow> ringb_ok (ringb_init rb) \<and> ringb_bytes (ringb_init rb) = []"
  by (simp add: ringb_ok_def ringb_init_def ringb_bytes_def ringb_count_def)

theorem ringb_push_pull_witness:
  "fst (ringb_pull (ringb_push (ringb_init \<lparr>a_buf = replicate 1024 0, sz_tail = 0, sz_head = 0\<rparr>) [1, 2, 3] 3) 2) = [1, 2]"
  using ringb_push_pull [of "ringb_init \<lparr>a_buf = replicate 1024 0, sz_tail = 0, sz_head = 0\<rparr>" 3 "[1, 2, 3]" 2]
    ringb_init_bytes [of "\<lparr>a_buf = replicate 1024 0, sz_tail = 0, sz_head = 0\<rparr>"]
  by (simp add: last_n_def)

lemma ringb_items_mod: "unat (ringb_items rb) = ringb_count rb mod 256"
  by (simp add: ringb_items_def ringb_count_def unsigned_ucast_eq take_bit_eq_mod)

lemma ringb_peek_nth:
  assumes "ringb_ok rb" and "unat index < ringb_count rb mod 256"
  shows "ringb_peek rb index = Some (ringb_bytes rb ! unat index)"
proof -
  have i: "unat index < ringb_count rb" "unat index < 256"
    using assms(2) by (meson less_le_trans mod_less_eq_dividend, meson less_trans mod_less_divisor zero_less_numeral)
  have "\<not> ucast (ringb_items rb) \<le> index"
    using assms(2) by (simp add: word_le_nat_alt unsigned_ucast_eq take_bit_eq_mod ringb_items_mod)
  then show ?thesis
    using i unat_add_and_mask [of 10 "sz_tail rb" index]
    by (simp add: ringb_peek_def ringb_bytes_def circ_nth RB_MASK_eq)
qed

lemma ringb_peek_none:
  "ringb_count rb mod 256 \<le> unat index \<Longrightarrow> ringb_peek rb index = None"
  by (simp add: ringb_peek_def word_le_nat_alt unsigned_ucast_eq take_bit_eq_mod ringb_items_mod)

text \<open>
  \<open>ringb_items\<close> returns a \<open>uint8_t\<close>, so it is the number of bytes modulo 256, and
  \<open>ringb_peek\<close>, which trusts it, finds exactly the bytes below that count: with 256 bytes in the
  ring it finds none, not even the oldest one, which \<open>ringb_pulla\<close> still delivers.
\<close>

theorem ringb_peek_mod_256:
  assumes "ringb_ok rb"
  shows "ringb_peek rb index =
    (if unat index < ringb_count rb mod 256 then Some (ringb_bytes rb ! unat index) else None) \<and>
    unat (ringb_items rb) = length (ringb_bytes rb) mod 256"
  using assms by (auto simp: ringb_peek_nth ringb_peek_none ringb_items_mod)

theorem ringb_peek_mod_256_witness:
  "let rb = \<lparr>a_buf = replicate 1024 7, sz_tail = 0, sz_head = 256\<rparr>
   in ringb_peek rb 0 = None \<and> ringb_pulla rb = (Some 7, rb\<lparr>sz_tail := 1\<rparr>)"
proof -
  let ?rb = "\<lparr>a_buf = replicate 1024 7, sz_tail = 0, sz_head = 256\<rparr>"
  have ok: "ringb_ok ?rb" by (simp add: ringb_ok_def)
  have "ringb_count ?rb = 256" by (simp add: ringb_count_def RB_MASK_def)
  then show ?thesis using ringb_peek_mod_256 [OF ok, of 0]
    by (simp add: ringb_pulla_def ringb_empty_def RB_MASK_def)
qed

end
