(* ===== verification/Evproc.thy ===== *)
theory Evproc
  imports Emb6_Prelude
begin

section \<open>The event processor (utils/src/evproc.c)\<close>

text \<open>
  Everything in the stack runs from this queue: interrupts and handlers post events, the main loop
  takes one and calls the callbacks registered for its type. The two static arrays, the size of the
  queue and the initialisation flag are the record \<open>evproc\<close>. A callback is code of another module: what
  calling it does, to the event processor too, is the parameter \<open>call\<close> of the definitions that call
  one, acting on the rest \<open>'w\<close> of the system and on the record. The critical sections and the log
  output are not modelled.
\<close>

subsection \<open>State\<close>

type_synonym c_event = u8

record funcReg =
  fr_event :: c_event
  callbList :: "ptr list"

type_synonym event = "c_event \<times> ptr"

record evproc =
  regList :: "funcReg list"
  evList :: "event list"
  isInit :: u8
  queueSize :: u8

datatype en_evprocResCode =
  E_UNKNOWN_TYPE | E_NO_SUCH_FUNC | E_INVALID_PARAM | E_END_OF_LIST | E_SUCCESS | E_FUNC_IN_LIST | E_QUEUE_EMPTY

fun res_code :: "en_evprocResCode \<Rightarrow> int" where
  "res_code E_UNKNOWN_TYPE = -4"
| "res_code E_NO_SUCH_FUNC = -3"
| "res_code E_INVALID_PARAM = -2"
| "res_code E_END_OF_LIST = -1"
| "res_code E_SUCCESS = 1"
| "res_code E_FUNC_IN_LIST = 2"
| "res_code E_QUEUE_EMPTY = 3"

datatype en_evprocAction = E_EVPROC_HEAD | E_EVPROC_TAIL | E_EVPROC_EXEC

definition EVENT_TYPE_MAX :: nat where "EVENT_TYPE_MAX = 17"
definition MAX_CALLBACK_COUNT :: nat where "MAX_CALLBACK_COUNT = 13"
definition EVPROC_QUEUE_SIZE :: nat where "EVPROC_QUEUE_SIZE = 20"
definition OBLIG_EVENT_PRIOR :: u8 where "OBLIG_EVENT_PRIOR = 16"
definition EVENT_TYPE_NONE :: u8 where "EVENT_TYPE_NONE = 0xFF"
definition EVENT_TYPE_STATUS_CHANGE :: nat where "EVENT_TYPE_STATUS_CHANGE = 15"

lemmas evproc_consts =
  EVENT_TYPE_MAX_def MAX_CALLBACK_COUNT_def EVPROC_QUEUE_SIZE_def OBLIG_EVENT_PRIOR_def
  EVENT_TYPE_NONE_def EVENT_TYPE_STATUS_CHANGE_def

text \<open>The static objects before the first call are zero.\<close>

definition evproc_static :: evproc where
  "evproc_static =
     \<lparr>regList = replicate EVENT_TYPE_MAX \<lparr>fr_event = 0, callbList = replicate MAX_CALLBACK_COUNT NULL\<rparr>,
      evList = replicate EVPROC_QUEUE_SIZE (0, NULL), isInit = 0, queueSize = 0\<rparr>"

subsection \<open>Operations\<close>

definition evproc_init' :: "bool \<Rightarrow> evproc \<Rightarrow> evproc" where
  "evproc_init' first st =
     st\<lparr>evList := replicate EVPROC_QUEUE_SIZE (EVENT_TYPE_NONE, NULL),
        regList := map (\<lambda>i. if first \<or> i \<noteq> EVENT_TYPE_STATUS_CHANGE
                            then \<lparr>fr_event = of_nat i, callbList = replicate MAX_CALLBACK_COUNT NULL\<rparr>
                            else regList st ! i) [0..<EVENT_TYPE_MAX],
        isInit := 1\<rparr>"

definition evproc_init :: "evproc \<Rightarrow> evproc" where
  "evproc_init st = evproc_init' (isInit st = 0) st"

text \<open>The search every operation starts with: the first entry of the event type.\<close>

definition reg_lookup :: "evproc \<Rightarrow> c_event \<Rightarrow> nat option" where
  "reg_lookup st t = find (\<lambda>i. fr_event (regList st ! i) = t) [0..<EVENT_TYPE_MAX]"

text \<open>
  \<open>call_loop\<close> is the inner loop of \<open>_evproc_processEvent\<close>, with \<open>n\<close> rounds left. It reads the slot from the
  state the previous callback left.
\<close>

primrec call_loop :: "(ptr \<Rightarrow> c_event \<Rightarrow> ptr \<Rightarrow> 'w \<times> evproc \<Rightarrow> 'w \<times> evproc) \<Rightarrow> nat \<Rightarrow> c_event \<Rightarrow> ptr \<Rightarrow>
    nat \<Rightarrow> nat \<Rightarrow> 'w \<times> evproc \<Rightarrow> 'w \<times> evproc" where
  "call_loop call i t d 0 j s = s"
| "call_loop call i t d (Suc n) j s =
     (let f = callbList (regList (snd s) ! i) ! j
      in if f = NULL then s else call_loop call i t d n (Suc j) (call f t d s))"

definition evproc_processEvent :: "(ptr \<Rightarrow> c_event \<Rightarrow> ptr \<Rightarrow> 'w \<times> evproc \<Rightarrow> 'w \<times> evproc) \<Rightarrow> c_event \<Rightarrow> ptr \<Rightarrow>
    'w \<times> evproc \<Rightarrow> en_evprocResCode \<times> ('w \<times> evproc)" where
  "evproc_processEvent call t d s =
     (case reg_lookup (snd s) t of
        Some i \<Rightarrow> (E_SUCCESS, call_loop call i t d MAX_CALLBACK_COUNT 0 s)
      | None \<Rightarrow> (E_UNKNOWN_TYPE, s))"

definition evproc_lookupEvent :: "evproc \<Rightarrow> c_event \<Rightarrow> ptr \<Rightarrow> bool" where
  "evproc_lookupEvent st t d \<longleftrightarrow> (\<exists>i \<in> set [0..<unat (queueSize st)]. evList st ! i = (t, d))"

text \<open>
  \<open>reg_loop\<close> is the inner loop of \<open>evproc_regCallback\<close>: it returns \<open>j\<close> and \<open>pos\<close> as the loop leaves them,
  with \<open>pos\<close> reset when the function is found.
\<close>

primrec reg_loop :: "ptr list \<Rightarrow> ptr \<Rightarrow> nat \<Rightarrow> nat \<Rightarrow> nat \<Rightarrow> nat \<times> nat" where
  "reg_loop cbs f 0 j pos = (j, pos)"
| "reg_loop cbs f (Suc n) j pos =
     (let pos = (if cbs ! j = NULL \<and> pos = MAX_CALLBACK_COUNT then j else pos)
      in if cbs ! j = f then (j, MAX_CALLBACK_COUNT) else reg_loop cbs f n (Suc j) pos)"

definition set_callback :: "evproc \<Rightarrow> nat \<Rightarrow> nat \<Rightarrow> ptr \<Rightarrow> evproc" where
  "set_callback st i j f =
     st\<lparr>regList := (regList st)[i := (regList st ! i)\<lparr>callbList := (callbList (regList st ! i))[j := f]\<rparr>]\<rparr>"

definition evproc_regCallback :: "c_event \<Rightarrow> ptr \<Rightarrow> evproc \<Rightarrow> en_evprocResCode \<times> evproc" where
  "evproc_regCallback t f st =
     (let st = (if isInit st = 0 then evproc_init' (isInit st = 0) st else st)
      in if f = NULL then (E_INVALID_PARAM, st)
         else case reg_lookup st t of
           None \<Rightarrow> (E_UNKNOWN_TYPE, st)
         | Some i \<Rightarrow>
             (let (j, pos) = reg_loop (callbList (regList st ! i)) f MAX_CALLBACK_COUNT 0 MAX_CALLBACK_COUNT
              in if j < MAX_CALLBACK_COUNT then (E_FUNC_IN_LIST, st)
                 else if pos < MAX_CALLBACK_COUNT then (E_SUCCESS, set_callback st i pos f)
                 else (E_END_OF_LIST, st)))"

definition evproc_unregCallback :: "c_event \<Rightarrow> ptr \<Rightarrow> evproc \<Rightarrow> en_evprocResCode \<times> evproc" where
  "evproc_unregCallback t f st =
     (case reg_lookup st t of
        None \<Rightarrow> (E_UNKNOWN_TYPE, st)
      | Some i \<Rightarrow>
          (case find (\<lambda>j. callbList (regList st ! i) ! j = f) [0..<MAX_CALLBACK_COUNT] of
             Some j \<Rightarrow> (E_SUCCESS, set_callback st i j NULL)
           | None \<Rightarrow> (E_NO_SUCH_FUNC, st)))"

primrec shift_loop :: "nat \<Rightarrow> event list \<Rightarrow> event list" where
  "shift_loop 0 es = es"
| "shift_loop (Suc i) es = shift_loop i (es[Suc i := es ! i])"

definition put_head :: "c_event \<Rightarrow> ptr \<Rightarrow> evproc \<Rightarrow> en_evprocResCode \<times> evproc" where
  "put_head t d st =
     (if queueSize st = of_nat EVPROC_QUEUE_SIZE then (E_END_OF_LIST, st)
      else if t < OBLIG_EVENT_PRIOR \<and> evproc_lookupEvent st t d then (E_SUCCESS, st)
      else (E_SUCCESS, st\<lparr>evList := (evList st)[unat (queueSize st) := (t, d)], queueSize := queueSize st + 1\<rparr>))"

definition put_tail :: "c_event \<Rightarrow> ptr \<Rightarrow> evproc \<Rightarrow> en_evprocResCode \<times> evproc" where
  "put_tail t d st =
     (if queueSize st = of_nat EVPROC_QUEUE_SIZE then (E_END_OF_LIST, st)
      else if t < OBLIG_EVENT_PRIOR \<and> evproc_lookupEvent st t d then (E_SUCCESS, st)
      else (E_SUCCESS, st\<lparr>evList := (shift_loop (unat (queueSize st)) (evList st))[0 := (t, d)],
                          queueSize := queueSize st + 1\<rparr>))"

definition evproc_putEvent :: "(ptr \<Rightarrow> c_event \<Rightarrow> ptr \<Rightarrow> 'w \<times> evproc \<Rightarrow> 'w \<times> evproc) \<Rightarrow> en_evprocAction \<Rightarrow>
    c_event \<Rightarrow> ptr \<Rightarrow> 'w \<times> evproc \<Rightarrow> en_evprocResCode \<times> ('w \<times> evproc)" where
  "evproc_putEvent call a t d s =
     (case a of
        E_EVPROC_HEAD \<Rightarrow> (case put_head t d (snd s) of (r, st) \<Rightarrow> (r, (fst s, st)))
      | E_EVPROC_TAIL \<Rightarrow> (case put_tail t d (snd s) of (r, st) \<Rightarrow> (r, (fst s, st)))
      | E_EVPROC_EXEC \<Rightarrow>
          (case evproc_processEvent call t d s of
             (r, s) \<Rightarrow> if res_code r = 0 then (E_UNKNOWN_TYPE, s) else (E_SUCCESS, s)))"

text \<open>The critical section of \<open>evproc_nextEvent\<close>: the event at the end of the array leaves the queue.\<close>

definition take_event :: "evproc \<Rightarrow> event \<times> evproc" where
  "take_event st =
     (let k = unat (queueSize st - 1)
      in (evList st ! k, st\<lparr>evList := (evList st)[k := (0, NULL)], queueSize := queueSize st - 1\<rparr>))"

definition evproc_nextEvent :: "(ptr \<Rightarrow> c_event \<Rightarrow> ptr \<Rightarrow> 'w \<times> evproc \<Rightarrow> 'w \<times> evproc) \<Rightarrow>
    'w \<times> evproc \<Rightarrow> en_evprocResCode \<times> ('w \<times> evproc)" where
  "evproc_nextEvent call s =
     (if queueSize (snd s) > 0 then
        (case take_event (snd s) of
           (e, st) \<Rightarrow>
             (case evproc_processEvent call (fst e) (snd e) (fst s, st) of
                (r, s) \<Rightarrow> if res_code r = 0 then (E_UNKNOWN_TYPE, s) else (E_SUCCESS, s)))
      else (E_QUEUE_EMPTY, s))"

subsection \<open>The invariant\<close>

definition reg_ok :: "nat \<Rightarrow> funcReg \<Rightarrow> bool" where
  "reg_ok i r \<longleftrightarrow> fr_event r = of_nat i \<and> length (callbList r) = MAX_CALLBACK_COUNT \<and>
     distinct (filter (\<lambda>f. f \<noteq> NULL) (callbList r))"

definition evproc_ok :: "evproc \<Rightarrow> bool" where
  "evproc_ok st \<longleftrightarrow> isInit st \<noteq> 0 \<and> length (regList st) = EVENT_TYPE_MAX \<and>
     (\<forall>i \<in> {0..<EVENT_TYPE_MAX}. reg_ok i (regList st ! i)) \<and>
     length (evList st) = EVPROC_QUEUE_SIZE \<and> unat (queueSize st) \<le> EVPROC_QUEUE_SIZE"

definition callbacks :: "evproc \<Rightarrow> c_event \<Rightarrow> ptr list" where
  "callbacks st t = callbList (regList st ! unat t)"

text \<open>The queue, the event that is served next first.\<close>

definition evq :: "evproc \<Rightarrow> event list" where
  "evq st = rev (take (unat (queueSize st)) (evList st))"

lemma reg_ok_init: "reg_ok i \<lparr>fr_event = of_nat i, callbList = replicate MAX_CALLBACK_COUNT NULL\<rparr>"
  by (simp add: reg_ok_def)

lemma evproc_ok_init_static: "evproc_ok (evproc_init evproc_static)"
  by (auto simp: evproc_ok_def evproc_init_def evproc_init'_def evproc_static_def reg_ok_init)

lemma evproc_ok_init: "evproc_ok st \<Longrightarrow> evproc_ok (evproc_init st)"
  by (auto simp: evproc_ok_def evproc_init_def evproc_init'_def reg_ok_init)

lemma evproc_ok_reg: "evproc_ok st \<Longrightarrow> i < EVENT_TYPE_MAX \<Longrightarrow> reg_ok i (regList st ! i)"
  by (simp add: evproc_ok_def)

lemma find_upt_unique:
  "(\<And>i. i < n \<Longrightarrow> P i \<longleftrightarrow> i = k) \<Longrightarrow> find P [0..<n] = (if k < n then Some k else None)"
proof -
  assume P: "\<And>i. i < n \<Longrightarrow> P i \<longleftrightarrow> i = k"
  show ?thesis
  proof (cases "k < n")
    case True
    then have "find P [0..<n] = Some k"
      unfolding find_Some_iff by (intro exI [of _ k]) (simp add: P)
    with True show ?thesis by simp
  next
    case False
    then have "find P [0..<n] = None" by (auto simp: find_None_iff P)
    with False show ?thesis by simp
  qed
qed

lemma of_nat_eq_u8: "i < 17 \<Longrightarrow> (of_nat i :: u8) = t \<longleftrightarrow> i = unat t"
  by (auto simp: unat_of_nat take_bit_eq_mod)

lemma reg_lookup_eq:
  assumes "evproc_ok st"
  shows "reg_lookup st t = (if unat t < EVENT_TYPE_MAX then Some (unat t) else None)"
proof -
  have "i < EVENT_TYPE_MAX \<Longrightarrow> fr_event (regList st ! i) = t \<longleftrightarrow> i = unat t" for i
    using evproc_ok_reg [OF assms, of i] of_nat_eq_u8 [of i t] by (simp add: reg_ok_def EVENT_TYPE_MAX_def)
  then show ?thesis unfolding reg_lookup_def by (rule find_upt_unique)
qed

subsection \<open>The queue is a double-ended queue\<close>

lemma length_shift_loop [simp]: "length (shift_loop n es) = length es"
  by (induction n arbitrary: es) simp_all

lemma shift_loop_eq:
  "n < length es \<Longrightarrow> (shift_loop n es)[0 := e] = e # take n es @ drop (Suc n) es"
proof (induction n arbitrary: es)
  case 0 then show ?case by (cases es) simp_all
next
  case (Suc n)
  have "(shift_loop (Suc n) es)[0 := e] = e # take n es @ drop (Suc n) (es[Suc n := es ! n])"
    using Suc.IH [of "es[Suc n := es ! n]"] Suc.prems by simp
  also have "drop (Suc n) (es[Suc n := es ! n]) = es ! n # drop (Suc (Suc n)) es"
    using Suc.prems by (simp add: drop_update_swap flip: Cons_nth_drop_Suc)
  also have "take n es @ es ! n # drop (Suc (Suc n)) es = take (Suc n) es @ drop (Suc (Suc n)) es"
    using Suc.prems by (simp add: take_Suc_conv_app_nth)
  finally show ?case by simp
qed

lemma lookupEvent_iff:
  "evproc_ok st \<Longrightarrow> evproc_lookupEvent st t d \<longleftrightarrow> (t, d) \<in> set (evq st)"
  by (fastforce simp: evproc_lookupEvent_def evq_def evproc_ok_def in_set_conv_nth)

lemma length_evq: "evproc_ok st \<Longrightarrow> length (evq st) = unat (queueSize st)"
  by (simp add: evq_def evproc_ok_def)

lemma queue_full_iff: "evproc_ok st \<Longrightarrow> queueSize st = of_nat EVPROC_QUEUE_SIZE \<longleftrightarrow> length (evq st) = EVPROC_QUEUE_SIZE"
  by (simp add: length_evq word_unat_eq_iff EVPROC_QUEUE_SIZE_def)

lemma unat_Suc_u8: "unat (w::u8) < 255 \<Longrightarrow> unat (w + 1) = Suc (unat w)"
  by (simp add: unat_word_ariths)

definition skipped :: "c_event \<Rightarrow> ptr \<Rightarrow> evproc \<Rightarrow> bool" where
  "skipped t d st \<longleftrightarrow> t < OBLIG_EVENT_PRIOR \<and> (t, d) \<in> set (evq st)"

lemma put_room_size:
  "evproc_ok st \<Longrightarrow> length (evq st) \<noteq> EVPROC_QUEUE_SIZE \<Longrightarrow>
     unat (queueSize st) < 20 \<and> unat (queueSize st + 1) = Suc (unat (queueSize st))"
  using unat_Suc_u8 [of "queueSize st"] by (simp add: length_evq evproc_ok_def EVPROC_QUEUE_SIZE_def)

lemma put_head_refines:
  assumes "evproc_ok st"
  shows "put_head t d st =
      (if length (evq st) = EVPROC_QUEUE_SIZE then (E_END_OF_LIST, st) else (E_SUCCESS, snd (put_head t d st)))"
    and "evproc_ok (snd (put_head t d st))"
    and "evq (snd (put_head t d st)) =
      (if length (evq st) = EVPROC_QUEUE_SIZE \<or> skipped t d st then evq st else (t, d) # evq st)"
    and "regList (snd (put_head t d st)) = regList st"
  using assms put_room_size [OF assms]
  by (auto simp: put_head_def queue_full_iff lookupEvent_iff skipped_def)
    (auto simp: evproc_ok_def evq_def EVPROC_QUEUE_SIZE_def take_Suc_conv_app_nth)

lemma put_tail_refines:
  assumes "evproc_ok st"
  shows "put_tail t d st =
      (if length (evq st) = EVPROC_QUEUE_SIZE then (E_END_OF_LIST, st) else (E_SUCCESS, snd (put_tail t d st)))"
    and "evproc_ok (snd (put_tail t d st))"
    and "evq (snd (put_tail t d st)) =
      (if length (evq st) = EVPROC_QUEUE_SIZE \<or> skipped t d st then evq st else evq st @ [(t, d)])"
    and "regList (snd (put_tail t d st)) = regList st"
  using assms put_room_size [OF assms]
  by (auto simp: put_tail_def queue_full_iff lookupEvent_iff skipped_def shift_loop_eq)
    (auto simp: evproc_ok_def evq_def EVPROC_QUEUE_SIZE_def shift_loop_eq)

lemma take_event_refines:
  assumes "evproc_ok st" and "queueSize st > 0"
  shows "evq st = fst (take_event st) # evq (snd (take_event st))"
    and "evproc_ok (snd (take_event st))" and "regList (snd (take_event st)) = regList st"
proof -
  obtain n where n: "unat (queueSize st) = Suc n"
    using assms(2) by (metis gr0_implies_Suc unat_gt_0 word_gt_0)
  then have d: "unat (queueSize st - 1) = n"
    by (metis One_nat_def diff_Suc_1 nat.distinct(1) unat_eq_zero unat_minus_one)
  show "evq st = fst (take_event st) # evq (snd (take_event st))"
    and "evproc_ok (snd (take_event st))" and "regList (snd (take_event st)) = regList st"
    using assms n d by (auto simp: take_event_def evq_def evproc_ok_def take_Suc_conv_app_nth Let_def)
qed

lemma queue_empty_iff: "evproc_ok st \<Longrightarrow> queueSize st > 0 \<longleftrightarrow> evq st \<noteq> []"
  by (metis length_0_conv length_evq neq0_conv unat_gt_0 word_gt_0)

text \<open>
  The posting side and the serving side meet in this contract: an accepted item goes to the front or to
  the back, and the front is served.
\<close>

locale event_deque =
  fixes ok :: "'s \<Rightarrow> bool" and items :: "'s \<Rightarrow> 'e list" and cap :: nat
    and to_front :: "'e \<Rightarrow> 's \<Rightarrow> 's" and to_back :: "'e \<Rightarrow> 's \<Rightarrow> 's" and serve :: "'s \<Rightarrow> 'e \<times> 's"
  assumes front_ok: "ok s \<Longrightarrow> ok (to_front e s)"
    and front_items: "ok s \<Longrightarrow> length (items s) < cap \<Longrightarrow> e \<notin> set (items s) \<Longrightarrow> items (to_front e s) = e # items s"
    and back_ok: "ok s \<Longrightarrow> ok (to_back e s)"
    and back_items: "ok s \<Longrightarrow> length (items s) < cap \<Longrightarrow> e \<notin> set (items s) \<Longrightarrow> items (to_back e s) = items s @ [e]"
    and serve_items: "ok s \<Longrightarrow> items s \<noteq> [] \<Longrightarrow> ok (snd (serve s)) \<and> items s = fst (serve s) # items (snd (serve s))"
begin

primrec served :: "nat \<Rightarrow> 's \<Rightarrow> 'e list \<times> 's" where
  "served 0 s = ([], s)"
| "served (Suc n) s = (fst (serve s) # fst (served n (snd (serve s))), snd (served n (snd (serve s))))"

lemma back_all:
  "ok s \<Longrightarrow> length (items s) + length es \<le> cap \<Longrightarrow> distinct es \<Longrightarrow> set es \<inter> set (items s) = {} \<Longrightarrow>
    ok (fold to_back es s) \<and> items (fold to_back es s) = items s @ es"
  by (induction es arbitrary: s) (simp_all add: back_ok back_items)

lemma front_all:
  "ok s \<Longrightarrow> length (items s) + length es \<le> cap \<Longrightarrow> distinct es \<Longrightarrow> set es \<inter> set (items s) = {} \<Longrightarrow>
    ok (fold to_front es s) \<and> items (fold to_front es s) = rev es @ items s"
  by (induction es arbitrary: s) (simp_all add: front_ok front_items)

lemma served_items:
  "ok s \<Longrightarrow> n \<le> length (items s) \<Longrightarrow>
    fst (served n s) = take n (items s) \<and> items (snd (served n s)) = drop n (items s)"
proof (induction n arbitrary: s)
  case (Suc n)
  then have "items s \<noteq> []" by auto
  with Suc.prems serve_items have s: "ok (snd (serve s))" "items s = fst (serve s) # items (snd (serve s))"
    by blast+
  have "n \<le> length (items (snd (serve s)))" using Suc.prems(2) s(2) by (metis Suc_le_mono length_Cons)
  with Suc.IH [OF s(1)] show ?case by (simp add: s(2))
qed simp

lemma back_then_front_order:
  assumes "ok s" and "items s = []" and "length es + length fs \<le> cap" and "distinct (es @ fs)"
  shows "fst (served (length es + length fs) (fold to_front fs (fold to_back es s))) = rev fs @ es"
proof -
  have b: "ok (fold to_back es s)" "items (fold to_back es s) = es" using back_all [of s es] assms by auto
  then have "ok (fold to_front fs (fold to_back es s))" "items (fold to_front fs (fold to_back es s)) = rev fs @ es"
    using front_all [of "fold to_back es s" fs] assms(3,4) by (auto simp: add.commute)
  then show ?thesis using served_items [of "fold to_front fs (fold to_back es s)" "length es + length fs"]
    by (simp add: add.commute)
qed

end

interpretation ev: event_deque evproc_ok evq EVPROC_QUEUE_SIZE
  "\<lambda>e st. snd (put_head (fst e) (snd e) st)" "\<lambda>e st. snd (put_tail (fst e) (snd e) st)" take_event
proof (unfold_locales, goal_cases)
  case (1 s e) then show ?case by (rule put_head_refines(2))
next
  case (2 s e) then show ?case by (simp add: put_head_refines(3) skipped_def)
next
  case (3 s e) then show ?case by (rule put_tail_refines(2))
next
  case (4 s e) then show ?case by (simp add: put_tail_refines(3) skipped_def)
next
  case (5 s) then show ?case using take_event_refines [of s] queue_empty_iff [of s] by metis
qed

text \<open>
  C15: The event array, filled from either end by shifting, is a double-ended queue of at most 20 events: a
  HEAD event is served next, a TAIL event last, a full queue is reported with \<open>E_END_OF_LIST\<close> and left
  alone, and an event of a type below \<open>OBLIG_EVENT_PRIOR\<close> that is queued with the same data is not queued
  twice, which is reported as success.
\<close>

theorem evproc_put_refines_deque:
  assumes "evproc_ok st"
  shows "evproc_putEvent call E_EVPROC_HEAD t d (w, st) =
      ((if length (evq st) = EVPROC_QUEUE_SIZE then E_END_OF_LIST else E_SUCCESS), (w, snd (put_head t d st))) \<and>
    evproc_ok (snd (put_head t d st)) \<and>
    evq (snd (put_head t d st)) =
      (if length (evq st) = EVPROC_QUEUE_SIZE \<or> (t < OBLIG_EVENT_PRIOR \<and> (t, d) \<in> set (evq st)) then evq st
       else (t, d) # evq st) \<and>
    evproc_putEvent call E_EVPROC_TAIL t d (w, st) =
      ((if length (evq st) = EVPROC_QUEUE_SIZE then E_END_OF_LIST else E_SUCCESS), (w, snd (put_tail t d st))) \<and>
    evproc_ok (snd (put_tail t d st)) \<and>
    evq (snd (put_tail t d st)) =
      (if length (evq st) = EVPROC_QUEUE_SIZE \<or> (t < OBLIG_EVENT_PRIOR \<and> (t, d) \<in> set (evq st)) then evq st
       else evq st @ [(t, d)])"
proof (intro conjI)
  show "evproc_putEvent call E_EVPROC_HEAD t d (w, st) =
      ((if length (evq st) = EVPROC_QUEUE_SIZE then E_END_OF_LIST else E_SUCCESS), (w, snd (put_head t d st)))"
    using put_head_refines(1) [OF assms, of t d] by (simp add: evproc_putEvent_def split: if_splits) (metis prod.case snd_conv)+
  show "evproc_putEvent call E_EVPROC_TAIL t d (w, st) =
      ((if length (evq st) = EVPROC_QUEUE_SIZE then E_END_OF_LIST else E_SUCCESS), (w, snd (put_tail t d st)))"
    using put_tail_refines(1) [OF assms, of t d] by (simp add: evproc_putEvent_def split: if_splits) (metis prod.case snd_conv)+
qed (simp_all add: put_head_refines(2,3) [OF assms] put_tail_refines(2,3) [OF assms] skipped_def)

theorem evproc_put_refines_deque_witness:
  "evq (snd (put_tail 3 8 (snd (put_head 3 8 (evproc_init evproc_static))))) = [(3, 8)]"
proof -
  let ?st = "evproc_init evproc_static"
  have e: "evq ?st = []" by (simp add: evq_def evproc_init_def evproc_init'_def evproc_static_def)
  have ok: "evproc_ok (snd (put_head 3 8 ?st))" and q: "evq (snd (put_head 3 8 ?st)) = [(3, 8)]"
    using evproc_put_refines_deque [OF evproc_ok_init_static, of "\<lambda>_ _ _ s. s" 3 8 "()"] e
    by (simp_all add: evproc_consts)
  show ?thesis
    using evproc_put_refines_deque [OF ok, of "\<lambda>_ _ _ s. s" 3 8 "()"] q by (simp add: evproc_consts)
qed

text \<open>
  Different events put at the tail of the empty queue, followed by different events put at its head, are
  served in this order: the HEAD events, the latest first, then the TAIL events in the order of posting.
\<close>

theorem evproc_service_order:
  assumes "evproc_ok st" and "evq st = []" and "length es + length fs \<le> 20" and "distinct (es @ fs)"
  shows "fst (ev.served (length es + length fs)
      (fold (\<lambda>e st. snd (put_head (fst e) (snd e) st)) fs (fold (\<lambda>e st. snd (put_tail (fst e) (snd e) st)) es st)))
    = rev fs @ es"
  using ev.back_then_front_order [OF assms(1,2)] assms(3,4) by (simp add: EVPROC_QUEUE_SIZE_def)

theorem evproc_service_order_witness:
  "fst (ev.served (length [(1, 5), (2, 5)] + length [(16, 0)])
      (fold (\<lambda>e st. snd (put_head (fst e) (snd e) st)) [(16, 0)]
        (fold (\<lambda>e st. snd (put_tail (fst e) (snd e) st)) [(1, 5), (2, 5)] (evproc_init evproc_static))))
    = rev [(16, 0)] @ [(1, 5), (2, 5)]"
  using evproc_service_order [OF evproc_ok_init_static, of "[(1, 5), (2, 5)]" "[(16, 0)]"]
  by (simp add: evq_def evproc_init_def evproc_init'_def evproc_static_def)

text \<open>
  Initialising again keeps the event count: the queue then holds as many \<open>EVENT_TYPE_NONE\<close> events as it held
  events, each of which \<open>evproc_nextEvent\<close> will take (calling nobody) before it serves a new TAIL event.
  The comment of the function says that it resets the queue.
\<close>

theorem evproc_init_keeps_count:
  assumes "evproc_ok st"
  shows "evq (evproc_init st) = replicate (length (evq st)) (EVENT_TYPE_NONE, NULL)"
  using assms length_evq [OF assms]
  by (simp add: evproc_init_def evproc_init'_def evq_def evproc_ok_def)

theorem evproc_init_keeps_count_witness:
  "evq (evproc_init (snd (put_head 3 8 (evproc_init evproc_static)))) = [(0xFF, 0)]"
proof -
  let ?st = "evproc_init evproc_static"
  have e: "evq ?st = []" by (simp add: evq_def evproc_init_def evproc_init'_def evproc_static_def)
  show ?thesis
    using evproc_init_keeps_count [OF put_head_refines(2) [OF evproc_ok_init_static, of 3 8]]
      put_head_refines(3) [OF evproc_ok_init_static, of 3 8] e
    by (simp add: evproc_consts skipped_def)
qed

subsection \<open>Registered callbacks\<close>

lemma reg_loop_found:
  "j + n \<le> length cbs \<Longrightarrow> f \<in> set (take n (drop j cbs)) \<Longrightarrow>
    \<exists>k. j \<le> k \<and> k < j + n \<and> reg_loop cbs f n j pos = (k, MAX_CALLBACK_COUNT)"
proof (induction n arbitrary: j pos)
  case (Suc n)
  have d: "take (Suc n) (drop j cbs) = cbs ! j # take n (drop (Suc j) cbs)"
    using Suc.prems(1) by (simp flip: Cons_nth_drop_Suc)
  show ?case
  proof (cases "cbs ! j = f")
    case False
    let ?p = "if cbs ! j = NULL \<and> pos = MAX_CALLBACK_COUNT then j else pos"
    obtain k where "Suc j \<le> k" "k < Suc j + n" "reg_loop cbs f n (Suc j) ?p = (k, MAX_CALLBACK_COUNT)"
      using Suc.IH [of "Suc j" ?p] Suc.prems False d by auto
    with False show ?thesis by (intro exI [of _ k]) simp
  qed (auto intro!: exI [of _ j])
qed simp

text \<open>The free slot the loop ends with: the first one, unless one was known before.\<close>

lemma reg_loop_not_found:
  "j + n \<le> length cbs \<Longrightarrow> f \<notin> set (take n (drop j cbs)) \<Longrightarrow> j + n \<le> MAX_CALLBACK_COUNT \<Longrightarrow>
    reg_loop cbs f n j pos =
      (j + n, if pos = MAX_CALLBACK_COUNT then (if NULL \<in> set (take n (drop j cbs))
                then j + length (takeWhile (\<lambda>g. g \<noteq> NULL) (take n (drop j cbs))) else MAX_CALLBACK_COUNT) else pos)"
proof (induction n arbitrary: j pos)
  case (Suc n)
  have d: "take (Suc n) (drop j cbs) = cbs ! j # take n (drop (Suc j) cbs)"
    using Suc.prems(1) by (simp flip: Cons_nth_drop_Suc)
  let ?p = "if cbs ! j = NULL \<and> pos = MAX_CALLBACK_COUNT then j else pos"
  have "cbs ! j \<noteq> f" "f \<notin> set (take n (drop (Suc j) cbs))" using Suc.prems(2) d by auto
  with Suc.IH [of "Suc j" ?p] Suc.prems(1,3) show ?case by (simp add: d)
qed simp

lemma callbacks_set_callback:
  "i < length (regList st) \<Longrightarrow> callbacks (set_callback st i j f) t =
     (if unat t = i then (callbacks st t)[j := f] else callbacks st t)"
  by (simp add: callbacks_def set_callback_def)

text \<open>The callbacks an event of type \<open>t\<close> reaches: those in front of the first empty slot.\<close>

definition called :: "evproc \<Rightarrow> c_event \<Rightarrow> ptr list" where
  "called st t = takeWhile (\<lambda>f. f \<noteq> NULL) (callbacks st t)"

lemma callbacks_ok:
  "evproc_ok st \<Longrightarrow> unat t < EVENT_TYPE_MAX \<Longrightarrow>
    length (callbacks st t) = MAX_CALLBACK_COUNT \<and> distinct (filter (\<lambda>f. f \<noteq> NULL) (callbacks st t))"
  using evproc_ok_reg [of st "unat t"] by (simp add: reg_ok_def callbacks_def)

lemma distinct_filter_update:
  "distinct (filter P xs) \<Longrightarrow> y \<notin> set xs \<or> \<not> P y \<Longrightarrow> distinct (filter P (xs[j := y]))"
proof (induction xs arbitrary: j)
  case (Cons x xs)
  then have IH: "distinct (filter P xs)" "distinct (filter P (xs[i := y]))" for i by (auto split: if_splits)
  have "\<not> (P x \<and> x \<in> set (xs[i := y]))" for i
    using Cons.prems set_update_subset_insert [of xs i y] by (auto split: if_splits)
  with IH Cons.prems show ?case by (cases j) (auto split: if_splits)
qed simp

lemma set_callback_ok:
  assumes "evproc_ok st" and "i < EVENT_TYPE_MAX" and "f \<notin> set (callbList (regList st ! i)) \<or> f = NULL"
  shows "evproc_ok (set_callback st i j f)"
  using assms distinct_filter_update [of "\<lambda>f. f \<noteq> NULL" "callbList (regList st ! i)" f j]
  by (auto simp: evproc_ok_def set_callback_def reg_ok_def nth_list_update)

lemma regCallback_cases:
  assumes "evproc_ok st" and "f \<noteq> NULL" and "unat t < EVENT_TYPE_MAX"
  shows "evproc_regCallback t f st =
    (if f \<in> set (callbacks st t) then (E_FUNC_IN_LIST, st)
     else if NULL \<in> set (callbacks st t) then (E_SUCCESS, set_callback st (unat t) (length (called st t)) f)
     else (E_END_OF_LIST, st))"
proof -
  let ?cbs = "callbacks st t"
  have l: "length ?cbs = MAX_CALLBACK_COUNT" using callbacks_ok [OF assms(1,3)] by simp
  have k: "NULL \<in> set ?cbs \<Longrightarrow> length (called st t) < MAX_CALLBACK_COUNT"
    unfolding called_def l [symmetric] by (rule length_takeWhile_lt) auto
  have e: "evproc_regCallback t f st =
      (let (j, pos) = reg_loop ?cbs f MAX_CALLBACK_COUNT 0 MAX_CALLBACK_COUNT
       in if j < MAX_CALLBACK_COUNT then (E_FUNC_IN_LIST, st)
          else if pos < MAX_CALLBACK_COUNT then (E_SUCCESS, set_callback st (unat t) pos f)
          else (E_END_OF_LIST, st))"
    using assms by (simp add: evproc_regCallback_def reg_lookup_eq callbacks_def evproc_ok_def)
  show ?thesis
  proof (cases "f \<in> set ?cbs")
    case True
    then show ?thesis using reg_loop_found [of 0 MAX_CALLBACK_COUNT ?cbs f MAX_CALLBACK_COUNT] l e
      by auto
  next
    case False
    then show ?thesis using reg_loop_not_found [of 0 MAX_CALLBACK_COUNT ?cbs f MAX_CALLBACK_COUNT] l e k
      by (auto simp: called_def)
  qed
qed

lemma unregCallback_cases:
  assumes "evproc_ok st" and "unat t < EVENT_TYPE_MAX"
  shows "evproc_unregCallback t f st =
    (if f \<in> set (callbacks st t)
     then (E_SUCCESS, set_callback st (unat t) (length (takeWhile (\<lambda>g. g \<noteq> f) (callbacks st t))) NULL)
     else (E_NO_SUCH_FUNC, st))"
proof -
  let ?cbs = "callbacks st t"
  let ?k = "length (takeWhile (\<lambda>g. g \<noteq> f) ?cbs)"
  have l: "length ?cbs = MAX_CALLBACK_COUNT" using callbacks_ok [OF assms] by simp
  have f: "find (\<lambda>j. ?cbs ! j = f) [0..<MAX_CALLBACK_COUNT] = (if f \<in> set ?cbs then Some ?k else None)"
  proof (cases "f \<in> set ?cbs")
    case True
    then have k: "?k < length ?cbs" by (auto intro: length_takeWhile_lt)
    then have "?cbs ! ?k = f" using nth_length_takeWhile [OF k] by simp
    moreover have "?cbs ! j \<noteq> f" if "j < ?k" for j
      using that nth_mem [of j "takeWhile (\<lambda>g. g \<noteq> f) ?cbs"] by (auto simp: takeWhile_nth dest: set_takeWhileD)
    ultimately have "find (\<lambda>j. ?cbs ! j = f) [0..<MAX_CALLBACK_COUNT] = Some ?k"
      unfolding find_Some_iff using k l by (intro exI [of _ ?k]) simp
    with True show ?thesis by simp
  next
    case False
    then have "find (\<lambda>j. ?cbs ! j = f) [0..<MAX_CALLBACK_COUNT] = None"
      using l by (auto simp: find_None_iff)
    with False show ?thesis by simp
  qed
  show ?thesis using f assms by (simp add: evproc_unregCallback_def reg_lookup_eq callbacks_def)
qed

lemma reg_unknown:
  assumes "evproc_ok st" and "EVENT_TYPE_MAX \<le> unat t"
  shows "evproc_unregCallback t f st = (E_UNKNOWN_TYPE, st)"
    and "f \<noteq> NULL \<Longrightarrow> evproc_regCallback t f st = (E_UNKNOWN_TYPE, st)"
  using assms by (simp_all add: evproc_unregCallback_def evproc_regCallback_def reg_lookup_eq evproc_ok_def)

lemma called_update:
  "called_t = takeWhile (\<lambda>f. f \<noteq> NULL) cbs \<Longrightarrow> NULL \<in> set cbs \<Longrightarrow> f \<noteq> NULL \<Longrightarrow>
    takeWhile (\<lambda>f. f \<noteq> NULL) (cbs[length called_t := f]) =
      called_t @ f # takeWhile (\<lambda>f. f \<noteq> NULL) (drop (Suc (length called_t)) cbs)"
  by (induction cbs arbitrary: called_t) (auto split: if_splits)

lemma takeWhile_punch:
  "takeWhile P cbs = xs @ f # ys \<Longrightarrow> \<not> P g \<Longrightarrow> takeWhile P (cbs[length xs := g]) = xs"
proof (induction xs arbitrary: cbs)
  case Nil then show ?case by (cases cbs) (auto split: if_splits)
next
  case (Cons x xs)
  then show ?case by (cases cbs) (auto split: if_splits)
qed

lemma takeWhile_dropWhile_Nil: "takeWhile P (dropWhile P xs) = []"
  by (induction xs) simp_all

lemma takeWhile_neq_append:
  "takeWhile P cbs = xs @ f # ys \<Longrightarrow> f \<notin> set xs \<Longrightarrow> takeWhile (\<lambda>g. g \<noteq> f) cbs = xs"
proof (induction xs arbitrary: cbs)
  case Nil then show ?case by (cases cbs) (auto split: if_splits)
next
  case (Cons x xs)
  then show ?case by (cases cbs) (auto split: if_splits)
qed

lemma distinct_called:
  "evproc_ok st \<Longrightarrow> unat t < EVENT_TYPE_MAX \<Longrightarrow> distinct (called st t)"
proof -
  assume "evproc_ok st" "unat t < EVENT_TYPE_MAX"
  then have "distinct (filter (\<lambda>f. f \<noteq> NULL) (callbacks st t))" using callbacks_ok by blast
  moreover have "takeWhile P xs = takeWhile P (filter P xs) \<or> True" for P :: "ptr \<Rightarrow> bool" and xs by simp
  moreover have "filter (\<lambda>f. f \<noteq> NULL) (callbacks st t) =
      called st t @ filter (\<lambda>f. f \<noteq> NULL) (dropWhile (\<lambda>f. f \<noteq> NULL) (callbacks st t))"
    unfolding called_def by (metis (no_types, lifting) filter_True filter_append set_takeWhileD takeWhile_dropWhile_id)
  ultimately show ?thesis by (metis distinct_append)
qed

lemma reg_unreg_ok:
  assumes "evproc_ok st"
  shows "evproc_ok (snd (evproc_regCallback t f st))" and "evproc_ok (snd (evproc_unregCallback t f st))"
proof -
  show "evproc_ok (snd (evproc_unregCallback t f st))"
    using assms unregCallback_cases [OF assms, of t f] reg_unknown(1) [OF assms, of t f] set_callback_ok [OF assms, of "unat t" NULL]
    by (cases "unat t < EVENT_TYPE_MAX") (simp_all split: if_splits)
  show "evproc_ok (snd (evproc_regCallback t f st))"
  proof (cases "f = NULL")
    case True
    then show ?thesis using assms by (simp add: evproc_regCallback_def evproc_ok_def)
  next
    case False
    then show ?thesis
      using assms regCallback_cases [OF assms False, of t] reg_unknown(2) [OF assms, of t f]
        set_callback_ok [OF assms, of "unat t" f]
      by (cases "unat t < EVENT_TYPE_MAX") (simp_all add: callbacks_def split: if_splits)
  qed
qed

subsection \<open>Dispatch\<close>

lemma call_loop_fold:
  assumes "\<And>f t d s. regList (snd (call f t d s)) = regList (snd s)"
  shows "j + n \<le> length (callbList (regList (snd s) ! i)) \<Longrightarrow>
    call_loop call i t d n j s =
      fold (\<lambda>f. call f t d) (takeWhile (\<lambda>f. f \<noteq> NULL) (take n (drop j (callbList (regList (snd s) ! i))))) s"
proof (induction n arbitrary: j s)
  case (Suc n)
  let ?cbs = "callbList (regList (snd s) ! i)"
  have d: "take (Suc n) (drop j ?cbs) = ?cbs ! j # take n (drop (Suc j) ?cbs)"
    using Suc.prems by (simp flip: Cons_nth_drop_Suc)
  show ?case using Suc.IH [of "Suc j" "call (?cbs ! j) t d s"] Suc.prems
    by (simp add: d assms Let_def)
qed simp

lemma processEvent_calls:
  assumes "evproc_ok (snd s)" and "\<And>f t d s. regList (snd (call f t d s)) = regList (snd s)"
  shows "evproc_processEvent call t d s =
    (if unat t < EVENT_TYPE_MAX then (E_SUCCESS, fold (\<lambda>f. call f t d) (called (snd s) t) s) else (E_UNKNOWN_TYPE, s))"
proof (cases "unat t < EVENT_TYPE_MAX")
  case True
  then show ?thesis
    using call_loop_fold [OF assms(2), of 0 MAX_CALLBACK_COUNT s "unat t"] callbacks_ok [OF assms(1) True]
    by (simp add: evproc_processEvent_def reg_lookup_eq [OF assms(1)] called_def callbacks_def)
next
  case False
  then show ?thesis by (simp add: evproc_processEvent_def reg_lookup_eq [OF assms(1)])
qed

lemma called_after_reg:
  assumes "evproc_ok st" and "f \<noteq> NULL" and "unat t < EVENT_TYPE_MAX"
    and "f \<notin> set (callbacks st t)" and "NULL \<in> set (callbacks st t)"
  shows "called (snd (evproc_regCallback t f st)) t = called st t @ f #
    takeWhile (\<lambda>f. f \<noteq> NULL) (drop (Suc (length (called st t))) (callbacks st t))"
proof -
  have "unat t < length (regList st)" using assms(1,3) by (simp add: evproc_ok_def)
  then have "callbacks (snd (evproc_regCallback t f st)) t = (callbacks st t)[length (called st t) := f]"
    using assms by (simp add: regCallback_cases callbacks_set_callback)
  then show ?thesis
    using called_update [of "called st t" "callbacks st t" f] assms(2,5) by (simp add: called_def)
qed

lemma called_after_unreg:
  assumes "evproc_ok st" and "unat t < EVENT_TYPE_MAX" and "called st t = xs @ f # ys"
  shows "fst (evproc_unregCallback t f st) = E_SUCCESS" and "called (snd (evproc_unregCallback t f st)) t = xs"
    and "callbacks (snd (evproc_unregCallback t f st)) t = (callbacks st t)[length xs := NULL]"
proof -
  have f: "f \<in> set (callbacks st t)" using assms(3) unfolding called_def
    by (metis in_set_conv_decomp set_takeWhileD)
  have "f \<notin> set xs" using distinct_called [OF assms(1,2)] assms(3) by simp
  then have k: "takeWhile (\<lambda>g. g \<noteq> f) (callbacks st t) = xs"
    using assms(3) by (auto simp: called_def intro: takeWhile_neq_append)
  have l: "unat t < length (regList st)" using assms(1,2) by (simp add: evproc_ok_def)
  show "fst (evproc_unregCallback t f st) = E_SUCCESS"
    and c: "callbacks (snd (evproc_unregCallback t f st)) t = (callbacks st t)[length xs := NULL]"
    using unregCallback_cases [OF assms(1,2), of f] f k l by (simp_all add: callbacks_set_callback)
  show "called (snd (evproc_unregCallback t f st)) t = xs"
    using c assms(3) by (simp add: called_def takeWhile_punch)
qed

text \<open>
  Registering keeps the registrations well formed and reports exactly what happened: a callback that is
  registered for the type is refused as such, a full list is refused, and otherwise the callback takes
  the first free slot, is called after the ones in front of it, and the other event types are untouched.
\<close>

theorem evproc_regCallback_correct:
  assumes "evproc_ok st" and "f \<noteq> NULL" and "unat t < EVENT_TYPE_MAX"
  shows "evproc_ok (snd (evproc_regCallback t f st)) \<and>
    (f \<in> set (callbacks st t) \<longrightarrow> evproc_regCallback t f st = (E_FUNC_IN_LIST, st)) \<and>
    (f \<notin> set (callbacks st t) \<and> NULL \<notin> set (callbacks st t) \<longrightarrow> evproc_regCallback t f st = (E_END_OF_LIST, st)) \<and>
    (f \<notin> set (callbacks st t) \<and> NULL \<in> set (callbacks st t) \<longrightarrow>
       fst (evproc_regCallback t f st) = E_SUCCESS \<and>
       callbacks (snd (evproc_regCallback t f st)) t = (callbacks st t)[length (called st t) := f] \<and>
       (\<exists>zs. called (snd (evproc_regCallback t f st)) t = called st t @ f # zs) \<and>
       (\<forall>u. u \<noteq> t \<longrightarrow> callbacks (snd (evproc_regCallback t f st)) u = callbacks st u))"
proof -
  have l: "unat t < length (regList st)" using assms(1,3) by (simp add: evproc_ok_def)
  have u: "u \<noteq> t \<Longrightarrow> unat u \<noteq> unat t" for u by (simp add: word_unat_eq_iff)
  show ?thesis
    using reg_unreg_ok(1) [OF assms(1), of t f] called_after_reg [OF assms] l
    by (auto simp: regCallback_cases [OF assms] callbacks_set_callback u)
qed

lemma no_callbacks: "replicate MAX_CALLBACK_COUNT NULL = [0, 0, 0, 0, 0, 0, 0, 0, 0, 0, 0, 0, 0]"
  by (simp add: MAX_CALLBACK_COUNT_def numeral_eq_Suc)

lemma callbacks_init_static:
  "callbacks (evproc_init evproc_static) 4 = [0, 0, 0, 0, 0, 0, 0, 0, 0, 0, 0, 0, 0]"
  by (simp add: callbacks_def evproc_init_def evproc_init'_def evproc_static_def EVENT_TYPE_MAX_def no_callbacks)

theorem evproc_regCallback_correct_witness:
  "fst (evproc_regCallback 4 100 (evproc_init evproc_static)) = E_SUCCESS \<and>
   called (snd (evproc_regCallback 4 100 (evproc_init evproc_static))) 4 = [100]"
  using evproc_regCallback_correct [OF evproc_ok_init_static, of 100 4]
  by (simp add: callbacks_init_static called_def EVENT_TYPE_MAX_def)

text \<open>
  \<open>evproc_nextEvent\<close> takes the front event off the queue and calls the callbacks registered for its
  type, in registration order, when the callbacks leave the registrations alone; it answers \<open>E_SUCCESS\<close>
  whatever the type, also for one that has no entry, since \<open>E_UNKNOWN_TYPE\<close> is not zero; the same holds for
  immediate execution.
\<close>

theorem evproc_nextEvent_dispatch:
  assumes "evproc_ok st" and "evq st = e # es"
    and "\<And>f t d s. regList (snd (call f t d s)) = regList (snd s)"
  shows "\<exists>st'. evproc_ok st' \<and> evq st' = es \<and> regList st' = regList st \<and>
    evproc_nextEvent call (w, st) =
      (E_SUCCESS, if unat (fst e) < EVENT_TYPE_MAX
                  then fold (\<lambda>f. call f (fst e) (snd e)) (called st (fst e)) (w, st') else (w, st')) \<and>
    evproc_putEvent call E_EVPROC_EXEC t d (w, st) =
      (E_SUCCESS, if unat t < EVENT_TYPE_MAX then fold (\<lambda>f. call f t d) (called st t) (w, st) else (w, st))"
proof -
  have ne: "queueSize st > 0" using queue_empty_iff [OF assms(1)] assms(2) by simp
  note te = take_event_refines [OF assms(1) ne]
  let ?st = "snd (take_event st)"
  have eq: "fst (take_event st) = e" "evq ?st = es" using te(1) assms(2) by auto
  obtain b where b: "take_event st = (e, b)" using eq by (cases "take_event st") simp
  have c: "called b t = called st t" for t using te(3) by (simp add: called_def callbacks_def b)
  have next_e: "evproc_nextEvent call (w, st) =
      (E_SUCCESS, if unat (fst e) < EVENT_TYPE_MAX
                  then fold (\<lambda>f. call f (fst e) (snd e)) (called st (fst e)) (w, ?st) else (w, ?st))"
    using processEvent_calls [of "(w, ?st)" call "fst e" "snd e", OF _ assms(3)] te(2) ne
    by (simp add: evproc_nextEvent_def c b)
  have exec: "evproc_putEvent call E_EVPROC_EXEC t d (w, st) =
      (E_SUCCESS, if unat t < EVENT_TYPE_MAX then fold (\<lambda>f. call f t d) (called st t) (w, st) else (w, st))"
    using processEvent_calls [of "(w, st)" call t d, OF _ assms(3)] assms(1) by (simp add: evproc_putEvent_def)
  show ?thesis using te(2,3) eq next_e exec by (intro exI [of _ ?st]) simp
qed

text \<open>The logging callback the witnesses use.\<close>

definition log_call :: "ptr \<Rightarrow> c_event \<Rightarrow> ptr \<Rightarrow> (ptr \<times> c_event \<times> ptr) list \<times> evproc \<Rightarrow> (ptr \<times> c_event \<times> ptr) list \<times> evproc" where
  "log_call f t d s = (fst s @ [(f, t, d)], snd s)"

lemma log_call_regList [simp]: "regList (snd (log_call f t d s)) = regList (snd s)"
  by (simp add: log_call_def)

definition two_callbacks :: evproc where
  "two_callbacks = snd (evproc_regCallback 4 200 (snd (evproc_regCallback 4 100 (evproc_init evproc_static))))"

lemma two_callbacks_ok: "evproc_ok two_callbacks"
  by (simp add: two_callbacks_def reg_unreg_ok evproc_ok_init_static)

lemma two_callbacks_called: "called two_callbacks 4 = [100, 200] \<and> callbacks two_callbacks 4 ! 2 = NULL \<and>
    set (callbacks two_callbacks 4) = {NULL, 100, 200}"
proof -
  let ?a = "evproc_init evproc_static" and ?b = "snd (evproc_regCallback 4 100 (evproc_init evproc_static))"
  have t: "unat (4::u8) < EVENT_TYPE_MAX" by (simp add: EVENT_TYPE_MAX_def)
  have l: "4 < length (regList ?a)" using evproc_ok_init_static by (simp add: evproc_ok_def EVENT_TYPE_MAX_def)
  have b: "callbacks ?b 4 = [100, 0, 0, 0, 0, 0, 0, 0, 0, 0, 0, 0, 0]"
    using l by (simp add: regCallback_cases [OF evproc_ok_init_static _ t] callbacks_init_static
        callbacks_set_callback called_def)
  have okb: "evproc_ok ?b" by (simp add: reg_unreg_ok evproc_ok_init_static)
  then have lb: "4 < length (regList ?b)" by (simp add: evproc_ok_def EVENT_TYPE_MAX_def)
  have "callbacks two_callbacks 4 = [100, 200, 0, 0, 0, 0, 0, 0, 0, 0, 0, 0, 0]"
    using lb b by (simp add: two_callbacks_def regCallback_cases [OF okb _ t]
        callbacks_set_callback called_def)
  then show ?thesis by (auto simp: called_def)
qed

lemma evq_regCallback:
  "evproc_ok st \<Longrightarrow> f \<noteq> NULL \<Longrightarrow> unat t < EVENT_TYPE_MAX \<Longrightarrow> evq (snd (evproc_regCallback t f st)) = evq st"
  by (simp add: regCallback_cases set_callback_def evq_def)

lemma two_callbacks_evq: "evq two_callbacks = []"
proof -
  have "evq (evproc_init evproc_static) = []"
    by (simp add: evq_def evproc_init_def evproc_init'_def evproc_static_def)
  then show ?thesis
    by (simp add: two_callbacks_def evq_regCallback reg_unreg_ok evproc_ok_init_static EVENT_TYPE_MAX_def)
qed

theorem evproc_nextEvent_dispatch_witness:
  "fst (evproc_nextEvent log_call ([], snd (put_tail 4 7 two_callbacks))) = E_SUCCESS \<and>
   fst (snd (evproc_nextEvent log_call ([], snd (put_tail 4 7 two_callbacks)))) = [(100, 4, 7), (200, 4, 7)]"
proof -
  let ?st = "snd (put_tail 4 7 two_callbacks)"
  have "evq two_callbacks = []" by (rule two_callbacks_evq)
  then have q: "evq ?st = [(4, 7)]"
    using put_tail_refines(3) [OF two_callbacks_ok, of 4 7] by (simp add: skipped_def evproc_consts)
  have c: "called ?st 4 = [100, 200]"
    using two_callbacks_called put_tail_refines(4) [OF two_callbacks_ok, of 4 7] by (simp add: called_def callbacks_def)
  show ?thesis
    using evproc_nextEvent_dispatch [where call = log_call and w = "[]" and t = 0 and d = 0, OF put_tail_refines(2) [OF two_callbacks_ok] q] c
    by (auto simp: log_call_def EVENT_TYPE_MAX_def)
qed

text \<open>
  Unregistering a callback empties its slot without closing the gap, and dispatch stops at the first empty
  slot: every callback registered after it is no longer called, until another registration
  happens to fill the gap, which brings all of them back.
\<close>

theorem evproc_unreg_hides_later:
  assumes "evproc_ok st" and "unat t < EVENT_TYPE_MAX" and "called st t = xs @ f # ys"
    and "g \<noteq> NULL" and "g \<notin> set (callbacks st t)"
  shows "fst (evproc_unregCallback t f st) = E_SUCCESS \<and>
    called (snd (evproc_unregCallback t f st)) t = xs \<and>
    set ys \<subseteq> set (callbacks (snd (evproc_unregCallback t f st)) t) \<and>
    called (snd (evproc_regCallback t g (snd (evproc_unregCallback t f st)))) t = xs @ g # ys"
proof -
  let ?st = "snd (evproc_unregCallback t f st)"
  note u = called_after_unreg [OF assms(1-3)]
  define zs where "zs = dropWhile (\<lambda>f. f \<noteq> NULL) (callbacks st t)"
  have cb: "callbacks st t = xs @ f # ys @ zs"
    using assms(3) takeWhile_dropWhile_id [of "\<lambda>f. f \<noteq> NULL" "callbacks st t"] by (simp add: called_def zs_def)
  have zs: "takeWhile (\<lambda>f. f \<noteq> NULL) zs = []" unfolding zs_def by (rule takeWhile_dropWhile_Nil)
  have ys: "\<forall>y \<in> set ys. y \<noteq> NULL"
    using set_takeWhileD [of _ "\<lambda>f. f \<noteq> NULL" "callbacks st t"] assms(3) by (auto simp: called_def)
  have cb': "callbacks ?st t = xs @ NULL # ys @ zs" using u(3) by (simp add: cb)
  have "g \<notin> set (callbacks ?st t)" "NULL \<in> set (callbacks ?st t)"
    using assms(4,5) by (simp_all add: cb cb')
  then have "called (snd (evproc_regCallback t g ?st)) t = xs @ g # takeWhile (\<lambda>f. f \<noteq> NULL) (ys @ zs)"
    using called_after_reg [OF reg_unreg_ok(2) [OF assms(1)] assms(4,2), of t f] u(2) by (simp add: cb')
  also have "takeWhile (\<lambda>f. f \<noteq> NULL) (ys @ zs) = ys"
    using ys zs by (subst takeWhile_append2) simp_all
  finally show ?thesis using u(1,2) by (auto simp: cb')
qed

theorem evproc_unreg_hides_later_witness:
  "called two_callbacks 4 = [100, 200] \<and> called (snd (evproc_unregCallback 4 100 two_callbacks)) 4 = []"
  using evproc_unreg_hides_later [OF two_callbacks_ok, of 4 "[]" 100 "[200]" 300] two_callbacks_called
  by (simp add: EVENT_TYPE_MAX_def)

end
