(* ===== verification/Timers.thy ===== *)
theory Timers
  imports Clist Evproc
begin

section \<open>Timers (utils/src/timer.c, stimer.c, etimer.c, ctimer.c)\<close>

text \<open>
  A \<open>timer\<close> is a start and an interval on the 32-bit tick counter, which wraps; an \<open>etimer\<close> is a timer
  on a linked list that posts an event when it expires, and a \<open>ctimer\<close> embeds an etimer and calls a
  function when that event is dispatched. The tick and second counters belong to the board support:
  the value a function reads is its parameter \<open>now\<close>. \<open>unsigned long\<close> has the 32 bits of the targets.
\<close>

subsection \<open>timer and stimer\<close>

record timer =
  tm_start :: u32
  tm_interval :: u32

definition TMR_OVRFLOW_VAL :: u32 where
  "TMR_OVRFLOW_VAL = 0xffffffff"

definition timer_set :: "u32 \<Rightarrow> timer \<Rightarrow> u32 \<Rightarrow> timer" where
  "timer_set now t iv = t\<lparr>tm_interval := iv, tm_start := now\<rparr>"

definition timer_reset :: "timer \<Rightarrow> timer" where
  "timer_reset t = t\<lparr>tm_start := tm_start t + tm_interval t\<rparr>"

definition timer_restart :: "u32 \<Rightarrow> timer \<Rightarrow> timer" where
  "timer_restart now t = t\<lparr>tm_start := now\<rparr>"

definition timer_expired :: "u32 \<Rightarrow> timer \<Rightarrow> bool" where
  "timer_expired now t =
     (let expiredtime = (if now \<ge> tm_start t then now - tm_start t
                         else TMR_OVRFLOW_VAL - tm_start t + now + 1)
      in tm_interval t < expiredtime)"

definition timer_remaining :: "u32 \<Rightarrow> timer \<Rightarrow> u32" where
  "timer_remaining now t = tm_start t + tm_interval t - now"

definition SCLOCK_GEQ :: "u32 \<Rightarrow> u32 \<Rightarrow> bool" where
  "SCLOCK_GEQ a b \<longleftrightarrow> a - b < drop_bit 1 (NOT 0)"

definition stimer_set :: "u32 \<Rightarrow> timer \<Rightarrow> u32 \<Rightarrow> timer" where
  "stimer_set now t iv = t\<lparr>tm_interval := iv, tm_start := now\<rparr>"

definition stimer_reset :: "timer \<Rightarrow> timer" where
  "stimer_reset t = t\<lparr>tm_start := tm_start t + tm_interval t\<rparr>"

definition stimer_restart :: "u32 \<Rightarrow> timer \<Rightarrow> timer" where
  "stimer_restart now t = t\<lparr>tm_start := now\<rparr>"

definition stimer_expired :: "u32 \<Rightarrow> timer \<Rightarrow> bool" where
  "stimer_expired now t = SCLOCK_GEQ now (tm_start t + tm_interval t)"

definition stimer_remaining :: "u32 \<Rightarrow> timer \<Rightarrow> u32" where
  "stimer_remaining now t = tm_start t + tm_interval t - now"

definition stimer_elapsed :: "u32 \<Rightarrow> timer \<Rightarrow> u32" where
  "stimer_elapsed now t = now - tm_start t"

lemma timer_expired_iff: "timer_expired now t \<longleftrightarrow> tm_interval t < now - tm_start t"
proof -
  have m: "TMR_OVRFLOW_VAL = -1" by (simp add: TMR_OVRFLOW_VAL_def)
  have "TMR_OVRFLOW_VAL - tm_start t + now + 1 = now - tm_start t" by (simp add: m)
  then show ?thesis by (simp add: timer_expired_def Let_def m)
qed

text \<open>
  C19: Elapsed time is measured correctly across the wrap of the 32-bit tick counter: a timer set at any tick
  has expired \<open>e\<close> ticks later (less than a full round) exactly when more than its interval has passed;
  and resetting it moves its start by exactly its interval, so that a periodic timer does not drift.
\<close>

theorem timer_expired_after:
  assumes "e < 2 ^ 32"
  shows "(timer_expired (now + of_nat e) (timer_set now t iv) \<longleftrightarrow> unat iv < e) \<and>
    timer_remaining (now + of_nat e) (timer_set now t iv) = iv - of_nat e \<and>
    (timer_expired (now + iv + of_nat e) (timer_reset (timer_set now t iv)) \<longleftrightarrow> unat iv < e)"
proof -
  have "unat (of_nat e :: u32) = e" using assms by (simp add: unat_of_nat take_bit_eq_mod)
  then have "(iv < of_nat e) = (unat iv < e)" by (simp add: word_less_nat_alt)
  then show ?thesis
    by (simp add: timer_expired_iff timer_set_def timer_reset_def timer_remaining_def algebra_simps)
qed

theorem timer_expired_after_witness:
  "timer_expired (0xfffffff0 + of_nat 101) (timer_set 0xfffffff0 \<lparr>tm_start = 0, tm_interval = 0\<rparr> 100) \<and>
   \<not> timer_expired (0xfffffff0 + of_nat 100) (timer_set 0xfffffff0 \<lparr>tm_start = 0, tm_interval = 0\<rparr> 100)"
  using timer_expired_after [of 101 "0xfffffff0" "\<lparr>tm_start = 0, tm_interval = 0\<rparr>" 100]
    timer_expired_after [of 100 "0xfffffff0" "\<lparr>tm_start = 0, tm_interval = 0\<rparr>" 100]
  by simp

text \<open>
  The second-timer compares on the circle: \<open>d\<close> seconds after the expiration it is expired, and \<open>d\<close>
  seconds before it it is not, as long as \<open>d\<close> is below \<open>2 ^ 31 - 1\<close>.
\<close>

theorem stimer_expired_window:
  assumes "unat d < 2 ^ 31 - 1"
  shows "stimer_expired (now + iv + d) (stimer_set now t iv) \<and>
    (d \<noteq> 0 \<longrightarrow> \<not> stimer_expired (now + iv - d) (stimer_set now t iv)) \<and>
    stimer_remaining (now + iv - d) (stimer_set now t iv) = d"
proof -
  have h: "unat (mask 31 :: u32) = 0x7fffffff" by (simp add: mask_eq_exp_minus_1)
  have m: "unat (- d) = 2 ^ 32 - unat d" if "d \<noteq> 0"
    using that unat_diff_mod [of 0 d] unat_gt_0 [of d] by simp
  show ?thesis using assms m
    by (auto simp: stimer_expired_def stimer_set_def stimer_remaining_def SCLOCK_GEQ_def h word_less_nat_alt)
qed

theorem stimer_expired_window_witness:
  "stimer_expired (0xfffffff0 + 60 + 5) (stimer_set 0xfffffff0 \<lparr>tm_start = 0, tm_interval = 0\<rparr> 60) \<and>
   \<not> stimer_expired (0xfffffff0 + 60 - 5) (stimer_set 0xfffffff0 \<lparr>tm_start = 0, tm_interval = 0\<rparr> 60)"
  using stimer_expired_window [of 5 "0xfffffff0" 60 "\<lparr>tm_start = 0, tm_interval = 0\<rparr>"] by simp

subsection \<open>etimer\<close>

record etsys =
  et_list :: clist
  et_timer :: "ptr \<Rightarrow> timer"
  et_active :: "ptr \<Rightarrow> u8"
  et_ev :: evproc

definition TMR_ACTIVE :: u8 where "TMR_ACTIVE = 1"
definition TMR_NOT_ACTIVE :: u8 where "TMR_NOT_ACTIVE = 0"
definition EVENT_TYPE_TIMER_EXP :: u8 where "EVENT_TYPE_TIMER_EXP = 0"

definition etimer_addTimer :: "ptr \<Rightarrow> 'a etsys_scheme \<Rightarrow> 'a etsys_scheme option" where
  "etimer_addTimer t s = do {
     l \<leftarrow> list_remove (et_list s) t;
     l \<leftarrow> list_add l t;
     Some (s\<lparr>et_list := l, et_active := (et_active s)(t := TMR_ACTIVE)\<rparr>)
   }"

definition etimer_init :: "'a etsys_scheme \<Rightarrow> 'a etsys_scheme" where
  "etimer_init s = s\<lparr>et_list := list_init (et_list s)\<rparr>"

text \<open>\<open>now t\<close> is the tick the check of the timer \<open>t\<close> reads.\<close>

partial_function (option) poll_loop :: "(ptr \<Rightarrow> u32) \<Rightarrow> ptr \<Rightarrow> 'a etsys_scheme \<Rightarrow> 'a etsys_scheme option" where
  "poll_loop now t s =
     (if t = NULL then Some s
      else let n = list_item_next (et_list s) t
        in if timer_expired (now t) (et_timer s t)
           then do {
             let ev = snd (put_tail EVENT_TYPE_TIMER_EXP t (et_ev s));
             l \<leftarrow> list_remove (et_list s) t;
             poll_loop now n (s\<lparr>et_list := l, et_active := (et_active s)(t := TMR_NOT_ACTIVE), et_ev := ev\<rparr>)
           }
           else poll_loop now n s)"

definition etimer_request_poll :: "(ptr \<Rightarrow> u32) \<Rightarrow> 'a etsys_scheme \<Rightarrow> 'a etsys_scheme option" where
  "etimer_request_poll now s =
     (if list_head (et_list s) = NULL then Some s else poll_loop now (list_head (et_list s)) s)"

definition etimer_set :: "u32 \<Rightarrow> ptr \<Rightarrow> u32 \<Rightarrow> ptr \<Rightarrow> 'a etsys_scheme \<Rightarrow> 'a etsys_scheme option" where
  "etimer_set now t iv cb s = do {
     let s = s\<lparr>et_timer := (et_timer s)(t := timer_set now (et_timer s t) iv)\<rparr>;
     s \<leftarrow> etimer_addTimer t s;
     Some (s\<lparr>et_ev := snd (evproc_regCallback EVENT_TYPE_TIMER_EXP cb (et_ev s))\<rparr>)
   }"

definition etimer_stop :: "ptr \<Rightarrow> 'a etsys_scheme \<Rightarrow> 'a etsys_scheme option" where
  "etimer_stop t s = do {
     l \<leftarrow> list_remove (et_list s) t;
     Some (s\<lparr>et_list := l, et_active := (et_active s)(t := TMR_NOT_ACTIVE)\<rparr>)
   }"

definition etimer_reset :: "ptr \<Rightarrow> 'a etsys_scheme \<Rightarrow> 'a etsys_scheme option" where
  "etimer_reset t s =
     etimer_addTimer t (s\<lparr>et_timer := (et_timer s)(t := timer_reset (et_timer s t))\<rparr>)"

definition etimer_restart :: "u32 \<Rightarrow> ptr \<Rightarrow> 'a etsys_scheme \<Rightarrow> 'a etsys_scheme option" where
  "etimer_restart now t s =
     etimer_addTimer t (s\<lparr>et_timer := (et_timer s)(t := timer_restart now (et_timer s t))\<rparr>)"

definition etimer_adjust :: "ptr \<Rightarrow> u32 \<Rightarrow> 'a etsys_scheme \<Rightarrow> 'a etsys_scheme" where
  "etimer_adjust t diff s =
     s\<lparr>et_timer := (et_timer s)(t := (et_timer s t)\<lparr>tm_start := tm_start (et_timer s t) + diff\<rparr>)\<rparr>"

definition etimer_expired :: "ptr \<Rightarrow> 'a etsys_scheme \<Rightarrow> bool" where
  "etimer_expired t s \<longleftrightarrow> et_active s t = TMR_NOT_ACTIVE"

definition etimer_expiration_time :: "ptr \<Rightarrow> 'a etsys_scheme \<Rightarrow> u32" where
  "etimer_expiration_time t s = tm_start (et_timer s t) + tm_interval (et_timer s t)"

definition etimer_start_time :: "ptr \<Rightarrow> 'a etsys_scheme \<Rightarrow> u32" where
  "etimer_start_time t s = tm_start (et_timer s t)"

partial_function (option) next_loop :: "'a etsys_scheme \<Rightarrow> ptr \<Rightarrow> u32 \<Rightarrow> u32 option" where
  "next_loop s t nextExp =
     (if t = NULL then Some nextExp
      else next_loop s (list_item_next (et_list s) t)
        (if et_active s t = TMR_ACTIVE then
           (let expTime = tm_start (et_timer s t) + tm_interval (et_timer s t)
            in if nextExp = 0 then expTime else if expTime < nextExp then expTime else nextExp)
         else nextExp))"

definition etimer_nextEvent :: "'a etsys_scheme \<Rightarrow> u32 option" where
  "etimer_nextEvent s = do {
     n \<leftarrow> list_length (et_list s);
     if n = 0 then Some 0 else next_loop s (list_head (et_list s)) 0
   }"

subsection \<open>ctimer\<close>

record ctsys = etsys +
  ct_list :: clist
  ct_f :: "ptr \<Rightarrow> ptr"
  ct_ptr :: "ptr \<Rightarrow> ptr"

text \<open>The etimer of a ctimer follows its \<open>next\<close> pointer of four bytes.\<close>

definition ct_etimer :: "ptr \<Rightarrow> ptr" where
  "ct_etimer c = c + 4"

definition ctimer_init :: "ctsys \<Rightarrow> ctsys" where
  "ctimer_init s = s\<lparr>ct_list := list_init (ct_list s)\<rparr>"

text \<open>The function of a ctimer belongs to its owner; \<open>call f p\<close> is the effect of calling it.\<close>

partial_function (option) refresh_loop :: "(ptr \<Rightarrow> ptr \<Rightarrow> ctsys \<Rightarrow> ctsys) \<Rightarrow> ptr \<Rightarrow> ptr \<Rightarrow> ctsys \<Rightarrow> ctsys option" where
  "refresh_loop call data c s =
     (if c = NULL then Some s
      else if ct_etimer c = data then do {
        l \<leftarrow> list_remove (ct_list s) c;
        let s = s\<lparr>ct_list := l\<rparr>;
        Some (if ct_f s c \<noteq> NULL then call (ct_f s c) (ct_ptr s c) s else s)
      }
      else refresh_loop call data (cl_next (ct_list s) c) s)"

definition ctimer_refresh :: "(ptr \<Rightarrow> ptr \<Rightarrow> ctsys \<Rightarrow> ctsys) \<Rightarrow> u8 \<Rightarrow> ptr \<Rightarrow> ctsys \<Rightarrow> ctsys option" where
  "ctimer_refresh call event data s = refresh_loop call data (list_head (ct_list s)) s"

definition ctimer_set :: "ptr \<Rightarrow> u32 \<Rightarrow> ptr \<Rightarrow> u32 \<Rightarrow> ptr \<Rightarrow> ptr \<Rightarrow> ctsys \<Rightarrow> ctsys option" where
  "ctimer_set refresh now c t f p s = do {
     let s = s\<lparr>ct_f := (ct_f s)(c := f), ct_ptr := (ct_ptr s)(c := p)\<rparr>;
     s \<leftarrow> etimer_set now (ct_etimer c) t refresh s;
     l \<leftarrow> list_add (ct_list s) c;
     Some (s\<lparr>ct_list := l\<rparr>)
   }"

definition ctimer_stop :: "ptr \<Rightarrow> ctsys \<Rightarrow> ctsys option" where
  "ctimer_stop c s = do {
     s \<leftarrow> etimer_stop (ct_etimer c) s;
     l \<leftarrow> list_remove (ct_list s) c;
     Some (s\<lparr>ct_list := l\<rparr>)
   }"

definition ct_to_end :: "ptr \<Rightarrow> ctsys \<Rightarrow> ctsys option" where
  "ct_to_end c s = do {
     l \<leftarrow> list_remove (ct_list s) c;
     l \<leftarrow> list_add l c;
     Some (s\<lparr>ct_list := l\<rparr>)
   }"

definition ctimer_reset :: "ptr \<Rightarrow> ctsys \<Rightarrow> ctsys option" where
  "ctimer_reset c s = do {
     s \<leftarrow> etimer_reset (ct_etimer c) s;
     ct_to_end c s
   }"

definition ctimer_restart :: "u32 \<Rightarrow> ptr \<Rightarrow> ctsys \<Rightarrow> ctsys option" where
  "ctimer_restart now c s = do {
     s \<leftarrow> etimer_restart now (ct_etimer c) s;
     ct_to_end c s
   }"

definition ctimer_expired :: "ptr \<Rightarrow> ctsys \<Rightarrow> bool" where
  "ctimer_expired c s = etimer_expired (ct_etimer c) s"

subsection \<open>Polling\<close>

declare poll_loop.simps [simp del] next_loop.simps [simp del] refresh_loop.simps [simp del]

lemma list_item_next_cl: "t \<noteq> NULL \<Longrightarrow> list_item_next l t = cl_next l t"
  by (simp add: list_item_next_def)

text \<open>The events of the timers \<open>ts\<close>, posted one after the other.\<close>

definition post_all :: "ptr list \<Rightarrow> evproc \<Rightarrow> evproc" where
  "post_all ts ev = fold (\<lambda>t ev. snd (put_tail EVENT_TYPE_TIMER_EXP t ev)) ts ev"

lemma post_all_simps [simp]:
  "post_all [] ev = ev" "post_all (t # ts) ev = post_all ts (snd (put_tail EVENT_TYPE_TIMER_EXP t ev))"
  by (simp_all add: post_all_def)

lemma poll_loop_correct:
  fixes s :: "'a etsys_scheme"
  assumes "is_clist (et_list s) (ys @ xs)" and "t = (case xs of [] \<Rightarrow> NULL | x # _ \<Rightarrow> x)"
  shows "\<exists>l. poll_loop now t s = Some (s\<lparr>et_list := l,
      et_active := (\<lambda>p. if p \<in> set xs \<and> timer_expired (now p) (et_timer s p) then TMR_NOT_ACTIVE else et_active s p),
      et_ev := post_all (filter (\<lambda>p. timer_expired (now p) (et_timer s p)) xs) (et_ev s)\<rparr>) \<and>
    is_clist l (ys @ filter (\<lambda>p. \<not> timer_expired (now p) (et_timer s p)) xs)"
  using assms
proof (induction xs arbitrary: s ys t)
  case Nil
  then show ?case by (auto simp: poll_loop.simps [of now NULL s] intro!: exI [of _ "et_list s"])
next
  case (Cons x xs)
  let ?E = "\<lambda>p. timer_expired (now p) (et_timer s p)"
  have x0: "x \<noteq> NULL" using is_clist_nonnull [OF Cons.prems(1)] by simp
  have d: "distinct (ys @ x # xs)" using is_clist_distinct [OF Cons.prems(1)] .
  have nx: "list_item_next (et_list s) x = (case xs of [] \<Rightarrow> NULL | y # _ \<Rightarrow> y)"
    using chain_next_head [OF chain_append [OF Cons.prems(1) [unfolded is_clist_def]]] x0
    by (simp add: list_item_next_cl)
  have t: "t = x" using Cons.prems(2) by simp
  show ?case
  proof (cases "?E x")
    case False
    have "is_clist (et_list s) ((ys @ [x]) @ xs)" using Cons.prems(1) by simp
    moreover have "(\<lambda>p. if p \<in> set (x # xs) \<and> ?E p then TMR_NOT_ACTIVE else et_active s p) =
        (\<lambda>p. if p \<in> set xs \<and> ?E p then TMR_NOT_ACTIVE else et_active s p)"
      using False by auto
    ultimately show ?thesis using Cons.IH [of s "ys @ [x]", OF _ nx] False
      by (simp add: t poll_loop.simps [of now x s] x0)
  next
    case True
    obtain l where l: "list_remove (et_list s) x = Some l" "is_clist l (remove1 x (ys @ x # xs))"
      using list_remove_correct [OF Cons.prems(1)] by blast
    let ?s = "s\<lparr>et_list := l, et_active := (et_active s)(x := TMR_NOT_ACTIVE),
      et_ev := snd (put_tail EVENT_TYPE_TIMER_EXP x (et_ev s))\<rparr>"
    have "is_clist (et_list ?s) (ys @ xs)" using l(2) d by (simp add: remove1_append)
    from Cons.IH [OF this nx] obtain l' where l':
      "poll_loop now (list_item_next (et_list s) x) ?s = Some (?s\<lparr>et_list := l',
        et_active := (\<lambda>p. if p \<in> set xs \<and> ?E p then TMR_NOT_ACTIVE else et_active ?s p),
        et_ev := post_all (filter ?E xs) (et_ev ?s)\<rparr>)"
      "is_clist l' (ys @ filter (\<lambda>p. \<not> ?E p) xs)"
      by auto
    have "(\<lambda>p. if p \<in> set xs \<and> ?E p then TMR_NOT_ACTIVE else et_active ?s p) =
        (\<lambda>p. if p \<in> set (x # xs) \<and> ?E p then TMR_NOT_ACTIVE else et_active s p)"
      using True by (auto simp: fun_eq_iff)
    with l' l(1) True show ?thesis
      by (intro exI [of _ l']) (simp add: t poll_loop.simps [of now x s] x0 Let_def)
  qed
qed

lemma request_poll_correct:
  assumes "is_clist (et_list s) xs"
  shows "\<exists>l. etimer_request_poll now s = Some (s\<lparr>et_list := l,
      et_active := (\<lambda>p. if p \<in> set xs \<and> timer_expired (now p) (et_timer s p) then TMR_NOT_ACTIVE else et_active s p),
      et_ev := post_all (filter (\<lambda>p. timer_expired (now p) (et_timer s p)) xs) (et_ev s)\<rparr>) \<and>
    is_clist l (filter (\<lambda>p. \<not> timer_expired (now p) (et_timer s p)) xs)"
proof -
  have h: "list_head (et_list s) = (case xs of [] \<Rightarrow> NULL | x # _ \<Rightarrow> x)"
    using assms by (cases xs) (auto simp: is_clist_def list_head_def)
  have "etimer_request_poll now s = poll_loop now (list_head (et_list s)) s"
    by (simp add: etimer_request_poll_def poll_loop.simps [of now NULL s])
  then show ?thesis using poll_loop_correct [of s "[]" xs _ now, OF _ h] assms by simp
qed

lemma post_all_eq:
  assumes "evproc_ok ev" and "distinct ts" and "length (evq ev) + length ts \<le> EVPROC_QUEUE_SIZE"
    and "\<forall>t \<in> set ts. (EVENT_TYPE_TIMER_EXP, t) \<notin> set (evq ev)"
  shows "evproc_ok (post_all ts ev) \<and> evq (post_all ts ev) = evq ev @ map (Pair EVENT_TYPE_TIMER_EXP) ts"
proof -
  have "post_all ts ev = fold (\<lambda>e st. snd (put_tail (fst e) (snd e) st)) (map (Pair EVENT_TYPE_TIMER_EXP) ts) ev"
    by (simp add: post_all_def fold_map comp_def)
  then show ?thesis
    using ev.back_all [of ev "map (Pair EVENT_TYPE_TIMER_EXP) ts"] assms
    by (auto simp: distinct_map inj_on_def)
qed

lemma post_all_full:
  "evproc_ok ev \<Longrightarrow> length (evq ev) = EVPROC_QUEUE_SIZE \<Longrightarrow> post_all ts ev = ev"
  by (induction ts) (use put_tail_refines(1) [of ev] in \<open>auto dest: arg_cong [of _ _ snd]\<close>)

text \<open>
  A poll posts one \<open>EVENT_TYPE_TIMER_EXP\<close> event for every timer on the list that has expired, in list
  order, takes exactly these off the list and marks them, and leaves the others running; it checks every timer
  although it unlinks the one it stands on. This needs room in the event queue for them.
\<close>

theorem etimer_request_poll_posts:
  assumes "is_clist (et_list s) xs" and "evproc_ok (et_ev s)"
    and "exps = filter (\<lambda>t. timer_expired (now t) (et_timer s t)) xs"
    and "length (evq (et_ev s)) + length exps \<le> EVPROC_QUEUE_SIZE"
    and "\<forall>t \<in> set exps. (EVENT_TYPE_TIMER_EXP, t) \<notin> set (evq (et_ev s))"
  shows "\<exists>s'. etimer_request_poll now s = Some s' \<and>
    is_clist (et_list s') (filter (\<lambda>t. \<not> timer_expired (now t) (et_timer s t)) xs) \<and>
    evq (et_ev s') = evq (et_ev s) @ map (Pair EVENT_TYPE_TIMER_EXP) exps \<and>
    (\<forall>t. etimer_expired t s' \<longleftrightarrow> t \<in> set exps \<or> etimer_expired t s) \<and> et_timer s' = et_timer s"
proof -
  have "distinct exps" using is_clist_distinct [OF assms(1)] assms(3) by simp
  then have p: "evq (post_all exps (et_ev s)) = evq (et_ev s) @ map (Pair EVENT_TYPE_TIMER_EXP) exps"
    using post_all_eq [OF assms(2) _ assms(4,5)] by simp
  show ?thesis
    using request_poll_correct [OF assms(1), of now] p assms(3)
    by (auto simp: etimer_expired_def)
qed

definition sample_timers :: etsys where
  "sample_timers = \<lparr>et_list = clist_of [8, 16, 24],
     et_timer = (\<lambda>t. if t = 16 then \<lparr>tm_start = 0, tm_interval = 100\<rparr> else \<lparr>tm_start = 0, tm_interval = 10\<rparr>),
     et_active = (\<lambda>_. TMR_ACTIVE), et_ev = evproc_init evproc_static\<rparr>"

lemma sample_timers_facts:
  "is_clist (et_list sample_timers) [8, 16, 24]" "evproc_ok (et_ev sample_timers)" "evq (et_ev sample_timers) = []"
  "filter (\<lambda>t. timer_expired 50 (et_timer sample_timers t)) [8, 16, 24] = [8, 24]"
  by (simp_all add: sample_timers_def is_clist_clist_of evproc_ok_init_static timer_expired_iff)
    (simp add: evq_def evproc_init_def evproc_init'_def evproc_static_def)

theorem etimer_request_poll_posts_witness:
  "\<exists>s'. etimer_request_poll (\<lambda>_. 50) sample_timers = Some s' \<and> evq (et_ev s') = [(0, 8), (0, 24)]"
  using etimer_request_poll_posts [where now = "\<lambda>_. 50", OF sample_timers_facts(1,2)] sample_timers_facts
  by (fastforce simp: EVPROC_QUEUE_SIZE_def EVENT_TYPE_TIMER_EXP_def)

text \<open>
  The result of posting is ignored: when the event queue is full, an expired timer is taken off the list and
  marked as expired all the same, and its event is lost, so that nobody is called for it.
\<close>

theorem etimer_poll_full_queue_loses:
  assumes "is_clist (et_list s) xs" and "evproc_ok (et_ev s)" and "length (evq (et_ev s)) = EVPROC_QUEUE_SIZE"
  shows "\<exists>s'. etimer_request_poll now s = Some s' \<and> et_ev s' = et_ev s \<and>
    is_clist (et_list s') (filter (\<lambda>t. \<not> timer_expired (now t) (et_timer s t)) xs) \<and>
    (\<forall>t \<in> set xs. timer_expired (now t) (et_timer s t) \<longrightarrow> etimer_expired t s')"
  using request_poll_correct [OF assms(1), of now] post_all_full [OF assms(2,3)]
  by (auto simp: etimer_expired_def)

definition full_timers :: etsys where
  "full_timers = sample_timers\<lparr>et_ev := fold (\<lambda>e st. snd (put_tail (fst e) (snd e) st))
     (map (\<lambda>d. (5, d)) [1..<21]) (et_ev sample_timers)\<rparr>"

lemma full_timers_facts:
  "is_clist (et_list full_timers) [8, 16, 24]" "evproc_ok (et_ev full_timers)"
  "length (evq (et_ev full_timers)) = EVPROC_QUEUE_SIZE"
proof -
  show "is_clist (et_list full_timers) [8, 16, 24]"
    using sample_timers_facts(1) by (simp add: full_timers_def)
  show "evproc_ok (et_ev full_timers)" "length (evq (et_ev full_timers)) = EVPROC_QUEUE_SIZE"
    using ev.back_all [OF sample_timers_facts(2), of "map (\<lambda>d. (5, d)) [1..<21]"] sample_timers_facts(3)
    by (simp_all add: full_timers_def EVPROC_QUEUE_SIZE_def distinct_map inj_on_def del: fold_map)
qed

theorem etimer_poll_full_queue_loses_witness:
  "\<exists>s'. etimer_request_poll (\<lambda>_. 50) full_timers = Some s' \<and> et_ev s' = et_ev full_timers \<and> etimer_expired 8 s'"
  using etimer_poll_full_queue_loses [where now = "\<lambda>_. 50", OF full_timers_facts]
  by (auto simp: full_timers_def sample_timers_def timer_expired_iff)

lemma next_loop_fold:
  "chain (cl_next (et_list s)) t xs \<Longrightarrow> next_loop s t e =
    Some (fold (\<lambda>t e. if et_active s t = TMR_ACTIVE
                     then (if e = 0 \<or> etimer_expiration_time t s < e then etimer_expiration_time t s else e) else e) xs e)"
proof (induction xs arbitrary: t e)
  case Nil then show ?case by (simp add: next_loop.simps [of s NULL])
next
  case (Cons x xs)
  then show ?case
    by (simp add: next_loop.simps [of s x] list_item_next_cl etimer_expiration_time_def Let_def cong: if_cong)
qed

definition min_step :: "('a \<Rightarrow> bool) \<Rightarrow> ('a \<Rightarrow> u32) \<Rightarrow> 'a \<Rightarrow> u32 \<Rightarrow> u32" where
  "min_step P f x e = (if P x then (if e = 0 \<or> f x < e then f x else e) else e)"

lemma fold_min_bound: "e \<noteq> 0 \<Longrightarrow> \<forall>x \<in> set xs. P x \<longrightarrow> f x \<noteq> 0 \<Longrightarrow>
    fold (min_step P f) xs e \<noteq> 0 \<and> fold (min_step P f) xs e \<le> e \<and>
    (\<forall>x \<in> set xs. P x \<longrightarrow> fold (min_step P f) xs e \<le> f x)"
proof (induction xs arbitrary: e)
  case (Cons x xs)
  have "min_step P f x e \<noteq> 0" "min_step P f x e \<le> e" "P x \<Longrightarrow> min_step P f x e \<le> f x"
    using Cons.prems by (auto simp: min_step_def)
  with Cons.IH [of "min_step P f x e"] Cons.prems(2) show ?case by (auto intro: order_trans)
qed simp

lemma fold_min_bound0: "\<forall>x \<in> set xs. P x \<longrightarrow> f x \<noteq> 0 \<Longrightarrow> x \<in> set xs \<Longrightarrow> P x \<Longrightarrow>
    fold (min_step P f) xs 0 \<le> f x"
proof (induction xs)
  case (Cons y xs)
  show ?case
  proof (cases "P y")
    case True
    then have "min_step P f y 0 = f y" "f y \<noteq> 0" using Cons.prems by (auto simp: min_step_def)
    with fold_min_bound [of "f y" xs P f] Cons.prems show ?thesis by auto
  next
    case False
    with Cons show ?thesis by (auto simp: min_step_def)
  qed
qed simp

lemma fold_min_attained: "fold (min_step P f) xs e = e \<or> (\<exists>x \<in> set xs. P x \<and> fold (min_step P f) xs e = f x)"
  by (induction xs arbitrary: e) (auto simp: min_step_def split: if_splits)

lemma nextEvent_fold:
  assumes "is_clist (et_list s) xs"
  shows "etimer_nextEvent s =
    Some (fold (min_step (\<lambda>t. et_active s t = TMR_ACTIVE) (\<lambda>t. etimer_expiration_time t s)) xs 0)"
proof -
  have c: "chain (cl_next (et_list s)) (cl_head (et_list s)) xs" using assms by (simp add: is_clist_def)
  have "list_length (et_list s) = Some (length xs)"
    using length_loop_chain [OF c] by (simp add: list_length_def)
  then show ?thesis using next_loop_fold [OF c, of 0]
    by (simp add: etimer_nextEvent_def list_head_def min_step_def [abs_def])
qed

text \<open>
  \<open>etimer_nextEvent\<close> is the earliest expiration time of the active timers on the list: with no active timer
  it is 0, and otherwise, when none of them happens to expire at tick 0 (which the code takes for "none yet"), it is the
  expiration time of one of them and none expires at a smaller tick.
\<close>

theorem etimer_nextEvent_min:
  assumes "is_clist (et_list s) xs" and "acts = filter (\<lambda>t. et_active s t = TMR_ACTIVE) xs"
    and "\<forall>t \<in> set acts. etimer_expiration_time t s \<noteq> 0"
  shows "\<exists>r. etimer_nextEvent s = Some r \<and> (acts = [] \<longrightarrow> r = 0) \<and>
    (acts \<noteq> [] \<longrightarrow> (\<exists>t \<in> set acts. r = etimer_expiration_time t s)) \<and>
    (\<forall>t \<in> set acts. r \<le> etimer_expiration_time t s)"
proof -
  let ?P = "\<lambda>t. et_active s t = TMR_ACTIVE" and ?f = "\<lambda>t. etimer_expiration_time t s"
  let ?r = "fold (min_step ?P ?f) xs 0"
  have nz: "\<forall>t \<in> set xs. ?P t \<longrightarrow> ?f t \<noteq> 0" using assms(2,3) by simp
  have le: "\<forall>t \<in> set acts. ?r \<le> ?f t" using fold_min_bound0 [OF nz] assms(2) by simp
  have "?r = 0 \<or> (\<exists>t \<in> set acts. ?r = ?f t)" using fold_min_attained [of ?P ?f xs 0] assms(2) by auto
  moreover have "?r \<noteq> 0" if a: "t \<in> set acts" for t
  proof -
    obtain ys x zs where xs: "xs = ys @ x # zs" "?P x" "\<forall>y \<in> set ys. \<not> ?P y"
      using a assms(2) split_list_first_prop [of xs ?P] by auto
    have "fold (min_step ?P ?f) ys 0 = 0" using xs(3) by (induction ys) (simp_all add: min_step_def)
    then have "?r = fold (min_step ?P ?f) zs (?f x)" using xs(1,2) by (simp add: min_step_def)
    then show ?thesis using fold_min_bound [of "?f x" zs ?P ?f] nz xs by simp
  qed
  moreover have "acts = [] \<Longrightarrow> ?r = 0" using calculation(1) by auto
  ultimately show ?thesis
    using nextEvent_fold [OF assms(1)] le by (intro exI [of _ ?r]) (metis hd_in_set)
qed

theorem etimer_nextEvent_min_witness: "etimer_nextEvent sample_timers = Some 10"
proof -
  have "filter (\<lambda>t. et_active sample_timers t = TMR_ACTIVE) [8, 16, 24] = [8, 16, 24]"
    by (simp add: sample_timers_def)
  then obtain r where "etimer_nextEvent sample_timers = Some r"
    "\<exists>t \<in> {8, 16, 24}. r = etimer_expiration_time t sample_timers" "r \<le> etimer_expiration_time 8 sample_timers"
    using etimer_nextEvent_min [OF sample_timers_facts(1), of "[8, 16, 24]"]
    by (auto simp: etimer_expiration_time_def sample_timers_def)
  then show ?thesis by (auto simp: etimer_expiration_time_def sample_timers_def)
qed

subsection \<open>ctimers\<close>

lemma refresh_loop_correct:
  assumes "chain (cl_next (ct_list s)) c (ys @ x # zs)" and "ct_etimer x = data" and "data \<notin> ct_etimer ` set ys"
  shows "refresh_loop call data c s = do {
      l \<leftarrow> list_remove (ct_list s) x;
      let s = s\<lparr>ct_list := l\<rparr>;
      Some (if ct_f s x \<noteq> NULL then call (ct_f s x) (ct_ptr s x) s else s)
    }"
  using assms by (induction ys arbitrary: c)
    (auto simp: refresh_loop.simps [of call data x s] refresh_loop.simps [of call data _ s])

lemma refresh_loop_notin:
  assumes "chain (cl_next (ct_list s)) c cs" and "data \<notin> ct_etimer ` set cs"
  shows "refresh_loop call data c s = Some s"
  using assms by (induction cs arbitrary: c)
    (auto simp: refresh_loop.simps [of call data NULL s] refresh_loop.simps [of call data _ s])

lemma ct_etimer_inj: "ct_etimer a = ct_etimer b \<longleftrightarrow> a = b"
  by (simp add: ct_etimer_def)

lemma ctimer_refresh_in:
  assumes "is_clist (ct_list s) cs" and "c \<in> set cs"
  shows "\<exists>l. is_clist l (remove1 c cs) \<and> ctimer_refresh call e (ct_etimer c) s =
    Some (if ct_f s c \<noteq> NULL then call (ct_f s c) (ct_ptr s c) (s\<lparr>ct_list := l\<rparr>) else s\<lparr>ct_list := l\<rparr>)"
proof -
  obtain ys zs where cs: "cs = ys @ c # zs" using assms(2) by (meson split_list)
  have "c \<notin> set ys" using is_clist_distinct [OF assms(1)] cs by simp
  then have n: "ct_etimer c \<notin> ct_etimer ` set ys" by (auto simp: ct_etimer_inj)
  obtain l where "list_remove (ct_list s) c = Some l" "is_clist l (remove1 c cs)"
    using list_remove_correct [OF assms(1)] by blast
  then show ?thesis
    using refresh_loop_correct [of s "list_head (ct_list s)" ys c zs, OF _ refl n] assms(1) cs
    by (auto simp: ctimer_refresh_def is_clist_def list_head_def Let_def)
qed

lemma ctimer_refresh_notin:
  "is_clist (ct_list s) cs \<Longrightarrow> data \<notin> ct_etimer ` set cs \<Longrightarrow> ctimer_refresh call e data s = Some s"
  using refresh_loop_notin [of s "list_head (ct_list s)" cs data]
  by (simp add: ctimer_refresh_def is_clist_def list_head_def)

lemma etimer_addTimer_correct:
  assumes "is_clist (et_list s) ts" and "t \<noteq> NULL"
  shows "\<exists>l. etimer_addTimer t s = Some (s\<lparr>et_list := l, et_active := (et_active s)(t := TMR_ACTIVE)\<rparr>) \<and>
    is_clist l (remove1 t ts @ [t])"
proof -
  obtain l1 where l1: "list_remove (et_list s) t = Some l1" "is_clist l1 (remove1 t ts)"
    using list_remove_correct [OF assms(1)] by blast
  obtain l2 where "list_add l1 t = Some l2" "is_clist l2 (remove1 t (remove1 t ts) @ [t])"
    using list_add_correct [OF l1(2) assms(2)] by blast
  moreover have "remove1 t (remove1 t ts) = remove1 t ts"
    using is_clist_distinct [OF assms(1)] by (simp add: remove1_idem)
  ultimately show ?thesis using l1 by (intro exI [of _ l2]) (simp add: etimer_addTimer_def)
qed

text \<open>
  A ctimer that has been set is on both lists, its timer starting now, and when the event of its etimer
  is dispatched exactly its function is called with its argument, after it has left the list; once it has been
  stopped, an event that is still queued for it calls nobody.
\<close>

theorem ctimer_set_stop_refresh:
  assumes "is_clist (et_list s) ts" and "is_clist (ct_list s) cs" and "c \<noteq> NULL" and "f \<noteq> NULL"
  shows "\<exists>s' l. ctimer_set refresh now c t f p s = Some s' \<and>
    is_clist (et_list s') (remove1 (ct_etimer c) ts @ [ct_etimer c]) \<and> is_clist (ct_list s') (remove1 c cs @ [c]) \<and>
    et_timer s' (ct_etimer c) = \<lparr>tm_start = now, tm_interval = t\<rparr> \<and>
    ctimer_refresh call e (ct_etimer c) s' = Some (call f p (s'\<lparr>ct_list := l\<rparr>)) \<and> is_clist l (remove1 c cs) \<and>
    (\<exists>s2. ctimer_stop c s' = Some s2 \<and> is_clist (et_list s2) (remove1 (ct_etimer c) ts) \<and>
      is_clist (ct_list s2) (remove1 c cs) \<and> ctimer_refresh call e (ct_etimer c) s2 = Some s2)"
proof -
  let ?t = "ct_etimer c"
  let ?s0 = "s\<lparr>ct_f := (ct_f s)(c := f), ct_ptr := (ct_ptr s)(c := p),
    et_timer := (et_timer s)(?t := timer_set now (et_timer s ?t) t)\<rparr>"
  have t0: "?t \<noteq> NULL" by (simp add: ct_etimer_def)
  obtain l1 where l1: "etimer_addTimer ?t ?s0 = Some (?s0\<lparr>et_list := l1, et_active := (et_active ?s0)(?t := TMR_ACTIVE)\<rparr>)"
    "is_clist l1 (remove1 ?t ts @ [?t])"
    using etimer_addTimer_correct [of ?s0 ts ?t] assms(1) t0 by auto
  obtain l2 where l2: "list_add (ct_list s) c = Some l2" "is_clist l2 (remove1 c cs @ [c])"
    using list_add_correct [OF assms(2,3)] by blast
  let ?s' = "?s0\<lparr>et_list := l1, et_active := (et_active ?s0)(?t := TMR_ACTIVE),
    et_ev := snd (evproc_regCallback EVENT_TYPE_TIMER_EXP refresh (et_ev ?s0)), ct_list := l2\<rparr>"
  have set: "ctimer_set refresh now c t f p s = Some ?s'"
    using l1(1) l2(1) by (simp add: ctimer_set_def etimer_set_def)
  have dc: "c \<notin> set (remove1 c cs)" and dt: "?t \<notin> set (remove1 ?t ts)"
    using is_clist_distinct [OF assms(1)] is_clist_distinct [OF assms(2)] by simp_all
  obtain l where l: "is_clist l (remove1 c (remove1 c cs @ [c]))"
    "ctimer_refresh call e ?t ?s' = Some (call f p (?s'\<lparr>ct_list := l\<rparr>))"
    using ctimer_refresh_in [of ?s' "remove1 c cs @ [c]" c call e] l2(2) assms(4) by auto
  obtain l3 where l3: "list_remove l1 ?t = Some l3" "is_clist l3 (remove1 ?t (remove1 ?t ts @ [?t]))"
    using list_remove_correct [OF l1(2)] by blast
  obtain l4 where l4: "list_remove l2 c = Some l4" "is_clist l4 (remove1 c (remove1 c cs @ [c]))"
    using list_remove_correct [OF l2(2)] by blast
  let ?s2 = "?s'\<lparr>et_list := l3, et_active := (et_active ?s')(?t := TMR_NOT_ACTIVE), ct_list := l4\<rparr>"
  have stop: "ctimer_stop c ?s' = Some ?s2"
    using l3(1) l4(1) by (simp add: ctimer_stop_def etimer_stop_def)
  have "?t \<notin> ct_etimer ` set (remove1 c cs)" using dc by (auto simp: ct_etimer_inj)
  then have "ctimer_refresh call e ?t ?s2 = Some ?s2"
    using ctimer_refresh_notin [of ?s2 "remove1 c cs"] l4(2) dc by simp
  then show ?thesis using set l1(2) l2(2) l l3(2) l4(2) stop dc dt
    by (intro exI [of _ ?s'] exI [of _ l] conjI exI [of _ ?s2]) (simp_all add: timer_set_def)
qed

theorem ctimer_set_stop_refresh_witness:
  "\<exists>s' l. ctimer_set 500 7 64 20 600 9
      (etsys.extend sample_timers \<lparr>ct_list = clist_of [32], ct_f = (\<lambda>_. 0), ct_ptr = (\<lambda>_. 0)\<rparr>) = Some s' \<and>
    is_clist (ct_list s') [32, 64] \<and> ctimer_refresh (\<lambda>f p s. s) 0 (ct_etimer 64) s' = Some (s'\<lparr>ct_list := l\<rparr>) \<and>
    is_clist l [32]"
  using ctimer_set_stop_refresh [of "etsys.extend sample_timers \<lparr>ct_list = clist_of [32], ct_f = (\<lambda>_. 0), ct_ptr = (\<lambda>_. 0)\<rparr>"
      "[8, 16, 24]" "[32]" 64 600 500 7 20 9 "\<lambda>f p s. s" 0] sample_timers_facts(1)
  by (fastforce simp: etsys.defs is_clist_clist_of)

end
