(* ===== verification/Rt_Tmr.thy ===== *)
theory Rt_Tmr
  imports Emb6_Prelude
begin

section \<open>Real-time timers (utils/src/rt_tmr.c)\<close>

text \<open>
  The running timers form a doubly linked list sorted by the tick at which they are due, so that the tick
  interrupt only looks at its head. The model is the memory of the timer structures and the four
  globals; a dereference of the null pointer and a loop that does not end are \<open>None\<close>. What a
  callback does is the parameter \<open>call\<close>. The busy wait \<open>rt_tmr_delay\<close>, which changes nothing, is
  not modelled.
\<close>

subsection \<open>State and operations\<close>

datatype e_rt_tmr_type = E_RT_TMR_TYPE_ONE_SHOT | E_RT_TMR_TYPE_PERIODIC

datatype e_rt_tmr_state =
  E_RT_TMR_STATE_INIT | E_RT_TMR_STATE_CREATED | E_RT_TMR_STATE_RUNNING | E_RT_TMR_STATE_STOPPED
  | E_RT_TMR_STATE_TRIGGERED

record s_rt_tmr =
  pnext :: ptr
  pprev :: ptr
  tmr_type :: e_rt_tmr_type
  period :: u32
  counter :: u32
  tmr_state :: e_rt_tmr_state
  cbFnct :: ptr
  cbArg :: ptr

record rt_tmr =
  tmr :: "ptr \<Rightarrow> s_rt_tmr"
  pTmrListHead :: ptr
  pTmrListTail :: ptr
  TmrListQty :: u32
  TmrCurTick :: u32

definition upd :: "ptr \<Rightarrow> (s_rt_tmr \<Rightarrow> s_rt_tmr) \<Rightarrow> rt_tmr \<Rightarrow> rt_tmr" where
  "upd p f s = s\<lparr>tmr := (tmr s)(p := f (tmr s p))\<rparr>"

primrec find_place :: "rt_tmr \<Rightarrow> ptr \<Rightarrow> nat \<Rightarrow> ptr \<Rightarrow> ptr option" where
  "find_place s p_new 0 p_found = Some p_found"
| "find_place s p_new (Suc n) p_found =
     (if p_found = NULL then None
      else if counter (tmr s p_found) < counter (tmr s p_new) then find_place s p_new n (pnext (tmr s p_found))
      else Some p_found)"

definition rt_tmr_link :: "ptr \<Rightarrow> rt_tmr \<Rightarrow> rt_tmr option" where
  "rt_tmr_link p_new s = do {
     s \<leftarrow> (if pTmrListHead s = NULL then Some (s\<lparr>pTmrListHead := p_new, pTmrListTail := p_new\<rparr>)
          else do {
            p_found \<leftarrow> find_place s p_new (unat (TmrListQty s)) (pTmrListHead s);
            if p_found = NULL then
              if pTmrListTail s = NULL then None
              else (let s = upd (pTmrListTail s) (pnext_update (\<lambda>_. p_new)) s;
                        s = upd p_new (pprev_update (\<lambda>_. pTmrListTail s)) s
                    in Some (s\<lparr>pTmrListTail := p_new\<rparr>))
            else if p_found = pTmrListHead s then
              (let s = upd p_new (pnext_update (\<lambda>_. pTmrListHead s)) s;
                   s = upd (pTmrListHead s) (pprev_update (\<lambda>_. p_new)) s
               in Some (s\<lparr>pTmrListHead := p_new\<rparr>))
            else if pprev (tmr s p_found) = NULL then None
            else
              (let s = upd (pprev (tmr s p_found)) (pnext_update (\<lambda>_. p_new)) s;
                   s = upd p_new (pprev_update (\<lambda>_. pprev (tmr s p_found))) s;
                   s = upd p_new (pnext_update (\<lambda>_. p_found)) s
               in Some (upd p_found (pprev_update (\<lambda>_. p_new)) s))
          });
     Some (s\<lparr>TmrListQty := TmrListQty s + 1\<rparr>)
   }"

definition rt_tmr_unlink :: "ptr \<Rightarrow> rt_tmr \<Rightarrow> rt_tmr option" where
  "rt_tmr_unlink p_rem s = do {
     s \<leftarrow> (if p_rem = pTmrListHead s then
            if pnext (tmr s p_rem) = NULL then Some (s\<lparr>pTmrListHead := NULL, pTmrListTail := NULL\<rparr>)
            else (let s = s\<lparr>pTmrListHead := pnext (tmr s p_rem)\<rparr>
                  in Some (upd (pnext (tmr s p_rem)) (pprev_update (\<lambda>_. NULL)) s))
          else if p_rem = pTmrListTail s then
            if pprev (tmr s p_rem) = NULL then None
            else (let s = s\<lparr>pTmrListTail := pprev (tmr s p_rem)\<rparr>
                  in Some (upd (pprev (tmr s p_rem)) (pnext_update (\<lambda>_. NULL)) s))
          else if pprev (tmr s p_rem) = NULL \<or> pnext (tmr s p_rem) = NULL then None
          else (let s = upd (pprev (tmr s p_rem)) (pnext_update (\<lambda>_. pnext (tmr s p_rem))) s
                in Some (upd (pnext (tmr s p_rem)) (pprev_update (\<lambda>_. pprev (tmr s p_rem))) s)));
     let s = upd p_rem (\<lambda>t. t\<lparr>pnext := NULL, pprev := NULL\<rparr>) s;
     Some (s\<lparr>TmrListQty := TmrListQty s - 1\<rparr>)
   }"

definition rt_tmr_init :: "rt_tmr \<Rightarrow> rt_tmr" where
  "rt_tmr_init s = s\<lparr>pTmrListHead := NULL, pTmrListTail := NULL, TmrCurTick := 0, TmrListQty := 0\<rparr>"

definition rt_tmr_create :: "ptr \<Rightarrow> e_rt_tmr_type \<Rightarrow> u32 \<Rightarrow> ptr \<Rightarrow> ptr \<Rightarrow> rt_tmr \<Rightarrow> rt_tmr" where
  "rt_tmr_create p ty per fnct arg s =
     (if p \<noteq> NULL \<and> per \<noteq> 0 \<and>
         (tmr_state (tmr s p) = E_RT_TMR_STATE_INIT \<or> tmr_state (tmr s p) = E_RT_TMR_STATE_STOPPED)
      then upd p (\<lambda>_. \<lparr>pnext = NULL, pprev = NULL, tmr_type = ty, period = per, counter = 0,
                       tmr_state = E_RT_TMR_STATE_CREATED, cbFnct = fnct, cbArg = arg\<rparr>) s
      else s)"

definition rt_tmr_start :: "ptr \<Rightarrow> rt_tmr \<Rightarrow> rt_tmr option" where
  "rt_tmr_start p s =
     (if tmr_state (tmr s p) = E_RT_TMR_STATE_CREATED \<or> tmr_state (tmr s p) = E_RT_TMR_STATE_STOPPED
      then do {
        let s = upd p (\<lambda>t. t\<lparr>counter := TmrCurTick s + period t\<rparr>) s;
        s \<leftarrow> rt_tmr_link p s;
        Some (upd p (\<lambda>t. t\<lparr>tmr_state := E_RT_TMR_STATE_RUNNING\<rparr>) s)
      }
      else Some s)"

definition rt_tmr_stop :: "ptr \<Rightarrow> rt_tmr \<Rightarrow> rt_tmr option" where
  "rt_tmr_stop p s = do {
     s \<leftarrow> (if tmr_state (tmr s p) = E_RT_TMR_STATE_RUNNING then rt_tmr_unlink p s else Some s);
     Some (upd p (\<lambda>t. t\<lparr>tmr_state := E_RT_TMR_STATE_STOPPED\<rparr>) s)
   }"

definition rt_tmr_getCurrenTick :: "rt_tmr \<Rightarrow> u32" where
  "rt_tmr_getCurrenTick s = TmrCurTick s"

definition rt_tmr_getRemain :: "ptr \<Rightarrow> rt_tmr \<Rightarrow> u32" where
  "rt_tmr_getRemain p s = counter (tmr s p) - TmrCurTick s"

definition rt_tmr_getState :: "ptr \<Rightarrow> rt_tmr \<Rightarrow> e_rt_tmr_state" where
  "rt_tmr_getState p s = tmr_state (tmr s p)"

text \<open>One round of the loop of \<open>rt_tmr_update\<close> for the head timer \<open>p\<close>, up to the callback.\<close>

definition fire :: "ptr \<Rightarrow> rt_tmr \<Rightarrow> rt_tmr option" where
  "fire p s = do {
     let s = upd p (\<lambda>t. t\<lparr>tmr_state := E_RT_TMR_STATE_TRIGGERED\<rparr>) s;
     s \<leftarrow> rt_tmr_unlink p s;
     if tmr_type (tmr s p) = E_RT_TMR_TYPE_PERIODIC then do {
       let s = upd p (\<lambda>t. t\<lparr>counter := TmrCurTick s + period t\<rparr>) s;
       s \<leftarrow> rt_tmr_link p s;
       Some (upd p (\<lambda>t. t\<lparr>tmr_state := E_RT_TMR_STATE_RUNNING\<rparr>) s)
     }
     else Some (upd p (\<lambda>t. t\<lparr>tmr_state := E_RT_TMR_STATE_STOPPED\<rparr>) s)
   }"

partial_function (option) update_loop :: "(ptr \<Rightarrow> ptr \<Rightarrow> 'w \<times> rt_tmr \<Rightarrow> 'w \<times> rt_tmr) \<Rightarrow> 'w \<times> rt_tmr \<Rightarrow> ('w \<times> rt_tmr) option" where
  "update_loop call ws =
     (let p = pTmrListHead (snd ws)
      in if p = NULL \<or> counter (tmr (snd ws) p) > TmrCurTick (snd ws) then Some ws
         else do {
           s \<leftarrow> fire p (snd ws);
           update_loop call
             (if cbFnct (tmr s p) \<noteq> NULL then call (cbFnct (tmr s p)) (cbArg (tmr s p)) (fst ws, s) else (fst ws, s))
         })"

definition rt_tmr_update :: "(ptr \<Rightarrow> ptr \<Rightarrow> 'w \<times> rt_tmr \<Rightarrow> 'w \<times> rt_tmr) \<Rightarrow> 'w \<times> rt_tmr \<Rightarrow> ('w \<times> rt_tmr) option" where
  "rt_tmr_update call ws = update_loop call (fst ws, (snd ws)\<lparr>TmrCurTick := TmrCurTick (snd ws) + 1\<rparr>)"

declare update_loop.simps [simp del]

subsection \<open>Doubly linked segments\<close>

fun dseg :: "(ptr \<Rightarrow> s_rt_tmr) \<Rightarrow> ptr \<Rightarrow> ptr \<Rightarrow> ptr list \<Rightarrow> ptr \<Rightarrow> bool" where
  "dseg h q p [] r \<longleftrightarrow> p = r"
| "dseg h q p (x # xs) r \<longleftrightarrow> p = x \<and> x \<noteq> NULL \<and> pprev (h x) = q \<and> dseg h x (pnext (h x)) xs r"

definition lasts :: "ptr \<Rightarrow> ptr list \<Rightarrow> ptr" where
  "lasts q xs = (if xs = [] then q else last xs)"

definition heads :: "ptr list \<Rightarrow> ptr \<Rightarrow> ptr" where
  "heads xs r = (if xs = [] then r else hd xs)"

lemma lasts_simps [simp]: "lasts q [] = q" "lasts q (x # xs) = lasts x xs" "lasts q (xs @ x # ys) = lasts x ys"
  by (simp_all add: lasts_def)

lemma heads_simps [simp]: "heads [] r = r" "heads (x # xs) r = x"
  by (simp_all add: heads_def)

lemma dseg_head: "dseg h q p xs r \<Longrightarrow> p = heads xs r"
  by (cases xs) auto

lemma dseg_append:
  "dseg h q p (xs @ ys) r \<longleftrightarrow> dseg h q p xs (heads ys r) \<and> dseg h (lasts q xs) (heads ys r) ys r"
  by (induction xs arbitrary: q p) (auto dest: dseg_head)

lemma dseg_frame:
  "dseg h q p xs r \<Longrightarrow> \<forall>x \<in> set xs. pnext (h' x) = pnext (h x) \<and> pprev (h' x) = pprev (h x) \<Longrightarrow> dseg h' q p xs r"
  by (induction xs arbitrary: q p) auto

lemma dseg_nonnull: "dseg h q p xs r \<Longrightarrow> x \<in> set xs \<Longrightarrow> x \<noteq> NULL"
  by (induction xs arbitrary: q p) auto

lemma dseg_first_nonnull: "dseg h q p xs r \<Longrightarrow> xs \<noteq> [] \<Longrightarrow> p \<noteq> NULL"
  by (cases xs) auto


definition rt_list :: "rt_tmr \<Rightarrow> ptr list \<Rightarrow> bool" where
  "rt_list s xs \<longleftrightarrow> dseg (tmr s) NULL (pTmrListHead s) xs NULL \<and> pTmrListTail s = lasts NULL xs \<and>
     distinct xs \<and> TmrListQty s = of_nat (length xs) \<and> length xs < 2 ^ 32"

definition payload :: "s_rt_tmr \<Rightarrow> s_rt_tmr" where
  "payload t = t\<lparr>pnext := NULL, pprev := NULL\<rparr>"

lemma payload_links [simp]:
  "payload (pnext_update f t) = payload t" "payload (pprev_update f t) = payload t"
  by (simp_all add: payload_def)

lemma payload_eqD:
  assumes "payload t = payload u"
  shows "counter t = counter u" and "tmr_state t = tmr_state u" and "tmr_type t = tmr_type u"
    and "period t = period u" and "cbFnct t = cbFnct u" and "cbArg t = cbArg u"
  using arg_cong [OF assms, of counter] arg_cong [OF assms, of tmr_state] arg_cong [OF assms, of tmr_type]
    arg_cong [OF assms, of period] arg_cong [OF assms, of cbFnct] arg_cong [OF assms, of cbArg]
  by (simp_all add: payload_def)

text \<open>The two states agree but for the links of the timers in \<open>A\<close>.\<close>

definition links_only :: "ptr set \<Rightarrow> rt_tmr \<Rightarrow> rt_tmr \<Rightarrow> bool" where
  "links_only A s s' \<longleftrightarrow> (\<forall>q. payload (tmr s' q) = payload (tmr s q)) \<and> (\<forall>q. q \<notin> A \<longrightarrow> tmr s' q = tmr s q) \<and>
     TmrCurTick s' = TmrCurTick s"

lemma find_place_eq:
  "dseg (tmr s) q p xs NULL \<Longrightarrow> find_place s t (length xs) p =
     Some (heads (dropWhile (\<lambda>x. counter (tmr s x) < counter (tmr s t)) xs) NULL)"
proof (induction xs arbitrary: q p)
  case (Cons x xs)
  then show ?case by auto
qed simp

lemma qty_unat: "rt_list s xs \<Longrightarrow> unat (TmrListQty s) = length xs"
  by (simp add: rt_list_def unat_of_nat take_bit_eq_mod)

lemma link_correct:
  assumes rt: "rt_list s xs" and p: "p \<noteq> NULL" "p \<notin> set xs"
    and null: "pnext (tmr s p) = NULL" "pprev (tmr s p) = NULL" and room: "length xs + 1 < 2 ^ 32"
    and as: "as = takeWhile (\<lambda>x. counter (tmr s x) < counter (tmr s p)) xs"
    and bs: "bs = dropWhile (\<lambda>x. counter (tmr s x) < counter (tmr s p)) xs"
  shows "\<exists>s'. rt_tmr_link p s = Some s' \<and> rt_list s' (as @ p # bs) \<and> links_only (insert p (set xs)) s s'"
proof -
  have xs: "xs = as @ bs" by (simp add: as bs)
  have d: "dseg (tmr s) NULL (pTmrListHead s) (as @ bs) NULL" and tl: "pTmrListTail s = lasts NULL (as @ bs)"
    and dis: "distinct (as @ bs)" and q: "TmrListQty s = of_nat (length (as @ bs))"
    using rt by (simp_all only: rt_list_def xs)
  have fp: "find_place s p (unat (TmrListQty s)) (pTmrListHead s) = Some (heads bs NULL)"
    using find_place_eq [of s NULL "pTmrListHead s" xs p] d [folded xs] qty_unat [OF rt] by (simp add: bs)
  have hd0: "pTmrListHead s = heads xs NULL" using dseg_head [OF d] by (simp only: xs)
  have len: "TmrListQty s + 1 = of_nat (length (as @ p # bs))" by (simp add: q)
  have pn: "p \<notin> set as" "p \<notin> set bs" using p(2) xs by auto
  consider "xs = []" | as' l where "as = as' @ [l]" "bs = []" | b bs' where "as = []" "bs = b # bs'"
    | as' a b bs' where "as = as' @ [a]" "bs = b # bs'"
    using xs by (cases as rule: rev_cases; cases bs) auto
  then show ?thesis
  proof cases
    case 1
    then show ?thesis using hd0 p null q xs
      by (simp add: rt_tmr_link_def rt_list_def links_only_def)
  next
    case 2
    then have l: "l \<noteq> NULL" using d dseg_nonnull by fastforce
    have h: "pTmrListHead s \<noteq> NULL" using dseg_first_nonnull [OF d] 2 by simp
    have t: "pTmrListTail s = l" using tl 2 by simp
    have ne: "l \<noteq> p" "l \<notin> set as'" using 2 pn dis by auto
    show ?thesis using d fp l h t ne p null pn dis len 2 room xs
      by (auto simp: rt_tmr_link_def rt_list_def links_only_def upd_def Let_def dseg_append
          intro!: dseg_frame [of "tmr s"])
  next
    case 3
    then have h: "pTmrListHead s = b" "b \<noteq> NULL" using hd0 d xs by auto
    show ?thesis using d fp h p null pn dis len 3 room xs tl
      by (auto simp: rt_tmr_link_def rt_list_def links_only_def upd_def Let_def
          intro!: dseg_frame [of "tmr s"])
  next
    case 4
    have b: "b \<noteq> NULL" "pprev (tmr s b) = a" "a \<noteq> NULL" using d 4 by (auto simp: dseg_append)
    have h: "pTmrListHead s \<noteq> NULL" "b \<noteq> pTmrListHead s"
      using hd0 d dseg_nonnull [of "tmr s" NULL _ xs NULL "hd xs"] 4 xs dis by (cases as'; auto simp: heads_def)+
    show ?thesis using d fp h b p null pn dis len 4 room xs tl
      by (auto simp: rt_tmr_link_def rt_list_def links_only_def upd_def Let_def dseg_append
          intro!: dseg_frame [of "tmr s"])
  qed
qed

lemma unlink_correct:
  assumes rt: "rt_list s (as @ p # bs)"
  shows "\<exists>s'. rt_tmr_unlink p s = Some s' \<and> rt_list s' (as @ bs) \<and> links_only (set (as @ p # bs)) s s' \<and>
    pnext (tmr s' p) = NULL \<and> pprev (tmr s' p) = NULL"
proof -
  have d: "dseg (tmr s) NULL (pTmrListHead s) (as @ p # bs) NULL" and tl: "pTmrListTail s = lasts NULL (as @ p # bs)"
    and dis: "distinct (as @ p # bs)" and q: "TmrListQty s = of_nat (length (as @ p # bs))"
    and lt: "length (as @ p # bs) < 2 ^ 32"
    using rt by (simp_all only: rt_list_def)
  have len: "TmrListQty s - 1 = of_nat (length (as @ bs))" by (simp add: q)
  have hd0: "pTmrListHead s = heads (as @ [p]) NULL" using dseg_head [OF d] by (cases as) simp_all
  consider "as = []" "bs = []" | b bs' where "as = []" "bs = b # bs'" | as' a where "as = as' @ [a]" "bs = []"
    | as' a b bs' where "as = as' @ [a]" "bs = b # bs'"
    by (cases as rule: rev_cases; cases bs) auto
  then show ?thesis
  proof cases
    case 1
    then show ?thesis using hd0 d q by (simp add: rt_tmr_unlink_def rt_list_def links_only_def upd_def payload_def)
  next
    case 2
    then show ?thesis using hd0 d tl dis len lt
      by (auto simp: rt_tmr_unlink_def rt_list_def links_only_def upd_def payload_def Let_def lasts_def
          intro!: dseg_frame [of "tmr s"])
  next
    case 3
    have a: "pprev (tmr s p) = a" "a \<noteq> NULL" "pnext (tmr s p) = NULL" using d 3 by (auto simp: dseg_append)
    have h: "p \<noteq> pTmrListHead s" using hd0 dis 3 by (cases as') auto
    show ?thesis using a h d tl dis len lt 3
      by (auto simp: rt_tmr_unlink_def rt_list_def links_only_def upd_def payload_def Let_def dseg_append
          intro!: dseg_frame [of "tmr s"])
  next
    case 4
    have a: "pprev (tmr s p) = a" "a \<noteq> NULL" "pnext (tmr s p) = b" "b \<noteq> NULL" using d 4 by (auto simp: dseg_append)
    have h: "p \<noteq> pTmrListHead s" using hd0 dis 4 by (cases as') auto
    have t: "p \<noteq> pTmrListTail s" using tl dis 4 by (auto simp: lasts_def)
    show ?thesis using a h t d tl dis len lt 4
      by (auto simp: rt_tmr_unlink_def rt_list_def links_only_def upd_def payload_def Let_def dseg_append lasts_def
          intro!: dseg_frame [of "tmr s"])
  qed
qed

subsection \<open>The invariant and the operations\<close>

abbreviation due_at :: "rt_tmr \<Rightarrow> ptr \<Rightarrow> u32" where
  "due_at s p \<equiv> counter (tmr s p)"

definition rt_ok :: "rt_tmr \<Rightarrow> ptr list \<Rightarrow> bool" where
  "rt_ok s xs \<longleftrightarrow> rt_list s xs \<and> sorted (map (due_at s) xs) \<and>
     (\<forall>p. p \<in> set xs \<longleftrightarrow> tmr_state (tmr s p) = E_RT_TMR_STATE_RUNNING) \<and>
     (\<forall>p. p \<notin> set xs \<longrightarrow> pnext (tmr s p) = NULL \<and> pprev (tmr s p) = NULL)"

definition ins_due :: "rt_tmr \<Rightarrow> ptr \<Rightarrow> ptr list \<Rightarrow> ptr list" where
  "ins_due s p xs = takeWhile (\<lambda>x. due_at s x < due_at s p) xs @ p # dropWhile (\<lambda>x. due_at s x < due_at s p) xs"

lemma set_ins_due [simp]: "set (ins_due s p xs) = insert p (set xs)"
  unfolding ins_due_def by (metis Un_insert_right list.set(2) set_append takeWhile_dropWhile_id)

lemma rt_upd_simps:
  "tmr (upd p f s) q = (if q = p then f (tmr s p) else tmr s q)" "TmrCurTick (upd p f s) = TmrCurTick s"
  "pTmrListHead (upd p f s) = pTmrListHead s"
  by (simp_all add: upd_def)

lemma rt_list_payload:
  "(\<And>t. pnext (f t) = pnext t \<and> pprev (f t) = pprev t) \<Longrightarrow> rt_list (upd p f s) xs \<longleftrightarrow> rt_list s xs"
proof -
  assume f: "\<And>t. pnext (f t) = pnext t \<and> pprev (f t) = pprev t"
  have "dseg (tmr (upd p f s)) q r xs e \<longleftrightarrow> dseg (tmr s) q r xs e" for q r e
    using f by (auto simp: upd_def intro: dseg_frame)
  then show ?thesis by (simp add: rt_list_def) (simp add: upd_def)
qed

lemma sorted_split_insert:
  fixes f :: "'a \<Rightarrow> 'b::linorder"
  shows "sorted (map f xs) \<Longrightarrow>
    sorted (map f (takeWhile (\<lambda>x. f x < f p) xs @ p # dropWhile (\<lambda>x. f x < f p) xs))"
proof (induction xs)
  case (Cons x xs)
  then show ?case
    using set_takeWhileD [of _ "\<lambda>x. f x < f p" xs] set_dropWhileD [of _ "\<lambda>x. f x < f p" xs]
    by (auto simp: not_less intro: order_trans)
qed simp

lemma link_ok:
  assumes "rt_list s xs" and "sorted (map (due_at s) xs)" and "p \<noteq> NULL" and "p \<notin> set xs"
    and "\<forall>q. q \<noteq> p \<longrightarrow> (q \<in> set xs \<longleftrightarrow> tmr_state (tmr s q) = E_RT_TMR_STATE_RUNNING)"
    and "\<forall>q. q \<notin> set xs \<longrightarrow> pnext (tmr s q) = NULL \<and> pprev (tmr s q) = NULL"
    and "length xs + 1 < 2 ^ 32"
  shows "\<exists>s'. rt_tmr_link p s = Some s' \<and> links_only (insert p (set xs)) s s' \<and>
    rt_ok (upd p (\<lambda>t. t\<lparr>tmr_state := E_RT_TMR_STATE_RUNNING\<rparr>) s') (ins_due s p xs)"
proof -
  obtain s' where s': "rt_tmr_link p s = Some s'" "rt_list s' (ins_due s p xs)" "links_only (insert p (set xs)) s s'"
    using link_correct [OF assms(1,3,4) _ _ assms(7) refl refl] assms(4,6) by (auto simp: ins_due_def)
  have pl: "due_at s' q = due_at s q" "tmr_state (tmr s' q) = tmr_state (tmr s q)" for q
    using s'(3) payload_eqD [of "tmr s' q" "tmr s q"] by (auto simp: links_only_def)
  let ?s = "upd p (\<lambda>t. t\<lparr>tmr_state := E_RT_TMR_STATE_RUNNING\<rparr>) s'"
  have "due_at ?s = due_at s" by (simp add: rt_upd_simps pl fun_eq_iff)
  then have "sorted (map (due_at ?s) (ins_due s p xs))"
    using sorted_split_insert [OF assms(2), of p] by (simp only: ins_due_def)
  moreover have "rt_list ?s (ins_due s p xs)" using s'(2) by (simp add: rt_list_payload)
  moreover have "\<forall>q. q \<notin> set (ins_due s p xs) \<longrightarrow> pnext (tmr ?s q) = NULL \<and> pprev (tmr ?s q) = NULL"
    using s'(3) assms(6) by (auto simp: links_only_def rt_upd_simps)
  ultimately have "rt_ok ?s (ins_due s p xs)" using assms(5) by (auto simp: rt_ok_def rt_upd_simps pl)
  with s' show ?thesis by blast
qed

lemma unlink_ok:
  assumes ok: "rt_ok s (as @ p # bs)"
  shows "\<exists>s'. rt_tmr_unlink p s = Some s' \<and> links_only (set (as @ p # bs)) s s' \<and> rt_list s' (as @ bs) \<and>
    sorted (map (due_at s') (as @ bs)) \<and>
    (\<forall>q. q \<noteq> p \<longrightarrow> (q \<in> set (as @ bs) \<longleftrightarrow> tmr_state (tmr s' q) = E_RT_TMR_STATE_RUNNING)) \<and>
    (\<forall>q. q \<notin> set (as @ bs) \<longrightarrow> pnext (tmr s' q) = NULL \<and> pprev (tmr s' q) = NULL)"
proof -
  obtain s' where s': "rt_tmr_unlink p s = Some s'" "rt_list s' (as @ bs)" "links_only (set (as @ p # bs)) s s'"
    "pnext (tmr s' p) = NULL" "pprev (tmr s' p) = NULL"
    using unlink_correct [of s as p bs] ok by (auto simp: rt_ok_def)
  have pl: "due_at s' q = due_at s q" "tmr_state (tmr s' q) = tmr_state (tmr s q)" for q
    using s'(3) payload_eqD [of "tmr s' q" "tmr s q"] by (auto simp: links_only_def)
  have "sorted (map (due_at s') (as @ bs))"
    using ok by (auto simp: rt_ok_def pl sorted_append)
  moreover have "\<forall>q. q \<noteq> p \<longrightarrow> (q \<in> set (as @ bs) \<longleftrightarrow> tmr_state (tmr s' q) = E_RT_TMR_STATE_RUNNING)"
    using ok by (auto simp: rt_ok_def pl)
  moreover have "pnext (tmr s' q) = NULL \<and> pprev (tmr s' q) = NULL" if "q \<notin> set (as @ bs)" for q
    using that s'(3-5) ok by (cases "q = p") (auto simp: links_only_def rt_ok_def)
  ultimately show ?thesis using s'(1-3) by blast
qed

text \<open>
  C14: Starting a created or stopped timer succeeds, makes it due one period from now, and files it in the list in
  front of the first timer that is not due earlier; the list stays sorted and well linked, and it
  holds exactly the running timers.
\<close>

theorem rt_tmr_start_correct:
  assumes "rt_ok s xs" and "p \<noteq> NULL" and "length xs + 1 < 2 ^ 32"
    and "tmr_state (tmr s p) = E_RT_TMR_STATE_CREATED \<or> tmr_state (tmr s p) = E_RT_TMR_STATE_STOPPED"
  shows "\<exists>s'. rt_tmr_start p s = Some s' \<and> due_at s' p = TmrCurTick s + period (tmr s p) \<and>
    rt_ok s' (ins_due s' p xs) \<and> (\<forall>q. q \<noteq> p \<longrightarrow> payload (tmr s' q) = payload (tmr s q))"
proof -
  let ?s = "upd p (\<lambda>t. t\<lparr>counter := TmrCurTick s + period t\<rparr>) s"
  have pn: "p \<notin> set xs" using assms(1,4) by (auto simp: rt_ok_def)
  then have srt: "sorted (map (due_at ?s) xs)"
  proof -
    have "map (due_at ?s) xs = map (due_at s) xs" using pn by (auto simp: rt_upd_simps)
    then show ?thesis using assms(1) by (simp only: rt_ok_def)
  qed
  have l: "rt_list ?s xs" using assms(1) by (simp add: rt_list_payload rt_ok_def)
  have q: "\<forall>q. q \<noteq> p \<longrightarrow> (q \<in> set xs \<longleftrightarrow> tmr_state (tmr ?s q) = E_RT_TMR_STATE_RUNNING)"
    "\<forall>q. q \<notin> set xs \<longrightarrow> pnext (tmr ?s q) = NULL \<and> pprev (tmr ?s q) = NULL"
    using assms(1) by (auto simp: rt_ok_def rt_upd_simps)
  obtain s1 where s1: "rt_tmr_link p ?s = Some s1" "links_only (insert p (set xs)) ?s s1"
    "rt_ok (upd p (\<lambda>t. t\<lparr>tmr_state := E_RT_TMR_STATE_RUNNING\<rparr>) s1) (ins_due ?s p xs)"
    using link_ok [OF l srt assms(2) pn q assms(3)] by blast
  let ?s' = "upd p (\<lambda>t. t\<lparr>tmr_state := E_RT_TMR_STATE_RUNNING\<rparr>) s1"
  have pl: "payload (tmr s1 q) = payload (tmr ?s q)" for q using s1(2) by (simp add: links_only_def)
  have c: "due_at ?s' r = due_at ?s r" for r using payload_eqD(1) [OF pl [of r]] by (cases "r = p") (simp_all add: rt_upd_simps)
  then have "ins_due ?s' p xs = ins_due ?s p xs" by (simp add: ins_due_def)
  moreover have "due_at ?s' p = TmrCurTick s + period (tmr s p)" using c [of p] by (simp add: rt_upd_simps)
  moreover have "rt_tmr_start p s = Some ?s'" using assms(4) s1(1) by (simp add: rt_tmr_start_def)
  ultimately show ?thesis using s1(3) pl by (intro exI [of _ ?s']) (simp add: rt_upd_simps)
qed

text \<open>
  Stopping a timer takes it off the list if it runs, keeps the order of the others, and leaves it stopped
  and unlinked, so that it can be started again; stopping twice is harmless.
\<close>

theorem rt_tmr_stop_correct:
  assumes "rt_ok s xs"
  shows "\<exists>s'. rt_tmr_stop p s = Some s' \<and> rt_ok s' (remove1 p xs) \<and> tmr_state (tmr s' p) = E_RT_TMR_STATE_STOPPED \<and>
    (\<forall>q. q \<noteq> p \<longrightarrow> payload (tmr s' q) = payload (tmr s q)) \<and> rt_tmr_stop p s' = Some s'"
proof -
  have stop2: "rt_tmr_stop p (upd p (\<lambda>t. t\<lparr>tmr_state := E_RT_TMR_STATE_STOPPED\<rparr>) s1) =
      Some (upd p (\<lambda>t. t\<lparr>tmr_state := E_RT_TMR_STATE_STOPPED\<rparr>) s1)" for s1
    by (simp add: rt_tmr_stop_def upd_def)
  show ?thesis
  proof (cases "p \<in> set xs")
    case True
    then obtain as bs where xs: "xs = as @ p # bs" by (meson split_list)
    have d: "p \<notin> set as" "p \<notin> set bs" using assms by (auto simp: rt_ok_def rt_list_def xs)
    obtain s1 where s1: "rt_tmr_unlink p s = Some s1" "links_only (set xs) s s1" "rt_list s1 (as @ bs)"
      "sorted (map (due_at s1) (as @ bs))"
      "\<forall>q. q \<noteq> p \<longrightarrow> (q \<in> set (as @ bs) \<longleftrightarrow> tmr_state (tmr s1 q) = E_RT_TMR_STATE_RUNNING)"
      "\<forall>q. q \<notin> set (as @ bs) \<longrightarrow> pnext (tmr s1 q) = NULL \<and> pprev (tmr s1 q) = NULL"
      using unlink_ok [of s as p bs] assms xs by blast
    let ?s = "upd p (\<lambda>t. t\<lparr>tmr_state := E_RT_TMR_STATE_STOPPED\<rparr>) s1"
    have "due_at ?s = due_at s1" by (simp add: rt_upd_simps fun_eq_iff)
    then have "rt_ok ?s (as @ bs)" using s1(3-6) d by (auto simp: rt_ok_def rt_list_payload rt_upd_simps)
    moreover have "rt_tmr_stop p s = Some ?s" using s1(1) True assms by (simp add: rt_tmr_stop_def rt_ok_def)
    moreover have "remove1 p xs = as @ bs" using d by (simp add: xs remove1_append)
    moreover have "payload (tmr ?s q) = payload (tmr s q)" if "q \<noteq> p" for q
      using s1(2) that by (simp add: links_only_def rt_upd_simps)
    ultimately show ?thesis using stop2 by (intro exI [of _ ?s]) (simp add: rt_upd_simps)
  next
    case False
    let ?s = "upd p (\<lambda>t. t\<lparr>tmr_state := E_RT_TMR_STATE_STOPPED\<rparr>) s"
    have "due_at ?s = due_at s" by (simp add: rt_upd_simps fun_eq_iff)
    then have "rt_ok ?s xs" using assms False by (auto simp: rt_ok_def rt_list_payload rt_upd_simps)
    moreover have "rt_tmr_stop p s = Some ?s" using assms False by (auto simp: rt_tmr_stop_def rt_ok_def)
    ultimately show ?thesis using stop2 False by (intro exI [of _ ?s]) (simp add: rt_upd_simps remove1_idem)
  qed
qed

subsection \<open>The tick interrupt\<close>

lemma takeWhile_insert:
  "(\<And>x. P x \<Longrightarrow> Q x) \<Longrightarrow> \<not> P p \<Longrightarrow> takeWhile P (takeWhile Q xs @ p # dropWhile Q xs) = takeWhile P xs"
  by (induction xs) auto

text \<open>What a fired timer leaves: it is gone, or due again one period from now.\<close>

lemma fire_ok:
  assumes "rt_ok s (p # bs)"
  shows "\<exists>s' ys. fire p s = Some s' \<and> rt_ok s' ys \<and> TmrCurTick s' = TmrCurTick s \<and>
    (\<forall>q. (q \<noteq> p \<or> tmr_type (tmr s p) = E_RT_TMR_TYPE_ONE_SHOT \<longrightarrow> due_at s' q = due_at s q) \<and>
         period (tmr s' q) = period (tmr s q) \<and> tmr_type (tmr s' q) = tmr_type (tmr s q) \<and>
         cbFnct (tmr s' q) = cbFnct (tmr s q) \<and> cbArg (tmr s' q) = cbArg (tmr s q)) \<and>
    (tmr_type (tmr s p) = E_RT_TMR_TYPE_ONE_SHOT \<longrightarrow> ys = bs) \<and>
    (tmr_type (tmr s p) = E_RT_TMR_TYPE_PERIODIC \<longrightarrow>
       ys = ins_due s' p bs \<and> due_at s' p = TmrCurTick s + period (tmr s p))"
proof -
  let ?s0 = "upd p (\<lambda>t. t\<lparr>tmr_state := E_RT_TMR_STATE_TRIGGERED\<rparr>) s"
  have d: "p \<notin> set bs" "p \<noteq> NULL" "length bs + 1 < 2 ^ 32" using assms by (auto simp: rt_ok_def rt_list_def)
  have "rt_list ?s0 ([] @ p # bs)" using assms by (simp add: rt_list_payload rt_ok_def)
  then obtain s1 where s1: "rt_tmr_unlink p ?s0 = Some s1" "rt_list s1 bs" "links_only (set (p # bs)) ?s0 s1"
    "pnext (tmr s1 p) = NULL" "pprev (tmr s1 p) = NULL"
    using unlink_correct [of ?s0 "[]" p bs] by auto
  have pl: "payload (tmr s1 q) = payload (tmr ?s0 q)" for q using s1(3) by (simp add: links_only_def)
  have k: "TmrCurTick s1 = TmrCurTick s" using s1(3) by (simp add: links_only_def rt_upd_simps)
  have st1: "tmr_state (tmr s1 q) = tmr_state (tmr s q)" if "q \<noteq> p" for q
    using payload_eqD(2) [OF pl [of q]] that by (simp add: rt_upd_simps)
  have f1: "due_at s1 q = due_at s q" "period (tmr s1 q) = period (tmr s q)" "tmr_type (tmr s1 q) = tmr_type (tmr s q)"
    "cbFnct (tmr s1 q) = cbFnct (tmr s q)" "cbArg (tmr s1 q) = cbArg (tmr s q)" for q
    using payload_eqD [OF pl [of q]] by (cases "q = p"; simp add: rt_upd_simps)+
  have run: "q \<in> set bs \<longleftrightarrow> tmr_state (tmr s1 q) = E_RT_TMR_STATE_RUNNING" if "q \<noteq> p" for q
    using assms that st1 [OF that] by (auto simp: rt_ok_def)
  have nul: "pnext (tmr s1 q) = NULL \<and> pprev (tmr s1 q) = NULL" if "q \<notin> set bs" for q
    using that s1(3-5) assms by (cases "q = p") (auto simp: links_only_def rt_ok_def rt_upd_simps)
  have srt: "sorted (map (due_at s1) bs)" using assms by (simp add: rt_ok_def f1)
  show ?thesis
  proof (cases "tmr_type (tmr s p)")
    case E_RT_TMR_TYPE_ONE_SHOT
    let ?s = "upd p (\<lambda>t. t\<lparr>tmr_state := E_RT_TMR_STATE_STOPPED\<rparr>) s1"
    have "map (due_at ?s) bs = map (due_at s1) bs" by (simp add: rt_upd_simps)
    then have "sorted (map (due_at ?s) bs)" using srt by (simp only:)
    then have "rt_ok ?s bs" using s1(2) run nul d by (auto simp: rt_ok_def rt_list_payload rt_upd_simps)
    moreover have "fire p s = Some ?s" using s1(1) E_RT_TMR_TYPE_ONE_SHOT by (simp add: fire_def f1)
    ultimately show ?thesis using f1 k E_RT_TMR_TYPE_ONE_SHOT
      by (intro exI [of _ ?s] exI [of _ bs]) (simp add: rt_upd_simps)
  next
    case E_RT_TMR_TYPE_PERIODIC
    let ?s2 = "upd p (\<lambda>t. t\<lparr>counter := TmrCurTick s1 + period t\<rparr>) s1"
    have "map (due_at ?s2) bs = map (due_at s1) bs" using d by (auto simp: rt_upd_simps)
    then have a: "sorted (map (due_at ?s2) bs)" using srt by (simp only:)
    have l: "rt_list ?s2 bs" using s1(2) by (simp add: rt_list_payload)
    have b: "\<forall>q. q \<noteq> p \<longrightarrow> (q \<in> set bs \<longleftrightarrow> tmr_state (tmr ?s2 q) = E_RT_TMR_STATE_RUNNING)"
      "\<forall>q. q \<notin> set bs \<longrightarrow> pnext (tmr ?s2 q) = NULL \<and> pprev (tmr ?s2 q) = NULL"
      using run nul by (auto simp: rt_upd_simps)
    obtain s3 where s3: "rt_tmr_link p ?s2 = Some s3" "links_only (insert p (set bs)) ?s2 s3"
      "rt_ok (upd p (\<lambda>t. t\<lparr>tmr_state := E_RT_TMR_STATE_RUNNING\<rparr>) s3) (ins_due ?s2 p bs)"
      using link_ok [OF l a d(2,1) b d(3)] by blast
    let ?s = "upd p (\<lambda>t. t\<lparr>tmr_state := E_RT_TMR_STATE_RUNNING\<rparr>) s3"
    have pl3: "payload (tmr s3 q) = payload (tmr ?s2 q)" for q using s3(2) by (simp add: links_only_def)
    have c3: "due_at ?s q = due_at ?s2 q" for q
      using payload_eqD(1) [OF pl3 [of q]] by (cases "q = p") (simp_all add: rt_upd_simps)
    have f3: "period (tmr ?s q) = period (tmr s q)" "tmr_type (tmr ?s q) = tmr_type (tmr s q)"
      "cbFnct (tmr ?s q) = cbFnct (tmr s q)" "cbArg (tmr ?s q) = cbArg (tmr s q)" for q
      using payload_eqD [OF pl3 [of q]] f1 [of q] by (cases "q = p"; simp add: rt_upd_simps)+
    have "ins_due ?s p bs = ins_due ?s2 p bs" by (simp only: ins_due_def c3)
    moreover have "fire p s = Some ?s" using s1(1) s3(1) E_RT_TMR_TYPE_PERIODIC by (simp add: fire_def f1)
    moreover have "TmrCurTick ?s = TmrCurTick s" using s3(2) k by (simp add: links_only_def rt_upd_simps)
    moreover have "due_at ?s q = due_at s q" if "q \<noteq> p" for q using that f1 by (simp add: c3) (simp add: rt_upd_simps)
    moreover have "due_at ?s p = TmrCurTick s + period (tmr s p)" by (simp add: c3) (simp add: rt_upd_simps f1 k)
    ultimately show ?thesis using s3(3) f3 E_RT_TMR_TYPE_PERIODIC
      by (intro exI [of _ ?s] exI [of _ "ins_due ?s p bs"]) simp
  qed
qed

text \<open>A callback that leaves the timers alone, as a function \<open>g\<close> of the rest of the system.\<close>

definition quiet :: "(ptr \<Rightarrow> ptr \<Rightarrow> 'w \<Rightarrow> 'w) \<Rightarrow> ptr \<Rightarrow> ptr \<Rightarrow> 'w \<times> rt_tmr \<Rightarrow> 'w \<times> rt_tmr" where
  "quiet g f a ws = (g f a (fst ws), snd ws)"

definition notify :: "(ptr \<Rightarrow> ptr \<Rightarrow> 'w \<Rightarrow> 'w) \<Rightarrow> rt_tmr \<Rightarrow> ptr \<Rightarrow> 'w \<Rightarrow> 'w" where
  "notify g s p w = (if cbFnct (tmr s p) \<noteq> NULL then g (cbFnct (tmr s p)) (cbArg (tmr s p)) w else w)"

lemma update_loop_correct:
  assumes "rt_ok s xs" and "due = takeWhile (\<lambda>x. due_at s x \<le> TmrCurTick s) xs"
    and "\<forall>x \<in> set xs. tmr_type (tmr s x) = E_RT_TMR_TYPE_PERIODIC \<longrightarrow> TmrCurTick s < TmrCurTick s + period (tmr s x)"
  shows "\<exists>s' ys. update_loop (quiet g) (w, s) = Some (fold (notify g s) due w, s') \<and> rt_ok s' ys \<and>
    (\<forall>y \<in> set ys. TmrCurTick s < due_at s' y) \<and>
    set ys = set xs - {x \<in> set due. tmr_type (tmr s x) = E_RT_TMR_TYPE_ONE_SHOT} \<and>
    (\<forall>x \<in> set due. tmr_type (tmr s x) = E_RT_TMR_TYPE_PERIODIC \<longrightarrow> due_at s' x = TmrCurTick s + period (tmr s x)) \<and>
    (\<forall>x. x \<notin> set due \<longrightarrow> due_at s' x = due_at s x)"
  using assms
proof (induction due arbitrary: s xs w)
  case Nil
  let ?p = "pTmrListHead s"
  have hd: "?p = heads xs NULL" using Nil.prems(1) dseg_head by (auto simp: rt_ok_def rt_list_def)
  have h: "?p = NULL \<or> TmrCurTick s < due_at s ?p"
    using Nil.prems(2) hd by (cases xs) (auto split: if_splits)
  have "\<forall>y \<in> set xs. TmrCurTick s < due_at s y"
    using Nil.prems(1,2) by (cases xs) (auto simp: rt_ok_def split: if_splits intro: less_le_trans)
  moreover have "update_loop (quiet g) (w, s) = Some (w, s)"
    using h by (auto simp: update_loop.simps [of "quiet g" "(w, s)"] Let_def)
  ultimately show ?case using Nil.prems(1) by (intro exI [of _ s] exI [of _ xs]) simp
next
  case (Cons p due)
  obtain bs where xs: "xs = p # bs" using Cons.prems(2) by (cases xs) (auto split: if_splits)
  have due: "due = takeWhile (\<lambda>x. due_at s x \<le> TmrCurTick s) bs" and pd: "due_at s p \<le> TmrCurTick s"
    using Cons.prems(2) by (auto simp: xs split: if_splits)
  have hd: "pTmrListHead s = p" and p0: "p \<noteq> NULL" and pb: "p \<notin> set bs"
    using Cons.prems(1) by (auto simp: rt_ok_def rt_list_def xs)
  obtain s1 ys1 where f: "fire p s = Some s1" "rt_ok s1 ys1" "TmrCurTick s1 = TmrCurTick s"
    and same: "\<And>q. period (tmr s1 q) = period (tmr s q) \<and> tmr_type (tmr s1 q) = tmr_type (tmr s q) \<and>
         cbFnct (tmr s1 q) = cbFnct (tmr s q) \<and> cbArg (tmr s1 q) = cbArg (tmr s q)"
    and dues: "\<And>q. q \<noteq> p \<or> tmr_type (tmr s p) = E_RT_TMR_TYPE_ONE_SHOT \<Longrightarrow> due_at s1 q = due_at s q"
    and one: "tmr_type (tmr s p) = E_RT_TMR_TYPE_ONE_SHOT \<Longrightarrow> ys1 = bs"
    and per: "tmr_type (tmr s p) = E_RT_TMR_TYPE_PERIODIC \<Longrightarrow>
       ys1 = ins_due s1 p bs \<and> due_at s1 p = TmrCurTick s + period (tmr s p)"
    using fire_ok [OF Cons.prems(1) [unfolded xs]] by blast
  have tb: "takeWhile (\<lambda>x. due_at s1 x \<le> TmrCurTick s) bs = due"
    using pb dues unfolding due by (intro takeWhile_cong refl) (metis)
  have due1: "due = takeWhile (\<lambda>x. due_at s1 x \<le> TmrCurTick s1) ys1"
  proof (cases "tmr_type (tmr s p)")
    case E_RT_TMR_TYPE_ONE_SHOT
    then show ?thesis using one tb f(3) by simp
  next
    case E_RT_TMR_TYPE_PERIODIC
    have lt: "TmrCurTick s < due_at s1 p"
      using per [OF E_RT_TMR_TYPE_PERIODIC] Cons.prems(3) E_RT_TMR_TYPE_PERIODIC by (auto simp: xs)
    have "takeWhile (\<lambda>x. due_at s1 x \<le> TmrCurTick s) (ins_due s1 p bs) = takeWhile (\<lambda>x. due_at s1 x \<le> TmrCurTick s) bs"
      unfolding ins_due_def using lt by (intro takeWhile_insert) auto
    then show ?thesis using per [OF E_RT_TMR_TYPE_PERIODIC] tb f(3) by simp
  qed
  have ys1: "set ys1 = set xs - (if tmr_type (tmr s p) = E_RT_TMR_TYPE_ONE_SHOT then {p} else {})"
    using one per pb by (cases "tmr_type (tmr s p)") (auto simp: xs)
  have nowrap: "\<forall>x \<in> set ys1. tmr_type (tmr s1 x) = E_RT_TMR_TYPE_PERIODIC \<longrightarrow> TmrCurTick s1 < TmrCurTick s1 + period (tmr s1 x)"
    using Cons.prems(3) same f(3) ys1 by (auto split: if_splits)
  have nt: "notify g s1 = notify g s" using same by (simp add: notify_def fun_eq_iff)
  have step: "update_loop (quiet g) (w, s) = update_loop (quiet g) (notify g s p w, s1)"
    using hd p0 pd f(1) same by (subst update_loop.simps) (auto simp: Let_def notify_def quiet_def not_less)
  have pdue: "p \<notin> set due" using pb due set_takeWhileD by fastforce
  obtain s' ys where IH: "update_loop (quiet g) (notify g s p w, s1) = Some (fold (notify g s1) due (notify g s p w), s')"
    "rt_ok s' ys" "\<forall>y \<in> set ys. TmrCurTick s1 < due_at s' y"
    "set ys = set ys1 - {x \<in> set due. tmr_type (tmr s1 x) = E_RT_TMR_TYPE_ONE_SHOT}"
    "\<forall>x \<in> set due. tmr_type (tmr s1 x) = E_RT_TMR_TYPE_PERIODIC \<longrightarrow> due_at s' x = TmrCurTick s1 + period (tmr s1 x)"
    "\<forall>x. x \<notin> set due \<longrightarrow> due_at s' x = due_at s1 x"
    using Cons.IH [OF f(2) due1 nowrap] by blast
  have sets: "set ys = set xs - {x \<in> set (p # due). tmr_type (tmr s x) = E_RT_TMR_TYPE_ONE_SHOT}"
    using IH(4) ys1 same by auto
  have per': "\<forall>x \<in> set (p # due). tmr_type (tmr s x) = E_RT_TMR_TYPE_PERIODIC \<longrightarrow>
      due_at s' x = TmrCurTick s + period (tmr s x)"
    using IH(5,6) per pdue f(3) same by simp
  have rest: "\<forall>x. x \<notin> set (p # due) \<longrightarrow> due_at s' x = due_at s x" using IH(6) dues by simp
  have ev: "update_loop (quiet g) (w, s) = Some (fold (notify g s) (p # due) w, s')"
    using IH(1) step nt by simp
  show ?case using IH(2,3) ev sets per' rest f(3) by (intro exI [of _ s'] exI [of _ ys]) simp
qed

text \<open>
  C20: The tick interrupt calls the callbacks of exactly the timers that are due by the new tick, each once and in the
  order of their deadlines, and returns: one-shot timers leave the list, periodic ones are due again one
  period after this tick, and everything left on the list is due later. This holds as long as the new deadline of no periodic
  timer wraps around the tick counter (else it need not return, see \<open>rt_tmr_update_wrap_diverges\<close>), for callbacks that leave the timers alone.
\<close>

theorem rt_tmr_update_fires_due:
  assumes "rt_ok s xs" and "tick = TmrCurTick s + 1"
    and "due = takeWhile (\<lambda>x. due_at s x \<le> tick) xs"
    and "\<forall>x \<in> set xs. tmr_type (tmr s x) = E_RT_TMR_TYPE_PERIODIC \<longrightarrow> tick < tick + period (tmr s x)"
  shows "\<exists>s' ys. rt_tmr_update (quiet g) (w, s) = Some (fold (notify g s) due w, s') \<and> rt_ok s' ys \<and>
    (\<forall>y \<in> set ys. tick < due_at s' y) \<and>
    set ys = set xs - {x \<in> set due. tmr_type (tmr s x) = E_RT_TMR_TYPE_ONE_SHOT} \<and>
    (\<forall>x \<in> set due. tmr_type (tmr s x) = E_RT_TMR_TYPE_PERIODIC \<longrightarrow> due_at s' x = tick + period (tmr s x))"
proof -
  let ?s = "s\<lparr>TmrCurTick := tick\<rparr>"
  have "rt_ok ?s xs" using assms(1) by (simp add: rt_ok_def rt_list_def)
  moreover have "notify g ?s = notify g s" by (simp add: notify_def fun_eq_iff)
  ultimately show ?thesis
    using update_loop_correct [of ?s xs due g w] assms(2-4) by (fastforce simp: rt_tmr_update_def)
qed

definition two_timers :: rt_tmr where
  "two_timers = \<lparr>tmr = (\<lambda>p. \<lparr>pnext = (if p = 8 then 16 else 0), pprev = (if p = 16 then 8 else 0),
       tmr_type = (if p = 8 then E_RT_TMR_TYPE_PERIODIC else E_RT_TMR_TYPE_ONE_SHOT), period = 50,
       counter = (if p = 8 then 100 else 101),
       tmr_state = (if p = 8 \<or> p = 16 then E_RT_TMR_STATE_RUNNING else E_RT_TMR_STATE_INIT),
       cbFnct = 900, cbArg = p\<rparr>),
     pTmrListHead = 8, pTmrListTail = 16, TmrListQty = 2, TmrCurTick = 100\<rparr>"

lemma two_timers_ok: "rt_ok two_timers [8, 16]"
  by (auto simp: rt_ok_def rt_list_def two_timers_def)

theorem rt_tmr_update_fires_due_witness:
  "\<exists>s' ys. rt_tmr_update (quiet (\<lambda>f a w. w @ [(f, a)])) ([], two_timers) = Some ([(900, 8), (900, 16)], s') \<and> set ys = {8} \<and>
    rt_ok s' ys \<and> due_at s' 8 = 151"
proof -
  have due: "[8, 16] = takeWhile (\<lambda>x. due_at two_timers x \<le> 101) [8, 16]" by (simp add: two_timers_def)
  show ?thesis
    using rt_tmr_update_fires_due [OF two_timers_ok _ due, of "\<lambda>f a w. w @ [(f, a)]" "[]"]
    by (fastforce simp: two_timers_def notify_def)
qed

theorem rt_tmr_start_correct_witness:
  "\<exists>s'. rt_tmr_start 24 (upd 24 (\<lambda>t. t\<lparr>tmr_state := E_RT_TMR_STATE_STOPPED\<rparr>) two_timers) = Some s' \<and> due_at s' 24 = 150"
proof -
  let ?s = "upd 24 (\<lambda>t. t\<lparr>tmr_state := E_RT_TMR_STATE_STOPPED\<rparr>) two_timers"
  have "rt_ok ?s [8, 16]" by (auto simp: rt_ok_def rt_list_def two_timers_def upd_def)
  from rt_tmr_start_correct [OF this, of 24] show ?thesis by (fastforce simp: two_timers_def rt_upd_simps)
qed

theorem rt_tmr_stop_correct_witness:
  "\<exists>s'. rt_tmr_stop 8 two_timers = Some s' \<and> rt_ok s' [16] \<and> rt_tmr_stop 8 s' = Some s'"
  using rt_tmr_stop_correct [OF two_timers_ok, of 8] by auto

text \<open>A lone periodic timer whose next deadline wraps below the current tick.\<close>

definition stuck :: "ptr \<Rightarrow> rt_tmr \<Rightarrow> bool" where
  "stuck p s \<longleftrightarrow> rt_ok s [p] \<and> tmr_type (tmr s p) = E_RT_TMR_TYPE_PERIODIC \<and>
     due_at s p \<le> TmrCurTick s \<and> TmrCurTick s + period (tmr s p) \<le> TmrCurTick s"

lemma fire_stuck: "stuck p s \<Longrightarrow> fire p s = Some s' \<Longrightarrow> stuck p s'"
  using fire_ok [of s p "[]"] by (auto simp: stuck_def ins_due_def)

lemma update_loop_diverges:
  assumes "update_loop call ws = Some ws'"
  shows "call = quiet g \<longrightarrow> \<not> stuck p (snd ws)"
proof (rule update_loop.raw_induct [where P = "\<lambda>call ws ws'. call = quiet g \<longrightarrow> \<not> stuck p (snd ws)", OF _ assms],
    intro impI notI)
  fix loop call ws ws'
  assume IH: "\<And>call ws ws'. loop call ws = Some ws' \<Longrightarrow> call = quiet g \<longrightarrow> \<not> stuck p (snd ws)"
    and eq: "(let q = pTmrListHead (snd ws)
      in if q = NULL \<or> counter (tmr (snd ws) q) > TmrCurTick (snd ws) then Some ws
         else Option.bind (fire q (snd ws)) (\<lambda>s. loop call
             (if cbFnct (tmr s q) \<noteq> NULL then call (cbFnct (tmr s q)) (cbArg (tmr s q)) (fst ws, s) else (fst ws, s))))
      = Some ws'"
    and q: "call = quiet g" and st: "stuck p (snd ws)"
  have hd: "pTmrListHead (snd ws) = p" "p \<noteq> NULL" using st by (auto simp: stuck_def rt_ok_def rt_list_def)
  have due: "due_at (snd ws) p \<le> TmrCurTick (snd ws)" using st by (simp add: stuck_def)
  obtain s1 where f: "fire p (snd ws) = Some s1"
    using fire_ok [of "snd ws" p "[]"] st by (auto simp: stuck_def)
  then have "stuck p s1" using fire_stuck [OF st] by blast
  moreover have "\<exists>w. loop call (w, s1) = Some ws'"
    using eq hd due f q by (auto simp: Let_def quiet_def not_less split: if_splits)
  ultimately show False using IH q by fastforce
qed

text \<open>
  Deadlines are compared without regard to the wrap of the 32-bit tick counter: when the next deadline of a lone
  periodic timer wraps, which happens to every periodic timer in each round of the counter, the tick
  interrupt never returns; it fires the timer again and again at the same tick.
\<close>

theorem rt_tmr_update_wrap_diverges:
  assumes "rt_ok s [p]" and "tmr_type (tmr s p) = E_RT_TMR_TYPE_PERIODIC"
    and "due_at s p \<le> TmrCurTick s + 1"
    and "2 ^ 32 \<le> unat (TmrCurTick s + 1) + unat (period (tmr s p))"
  shows "rt_tmr_update (quiet g) (w, s) = None"
proof -
  let ?t = "TmrCurTick s + 1" and ?p = "period (tmr s p)"
  have b: "unat ?t < 2 ^ 32" "unat ?p < 2 ^ 32" by (rule order_less_le_trans [OF unsigned_less], simp)+
  have "unat (?t + ?p) = (unat ?t + unat ?p) mod 2 ^ 32" by (simp add: unat_word_ariths)
  also have "\<dots> = unat ?t + unat ?p - 2 ^ 32"
    using assms(4) b by (subst le_mod_geq) simp_all
  also have "\<dots> \<le> unat ?t" using b by simp
  finally have w: "?t + ?p \<le> ?t" by (simp add: word_le_nat_alt)
  have "stuck p (s\<lparr>TmrCurTick := ?t\<rparr>)"
    using assms w by (simp add: stuck_def rt_ok_def rt_list_def)
  then have "update_loop (quiet g) (w, s\<lparr>TmrCurTick := ?t\<rparr>) \<noteq> Some ws" for ws
    using update_loop_diverges [of "quiet g" "(w, s\<lparr>TmrCurTick := ?t\<rparr>)" ws g p] by auto
  then show ?thesis by (cases "rt_tmr_update (quiet g) (w, s)") (auto simp: rt_tmr_update_def)
qed

definition lone_timer :: rt_tmr where
  "lone_timer = \<lparr>tmr = (\<lambda>p. \<lparr>pnext = 0, pprev = 0, tmr_type = E_RT_TMR_TYPE_PERIODIC, period = 1000,
       counter = 0xfffffff0, tmr_state = (if p = 8 then E_RT_TMR_STATE_RUNNING else E_RT_TMR_STATE_INIT),
       cbFnct = 900, cbArg = 0\<rparr>),
     pTmrListHead = 8, pTmrListTail = 8, TmrListQty = 1, TmrCurTick = 0xffffffef\<rparr>"

theorem rt_tmr_update_wrap_diverges_witness:
  "rt_tmr_update (quiet (\<lambda>_ _ n. n + 1)) (0 :: nat, lone_timer) = None"
proof -
  have "rt_ok lone_timer [8]" by (auto simp: rt_ok_def rt_list_def lone_timer_def)
  from rt_tmr_update_wrap_diverges [OF this] show ?thesis by (simp add: lone_timer_def)
qed

end
