(* ===== verification/Linkaddr.thy ===== *)
theory Linkaddr
  imports Emb6_Prelude
begin

section \<open>Link-layer addresses (dll/dllc/linkaddr.c)\<close>

text \<open>
  An address is a list of \<open>LINKADDR_SIZE\<close> bytes. Copying overwrites and comparing reads this many, whatever the length of the lists.
\<close>

type_synonym linkaddr = "u8 list"

definition LINKADDR_SIZE :: nat where "LINKADDR_SIZE = 8"

definition linkaddr_copy :: "linkaddr \<Rightarrow> linkaddr \<Rightarrow> linkaddr" where
  "linkaddr_copy dest src = fold (\<lambda>i d. d[i := src ! i]) [0..<LINKADDR_SIZE] dest"

definition linkaddr_cmp :: "linkaddr \<Rightarrow> linkaddr \<Rightarrow> bool" where
  "linkaddr_cmp a b \<longleftrightarrow> (\<forall>i \<in> set [0..<LINKADDR_SIZE]. a ! i = b ! i)"

definition linkaddr_null :: linkaddr where "linkaddr_null = replicate LINKADDR_SIZE 0"

definition linkaddr_set_node_addr :: "linkaddr \<Rightarrow> linkaddr \<Rightarrow> linkaddr" where
  "linkaddr_set_node_addr linkaddr_node_addr t = linkaddr_copy linkaddr_node_addr t"

lemma linkaddr_cmp_eq:
  "length a = LINKADDR_SIZE \<Longrightarrow> length b = LINKADDR_SIZE \<Longrightarrow> linkaddr_cmp a b \<longleftrightarrow> a = b"
  by (auto simp: linkaddr_cmp_def list_eq_iff_nth_eq)

lemma linkaddr_copy_take:
  "k \<le> length d \<Longrightarrow> length s = length d \<Longrightarrow> fold (\<lambda>i d. d[i := s ! i]) [0..<k] d = take k s @ drop k d"
proof (induction k)
  case (Suc k)
  have "(take k s @ drop k d)[k := s ! k] = take (Suc k) s @ drop (Suc k) d"
    using Suc.prems by (simp add: take_Suc_conv_app_nth list_update_append Cons_nth_drop_Suc [symmetric])
  with Suc show ?case by simp
qed simp

lemma linkaddr_copy_eq:
  "length d = LINKADDR_SIZE \<Longrightarrow> length s = LINKADDR_SIZE \<Longrightarrow> linkaddr_copy d s = s"
  by (simp add: linkaddr_copy_def linkaddr_copy_take)

end
