(* ===== verification/Bytemem.thy ===== *)
theory Bytemem
  imports Emb6_Prelude
begin

section \<open>Byte-addressed memory\<close>

text \<open>
  The memory the string and packet handling functions work on: a partial map from addresses to bytes. An access to
  an address that is not in the map is the result \<open>None\<close> of the function that does it.
\<close>

type_synonym mem = "ptr \<Rightarrow> u8 option"

definition store :: "mem \<Rightarrow> ptr \<Rightarrow> u8 \<Rightarrow> mem option" where
  "store m p v = (if m p = None then None else Some (m(p \<mapsto> v)))"

fun store_list :: "mem \<Rightarrow> ptr \<Rightarrow> u8 list \<Rightarrow> mem option" where
  "store_list m p [] = Some m"
| "store_list m p (v # vs) = do { m \<leftarrow> store m p v; store_list m (Suc p) vs }"

fun load_list :: "mem \<Rightarrow> ptr \<Rightarrow> nat \<Rightarrow> u8 list option" where
  "load_list m p 0 = Some []"
| "load_list m p (Suc n) = do { v \<leftarrow> m p; vs \<leftarrow> load_list m (Suc p) n; Some (v # vs) }"

definition memmove :: "mem \<Rightarrow> ptr \<Rightarrow> ptr \<Rightarrow> nat \<Rightarrow> mem option" where
  "memmove m dst src n = do { vs \<leftarrow> load_list m src n; store_list m dst vs }"

partial_function (option) strlen :: "mem \<Rightarrow> ptr \<Rightarrow> nat option" where
  "strlen m p = do { c \<leftarrow> m p; if c = 0 then Some 0 else do { n \<leftarrow> strlen m (Suc p); Some (Suc n) } }"

text \<open>The first occurrence of a character in a string, or the null pointer.\<close>

partial_function (option) strchr :: "mem \<Rightarrow> ptr \<Rightarrow> u8 \<Rightarrow> ptr option" where
  "strchr m p ch = do { c \<leftarrow> m p; if c = ch then Some p else if c = 0 then Some NULL else strchr m (Suc p) ch }"

text \<open>The first occurrence of a byte among \<open>n\<close> bytes, or the null pointer.\<close>

fun memchr :: "mem \<Rightarrow> ptr \<Rightarrow> u8 \<Rightarrow> nat \<Rightarrow> ptr option" where
  "memchr m p ch 0 = Some NULL"
| "memchr m p ch (Suc n) = do { c \<leftarrow> m p; if c = ch then Some p else memchr m (Suc p) ch n }"

text \<open>Whether \<open>strncmp\<close> returns 0.\<close>

fun strncmp_eq :: "mem \<Rightarrow> ptr \<Rightarrow> ptr \<Rightarrow> nat \<Rightarrow> bool option" where
  "strncmp_eq m p q 0 = Some True"
| "strncmp_eq m p q (Suc n) = do {
     a \<leftarrow> m p;
     b \<leftarrow> m q;
     if a \<noteq> b then Some False else if a = 0 then Some True else strncmp_eq m (Suc p) (Suc q) n
   }"

declare strlen.simps [simp del] strchr.simps [simp del]

subsection \<open>Contents of the memory\<close>

definition bytes_at :: "mem \<Rightarrow> ptr \<Rightarrow> u8 list \<Rightarrow> bool" where
  "bytes_at m p vs \<longleftrightarrow> (\<forall>i < length vs. m (p + i) = Some (vs ! i))"

definition accessible :: "mem \<Rightarrow> ptr \<Rightarrow> nat \<Rightarrow> bool" where
  "accessible m p n \<longleftrightarrow> (\<forall>i < n. m (p + i) \<noteq> None)"

definition cstring :: "mem \<Rightarrow> ptr \<Rightarrow> u8 list \<Rightarrow> bool" where
  "cstring m p s \<longleftrightarrow> bytes_at m p (s @ [0]) \<and> 0 \<notin> set s"

lemma bytes_at_Nil [simp]: "bytes_at m p []"
  by (simp add: bytes_at_def)

lemma bytes_at_Cons: "bytes_at m p (v # vs) \<longleftrightarrow> m p = Some v \<and> bytes_at m (Suc p) vs"
proof
  assume a: "bytes_at m p (v # vs)"
  have "m (p + 0) = Some ((v # vs) ! 0)" using a [unfolded bytes_at_def, rule_format, of 0] by simp
  moreover have "m (Suc p + i) = Some (vs ! i)" if "i < length vs" for i
    using a [unfolded bytes_at_def, rule_format, of "Suc i"] that by simp
  ultimately show "m p = Some v \<and> bytes_at m (Suc p) vs" by (simp add: bytes_at_def)
next
  assume "m p = Some v \<and> bytes_at m (Suc p) vs"
  then show "bytes_at m p (v # vs)" by (auto simp: bytes_at_def nth_Cons split: nat.split)
qed

lemma bytes_at_append: "bytes_at m p (xs @ ys) \<longleftrightarrow> bytes_at m p xs \<and> bytes_at m (p + length xs) ys"
  by (induction xs arbitrary: p) (simp_all add: bytes_at_Cons)

lemma bytes_at_take: "bytes_at m p bs \<Longrightarrow> bytes_at m p (take k bs)"
  by (simp add: bytes_at_def)

lemma bytes_at_drop: "bytes_at m p bs \<Longrightarrow> k \<le> length bs \<Longrightarrow> bytes_at m (p + k) (drop k bs)"
  using bytes_at_append [of m p "take k bs" "drop k bs"] by simp

lemma bytes_at_unique: "bytes_at m p xs \<Longrightarrow> bytes_at m p ys \<Longrightarrow> length xs = length ys \<Longrightarrow> xs = ys"
  by (auto simp: bytes_at_def list_eq_iff_nth_eq)

lemma load_list_bytes: "load_list m p n = Some vs \<longleftrightarrow> bytes_at m p vs \<and> length vs = n"
proof (induction n arbitrary: p vs)
  case (Suc n)
  show ?case
  proof (cases vs)
    case Nil then show ?thesis by (auto split: Option.bind_splits)
  next
    case (Cons v ws)
    show ?thesis
    proof (cases "load_list m (Suc p) n")
      case None
      then show ?thesis using Suc.IH [of "Suc p" ws] Cons by (auto simp: bytes_at_Cons split: Option.bind_splits)
    next
      case (Some us)
      then show ?thesis using Suc.IH [of "Suc p" ws] Cons by (auto simp: bytes_at_Cons split: Option.bind_splits)
    qed
  qed
qed auto

lemma load_list_same: "(\<And>i. i < n \<Longrightarrow> m' (p + i) = m (p + i)) \<Longrightarrow> load_list m' p n = load_list m p n"
proof (induction n arbitrary: p)
  case (Suc n)
  have "m' p = m p" using Suc.prems [of 0] by simp
  moreover have "load_list m' (Suc p) n = load_list m (Suc p) n"
    using Suc.prems [of "Suc _"] by (intro Suc.IH) simp
  ultimately show ?case by simp
qed simp

lemma accessible_0 [simp]: "accessible m p 0"
  by (simp add: accessible_def)

lemma accessible_add: "accessible m p (n + k) \<longleftrightarrow> accessible m p n \<and> accessible m (p + n) k"
proof
  assume a: "accessible m p (n + k)"
  have "m (p + n + i) \<noteq> None" if "i < k" for i
    using a [unfolded accessible_def, rule_format, of "n + i"] that by (simp add: add.assoc)
  then show "accessible m p n \<and> accessible m (p + n) k" using a by (simp add: accessible_def)
next
  assume a: "accessible m p n \<and> accessible m (p + n) k"
  have "m (p + i) \<noteq> None" if "i < n + k" for i
  proof (cases "i < n")
    case False
    then have "i - n < k" using that by simp
    then have "m (p + n + (i - n)) \<noteq> None" using a unfolding accessible_def by blast
    then show ?thesis using False by simp
  qed (use a in \<open>simp add: accessible_def\<close>)
  then show "accessible m p (n + k)" by (simp add: accessible_def)
qed

lemma accessible_mono: "accessible m p n \<Longrightarrow> q + k \<le> p + n \<Longrightarrow> p \<le> q \<Longrightarrow> accessible m q k"
proof -
  assume a: "accessible m p n" "q + k \<le> p + n" "p \<le> q"
  have "m (q + i) \<noteq> None" if "i < k" for i
    using a(1) [unfolded accessible_def, rule_format, of "q - p + i"] a(2,3) that by simp
  then show ?thesis by (simp add: accessible_def)
qed

lemma accessible_Suc: "accessible m p (Suc n) \<longleftrightarrow> m p \<noteq> None \<and> accessible m (Suc p) n"
  using accessible_add [of m p 1 n] by (simp add: accessible_def)

lemma accessible_load: "accessible m p n \<Longrightarrow> \<exists>vs. load_list m p n = Some vs"
proof (induction n arbitrary: p)
  case (Suc n)
  then have "m p \<noteq> None" "accessible m (Suc p) n" by (simp_all add: accessible_Suc)
  moreover from this(2) obtain vs where "load_list m (Suc p) n = Some vs" using Suc.IH by blast
  ultimately show ?case by auto
qed simp

text \<open>What storing a list of bytes does.\<close>

definition put :: "mem \<Rightarrow> ptr \<Rightarrow> u8 list \<Rightarrow> mem" where
  "put m p vs = (\<lambda>q. if p \<le> q \<and> q < p + length vs then Some (vs ! (q - p)) else m q)"

lemma put_Nil [simp]: "put m p [] = m"
  by (rule ext) (auto simp: put_def)

lemma put_Cons: "put m p (v # vs) = put (m(p \<mapsto> v)) (Suc p) vs"
proof (rule ext)
  fix q
  consider "q < p" | "q = p" | "p < q" by linarith
  then show "put m p (v # vs) q = put (m(p \<mapsto> v)) (Suc p) vs q"
  proof cases
    case 3
    then have "q - p = Suc (q - Suc p)" by simp
    then show ?thesis using 3 by (simp add: put_def)
  qed (simp_all add: put_def)
qed

lemma put_append: "put m p (xs @ ys) = put (put m p xs) (p + length xs) ys"
  by (induction xs arbitrary: m p) (simp_all add: put_Cons)

lemma store_list_put: "accessible m p (length vs) \<Longrightarrow> store_list m p vs = Some (put m p vs)"
proof (induction vs arbitrary: m p)
  case (Cons v vs)
  have "accessible (m(p \<mapsto> v)) (Suc p) (length vs)" using Cons.prems by (auto simp: accessible_def)
  with Cons show ?case by (auto simp: store_def put_Cons accessible_Suc)
qed simp

lemma store_list_None: "\<not> accessible m p (length vs) \<Longrightarrow> store_list m p vs = None"
proof (induction vs arbitrary: m p)
  case (Cons v vs)
  show ?case
  proof (cases "m p")
    case (Some w)
    then have "\<not> accessible m (Suc p) (length vs)" using Cons.prems by (simp add: accessible_Suc)
    then have "\<not> accessible (m(p \<mapsto> v)) (Suc p) (length vs)" by (simp add: accessible_def)
    then show ?thesis using Some Cons.IH by (simp add: store_def)
  qed (simp add: store_def)
qed simp

lemma store_put: "m p \<noteq> None \<Longrightarrow> store m p v = Some (put m p [v])"
  by (simp add: store_def put_Cons)

lemma accessible_put [simp]: "accessible (put m p vs) q n \<longleftrightarrow> accessible m q n" if "accessible m p (length vs)"
proof -
  have "put m p vs r = None \<longleftrightarrow> m r = None" for r
  proof (cases "p \<le> r \<and> r < p + length vs")
    case True
    then have "m (p + (r - p)) \<noteq> None" using that unfolding accessible_def by (metis le_add_diff_inverse nat_add_left_cancel_less)
    then show ?thesis using True by (simp add: put_def)
  qed (auto simp: put_def)
  then show ?thesis by (simp add: accessible_def)
qed

lemma put_outside: "q < p \<or> p + length vs \<le> q \<Longrightarrow> put m p vs q = m q"
  by (auto simp: put_def)

lemma put_inside: "i < length vs \<Longrightarrow> put m p vs (p + i) = Some (vs ! i)"
  by (simp add: put_def)

lemma bytes_at_put: "bytes_at (put m p vs) p vs"
  by (simp add: bytes_at_def put_inside)

lemma bytes_at_put_outside:
  "q + length xs \<le> p \<or> p + length vs \<le> q \<Longrightarrow> bytes_at (put m p vs) q xs \<longleftrightarrow> bytes_at m q xs"
proof -
  assume a: "q + length xs \<le> p \<or> p + length vs \<le> q"
  have "put m p vs (q + i) = m (q + i)" if "i < length xs" for i using a that by (intro put_outside) linarith
  then show ?thesis by (simp add: bytes_at_def)
qed

lemma load_list_put_outside: "q + n \<le> p \<or> p + length vs \<le> q \<Longrightarrow> load_list (put m p vs) q n = load_list m q n"
  by (intro load_list_same put_outside) linarith

lemma bytes_at_accessible: "bytes_at m p vs \<Longrightarrow> accessible m p (length vs)"
  by (auto simp: bytes_at_def accessible_def)

lemma memmove_put:
  assumes "accessible m dst n" and "accessible m src n"
  shows "\<exists>vs. bytes_at m src vs \<and> length vs = n \<and> memmove m dst src n = Some (put m dst vs)"
proof -
  obtain vs where v: "load_list m src n = Some vs" using accessible_load [OF assms(2)] by blast
  then have "bytes_at m src vs" "length vs = n" using load_list_bytes by blast+
  then show ?thesis using assms(1) v by (auto simp: memmove_def store_list_put)
qed

subsection \<open>C strings\<close>

lemma cstring_Nil: "cstring m p [] \<longleftrightarrow> m p = Some 0"
  by (auto simp: cstring_def bytes_at_Cons)

lemma cstring_Cons: "cstring m p (c # s) \<longleftrightarrow> m p = Some c \<and> c \<noteq> 0 \<and> cstring m (Suc p) s"
  by (auto simp: cstring_def bytes_at_Cons)

lemma strlen_cstring: "cstring m p s \<Longrightarrow> strlen m p = Some (length s)"
  by (induction s arbitrary: p) (simp_all add: cstring_Nil cstring_Cons strlen.simps)

lemma strchr_cstring:
  "cstring m p s \<Longrightarrow> ch \<noteq> 0 \<Longrightarrow>
    strchr m p ch = Some (if ch \<in> set s then p + length (takeWhile (\<lambda>c. c \<noteq> ch) s) else NULL)"
  by (induction s arbitrary: p) (auto simp: cstring_Nil cstring_Cons strchr.simps)

lemma cstring_drop: "cstring m p s \<Longrightarrow> k \<le> length s \<Longrightarrow> cstring m (p + k) (drop k s)"
proof -
  assume a: "cstring m p s" "k \<le> length s"
  have "bytes_at m p (take k s @ (drop k s @ [0]))" using a(1) unfolding cstring_def append_assoc [symmetric] append_take_drop_id by blast
  then have "bytes_at m (p + k) (drop k s @ [0])" unfolding bytes_at_append using a(2) by (simp add: bytes_at_append min_absorb2)
  then show ?thesis using a(1) set_drop_subset [of k s] unfolding cstring_def by blast
qed

lemma memchr_bytes:
  "bytes_at m p s \<Longrightarrow> n = length s \<Longrightarrow>
    memchr m p ch n = Some (if ch \<in> set s then p + length (takeWhile (\<lambda>c. c \<noteq> ch) s) else NULL)"
  by (induction s arbitrary: p n) (auto simp: bytes_at_Cons)

lemma strncmp_bytes:
  "bytes_at m p xs \<Longrightarrow> bytes_at m q ys \<Longrightarrow> length xs = n \<Longrightarrow> length ys = n \<Longrightarrow> 0 \<notin> set xs \<Longrightarrow>
    strncmp_eq m p q n = Some (xs = ys)"
proof (induction xs arbitrary: p q ys n)
  case (Cons x xs)
  then obtain y zs where ys: "ys = y # zs" by (cases ys) auto
  with Cons show ?case by (auto simp: bytes_at_Cons)
qed simp

subsection \<open>Sample memories\<close>

definition mem_of :: "ptr \<Rightarrow> u8 list \<Rightarrow> mem" where
  "mem_of p bs = put (\<lambda>_. Some 0) p bs"

lemma bytes_at_mem_of: "bytes_at (mem_of p bs) p bs"
  by (simp add: mem_of_def bytes_at_put)

lemma accessible_mem_of: "accessible (mem_of p bs) q n"
  by (simp add: mem_of_def accessible_def put_def)

lemma cstring_mem_of: "0 \<notin> set s \<Longrightarrow> cstring (mem_of p s) p s"
  by (simp add: cstring_def bytes_at_append bytes_at_mem_of bytes_at_Cons) (simp add: mem_of_def put_def)

end
