(* ===== verification/Nbr_Table.thy ===== *)
theory Nbr_Table
  imports Clist Memb Linkaddr Bytemem
begin

section \<open>Neighbour tables (net/ipv6/nbr-table.c)\<close>

text \<open>
  Several modules keep an array with one item for every neighbour. They share the keys: link-layer addresses on a linked list, from a
  pool of blocks, and two maps of bits, which say for every neighbour which tables use it and which lock it. The index of a block in the pool
  is the index of the neighbour in every array. When the pool is used up, a neighbour is evicted: one that a policy names, or the oldest of those
  that the fewest tables use, among those that no table locks.

  The tables are in a store of records, their items in byte-addressed memory, the rest of the system is the field \<open>nt_world\<close>. The
  callbacks and the policy are arguments. Reading a map outside of its bounds, and a loop that does not end, are \<open>None\<close>.
\<close>

subsection \<open>State\<close>

definition NBR_TABLE_MAX_NEIGHBORS :: nat where "NBR_TABLE_MAX_NEIGHBORS = 10"
definition MAX_NUM_TABLES :: nat where "MAX_NUM_TABLES = 8"

record nbr_table =
  nt_index :: nat
  nt_item_size :: nat
  nt_callback :: ptr
  nt_data :: ptr

record 'w nbr_tables =
  used_map :: "u8 list"
  locked_map :: "u8 list"
  all_tables :: "ptr list"
  num_tables :: nat
  neighbor_addr_mem :: memb
  nbr_table_keys :: clist
  key_lladdr :: "ptr \<Rightarrow> linkaddr"
  tables :: "ptr \<Rightarrow> nbr_table"
  nt_mem :: mem
  nt_world :: 'w

record 'w nt_env =
  env_callback :: "ptr \<Rightarrow> ptr \<Rightarrow> 'w nbr_tables \<Rightarrow> 'w nbr_tables"
  env_find_removable :: "('w nbr_tables \<Rightarrow> linkaddr option) option"

subsection \<open>Indices, keys and items\<close>

definition key_from_index :: "'w nbr_tables \<Rightarrow> int \<Rightarrow> ptr" where
  "key_from_index s i = (if i \<noteq> -1 then block_addr (neighbor_addr_mem s) (nat i) else NULL)"

definition item_from_index :: "'w nbr_tables \<Rightarrow> ptr \<Rightarrow> int \<Rightarrow> ptr" where
  "item_from_index s t i =
     (if t \<noteq> NULL \<and> i \<noteq> -1 then nt_data (tables s t) + nat i * nt_item_size (tables s t) else NULL)"

definition index_from_key :: "'w nbr_tables \<Rightarrow> ptr \<Rightarrow> int" where
  "index_from_key s key =
     (if key \<noteq> NULL then (int key - int (m_mem (neighbor_addr_mem s))) div int (m_size (neighbor_addr_mem s)) else -1)"

definition index_from_item :: "'w nbr_tables \<Rightarrow> ptr \<Rightarrow> ptr \<Rightarrow> int" where
  "index_from_item s t item =
     (if t \<noteq> NULL \<and> item \<noteq> NULL then (int item - int (nt_data (tables s t))) div int (nt_item_size (tables s t)) else -1)"

definition item_from_key :: "'w nbr_tables \<Rightarrow> ptr \<Rightarrow> ptr \<Rightarrow> ptr" where
  "item_from_key s t key = item_from_index s t (index_from_key s key)"

definition key_from_item :: "'w nbr_tables \<Rightarrow> ptr \<Rightarrow> ptr \<Rightarrow> ptr" where
  "key_from_item s t item = key_from_index s (index_from_item s t item)"

partial_function (option) lladdr_loop :: "'w nbr_tables \<Rightarrow> linkaddr \<Rightarrow> ptr \<Rightarrow> int option" where
  "lladdr_loop s lladdr key =
     (if key = NULL then Some (-1)
      else if linkaddr_cmp lladdr (key_lladdr s key) then Some (index_from_key s key)
      else lladdr_loop s lladdr (list_item_next (nbr_table_keys s) key))"

definition or_null_addr :: "linkaddr option \<Rightarrow> linkaddr" where
  "or_null_addr lladdr = (case lladdr of None \<Rightarrow> linkaddr_null | Some a \<Rightarrow> a)"

definition index_from_lladdr :: "'w nbr_tables \<Rightarrow> linkaddr option \<Rightarrow> int option" where
  "index_from_lladdr s lladdr = lladdr_loop s (or_null_addr lladdr) (list_head (nbr_table_keys s))"

text \<open>An entry of a map, and a map with an entry changed.\<close>

definition map_at :: "u8 list \<Rightarrow> int \<Rightarrow> u8 option" where
  "map_at bitmap i = (if 0 \<le> i \<and> i < int (length bitmap) then Some (bitmap ! nat i) else None)"

definition nbr_get_bit :: "u8 list \<Rightarrow> 'w nbr_tables \<Rightarrow> ptr \<Rightarrow> ptr \<Rightarrow> bool option" where
  "nbr_get_bit bitmap s t item =
     (let item_index = index_from_item s t item
      in if t \<noteq> NULL \<and> item_index \<noteq> -1 then do {
           b \<leftarrow> map_at bitmap item_index;
           Some (b AND push_bit (nt_index (tables s t)) 1 \<noteq> 0)
         } else Some False)"

definition nbr_set_bit :: "u8 list \<Rightarrow> 'w nbr_tables \<Rightarrow> ptr \<Rightarrow> ptr \<Rightarrow> bool \<Rightarrow> (int \<times> u8 list) option" where
  "nbr_set_bit bitmap s t item value =
     (let item_index = index_from_item s t item
      in if t \<noteq> NULL \<and> item_index \<noteq> -1 then do {
           b \<leftarrow> map_at bitmap item_index;
           let bit = push_bit (nt_index (tables s t)) 1;
           Some (1, bitmap[nat item_index := (if value then b OR bit else b AND NOT bit)])
         } else Some (0, bitmap))"

subsection \<open>Removing a neighbour\<close>

text \<open>The loop over the tables; a table without a callback is skipped.\<close>

fun callbacks_loop :: "'w nt_env \<Rightarrow> ptr \<Rightarrow> nat list \<Rightarrow> 'w nbr_tables \<Rightarrow> 'w nbr_tables option" where
  "callbacks_loop e key [] s = Some s"
| "callbacks_loop e key (i # is) s = do {
     let t = all_tables s ! i;
     s \<leftarrow> (if t \<noteq> NULL \<and> nt_callback (tables s t) \<noteq> NULL then do {
            let removed_item = item_from_key s t key;
            used \<leftarrow> nbr_get_bit (used_map s) s t removed_item;
            Some (if used then env_callback e (nt_callback (tables s t)) removed_item s else s)
          } else Some s);
     callbacks_loop e key is s
   }"

definition remove_key :: "'w nt_env \<Rightarrow> ptr \<Rightarrow> 'w nbr_tables \<Rightarrow> 'w nbr_tables option" where
  "remove_key e least_used_key s = do {
     s \<leftarrow> callbacks_loop e least_used_key [0..<MAX_NUM_TABLES] s;
     _ \<leftarrow> map_at (used_map s) (index_from_key s least_used_key);
     let s = s\<lparr>used_map := (used_map s)[nat (index_from_key s least_used_key) := 0]\<rparr>;
     keys \<leftarrow> list_remove (nbr_table_keys s) least_used_key;
     Some (s\<lparr>nbr_table_keys := keys\<rparr>)
   }"

text \<open>How many tables use a neighbour: the loop over the bits.\<close>

function count_bits :: "nat \<Rightarrow> nat \<Rightarrow> nat" where
  "count_bits used used_count =
     (if used \<noteq> 0 then count_bits (used div 2) (if used mod 2 = 1 then used_count + 1 else used_count) else used_count)"
  by pat_completeness auto
termination by (relation "measure fst") auto

declare count_bits.simps [simp del]

partial_function (option) least_used_loop :: "'w nbr_tables \<Rightarrow> ptr \<Rightarrow> nat \<Rightarrow> ptr \<Rightarrow> ptr option" where
  "least_used_loop s least_used_key least_used_count key =
     (if key = NULL then Some least_used_key
      else do {
        locked \<leftarrow> map_at (locked_map s) (index_from_key s key);
        if locked = 0 then do {
          used \<leftarrow> map_at (used_map s) (index_from_key s key);
          let used_count = count_bits (unat used) 0;
          if least_used_key = NULL \<or> used_count < least_used_count then
            if used_count = 0 then Some key
            else least_used_loop s key used_count (list_item_next (nbr_table_keys s) key)
          else least_used_loop s least_used_key least_used_count (list_item_next (nbr_table_keys s) key)
        } else least_used_loop s least_used_key least_used_count (list_item_next (nbr_table_keys s) key)
      })"

text \<open>What the policy names: failure, or a key, whose locks are opened, or nothing that is in the table.\<close>

definition policy_key :: "'w nt_env \<Rightarrow> 'w nbr_tables \<Rightarrow> ((ptr \<times> 'w nbr_tables) option) option" where
  "policy_key e s =
     (case env_find_removable e of
        None \<Rightarrow> Some (Some (NULL, s))
      | Some find_removable \<Rightarrow>
          (case find_removable s of
             None \<Rightarrow> Some None
           | Some lladdr \<Rightarrow> do {
               index \<leftarrow> index_from_lladdr s (Some lladdr);
               if index \<noteq> -1 then do {
                 locked \<leftarrow> map_at (locked_map s) index;
                 Some (Some (key_from_index s index,
                   if key_from_index s index \<noteq> NULL \<and> locked \<noteq> 0 then s\<lparr>locked_map := (locked_map s)[nat index := 0]\<rparr> else s))
               } else Some (Some (NULL, s))
             }))"

definition nbr_table_allocate :: "'w nt_env \<Rightarrow> 'w nbr_tables \<Rightarrow> (ptr \<times> 'w nbr_tables) option" where
  "nbr_table_allocate e s =
     (let (key, m) = memb_alloc (neighbor_addr_mem s); s = s\<lparr>neighbor_addr_mem := m\<rparr>
      in if key \<noteq> NULL then Some (key, s) else do {
        named \<leftarrow> policy_key e s;
        case named of
          None \<Rightarrow> Some (NULL, s)
        | Some (key, s) \<Rightarrow> do {
            least_used_key \<leftarrow> (if key = NULL then least_used_loop s NULL 0 (list_head (nbr_table_keys s)) else Some key);
            if least_used_key = NULL then Some (NULL, s)
            else do {
              s \<leftarrow> remove_key e least_used_key s;
              Some (least_used_key, s)
            }
          }
      })"

subsection \<open>Operations\<close>

definition nbr_table_init :: "'w nbr_tables \<Rightarrow> 'w nbr_tables" where
  "nbr_table_init s = s\<lparr>used_map := replicate NBR_TABLE_MAX_NEIGHBORS 0, locked_map := replicate NBR_TABLE_MAX_NEIGHBORS 0,
     all_tables := replicate MAX_NUM_TABLES NULL, num_tables := 0,
     neighbor_addr_mem := memb_init (neighbor_addr_mem s), nbr_table_keys := list_init (nbr_table_keys s)\<rparr>"

definition nbr_table_register :: "ptr \<Rightarrow> ptr \<Rightarrow> 'w nbr_tables \<Rightarrow> int \<times> 'w nbr_tables" where
  "nbr_table_register t callback s =
     (if num_tables s < MAX_NUM_TABLES
      then (1, s\<lparr>tables := (tables s)(t := (tables s t)\<lparr>nt_index := num_tables s, nt_callback := callback\<rparr>),
                 num_tables := num_tables s + 1, all_tables := (all_tables s)[num_tables s := t]\<rparr>)
      else (0, s))"

partial_function (option) nbr_table_next :: "'w nbr_tables \<Rightarrow> ptr \<Rightarrow> ptr \<Rightarrow> ptr option" where
  "nbr_table_next s t item = do {
     let key = key_from_item s t item;
     let key = list_item_next (nbr_table_keys s) key;
     let item = item_from_key s t key;
     used \<leftarrow> nbr_get_bit (used_map s) s t item;
     if item \<noteq> NULL \<and> \<not> used then nbr_table_next s t item else Some item
   }"

definition nbr_table_head :: "'w nbr_tables \<Rightarrow> ptr \<Rightarrow> ptr option" where
  "nbr_table_head s t = do {
     let item = item_from_key s t (list_head (nbr_table_keys s));
     used \<leftarrow> nbr_get_bit (used_map s) s t item;
     if used then Some item else nbr_table_next s t item
   }"

definition nbr_table_add_lladdr :: "'w nt_env \<Rightarrow> ptr \<Rightarrow> linkaddr option \<Rightarrow> 'w nbr_tables \<Rightarrow> (ptr \<times> 'w nbr_tables) option" where
  "nbr_table_add_lladdr e t lladdr s = do {
     let lladdr = or_null_addr lladdr;
     index \<leftarrow> index_from_lladdr s (Some lladdr);
     (index, s) \<leftarrow> (if index = -1 then do {
            (key, s) \<leftarrow> nbr_table_allocate e s;
            if key = NULL then Some (-1, s)
            else do {
              keys \<leftarrow> list_add (nbr_table_keys s) key;
              let s = s\<lparr>nbr_table_keys := keys\<rparr>;
              Some (index_from_key s key, s\<lparr>key_lladdr := (key_lladdr s)(key := linkaddr_copy (key_lladdr s key) lladdr)\<rparr>)
            }
          } else Some (index, s));
     if index = -1 then Some (NULL, s)
     else do {
       let item = item_from_index s t index;
       m \<leftarrow> store_list (nt_mem s) item (replicate (nt_item_size (tables s t)) 0);
       (_, used) \<leftarrow> nbr_set_bit (used_map s) s t item True;
       Some (item, s\<lparr>nt_mem := m, used_map := used\<rparr>)
     }
   }"

definition nbr_table_get_from_lladdr :: "'w nbr_tables \<Rightarrow> ptr \<Rightarrow> linkaddr option \<Rightarrow> ptr option" where
  "nbr_table_get_from_lladdr s t lladdr = do {
     index \<leftarrow> index_from_lladdr s lladdr;
     let item = item_from_index s t index;
     used \<leftarrow> nbr_get_bit (used_map s) s t item;
     Some (if used then item else NULL)
   }"

definition nbr_table_remove :: "ptr \<Rightarrow> ptr \<Rightarrow> 'w nbr_tables \<Rightarrow> (int \<times> 'w nbr_tables) option" where
  "nbr_table_remove t item s = do {
     (ret, used) \<leftarrow> nbr_set_bit (used_map s) s t item False;
     let s = s\<lparr>used_map := used\<rparr>;
     (_, locked) \<leftarrow> nbr_set_bit (locked_map s) s t item False;
     Some (ret, s\<lparr>locked_map := locked\<rparr>)
   }"

definition nbr_table_lock :: "ptr \<Rightarrow> ptr \<Rightarrow> 'w nbr_tables \<Rightarrow> (int \<times> 'w nbr_tables) option" where
  "nbr_table_lock t item s = do {
     (ret, locked) \<leftarrow> nbr_set_bit (locked_map s) s t item True;
     Some (ret, s\<lparr>locked_map := locked\<rparr>)
   }"

definition nbr_table_unlock :: "ptr \<Rightarrow> ptr \<Rightarrow> 'w nbr_tables \<Rightarrow> (int \<times> 'w nbr_tables) option" where
  "nbr_table_unlock t item s = do {
     (ret, locked) \<leftarrow> nbr_set_bit (locked_map s) s t item False;
     Some (ret, s\<lparr>locked_map := locked\<rparr>)
   }"

definition nbr_table_get_lladdr :: "'w nbr_tables \<Rightarrow> ptr \<Rightarrow> ptr \<Rightarrow> linkaddr option" where
  "nbr_table_get_lladdr s t item =
     (let key = key_from_item s t item in if key \<noteq> NULL then Some (key_lladdr s key) else None)"

definition nbr_table_update_lladdr :: "'w nt_env \<Rightarrow> linkaddr \<Rightarrow> linkaddr \<Rightarrow> bool \<Rightarrow> 'w nbr_tables \<Rightarrow> (int \<times> 'w nbr_tables) option" where
  "nbr_table_update_lladdr e old_addr new_addr remove_if_duplicate s = do {
     index \<leftarrow> index_from_lladdr s (Some old_addr);
     if index = -1 then Some (0, s)
     else do {
       new_index \<leftarrow> index_from_lladdr s (Some new_addr);
       if new_index \<noteq> -1 then
         if new_index = index then Some (1, s)
         else if remove_if_duplicate then do {
           s \<leftarrow> remove_key e (key_from_index s index) s;
           Some (0, s)
         } else Some (0, s)
       else do {
         let key = key_from_index s index;
         Some (1, s\<lparr>key_lladdr := (key_lladdr s)(key := take LINKADDR_SIZE new_addr)\<rparr>)
       }
     }
   }"

declare lladdr_loop.simps [simp del] least_used_loop.simps [simp del] nbr_table_next.simps [simp del]

subsection \<open>Well-formed tables\<close>

text \<open>
  \<open>nt_ok s is\<close>: the keys on the list are those of the neighbours with the indices \<open>is\<close>, from the oldest to the latest, with different
  addresses, and only they are used by a table.
\<close>

definition key_of :: "'w nbr_tables \<Rightarrow> nat \<Rightarrow> ptr" where
  "key_of s i = block_addr (neighbor_addr_mem s) i"

definition addr_of :: "'w nbr_tables \<Rightarrow> nat \<Rightarrow> linkaddr" where
  "addr_of s i = key_lladdr s (key_of s i)"

definition item_of :: "'w nbr_tables \<Rightarrow> ptr \<Rightarrow> nat \<Rightarrow> ptr" where
  "item_of s t i = nt_data (tables s t) + i * nt_item_size (tables s t)"

definition table_ok :: "'w nbr_tables \<Rightarrow> ptr \<Rightarrow> bool" where
  "table_ok s t \<longleftrightarrow> t \<noteq> NULL \<and> nt_index (tables s t) < MAX_NUM_TABLES \<and> 0 < nt_item_size (tables s t) \<and> nt_data (tables s t) \<noteq> NULL \<and>
     accessible (nt_mem s) (nt_data (tables s t)) (NBR_TABLE_MAX_NEIGHBORS * nt_item_size (tables s t))"

definition nt_ok :: "'w nbr_tables \<Rightarrow> nat list \<Rightarrow> bool" where
  "nt_ok s is \<longleftrightarrow>
     is_clist (nbr_table_keys s) (map (key_of s) is) \<and> memb_ok (neighbor_addr_mem s) \<and>
     m_num (neighbor_addr_mem s) = NBR_TABLE_MAX_NEIGHBORS \<and>
     length (used_map s) = NBR_TABLE_MAX_NEIGHBORS \<and> length (locked_map s) = NBR_TABLE_MAX_NEIGHBORS \<and> distinct is \<and>
     (\<forall>i \<in> set is. i < NBR_TABLE_MAX_NEIGHBORS \<and> m_count (neighbor_addr_mem s) ! i \<noteq> 0) \<and>
     (\<forall>i < NBR_TABLE_MAX_NEIGHBORS. length (addr_of s i) = LINKADDR_SIZE) \<and> inj_on (addr_of s) (set is) \<and>
     (\<forall>i < NBR_TABLE_MAX_NEIGHBORS. i \<notin> set is \<longrightarrow> used_map s ! i = 0) \<and>
     (\<forall>i < NBR_TABLE_MAX_NEIGHBORS. m_count (neighbor_addr_mem s) ! i = 0 \<longrightarrow> locked_map s ! i = 0) \<and>
     length (all_tables s) = MAX_NUM_TABLES \<and> (\<forall>t \<in> set (all_tables s). t \<noteq> NULL \<longrightarrow> table_ok s t)"

text \<open>
  What a callback may do: change the items and the rest of the system, take neighbours out of tables, and open or close the locks of
  neighbours that have a block, as the callbacks of the neighbour cache, of the routes and of RPL do by \<open>nbr_table_remove\<close>, \<open>nbr_table_unlock\<close>
  and \<open>nbr_table_lock\<close>. It adds no neighbour and registers no table.
\<close>

definition only_uses :: "'w nbr_tables \<Rightarrow> 'w nbr_tables \<Rightarrow> bool" where
  "only_uses s s' \<longleftrightarrow> all_tables s' = all_tables s \<and> num_tables s' = num_tables s \<and>
     neighbor_addr_mem s' = neighbor_addr_mem s \<and> nbr_table_keys s' = nbr_table_keys s \<and> key_lladdr s' = key_lladdr s \<and>
     tables s' = tables s \<and> length (used_map s') = length (used_map s) \<and> (\<forall>i < length (used_map s). used_map s ! i = 0 \<longrightarrow> used_map s' ! i = 0) \<and>
     length (locked_map s') = length (locked_map s) \<and>
     (\<forall>i < length (locked_map s). m_count (neighbor_addr_mem s) ! i = 0 \<longrightarrow> locked_map s ! i = 0 \<longrightarrow> locked_map s' ! i = 0) \<and>
     (\<forall>q n. accessible (nt_mem s) q n \<longrightarrow> accessible (nt_mem s') q n)"

definition env_ok :: "'w nt_env \<Rightarrow> bool" where
  "env_ok e \<longleftrightarrow> (\<forall>f p s. only_uses s (env_callback e f p s)) \<and>
     (\<forall>g s a. env_find_removable e = Some g \<longrightarrow> g s = Some a \<longrightarrow> length a = LINKADDR_SIZE)"

lemma only_uses_refl: "only_uses s s"
  by (simp add: only_uses_def)

lemma only_uses_fields:
  assumes "only_uses s s'"
  shows "length (locked_map s') = length (locked_map s)" "all_tables s' = all_tables s" "neighbor_addr_mem s' = neighbor_addr_mem s"
    "nbr_table_keys s' = nbr_table_keys s" "key_lladdr s' = key_lladdr s" "tables s' = tables s" "num_tables s' = num_tables s"
    "key_of s' = key_of s" "addr_of s' = addr_of s" "item_of s' = item_of s" "length (used_map s') = length (used_map s)"
  using assms by (simp_all add: only_uses_def fun_eq_iff key_of_def addr_of_def item_of_def)

lemma only_uses_trans: "only_uses s s' \<Longrightarrow> only_uses s' s'' \<Longrightarrow> only_uses s s''"
  by (simp add: only_uses_def)

lemma only_uses_table_ok: "only_uses s s' \<Longrightarrow> table_ok s t \<Longrightarrow> table_ok s' t"
  using only_uses_fields(6) [of s s'] by (simp add: table_ok_def only_uses_def)

lemma only_uses_nt_ok: 
  assumes "only_uses s s'" and "nt_ok s is"
  shows "nt_ok s' is"
proof -
  have "\<forall>t \<in> set (all_tables s). t \<noteq> NULL \<longrightarrow> table_ok s t" using assms(2) by (simp add: nt_ok_def)
  then have "\<forall>t \<in> set (all_tables s). t \<noteq> NULL \<longrightarrow> table_ok s' t" using only_uses_table_ok [OF assms(1)] by blast
  moreover have "\<forall>i < NBR_TABLE_MAX_NEIGHBORS. i \<notin> set is \<longrightarrow> used_map s' ! i = 0"
    using assms(2) assms(1) [unfolded only_uses_def] unfolding nt_ok_def by presburger
  moreover have "\<forall>i < NBR_TABLE_MAX_NEIGHBORS. m_count (neighbor_addr_mem s) ! i = 0 \<longrightarrow> locked_map s' ! i = 0"
    using assms(2) assms(1) [unfolded only_uses_def] unfolding nt_ok_def by presburger
  ultimately show ?thesis using assms(2) unfolding nt_ok_def only_uses_fields [OF assms(1)] by blast
qed

subsection \<open>Indices\<close>

lemma nt_ok_pool: "nt_ok s is \<Longrightarrow> memb_ok (neighbor_addr_mem s)"
  by (simp add: nt_ok_def)

lemma key_of_nonnull: "memb_ok (neighbor_addr_mem s) \<Longrightarrow> key_of s i \<noteq> NULL"
  by (simp add: key_of_def block_addr_nonnull)

lemma key_of_inj: "memb_ok (neighbor_addr_mem s) \<Longrightarrow> key_of s i = key_of s j \<longleftrightarrow> i = j"
  by (simp add: key_of_def block_addr_inj)

lemma key_from_index_of: "key_from_index s (int i) = key_of s i"
  by (simp add: key_from_index_def key_of_def)

lemma index_from_key_of: "memb_ok (neighbor_addr_mem s) \<Longrightarrow> index_from_key s (key_of s i) = int i"
  using key_of_nonnull [of s i] by (simp add: index_from_key_def key_of_def block_addr_def memb_ok_def)

lemma item_from_index_of: "t \<noteq> NULL \<Longrightarrow> item_from_index s t (int i) = item_of s t i"
  by (simp add: item_from_index_def item_of_def)

lemma item_of_nonnull: "table_ok s t \<Longrightarrow> item_of s t i \<noteq> NULL"
  by (simp add: table_ok_def item_of_def)

lemma index_from_item_of: "table_ok s t \<Longrightarrow> index_from_item s t (item_of s t i) = int i"
  using item_of_nonnull [of s t i] by (simp add: index_from_item_def item_of_def table_ok_def)

lemma item_from_key_of: "memb_ok (neighbor_addr_mem s) \<Longrightarrow> table_ok s t \<Longrightarrow> item_from_key s t (key_of s i) = item_of s t i"
  by (simp add: item_from_key_def index_from_key_of item_from_index_of table_ok_def)

lemma key_from_item_of: "table_ok s t \<Longrightarrow> key_from_item s t (item_of s t i) = key_of s i"
  by (simp add: key_from_item_def index_from_item_of key_from_index_of)

lemma item_from_key_null: "item_from_key s t NULL = NULL"
  by (simp add: item_from_key_def index_from_key_def item_from_index_def)

lemma key_from_item_null: "key_from_item s t NULL = NULL"
  by (simp add: key_from_item_def index_from_item_def key_from_index_def)

lemma map_at_int: "i < length b \<Longrightarrow> map_at b (int i) = Some (b ! i)"
  by (simp add: map_at_def)

lemma get_bit_of: "table_ok s t \<Longrightarrow> i < length b \<Longrightarrow> nbr_get_bit b s t (item_of s t i) = Some (bit (b ! i) (nt_index (tables s t)))"
  by (simp add: nbr_get_bit_def index_from_item_of map_at_int table_ok_def bit_iff_and_push_bit_not_eq_0)

lemma get_bit_null: "nbr_get_bit b s t NULL = Some False"
  by (simp add: nbr_get_bit_def index_from_item_def)

definition with_bit :: "nat \<Rightarrow> bool \<Rightarrow> u8 \<Rightarrow> u8" where
  "with_bit n v b = (if v then b OR push_bit n 1 else b AND NOT (push_bit n 1))"

lemma set_bit_of:
  "table_ok s t \<Longrightarrow> i < length b \<Longrightarrow>
   nbr_set_bit b s t (item_of s t i) v = Some (1, b[i := with_bit (nt_index (tables s t)) v (b ! i)])"
  by (simp add: nbr_set_bit_def index_from_item_of map_at_int table_ok_def with_bit_def)

lemma bit_with_bit: "n < 8 \<Longrightarrow> bit (with_bit n v b) k \<longleftrightarrow> (if k = n then v else bit b k)"
  by (auto simp: with_bit_def bit_or_iff bit_and_iff bit_not_iff bit_exp_iff dest: bit_imp_le_length)

subsection \<open>Walking along the list\<close>

lemma lladdr_loop_chain:
  assumes "memb_ok (neighbor_addr_mem s)"
  shows "chain (cl_next (nbr_table_keys s)) p (map (key_of s) is) \<Longrightarrow>
    lladdr_loop s a p = Some (case find (\<lambda>i. linkaddr_cmp a (addr_of s i)) is of None \<Rightarrow> -1 | Some i \<Rightarrow> int i)"
proof (induction "is" arbitrary: p)
  case Nil then show ?case by (subst lladdr_loop.simps) simp
next
  case (Cons i "is")
  then show ?case using key_of_nonnull [OF assms, of i] index_from_key_of [OF assms, of i]
    by (subst lladdr_loop.simps) (auto simp: list_item_next_def addr_of_def)
qed

lemma index_from_lladdr_eq:
  assumes "nt_ok s is" and "length (or_null_addr a) = LINKADDR_SIZE"
  shows "index_from_lladdr s a = Some (case find (\<lambda>i. addr_of s i = or_null_addr a) is of None \<Rightarrow> -1 | Some i \<Rightarrow> int i)"
proof -
  have "find (\<lambda>i. linkaddr_cmp (or_null_addr a) (addr_of s i)) is = find (\<lambda>i. addr_of s i = or_null_addr a) is"
    using assms by (intro find_cong) (auto simp: linkaddr_cmp_eq nt_ok_def)
  moreover have "chain (cl_next (nbr_table_keys s)) (list_head (nbr_table_keys s)) (map (key_of s) is)"
    using assms(1) by (simp add: list_head_def nt_ok_def is_clist_def)
  ultimately show ?thesis unfolding index_from_lladdr_def using lladdr_loop_chain [OF nt_ok_pool [OF assms(1)]] by metis
qed

lemma find_inj: "inj_on f (set xs) \<Longrightarrow> x \<in> set xs \<Longrightarrow> find (\<lambda>y. f y = f x) xs = Some x"
  by (induction xs) auto

lemma find_addr: "nt_ok s is \<Longrightarrow> i \<in> set is \<Longrightarrow> find (\<lambda>j. addr_of s j = addr_of s i) is = Some i"
  by (simp add: nt_ok_def find_inj)

lemma find_addr_none: "find (\<lambda>j. addr_of s j = a) is = None \<longleftrightarrow> a \<notin> addr_of s ` set is"
  by (auto simp: find_None_iff)

text \<open>The items of a table, in the order of the list.\<close>

definition items :: "'w nbr_tables \<Rightarrow> ptr \<Rightarrow> nat list \<Rightarrow> ptr list" where
  "items s t is = map (item_of s t) (filter (\<lambda>i. bit (used_map s ! i) (nt_index (tables s t))) is)"

definition first_or_null :: "ptr list \<Rightarrow> ptr" where
  "first_or_null ps = (case ps of [] \<Rightarrow> NULL | p # _ \<Rightarrow> p)"

lemma next_chain:
  assumes "memb_ok (neighbor_addr_mem s)" and "table_ok s t" and "\<forall>i \<in> set is. i < length (used_map s)"
    and "chain (cl_next (nbr_table_keys s)) (list_item_next (nbr_table_keys s) (key_from_item s t item)) (map (key_of s) is)"
  shows "nbr_table_next s t item = Some (first_or_null (items s t is))"
  using assms(3,4)
proof (induction "is" arbitrary: item)
  case Nil
  then show ?case
    by (subst nbr_table_next.simps) (simp add: item_from_key_null get_bit_null items_def first_or_null_def)
next
  case (Cons i "is")
  have k: "list_item_next (nbr_table_keys s) (key_from_item s t item) = key_of s i" using Cons.prems(2) by simp
  have n: "chain (cl_next (nbr_table_keys s)) (list_item_next (nbr_table_keys s) (key_from_item s t (item_of s t i))) (map (key_of s) is)"
    using Cons.prems(2) key_of_nonnull [OF assms(1), of i] by (simp add: key_from_item_of [OF assms(2)] list_item_next_def)
  show ?case
    using Cons.IH [OF _ n] Cons.prems(1) assms(1,2) item_of_nonnull [OF assms(2)]
    by (subst nbr_table_next.simps) (simp add: k item_from_key_of get_bit_of items_def first_or_null_def)
qed

subsection \<open>The neighbour to evict\<close>

lemma bits_of_nat: "{k. bit n k} = (if n mod 2 = 1 then {0} else {}) \<union> Suc ` {k. bit (n div 2) k}" for n :: nat
proof -
  have "bit n k \<longleftrightarrow> (k = 0 \<and> n mod 2 = 1) \<or> (\<exists>j. k = Suc j \<and> bit (n div 2) j)" for k
    by (cases k) (simp_all add: bit_0 odd_iff_mod_2_eq_one bit_Suc)
  then show ?thesis by auto
qed

lemma finite_bits: "finite {k. bit n k}" for n :: nat
proof (induction n rule: less_induct)
  case (less n)
  show ?case
  proof (cases "n = 0")
    case False
    then show ?thesis using less [of "n div 2"] by (subst bits_of_nat) simp
  qed simp
qed

lemma count_bits_card: "count_bits n c = c + card {k. bit n k}"
proof (induction n c rule: count_bits.induct)
  case (1 n c)
  show ?case
  proof (cases "n = 0")
    case True
    have e: "{k. bit (0 :: nat) k} = {}" by simp
    show ?thesis by (subst count_bits.simps) (simp only: True e card.empty simp_thms if_False add_0_right)
  next
    case False
    have "card {k. bit n k} = (if n mod 2 = 1 then 1 else 0) + card {k. bit (n div 2) k}"
      by (subst bits_of_nat, subst card_Un_disjoint) (simp_all add: finite_bits card_image)
    then show ?thesis using False 1 by (subst count_bits.simps) simp
  qed
qed

text \<open>The number of tables that use a neighbour.\<close>

definition uses :: "'w nbr_tables \<Rightarrow> nat \<Rightarrow> nat" where
  "uses s i = card {k. bit (used_map s ! i) k}"

lemma count_bits_uses: "count_bits (unat (used_map s ! i)) 0 = uses s i"
  by (simp add: count_bits_card uses_def bit_unsigned_iff)

text \<open>\<open>victim s is v\<close>: no table locks \<open>v\<close>, none of the others has fewer uses, and none of the older ones as few.\<close>

definition victim :: "'w nbr_tables \<Rightarrow> nat list \<Rightarrow> nat \<Rightarrow> bool" where
  "victim s is v \<longleftrightarrow> (\<exists>us vs. is = us @ v # vs \<and> locked_map s ! v = 0 \<and>
     (\<forall>u \<in> set us. locked_map s ! u = 0 \<longrightarrow> uses s v < uses s u) \<and> (\<forall>w \<in> set vs. locked_map s ! w = 0 \<longrightarrow> uses s v \<le> uses s w))"

lemma victim_in: "victim s is v \<Longrightarrow> v \<in> set is \<and> locked_map s ! v = 0"
  by (auto simp: victim_def)

lemma victim_least: "victim s is v \<Longrightarrow> w \<in> set is \<Longrightarrow> locked_map s ! w = 0 \<Longrightarrow> uses s v \<le> uses s w"
  unfolding victim_def using less_imp_le by fastforce

text \<open>The loop with the best neighbour so far, none at first.\<close>

lemma least_used_chain:
  assumes "memb_ok (neighbor_addr_mem s)" and "\<forall>i \<in> set (us @ is). i < length (used_map s) \<and> i < length (locked_map s)"
    and "chain (cl_next (nbr_table_keys s)) p (map (key_of s) is)"
    and "best = None \<and> n = 0 \<and> (\<forall>u \<in> set us. locked_map s ! u \<noteq> 0) \<or> (\<exists>v. best = Some v \<and> n = uses s v \<and> victim s us v)"
  shows "\<exists>r. least_used_loop s (case best of None \<Rightarrow> NULL | Some v \<Rightarrow> key_of s v) n p = Some (case r of None \<Rightarrow> NULL | Some v \<Rightarrow> key_of s v) \<and>
    (case r of None \<Rightarrow> (\<forall>u \<in> set (us @ is). locked_map s ! u \<noteq> 0) | Some v \<Rightarrow> victim s (us @ is) v)"
  using assms(2-4)
proof (induction "is" arbitrary: us best n p)
  case Nil
  then show ?case by (intro exI [of _ best]) (subst least_used_loop.simps, auto)
next
  case (Cons i "is")
  let ?b = "case best of None \<Rightarrow> NULL | Some v \<Rightarrow> key_of s v" and ?next = "list_item_next (nbr_table_keys s) (key_of s i)"
  have kn: "key_of s j = NULL \<longleftrightarrow> False" for j using key_of_nonnull [OF assms(1), of j] by blast
  have k: "key_of s i \<noteq> NULL" "p = key_of s i" using key_of_nonnull [OF assms(1), of i] Cons.prems(2) by simp_all
  have c: "chain (cl_next (nbr_table_keys s)) ?next (map (key_of s) is)" using Cons.prems(2) k by (simp add: list_item_next_def)
  have m: "map_at (locked_map s) (index_from_key s (key_of s i)) = Some (locked_map s ! i)"
    "map_at (used_map s) (index_from_key s (key_of s i)) = Some (used_map s ! i)"
    using Cons.prems(1) by (simp_all add: index_from_key_of [OF assms(1)] map_at_int)
  have step: "least_used_loop s ?b n p = (if locked_map s ! i = 0 \<and> (best = None \<or> uses s i < n)
      then if uses s i = 0 then Some (key_of s i) else least_used_loop s (key_of s i) (uses s i) ?next
      else least_used_loop s ?b n ?next)"
    unfolding k(2) by (subst least_used_loop.simps) (auto simp: kn m count_bits_uses Let_def split: option.splits)
  have older: "uses s i < uses s u" if "best = None \<or> uses s i < n" and u: "u \<in> set us" "locked_map s ! u = 0" for u
  proof (cases best)
    case None then show ?thesis using Cons.prems(3) u by auto
  next
    case (Some v)
    then have "n \<le> uses s u" using victim_least [of s us v u] Cons.prems(3) u by auto
    then show ?thesis using that(1) Some by simp
  qed
  have new: "victim s (us @ [i]) i" if "locked_map s ! i = 0" "best = None \<or> uses s i < n"
    unfolding victim_def using older that by (intro exI [of _ us] exI [of _ "[]"]) auto
  show ?case
  proof (cases "locked_map s ! i = 0 \<and> (best = None \<or> uses s i < n)")
    case True
    show ?thesis
    proof (cases "uses s i = 0")
      case z: True
      have "victim s (us @ i # is) i" unfolding victim_def using older True z by (intro exI [of _ us] exI [of _ "is"]) auto
      then show ?thesis using True z step by (intro exI [of _ "Some i"]) simp
    next
      case False
      then have st: "least_used_loop s ?b n p = least_used_loop s (key_of s i) (uses s i) ?next" using True step by simp
      show ?thesis unfolding st using new True
        by (intro Cons.IH [of "us @ [i]" ?next "Some i" "uses s i", unfolded append.assoc append_Cons append_Nil option.case, OF Cons.prems(1) c]) blast
    qed
  next
    case False
    have "best = None \<and> n = 0 \<and> (\<forall>u \<in> set (us @ [i]). locked_map s ! u \<noteq> 0) \<or> (\<exists>v. best = Some v \<and> n = uses s v \<and> victim s (us @ [i]) v)"
    proof (cases best)
      case None then show ?thesis using Cons.prems(3) False by auto
    next
      case (Some v)
      then have v: "n = uses s v" "victim s us v" using Cons.prems(3) by auto
      obtain xs ys where "us = xs @ v # ys" "locked_map s ! v = 0" "\<forall>u \<in> set xs. locked_map s ! u = 0 \<longrightarrow> uses s v < uses s u"
        "\<forall>w \<in> set ys. locked_map s ! w = 0 \<longrightarrow> uses s v \<le> uses s w" using v(2) unfolding victim_def by blast
      then have "victim s (us @ [i]) v" unfolding victim_def using False Some v(1)
        by (intro exI [of _ xs] exI [of _ "ys @ [i]"]) auto
      then show ?thesis using Some v(1) by simp
    qed
    note ih = Cons.IH [of "us @ [i]" ?next best n, unfolded append.assoc append_Cons append_Nil, OF Cons.prems(1) c this]
    have st: "least_used_loop s ?b n p = least_used_loop s ?b n ?next" unfolding step if_not_P [OF False] ..
    show ?thesis unfolding st by (rule ih)
  qed
qed

lemma least_used_eq:
  assumes "nt_ok s is"
  shows "\<exists>r. least_used_loop s NULL 0 (list_head (nbr_table_keys s)) = Some (case r of None \<Rightarrow> NULL | Some v \<Rightarrow> key_of s v) \<and>
    (case r of None \<Rightarrow> (\<forall>u \<in> set is. locked_map s ! u \<noteq> 0) | Some v \<Rightarrow> victim s is v)"
proof -
  have "chain (cl_next (nbr_table_keys s)) (list_head (nbr_table_keys s)) (map (key_of s) is)"
    "\<forall>i \<in> set ([] @ is). i < length (used_map s) \<and> i < length (locked_map s)"
    using assms by (simp_all add: nt_ok_def is_clist_def list_head_def)
  from least_used_chain [OF nt_ok_pool [OF assms] this(2,1), of None 0, unfolded option.case append_Nil]
  show ?thesis by simp
qed

subsection \<open>Removing and allocating keys\<close>

lemma callbacks_loop_ok:
  assumes "env_ok e"
  shows "nt_ok s is \<Longrightarrow> i < NBR_TABLE_MAX_NEIGHBORS \<Longrightarrow> set js \<subseteq> {..<MAX_NUM_TABLES} \<Longrightarrow>
    \<exists>s'. callbacks_loop e (key_of s i) js s = Some s' \<and> only_uses s s'"
proof (induction js arbitrary: s)
  case Nil then show ?case by (simp add: only_uses_refl)
next
  case (Cons j js)
  let ?t = "all_tables s ! j" and ?f = "nt_callback (tables s (all_tables s ! j))"
  let ?step = "if ?t \<noteq> NULL \<and> ?f \<noteq> NULL then do {
            used \<leftarrow> nbr_get_bit (used_map s) s ?t (item_from_key s ?t (key_of s i));
            Some (if used then env_callback e ?f (item_from_key s ?t (key_of s i)) s else s)
          } else Some s"
  obtain s1 where s1: "?step = Some s1" "only_uses s s1"
  proof (cases "?t \<noteq> NULL \<and> ?f \<noteq> NULL")
    case True
    have "?t \<in> set (all_tables s)" using Cons.prems(1,3) by (simp add: nt_ok_def)
    then have t: "table_ok s ?t" using Cons.prems(1) True unfolding nt_ok_def by blast
    have "nbr_get_bit (used_map s) s ?t (item_of s ?t i) = Some (bit (used_map s ! i) (nt_index (tables s ?t)))"
      using Cons.prems(1,2) by (intro get_bit_of [OF t]) (simp add: nt_ok_def)
    then show ?thesis using True that assms only_uses_refl [of s]
      by (cases "bit (used_map s ! i) (nt_index (tables s ?t))") (simp_all add: item_from_key_of [OF nt_ok_pool [OF Cons.prems(1)] t] env_ok_def)
  next
    case False then show ?thesis using that [of s] only_uses_refl [of s] by auto
  qed
  obtain s2 where "callbacks_loop e (key_of s1 i) js s1 = Some s2" "only_uses s1 s2"
    using Cons.IH [OF only_uses_nt_ok [OF s1(2) Cons.prems(1)] Cons.prems(2)] Cons.prems(3) by auto
  moreover have eq: "callbacks_loop e (key_of s i) (j # js) s = Option.bind ?step (callbacks_loop e (key_of s i) js)"
    by (simp only: callbacks_loop.simps Let_def)
  ultimately show ?case unfolding eq s1(1) using only_uses_trans [OF s1(2)] only_uses_fields(8) [OF s1(2)] by auto
qed

text \<open>What a removal keeps: everything but the list, the uses, and what a callback may change.\<close>

definition keeps_pool :: "'w nbr_tables \<Rightarrow> 'w nbr_tables \<Rightarrow> bool" where
  "keeps_pool s s' \<longleftrightarrow> all_tables s' = all_tables s \<and> num_tables s' = num_tables s \<and> neighbor_addr_mem s' = neighbor_addr_mem s \<and>
     key_lladdr s' = key_lladdr s \<and> tables s' = tables s \<and> (\<forall>q n. accessible (nt_mem s) q n \<longrightarrow> accessible (nt_mem s') q n)"

lemma keeps_pool_trans: "keeps_pool s s' \<Longrightarrow> keeps_pool s' s'' \<Longrightarrow> keeps_pool s s''"
  by (simp add: keeps_pool_def)

lemma keeps_pool_fields:
  assumes "keeps_pool s s'"
  shows "all_tables s' = all_tables s" "neighbor_addr_mem s' = neighbor_addr_mem s" "key_lladdr s' = key_lladdr s" "tables s' = tables s"
    "key_of s' = key_of s" "addr_of s' = addr_of s" "item_of s' = item_of s" "table_ok s t \<Longrightarrow> table_ok s' t"
  using assms by (simp_all add: keeps_pool_def fun_eq_iff key_of_def addr_of_def item_of_def table_ok_def)

lemma remove_key_ok:
  assumes "env_ok e" and "nt_ok s is" and "i \<in> set is"
  shows "\<exists>s'. remove_key e (key_of s i) s = Some s' \<and> nt_ok s' (remove1 i is) \<and> keeps_pool s s'"
proof -
  have i: "i < NBR_TABLE_MAX_NEIGHBORS" using assms(2,3) by (simp add: nt_ok_def)
  obtain s1 where s1: "callbacks_loop e (key_of s i) [0..<MAX_NUM_TABLES] s = Some s1" "only_uses s s1"
    using callbacks_loop_ok [OF assms(1,2) i, of "[0..<MAX_NUM_TABLES]"] by (auto simp: atLeast0LessThan)
  note f = only_uses_fields [OF s1(2)]
  have ok: "nt_ok s1 is" by (rule only_uses_nt_ok [OF s1(2) assms(2)])
  note pool = nt_ok_pool [OF assms(2)]
  have idx: "index_from_key s1 (key_of s i) = int i" using index_from_key_of [of s1 i] pool unfolding f by blast
  have len: "i < length (used_map s1)" using ok i by (simp add: nt_ok_def)
  have "is_clist (nbr_table_keys s1) (map (key_of s) is)" using ok unfolding nt_ok_def f by blast
  then obtain keys where keys: "list_remove (nbr_table_keys s1) (key_of s i) = Some keys" "is_clist keys (remove1 (key_of s i) (map (key_of s) is))"
    using il.rem_ok by blast
  have r: "remove1 (key_of s i) (map (key_of s) is) = map (key_of s) (remove1 i is)"
    using key_of_inj [OF pool] by (induction "is") auto
  let ?s = "s1\<lparr>used_map := (used_map s1)[i := 0], nbr_table_keys := keys\<rparr>"
  have rm: "remove_key e (key_of s i) s = Some ?s"
    using s1(1) idx len keys(1) by (simp add: remove_key_def map_at_int)
  have keeps: "keeps_pool s ?s" using f s1(2) by (simp add: keeps_pool_def only_uses_def)
  have "nt_ok ?s (remove1 i is)"
  proof -
    have u: "\<forall>j < NBR_TABLE_MAX_NEIGHBORS. j \<notin> set (remove1 i is) \<longrightarrow> (used_map s1)[i := 0] ! j = 0"
    proof (intro allI impI)
      fix j assume j: "j < NBR_TABLE_MAX_NEIGHBORS" "j \<notin> set (remove1 i is)"
      have d: "distinct is" using ok by (simp add: nt_ok_def)
      show "(used_map s1)[i := 0] ! j = 0"
      proof (cases "j = i")
        case True then show ?thesis using len by simp
      next
        case False
        then have "j \<notin> set is" using j(2) d by simp
        then show ?thesis using ok j(1) False by (simp add: nt_ok_def)
      qed
    qed
    have sub: "set (remove1 i is) \<subseteq> set is" by (rule set_remove1_subset)
    have tabs: "\<forall>t \<in> set (all_tables s1). t \<noteq> NULL \<longrightarrow> table_ok ?s t"
      using ok unfolding nt_ok_def table_ok_def by simp
    have e: "key_of ?s = key_of s" "addr_of ?s = addr_of s" using keeps_pool_fields [OF keeps] by blast+
    have e1: "key_of s1 = key_of s" "addr_of s1 = addr_of s" using f by blast+
    show ?thesis
      using ok keys(2) u tabs sub inj_on_subset [OF _ sub, of "addr_of s"]
      unfolding nt_ok_def e e1 r by (simp add: distinct_remove1)
  qed
  then show ?thesis using rm keeps by auto
qed

text \<open>Allocation: a free block, or the key of an evicted neighbour, or none, and then nothing has changed.\<close>

definition evicted :: "'w nt_env \<Rightarrow> 'w nbr_tables \<Rightarrow> nat list \<Rightarrow> nat \<Rightarrow> bool" where
  "evicted e s is v \<longleftrightarrow>
     (case env_find_removable e of
        None \<Rightarrow> victim s is v
      | Some g \<Rightarrow> (case g s of None \<Rightarrow> False | Some a \<Rightarrow> v \<in> set is \<and> addr_of s v = a \<or> a \<notin> addr_of s ` set is \<and> victim s is v))"

definition no_room :: "'w nt_env \<Rightarrow> 'w nbr_tables \<Rightarrow> nat list \<Rightarrow> bool" where
  "no_room e s is \<longleftrightarrow> (\<forall>i < NBR_TABLE_MAX_NEIGHBORS. m_count (neighbor_addr_mem s) ! i \<noteq> 0) \<and>
     (case env_find_removable e of
        None \<Rightarrow> (\<forall>i \<in> set is. locked_map s ! i \<noteq> 0)
      | Some g \<Rightarrow> (case g s of None \<Rightarrow> True | Some a \<Rightarrow> a \<notin> addr_of s ` set is \<and> (\<forall>i \<in> set is. locked_map s ! i \<noteq> 0)))"

lemma unlock_ok: "nt_ok s is \<Longrightarrow> nt_ok (s\<lparr>locked_map := (locked_map s)[i := 0]\<rparr>) is"
proof -
  assume ok: "nt_ok s is"
  let ?s = "s\<lparr>locked_map := (locked_map s)[i := 0]\<rparr>"
  have e: "key_of ?s = key_of s" "addr_of ?s = addr_of s" by (simp_all add: fun_eq_iff key_of_def addr_of_def)
  have l: "\<forall>j < NBR_TABLE_MAX_NEIGHBORS. m_count (neighbor_addr_mem s) ! j = 0 \<longrightarrow> (locked_map s)[i := 0] ! j = 0"
  proof (intro allI impI)
    fix j assume "j < NBR_TABLE_MAX_NEIGHBORS" "m_count (neighbor_addr_mem s) ! j = 0"
    then have "locked_map s ! j = 0" "j < length (locked_map s)" using ok by (simp_all add: nt_ok_def)
    then show "(locked_map s)[i := 0] ! j = 0" by (cases "i = j") simp_all
  qed
  show ?thesis using ok l unfolding nt_ok_def e by (simp add: table_ok_def)
qed

text \<open>With a full pool: the key the policy names, or the one that the loop finds.\<close>

lemma choose_key:
  assumes "env_ok e" and "nt_ok s is"
  shows "\<exists>named. policy_key e s = Some named \<and>
    (case named of
       None \<Rightarrow> (\<exists>g. env_find_removable e = Some g \<and> g s = None)
     | Some (key, s1) \<Rightarrow> nt_ok s1 is \<and> keeps_pool s s1 \<and> length (locked_map s1) = length (locked_map s) \<and>
         (key = NULL \<and> s1 = s \<and> (\<forall>g. env_find_removable e = Some g \<longrightarrow> (\<exists>a. g s = Some a \<and> a \<notin> addr_of s ` set is)) \<or>
          (\<exists>v g. key = key_of s v \<and> v \<in> set is \<and> env_find_removable e = Some g \<and> g s = Some (addr_of s v) \<and>
             s1 = s\<lparr>locked_map := (locked_map s)[v := 0]\<rparr>)))"
proof (cases "env_find_removable e")
  case None
  then show ?thesis using assms(2) by (simp add: policy_key_def keeps_pool_def)
next
  case (Some g)
  show ?thesis
  proof (cases "g s")
    case None then show ?thesis using Some by (simp add: policy_key_def)
  next
    case (Some a)
    note g = \<open>env_find_removable e = Some g\<close>
    have "length a = LINKADDR_SIZE" using assms(1) g Some unfolding env_ok_def by blast
    then have idx: "index_from_lladdr s (Some a) = Some (case find (\<lambda>i. addr_of s i = a) is of None \<Rightarrow> -1 | Some i \<Rightarrow> int i)"
      using index_from_lladdr_eq [OF assms(2), of "Some a"] by (simp add: or_null_addr_def)
    show ?thesis
    proof (cases "find (\<lambda>i. addr_of s i = a) is")
      case None
      then have "a \<notin> addr_of s ` set is" by (simp add: find_addr_none)
      then show ?thesis using g Some idx None assms(2) by (simp add: policy_key_def keeps_pool_def)
    next
      case (Some v)
      then have v: "v \<in> set is" "a = addr_of s v" by (auto simp: find_Some_iff)
      then have "v < length (locked_map s)" using assms(2) by (simp add: nt_ok_def)
      moreover from this have "locked_map s ! v = 0 \<Longrightarrow> s = s\<lparr>locked_map := (locked_map s)[v := 0]\<rparr>"
        using list_update_id [of "locked_map s" v] by simp
      ultimately have "policy_key e s = Some (Some (key_of s v, s\<lparr>locked_map := (locked_map s)[v := 0]\<rparr>))"
        using g \<open>g s = Some a\<close> idx Some key_of_nonnull [OF nt_ok_pool [OF assms(2)], of v]
        by (auto simp: policy_key_def key_from_index_of map_at_int)
      then show ?thesis using v g \<open>g s = Some a\<close> unlock_ok [OF assms(2), of v]
        by (intro exI [of _ "Some (key_of s v, s\<lparr>locked_map := (locked_map s)[v := 0]\<rparr>)"]) (auto simp: keeps_pool_def)
    qed
  qed
qed

lemma memb_set_count:
  "memb_ok m \<Longrightarrow> k < m_num m \<Longrightarrow> memb_ok (m\<lparr>m_count := (m_count m)[k := 1]\<rparr>) \<and> block_addr (m\<lparr>m_count := (m_count m)[k := 1]\<rparr>) = block_addr m"
  by (simp add: memb_set_ok fun_eq_iff block_addr_def)

lemma allocate_free:
  assumes "nt_ok s is" and "k < NBR_TABLE_MAX_NEIGHBORS" and "m_count (neighbor_addr_mem s) ! k = 0"
    and "s' = s\<lparr>neighbor_addr_mem := (neighbor_addr_mem s)\<lparr>m_count := (m_count (neighbor_addr_mem s))[k := 1]\<rparr>\<rparr>"
  shows "nt_ok s' is" and "k \<notin> set is" and "m_count (neighbor_addr_mem s') ! k \<noteq> 0" and "key_of s' = key_of s"
    and "addr_of s' = addr_of s" and "item_of s' = item_of s" and "tables s' = tables s"
proof -
  let ?m = "neighbor_addr_mem s"
  have k: "k < length (m_count ?m)" "k < m_num ?m" using assms(1,2) by (simp_all add: nt_ok_def memb_ok_def)
  note m = memb_set_count [OF nt_ok_pool [OF assms(1)] k(2)]
  show nk: "k \<notin> set is" using assms(1,3) unfolding nt_ok_def by blast
  show e: "key_of s' = key_of s" using m by (simp add: assms(4) key_of_def fun_eq_iff)
  show e2: "addr_of s' = addr_of s" "item_of s' = item_of s" "tables s' = tables s"
    using e by (simp_all add: assms(4) addr_of_def item_of_def fun_eq_iff)
  show "m_count (neighbor_addr_mem s') ! k \<noteq> 0" using k(1) by (simp add: assms(4))
  have c: "m_count (neighbor_addr_mem s') ! i \<noteq> 0" if "m_count ?m ! i \<noteq> 0" for i
    using that k(1) by (cases "i = k") (simp_all add: assms(4))
  have pool: "memb_ok (neighbor_addr_mem s')" "m_num (neighbor_addr_mem s') = m_num ?m"
    using m by (simp_all add: assms(4))
  have rest: "used_map s' = used_map s" "locked_map s' = locked_map s" "all_tables s' = all_tables s" "nbr_table_keys s' = nbr_table_keys s"
    "table_ok s' = table_ok s"
    by (simp_all add: assms(4) table_ok_def fun_eq_iff)
  show "nt_ok s' is"
    using assms(1) c pool unfolding nt_ok_def e e2 rest by auto
qed

lemma allocate_cases:
  assumes "env_ok e" and "nt_ok s is"
  obtains (free) k where "k < NBR_TABLE_MAX_NEIGHBORS" "m_count (neighbor_addr_mem s) ! k = 0"
      "nbr_table_allocate e s = Some (key_of s k, s\<lparr>neighbor_addr_mem := (neighbor_addr_mem s)\<lparr>m_count := (m_count (neighbor_addr_mem s))[k := 1]\<rparr>\<rparr>)"
  | (evict) v s' where "nbr_table_allocate e s = Some (key_of s v, s')" "v \<in> set is" "evicted e s is v" "nt_ok s' (remove1 v is)"
      "keeps_pool s s'" "\<forall>i < NBR_TABLE_MAX_NEIGHBORS. m_count (neighbor_addr_mem s) ! i \<noteq> 0"
  | (fail) "nbr_table_allocate e s = Some (NULL, s)" "no_room e s is"
proof (cases rule: memb_alloc_cases [of "neighbor_addr_mem s"])
  case (block k)
  have "k < NBR_TABLE_MAX_NEIGHBORS" using block(1) assms(2) by (simp add: nt_ok_def)
  then show ?thesis using free [of k] block(2,4) key_of_nonnull [OF nt_ok_pool [OF assms(2)], of k]
    by (simp add: nbr_table_allocate_def key_of_def)
next
  case full
  then have f: "\<forall>i < NBR_TABLE_MAX_NEIGHBORS. m_count (neighbor_addr_mem s) ! i \<noteq> 0" using assms(2) by (simp add: nt_ok_def)
  obtain named where n: "policy_key e s = Some named" and p: "case named of
       None \<Rightarrow> (\<exists>g. env_find_removable e = Some g \<and> g s = None)
     | Some (key, s1) \<Rightarrow> nt_ok s1 is \<and> keeps_pool s s1 \<and> length (locked_map s1) = length (locked_map s) \<and>
         (key = NULL \<and> s1 = s \<and> (\<forall>g. env_find_removable e = Some g \<longrightarrow> (\<exists>a. g s = Some a \<and> a \<notin> addr_of s ` set is)) \<or>
          (\<exists>v g. key = key_of s v \<and> v \<in> set is \<and> env_find_removable e = Some g \<and> g s = Some (addr_of s v) \<and>
             s1 = s\<lparr>locked_map := (locked_map s)[v := 0]\<rparr>))"
    using choose_key [OF assms] by blast
  have alloc: "nbr_table_allocate e s = (case named of None \<Rightarrow> Some (NULL, s) | Some (key, s) \<Rightarrow> do {
            least_used_key \<leftarrow> (if key = NULL then least_used_loop s NULL 0 (list_head (nbr_table_keys s)) else Some key);
            if least_used_key = NULL then Some (NULL, s)
            else do { s \<leftarrow> remove_key e least_used_key s; Some (least_used_key, s) } })"
    by (simp add: nbr_table_allocate_def full(2) n)
  show ?thesis
  proof (cases named)
    case None
    then show ?thesis using fail alloc p f by (auto simp: no_room_def)
  next
    case (Some ks)
    obtain key s1 where ks: "ks = (key, s1)" by (cases ks)
    note q = p [unfolded Some ks option.case prod.case]
    note k0 = key_of_nonnull [OF nt_ok_pool [OF assms(2)]]
    have remove: thesis if v: "v \<in> set is" "evicted e s is v" and a: "nbr_table_allocate e s = do { s2 \<leftarrow> remove_key e (key_of s v) s1; Some (key_of s v, s2) }" for v
    proof -
      have kp: "keeps_pool s s1" using q by blast
      have ke: "key_of s1 = key_of s" using keeps_pool_fields(5) [OF kp] .
      obtain s' where s': "remove_key e (key_of s1 v) s1 = Some s'" "nt_ok s' (remove1 v is)" "keeps_pool s1 s'"
        using remove_key_ok [OF assms(1) _ v(1), of s1] q by blast
      have "nbr_table_allocate e s = Some (key_of s v, s')" unfolding a using s'(1) unfolding ke by simp
      then show thesis by (rule evict [OF _ v s'(2) keeps_pool_trans [OF kp s'(3)] f])
    qed
    show ?thesis
    proof (cases "key = NULL")
      case True
      then have s1: "s1 = s" and pol: "\<forall>g. env_find_removable e = Some g \<longrightarrow> (\<exists>a. g s = Some a \<and> a \<notin> addr_of s ` set is)"
        using q k0 by auto
      obtain r where r: "least_used_loop s NULL 0 (list_head (nbr_table_keys s)) = Some (case r of None \<Rightarrow> NULL | Some v \<Rightarrow> key_of s v)"
        "case r of None \<Rightarrow> (\<forall>u \<in> set is. locked_map s ! u \<noteq> 0) | Some v \<Rightarrow> victim s is v" using least_used_eq [OF assms(2)] by blast
      show ?thesis
      proof (cases r)
        case None
        have "nbr_table_allocate e s = Some (NULL, s)" unfolding alloc Some ks True s1 using r(1) None by simp
        moreover have "no_room e s is" using f r(2) None pol by (auto simp: no_room_def split: option.splits)
        ultimately show ?thesis by (rule fail)
      next
        case (Some v)
        have "nbr_table_allocate e s = do { s2 \<leftarrow> remove_key e (key_of s v) s1; Some (key_of s v, s2) }"
          unfolding alloc \<open>named = Some ks\<close> ks True s1 using r(1) Some k0 [of v] by simp
        moreover have "evicted e s is v" using r(2) Some pol by (auto simp: evicted_def split: option.splits)
        ultimately show ?thesis using remove [of v] r(2) Some victim_in [of s "is" v] by simp
      qed
    next
      case False
      then obtain v g where v: "key = key_of s v" "v \<in> set is" "env_find_removable e = Some g" "g s = Some (addr_of s v)" using q by blast
      have "nbr_table_allocate e s = do { s2 \<leftarrow> remove_key e (key_of s v) s1; Some (key_of s v, s2) }"
        unfolding alloc Some ks using False v(1) by simp
      moreover have "evicted e s is v" using v by (auto simp: evicted_def)
      ultimately show ?thesis using remove v(2) by blast
    qed
  qed
qed

end
