(* ===== verification/Nbr_Table_Add.thy ===== *)
theory Nbr_Table_Add
  imports Nbr_Table
begin

text \<open>
  Adding neighbours, eviction, the change of an address, and iteration over a table, on well-formed tables.
\<close>

subsection \<open>Adding a neighbour\<close>

text \<open>A key behind the others, with its address.\<close>

lemma append_key:
  assumes "nt_ok s is" and "k < NBR_TABLE_MAX_NEIGHBORS" and "m_count (neighbor_addr_mem s) ! k \<noteq> 0" and "k \<notin> set is"
    and "a \<notin> addr_of s ` set is" and "length a = LINKADDR_SIZE"
  shows "\<exists>keys. list_add (nbr_table_keys s) (key_of s k) = Some keys \<and>
    nt_ok (s\<lparr>nbr_table_keys := keys, key_lladdr := (key_lladdr s)(key_of s k := a)\<rparr>) (is @ [k])"
proof -
  note pool = nt_ok_pool [OF assms(1)]
  have "is_clist (nbr_table_keys s) (map (key_of s) is)" using assms(1) by (simp add: nt_ok_def)
  then obtain keys where keys: "list_add (nbr_table_keys s) (key_of s k) = Some keys"
    "is_clist keys (remove1 (key_of s k) (map (key_of s) is) @ [key_of s k])" using il.add_ok key_of_nonnull [OF pool] by blast
  have "key_of s k \<notin> set (map (key_of s) is)" using assms(4) key_of_inj [OF pool] by auto
  then have l: "is_clist keys (map (key_of s) (is @ [k]))" using keys(2) by (simp add: remove1_idem)
  let ?s = "s\<lparr>nbr_table_keys := keys, key_lladdr := (key_lladdr s)(key_of s k := a)\<rparr>"
  have e: "key_of ?s = key_of s" by (simp add: key_of_def fun_eq_iff)
  have ad: "addr_of ?s i = (if i = k then a else addr_of s i)" for i
    unfolding addr_of_def e using key_of_inj [OF pool] by simp
  have inj: "inj_on (addr_of ?s) (set (is @ [k]))"
    using assms(1,4,5) by (auto simp: nt_ok_def inj_on_def ad)
  have len: "\<forall>i < NBR_TABLE_MAX_NEIGHBORS. length (addr_of ?s i) = LINKADDR_SIZE"
    using assms(1,6) by (simp add: nt_ok_def ad)
  have tabs: "table_ok ?s = table_ok s" by (simp add: table_ok_def fun_eq_iff)
  have "nt_ok ?s (is @ [k])"
    using assms(1-4) l inj len unfolding nt_ok_def e tabs by auto
  then show ?thesis using keys(1) by blast
qed

text \<open>The last part: the item is cleared and the bit of the table is set.\<close>

lemma enter_item:
  assumes "nt_ok s is" and "table_ok s t" and "i \<in> set is"
  shows "\<exists>m used. store_list (nt_mem s) (item_of s t i) (replicate (nt_item_size (tables s t)) 0) = Some m \<and>
    nbr_set_bit (used_map s) s t (item_of s t i) True = Some (1, used) \<and>
    nt_ok (s\<lparr>nt_mem := m, used_map := used\<rparr>) is \<and>
    bit (used ! i) (nt_index (tables s t)) \<and> (\<forall>j. j \<noteq> i \<longrightarrow> used ! j = used_map s ! j) \<and> length used = length (used_map s) \<and>
    bytes_at m (item_of s t i) (replicate (nt_item_size (tables s t)) 0) \<and> (\<forall>q n. accessible m q n \<longleftrightarrow> accessible (nt_mem s) q n)"
proof -
  let ?z = "replicate (nt_item_size (tables s t)) 0 :: u8 list"
  have i: "i < NBR_TABLE_MAX_NEIGHBORS" "i < length (used_map s)" using assms(1,3) by (simp_all add: nt_ok_def)
  have "(i + 1) * nt_item_size (tables s t) \<le> NBR_TABLE_MAX_NEIGHBORS * nt_item_size (tables s t)" using i(1) by (intro mult_le_mono1) simp
  then have in_data: "item_of s t i + length ?z \<le> nt_data (tables s t) + NBR_TABLE_MAX_NEIGHBORS * nt_item_size (tables s t)"
    by (simp add: item_of_def)
  have "accessible (nt_mem s) (nt_data (tables s t)) (NBR_TABLE_MAX_NEIGHBORS * nt_item_size (tables s t))"
    using assms(2) by (simp add: table_ok_def)
  then have "accessible (nt_mem s) (item_of s t i) (length ?z)"
    by (rule accessible_mono [OF _ in_data]) (simp add: item_of_def)
  then have m: "store_list (nt_mem s) (item_of s t i) ?z = Some (put (nt_mem s) (item_of s t i) ?z)"
    "accessible (put (nt_mem s) (item_of s t i) ?z) q n \<longleftrightarrow> accessible (nt_mem s) q n" for q n
    by (simp_all add: store_list_put)
  let ?used = "(used_map s)[i := with_bit (nt_index (tables s t)) True (used_map s ! i)]"
  have b: "nbr_set_bit (used_map s) s t (item_of s t i) True = Some (1, ?used)" by (rule set_bit_of [OF assms(2) i(2)])
  have bit: "bit (?used ! i) (nt_index (tables s t))"
    using i(2) assms(2) by (simp add: bit_with_bit table_ok_def MAX_NUM_TABLES_def)
  let ?s = "s\<lparr>nt_mem := put (nt_mem s) (item_of s t i) ?z, used_map := ?used\<rparr>"
  have e: "key_of ?s = key_of s" "addr_of ?s = addr_of s" by (simp_all add: key_of_def addr_of_def fun_eq_iff)
  have tabs: "table_ok ?s = table_ok s" by (simp add: table_ok_def fun_eq_iff m(2))
  have o: "\<forall>j. j \<noteq> i \<longrightarrow> ?used ! j = used_map s ! j" "length ?used = length (used_map s)" by simp_all
  have u: "\<forall>j < NBR_TABLE_MAX_NEIGHBORS. j \<notin> set is \<longrightarrow> ?used ! j = 0"
  proof (intro allI impI)
    fix j assume j: "j < NBR_TABLE_MAX_NEIGHBORS" "j \<notin> set is"
    then have "j \<noteq> i" using assms(3) by blast
    then show "?used ! j = 0" using o(1) j assms(1) by (simp add: nt_ok_def)
  qed
  have "nt_ok ?s is" using assms(1) u o(2) unfolding nt_ok_def e tabs by simp
  then show ?thesis using m(1) b bit o bytes_at_put m(2) by blast
qed

lemma add_known:
  assumes "nt_ok s is" and "i \<in> set is" and "length a = LINKADDR_SIZE" and "addr_of s i = a"
  shows "index_from_lladdr s (Some a) = Some (int i)"
  using index_from_lladdr_eq [OF assms(1), of "Some a"] find_addr [OF assms(1,2)] assms(3,4) by (simp add: or_null_addr_def)

lemma add_unknown:
  assumes "nt_ok s is" and "length a = LINKADDR_SIZE" and "a \<notin> addr_of s ` set is"
  shows "index_from_lladdr s (Some a) = Some (-1)"
proof -
  have "find (\<lambda>i. addr_of s i = a) is = None" using assms(3) by (simp add: find_addr_none)
  then show ?thesis using index_from_lladdr_eq [OF assms(1), of "Some a"] assms(2) by (simp add: or_null_addr_def)
qed

text \<open>What an addition does to the neighbours: nothing for one that is known; a free key or the one of an evicted neighbour otherwise.\<close>

definition entered :: "'w nt_env \<Rightarrow> 'w nbr_tables \<Rightarrow> nat list \<Rightarrow> linkaddr \<Rightarrow> nat \<Rightarrow> nat list \<Rightarrow> bool" where
  "entered e s is a i is' \<longleftrightarrow>
     (if a \<in> addr_of s ` set is then addr_of s i = a \<and> is' = is
      else if \<exists>k < NBR_TABLE_MAX_NEIGHBORS. m_count (neighbor_addr_mem s) ! k = 0 then m_count (neighbor_addr_mem s) ! i = 0 \<and> is' = is @ [i]
      else evicted e s is i \<and> is' = remove1 i is @ [i])"

lemma add_lladdr_eq:
  assumes "index_from_lladdr s (Some a) = Some idx" and "idx = -1 \<Longrightarrow> nbr_table_allocate e s = Some (key, s1) \<and> key \<noteq> NULL \<and>
      list_add (nbr_table_keys s1) key = Some keys \<and> index_from_key (s1\<lparr>nbr_table_keys := keys\<rparr>) key = int i \<and>
      s2 = s1\<lparr>nbr_table_keys := keys, key_lladdr := (key_lladdr s1)(key := linkaddr_copy (key_lladdr s1 key) a)\<rparr>"
    and "idx \<noteq> -1 \<Longrightarrow> idx = int i \<and> s2 = s"
  shows "nbr_table_add_lladdr e t (Some a) s = do {
       let item = item_from_index s2 t (int i);
       m \<leftarrow> store_list (nt_mem s2) item (replicate (nt_item_size (tables s2 t)) 0);
       (_, used) \<leftarrow> nbr_set_bit (used_map s2) s2 t item True;
       Some (item, s2\<lparr>nt_mem := m, used_map := used\<rparr>)
     }"
proof (cases "idx = -1")
  case True
  note b = assms(2) [OF True]
  have "s1\<lparr>nbr_table_keys := keys, key_lladdr := (key_lladdr (s1\<lparr>nbr_table_keys := keys\<rparr>))(key := linkaddr_copy (key_lladdr (s1\<lparr>nbr_table_keys := keys\<rparr>) key) a)\<rparr> = s2"
    using b by simp
  then show ?thesis using b assms(1) True by (simp add: nbr_table_add_lladdr_def or_null_addr_def Let_def)
next
  case False
  then show ?thesis using assms(1,3) by (simp add: nbr_table_add_lladdr_def or_null_addr_def)
qed

lemma finish_add:
  assumes "nt_ok s is" and "table_ok s t" and "i \<in> set is" and "addr_of s i = a" and "length a = LINKADDR_SIZE"
  shows "\<exists>s'. do {
       let item = item_from_index s t (int i);
       m \<leftarrow> store_list (nt_mem s) item (replicate (nt_item_size (tables s t)) 0);
       (_, used) \<leftarrow> nbr_set_bit (used_map s) s t item True;
       Some (item, s\<lparr>nt_mem := m, used_map := used\<rparr>)
     } = Some (item_of s t i, s') \<and> nt_ok s' is \<and> addr_of s' = addr_of s \<and> locked_map s' = locked_map s \<and>
     nbr_table_get_from_lladdr s' t (Some a) = Some (item_of s t i) \<and>
     bytes_at (nt_mem s') (item_of s t i) (replicate (nt_item_size (tables s t)) 0) \<and>
     (\<forall>j t'. j \<noteq> i \<longrightarrow> bit (used_map s' ! j) (nt_index (tables s' t')) \<longleftrightarrow> bit (used_map s ! j) (nt_index (tables s t')))"
proof -
  obtain m used where u: "store_list (nt_mem s) (item_of s t i) (replicate (nt_item_size (tables s t)) 0) = Some m"
    "nbr_set_bit (used_map s) s t (item_of s t i) True = Some (1, used)" "nt_ok (s\<lparr>nt_mem := m, used_map := used\<rparr>) is"
    "bit (used ! i) (nt_index (tables s t))" "\<forall>j. j \<noteq> i \<longrightarrow> used ! j = used_map s ! j" "length used = length (used_map s)"
    "bytes_at m (item_of s t i) (replicate (nt_item_size (tables s t)) 0)" "\<forall>q n. accessible m q n \<longleftrightarrow> accessible (nt_mem s) q n"
    using enter_item [OF assms(1-3)] by blast
  let ?s = "s\<lparr>nt_mem := m, used_map := used\<rparr>"
  have t: "t \<noteq> NULL" using assms(2) by (simp add: table_ok_def)
  have e: "addr_of ?s = addr_of s" "item_of ?s = item_of s" by (simp_all add: addr_of_def key_of_def item_of_def fun_eq_iff)
  have tok: "table_ok ?s t" using assms(2) u(8) by (simp add: table_ok_def)
  have "i < length used" using assms(1,3) u(6) by (simp add: nt_ok_def)
  then have "nbr_get_bit used ?s t (item_of s t i) = Some True" using get_bit_of [OF tok, of i used] u(4) unfolding e by simp
  moreover have "index_from_lladdr ?s (Some a) = Some (int i)" by (rule add_known [OF u(3) assms(3,5)]) (simp add: e assms(4))
  moreover have "item_from_index ?s t (int i) = item_of s t i" using item_from_index_of [OF t, of ?s i] unfolding e .
  ultimately have "nbr_table_get_from_lladdr ?s t (Some a) = Some (item_of s t i)" by (simp add: nbr_table_get_from_lladdr_def)
  then show ?thesis using u(1,2,3,5,7) e(1) item_from_index_of [OF t, of s i] by (intro exI [of _ ?s]) simp
qed

lemma link_key:
  assumes "nt_ok s is" and "k < NBR_TABLE_MAX_NEIGHBORS" and "m_count (neighbor_addr_mem s) ! k \<noteq> 0" and "k \<notin> set is"
    and "a \<notin> addr_of s ` set is" and "length a = LINKADDR_SIZE"
  shows "\<exists>keys s2. list_add (nbr_table_keys s) (key_of s k) = Some keys \<and> index_from_key (s\<lparr>nbr_table_keys := keys\<rparr>) (key_of s k) = int k \<and>
    s2 = s\<lparr>nbr_table_keys := keys, key_lladdr := (key_lladdr s)(key_of s k := linkaddr_copy (key_lladdr s (key_of s k)) a)\<rparr> \<and>
    nt_ok s2 (is @ [k]) \<and> addr_of s2 k = a \<and> (\<forall>j \<in> set is. addr_of s2 j = addr_of s j) \<and> item_of s2 = item_of s \<and> tables s2 = tables s \<and>
    nt_mem s2 = nt_mem s"
proof -
  obtain keys where k: "list_add (nbr_table_keys s) (key_of s k) = Some keys"
    "nt_ok (s\<lparr>nbr_table_keys := keys, key_lladdr := (key_lladdr s)(key_of s k := a)\<rparr>) (is @ [k])"
    using append_key [OF assms] by blast
  have "length (key_lladdr s (key_of s k)) = LINKADDR_SIZE" using assms(1,2) by (simp add: nt_ok_def addr_of_def)
  then have c: "linkaddr_copy (key_lladdr s (key_of s k)) a = a" using assms(6) by (rule linkaddr_copy_eq)
  have idx: "index_from_key (s\<lparr>nbr_table_keys := keys\<rparr>) (key_of s k) = int k"
    using index_from_key_of [OF nt_ok_pool [OF assms(1)], of k] key_of_nonnull [OF nt_ok_pool [OF assms(1)], of k] by (simp add: index_from_key_def)
  let ?s = "s\<lparr>nbr_table_keys := keys, key_lladdr := (key_lladdr s)(key_of s k := a)\<rparr>"
  have ad: "addr_of ?s j = (if j = k then a else addr_of s j)" for j
    using key_of_inj [OF nt_ok_pool [OF assms(1)]] by (simp add: addr_of_def key_of_def)
  have "\<forall>j \<in> set is. addr_of ?s j = addr_of s j" using assms(4) by (auto simp: ad)
  moreover have "item_of ?s = item_of s" by (simp add: item_of_def fun_eq_iff)
  ultimately show ?thesis using k idx ad [of k] unfolding c by (intro exI [of _ keys] exI [of _ ?s]) simp
qed

lemma add_cases:
  assumes "env_ok e" and "nt_ok s is" and "table_ok s t" and "length a = LINKADDR_SIZE"
  shows "\<exists>item s'. nbr_table_add_lladdr e t (Some a) s = Some (item, s') \<and>
    (item = NULL \<and> s' = s \<and> a \<notin> addr_of s ` set is \<and> no_room e s is \<or>
     (\<exists>i is'. item = item_of s t i \<and> item \<noteq> NULL \<and> entered e s is a i is' \<and> nt_ok s' is' \<and> i \<in> set is' \<and> addr_of s' i = a \<and>
        nbr_table_get_from_lladdr s' t (Some a) = Some item \<and> bytes_at (nt_mem s') item (replicate (nt_item_size (tables s t)) 0) \<and>
        (\<forall>j \<in> set is' - {i}. j \<in> set is \<and> addr_of s' j = addr_of s j)))"
proof -
  note pool = nt_ok_pool [OF assms(2)]
  have nn: "item_of s t i \<noteq> NULL" for i by (rule item_of_nonnull [OF assms(3)])
  have known: ?thesis if "index_from_lladdr s (Some a) = Some idx" "nbr_table_add_lladdr e t (Some a) s = do {
       let item = item_from_index s2 t (int i);
       m \<leftarrow> store_list (nt_mem s2) item (replicate (nt_item_size (tables s2 t)) 0);
       (_, used) \<leftarrow> nbr_set_bit (used_map s2) s2 t item True;
       Some (item, s2\<lparr>nt_mem := m, used_map := used\<rparr>)
     }" "nt_ok s2 is2" "table_ok s2 t" "i \<in> set is2" "addr_of s2 i = a" "item_of s2 = item_of s" "tables s2 = tables s"
     "entered e s is a i is2" "\<forall>j \<in> set is2 - {i}. j \<in> set is \<and> addr_of s2 j = addr_of s j" for s2 is2 i idx
  proof -
    note q = that
    obtain s' where s': "nbr_table_add_lladdr e t (Some a) s = Some (item_of s2 t i, s')" "nt_ok s' is2" "addr_of s' = addr_of s2"
      "nbr_table_get_from_lladdr s' t (Some a) = Some (item_of s2 t i)" "bytes_at (nt_mem s') (item_of s2 t i) (replicate (nt_item_size (tables s2 t)) 0)"
      using finish_add [OF q(3-6) assms(4)] unfolding q(2) by blast
    then show ?thesis using q(5-10) nn [of i]
      by (intro exI [of _ "item_of s t i"] exI [of _ s'] conjI disjI2 exI [of _ i] exI [of _ is2]) simp_all
  qed
  show ?thesis
  proof (cases "a \<in> addr_of s ` set is")
    case True
    then obtain i where i: "i \<in> set is" "addr_of s i = a" by auto
    have idx: "index_from_lladdr s (Some a) = Some (int i)" by (rule add_known [OF assms(2) i(1) assms(4) i(2)])
    have add: "nbr_table_add_lladdr e t (Some a) s = do {
       let item = item_from_index s t (int i);
       m \<leftarrow> store_list (nt_mem s) item (replicate (nt_item_size (tables s t)) 0);
       (_, used) \<leftarrow> nbr_set_bit (used_map s) s t item True;
       Some (item, s\<lparr>nt_mem := m, used_map := used\<rparr>) }"
      by (rule add_lladdr_eq [OF idx]) simp_all
    show ?thesis
      by (rule known [OF idx add assms(2,3) i]) (use True i in \<open>simp_all add: entered_def\<close>)
  next
    case False
    have idx: "index_from_lladdr s (Some a) = Some (-1)" by (rule add_unknown [OF assms(2,4) False])
    show ?thesis
      using assms(1,2)
    proof (cases rule: allocate_cases)
      case (free k)
      let ?s1 = "s\<lparr>neighbor_addr_mem := (neighbor_addr_mem s)\<lparr>m_count := (m_count (neighbor_addr_mem s))[k := 1]\<rparr>\<rparr>"
      note f = allocate_free [OF assms(2) free(1,2) refl]
      obtain keys s2 where l: "list_add (nbr_table_keys ?s1) (key_of s k) = Some keys" "index_from_key (?s1\<lparr>nbr_table_keys := keys\<rparr>) (key_of s k) = int k"
        "s2 = ?s1\<lparr>nbr_table_keys := keys, key_lladdr := (key_lladdr ?s1)(key_of s k := linkaddr_copy (key_lladdr ?s1 (key_of s k)) a)\<rparr>"
        "nt_ok s2 (is @ [k])" "addr_of s2 k = a" "\<forall>j \<in> set is. addr_of s2 j = addr_of s j" "item_of s2 = item_of s" "tables s2 = tables s" "nt_mem s2 = nt_mem s"
        using link_key [OF f(1) free(1) f(3,2) _ assms(4)] False unfolding f(4-7) by fastforce
      have add: "nbr_table_add_lladdr e t (Some a) s = do {
         let item = item_from_index s2 t (int k);
         m \<leftarrow> store_list (nt_mem s2) item (replicate (nt_item_size (tables s2 t)) 0);
         (_, used) \<leftarrow> nbr_set_bit (used_map s2) s2 t item True;
         Some (item, s2\<lparr>nt_mem := m, used_map := used\<rparr>) }"
        using free(3) l(1-3) key_of_nonnull [OF pool, of k] by (intro add_lladdr_eq [OF idx, where key = "key_of s k" and ?s1.0 = ?s1 and keys = keys]) auto
      have t: "table_ok s2 t" using assms(3) l(8,9) by (simp add: table_ok_def)
      show ?thesis
        by (rule known [OF idx add l(4) t _ l(5,7,8)]) (use False free(1,2) l(6) in \<open>auto simp: entered_def\<close>)
    next
      case (evict v s1)
      note kp = keeps_pool_fields [OF evict(5)]
      have v: "v < NBR_TABLE_MAX_NEIGHBORS" "m_count (neighbor_addr_mem s1) ! v \<noteq> 0" "v \<notin> set (remove1 v is)"
        using assms(2) evict(2) unfolding kp by (simp_all add: nt_ok_def)
      have sub: "set (remove1 v is) \<subseteq> set is" by (rule set_remove1_subset)
      then have "a \<notin> addr_of s1 ` set (remove1 v is)" using False unfolding kp by blast
      from link_key [OF evict(4) v this assms(4)]
      obtain keys s2 where l: "list_add (nbr_table_keys s1) (key_of s v) = Some keys" "index_from_key (s1\<lparr>nbr_table_keys := keys\<rparr>) (key_of s v) = int v"
        "s2 = s1\<lparr>nbr_table_keys := keys, key_lladdr := (key_lladdr s1)(key_of s v := linkaddr_copy (key_lladdr s1 (key_of s v)) a)\<rparr>"
        "nt_ok s2 (remove1 v is @ [v])" "addr_of s2 v = a" "\<forall>j \<in> set (remove1 v is). addr_of s2 j = addr_of s j" "item_of s2 = item_of s" "tables s2 = tables s" "nt_mem s2 = nt_mem s1"
        unfolding kp by blast
      have add: "nbr_table_add_lladdr e t (Some a) s = do {
         let item = item_from_index s2 t (int v);
         m \<leftarrow> store_list (nt_mem s2) item (replicate (nt_item_size (tables s2 t)) 0);
         (_, used) \<leftarrow> nbr_set_bit (used_map s2) s2 t item True;
         Some (item, s2\<lparr>nt_mem := m, used_map := used\<rparr>) }"
        using evict(1) l(1-3) key_of_nonnull [OF pool, of v] by (intro add_lladdr_eq [OF idx, where key = "key_of s v" and ?s1.0 = s1 and keys = keys]) auto
      have t: "table_ok s2 t" using kp(8) [OF assms(3)] l(8,9) kp(4) by (simp add: table_ok_def)
      have en: "entered e s is a v (remove1 v is @ [v])" using False evict(3,6) by (auto simp: entered_def)
      show ?thesis
        by (rule known [OF idx add l(4) t _ l(5,7,8) en]) (use l(6) sub in auto)
    next
      case fail
      then have "nbr_table_add_lladdr e t (Some a) s = Some (NULL, s)"
        using idx by (simp add: nbr_table_add_lladdr_def or_null_addr_def)
      then show ?thesis using False fail(2) by blast
    qed
  qed
qed

subsection \<open>Initial tables\<close>

lemma nbr_table_init_ok:
  assumes "0 < m_size (neighbor_addr_mem s)" and "m_mem (neighbor_addr_mem s) \<noteq> NULL" and "m_num (neighbor_addr_mem s) = NBR_TABLE_MAX_NEIGHBORS"
    and "\<forall>p. length (key_lladdr s p) = LINKADDR_SIZE"
  shows "nt_ok (nbr_table_init s) []"
proof -
  have "memb_ok (memb_init (neighbor_addr_mem s))" "m_num (memb_init (neighbor_addr_mem s)) = NBR_TABLE_MAX_NEIGHBORS"
    using assms(1-3) by (auto simp: memb_init_def memb_ok_def)
  then show ?thesis using assms(4) by (simp add: nt_ok_def nbr_table_init_def list_init_def is_clist_def addr_of_def)
qed

lemma nbr_table_register_ok:
  assumes "nt_ok s is" and "num_tables s < MAX_NUM_TABLES" and "t \<noteq> NULL" and "0 < nt_item_size (tables s t)" and "nt_data (tables s t) \<noteq> NULL"
    and "accessible (nt_mem s) (nt_data (tables s t)) (NBR_TABLE_MAX_NEIGHBORS * nt_item_size (tables s t))"
  shows "fst (nbr_table_register t callback s) = 1" and "nt_ok (snd (nbr_table_register t callback s)) is"
    and "table_ok (snd (nbr_table_register t callback s)) t"
proof -
  let ?s = "snd (nbr_table_register t callback s)"
  show "fst (nbr_table_register t callback s) = 1" using assms(2) by (simp add: nbr_table_register_def)
  have e: "key_of ?s = key_of s" "addr_of ?s = addr_of s" by (simp_all add: nbr_table_register_def key_of_def addr_of_def fun_eq_iff)
  show t: "table_ok ?s t" using assms(2-6) by (simp add: nbr_table_register_def table_ok_def)
  have o: "table_ok ?s u" if "table_ok s u" for u
    using that t by (cases "u = t") (simp_all add: nbr_table_register_def table_ok_def)
  have "set (all_tables ?s) \<subseteq> insert t (set (all_tables s))"
    using set_update_subset_insert [of "all_tables s" "num_tables s" t] by (auto simp: nbr_table_register_def)
  then have "\<forall>u \<in> set (all_tables ?s). u \<noteq> NULL \<longrightarrow> table_ok ?s u" using t o assms(1) unfolding nt_ok_def by blast
  then show "nt_ok ?s is" using assms(1) unfolding nt_ok_def e by (simp add: nbr_table_register_def)
qed

subsection \<open>Properties\<close>

text \<open>Two neighbours, both in the table 1, whose items have four bytes.\<close>

definition sample_tables :: "unit nbr_tables" where
  "sample_tables = \<lparr>used_map = [1, 1, 0, 0, 0, 0, 0, 0, 0, 0], locked_map = replicate 10 0, all_tables = 1 # replicate 7 NULL, num_tables = 1,
     neighbor_addr_mem = \<lparr>m_size = 16, m_num = 10, m_count = 1 # 1 # replicate 8 0, m_mem = 100, m_data = []\<rparr>,
     nbr_table_keys = clist_of [100, 116], key_lladdr = (\<lambda>p. replicate 8 (of_nat p)),
     tables = (\<lambda>t. \<lparr>nt_index = 0, nt_item_size = 4, nt_callback = NULL, nt_data = 500\<rparr>), nt_mem = (\<lambda>_. Some 0), nt_world = ()\<rparr>"

lemma sample_table_ok: "table_ok sample_tables 1"
  by (simp add: table_ok_def sample_tables_def MAX_NUM_TABLES_def accessible_def)

lemma sample_addr_of: "addr_of sample_tables i = replicate 8 (of_nat (100 + i * 16))"
  by (simp add: addr_of_def key_of_def block_addr_def sample_tables_def)

lemma sample_tables_ok: "nt_ok sample_tables [0, 1]"
proof -
  have "is_clist (clist_of [100, 116]) [100, 116]" by (rule is_clist_clist_of) simp_all
  then have l: "is_clist (nbr_table_keys sample_tables) (map (key_of sample_tables) [0, 1])" 
    by (simp add: sample_tables_def key_of_def block_addr_def)
  have ten: "i < NBR_TABLE_MAX_NEIGHBORS \<Longrightarrow> i \<in> {0, 1, 2, 3, 4, 5, 6, 7, 8, 9}" for i by (auto simp: NBR_TABLE_MAX_NEIGHBORS_def)
  have "used_map sample_tables ! i = 0" if "i < NBR_TABLE_MAX_NEIGHBORS" "i \<notin> {0, 1}" for i
    using ten [OF that(1)] that(2) by (auto simp: sample_tables_def)
  moreover have "locked_map sample_tables ! i = 0" if "i < NBR_TABLE_MAX_NEIGHBORS" for i
    using that by (simp add: sample_tables_def NBR_TABLE_MAX_NEIGHBORS_def)
  moreover have "inj_on (addr_of sample_tables) {0, 1}" by (simp add: sample_addr_of inj_on_def)
  moreover have "memb_ok (neighbor_addr_mem sample_tables)" by (simp add: sample_tables_def memb_ok_def)
  moreover have "\<forall>t \<in> set (all_tables sample_tables). t \<noteq> NULL \<longrightarrow> table_ok sample_tables t"
    using sample_table_ok by (simp add: sample_tables_def)
  ultimately show ?thesis using l unfolding nt_ok_def
    by (simp add: sample_addr_of LINKADDR_SIZE_def) (simp add: sample_tables_def NBR_TABLE_MAX_NEIGHBORS_def MAX_NUM_TABLES_def)
qed

text \<open>
  All neighbours in use: the first one is locked, the first and the third are used by one table, the others by two. The callback of a table
  takes the item out of it, as those of the neighbour cache and of RPL do.
\<close>

definition full_tables :: "unit nbr_tables" where
  "full_tables = \<lparr>used_map = [1, 3, 1, 3, 3, 3, 3, 3, 3, 3], locked_map = 1 # replicate 9 0, all_tables = 1 # 2 # replicate 6 NULL, num_tables = 2,
     neighbor_addr_mem = \<lparr>m_size = 16, m_num = 10, m_count = replicate 10 1, m_mem = 100, m_data = []\<rparr>,
     nbr_table_keys = clist_of (map (\<lambda>i. 100 + i * 16) [0..<10]), key_lladdr = (\<lambda>p. replicate 8 (of_nat p)),
     tables = (\<lambda>t. \<lparr>nt_index = (if t = 1 then 0 else 1), nt_item_size = 4, nt_callback = t, nt_data = (if t = 1 then 500 else 600)\<rparr>),
     nt_mem = (\<lambda>_. Some 0), nt_world = ()\<rparr>"

definition remove_env :: "'w nt_env" where
  "remove_env = \<lparr>env_callback = (\<lambda>t item s. case nbr_table_remove t item s of None \<Rightarrow> s | Some (_, s') \<Rightarrow> s'), env_find_removable = None\<rparr>"

lemma set_bit_zero:
  "nbr_set_bit b s t item False = Some (r, b') \<Longrightarrow> length b' = length b \<and> (\<forall>i < length b. b ! i = 0 \<longrightarrow> b' ! i = 0)"
  by (auto simp: nbr_set_bit_def map_at_def Let_def nth_list_update split: if_splits Option.bind_splits)

lemma remove_env_ok: "env_ok remove_env"
proof -
  have "only_uses s s'" if r: "nbr_table_remove t item s = Some (ret, s')" for t item s ret and s' :: "'a nbr_tables"
  proof -
    obtain used r2 locked where u: "nbr_set_bit (used_map s) s t item False = Some (ret, used)"
      "nbr_set_bit (locked_map s) (s\<lparr>used_map := used\<rparr>) t item False = Some (r2, locked)" "s' = s\<lparr>used_map := used, locked_map := locked\<rparr>"
      using r by (auto simp: nbr_table_remove_def Let_def split: Option.bind_splits)
    show ?thesis using set_bit_zero [OF u(1)] set_bit_zero [OF u(2)] by (simp add: u(3) only_uses_def)
  qed
  then show ?thesis using only_uses_refl by (auto simp: env_ok_def remove_env_def split: option.split)
qed

lemma full_table_ok: "t \<noteq> NULL \<Longrightarrow> table_ok full_tables t"
  by (simp add: table_ok_def full_tables_def MAX_NUM_TABLES_def accessible_def)

lemma full_addr_of: "addr_of full_tables i = replicate 8 (of_nat (100 + i * 16))"
  by (simp add: addr_of_def key_of_def block_addr_def full_tables_def)

lemma ten_cases: "i < 10 \<longleftrightarrow> i = 0 \<or> i = 1 \<or> i = 2 \<or> i = 3 \<or> i = 4 \<or> i = 5 \<or> i = 6 \<or> i = 7 \<or> i = 8 \<or> i = (9 :: nat)"
  by auto

lemma full_tables_ok: "nt_ok full_tables [0..<10]"
proof -
  have "is_clist (clist_of (map (\<lambda>i. 100 + i * 16) [0..<10])) (map (\<lambda>i. 100 + i * 16) [0..<10])"
    by (rule is_clist_clist_of) (auto simp: distinct_map inj_on_def)
  then have l: "is_clist (nbr_table_keys full_tables) (map (key_of full_tables) [0..<10])"
    by (simp add: full_tables_def key_of_def [abs_def] block_addr_def)
  have inj: "inj_on (addr_of full_tables) (set [0..<10])"
  proof (rule inj_onI)
    fix i j assume a: "i \<in> set [0..<10]" "j \<in> set [0..<10]" "addr_of full_tables i = addr_of full_tables j"
    have "(of_nat (100 + i * 16) :: u8) = of_nat (100 + j * 16)" using a(3) unfolding full_addr_of by (metis nth_replicate zero_less_numeral)
    then have "unat (of_nat (100 + i * 16) :: u8) = unat (of_nat (100 + j * 16) :: u8)" by simp
    then show "i = j" using a(1,2) by (simp add: unat_of_nat del: of_nat_add of_nat_mult)
  qed
  have c: "m_count (neighbor_addr_mem full_tables) ! i \<noteq> 0" if "i < 10" for i using that by (simp add: full_tables_def)
  have "memb_ok (neighbor_addr_mem full_tables)" by (simp add: full_tables_def memb_ok_def)
  moreover have "\<forall>t \<in> set (all_tables full_tables). t \<noteq> NULL \<longrightarrow> table_ok full_tables t" using full_table_ok by blast
  moreover have "length (addr_of full_tables i) = LINKADDR_SIZE" for i by (simp add: full_addr_of LINKADDR_SIZE_def)
  moreover have "m_num (neighbor_addr_mem full_tables) = 10" "length (used_map full_tables) = 10" "length (locked_map full_tables) = 10"
    "length (all_tables full_tables) = 8" by (simp_all add: full_tables_def)
  ultimately show ?thesis using l inj c unfolding nt_ok_def NBR_TABLE_MAX_NEIGHBORS_def MAX_NUM_TABLES_def by simp
qed

lemma full_victim: "victim full_tables [0..<10] v \<Longrightarrow> v = 2"
proof -
  assume v: "victim full_tables [0..<10] v"
  then have u: "v < 10" "locked_map full_tables ! v = 0" using victim_in by fastforce+
  have "uses full_tables v \<le> uses full_tables 2" by (rule victim_least [OF v]) (simp_all add: full_tables_def)
  moreover have "uses full_tables v = (if v = 0 \<or> v = 2 then 1 else 2)" if "v < 10" for v
  proof -
    have c: "count_bits 1 0 = 1" "count_bits 3 0 = 2" by (simp_all add: count_bits.simps)
    have "used_map full_tables ! v = (if v = 0 \<or> v = 2 then 1 else 3)" using that unfolding ten_cases by (auto simp: full_tables_def)
    then show ?thesis using c by (simp flip: count_bits_uses)
  qed
  ultimately have "v = 0 \<or> v = 2" using u(1) by (auto split: if_splits)
  moreover have "v \<noteq> 0" using u(2) by (cases v) (simp_all add: full_tables_def)
  ultimately show ?thesis by blast
qed

text \<open>What is added to them goes to the place of the third neighbour.\<close>

lemma full_new: "replicate 8 7 \<notin> addr_of full_tables ` set [0..<10]"
proof
  assume "replicate 8 7 \<in> addr_of full_tables ` set [0..<10]"
  then obtain i where i: "i < 10" "replicate 8 7 = (replicate 8 (of_nat (100 + i * 16)) :: u8 list)" unfolding full_addr_of by auto
  have "(7 :: u8) = of_nat (100 + i * 16)" using i(2) by (metis nth_replicate zero_less_numeral)
  then have "unat (7 :: u8) = unat (of_nat (100 + i * 16) :: u8)" by (rule arg_cong)
  moreover have "unat (of_nat (100 + i * 16) :: u8) = 100 + i * 16" using i(1) by (subst unat_of_nat) simp
  ultimately show False by simp
qed

lemma full_room: "\<not> no_room remove_env full_tables [0..<10]"
  by (auto simp: no_room_def remove_env_def full_tables_def intro!: bexI [of _ 1])

lemma full_entered: "entered remove_env full_tables [0..<10] (replicate 8 7) i is' \<Longrightarrow> i = 2 \<and> is' = [0, 1, 3, 4, 5, 6, 7, 8, 9, 2]"
proof -
  assume e: "entered remove_env full_tables [0..<10] (replicate 8 7) i is'"
  have "\<not> (\<exists>k < NBR_TABLE_MAX_NEIGHBORS. m_count (neighbor_addr_mem full_tables) ! k = 0)"
    by (simp add: full_tables_def NBR_TABLE_MAX_NEIGHBORS_def)
  then have "evicted remove_env full_tables [0..<10] i \<and> is' = remove1 i [0..<10] @ [i]" using e full_new by (simp only: entered_def if_False)
  then have "i = 2" "is' = remove1 i [0..<10] @ [i]" using full_victim by (auto simp: evicted_def remove_env_def)
  then show ?thesis by (simp add: upt_rec)
qed

text \<open>
  C7: Adding a neighbour to a table. Either there is no room, and then nothing changes and the result is NULL: every key is in use, and the policy
  refuses or every neighbour is locked. Or the result is the item of a neighbour with this address, cleared and marked as used, which a
  lookup now finds: the neighbour that had the address, or a new one behind the others, on a free key or on the key of the one neighbour that
  is evicted. The tables stay well formed and every other neighbour keeps its address. The callbacks that an eviction runs may do what \<open>only_uses\<close>
  allows: change items, take neighbours out of tables and change locks, but neither add a neighbour nor register a table.
\<close>

theorem nbr_table_add_correct:
  assumes "env_ok e" and "nt_ok s is" and "table_ok s t" and "length a = LINKADDR_SIZE"
  shows "\<exists>item s'. nbr_table_add_lladdr e t (Some a) s = Some (item, s') \<and>
    (item = NULL \<and> s' = s \<and> a \<notin> addr_of s ` set is \<and> no_room e s is \<or>
     (\<exists>i is'. item = item_of s t i \<and> item \<noteq> NULL \<and> entered e s is a i is' \<and> nt_ok s' is' \<and> i \<in> set is' \<and> addr_of s' i = a \<and>
        nbr_table_get_from_lladdr s' t (Some a) = Some item \<and> bytes_at (nt_mem s') item (replicate (nt_item_size (tables s t)) 0) \<and>
        (\<forall>j \<in> set is' - {i}. j \<in> set is \<and> addr_of s' j = addr_of s j)))"
  by (rule add_cases [OF assms])

theorem nbr_table_add_correct_witness:
  "\<exists>s'. nbr_table_add_lladdr remove_env 1 (Some (replicate 8 7)) full_tables = Some (508, s') \<and> nt_ok s' [0, 1, 3, 4, 5, 6, 7, 8, 9, 2] \<and>
    addr_of s' 2 = replicate 8 7 \<and> nbr_table_get_from_lladdr s' 1 (Some (replicate 8 7)) = Some 508"
proof -
  have len: "length (replicate 8 7 :: u8 list) = LINKADDR_SIZE" by (simp add: LINKADDR_SIZE_def)
  have item: "item_of full_tables 1 2 = 508" by (simp add: item_of_def full_tables_def)
  show ?thesis
    using nbr_table_add_correct [OF remove_env_ok full_tables_ok full_table_ok len, of 1] full_room full_entered item by fastforce
qed

text \<open>
  C36: Without a policy, whatever is added, every neighbour is still found at its key afterwards, except for one that no table locks,
  that no unlocked neighbour is used by fewer tables than, and that is the oldest of those: an addition never evicts a locked neighbour, and
  it fails only when all of them are locked. Callbacks are restricted as above.
\<close>

theorem eviction_takes_least_used:
  assumes "env_ok e" and "env_find_removable e = None" and "nt_ok s is" and "table_ok s t" and "length a = LINKADDR_SIZE"
    and "nbr_table_add_lladdr e t (Some a) s = Some (item, s')"
  shows "(\<forall>j \<in> set is. index_from_lladdr s' (Some (addr_of s j)) = Some (int j) \<or> victim s is j) \<and>
    (\<forall>j. victim s is j \<longrightarrow> locked_map s ! j = 0 \<and> (\<forall>w \<in> set is. locked_map s ! w = 0 \<longrightarrow> uses s j \<le> uses s w)) \<and>
    (item = NULL \<longrightarrow> (\<forall>j \<in> set is. locked_map s ! j \<noteq> 0))"
proof -
  have len: "length (addr_of s j) = LINKADDR_SIZE" if "j \<in> set is" for j using assms(3) that by (simp add: nt_ok_def)
  have "(\<forall>j \<in> set is. index_from_lladdr s' (Some (addr_of s j)) = Some (int j) \<or> victim s is j) \<and>
    (item = NULL \<longrightarrow> (\<forall>j \<in> set is. locked_map s ! j \<noteq> 0))"
    using add_cases [OF assms(1,3-5)] unfolding assms(6) option.inject prod.inject
  proof (elim exE conjE disjE)
    fix i t' assume r: "item = i" "s' = t'" "i = NULL" "t' = s" "no_room e s is"
    then show ?thesis using add_known [OF assms(3)] len assms(2) by (auto simp: no_room_def)
  next
    fix it t' i is' assume "item = it" "s' = t'"
      and r: "it \<noteq> NULL" "entered e s is a i is'" "nt_ok t' is'" "i \<in> set is'" "addr_of t' i = a"
        "\<forall>j \<in> set is' - {i}. j \<in> set is \<and> addr_of t' j = addr_of s j"
    have "index_from_lladdr t' (Some (addr_of s j)) = Some (int j) \<or> victim s is j" if j: "j \<in> set is" for j
    proof -
      have "j \<in> set is' \<and> addr_of t' j = addr_of s j \<or> victim s is j"
      proof (cases "j = i")
        case False
        then have "j \<in> set is'" using r(2) j unfolding entered_def by (auto split: if_splits)
        then show ?thesis using r(6) False by blast
      next
        case True
        have "m_count (neighbor_addr_mem s) ! i \<noteq> 0" using assms(3) j True by (simp add: nt_ok_def)
        then have "addr_of s i = a \<or> victim s is i" using r(2) assms(2) unfolding entered_def evicted_def by (auto split: if_splits)
        then show ?thesis using r(4,5) True by auto
      qed
      then show ?thesis using add_known [OF r(3) _ len [OF j]] by blast
    qed
    then show ?thesis using r(1) \<open>item = it\<close> \<open>s' = t'\<close> by simp
  qed
  then show ?thesis using victim_in [of s "is"] victim_least [of s "is"] by blast
qed

text \<open>The third neighbour is evicted; the locked one, and those that more tables use, are still found.\<close>

theorem eviction_takes_least_used_witness:
  "\<exists>item s'. nbr_table_add_lladdr remove_env 1 (Some (replicate 8 7)) full_tables = Some (item, s') \<and> item = 508 \<and>
    index_from_lladdr s' (Some (addr_of full_tables 0)) = Some 0 \<and> index_from_lladdr s' (Some (addr_of full_tables 1)) = Some 1 \<and>
    index_from_lladdr s' (Some (addr_of full_tables 9)) = Some 9"
proof -
  have p: "env_find_removable (remove_env :: unit nt_env) = None" "length (replicate 8 7 :: u8 list) = LINKADDR_SIZE"
    by (simp_all add: remove_env_def LINKADDR_SIZE_def)
  have item: "item_of full_tables 1 2 = 508" by (simp add: item_of_def full_tables_def)
  have t: "table_ok full_tables 1" by (rule full_table_ok) simp
  obtain s' where a: "nbr_table_add_lladdr remove_env 1 (Some (replicate 8 7)) full_tables = Some (508, s')"
    using add_cases [OF remove_env_ok full_tables_ok t p(2)] full_room full_entered item by fastforce
  note e = eviction_takes_least_used [OF remove_env_ok p(1) full_tables_ok t p(2) a, THEN conjunct1]
  have "index_from_lladdr s' (Some (addr_of full_tables j)) = Some (int j)" if "j < 10" "j \<noteq> 2" for j
    using e that full_victim by auto
  from this [of 0] this [of 1] this [of 9] a show ?thesis by simp
qed

text \<open>
  C37: Changing the address of a neighbour to one that another neighbour has, with removal: the neighbour leaves the list, but its key is not
  given back to the pool, so that it is neither known nor free. Every such call makes the table smaller by one for ever, until no neighbour
  can be added at all. Callbacks are restricted as above.
\<close>

theorem update_loses_key:
  assumes "env_ok e" and "nt_ok s is" and "i \<in> set is" and "j \<in> set is" and "i \<noteq> j"
  shows "\<exists>s'. nbr_table_update_lladdr e (addr_of s i) (addr_of s j) True s = Some (0, s') \<and> nt_ok s' (remove1 i is) \<and>
    key_of s' i \<in> memb_used (neighbor_addr_mem s') \<and> i \<notin> set (remove1 i is) \<and> memb_numfree (neighbor_addr_mem s') = memb_numfree (neighbor_addr_mem s)"
proof -
  have len: "length (addr_of s k) = LINKADDR_SIZE" if "k \<in> set is" for k using assms(2) that by (simp add: nt_ok_def)
  have idx: "index_from_lladdr s (Some (addr_of s i)) = Some (int i)" "index_from_lladdr s (Some (addr_of s j)) = Some (int j)"
    using add_known [OF assms(2)] len assms(3,4) by blast+
  obtain s' where s': "remove_key e (key_of s i) s = Some s'" "nt_ok s' (remove1 i is)" "keeps_pool s s'"
    using remove_key_ok [OF assms(1-3)] by blast
  note kp = keeps_pool_fields [OF s'(3)]
  have i: "i < m_num (neighbor_addr_mem s)" "m_count (neighbor_addr_mem s) ! i \<noteq> 0" "distinct is"
    using assms(2,3) by (simp_all add: nt_ok_def)
  have "key_of s i \<in> memb_used (neighbor_addr_mem s)"
    using memb_used_block [OF nt_ok_pool [OF assms(2)] i(1)] i(2) by (simp add: key_of_def)
  moreover have "nbr_table_update_lladdr e (addr_of s i) (addr_of s j) True s = Some (0, s')"
    using idx s'(1) assms(5) by (simp add: nbr_table_update_lladdr_def key_from_index_of)
  ultimately show ?thesis using s'(2) i(3) kp(2,5) by (intro exI [of _ s']) simp
qed

text \<open>The neighbour that is lost is the locked one: the callback of its table runs, takes it out of the table and opens its lock.\<close>

theorem update_loses_key_witness:
  "\<exists>s'. nbr_table_update_lladdr remove_env (addr_of full_tables 0) (addr_of full_tables 1) True full_tables = Some (0, s') \<and>
    nt_ok s' [1, 2, 3, 4, 5, 6, 7, 8, 9] \<and> key_of s' 0 \<in> memb_used (neighbor_addr_mem s') \<and>
    memb_numfree (neighbor_addr_mem s') = memb_numfree (neighbor_addr_mem full_tables)"
proof -
  have "remove1 0 [0..<10] = [1, 2, 3, 4, 5, 6, 7, 8, 9 :: nat]" by (simp add: upt_rec)
  then show ?thesis using update_loses_key [OF remove_env_ok full_tables_ok, of 0 1] by auto
qed

text \<open>
  Iterating over a table: \<open>nbr_table_head\<close> and \<open>nbr_table_next\<close> return, and go through the items of exactly the neighbours
  that the table uses, from the oldest to the latest, and then to NULL.
\<close>

theorem nbr_table_iteration:
  assumes "nt_ok s is" and "table_ok s t"
  shows "nbr_table_head s t = Some (first_or_null (items s t is)) \<and>
    (\<forall>xs i ys. is = xs @ i # ys \<longrightarrow> nbr_table_next s t (item_of s t i) = Some (first_or_null (items s t ys))) \<and>
    set (items s t is) = {item_of s t i | i. i < NBR_TABLE_MAX_NEIGHBORS \<and> bit (used_map s ! i) (nt_index (tables s t))}"
proof (intro conjI allI impI)
  note pool = nt_ok_pool [OF assms(1)]
  have lens: "\<forall>i \<in> set is. i < length (used_map s)" using assms(1) by (simp add: nt_ok_def)
  have c: "chain (cl_next (nbr_table_keys s)) (cl_head (nbr_table_keys s)) (map (key_of s) is)"
    using assms(1) by (simp add: nt_ok_def is_clist_def)
  have after: "nbr_table_next s t (item_of s t i) = Some (first_or_null (items s t ys))" if e: "is = xs @ i # ys" for xs i ys
  proof (rule next_chain [OF pool assms(2)])
    show "\<forall>i \<in> set ys. i < length (used_map s)" using lens e by simp
    have "chain (cl_next (nbr_table_keys s)) (key_of s i) (key_of s i # map (key_of s) ys)"
      using c unfolding e map_append list.map by (rule chain_append)
    then show "chain (cl_next (nbr_table_keys s)) (list_item_next (nbr_table_keys s) (key_from_item s t (item_of s t i))) (map (key_of s) ys)"
      using key_of_nonnull [OF pool, of i] by (simp add: key_from_item_of [OF assms(2)] list_item_next_def)
  qed
  then show "nbr_table_next s t (item_of s t i) = Some (first_or_null (items s t ys))" if "is = xs @ i # ys" for xs i ys using that by blast
  show "nbr_table_head s t = Some (first_or_null (items s t is))"
  proof (cases "is")
    case Nil
    then have h: "list_head (nbr_table_keys s) = NULL" using c by (simp add: list_head_def)
    have "nbr_table_next s t NULL = Some (first_or_null (items s t []))"
      by (rule next_chain [OF pool assms(2)]) (simp_all add: key_from_item_null list_item_next_def)
    then show ?thesis using Nil h by (simp add: nbr_table_head_def item_from_key_null get_bit_null)
  next
    case (Cons i ys)
    have h: "list_head (nbr_table_keys s) = key_of s i" using c Cons by (simp add: list_head_def)
    have "nbr_get_bit (used_map s) s t (item_of s t i) = Some (bit (used_map s ! i) (nt_index (tables s t)))"
      using lens Cons by (intro get_bit_of [OF assms(2)]) simp
    then show ?thesis using after [of "[]" i ys] Cons h
      by (simp add: nbr_table_head_def item_from_key_of [OF pool assms(2)] items_def first_or_null_def)
  qed
  have "i \<in> set is" if "i < NBR_TABLE_MAX_NEIGHBORS" "bit (used_map s ! i) (nt_index (tables s t))" for i
    using that assms(1) by (cases "i \<in> set is") (simp_all add: nt_ok_def)
  moreover have "i < NBR_TABLE_MAX_NEIGHBORS" if "i \<in> set is" for i using that assms(1) by (simp add: nt_ok_def)
  ultimately show "set (items s t is) = {item_of s t i | i. i < NBR_TABLE_MAX_NEIGHBORS \<and> bit (used_map s ! i) (nt_index (tables s t))}"
    by (auto simp: items_def)
qed

theorem nbr_table_iteration_witness:
  "nbr_table_head sample_tables 1 = Some 500 \<and> nbr_table_next sample_tables 1 500 = Some 504 \<and> nbr_table_next sample_tables 1 504 = Some NULL"
proof -
  note t = nbr_table_iteration [OF sample_tables_ok sample_table_ok]
  have i: "item_of sample_tables 1 0 = 500" "item_of sample_tables 1 1 = 504" by (simp_all add: item_of_def sample_tables_def)
  have u: "items sample_tables 1 [0, 1] = [500, 504]" "items sample_tables 1 [1] = [504]" "items sample_tables 1 [] = []"
    unfolding items_def by (simp_all add: item_of_def sample_tables_def)
  have "nbr_table_next sample_tables 1 (item_of sample_tables 1 0) = Some (first_or_null (items sample_tables 1 [1]))"
    "nbr_table_next sample_tables 1 (item_of sample_tables 1 1) = Some (first_or_null (items sample_tables 1 []))"
    using t [THEN conjunct2, THEN conjunct1, rule_format, of "[]" 0 "[1]"] t [THEN conjunct2, THEN conjunct1, rule_format, of "[0]" 1 "[]"] by simp_all
  then show ?thesis using t [THEN conjunct1] unfolding i u by (simp add: first_or_null_def)
qed

end
