(* ===== verification/Mac_Sequence.thy ===== *)
theory Mac_Sequence
  imports Linkaddr
begin

section \<open>Sequence numbers of received frames (dll/tsch/mac-sequence.c)\<close>

text \<open>
  The table holds the latest sequence number of up to 16 senders, the one heard last in front. The sender and the sequence number of the
  frame are attributes of the packet buffer, and arguments here. No file defines \<open>CLOCK_SECOND\<close>, so the preprocessor takes \<open>SEQNO_MAX_AGE\<close> for 0:
  the age of an entry is stored, but not tested.
\<close>

subsection \<open>Operations\<close>

definition MAX_SEQNOS :: nat where "MAX_SEQNOS = 16"

record seqno =
  sq_sender :: linkaddr
  sq_timestamp :: u32
  sq_seqno :: u8

text \<open>The static array is zero at first.\<close>

definition received_seqnos0 :: "seqno list" where
  "received_seqnos0 = replicate MAX_SEQNOS \<lparr>sq_sender = linkaddr_null, sq_timestamp = 0, sq_seqno = 0\<rparr>"

function duplicate_loop :: "linkaddr \<Rightarrow> u16 \<Rightarrow> seqno list \<Rightarrow> nat \<Rightarrow> bool" where
  "duplicate_loop sender attr received_seqnos i =
     (if i < MAX_SEQNOS then
        if linkaddr_cmp sender (sq_sender (received_seqnos ! i)) then attr = ucast (sq_seqno (received_seqnos ! i))
        else duplicate_loop sender attr received_seqnos (Suc i)
      else False)"
  by pat_completeness auto
termination by (relation "measure (\<lambda>(a, q, r, i). MAX_SEQNOS - i)") auto

definition mac_sequence_is_duplicate :: "linkaddr \<Rightarrow> u16 \<Rightarrow> seqno list \<Rightarrow> bool" where
  "mac_sequence_is_duplicate sender attr received_seqnos = duplicate_loop sender attr received_seqnos 0"

text \<open>The index behind the entry of the sender, or \<open>MAX_SEQNOS\<close>.\<close>

function locate_loop :: "linkaddr \<Rightarrow> seqno list \<Rightarrow> nat \<Rightarrow> nat" where
  "locate_loop sender received_seqnos i =
     (if i < MAX_SEQNOS then
        if linkaddr_cmp sender (sq_sender (received_seqnos ! i)) then i + 1 else locate_loop sender received_seqnos (Suc i)
      else i)"
  by pat_completeness auto
termination by (relation "measure (\<lambda>(a, r, i). MAX_SEQNOS - i)") auto

fun shift_down :: "seqno list \<Rightarrow> nat \<Rightarrow> seqno list" where
  "shift_down r 0 = r"
| "shift_down r (Suc j) = shift_down (r[Suc j := r ! j]) j"

definition mac_sequence_register_seqno :: "linkaddr \<Rightarrow> u16 \<Rightarrow> u32 \<Rightarrow> seqno list \<Rightarrow> seqno list" where
  "mac_sequence_register_seqno sender attr tick received_seqnos =
     (let i = locate_loop sender received_seqnos 0;
          r = shift_down received_seqnos (i - 1);
          r = r[0 := (r ! 0)\<lparr>sq_seqno := ucast attr\<rparr>];
          r = r[0 := (r ! 0)\<lparr>sq_timestamp := tick\<rparr>]
      in r[0 := (r ! 0)\<lparr>sq_sender := linkaddr_copy (sq_sender (r ! 0)) sender\<rparr>])"

declare duplicate_loop.simps [simp del] locate_loop.simps [simp del]

subsection \<open>The table as a list\<close>

definition seq_ok :: "seqno list \<Rightarrow> bool" where
  "seq_ok r \<longleftrightarrow> length r = MAX_SEQNOS \<and> (\<forall>e \<in> set r. length (sq_sender e) = LINKADDR_SIZE)"

lemma seq_ok_nth: "seq_ok r \<Longrightarrow> i < MAX_SEQNOS \<Longrightarrow> length (sq_sender (r ! i)) = LINKADDR_SIZE"
  by (simp add: seq_ok_def)

lemma duplicate_loop_find:
  assumes "seq_ok r" and "length a = LINKADDR_SIZE"
  shows "i \<le> MAX_SEQNOS \<Longrightarrow> duplicate_loop a q r i \<longleftrightarrow> (case find (\<lambda>e. sq_sender e = a) (drop i r) of None \<Rightarrow> False | Some e \<Rightarrow> q = ucast (sq_seqno e))"
proof (induction "MAX_SEQNOS - i" arbitrary: i)
  case 0
  then show ?case using assms(1) by (subst duplicate_loop.simps) (simp add: seq_ok_def)
next
  case (Suc n)
  then have i: "i < MAX_SEQNOS" "i < length r" using assms(1) by (simp_all add: seq_ok_def)
  have "n = MAX_SEQNOS - Suc i" using Suc.hyps(2) by simp
  from Suc.hyps(1) [OF this] i(1) show ?case
    using linkaddr_cmp_eq [OF assms(2) seq_ok_nth [OF assms(1) i(1)]]
    by (subst duplicate_loop.simps) (auto simp: Cons_nth_drop_Suc [OF i(2), symmetric])
qed

lemma shift_down_eq: "k < length r \<Longrightarrow> shift_down r k = take 1 r @ take k r @ drop (Suc k) r"
proof (induction k arbitrary: r)
  case 0 then show ?case by (cases r) simp_all
next
  case (Suc k)
  have "shift_down (r[Suc k := r ! k]) k = take 1 (r[Suc k := r ! k]) @ take k (r[Suc k := r ! k]) @ drop (Suc k) (r[Suc k := r ! k])"
    using Suc by simp
  also have "drop (Suc k) (r[Suc k := r ! k]) = r ! k # drop (Suc (Suc k)) r"
    using Suc.prems by (simp add: drop_update_swap Cons_nth_drop_Suc [symmetric])
  also have "take 1 (r[Suc k := r ! k]) = take 1 r" by (cases r) simp_all
  finally show ?case using Suc.prems by (simp add: take_Suc_conv_app_nth)
qed

lemma locate_loop_eq:
  assumes "seq_ok r" and "length a = LINKADDR_SIZE"
  shows "i \<le> MAX_SEQNOS \<Longrightarrow> locate_loop a r i = min MAX_SEQNOS (i + length (takeWhile (\<lambda>e. sq_sender e \<noteq> a) (drop i r)) + 1)"
proof (induction "MAX_SEQNOS - i" arbitrary: i)
  case 0
  then show ?case using assms(1) by (subst locate_loop.simps) (simp add: seq_ok_def)
next
  case (Suc n)
  then have i: "i < MAX_SEQNOS" "i < length r" using assms(1) by (simp_all add: seq_ok_def)
  have "n = MAX_SEQNOS - Suc i" using Suc.hyps(2) by simp
  from Suc.hyps(1) [OF this] i(1) show ?case
    using linkaddr_cmp_eq [OF assms(2) seq_ok_nth [OF assms(1) i(1)]]
    by (subst locate_loop.simps) (auto simp: Cons_nth_drop_Suc [OF i(2), symmetric])
qed

text \<open>Registering puts the entry in front and takes out the old one of the sender, or the last.\<close>

lemma register_eq:
  assumes "seq_ok r" and "length a = LINKADDR_SIZE"
    and "k = min (MAX_SEQNOS - 1) (length (takeWhile (\<lambda>e. sq_sender e \<noteq> a) r))"
  shows "mac_sequence_register_seqno a q t r = \<lparr>sq_sender = a, sq_timestamp = t, sq_seqno = ucast q\<rparr> # take k r @ drop (Suc k) r"
    and "seq_ok (mac_sequence_register_seqno a q t r)"
proof -
  have n: "length r = MAX_SEQNOS" "k < length r" using assms(1,3) by (simp_all add: seq_ok_def MAX_SEQNOS_def)
  have "locate_loop a r 0 - 1 = k" using locate_loop_eq [OF assms(1,2), of 0] assms(3) by (simp add: MAX_SEQNOS_def)
  moreover obtain e r' where r: "r = e # r'" using n by (cases r) auto
  moreover have "linkaddr_copy (sq_sender e) a = a" using assms(1,2) r by (intro linkaddr_copy_eq) (simp_all add: seq_ok_def)
  ultimately show eq: "mac_sequence_register_seqno a q t r = \<lparr>sq_sender = a, sq_timestamp = t, sq_seqno = ucast q\<rparr> # take k r @ drop (Suc k) r"
    using shift_down_eq [OF n(2)] by (simp add: mac_sequence_register_seqno_def Let_def)
  show "seq_ok (mac_sequence_register_seqno a q t r)"
    unfolding eq using assms(1,2) n by (auto simp: seq_ok_def dest: in_set_takeD in_set_dropD)
qed

subsection \<open>Histories\<close>

text \<open>The table after frames were registered, given from the latest to the first.\<close>

fun seq_table :: "(linkaddr \<times> u16 \<times> u32) list \<Rightarrow> seqno list" where
  "seq_table [] = received_seqnos0"
| "seq_table ((a, q, t) # hs) = mac_sequence_register_seqno a q t (seq_table hs)"

lemma seq_table_ok: "\<forall>h \<in> set hs. length (fst h) = LINKADDR_SIZE \<Longrightarrow> seq_ok (seq_table hs)"
proof (induction hs)
  case Nil then show ?case by (simp add: seq_ok_def received_seqnos0_def linkaddr_null_def)
next
  case (Cons h hs)
  obtain a q t where h: "h = (a, q, t)" by (cases h)
  have "seq_ok (seq_table hs)" using Cons by simp
  from register_eq(2) [OF this _ refl] show ?case using Cons.prems by (simp add: h)
qed

lemma seq_table_split:
  assumes "\<forall>h \<in> set (us @ (a, q, t) # hs). length (fst h) = LINKADDR_SIZE" and "a \<notin> fst ` set us" and "card (fst ` set us) < MAX_SEQNOS"
  shows "\<exists>xs ys. seq_table (us @ (a, q, t) # hs) = xs @ \<lparr>sq_sender = a, sq_timestamp = t, sq_seqno = ucast q\<rparr> # ys \<and>
    sq_sender ` set xs = fst ` set us \<and> distinct (map sq_sender xs)"
  using assms
proof (induction us)
  case Nil
  then have "seq_ok (seq_table hs)" by (intro seq_table_ok) simp
  note r = register_eq(1) [OF this _ refl, of a q t]
  have "length a = LINKADDR_SIZE" using Nil(1) by simp
  from r [OF this] show ?case by (intro exI [of _ "[]"] exI conjI) simp_all
next
  case (Cons u us)
  obtain b p s where u: "u = (b, p, s)" by (cases u)
  let ?e = "\<lparr>sq_sender = a, sq_timestamp = t, sq_seqno = ucast q\<rparr>" and ?n = "\<lparr>sq_sender = b, sq_timestamp = s, sq_seqno = ucast p\<rparr>"
  let ?r = "seq_table (us @ (a, q, t) # hs)"
  have fin: "finite (fst ` set us)" by simp
  have "card (fst ` set us) \<le> card (fst ` set (u # us))" by (intro card_mono) auto
  then have "card (fst ` set us) < MAX_SEQNOS" using Cons.prems(3) by simp
  moreover have "\<forall>h \<in> set (us @ (a, q, t) # hs). length (fst h) = LINKADDR_SIZE" "a \<notin> fst ` set us" using Cons.prems(1,2) by simp_all
  ultimately obtain xs ys where r: "?r = xs @ ?e # ys" and xs: "sq_sender ` set xs = fst ` set us" "distinct (map sq_sender xs)"
    using Cons.IH by blast
  have ok: "seq_ok ?r" using Cons.prems(1) by (intro seq_table_ok) simp
  have b: "length b = LINKADDR_SIZE" "a \<noteq> b" using Cons.prems(1,2) u by auto
  let ?k = "min (MAX_SEQNOS - 1) (length (takeWhile (\<lambda>e. sq_sender e \<noteq> b) ?r))"
  have t: "seq_table ((u # us) @ (a, q, t) # hs) = ?n # take ?k ?r @ drop (Suc ?k) ?r"
    using register_eq(1) [OF ok b(1) refl] by (simp add: u)
  have len: "length xs + length ys + 1 = MAX_SEQNOS" using ok unfolding r seq_ok_def by simp
  have card_xs: "length xs = card (fst ` set us)" using distinct_card [OF xs(2)] xs(1) by simp
  show ?case
  proof (cases "b \<in> sq_sender ` set xs")
    case True
    then obtain x1 e x2 where x: "xs = x1 @ e # x2" "sq_sender e = b" "b \<notin> sq_sender ` set x1"
      using split_list_first_prop [of xs "\<lambda>e. sq_sender e = b"] by fastforce
    have tw: "takeWhile (\<lambda>e. sq_sender e \<noteq> b) ?r = x1"
      unfolding r x(1) using x(2,3) by (simp add: takeWhile_append2 image_iff) (auto simp: takeWhile_append)
    have k: "?k = length x1" unfolding tw using len x(1) by simp
    have "?n # take ?k ?r @ drop (Suc ?k) ?r = (?n # x1 @ x2) @ ?e # ys" unfolding k unfolding r x(1) by simp
    moreover have "sq_sender ` set (?n # x1 @ x2) = fst ` set (u # us)" using xs(1) x(1,2) u by auto
    moreover have "distinct (map sq_sender (?n # x1 @ x2))" using xs(2) x by auto
    ultimately show ?thesis unfolding t by blast
  next
    case False
    then have "card (fst ` set (u # us)) = Suc (length xs)" using xs(1) card_xs u by simp
    then have xl: "Suc (length xs) < MAX_SEQNOS" using Cons.prems(3) by simp
    have "takeWhile (\<lambda>e. sq_sender e \<noteq> b) ?r = xs @ ?e # takeWhile (\<lambda>e. sq_sender e \<noteq> b) ys"
      unfolding r using False b(2) by (subst takeWhile_append2) auto
    then have k: "length (xs @ [?e]) \<le> ?k" using xl by (simp add: MAX_SEQNOS_def)
    then obtain d where d: "?k = length (xs @ [?e]) + d" using le_Suc_ex by blast
    have "take (length (xs @ [?e]) + d) ?r = (xs @ [?e]) @ take d ys" unfolding r by simp
    then have "?n # take ?k ?r @ drop (Suc ?k) ?r = (?n # xs) @ ?e # (take d ys @ drop (Suc ?k) ?r)" unfolding d by simp
    moreover have "sq_sender ` set (?n # xs) = fst ` set (u # us)" using xs(1) u by simp
    moreover have "distinct (map sq_sender (?n # xs))" using xs(2) False by simp
    ultimately show ?thesis unfolding t by blast
  qed
qed

text \<open>
  C38: Duplicates, over every history of registered frames: a frame of a sender with a registered frame is reported as a duplicate exactly when
  the latest of them had its sequence number, as long as fewer than 16 other senders were registered since then. How long ago that
  was does not matter.
\<close>

theorem duplicate_iff_latest:
  assumes "\<forall>h \<in> set (us @ (a, q, t) # hs). length (fst h) = LINKADDR_SIZE" and "a \<notin> fst ` set us" and "card (fst ` set us) < MAX_SEQNOS"
  shows "mac_sequence_is_duplicate a attr (seq_table (us @ (a, q, t) # hs)) \<longleftrightarrow> attr = ucast (ucast q :: u8)"
proof -
  let ?e = "\<lparr>sq_sender = a, sq_timestamp = t, sq_seqno = ucast q\<rparr>"
  obtain xs ys where r: "seq_table (us @ (a, q, t) # hs) = xs @ ?e # ys" "sq_sender ` set xs = fst ` set us"
    using seq_table_split [OF assms] by blast
  have f: "find (\<lambda>e. sq_sender e = a) (xs @ ?e # ys) = Some ?e" if "a \<notin> sq_sender ` set xs" for xs
    using that by (induction xs) auto
  have "a \<notin> sq_sender ` set xs" using assms(2) unfolding r(2) .
  then have "find (\<lambda>e. sq_sender e = a) (seq_table (us @ (a, q, t) # hs)) = Some ?e" unfolding r(1) by (rule f)
  moreover have "seq_ok (seq_table (us @ (a, q, t) # hs))" "length a = LINKADDR_SIZE" using seq_table_ok [OF assms(1)] assms(1) by simp_all
  ultimately show ?thesis using duplicate_loop_find [of "seq_table (us @ (a, q, t) # hs)" a 0 attr] by (simp add: mac_sequence_is_duplicate_def)
qed

theorem duplicate_iff_latest_witness:
  "mac_sequence_is_duplicate (replicate 8 1) 300 (seq_table ([(replicate 8 2, 5, 9)] @ (replicate 8 1, 44, 7) # [])) \<longleftrightarrow> (300 :: u16) = ucast (ucast (44 :: u16) :: u8)"
  by (rule duplicate_iff_latest) (simp_all add: LINKADDR_SIZE_def MAX_SEQNOS_def numeral_eq_Suc)

end
