(* ===== verification/Oma_Tlv.thy ===== *)
theory Oma_Tlv imports Bytemem begin

section \<open>Type-length-value encoding of LWM2M (apl/oma-lwm2m/oma-tlv.c)\<close>

text \<open>
  The encoding of resources, with the reader and the writer that LWM2M uses it by (oma-tlv-reader.c, oma-tlv-writer.c). Buffers and values are
  in byte-addressed memory; the arrays that the code has on its stack are at an address that is given. A \<open>size_t\<close> has 32 bits, \<open>int32_t\<close> values
  are words read with \<open>sint\<close>. A shift by 32 places or more, which C does not define, is \<open>None\<close>.
\<close>

subsection \<open>Reading and writing\<close>

definition OMA_TLV_TYPE_RESOURCE :: u8 where "OMA_TLV_TYPE_RESOURCE = 3"

record oma_tlv =
  tlv_type :: u8
  tlv_id :: u16
  tlv_length :: u32
  tlv_value :: ptr

definition get_len_type :: "oma_tlv \<Rightarrow> nat" where
  "get_len_type tlv =
     (if tlv_length tlv < 8 then 0 else if tlv_length tlv < 256 then 1 else if tlv_length tlv < 0x10000 then 2 else 3)"

text \<open>The bytes of the length.\<close>

fun read_len :: "mem \<Rightarrow> ptr \<Rightarrow> nat \<Rightarrow> u32 \<Rightarrow> nat \<Rightarrow> (u32 \<times> nat) option" where
  "read_len m buffer 0 tlv_len len_pos = Some (tlv_len, len_pos)"
| "read_len m buffer (Suc len_type) tlv_len len_pos = do {
     b \<leftarrow> m (buffer + len_pos);
     read_len m buffer len_type (push_bit 8 tlv_len OR ucast b) (len_pos + 1)
   }"

definition oma_tlv_read :: "mem \<Rightarrow> ptr \<Rightarrow> u32 \<Rightarrow> (u32 \<times> oma_tlv) option" where
  "oma_tlv_read m buffer len = do {
     b0 \<leftarrow> m buffer;
     let type = drop_bit 6 b0 AND 3;
     let len_type = drop_bit 3 b0 AND 3;
     let len_pos = (if b0 AND push_bit 5 1 \<noteq> 0 then 3 else 2);
     b1 \<leftarrow> m (buffer + 1);
     id \<leftarrow> (if len_pos > 2 then do { b2 \<leftarrow> m (buffer + 2); Some (push_bit 8 (ucast b1) + ucast b2) } else Some (ucast b1));
     (tlv_len, len_pos) \<leftarrow> (if len_type = 0 then Some (ucast (b0 AND 7), len_pos) else read_len m buffer (unat len_type) 0 len_pos);
     Some (of_nat len_pos + tlv_len, \<lparr>tlv_type = type, tlv_id = id, tlv_length = tlv_len, tlv_value = buffer + len_pos\<rparr>)
   }"

definition oma_tlv_get_size :: "oma_tlv \<Rightarrow> u32" where
  "oma_tlv_get_size tlv =
     (let size = of_nat (1 + get_len_type tlv);
          size = size + (if tlv_id tlv > 255 then 2 else 1)
      in size + tlv_length tlv)"

text \<open>A byte behind the last one, if a condition holds.\<close>

definition put_byte :: "bool \<Rightarrow> u8 \<Rightarrow> ptr \<Rightarrow> mem \<times> nat \<Rightarrow> (mem \<times> nat) option" where
  "put_byte c v buffer s = (case s of (m, pos) \<Rightarrow> if c then do { m \<leftarrow> store m (buffer + pos) v; Some (m, pos + 1) } else Some (m, pos))"

definition oma_tlv_write :: "mem \<Rightarrow> oma_tlv \<Rightarrow> ptr \<Rightarrow> u32 \<Rightarrow> (u32 \<times> mem) option" where
  "oma_tlv_write m tlv buffer len =
     (let len_type = get_len_type tlv; pos = 1 + len_type
      in if len < tlv_length tlv + of_nat pos then Some (0, m)
      else do {
        m \<leftarrow> store m buffer (push_bit 6 (tlv_type tlv) OR (if tlv_id tlv > 255 then push_bit 5 1 else 0) OR push_bit 3 (of_nat len_type) OR
               (if len_type = 0 then ucast (tlv_length tlv) else 0));
        s \<leftarrow> put_byte (tlv_id tlv > 255) (ucast (drop_bit 8 (tlv_id tlv))) buffer (m, 1);
        s \<leftarrow> put_byte True (ucast (tlv_id tlv)) buffer s;
        s \<leftarrow> put_byte (len_type > 2) (ucast (drop_bit 16 (tlv_length tlv))) buffer s;
        s \<leftarrow> put_byte (len_type > 1) (ucast (drop_bit 8 (tlv_length tlv))) buffer s;
        (m, pos) \<leftarrow> put_byte (len_type > 0) (ucast (tlv_length tlv)) buffer s;
        m \<leftarrow> memmove m (buffer + pos) (tlv_value tlv) (unat (tlv_length tlv));
        Some (of_nat pos + tlv_length tlv, m)
      })"

subsection \<open>Integers\<close>

fun int32_loop :: "mem \<Rightarrow> ptr \<Rightarrow> nat \<Rightarrow> u32 \<Rightarrow> u32 option" where
  "int32_loop m p 0 value = Some value"
| "int32_loop m p (Suc n) value = do { b \<leftarrow> m p; int32_loop m (p + 1) n (push_bit 8 value OR ucast b) }"

definition oma_tlv_get_int32 :: "mem \<Rightarrow> oma_tlv \<Rightarrow> u32 option" where
  "oma_tlv_get_int32 m tlv = int32_loop m (tlv_value tlv) (unat (tlv_length tlv)) 0"

function bytes_loop :: "mem \<Rightarrow> ptr \<Rightarrow> nat \<Rightarrow> u32 \<Rightarrow> (nat \<times> mem) option" where
  "bytes_loop m buf i value =
     (if sint value > 0 \<and> i < 4 then do {
        m \<leftarrow> store m (buf + (3 - i)) (ucast value);
        bytes_loop m buf (i + 1) (signed_drop_bit 8 value)
      } else Some (i, m))"
  by pat_completeness auto
termination by (relation "measure (\<lambda>(m, buf, i, value). 4 - i)") auto

declare bytes_loop.simps [simp del]

definition oma_tlv_write_int32 :: "mem \<Rightarrow> ptr \<Rightarrow> u16 \<Rightarrow> u32 \<Rightarrow> ptr \<Rightarrow> u32 \<Rightarrow> (u32 \<times> mem) option" where
  "oma_tlv_write_int32 m buf rid value buffer len = do {
     m \<leftarrow> store m (buf + 3) (ucast value);
     (tlvlen, m) \<leftarrow> bytes_loop m buf 1 (signed_drop_bit 8 value);
     oma_tlv_write m \<lparr>tlv_type = OMA_TLV_TYPE_RESOURCE, tlv_id = rid, tlv_length = of_nat tlvlen, tlv_value = buf + (3 - (tlvlen - 1))\<rparr> buffer len
   }"

subsection \<open>Fixed point numbers as floating point numbers\<close>

text \<open>\<open>val\<close> collects the bits of \<open>v\<close> that are shifted out, from bit 22 on.\<close>

function float_loop :: "int \<Rightarrow> int \<Rightarrow> int \<Rightarrow> int \<times> int" where
  "float_loop v val e =
     (if v > 1 then float_loop (v div 2) (if v mod 2 = 1 then (val div 2) OR push_bit 22 1 else val div 2) (e + 1) else (val, e))"
  by pat_completeness auto
termination by (relation "measure (\<lambda>(v, val, e). nat v)") auto

declare float_loop.simps [simp del]

definition oma_tlv_write_float32 :: "mem \<Rightarrow> ptr \<Rightarrow> u16 \<Rightarrow> u32 \<Rightarrow> int \<Rightarrow> ptr \<Rightarrow> u32 \<Rightarrow> (u32 \<times> mem) option" where
  "oma_tlv_write_float32 m b rid value bits buffer len =
     (let v = sint (if sint value < 0 then - value else value);
          (val, e) = float_loop v 0 0;
          e = e - bits + 127
      in do {
        m \<leftarrow> store m b (of_int ((if sint value < 0 then 0x80 else 0) OR drop_bit 1 e));
        m \<leftarrow> store m (b + 1) (of_int (push_bit 7 (e AND 1) OR (drop_bit 16 val AND 0x7f)));
        m \<leftarrow> store m (b + 2) (of_int (drop_bit 8 val AND 0xff));
        m \<leftarrow> store m (b + 3) (of_int (val AND 0xff));
        oma_tlv_write m \<lparr>tlv_type = OMA_TLV_TYPE_RESOURCE, tlv_id = rid, tlv_length = 4, tlv_value = b\<rparr> buffer len
      })"

definition oma_tlv_float32_to_fix :: "mem \<Rightarrow> oma_tlv \<Rightarrow> int \<Rightarrow> u32 option" where
  "oma_tlv_float32_to_fix m tlv bits = do {
     v0 \<leftarrow> m (tlv_value tlv);
     v1 \<leftarrow> m (tlv_value tlv + 1);
     v2 \<leftarrow> m (tlv_value tlv + 2);
     v3 \<leftarrow> m (tlv_value tlv + 3);
     let sign = v0 AND 0x80 \<noteq> 0;
     let e = uint (push_bit 1 v0 OR drop_bit 7 v1);
     let val = (push_bit 16 (ucast (v1 AND 0x7f)) OR push_bit 8 (ucast v2) OR ucast v3 :: u32);
     let e = e - 127 + bits;
     let e = e - 23;
     let val = val OR push_bit 23 1;
     val \<leftarrow> (if abs e \<ge> 32 then None else Some (if e > 0 then push_bit (nat e) val else signed_drop_bit (nat (- e)) val));
     Some (if sign then - val else val)
   }"

subsection \<open>The reader and the writer\<close>

definition tlv_read_int :: "mem \<Rightarrow> ptr \<Rightarrow> u32 \<Rightarrow> (u32 \<times> u32 option) option" where
  "tlv_read_int m inbuf len = do {
     (size, tlv) \<leftarrow> oma_tlv_read m inbuf len;
     if size > 0 then do { value \<leftarrow> oma_tlv_get_int32 m tlv; Some (size, Some value) } else Some (size, None)
   }"

definition tlv_read_string :: "mem \<Rightarrow> ptr \<Rightarrow> u32 \<Rightarrow> ptr \<Rightarrow> u32 \<Rightarrow> (u32 \<times> mem) option" where
  "tlv_read_string m inbuf len value stringlen = do {
     (size, tlv) \<leftarrow> oma_tlv_read m inbuf len;
     if size > 0 then
       if stringlen \<le> tlv_length tlv then Some (0, m)
       else do {
         m \<leftarrow> memmove m value (tlv_value tlv) (unat (tlv_length tlv));
         m \<leftarrow> store m (value + unat (tlv_length tlv)) 0;
         Some (size, m)
       }
     else Some (size, m)
   }"

definition tlv_read_float32fix :: "mem \<Rightarrow> ptr \<Rightarrow> u32 \<Rightarrow> int \<Rightarrow> (u32 \<times> u32 option) option" where
  "tlv_read_float32fix m inbuf len bits = do {
     (size, tlv) \<leftarrow> oma_tlv_read m inbuf len;
     if size > 0 then do { value \<leftarrow> oma_tlv_float32_to_fix m tlv bits; Some (size, Some value) } else Some (size, None)
   }"

definition tlv_read_boolean :: "mem \<Rightarrow> ptr \<Rightarrow> u32 \<Rightarrow> (u32 \<times> bool option) option" where
  "tlv_read_boolean m inbuf len = do {
     (size, tlv) \<leftarrow> oma_tlv_read m inbuf len;
     if size > 0 then do { value \<leftarrow> oma_tlv_get_int32 m tlv; Some (size, Some (value \<noteq> 0)) } else Some (size, None)
   }"

definition write_int_tlv :: "mem \<Rightarrow> ptr \<Rightarrow> u16 \<Rightarrow> ptr \<Rightarrow> u32 \<Rightarrow> u32 \<Rightarrow> (u32 \<times> mem) option" where
  "write_int_tlv m buf resource_id outbuf outlen value = oma_tlv_write_int32 m buf resource_id value outbuf outlen"

definition write_boolean_tlv :: "mem \<Rightarrow> ptr \<Rightarrow> u16 \<Rightarrow> ptr \<Rightarrow> u32 \<Rightarrow> u32 \<Rightarrow> (u32 \<times> mem) option" where
  "write_boolean_tlv m buf resource_id outbuf outlen value = oma_tlv_write_int32 m buf resource_id (if value \<noteq> 0 then 1 else 0) outbuf outlen"

definition write_float32fix_tlv :: "mem \<Rightarrow> ptr \<Rightarrow> u16 \<Rightarrow> ptr \<Rightarrow> u32 \<Rightarrow> u32 \<Rightarrow> int \<Rightarrow> (u32 \<times> mem) option" where
  "write_float32fix_tlv m b resource_id outbuf outlen value bits = oma_tlv_write_float32 m b resource_id value bits outbuf outlen"

definition write_string_tlv :: "mem \<Rightarrow> u16 \<Rightarrow> ptr \<Rightarrow> u32 \<Rightarrow> ptr \<Rightarrow> u32 \<Rightarrow> (u32 \<times> mem) option" where
  "write_string_tlv m resource_id outbuf outlen value stringlen =
     oma_tlv_write m \<lparr>tlv_type = OMA_TLV_TYPE_RESOURCE, tlv_id = resource_id, tlv_length = stringlen, tlv_value = value\<rparr> outbuf outlen"

subsection \<open>The encoding\<close>

definition tlv_header :: "oma_tlv \<Rightarrow> u8 list" where
  "tlv_header t =
     (push_bit 6 (tlv_type t) OR (if tlv_id t > 255 then push_bit 5 1 else 0) OR push_bit 3 (of_nat (get_len_type t)) OR
        (if get_len_type t = 0 then ucast (tlv_length t) else 0)) #
     (if tlv_id t > 255 then [ucast (drop_bit 8 (tlv_id t))] else []) @ [ucast (tlv_id t)] @
     (if get_len_type t > 2 then [ucast (drop_bit 16 (tlv_length t))] else []) @
     (if get_len_type t > 1 then [ucast (drop_bit 8 (tlv_length t))] else []) @
     (if get_len_type t > 0 then [ucast (tlv_length t)] else [])"

lemma len_type_cases: "get_len_type t = 0 \<or> get_len_type t = 1 \<or> get_len_type t = 2 \<or> get_len_type t = 3"
  by (simp add: get_len_type_def)

lemma length_tlv_header: "length (tlv_header t) = 1 + (if tlv_id t > 255 then 2 else 1) + get_len_type t"
  using len_type_cases [of t] by (auto simp: tlv_header_def)

lemma get_size_eq: "oma_tlv_get_size t = of_nat (length (tlv_header t)) + tlv_length t"
  by (simp add: oma_tlv_get_size_def length_tlv_header Let_def)

lemma put_byte_put:
  assumes "c \<Longrightarrow> accessible m buffer (length bs + 1)"
  shows "put_byte c v buffer (put m buffer bs, length bs) =
    Some (put m buffer (bs @ (if c then [v] else [])), length (bs @ (if c then [v] else [])))"
proof (cases c)
  case True
  then have a: "accessible m buffer (length bs)" "accessible m (buffer + length bs) 1" using assms [OF True] unfolding accessible_add by blast+
  then have "accessible (put m buffer bs) (buffer + length bs) 1" by simp
  then have "put m buffer bs (buffer + length bs) \<noteq> None" by (simp add: accessible_Suc)
  then show ?thesis using True by (simp add: put_byte_def store_put put_append)
qed (simp add: put_byte_def)

lemma oma_tlv_write_exact:
  assumes "bytes_at m (tlv_value t) vs" and "length vs = unat (tlv_length t)" and "accessible m buffer (length (tlv_header t) + length vs)"
    and "tlv_value t + length vs \<le> buffer \<or> buffer + length (tlv_header t) + length vs \<le> tlv_value t"
    and "tlv_length t + of_nat (1 + get_len_type t) \<le> len"
  shows "oma_tlv_write m t buffer len = Some (oma_tlv_get_size t, put m buffer (tlv_header t @ vs))"
proof -
  let ?h = "tlv_header t"
  have acc: "accessible m buffer k" if "k \<le> length ?h" for k
    using assms(3) that by (intro accessible_mono [OF assms(3)]) auto
  let ?b0 = "push_bit 6 (tlv_type t) OR (if tlv_id t > 255 then push_bit 5 1 else 0) OR push_bit 3 (of_nat (get_len_type t)) OR
        (if get_len_type t = 0 then ucast (tlv_length t) else 0)"
  have b0: "store m buffer ?b0 = Some (put m buffer [?b0])"
    using acc [of 1] by (intro store_put) (simp add: accessible_Suc length_tlv_header)
  have step: "put_byte c v buffer (put m buffer bs, length bs) = Some (put m buffer (bs @ (if c then [v] else [])), length (bs @ (if c then [v] else [])))"
    if "c \<Longrightarrow> length bs < length ?h" for bs c v
    using that acc [of "length bs + 1"] by (intro put_byte_put) simp
  have mv: "memmove (put m buffer ?h) (buffer + length ?h) (tlv_value t) (unat (tlv_length t)) = Some (put m buffer (?h @ vs))"
  proof -
    have "bytes_at (put m buffer ?h) (tlv_value t) vs" using assms(1,4) by (subst bytes_at_put_outside) auto
    then have "load_list (put m buffer ?h) (tlv_value t) (unat (tlv_length t)) = Some vs" using assms(2) by (simp add: load_list_bytes)
    moreover have "accessible (put m buffer ?h) (buffer + length ?h) (length vs)"
      using assms(3) acc [of "length ?h"] by (simp add: accessible_add)
    ultimately show ?thesis by (simp add: memmove_def store_list_put put_append)
  qed
  have nl: "\<not> len < tlv_length t + of_nat (1 + get_len_type t)" using assms(5) by simp
  let ?i = "tlv_id t" and ?l = "tlv_length t" and ?lt = "get_len_type t"
  let ?x1 = "if ?i > 255 then [ucast (drop_bit 8 ?i)] else []" and ?x3 = "if ?lt > 2 then [ucast (drop_bit 16 ?l)] else []"
    and ?x4 = "if ?lt > 1 then [ucast (drop_bit 8 ?l)] else []" and ?x5 = "if ?lt > 0 then [ucast ?l] else []"
  note s1 = step [where bs = "[?b0]" and c = "?i > 255" and v = "ucast (drop_bit 8 ?i)"]
  note s2 = step [where bs = "[?b0] @ ?x1" and c = True and v = "ucast ?i"]
  note s3 = step [where bs = "([?b0] @ ?x1) @ [ucast ?i]" and c = "?lt > 2" and v = "ucast (drop_bit 16 ?l)"]
  note s4 = step [where bs = "(([?b0] @ ?x1) @ [ucast ?i]) @ ?x3" and c = "?lt > 1" and v = "ucast (drop_bit 8 ?l)"]
  note s5 = step [where bs = "((([?b0] @ ?x1) @ [ucast ?i]) @ ?x3) @ ?x4" and c = "?lt > 0" and v = "ucast ?l"]
  have h: "(((([?b0] @ ?x1) @ [ucast ?i]) @ ?x3) @ ?x4) @ ?x5 = ?h" by (simp add: tlv_header_def)
  have one: "(put m buffer [?b0], 1) = (put m buffer [?b0], length [?b0])" by simp
  have l: "?lt > 2 \<Longrightarrow> length (([?b0] @ ?x1) @ [ucast ?i :: u8]) < length ?h"
    "?lt > 1 \<Longrightarrow> length ((([?b0] @ ?x1) @ [ucast ?i :: u8]) @ ?x3) < length ?h"
    "?lt > 0 \<Longrightarrow> length (((([?b0] @ ?x1) @ [ucast ?i :: u8]) @ ?x3) @ ?x4) < length ?h"
    "length ([?b0] @ ?x1) < length ?h" "length [?b0] < length ?h"
    unfolding length_tlv_header by auto
  show ?thesis
    unfolding oma_tlv_write_def Let_def if_not_P [OF nl] b0 Option.bind.bind_lunit one s1 [OF l(5)]
    using s2 [OF l(4)] s3 [OF l(1)] s4 [OF l(2)] s5 [OF l(3)] mv unfolding h get_size_eq by simp
qed

lemma first_byte:
  assumes "ty < 4" and "lt < 4" and "l < 8"
    and "b = push_bit 6 ty OR (if w then push_bit 5 1 else 0) OR push_bit 3 (of_nat lt) OR l"
  shows "drop_bit 6 b AND 3 = ty" and "drop_bit 3 b AND 3 = (of_nat lt :: u8)" and "b AND push_bit 5 1 \<noteq> 0 \<longleftrightarrow> w" and "b AND 7 = l"
proof -
  have "\<forall>ty \<in> {0, 1, 2, 3 :: u8}. \<forall>lt \<in> {0, 1, 2, 3 :: nat}. \<forall>l \<in> {0, 1, 2, 3, 4, 5, 6, 7 :: u8}. \<forall>w \<in> {True, False}.
    (let b = push_bit 6 ty OR (if w then push_bit 5 1 else 0) OR push_bit 3 (of_nat lt) OR l in
      drop_bit 6 b AND 3 = ty \<and> drop_bit 3 b AND 3 = (of_nat lt :: u8) \<and> (b AND push_bit 5 1 \<noteq> 0 \<longleftrightarrow> w) \<and> b AND 7 = l)"
    by (simp add: Let_def)
  moreover have "ty \<in> {0, 1, 2, 3}"
  proof -
    have "unat ty \<in> {0, 1, 2, 3}" using assms(1) by (auto simp: word_less_nat_alt)
    then have "(of_nat (unat ty) :: u8) \<in> of_nat ` {0, 1, 2, 3}" by (rule imageI)
    then show ?thesis by simp
  qed
  moreover have "l \<in> {0, 1, 2, 3, 4, 5, 6, 7}"
  proof -
    have "unat l \<in> {0, 1, 2, 3, 4, 5, 6, 7}" using assms(3) by (auto simp: word_less_nat_alt)
    then have "(of_nat (unat l) :: u8) \<in> of_nat ` {0, 1, 2, 3, 4, 5, 6, 7}" by (rule imageI)
    then show ?thesis by simp
  qed
  moreover have "lt \<in> {0, 1, 2, 3}" "w \<in> {True, False}" using assms(2) by auto
  ultimately show "drop_bit 6 b AND 3 = ty" and "drop_bit 3 b AND 3 = (of_nat lt :: u8)" and "b AND push_bit 5 1 \<noteq> 0 \<longleftrightarrow> w" and "b AND 7 = l"
    unfolding assms(4) Let_def by blast+
qed

text \<open>The bytes of a number, put together again.\<close>

lemma bytes_of_word:
  fixes v :: u32
  shows "v < 0x100 \<Longrightarrow> ucast (ucast v :: u8) = v"
    and "v < 0x10000 \<Longrightarrow> push_bit 8 (ucast (ucast (drop_bit 8 v) :: u8)) OR ucast (ucast v :: u8) = v"
    and "v < 0x1000000 \<Longrightarrow> push_bit 8 (push_bit 8 (ucast (ucast (drop_bit 16 v) :: u8)) OR ucast (ucast (drop_bit 8 v) :: u8)) OR ucast (ucast v :: u8) = v"
proof -
  have small: "n < k" if "unat v < 2 ^ k" "bit v n" for k n
  proof -
    have "odd (unat v div 2 ^ n)" using that(2) by (simp add: bit_unsigned_iff flip: bit_iff_odd)
    then have "\<not> unat v < 2 ^ n" by (auto simp: div_less)
    then have "(2 :: nat) ^ n < 2 ^ k" using that(1) le_less_trans not_less by blast
    then show ?thesis by (rule power_less_imp_less_exp [rotated]) simp
  qed
  show "ucast (ucast v :: u8) = v" if "v < 0x100"
    using small [of 8] that [unfolded word_less_nat_alt] by (intro bit_word_eqI) (auto simp: bit_unsigned_iff)
  show "push_bit 8 (ucast (ucast (drop_bit 8 v) :: u8)) OR ucast (ucast v :: u8) = v" if "v < 0x10000"
  proof -
    have "unat v < 2 ^ 16" using that by (simp add: word_less_nat_alt)
    from small [OF this] have s: "bit v n \<Longrightarrow> n < 16" for n .
    show ?thesis by (rule bit_word_eqI) (auto simp: bit_unsigned_iff bit_or_iff bit_push_bit_iff bit_drop_bit_eq dest: s)
  qed
  show "push_bit 8 (push_bit 8 (ucast (ucast (drop_bit 16 v) :: u8)) OR ucast (ucast (drop_bit 8 v) :: u8)) OR ucast (ucast v :: u8) = v" if "v < 0x1000000"
  proof -
    have "unat v < 2 ^ 24" using that by (simp add: word_less_nat_alt)
    from small [OF this] have s: "bit v n \<Longrightarrow> n < 24" for n .
    show ?thesis
    proof (rule bit_word_eqI)
      fix n :: nat
      consider "n < 8" | "8 \<le> n" "n < 16" | "16 \<le> n" by linarith
      then show "bit (push_bit 8 (push_bit 8 (ucast (ucast (drop_bit 16 v) :: u8)) OR ucast (ucast (drop_bit 8 v) :: u8)) OR ucast (ucast v :: u8) :: u32) n \<longleftrightarrow> bit v n"
        by cases (auto simp: bit_unsigned_iff bit_or_iff bit_push_bit_iff bit_drop_bit_eq dest: s)
    qed
  qed
qed

lemma bytes_of_id: "push_bit 8 (ucast (ucast (drop_bit 8 v) :: u8)) + ucast (ucast v :: u8) = (v :: u16)"
  and byte_of_id: "v \<le> 255 \<Longrightarrow> ucast (ucast v :: u8) = (v :: u16)"
proof -
  have "push_bit 8 (ucast (ucast (drop_bit 8 v) :: u8)) + ucast (ucast v :: u8) = push_bit 8 (ucast (ucast (drop_bit 8 v) :: u8)) OR (ucast (ucast v :: u8) :: u16)"
    by (rule disjunctive_add) (auto simp: bit_unsigned_iff bit_push_bit_iff dest: bit_imp_le_length)
  also have "\<dots> = v"
    by (rule bit_word_eqI) (auto simp: bit_unsigned_iff bit_or_iff bit_push_bit_iff bit_drop_bit_eq dest: bit_imp_le_length)
  finally show "push_bit 8 (ucast (ucast (drop_bit 8 v) :: u8)) + ucast (ucast v :: u8) = (v :: u16)" .
  show "ucast (ucast v :: u8) = (v :: u16)" if "v \<le> 255"
  proof -
    have "unat v \<le> 255" using that by (simp add: word_le_nat_alt)
    then show ?thesis by (simp add: word_unat_eq_iff unsigned_ucast_eq unsigned_take_bit_eq take_bit_nat_eq_self)
  qed
qed

lemma oma_tlv_read_encoded:
  assumes "bytes_at m buffer (tlv_header t @ vs)" and "tlv_type t < 4" and "tlv_length t < 0x1000000"
  shows "oma_tlv_read m buffer len = Some (oma_tlv_get_size t, t\<lparr>tlv_value := buffer + length (tlv_header t)\<rparr>)"
proof -
  let ?l = "tlv_length t" and ?lt = "get_len_type t" and ?i = "tlv_id t"
  let ?b = "push_bit 6 (tlv_type t) OR (if ?i > 255 then push_bit 5 1 else 0) OR push_bit 3 (of_nat ?lt) OR (if ?lt = 0 then ucast ?l else 0) :: u8"
  have lt: "?lt < 4" using len_type_cases [of t] by auto
  have l8: "(if ?lt = 0 then ucast ?l else 0 :: u8) < 8"
    by (auto simp: get_len_type_def word_less_nat_alt unsigned_ucast_eq take_bit_nat_eq_self split: if_splits)
  note fb = first_byte [OF assms(2) lt l8 refl, of "?i > 255"]
  have h: "bytes_at m buffer (tlv_header t)" using assms(1) by (simp add: bytes_at_append)
  then have b0: "m buffer = Some ?b" and rest: "bytes_at m (Suc buffer) (tl (tlv_header t))"
    by (simp_all add: tlv_header_def bytes_at_Cons)
  have lz: "(of_nat ?lt :: u8) = 0 \<longleftrightarrow> ?lt = 0" "unat (of_nat ?lt :: u8) = ?lt" using lt by (auto simp: unat_of_nat word_unat_eq_iff)
  have l0: "?lt = 0 \<Longrightarrow> ucast (ucast ?l :: u8) = ?l" by (rule bytes_of_word(1)) (auto simp: get_len_type_def word_less_nat_alt split: if_splits)
  let ?p = "if ?i > 255 then 3 else 2 :: nat"
  have id: "(if ?p > 2 then do { b1 \<leftarrow> m (buffer + 1); b2 \<leftarrow> m (buffer + 2); Some (push_bit 8 (ucast b1) + ucast b2) } else do { b1 \<leftarrow> m (buffer + 1); Some (ucast b1) }) = Some ?i"
    using rest bytes_of_id [of ?i] byte_of_id [of ?i]
    by (auto simp: tlv_header_def bytes_at_Cons numeral_2_eq_2 not_less split: if_splits)
  have len: "(if ?lt = 0 then Some (ucast (?b AND 7), ?p) else read_len m buffer ?lt 0 ?p) = Some (?l, ?p + ?lt)"
  proof -
    have at: "m (buffer + k) = Some (tlv_header t ! k)" if "k < length (tlv_header t)" for k using h that by (simp add: bytes_at_def)
    consider "?lt = 0" | "?lt = 1" "?l < 0x100" | "?lt = 2" "?l < 0x10000" | "?lt = 3" using lt by (auto simp: get_len_type_def split: if_splits)
    then show ?thesis
    proof cases
      case 1 then show ?thesis using fb(4) l0 by simp
    next
      case 2
      then have "m (buffer + ?p) = Some (ucast ?l)" using at [of ?p] by (simp add: length_tlv_header) (simp add: tlv_header_def)
      then show ?thesis using 2 bytes_of_word(1) [OF 2(2)] unfolding 2(1) One_nat_def by (simp only: read_len.simps) simp
    next
      case 3
      then have "m (buffer + ?p) = Some (ucast (drop_bit 8 ?l))" "m (buffer + (?p + 1)) = Some (ucast ?l)"
        using at [of ?p] at [of "?p + 1"] by (simp_all add: length_tlv_header) (simp_all add: tlv_header_def)
      then show ?thesis using 3 bytes_of_word(2) [OF 3(2)] unfolding 3(1) numeral_2_eq_2 by (simp only: read_len.simps) simp
    next
      case 4
      then have "m (buffer + ?p) = Some (ucast (drop_bit 16 ?l))" "m (buffer + (?p + 1)) = Some (ucast (drop_bit 8 ?l))" "m (buffer + (?p + 1 + 1)) = Some (ucast ?l)"
        using at [of ?p] at [of "?p + 1"] at [of "?p + 1 + 1"] by (simp_all add: length_tlv_header) (simp_all add: tlv_header_def)
      then show ?thesis using 4 bytes_of_word(3) [OF assms(3)] unfolding 4(1) numeral_3_eq_3 by (simp only: read_len.simps) simp
    qed
  qed
  show ?thesis
    using id len unfolding oma_tlv_read_def b0 Option.bind.bind_lunit Let_def fb lz get_size_eq length_tlv_header
    by (auto split: if_splits Option.bind_splits)
qed

subsection \<open>Values that the writer has on its stack\<close>

lemma write_then_read:
  assumes "bytes_at m (tlv_value t) vs" and "length vs = unat (tlv_length t)" and "accessible m buffer (length (tlv_header t) + length vs)"
    and "tlv_value t + length vs \<le> buffer \<or> buffer + length (tlv_header t) + length vs \<le> tlv_value t"
    and "tlv_length t + of_nat (1 + get_len_type t) \<le> len" and "tlv_type t < 4" and "tlv_length t < 0x1000000"
  shows "\<exists>m'. oma_tlv_write m t buffer len = Some (oma_tlv_get_size t, m') \<and>
    oma_tlv_read m' buffer len' = Some (oma_tlv_get_size t, t\<lparr>tlv_value := buffer + length (tlv_header t)\<rparr>) \<and>
    bytes_at m' (buffer + length (tlv_header t)) vs"
proof -
  have "bytes_at (put m buffer (tlv_header t @ vs)) buffer (tlv_header t @ vs)" by (rule bytes_at_put)
  then show ?thesis using oma_tlv_write_exact [OF assms(1-5)] oma_tlv_read_encoded [OF _ assms(6,7)] by (auto simp: bytes_at_append)
qed

text \<open>The bytes of an integer, the highest first: at least one, and as many as a positive number has.\<close>

definition int32_bytes :: "u32 \<Rightarrow> u8 list" where
  "int32_bytes v =
     (if sint v < 0x100 then [ucast v]
      else if sint v < 0x10000 then [ucast (drop_bit 8 v), ucast v]
      else if sint v < 0x1000000 then [ucast (drop_bit 16 v), ucast (drop_bit 8 v), ucast v]
      else [ucast (drop_bit 24 v), ucast (drop_bit 16 v), ucast (drop_bit 8 v), ucast v])"

lemma sint_signed_drop_bit: "sint (signed_drop_bit n v) = sint v div 2 ^ n" for v :: u32
  by (simp add: sint_signed_drop_bit_eq drop_bit_eq_div)

lemma ucast_signed_drop_bit: "0 \<le> sint v \<Longrightarrow> signed_drop_bit n v = drop_bit n v" for v :: u32
proof -
  assume a: "0 \<le> sint v"
  then have "\<not> bit v 31" using bit_last_iff [of v] by simp
  then show ?thesis by (intro bit_word_eqI) (auto simp: bit_signed_drop_bit_iff bit_drop_bit_eq dest: bit_imp_le_length)
qed

lemma put_in_front: "put (put m (Suc p) vs) p [v] = put m p (v # vs)"
proof
  fix q
  consider "q < p" | "q = p" | "p < q" "q < Suc p + length vs" | "Suc p + length vs \<le> q" by linarith
  then show "put (put m (Suc p) vs) p [v] q = put m p (v # vs) q"
    by cases (auto simp: put_Cons put_outside, simp add: put_def)
qed

lemma sint_uint_nonneg: "0 \<le> sint v \<Longrightarrow> uint v = sint v" for v :: u32
proof -
  assume a: "0 \<le> sint v"
  have "sint v < 2 ^ 31" using sint_lt [of v] by simp
  then have "take_bit 32 (sint v) = sint v" using a by (simp add: take_bit_int_eq_self)
  then show ?thesis by (simp add: uint_sint)
qed

lemma int32_stack:
  assumes "accessible m buf 4"
  shows "do { m \<leftarrow> store m (buf + 3) (ucast v); bytes_loop m buf 1 (signed_drop_bit 8 v) } =
    Some (length (int32_bytes v), put m (buf + (4 - length (int32_bytes v))) (int32_bytes v))"
proof -
  have acc: "m (buf + 3) \<noteq> None" "m (buf + 2) \<noteq> None" "m (buf + 1) \<noteq> None" "m buf \<noteq> None"
    using assms [unfolded accessible_def, rule_format, of 3] assms [unfolded accessible_def, rule_format, of 2]
      assms [unfolded accessible_def, rule_format, of 1] assms [unfolded accessible_def, rule_format, of 0] by simp_all
  let ?b0 = "ucast v :: u8" and ?b1 = "ucast (signed_drop_bit 8 v) :: u8" and ?b2 = "ucast (signed_drop_bit 16 v) :: u8"
    and ?b3 = "ucast (signed_drop_bit 24 v) :: u8"
  have other: "put m p vs q = m q" if "q < p" for p q vs using that by (simp add: put_outside)
  have st: "store m (buf + 3) x = Some (put m (buf + 3) [x])" for x using acc(1) by (simp add: store_put)
  have st2: "store (put m (buf + 3) xs) (buf + 2) x = Some (put m (buf + 2) (x # xs))" for x xs
  proof -
    have s: "Suc (buf + 2) = buf + 3" by simp
    have ne: "put m (buf + 3) xs (buf + 2) \<noteq> None" using acc(2) by (subst other) simp_all
    have "store (put m (buf + 3) xs) (buf + 2) x = Some (put (put m (buf + 3) xs) (buf + 2) [x])" by (rule store_put) (rule ne)
    then show ?thesis using put_in_front [of m "buf + 2" xs x] unfolding s by (rule trans [OF _ arg_cong])
  qed
  have st1: "store (put m (buf + 2) xs) (buf + 1) x = Some (put m (buf + 1) (x # xs))" for x xs
  proof -
    have s: "Suc (buf + 1) = buf + 2" by simp
    have ne: "put m (buf + 2) xs (buf + 1) \<noteq> None" using acc(3) by (subst other) simp_all
    have "store (put m (buf + 2) xs) (buf + 1) x = Some (put (put m (buf + 2) xs) (buf + 1) [x])" by (rule store_put) (rule ne)
    then show ?thesis using put_in_front [of m "buf + 1" xs x] unfolding s by (rule trans [OF _ arg_cong])
  qed
  have st0: "store (put m (buf + 1) xs) buf x = Some (put m buf (x # xs))" for x xs
  proof -
    have s: "Suc buf = buf + 1" by simp
    have ne: "put m (buf + 1) xs buf \<noteq> None" using acc(4) by (subst other) simp_all
    have "store (put m (buf + 1) xs) (buf) x = Some (put (put m (buf + 1) xs) (buf) [x])" by (rule store_put) (rule ne)
    then show ?thesis using put_in_front [of m "buf" xs x] unfolding s by (rule trans [OF _ arg_cong])
  qed
  have d: "sint (signed_drop_bit 8 v) > 0 \<longleftrightarrow> 0x100 \<le> sint v" "sint (signed_drop_bit 16 v) > 0 \<longleftrightarrow> 0x10000 \<le> sint v"
    "sint (signed_drop_bit 24 v) > 0 \<longleftrightarrow> 0x1000000 \<le> sint v"
    unfolding sint_signed_drop_bit by (simp_all add: pos_imp_zdiv_pos_iff)
  have e: "0 \<le> sint v \<Longrightarrow> signed_drop_bit n v = drop_bit n v" for n by (rule ucast_signed_drop_bit)
  have l1: "bytes_loop m buf 1 (signed_drop_bit 8 v) = (if 0x100 \<le> sint v then do { m \<leftarrow> store m (buf + 2) ?b1; bytes_loop m buf 2 (signed_drop_bit 16 v) } else Some (1, m))" for m
    by (subst bytes_loop.simps) (simp add: d numeral_2_eq_2 numeral_3_eq_3)
  have l2: "bytes_loop m buf 2 (signed_drop_bit 16 v) = (if 0x10000 \<le> sint v then do { m \<leftarrow> store m (buf + 1) ?b2; bytes_loop m buf 3 (signed_drop_bit 24 v) } else Some (2, m))" for m
    by (subst bytes_loop.simps) (simp add: d)
  have l3: "bytes_loop m buf 3 (signed_drop_bit 24 v) = (if 0x1000000 \<le> sint v then do { m \<leftarrow> store m buf ?b3; bytes_loop m buf 4 (signed_drop_bit 32 v) } else Some (3, m))" for m
    by (subst bytes_loop.simps) (simp add: d)
  have l4: "bytes_loop m buf 4 x = Some (4, m)" for m x by (subst bytes_loop.simps) simp
  show ?thesis
    unfolding st Option.bind.bind_lunit l1 st2 l2 st1 l3 st0 l4
    by (auto simp: int32_bytes_def e st2 l2 st1 l3 st0 l4) (simp_all add: add.commute)
qed

lemma int32_bytes_value:
  assumes "length (int32_bytes v) = n" and "bytes_at m p (int32_bytes v)"
  shows "int32_loop m p n 0 = Some (if 0 \<le> sint v then v else ucast (ucast v :: u8))"
proof -
  have u: "v < 0x100 \<longleftrightarrow> sint v < 0x100" "v < 0x10000 \<longleftrightarrow> sint v < 0x10000" "v < 0x1000000 \<longleftrightarrow> sint v < 0x1000000" if "0 \<le> sint v"
    using sint_uint_nonneg [OF that] by (simp_all add: word_less_def)
  have big: "push_bit 8 (push_bit 8 (push_bit 8 (ucast (ucast (drop_bit 24 v) :: u8)) OR ucast (ucast (drop_bit 16 v) :: u8)) OR ucast (ucast (drop_bit 8 v) :: u8)) OR ucast (ucast v :: u8) = v"
  proof (rule bit_word_eqI)
    fix n :: nat
    consider "n < 8" | "8 \<le> n" "n < 16" | "16 \<le> n" "n < 24" | "24 \<le> n" by linarith
    then show "bit (push_bit 8 (push_bit 8 (push_bit 8 (ucast (ucast (drop_bit 24 v) :: u8)) OR ucast (ucast (drop_bit 16 v) :: u8)) OR ucast (ucast (drop_bit 8 v) :: u8)) OR ucast (ucast v :: u8) :: u32) n \<longleftrightarrow> bit v n"
      by cases (auto simp: bit_unsigned_iff bit_or_iff bit_push_bit_iff bit_drop_bit_eq dest: bit_imp_le_length)
  qed
  consider (neg) "sint v < 0" | (one) "0 \<le> sint v" "sint v < 0x100" | (two) "0 \<le> sint v" "0x100 \<le> sint v" "sint v < 0x10000"
    | (three) "0 \<le> sint v" "0x10000 \<le> sint v" "sint v < 0x1000000" | (four) "0 \<le> sint v" "0x1000000 \<le> sint v" by linarith
  then show ?thesis
  proof cases
    case neg
    then have "int32_bytes v = [ucast v]" by (simp add: int32_bytes_def)
    then show ?thesis using assms neg by (auto simp: bytes_at_Cons)
  next
    case one
    then have "int32_bytes v = [ucast v]" by (simp add: int32_bytes_def)
    then show ?thesis using assms one bytes_of_word(1) [of v] u by (auto simp: bytes_at_Cons)
  next
    case two
    then have "int32_bytes v = [ucast (drop_bit 8 v), ucast v]" by (simp add: int32_bytes_def)
    then show ?thesis using assms two bytes_of_word(2) [of v] u by (auto simp: bytes_at_Cons)
  next
    case three
    then have "int32_bytes v = [ucast (drop_bit 16 v), ucast (drop_bit 8 v), ucast v]" by (simp add: int32_bytes_def)
    then show ?thesis using assms three bytes_of_word(3) [of v] u by (auto simp: bytes_at_Cons)
  next
    case four
    then have "int32_bytes v = [ucast (drop_bit 24 v), ucast (drop_bit 16 v), ucast (drop_bit 8 v), ucast v]" by (simp add: int32_bytes_def)
    then show ?thesis using assms four big by (auto simp: bytes_at_Cons)
  qed
qed

lemma length_int32_bytes: "1 \<le> length (int32_bytes v) \<and> length (int32_bytes v) \<le> 4"
  by (simp add: int32_bytes_def)

lemma len_type_small: "tlv_length t < 8 \<Longrightarrow> get_len_type t = 0"
  by (simp add: get_len_type_def)

lemma oma_tlv_write_result:
  assumes "bytes_at m (tlv_value t) vs" and "length vs = unat (tlv_length t)" and "accessible m buffer (length (tlv_header t) + length vs)"
    and "tlv_value t + length vs \<le> buffer \<or> buffer + length (tlv_header t) + length vs \<le> tlv_value t" and "tlv_length t < 0x1000000"
  shows "oma_tlv_write m t buffer len =
      Some (if unat (tlv_length t) + 1 + get_len_type t \<le> unat len then (oma_tlv_get_size t, put m buffer (tlv_header t @ vs)) else (0, m))"
    and "unat (oma_tlv_get_size t) = unat (tlv_length t) + 1 + get_len_type t + (if tlv_id t > 255 then 2 else 1)"
proof -
  have lt: "get_len_type t < 4" using len_type_cases [of t] by auto
  have small: "unat (tlv_length t) < 0x1000000" using assms(5) by (simp add: word_less_nat_alt)
  have add: "unat (tlv_length t + of_nat k) = unat (tlv_length t) + k" if "k < 8" for k
  proof -
    have "tlv_length t + of_nat k = of_nat (unat (tlv_length t) + k)" by simp
    also have "unat \<dots> = unat (tlv_length t) + k" using small that by (subst unat_of_nat) simp
    finally show ?thesis .
  qed
  have c: "tlv_length t + of_nat (1 + get_len_type t) \<le> len \<longleftrightarrow> unat (tlv_length t) + 1 + get_len_type t \<le> unat len"
    using add [of "1 + get_len_type t"] lt by (simp add: word_le_nat_alt del: of_nat_add of_nat_Suc)
  show "oma_tlv_write m t buffer len =
      Some (if unat (tlv_length t) + 1 + get_len_type t \<le> unat len then (oma_tlv_get_size t, put m buffer (tlv_header t @ vs)) else (0, m))"
  proof (cases "tlv_length t + of_nat (1 + get_len_type t) \<le> len")
    case True
    then show ?thesis using oma_tlv_write_exact [OF assms(1-4) True] c by simp
  next
    case False
    then have "len < tlv_length t + of_nat (1 + get_len_type t)" by simp
    then show ?thesis using False c by (simp only: oma_tlv_write_def Let_def if_True) simp
  qed
  show "unat (oma_tlv_get_size t) = unat (tlv_length t) + 1 + get_len_type t + (if tlv_id t > 255 then 2 else 1)"
    using add [of "length (tlv_header t)"] lt unfolding get_size_eq by (simp add: length_tlv_header add.commute del: of_nat_add of_nat_Suc)
qed

text \<open>A resource of up to four bytes, written and read back.\<close>

lemma resource_written:
  assumes "bytes_at m p vs" and "1 \<le> length vs" and "length vs \<le> 4" and "accessible m outbuf 7"
    and "p + length vs \<le> outbuf \<or> outbuf + 7 \<le> p" and "5 \<le> outlen"
  shows "\<exists>m' t. oma_tlv_write m \<lparr>tlv_type = OMA_TLV_TYPE_RESOURCE, tlv_id = rid, tlv_length = of_nat (length vs), tlv_value = p\<rparr> outbuf outlen =
      Some (oma_tlv_get_size t, m') \<and> 0 < oma_tlv_get_size t \<and> oma_tlv_read m' outbuf len = Some (oma_tlv_get_size t, t) \<and>
    unat (tlv_length t) = length vs \<and> bytes_at m' (tlv_value t) vs"
proof -
  let ?n = "length vs"
  let ?t = "\<lparr>tlv_type = OMA_TLV_TYPE_RESOURCE, tlv_id = rid, tlv_length = of_nat ?n, tlv_value = p\<rparr>"
  have un: "unat (of_nat ?n :: u32) = ?n" using assms(3) by (simp add: unat_of_nat)
  have lt: "get_len_type ?t = 0" using assms(3) by (intro len_type_small) (simp add: word_less_nat_alt unat_of_nat)
  have h: "length (tlv_header ?t) \<le> 3" by (simp add: length_tlv_header lt)
  have v: "bytes_at m (tlv_value ?t) vs" using assms(1) by simp
  have l: "?n = unat (tlv_length ?t)" using un by simp
  have acc: "accessible m outbuf (length (tlv_header ?t) + ?n)" using h assms(3) by (intro accessible_mono [OF assms(4)]) simp_all
  have dis: "tlv_value ?t + ?n \<le> outbuf \<or> outbuf + length (tlv_header ?t) + ?n \<le> tlv_value ?t" using assms(3,5) h by auto
  have ty: "tlv_type ?t < 4" "tlv_length ?t < 0x1000000" using assms(3) by (simp_all add: OMA_TLV_TYPE_RESOURCE_def word_less_nat_alt unat_of_nat)
  have le: "tlv_length ?t + of_nat (1 + get_len_type ?t) \<le> outlen"
  proof -
    have "unat (of_nat (Suc ?n) :: u32) = Suc ?n" using assms(3) by (subst unat_of_nat) simp
    moreover have "5 \<le> unat outlen" using assms(6) by (simp add: word_le_nat_alt)
    ultimately have "(of_nat (Suc ?n) :: u32) \<le> outlen" using assms(3) by (simp add: word_le_nat_alt del: of_nat_Suc)
    then show ?thesis unfolding lt by (simp add: add.commute)
  qed
  have pos: "0 < oma_tlv_get_size ?t" using oma_tlv_write_result(2) [OF v l acc dis ty(2)] by (simp add: word_less_nat_alt)
  let ?t' = "?t\<lparr>tlv_value := outbuf + length (tlv_header ?t)\<rparr>"
  have same: "oma_tlv_get_size ?t' = oma_tlv_get_size ?t" by (simp add: oma_tlv_get_size_def get_len_type_def)
  obtain m' where m': "oma_tlv_write m ?t outbuf outlen = Some (oma_tlv_get_size ?t, m')" "oma_tlv_read m' outbuf len = Some (oma_tlv_get_size ?t, ?t')"
    "bytes_at m' (outbuf + length (tlv_header ?t)) vs"
    using write_then_read [OF v l acc dis le ty] by blast
  show ?thesis using m' pos same un by (intro exI [of _ m'] exI [of _ ?t']) simp
qed

lemma write_int32_tlv:
  assumes "accessible m buf 4" and "accessible m outbuf 7" and "buf + 4 \<le> outbuf \<or> outbuf + 7 \<le> buf" and "5 \<le> outlen"
  shows "\<exists>m' t. write_int_tlv m buf rid outbuf outlen v = Some (oma_tlv_get_size t, m') \<and>
    0 < oma_tlv_get_size t \<and> oma_tlv_read m' outbuf len = Some (oma_tlv_get_size t, t) \<and>
    unat (tlv_length t) = length (int32_bytes v) \<and> bytes_at m' (tlv_value t) (int32_bytes v)"
proof -
  let ?bs = "int32_bytes v"
  let ?n = "length ?bs"
  let ?p = "buf + (4 - ?n)"
  have n: "1 \<le> ?n" "?n \<le> 4" using length_int32_bytes [of v] by simp_all
  have "3 - (?n - 1) = 4 - ?n" using n by simp
  then have w: "write_int_tlv m buf rid outbuf outlen v =
      oma_tlv_write (put m ?p ?bs) \<lparr>tlv_type = OMA_TLV_TYPE_RESOURCE, tlv_id = rid, tlv_length = of_nat ?n, tlv_value = ?p\<rparr> outbuf outlen"
    unfolding write_int_tlv_def oma_tlv_write_int32_def using int32_stack [OF assms(1), of v] by (simp flip: bind_assoc)
  have "accessible m ?p ?n" using n by (intro accessible_mono [OF assms(1)]) simp_all
  then have acc: "accessible (put m ?p ?bs) outbuf 7" using assms(2) by simp
  have dis: "?p + ?n \<le> outbuf \<or> outbuf + 7 \<le> ?p" using assms(3) n by auto
  show ?thesis unfolding w by (rule resource_written [OF bytes_at_put n acc dis assms(4)])
qed

text \<open>
  C39: An integer that LWM2M writes is read back as the same integer when it is not negative. Of a negative one only the lowest byte is
  written, since the loop over the bytes ends at a value that is not positive, and it is read as a number from 0 to 255.
\<close>

theorem oma_int_roundtrip:
  assumes "accessible m buf 4" and "accessible m outbuf 7" and "buf + 4 \<le> outbuf \<or> outbuf + 7 \<le> buf" and "5 \<le> outlen"
  shows "\<exists>size m'. write_int_tlv m buf rid outbuf outlen v = Some (size, m') \<and>
    tlv_read_int m' outbuf len = Some (size, Some (if 0 \<le> sint v then v else ucast (ucast v :: u8)))"
proof -
  obtain m' t where t: "write_int_tlv m buf rid outbuf outlen v = Some (oma_tlv_get_size t, m')" "0 < oma_tlv_get_size t"
    "oma_tlv_read m' outbuf len = Some (oma_tlv_get_size t, t)" "length (int32_bytes v) = unat (tlv_length t)" "bytes_at m' (tlv_value t) (int32_bytes v)"
    using write_int32_tlv [OF assms, of rid v len] by metis
  show ?thesis using t int32_bytes_value [OF t(4,5)] by (auto simp: tlv_read_int_def oma_tlv_get_int32_def)
qed

theorem oma_int_roundtrip_witness:
  "(\<exists>size m'. write_int_tlv (\<lambda>_. Some 0) 0 5700 100 32 1000 = Some (size, m') \<and> tlv_read_int m' 100 32 = Some (size, Some 1000)) \<and>
   (\<exists>size m'. write_int_tlv (\<lambda>_. Some 0) 0 5700 100 32 (- 2) = Some (size, m') \<and> tlv_read_int m' 100 32 = Some (size, Some 254))"
proof -
  have a: "accessible (\<lambda>_. Some 0) p n" for p n by (simp add: accessible_def)
  show ?thesis
    using oma_int_roundtrip [OF a a, of 0 100 32 5700 1000 32] oma_int_roundtrip [OF a a, of 0 100 32 5700 "- 2" 32] by simp
qed

subsection \<open>Floating point numbers\<close>

lemma or_bit: "0 \<le> x \<Longrightarrow> x < 2 ^ n \<Longrightarrow> x OR push_bit n 1 = x + 2 ^ n" for x :: int
proof -
  assume a: "0 \<le> x" "x < 2 ^ n"
  have t: "take_bit n x = x" using a by (simp add: take_bit_int_eq_self)
  have b: "\<not> bit x n" using bit_take_bit_iff [of n x n] unfolding t by simp
  have "x OR push_bit n 1 = x + push_bit n 1"
    by (rule disjunctive_add [symmetric]) (use b in \<open>auto simp: bit_push_bit_iff bit_1_iff bit_exp_iff\<close>)
  then show ?thesis by (simp add: push_bit_eq_mult)
qed

lemma div_less_mult: "0 < c \<Longrightarrow> a < k * c \<Longrightarrow> a div c < k" for a c k :: int
proof -
  assume a: "0 < c" "a < k * c"
  have "a div c * c \<le> a" using a(1) by (simp add: minus_mod_eq_div_mult [symmetric])
  then have "a div c * c < k * c" using a(2) by simp
  then show ?thesis using a(1) by simp
qed

lemma shifted_in:
  fixes v :: int
  assumes "0 < c" and "val = (v mod c) * 2 ^ 23 div c"
  shows "(if v div c mod 2 = 1 then (val div 2) OR push_bit 22 1 else val div 2) = (v mod (2 * c)) * 2 ^ 23 div (2 * c)"
proof -
  let ?a = "v mod c" and ?b = "v div c mod 2"
  let ?h = "val div 2"
  have s: "v mod (2 * c) = c * ?b + ?a" using zmod_zmult2_eq [of 2 v c] by (simp add: mult.commute)
  have h: "?h = ?a * 2 ^ 23 div (2 * c)" unfolding assms(2) using zdiv_zmult2_eq [of 2 "?a * 2 ^ 23" c] by (simp add: mult.commute)
  have a: "0 \<le> ?a" "?a < c" using assms(1) by simp_all
  have "?a * 2 ^ 23 div (2 * c) < 2 ^ 22" using a assms(1) by (intro div_less_mult) simp_all
  then have o: "?h OR push_bit 22 1 = ?h + 2 ^ 22" using a assms(1) unfolding h by (intro or_bit) (simp_all add: pos_imp_zdiv_nonneg_iff)
  have "(v mod (2 * c)) * 2 ^ 23 = ?a * 2 ^ 23 + (?b * 2 ^ 22) * (2 * c)" unfolding s by (simp add: algebra_simps)
  then have "(v mod (2 * c)) * 2 ^ 23 div (2 * c) = ?h + ?b * 2 ^ 22" unfolding h using assms(1) by (simp only: div_mult_self1)
  moreover have "?b = 0 \<or> ?b = 1" by auto
  ultimately show ?thesis using o by auto
qed

text \<open>The loop finds the highest bit of the number, and keeps the 23 bits below it.\<close>

lemma float_loop_from:
  assumes "2 ^ k \<le> v" and "v < 2 ^ Suc k" and "i \<le> k"
  shows "float_loop (v div 2 ^ i) ((v mod 2 ^ i) * 2 ^ 23 div 2 ^ i) (int i) = ((v mod 2 ^ k) * 2 ^ 23 div 2 ^ k, int k)"
  using assms(3)
proof (induction i rule: inc_induct)
  case base
  have "v div 2 ^ k < 2" using assms(2) by (intro div_less_mult) simp_all
  then show ?case by (subst float_loop.simps) simp
next
  case (step i)
  have "v div 2 ^ i > 1"
  proof -
    have "(2 :: int) ^ Suc i \<le> 2 ^ k" using step.hyps by (intro power_increasing) simp_all
    then have "2 * 2 ^ i \<le> v" using assms(1) by simp
    then have "2 * 2 ^ i div 2 ^ i \<le> v div 2 ^ i" by (intro zdiv_mono1) simp_all
    then show ?thesis by simp
  qed
  moreover have "v div 2 ^ i div 2 = v div 2 ^ Suc i" using zdiv_zmult2_eq [of 2 v "2 ^ i"] by (simp add: mult.commute)
  moreover have "(if v div 2 ^ i mod 2 = 1 then ((v mod 2 ^ i) * 2 ^ 23 div 2 ^ i) div 2 OR push_bit 22 1 else ((v mod 2 ^ i) * 2 ^ 23 div 2 ^ i) div 2) =
      (v mod 2 ^ Suc i) * 2 ^ 23 div 2 ^ Suc i" using shifted_in [of "2 ^ i" _ v] by (simp only: power_Suc) simp
  ultimately have "float_loop (v div 2 ^ i) ((v mod 2 ^ i) * 2 ^ 23 div 2 ^ i) (int i) =
      float_loop (v div 2 ^ Suc i) ((v mod 2 ^ Suc i) * 2 ^ 23 div 2 ^ Suc i) (int (Suc i))"
    by (subst float_loop.simps) (simp only: if_True of_nat_Suc add.commute)
  then show ?case using step.IH by simp
qed

lemma float_loop_exact:
  assumes "2 ^ k \<le> max 1 v" and "max 1 v < 2 ^ Suc k" and "0 \<le> v"
  shows "float_loop v 0 0 = ((max 1 v mod 2 ^ k) * 2 ^ 23 div 2 ^ k, int k)"
proof (cases "v = 0")
  case True
  have "k = 0"
  proof (rule ccontr)
    assume "k \<noteq> 0"
    then have "(2 :: int) ^ 1 \<le> 2 ^ k" by (intro power_increasing) simp_all
    then show False using assms(1) True by simp
  qed
  then show ?thesis using True by (simp add: float_loop.simps)
next
  case False
  then show ?thesis using float_loop_from [of k v 0] assms by simp
qed

definition float_bytes :: "bool \<Rightarrow> int \<Rightarrow> int \<Rightarrow> u8 list" where
  "float_bytes neg e val =
     [of_int ((if neg then 0x80 else 0) OR drop_bit 1 e), of_int (push_bit 7 (e AND 1) OR (drop_bit 16 val AND 0x7f)),
      of_int (drop_bit 8 val AND 0xff), of_int (val AND 0xff)]"

lemma int_bit_bound: "0 \<le> x \<Longrightarrow> x < 2 ^ k \<Longrightarrow> bit x n \<Longrightarrow> n < k" for x :: int
  by (metis bit_take_bit_iff take_bit_int_eq_self)

lemma float_bits:
  assumes "0 \<le> e" and "e < 2 ^ 8" and "0 \<le> val" and "val < 2 ^ 23" and "float_bytes neg e val = [v0, v1, v2, v3]"
  shows "v0 AND 0x80 \<noteq> 0 \<longleftrightarrow> neg" and "uint (push_bit 1 v0 OR drop_bit 7 v1) = e"
    and "(push_bit 16 (ucast (v1 AND 0x7f)) OR push_bit 8 (ucast v2) OR ucast v3 :: u32) OR push_bit 23 1 = of_int (val + 2 ^ 23)"
proof -
  note e8 = int_bit_bound [OF assms(1,2)] and v23 = int_bit_bound [OF assms(3,4)]
  have b80: "bit (0x80 :: int) n \<longleftrightarrow> n = 7" "bit (0x80 :: u8) n \<longleftrightarrow> n = 7" for n
    using bit_exp_iff [of 7 n, where 'a = int] bit_exp_iff [of 7 n, where 'a = u8] by auto
  have b7f: "bit (0x7f :: int) n \<longleftrightarrow> n < 7" "bit (0x7f :: u8) n \<longleftrightarrow> n < 7" "bit (0xff :: int) n \<longleftrightarrow> n < 8" for n
    using bit_mask_iff [of 7 n, where 'a = int] bit_mask_iff [of 7 n, where 'a = u8] bit_mask_iff [of 8 n, where 'a = int]
    by (auto simp: mask_eq_exp_minus_1)
  have b1: "bit (e AND 1) n \<longleftrightarrow> n = 0 \<and> bit e 0" for n by (auto simp: bit_and_iff bit_1_iff)
  have v0: "bit v0 n \<longleftrightarrow> n < 8 \<and> (n = 7 \<and> neg \<or> bit e (Suc n))" for n
    using assms(5) by (cases neg) (auto simp: float_bytes_def bit_word_of_int_iff bit_or_iff bit_drop_bit_eq b80 dest: e8)
  have v1: "bit v1 n \<longleftrightarrow> n < 8 \<and> (n = 7 \<and> bit e 0 \<or> n < 7 \<and> bit val (16 + n))" for n
    using assms(5) by (auto simp: float_bytes_def bit_word_of_int_iff bit_or_iff bit_and_iff bit_drop_bit_eq b7f b1 bit_push_bit_iff)
  have v2: "bit v2 n \<longleftrightarrow> n < 8 \<and> bit val (8 + n)" for n
    using assms(5) by (auto simp: float_bytes_def bit_word_of_int_iff bit_and_iff bit_drop_bit_eq b7f)
  have v3: "bit v3 n \<longleftrightarrow> n < 8 \<and> bit val n" for n
    using assms(5) by (auto simp: float_bytes_def bit_word_of_int_iff bit_and_iff b7f)
  show "v0 AND 0x80 \<noteq> 0 \<longleftrightarrow> neg"
  proof -
    have "bit (v0 AND 0x80) 7 \<longleftrightarrow> bit v0 7" by (simp add: bit_and_iff b80)
    moreover have "v0 AND 0x80 = 0" if "\<not> bit v0 7" by (rule bit_word_eqI) (use that in \<open>auto simp: bit_and_iff b80\<close>)
    ultimately have "v0 AND 0x80 \<noteq> 0 \<longleftrightarrow> bit v0 7" by fastforce
    then show ?thesis using v0 [of 7] e8 [of 8] by auto
  qed
  have "push_bit 1 v0 OR drop_bit 7 v1 = (of_int e :: u8)"
  proof (rule bit_word_eqI)
    fix n assume "n < LENGTH(8)"
    then show "bit (push_bit 1 v0 OR drop_bit 7 v1) n \<longleftrightarrow> bit (of_int e :: u8) n"
      unfolding bit_or_iff bit_push_bit_iff bit_drop_bit_eq v0 comp_def v1 bit_word_of_int_iff by (cases n) auto
  qed
  then show "uint (push_bit 1 v0 OR drop_bit 7 v1) = e" using assms(1,2) by (simp add: take_bit_int_eq_self unsigned_of_int)
  have "(push_bit 16 (ucast (v1 AND 0x7f)) OR push_bit 8 (ucast v2) OR ucast v3 :: u32) = of_int val"
  proof (rule bit_word_eqI)
    fix n assume "n < LENGTH(32)"
    consider "n < 8" | "8 \<le> n" "n < 16" | "16 \<le> n" "n < 23" | "23 \<le> n" by linarith
    then show "bit (push_bit 16 (ucast (v1 AND 0x7f)) OR push_bit 8 (ucast v2) OR ucast v3 :: u32) n \<longleftrightarrow> bit (of_int val :: u32) n"
      by cases (auto simp: bit_or_iff bit_and_iff bit_unsigned_iff bit_push_bit_iff b7f v1 v2 v3 bit_word_of_int_iff dest: v23)
  qed
  moreover have "val + 2 ^ 23 = val OR push_bit 23 1" using or_bit [of val 23] assms(3,4) by simp
  moreover have "of_int (val OR push_bit 23 1) = (of_int val OR push_bit 23 1 :: u32)"
    by (rule bit_word_eqI) (auto simp: bit_or_iff bit_push_bit_iff bit_1_iff bit_exp_iff bit_word_of_int_iff)
  ultimately show "(push_bit 16 (ucast (v1 AND 0x7f)) OR push_bit 8 (ucast v2) OR ucast v3 :: u32) OR push_bit 23 1 = of_int (val + 2 ^ 23)" by simp
qed

lemma float_stack:
  assumes "accessible m b 4" and "vs = [v0, v1, v2, v3]"
  shows "do { m \<leftarrow> store m b v0; m \<leftarrow> store m (b + 1) v1; m \<leftarrow> store m (b + 2) v2; m \<leftarrow> store m (b + 3) v3; f m } = f (put m b vs)"
proof -
  have "store_list m b vs = Some (put m b vs)" using assms by (intro store_list_put) (simp add: eval_nat_numeral)
  moreover have "do { m \<leftarrow> store m b v0; m \<leftarrow> store m (b + 1) v1; m \<leftarrow> store m (b + 2) v2; m \<leftarrow> store m (b + 3) v3; f m } =
      Option.bind (store_list m b vs) f" by (simp add: assms(2) numeral_2_eq_2 numeral_3_eq_3)
  ultimately show ?thesis by simp
qed

lemma sint_of_int_small: "- (2 ^ 31) \<le> x \<Longrightarrow> x < 2 ^ 31 \<Longrightarrow> sint (of_int x :: u32) = x"
  by (simp add: signed_of_int signed_take_bit_int_eq_self)

lemma sint_uminus_small: "- (2 ^ 31) < sint v \<Longrightarrow> sint (- v) = - sint v" for v :: u32
  using sint_of_int_small [of "- sint v"] sint_lt [of v] by simp

lemma sint_signed: "- (2 ^ 31) < sint w \<Longrightarrow> sint (if neg then - w else w) = (if neg then - 1 else 1) * sint w" for w :: u32
  by (simp add: sint_uminus_small)

text \<open>The number that is read: the 24 highest bits of the number that was written.\<close>

lemma mantissa_value:
  fixes M :: int
  assumes "2 ^ k \<le> M" and "M < 2 ^ Suc k" and "k < 31"
  shows "0 \<le> (M mod 2 ^ k) * 2 ^ 23 div 2 ^ k" and "(M mod 2 ^ k) * 2 ^ 23 div 2 ^ k < 2 ^ 23"
    and "sint (if int k - 23 > 0 then push_bit (nat (int k - 23)) (of_int ((M mod 2 ^ k) * 2 ^ 23 div 2 ^ k + 2 ^ 23) :: u32)
      else signed_drop_bit (nat (- (int k - 23))) (of_int ((M mod 2 ^ k) * 2 ^ 23 div 2 ^ k + 2 ^ 23))) = M div 2 ^ (k - 23) * 2 ^ (k - 23)"
proof -
  let ?f = "(M mod 2 ^ k) * 2 ^ 23 div 2 ^ k"
  show f: "0 \<le> ?f" "?f < 2 ^ 23" by (simp add: pos_imp_zdiv_nonneg_iff) (intro div_less_mult; simp)
  have "M div 2 ^ k = 1"
  proof -
    have "M div 2 ^ k < 2" using assms(2) by (intro div_less_mult) simp_all
    moreover have "2 ^ k div 2 ^ k \<le> M div 2 ^ k" using assms(1) by (intro zdiv_mono1) simp_all
    ultimately show ?thesis by simp
  qed
  then have m: "M mod 2 ^ k = M - 2 ^ k" using minus_div_mult_eq_mod [of M "2 ^ k"] by simp
  have "(M mod 2 ^ k) * 2 ^ 23 + 2 ^ 23 * 2 ^ k = M * 2 ^ 23" unfolding m by (simp add: algebra_simps)
  then have v: "?f + 2 ^ 23 = M * 2 ^ 23 div 2 ^ k" using div_mult_self1 [of "2 ^ k" "(M mod 2 ^ k) * 2 ^ 23" "2 ^ 23"] by simp
  show "sint (if int k - 23 > 0 then push_bit (nat (int k - 23)) (of_int (?f + 2 ^ 23) :: u32)
      else signed_drop_bit (nat (- (int k - 23))) (of_int (?f + 2 ^ 23))) = M div 2 ^ (k - 23) * 2 ^ (k - 23)"
  proof (cases "k \<le> 23")
    case True
    then have e: "(2 :: int) ^ 23 = 2 ^ (23 - k) * 2 ^ k" by (simp flip: power_add)
    have "M * 2 ^ 23 div 2 ^ k = M * 2 ^ (23 - k)" unfolding e by (simp add: mult.assoc [symmetric])
    then have "?f + 2 ^ 23 = M * 2 ^ (23 - k)" using v by simp
    moreover have "sint (of_int (?f + 2 ^ 23) :: u32) = ?f + 2 ^ 23" using f by (intro sint_of_int_small) simp_all
    moreover have "\<not> int k - 23 > 0" "nat (- (int k - 23)) = 23 - k" using True by simp_all
    ultimately show ?thesis using True by (simp only: if_False sint_signed_drop_bit) simp
  next
    case False
    then have e: "(2 :: int) ^ k = 2 ^ 23 * 2 ^ (k - 23)" unfolding power_add [symmetric] by simp
    have "M * 2 ^ 23 div 2 ^ k = M div 2 ^ (k - 23)" unfolding e by (subst mult.commute) (rule div_mult_mult1, simp)
    then have q: "?f + 2 ^ 23 = M div 2 ^ (k - 23)" using v by simp
    have "M div 2 ^ (k - 23) * 2 ^ (k - 23) \<le> M" by (simp add: minus_mod_eq_div_mult [symmetric])
    moreover have "(2 :: int) ^ Suc k \<le> 2 ^ 31" using assms(3) by (intro power_increasing) simp_all
    ultimately have "M div 2 ^ (k - 23) * 2 ^ (k - 23) < 2 ^ 31" using assms(2) by linarith
    moreover have "0 \<le> M div 2 ^ (k - 23) * 2 ^ (k - 23)" using f q by simp
    ultimately have "sint (of_int (M div 2 ^ (k - 23) * 2 ^ (k - 23)) :: u32) = M div 2 ^ (k - 23) * 2 ^ (k - 23)" by (intro sint_of_int_small) linarith+
    moreover have "int k - 23 > 0" "nat (int k - 23) = k - 23" using False by simp_all
    ultimately show ?thesis unfolding q by (simp only: if_True push_bit_eq_mult of_int_mult of_int_power of_int_numeral)
  qed
qed

text \<open>
  C13: A fixed point number that is written as a floating point number and read back keeps its sign and its 24 highest bits, so every number
  of less than 24 bits is exact, with one exception: 0 is read back as 1, because the leading one of the mantissa is always there.
\<close>

theorem oma_float_roundtrip:
  assumes "accessible m b 4" and "accessible m outbuf 7" and "b + 4 \<le> outbuf \<or> outbuf + 7 \<le> b" and "5 \<le> outlen"
    and "- (2 ^ 31) < sint value" and "2 ^ k \<le> max 1 \<bar>sint value\<bar>" and "max 1 \<bar>sint value\<bar> < 2 ^ Suc k" and "0 \<le> int k - bits + 127" and "int k - bits + 127 < 256"
  shows "\<exists>size m' w. write_float32fix_tlv m b rid outbuf outlen value bits = Some (size, m') \<and>
    tlv_read_float32fix m' outbuf len bits = Some (size, Some w) \<and>
    sint w = (if sint value < 0 then - 1 else 1) * (max 1 \<bar>sint value\<bar> div 2 ^ (k - 23) * 2 ^ (k - 23))"
proof -
  let ?M = "max 1 \<bar>sint value\<bar>" and ?neg = "sint value < 0" and ?e = "int k - bits + 127"
  let ?f = "(?M mod 2 ^ k) * 2 ^ 23 div 2 ^ k"
  obtain v0 v1 v2 v3 where vs: "float_bytes ?neg ?e ?f = [v0, v1, v2, v3]" by (simp add: float_bytes_def)
  have k: "k < 31"
  proof (rule ccontr)
    assume "\<not> k < 31"
    then have "(2 :: int) ^ 31 \<le> 2 ^ k" by (intro power_increasing) simp_all
    then show False using assms(5,6) sint_lt [of "value"] by auto
  qed
  note mv = mantissa_value [OF assms(6,7) k]
  have e8: "?e < 2 ^ 8" using assms(9) by simp
  note fb = float_bits [OF assms(8) e8 mv(1,2) vs]
  have abs: "sint (if ?neg then - value else value) = \<bar>sint value\<bar>" using assms(5) by (simp add: sint_uminus_small)
  have fl: "float_loop \<bar>sint value\<bar> 0 0 = (?f, int k)" using assms(6,7) by (intro float_loop_exact) simp_all
  have w: "write_float32fix_tlv m b rid outbuf outlen value bits =
      oma_tlv_write (put m b [v0, v1, v2, v3]) \<lparr>tlv_type = OMA_TLV_TYPE_RESOURCE, tlv_id = rid, tlv_length = of_nat (length [v0, v1, v2, v3]), tlv_value = b\<rparr> outbuf outlen"
    using vs unfolding write_float32fix_tlv_def oma_tlv_write_float32_def Let_def abs fl case_prod_conv float_bytes_def list.inject
    by (elim conjE) (simp only: float_stack [OF assms(1) refl], simp)
  have acc: "accessible (put m b [v0, v1, v2, v3]) outbuf 7"
    using assms(1,2) by (subst accessible_put) (simp_all add: eval_nat_numeral)
  have dis: "b + length [v0, v1, v2, v3] \<le> outbuf \<or> outbuf + 7 \<le> b" using assms(3) by (simp add: eval_nat_numeral)
  obtain m' t where t: "write_float32fix_tlv m b rid outbuf outlen value bits = Some (oma_tlv_get_size t, m')" "0 < oma_tlv_get_size t"
    "oma_tlv_read m' outbuf len = Some (oma_tlv_get_size t, t)" "bytes_at m' (tlv_value t) [v0, v1, v2, v3]"
    using resource_written [OF bytes_at_put _ _ acc dis assms(4), of rid len] unfolding w by auto
  let ?w = "if int k - 23 > 0 then push_bit (nat (int k - 23)) (of_int (?f + 2 ^ 23) :: u32)
      else signed_drop_bit (nat (- (int k - 23))) (of_int (?f + 2 ^ 23))"
  have at: "m' (tlv_value t) = Some v0" "m' (tlv_value t + 1) = Some v1" "m' (tlv_value t + 2) = Some v2" "m' (tlv_value t + 3) = Some v3"
    using t(4) by (simp_all add: bytes_at_Cons eval_nat_numeral)
  have ee: "?e - 127 + bits - 23 = int k - 23" by simp
  have sm: "\<not> \<bar>int k - 23\<bar> \<ge> 32" using k by simp
  have r: "oma_tlv_float32_to_fix m' t bits = Some (if ?neg then - ?w else ?w)"
    unfolding oma_tlv_float32_to_fix_def at Option.bind.bind_lunit Let_def fb ee if_not_P [OF sm] by (simp only: Option.bind.bind_lunit)
  have "- (2 ^ 31) < sint ?w" unfolding mv(3) by (rule less_le_trans [of _ 0]) (simp_all add: pos_imp_zdiv_nonneg_iff)
  then have "sint (if ?neg then - ?w else ?w) = (if ?neg then - 1 else 1) * sint ?w" by (rule sint_signed)
  moreover have "tlv_read_float32fix m' outbuf len bits = Some (oma_tlv_get_size t, Some (if ?neg then - ?w else ?w))"
    unfolding tlv_read_float32fix_def t(3) Option.bind.bind_lunit case_prod_conv if_P [OF t(2)] r ..
  ultimately show ?thesis using t(1) unfolding mv(3) by blast
qed

theorem oma_float_roundtrip_witness:
  "(\<exists>size m' w. write_float32fix_tlv (\<lambda>_. Some 0) 0 5700 100 32 (- 1500) 10 = Some (size, m') \<and>
     tlv_read_float32fix m' 100 32 10 = Some (size, Some w) \<and> sint w = - 1500) \<and>
   (\<exists>size m' w. write_float32fix_tlv (\<lambda>_. Some 0) 0 5700 100 32 0 10 = Some (size, m') \<and>
     tlv_read_float32fix m' 100 32 10 = Some (size, Some w) \<and> sint w = 1)"
proof -
  have a: "accessible (\<lambda>_. Some 0) p n" for p n by (simp add: accessible_def)
  show ?thesis
    using oma_float_roundtrip [OF a a, of 0 100 32 "- 1500" 10 10 5700 32] oma_float_roundtrip [OF a a, of 0 100 32 0 0 10 5700 32] by simp
qed

text \<open>
  C40: What writing an encoded value does, for every size of the buffer: nothing when the length, the first byte and the bytes of the length do
  not fit, and otherwise the whole encoding, which is read back. The one or two bytes of the identifier are not part of that
  comparison, so the encoding can be longer than the buffer by as much.
\<close>

theorem oma_tlv_write_bound:
  assumes "bytes_at m (tlv_value t) vs" and "length vs = unat (tlv_length t)" and "accessible m buffer (length (tlv_header t) + length vs)"
    and "tlv_value t + length vs \<le> buffer \<or> buffer + length (tlv_header t) + length vs \<le> tlv_value t" and "tlv_length t < 0x1000000"
    and "tlv_type t < 4"
  shows "\<exists>n m'. oma_tlv_write m t buffer len = Some (n, m') \<and>
    (if unat len < unat (tlv_length t) + 1 + get_len_type t then n = 0 \<and> m' = m
     else unat n = unat (tlv_length t) + 1 + get_len_type t + (if tlv_id t > 255 then 2 else 1) \<and> bytes_at m' (buffer + (unat n - length vs)) vs \<and>
       oma_tlv_read m' buffer len' = Some (n, t\<lparr>tlv_value := buffer + (unat n - length vs)\<rparr>))"
proof -
  have n: "unat (oma_tlv_get_size t) - length vs = length (tlv_header t)"
    using oma_tlv_write_result(2) [OF assms(1-5)] assms(2) by (simp add: length_tlv_header)
  have b: "bytes_at (put m buffer (tlv_header t @ vs)) buffer (tlv_header t @ vs)" by (rule bytes_at_put)
  show ?thesis
    using oma_tlv_write_result(1) [OF assms(1-5), of len] oma_tlv_write_result(2) [OF assms(1-5)] oma_tlv_read_encoded [OF b assms(6,5), of len'] b n by (auto simp: bytes_at_append)
qed

theorem oma_tlv_write_bound_witness:
  "\<exists>n m'. oma_tlv_write (\<lambda>_. Some 0) \<lparr>tlv_type = OMA_TLV_TYPE_RESOURCE, tlv_id = 5700, tlv_length = 2, tlv_value = 0\<rparr> 100 3 = Some (n, m') \<and> unat n = 5"
proof -
  have a: "accessible (\<lambda>_. Some 0) p n" for p n by (simp add: accessible_def)
  show ?thesis
    using oma_tlv_write_bound [where len' = 3, of "\<lambda>_. Some 0" "\<lparr>tlv_type = OMA_TLV_TYPE_RESOURCE, tlv_id = 5700, tlv_length = 2, tlv_value = 0\<rparr>" "[0, 0]" 100 3, OF _ _ a]
    by (simp add: bytes_at_Cons OMA_TLV_TYPE_RESOURCE_def get_len_type_def length_tlv_header) blast
qed

end
