(* ===== verification/Tsch_Queue.thy ===== *)
theory Tsch_Queue
  imports Clist Memb Ringbufs Linkaddr
begin

section \<open>The TSCH packet queues (emb6/src/dll/tsch/tsch-queue.c)\<close>

text \<open>
  Every TSCH neighbour has a ring of pointers to packets; neighbours and packets come from two
  block pools, and the neighbours are on a linked list. The model has the pools, the list and the memory of both kinds
  of objects. The rest of the system is the field \<open>tq_world\<close>; what the MAC callbacks, the packet buffers and
  the keep-alive timer do is given by the record \<open>tq_env\<close>, a callback acting on the whole state.

  A slot operation that holds the lock ends by itself (\<open>tsch_get_lock\<close> waits for it), so
  the lock is one flag. The configuration is the default one: four slots per neighbour, no link
  selector, addresses of eight bytes. A loop over a list that is not well formed need not end, and is \<open>None\<close>.
\<close>

subsection \<open>Addresses\<close>

definition tsch_broadcast_address :: linkaddr where
  "tsch_broadcast_address = [0xff, 0xff, 0xff, 0xff, 0xff, 0xff, 0xff, 0xff]"

definition tsch_eb_address :: linkaddr where
  "tsch_eb_address = [0, 0, 0, 0, 0, 0, 0, 0]"

subsection \<open>State\<close>

definition TSCH_QUEUE_NUM_PER_NEIGHBOR :: nat where "TSCH_QUEUE_NUM_PER_NEIGHBOR = 4"
definition TSCH_MAC_MIN_BE :: u8 where "TSCH_MAC_MIN_BE = 1"
definition TSCH_MAC_MAX_BE :: nat where "TSCH_MAC_MAX_BE = 7"
definition LINK_OPTION_SHARED :: u8 where "LINK_OPTION_SHARED = 4"
definition MAC_TX_DEFERRED :: u8 where "MAC_TX_DEFERRED = 3"
definition MAC_TX_ERR :: u8 where "MAC_TX_ERR = 4"

record tsch_packet =
  pk_qb :: ptr
  pk_sent :: ptr
  pk_ptr :: ptr
  pk_transmissions :: u8
  pk_ret :: u8
  pk_header_len :: u8
  pk_tsch_sync_ie_offset :: u8

record tsch_neighbor =
  nb_addr :: linkaddr
  is_broadcast :: bool
  is_time_source :: bool
  backoff_exponent :: u8
  backoff_window :: u8
  last_backoff_window :: u8
  tx_links_count :: u8
  dedicated_tx_links_count :: u8
  tx_array :: "ptr list"
  tx_ringbuf :: ringbufindex

record 'w tschq =
  tq_locked :: bool
  tsch_is_coordinator :: bool
  packet_memb :: memb
  neighbor_memb :: memb
  neighbor_list :: clist
  nbr :: "ptr \<Rightarrow> tsch_neighbor"
  pkt :: "ptr \<Rightarrow> tsch_packet"
  n_broadcast :: ptr
  n_eb :: ptr
  tq_world :: 'w

record 'w tq_env =
  env_sent :: "ptr \<Rightarrow> ptr \<Rightarrow> u8 \<Rightarrow> u8 \<Rightarrow> 'w tschq \<Rightarrow> 'w tschq"
  env_qb_new :: "'w \<Rightarrow> ptr \<times> 'w"
  env_qb_free :: "ptr \<Rightarrow> 'w \<Rightarrow> 'w"
  env_ka_start :: "'w \<Rightarrow> 'w"
  env_ka_stop :: "'w \<Rightarrow> 'w"

definition upd_nbr :: "ptr \<Rightarrow> (tsch_neighbor \<Rightarrow> tsch_neighbor) \<Rightarrow> 'w tschq \<Rightarrow> 'w tschq" where
  "upd_nbr n f s = s\<lparr>nbr := (nbr s)(n := f (nbr s n))\<rparr>"

definition upd_pkt :: "ptr \<Rightarrow> (tsch_packet \<Rightarrow> tsch_packet) \<Rightarrow> 'w tschq \<Rightarrow> 'w tschq" where
  "upd_pkt p f s = s\<lparr>pkt := (pkt s)(p := f (pkt s p))\<rparr>"

subsection \<open>Operations\<close>

definition tsch_is_locked :: "'w tschq \<Rightarrow> bool" where
  "tsch_is_locked s = tq_locked s"

definition tsch_get_lock :: "'w tschq \<Rightarrow> bool \<times> 'w tschq" where
  "tsch_get_lock s = (if \<not> tq_locked s then (True, s\<lparr>tq_locked := True\<rparr>) else (False, s))"

definition tsch_release_lock :: "'w tschq \<Rightarrow> 'w tschq" where
  "tsch_release_lock s = s\<lparr>tq_locked := False\<rparr>"

definition tsch_queue_backoff_expired :: "tsch_neighbor \<Rightarrow> bool" where
  "tsch_queue_backoff_expired n \<longleftrightarrow> backoff_window n = 0"

definition tsch_queue_backoff_reset :: "tsch_neighbor \<Rightarrow> tsch_neighbor" where
  "tsch_queue_backoff_reset n = n\<lparr>backoff_window := 0, backoff_exponent := TSCH_MAC_MIN_BE\<rparr>"

text \<open>\<open>rand\<close> is the value \<open>random_rand\<close> returns.\<close>

definition tsch_queue_backoff_inc :: "u16 \<Rightarrow> tsch_neighbor \<Rightarrow> tsch_neighbor" where
  "tsch_queue_backoff_inc rand n =
     (let n = n\<lparr>backoff_exponent := of_nat (min (unat (backoff_exponent n) + 1) TSCH_MAC_MAX_BE)\<rparr>;
          n = n\<lparr>backoff_window := of_nat (unat (drop_bit 6 rand) mod 2 ^ unat (backoff_exponent n))\<rparr>
      in n\<lparr>backoff_window := backoff_window n + 1\<rparr>)"

text \<open>The walk along the list that several functions share: the first neighbour with a property.\<close>

partial_function (option) nbr_search :: "clist \<Rightarrow> (ptr \<Rightarrow> bool) \<Rightarrow> ptr \<Rightarrow> ptr option" where
  "nbr_search l P n = (if n = NULL then Some NULL else if P n then Some n else nbr_search l P (list_item_next l n))"

definition tsch_queue_get_nbr :: "linkaddr \<Rightarrow> 'w tschq \<Rightarrow> ptr option" where
  "tsch_queue_get_nbr addr s =
     (if \<not> tsch_is_locked s
      then nbr_search (neighbor_list s) (\<lambda>n. linkaddr_cmp (nb_addr (nbr s n)) addr) (list_head (neighbor_list s))
      else Some NULL)"

definition tsch_queue_get_time_source :: "'w tschq \<Rightarrow> ptr option" where
  "tsch_queue_get_time_source s =
     (if \<not> tsch_is_locked s
      then nbr_search (neighbor_list s) (\<lambda>n. is_time_source (nbr s n)) (list_head (neighbor_list s))
      else Some NULL)"

text \<open>A neighbour after \<open>memset\<close>; the array of the ring is zeroed as well.\<close>

definition zero_neighbor :: tsch_neighbor where
  "zero_neighbor =
     \<lparr>nb_addr = replicate LINKADDR_SIZE 0, is_broadcast = False, is_time_source = False, backoff_exponent = 0,
      backoff_window = 0, last_backoff_window = 0, tx_links_count = 0, dedicated_tx_links_count = 0,
      tx_array = replicate TSCH_QUEUE_NUM_PER_NEIGHBOR NULL,
      tx_ringbuf = \<lparr>rbi_mask = 0, put_ptr = 0, get_ptr = 0\<rparr>\<rparr>"

definition new_neighbor :: "linkaddr \<Rightarrow> tsch_neighbor" where
  "new_neighbor addr =
     (let n = zero_neighbor\<lparr>tx_ringbuf := ringbufindex_init (of_nat TSCH_QUEUE_NUM_PER_NEIGHBOR)\<rparr>;
          n = n\<lparr>nb_addr := linkaddr_copy (nb_addr n) addr\<rparr>;
          n = n\<lparr>is_broadcast := linkaddr_cmp addr tsch_eb_address \<or> linkaddr_cmp addr tsch_broadcast_address\<rparr>
      in tsch_queue_backoff_reset n)"

definition tsch_queue_add_nbr :: "linkaddr \<Rightarrow> 'w tschq \<Rightarrow> (ptr \<times> 'w tschq) option" where
  "tsch_queue_add_nbr addr s = do {
     n \<leftarrow> tsch_queue_get_nbr addr s;
     if n = NULL then
       case tsch_get_lock s of
         (False, s) \<Rightarrow> Some (n, s)
       | (True, s) \<Rightarrow>
           (case memb_alloc (neighbor_memb s) of
              (n, m) \<Rightarrow> do {
                let s = s\<lparr>neighbor_memb := m\<rparr>;
                s \<leftarrow> (if n \<noteq> NULL then do {
                       let s = upd_nbr n (\<lambda>_. new_neighbor addr) s;
                       let l = (neighbor_list s)\<lparr>cl_next := (cl_next (neighbor_list s))(n := NULL)\<rparr>;
                       l \<leftarrow> list_add l n;
                       Some (s\<lparr>neighbor_list := l\<rparr>)
                     } else Some s);
                Some (n, tsch_release_lock s)
              })
     else Some (n, s)
   }"

definition tsch_queue_update_time_source :: "'w tq_env \<Rightarrow> linkaddr option \<Rightarrow> 'w tschq \<Rightarrow> (bool \<times> 'w tschq) option" where
  "tsch_queue_update_time_source env new_addr s =
     (if tsch_is_locked s \<or> tsch_is_coordinator s then Some (False, s)
      else do {
        old \<leftarrow> tsch_queue_get_time_source s;
        (new, s) \<leftarrow> (case new_addr of None \<Rightarrow> Some (NULL, s) | Some a \<Rightarrow> tsch_queue_add_nbr a s);
        if new_addr \<noteq> None \<and> new = NULL then Some (False, s)
        else if new \<noteq> old then do {
          let s = (if new \<noteq> NULL then
                     (let s = upd_nbr new (\<lambda>n. n\<lparr>is_time_source := True\<rparr>) s
                      in s\<lparr>tq_world := env_ka_start env (tq_world s)\<rparr>)
                   else s\<lparr>tq_world := env_ka_stop env (tq_world s)\<rparr>);
          let s = (if old \<noteq> NULL then upd_nbr old (\<lambda>n. n\<lparr>is_time_source := False\<rparr>) s else s);
          Some (True, s)
        }
        else Some (True, s)
      })"

definition tsch_queue_is_empty :: "ptr \<Rightarrow> 'w tschq \<Rightarrow> bool" where
  "tsch_queue_is_empty n s \<longleftrightarrow> \<not> tsch_is_locked s \<and> n \<noteq> NULL \<and> ringbufindex_empty (tx_ringbuf (nbr s n))"

definition tsch_queue_remove_packet_from_queue :: "ptr \<Rightarrow> 'w tschq \<Rightarrow> ptr \<times> 'w tschq" where
  "tsch_queue_remove_packet_from_queue n s =
     (if \<not> tsch_is_locked s \<and> n \<noteq> NULL then
        (case ringbufindex_get (tx_ringbuf (nbr s n)) of
           (i, r) \<Rightarrow>
             (let s = upd_nbr n (\<lambda>nb. nb\<lparr>tx_ringbuf := r\<rparr>) s
              in if i \<noteq> -1 then (tx_array (nbr s n) ! nat i, s) else (NULL, s)))
      else (NULL, s))"

definition tsch_queue_free_packet :: "'w tq_env \<Rightarrow> ptr \<Rightarrow> 'w tschq \<Rightarrow> 'w tschq" where
  "tsch_queue_free_packet env p s =
     (if p \<noteq> NULL then
        (let s = s\<lparr>tq_world := env_qb_free env (pk_qb (pkt s p)) (tq_world s)\<rparr>
         in s\<lparr>packet_memb := snd (memb_free (packet_memb s) p)\<rparr>)
      else s)"

partial_function (option) flush_loop :: "'w tq_env \<Rightarrow> ptr \<Rightarrow> 'w tschq \<Rightarrow> 'w tschq option" where
  "flush_loop env n s =
     (if tsch_queue_is_empty n s then Some s
      else case tsch_queue_remove_packet_from_queue n s of
        (p, s) \<Rightarrow> flush_loop env n
          (if p \<noteq> NULL then
             (let s = upd_pkt p (\<lambda>k. k\<lparr>pk_ret := MAC_TX_ERR\<rparr>) s;
                  k = pkt s p;
                  s = env_sent env (pk_sent k) (pk_ptr k) (pk_ret k) (pk_transmissions k) s
              in tsch_queue_free_packet env p s)
           else s))"

definition tsch_queue_flush_nbr_queue :: "'w tq_env \<Rightarrow> ptr \<Rightarrow> 'w tschq \<Rightarrow> 'w tschq option" where
  "tsch_queue_flush_nbr_queue env n s = flush_loop env n s"

definition tsch_queue_remove_nbr :: "'w tq_env \<Rightarrow> ptr \<Rightarrow> 'w tschq \<Rightarrow> 'w tschq option" where
  "tsch_queue_remove_nbr env n s =
     (if n \<noteq> NULL then
        case tsch_get_lock s of
          (True, s) \<Rightarrow> do {
            l \<leftarrow> list_remove (neighbor_list s) n;
            let s = tsch_release_lock (s\<lparr>neighbor_list := l\<rparr>);
            s \<leftarrow> tsch_queue_flush_nbr_queue env n s;
            Some (s\<lparr>neighbor_memb := snd (memb_free (neighbor_memb s) n)\<rparr>)
          }
        | (False, s) \<Rightarrow> Some s
      else Some s)"

definition tsch_queue_add_packet :: "'w tq_env \<Rightarrow> linkaddr \<Rightarrow> ptr \<Rightarrow> ptr \<Rightarrow> 'w tschq \<Rightarrow> (ptr \<times> 'w tschq) option" where
  "tsch_queue_add_packet env addr sent arg s =
     (if tsch_is_locked s then Some (NULL, s)
      else do {
        (n, s) \<leftarrow> tsch_queue_add_nbr addr s;
        if n = NULL then Some (NULL, s)
        else (let i = ringbufindex_peek_put (tx_ringbuf (nbr s n)) in
          if i = -1 then Some (NULL, s)
          else case memb_alloc (packet_memb s) of
            (p, m) \<Rightarrow>
              (let s = s\<lparr>packet_memb := m\<rparr> in
               if p = NULL then Some (NULL, s)
               else case env_qb_new env (tq_world s) of
                 (qb, w) \<Rightarrow>
                   (let s = upd_pkt p (\<lambda>k. k\<lparr>pk_qb := qb\<rparr>) (s\<lparr>tq_world := w\<rparr>) in
                    if qb \<noteq> NULL then
                      (let s = upd_pkt p (\<lambda>k. k\<lparr>pk_sent := sent, pk_ptr := arg, pk_ret := MAC_TX_DEFERRED,
                                                pk_transmissions := 0\<rparr>) s;
                           s = upd_nbr n (\<lambda>nb. nb\<lparr>tx_array := (tx_array nb)[nat i := p]\<rparr>) s;
                           s = upd_nbr n (\<lambda>nb. nb\<lparr>tx_ringbuf := snd (ringbufindex_put (tx_ringbuf nb))\<rparr>) s
                       in Some (p, s))
                    else Some (NULL, s\<lparr>packet_memb := snd (memb_free (packet_memb s) p)\<rparr>))))
      })"

definition tsch_queue_packet_count :: "linkaddr \<Rightarrow> 'w tschq \<Rightarrow> (int \<times> 'w tschq) option" where
  "tsch_queue_packet_count addr s =
     (if tsch_is_locked s then Some (-1, s)
      else do {
        (n, s) \<leftarrow> tsch_queue_add_nbr addr s;
        Some (if n \<noteq> NULL then ringbufindex_elements (tx_ringbuf (nbr s n)) else -1, s)
      })"

partial_function (option) reset_loop :: "'w tq_env \<Rightarrow> ptr \<Rightarrow> 'w tschq \<Rightarrow> 'w tschq option" where
  "reset_loop env n s =
     (if n = NULL then Some s
      else do {
        let next_n = list_item_next (neighbor_list s) n;
        s \<leftarrow> tsch_queue_flush_nbr_queue env n s;
        reset_loop env next_n (upd_nbr n tsch_queue_backoff_reset s)
      })"

definition tsch_queue_reset :: "'w tq_env \<Rightarrow> 'w tschq \<Rightarrow> 'w tschq option" where
  "tsch_queue_reset env s =
     (if \<not> tsch_is_locked s then reset_loop env (list_head (neighbor_list s)) s else Some s)"

definition unused_nbr :: "'w tschq \<Rightarrow> ptr \<Rightarrow> bool" where
  "unused_nbr s n \<longleftrightarrow> \<not> is_broadcast (nbr s n) \<and> \<not> is_time_source (nbr s n) \<and> tx_links_count (nbr s n) = 0 \<and>
     tsch_queue_is_empty n s"

partial_function (option) free_unused_loop :: "'w tq_env \<Rightarrow> ptr \<Rightarrow> 'w tschq \<Rightarrow> 'w tschq option" where
  "free_unused_loop env n s =
     (if n = NULL then Some s
      else do {
        let next_n = list_item_next (neighbor_list s) n;
        s \<leftarrow> (if unused_nbr s n then tsch_queue_remove_nbr env n s else Some s);
        free_unused_loop env next_n s
      })"

definition tsch_queue_free_unused_neighbors :: "'w tq_env \<Rightarrow> 'w tschq \<Rightarrow> 'w tschq option" where
  "tsch_queue_free_unused_neighbors env s =
     (if \<not> tsch_is_locked s then free_unused_loop env (list_head (neighbor_list s)) s else Some s)"

text \<open>A link is given by its options, \<open>None\<close> being the null pointer.\<close>

definition tsch_queue_get_packet_for_nbr :: "ptr \<Rightarrow> u8 option \<Rightarrow> 'w tschq \<Rightarrow> ptr" where
  "tsch_queue_get_packet_for_nbr n link s =
     (if tsch_is_locked s then NULL
      else let is_shared_link = (case link of None \<Rightarrow> False | Some opts \<Rightarrow> opts AND LINK_OPTION_SHARED \<noteq> 0)
        in if n = NULL then NULL
           else let i = ringbufindex_peek_get (tx_ringbuf (nbr s n))
             in if i \<noteq> -1 \<and> \<not> (is_shared_link \<and> \<not> tsch_queue_backoff_expired (nbr s n))
                then tx_array (nbr s n) ! nat i else NULL)"

definition tsch_queue_get_packet_for_dest_addr :: "linkaddr \<Rightarrow> u8 option \<Rightarrow> 'w tschq \<Rightarrow> ptr option" where
  "tsch_queue_get_packet_for_dest_addr addr link s =
     (if \<not> tsch_is_locked s then do {
        n \<leftarrow> tsch_queue_get_nbr addr s;
        Some (tsch_queue_get_packet_for_nbr n link s)
      } else Some NULL)"

definition tsch_queue_get_unicast_packet_for_any :: "u8 option \<Rightarrow> 'w tschq \<Rightarrow> (ptr \<times> ptr) option" where
  "tsch_queue_get_unicast_packet_for_any link s =
     (if \<not> tsch_is_locked s then do {
        n \<leftarrow> nbr_search (neighbor_list s)
               (\<lambda>n. \<not> is_broadcast (nbr s n) \<and> tx_links_count (nbr s n) = 0 \<and>
                    tsch_queue_get_packet_for_nbr n link s \<noteq> NULL) (list_head (neighbor_list s));
        Some (if n = NULL then (NULL, NULL) else (tsch_queue_get_packet_for_nbr n link s, n))
      } else Some (NULL, NULL))"

definition backoff_step :: "bool \<Rightarrow> linkaddr \<Rightarrow> tsch_neighbor \<Rightarrow> tsch_neighbor" where
  "backoff_step is_bc dest_addr n =
     (if backoff_window n \<noteq> 0 \<and>
         ((tx_links_count n = 0 \<and> is_bc) \<or> (tx_links_count n > 0 \<and> linkaddr_cmp dest_addr (nb_addr n)))
      then n\<lparr>backoff_window := backoff_window n - 1\<rparr> else n)"

partial_function (option) backoff_loop :: "bool \<Rightarrow> linkaddr \<Rightarrow> ptr \<Rightarrow> 'w tschq \<Rightarrow> 'w tschq option" where
  "backoff_loop is_bc dest_addr n s =
     (if n = NULL then Some s
      else backoff_loop is_bc dest_addr (list_item_next (neighbor_list s) n) (upd_nbr n (backoff_step is_bc dest_addr) s))"

definition tsch_queue_update_all_backoff_windows :: "linkaddr \<Rightarrow> 'w tschq \<Rightarrow> 'w tschq option" where
  "tsch_queue_update_all_backoff_windows dest_addr s =
     (if \<not> tsch_is_locked s
      then backoff_loop (linkaddr_cmp dest_addr tsch_broadcast_address) dest_addr (list_head (neighbor_list s)) s
      else Some s)"

definition tsch_queue_init :: "'w tschq \<Rightarrow> 'w tschq option" where
  "tsch_queue_init s = do {
     let s = s\<lparr>neighbor_list := list_init (neighbor_list s), neighbor_memb := memb_init (neighbor_memb s),
               packet_memb := memb_init (packet_memb s)\<rparr>;
     (n, s) \<leftarrow> tsch_queue_add_nbr tsch_eb_address s;
     let s = s\<lparr>n_eb := n\<rparr>;
     (n, s) \<leftarrow> tsch_queue_add_nbr tsch_broadcast_address s;
     Some (s\<lparr>n_broadcast := n\<rparr>)
   }"

declare nbr_search.simps [simp del] flush_loop.simps [simp del] reset_loop.simps [simp del]
  free_unused_loop.simps [simp del] backoff_loop.simps [simp del]

subsection \<open>The invariant\<close>

text \<open>The packets of a neighbour, the oldest first.\<close>

definition pks :: "tsch_neighbor \<Rightarrow> ptr list" where
  "pks nb = map ((!) (tx_array nb)) (rbi_elems 2 (tx_ringbuf nb))"

abbreviation packets :: "'w tschq \<Rightarrow> ptr \<Rightarrow> ptr list" where
  "packets s n \<equiv> pks (nbr s n)"

definition nbr_ok :: "tsch_neighbor \<Rightarrow> bool" where
  "nbr_ok nb \<longleftrightarrow> rbi_ok 2 (tx_ringbuf nb) \<and> length (tx_array nb) = 4 \<and> length (nb_addr nb) = LINKADDR_SIZE"

definition tq_ok :: "'w tschq \<Rightarrow> ptr list \<Rightarrow> bool" where
  "tq_ok s xs \<longleftrightarrow> \<not> tq_locked s \<and> is_clist (neighbor_list s) xs \<and> memb_ok (packet_memb s) \<and> memb_ok (neighbor_memb s) \<and>
     set xs \<subseteq> memb_used (neighbor_memb s) \<and> (\<forall>n \<in> set xs. nbr_ok (nbr s n)) \<and>
     distinct (map (\<lambda>n. nb_addr (nbr s n)) xs) \<and>
     distinct (concat (map (packets s) xs)) \<and> set (concat (map (packets s) xs)) \<subseteq> memb_used (packet_memb s)"

lemma tq_upd_simps [simp]:
  "nbr (upd_nbr n f s) = (nbr s)(n := f (nbr s n))" "neighbor_list (upd_nbr n f s) = neighbor_list s"
  "tq_locked (upd_nbr n f s) = tq_locked s" "packet_memb (upd_nbr n f s) = packet_memb s"
  "neighbor_memb (upd_nbr n f s) = neighbor_memb s" "pkt (upd_nbr n f s) = pkt s" "tq_world (upd_nbr n f s) = tq_world s"
  "nbr (upd_pkt p g s) = nbr s" "neighbor_list (upd_pkt p g s) = neighbor_list s"
  "tq_locked (upd_pkt p g s) = tq_locked s" "packet_memb (upd_pkt p g s) = packet_memb s"
  "neighbor_memb (upd_pkt p g s) = neighbor_memb s" "pkt (upd_pkt p g s) = (pkt s)(p := g (pkt s p))"
  "tq_world (upd_pkt p g s) = tq_world s"
  by (simp_all add: upd_nbr_def upd_pkt_def)

lemma map_upd_notin: "n \<notin> set xs \<Longrightarrow> map (\<lambda>x. f ((h(n := y)) x)) xs = map (\<lambda>x. f (h x)) xs"
  by auto

lemma used_nonnull: "memb_ok m \<Longrightarrow> p \<in> memb_used m \<Longrightarrow> p \<noteq> NULL"
  by (auto simp: memb_used_def memb_ok_def block_addr_def)

lemma nbr_search_chain:
  "chain (cl_next l) n xs \<Longrightarrow> nbr_search l P n = Some (case find P xs of None \<Rightarrow> NULL | Some m \<Rightarrow> m)"
proof (induction xs arbitrary: n)
  case Nil then show ?case by (simp add: nbr_search.simps [of l P NULL])
next
  case (Cons x xs)
  then show ?case by (simp add: nbr_search.simps [of l P x] list_item_next_def)
qed

lemma nbr_search_clist:
  "is_clist l xs \<Longrightarrow> nbr_search l P (list_head l) = Some (case find P xs of None \<Rightarrow> NULL | Some m \<Rightarrow> m)"
  by (simp add: is_clist_def list_head_def nbr_search_chain)

lemma find_cong_set: "(\<And>x. x \<in> set xs \<Longrightarrow> P x = Q x) \<Longrightarrow> find P xs = find Q xs"
  by (induction xs) auto

lemma get_nbr_eq:
  assumes "tq_ok s xs" and "length addr = LINKADDR_SIZE"
  shows "tsch_queue_get_nbr addr s =
    Some (case find (\<lambda>n. nb_addr (nbr s n) = addr) xs of None \<Rightarrow> NULL | Some m \<Rightarrow> m)"
proof -
  have "find (\<lambda>n. linkaddr_cmp (nb_addr (nbr s n)) addr) xs = find (\<lambda>n. nb_addr (nbr s n) = addr) xs"
    using assms by (intro find_cong_set) (simp add: tq_ok_def nbr_ok_def linkaddr_cmp_eq)
  then show ?thesis using assms(1)
    by (simp add: tsch_queue_get_nbr_def tsch_is_locked_def tq_ok_def nbr_search_clist [of _ xs])
qed

lemma new_neighbor_ok: "length addr = LINKADDR_SIZE \<Longrightarrow> nbr_ok (new_neighbor addr) \<and> nb_addr (new_neighbor addr) = addr \<and>
    pks (new_neighbor addr) = [] \<and> \<not> is_time_source (new_neighbor addr)"
  using ringbufindex_init_ok [of 2]
  by (simp add: pks_def new_neighbor_def Let_def nbr_ok_def zero_neighbor_def tsch_queue_backoff_reset_def linkaddr_copy_eq
      TSCH_QUEUE_NUM_PER_NEIGHBOR_def)

lemma add_nbr_correct:
  assumes ok: "tq_ok s xs" and len: "length addr = LINKADDR_SIZE"
  shows "\<exists>n s' ys. tsch_queue_add_nbr addr s = Some (n, s') \<and> tq_ok s' ys \<and>
    packet_memb s' = packet_memb s \<and> pkt s' = pkt s \<and> tq_world s' = tq_world s \<and> tsch_is_coordinator s' = tsch_is_coordinator s \<and>
    (n = NULL \<longrightarrow> s' = s \<and> ys = xs) \<and>
    (n \<noteq> NULL \<longrightarrow> n \<in> set ys \<and> nb_addr (nbr s' n) = addr) \<and>
    (n \<in> set xs \<longrightarrow> s' = s \<and> ys = xs) \<and>
    (n \<noteq> NULL \<and> n \<notin> set xs \<longrightarrow> ys = xs @ [n] \<and> nbr s' = (nbr s)(n := new_neighbor addr))"
proof (cases "find (\<lambda>n. nb_addr (nbr s n) = addr) xs")
  case (Some m)
  then have m: "m \<in> set xs" "nb_addr (nbr s m) = addr" by (auto simp: find_Some_iff)
  then have "m \<noteq> NULL" using ok is_clist_nonnull by (auto simp: tq_ok_def)
  then show ?thesis using get_nbr_eq [OF ok len] Some m ok
    by (intro exI [of _ m] exI [of _ s] exI [of _ xs]) (simp add: tsch_queue_add_nbr_def)
next
  case None
  then have g: "tsch_queue_get_nbr addr s = Some NULL" using get_nbr_eq [OF ok len] by simp
  have unl: "\<not> tq_locked s" using ok by (simp add: tq_ok_def)
  have fresh: "\<forall>n \<in> set xs. nb_addr (nbr s n) \<noteq> addr" using None by (auto simp: find_None_iff)
  obtain n m where a: "memb_alloc (neighbor_memb s) = (n, m)" by fastforce
  have mok: "memb_ok (neighbor_memb s)" using ok by (simp add: tq_ok_def)
  show ?thesis
  proof (cases "n = NULL")
    case True
    then have "m = neighbor_memb s" using bp.alloc_fail [OF mok] a by simp
    then have "tsch_queue_add_nbr addr s = Some (NULL, s)"
      using g unl a True by (simp add: tsch_queue_add_nbr_def tsch_get_lock_def tsch_release_lock_def)
    then show ?thesis using ok None by (intro exI [of _ NULL] exI [of _ s] exI [of _ xs]) (auto simp: tq_ok_def dest: is_clist_nonnull)
  next
    case False
    have al: "n \<notin> memb_used (neighbor_memb s)" "memb_used m = insert n (memb_used (neighbor_memb s))" "memb_ok m"
      using bp.alloc_fresh [OF mok] bp.alloc_ok [OF mok] a False by auto
    then have nx: "n \<notin> set xs" using ok by (auto simp: tq_ok_def)
    have c: "is_clist ((neighbor_list s)\<lparr>cl_next := (cl_next (neighbor_list s))(n := NULL)\<rparr>) xs"
      using ok nx by (simp add: tq_ok_def is_clist_update_notin)
    obtain l where l: "list_add ((neighbor_list s)\<lparr>cl_next := (cl_next (neighbor_list s))(n := NULL)\<rparr>) n = Some l"
      "is_clist l (xs @ [n])"
      using list_add_correct [OF c False] nx by (auto simp: remove1_idem)
    let ?s = "s\<lparr>neighbor_memb := m, nbr := (nbr s)(n := new_neighbor addr), neighbor_list := l\<rparr>"
    have e: "tsch_queue_add_nbr addr s = Some (n, ?s)"
      using g unl a False l(1)
      by (simp add: tsch_queue_add_nbr_def tsch_get_lock_def tsch_release_lock_def upd_nbr_def)
    note nn = new_neighbor_ok [OF len]
    have "distinct (map (\<lambda>x. nb_addr (nbr ?s x)) (xs @ [n]))"
    proof -
      have "distinct (map (\<lambda>x. nb_addr (nbr s x)) xs)" using ok by (simp add: tq_ok_def)
      moreover have "addr \<notin> (\<lambda>x. nb_addr (nbr s x)) ` set xs" using fresh by blast
      ultimately have "distinct (map (\<lambda>x. nb_addr (nbr s x)) xs @ [addr])" by simp
      also have "map (\<lambda>x. nb_addr (nbr s x)) xs @ [addr] = map (\<lambda>x. nb_addr (nbr ?s x)) (xs @ [n])"
        using nn nx by auto
      finally show ?thesis .
    qed
    moreover have "map (packets ?s) (xs @ [n]) = map (packets s) xs @ [[]]" using nn nx by auto
    then have c: "concat (map (packets ?s) (xs @ [n])) = concat (map (packets s) xs)" by (simp only: concat_append) simp
    moreover have "\<forall>x \<in> set (xs @ [n]). nbr_ok (nbr ?s x)" using ok nn by (simp add: tq_ok_def)
    ultimately have "tq_ok ?s (xs @ [n])" using ok l(2) al unfolding tq_ok_def c by auto
    then show ?thesis using e False nx new_neighbor_ok [OF len]
      by (intro exI [of _ n] exI [of _ ?s] exI [of _ "xs @ [n]"]) simp
  qed
qed

text \<open>Changing one neighbour of the list, its address apart, and the packet pool.\<close>

lemma tq_ok_change:
  assumes ok: "tq_ok s xs" and n: "n \<in> set xs" and nb: "nbr_ok nb" "nb_addr nb = nb_addr (nbr s n)"
    and pm: "memb_ok (packet_memb s')" and eq: "\<not> tq_locked s'" "neighbor_list s' = neighbor_list s"
      "neighbor_memb s' = neighbor_memb s" "nbr s' = (nbr s)(n := nb)"
    and pk: "distinct (pks nb)"
      "\<And>p. p \<in> set (pks nb) \<Longrightarrow> p \<in> set (packets s n) \<or> p \<notin> memb_used (packet_memb s)"
      "set (pks nb) \<subseteq> memb_used (packet_memb s')"
      "\<And>x. x \<in> set xs \<Longrightarrow> x \<noteq> n \<Longrightarrow> set (packets s x) \<subseteq> memb_used (packet_memb s')"
  shows "tq_ok s' xs"
proof -
  obtain as bs where xs: "xs = as @ n # bs" using n by (meson split_list)
  have d: "distinct (as @ n # bs)" using ok is_clist_distinct unfolding tq_ok_def xs by blast
  have ad: "map (\<lambda>x. nb_addr (nbr s' x)) xs = map (\<lambda>x. nb_addr (nbr s x)) xs" using nb(2) by (auto simp: eq)
  have pa: "map (packets s') as = map (packets s) as" "map (packets s') bs = map (packets s) bs"
    using d by (auto simp: eq)
  have old: "distinct (concat (map (packets s) as) @ packets s n @ concat (map (packets s) bs))"
    "set (concat (map (packets s) as) @ packets s n @ concat (map (packets s) bs)) \<subseteq> memb_used (packet_memb s)"
    using ok by (simp_all add: tq_ok_def xs)
  have sep: "set (pks nb) \<inter> set (concat (map (packets s) as) @ concat (map (packets s) bs)) = {}"
  proof (rule equals0I)
    fix p assume p: "p \<in> set (pks nb) \<inter> set (concat (map (packets s) as) @ concat (map (packets s) bs))"
    then have "p \<in> memb_used (packet_memb s)" using old(2) by auto
    then have "p \<in> set (packets s n)" using p pk(2) by blast
    then show False using p old(1) by auto
  qed
  have "concat (map (packets s') xs) = concat (map (packets s) as) @ pks nb @ concat (map (packets s) bs)"
    by (simp add: xs pa del: map_map) (simp add: eq pa)
  then have "distinct (concat (map (packets s') xs))" using sep old(1) pk(1) by auto
  moreover have "set (concat (map (packets s') xs)) \<subseteq> memb_used (packet_memb s')"
  proof -
    have "set (packets s' x) \<subseteq> memb_used (packet_memb s')" if "x \<in> set xs" for x
      using that pk(3) pk(4) [of x] by (cases "x = n") (simp_all add: eq)
    then show ?thesis by auto
  qed
  moreover have "\<forall>x \<in> set xs. nbr_ok (nbr s' x)" using ok nb(1) by (auto simp: tq_ok_def eq)
  ultimately show ?thesis using ok pm eq(1-3) unfolding tq_ok_def ad by simp
qed

lemma tq_packets:
  assumes "tq_ok s xs" and "n \<in> set xs"
  shows "distinct (packets s n)" and "set (packets s n) \<subseteq> memb_used (packet_memb s)" and "nbr_ok (nbr s n)"
    and "n \<noteq> NULL"
    and "x \<in> set xs \<Longrightarrow> x \<noteq> n \<Longrightarrow> set (packets s x) \<inter> set (packets s n) = {}"
proof -
  obtain as bs where xs: "xs = as @ n # bs" using assms(2) by (meson split_list)
  have d: "distinct (concat (map (packets s) as) @ packets s n @ concat (map (packets s) bs))"
    using assms(1) by (simp add: tq_ok_def xs)
  then show "distinct (packets s n)" by simp
  show "set (packets s n) \<subseteq> memb_used (packet_memb s)" "nbr_ok (nbr s n)" using assms by (auto simp: tq_ok_def)
  show "n \<noteq> NULL" using assms is_clist_nonnull by (auto simp: tq_ok_def)
  show "x \<in> set xs \<Longrightarrow> x \<noteq> n \<Longrightarrow> set (packets s x) \<inter> set (packets s n) = {}"
    using d by (auto simp: xs)
qed

lemma pks_put:
  assumes "nbr_ok nb" and "length (pks nb) \<noteq> 3"
  defines "i \<equiv> ringbufindex_peek_put (tx_ringbuf nb)"
  shows "i \<noteq> -1"
    and "nbr_ok (nb\<lparr>tx_array := (tx_array nb)[nat i := p], tx_ringbuf := snd (ringbufindex_put (tx_ringbuf nb))\<rparr>)"
    and "pks (nb\<lparr>tx_array := (tx_array nb)[nat i := p], tx_ringbuf := snd (ringbufindex_put (tx_ringbuf nb))\<rparr>) = pks nb @ [p]"
proof -
  have "length (rbi_elems 2 (tx_ringbuf nb)) \<noteq> 2 ^ 2 - 1" using assms(2) by (simp add: pks_def)
  then obtain j where j: "i = int j" "j < 4" "j \<notin> set (rbi_elems 2 (tx_ringbuf nb))"
    "rbi_ok 2 (snd (ringbufindex_put (tx_ringbuf nb)))"
    "rbi_elems 2 (snd (ringbufindex_put (tx_ringbuf nb))) = rbi_elems 2 (tx_ringbuf nb) @ [j]"
    using ringbufindex_put_room [of 2 "tx_ringbuf nb"] assms(1) by (auto simp: nbr_ok_def i_def)
  show "i \<noteq> -1" using j(1) by simp
  show "nbr_ok (nb\<lparr>tx_array := (tx_array nb)[nat i := p], tx_ringbuf := snd (ringbufindex_put (tx_ringbuf nb))\<rparr>)"
    using assms(1) j(4) by (simp add: nbr_ok_def)
  show "pks (nb\<lparr>tx_array := (tx_array nb)[nat i := p], tx_ringbuf := snd (ringbufindex_put (tx_ringbuf nb))\<rparr>) = pks nb @ [p]"
    using assms(1) j by (auto simp: pks_def nbr_ok_def nth_list_update)
qed

lemma pks_full: "nbr_ok nb \<Longrightarrow> length (pks nb) = 3 \<Longrightarrow> ringbufindex_peek_put (tx_ringbuf nb) = -1"
  using ringbufindex_put_full [of 2 "tx_ringbuf nb"] by (simp add: pks_def nbr_ok_def)

lemma pks_get_empty: "pks nb = [] \<Longrightarrow>
    ringbufindex_get (tx_ringbuf nb) = (-1, tx_ringbuf nb) \<and> ringbufindex_peek_get (tx_ringbuf nb) = -1"
  using ringbufindex_get_empty [of 2 "tx_ringbuf nb"] by (simp add: pks_def)

lemma pks_get_some:
  assumes "nbr_ok nb" and "pks nb = p # ps"
  shows "\<exists>i r. ringbufindex_get (tx_ringbuf nb) = (int i, r) \<and> ringbufindex_peek_get (tx_ringbuf nb) = int i \<and>
    tx_array nb ! i = p \<and> nbr_ok (nb\<lparr>tx_ringbuf := r\<rparr>) \<and> pks (nb\<lparr>tx_ringbuf := r\<rparr>) = ps"
proof -
  obtain i js where e: "rbi_elems 2 (tx_ringbuf nb) = i # js" "tx_array nb ! i = p" "map ((!) (tx_array nb)) js = ps"
    using assms(2) by (auto simp: pks_def)
  then show ?thesis
    using ringbufindex_get_some [of 2 "tx_ringbuf nb" i js] assms(1)
    by (cases "ringbufindex_get (tx_ringbuf nb)") (auto simp: nbr_ok_def pks_def)
qed

lemma pks_empty_iff: "ringbufindex_empty (tx_ringbuf nb) \<longleftrightarrow> pks nb = []"
  by (simp add: ringbufindex_empty_elems [of _ 2] pks_def)

lemma pks_length: "nbr_ok nb \<Longrightarrow> length (pks nb) \<le> 3"
  using rbi_count_less [of 2 "tx_ringbuf nb"] by (simp add: pks_def nbr_ok_def)

lemma add_packet_correct:
  assumes ok: "tq_ok s xs" and len: "length addr = LINKADDR_SIZE"
  shows "\<exists>p s' ys. tsch_queue_add_packet env addr sent arg s = Some (p, s') \<and> tq_ok s' ys \<and> set xs \<subseteq> set ys \<and>
    (p = NULL \<longrightarrow> memb_used (packet_memb s') = memb_used (packet_memb s) \<and> (\<forall>n \<in> set xs. packets s' n = packets s n)) \<and>
    (p \<noteq> NULL \<longrightarrow> p \<notin> memb_used (packet_memb s) \<and> memb_used (packet_memb s') = insert p (memb_used (packet_memb s)) \<and>
       pk_sent (pkt s' p) = sent \<and> pk_ptr (pkt s' p) = arg \<and> pk_transmissions (pkt s' p) = 0 \<and>
       pk_ret (pkt s' p) = MAC_TX_DEFERRED \<and> pk_qb (pkt s' p) \<noteq> NULL \<and>
       (\<exists>n \<in> set ys. nb_addr (nbr s' n) = addr \<and> packets s' n = (if n \<in> set xs then packets s n else []) @ [p] \<and>
          (\<forall>m \<in> set xs. m \<noteq> n \<longrightarrow> nbr s' m = nbr s m)))"
proof -
  obtain n s1 ys where a: "tsch_queue_add_nbr addr s = Some (n, s1)" "tq_ok s1 ys"
    "packet_memb s1 = packet_memb s" "n = NULL \<longrightarrow> s1 = s \<and> ys = xs"
    "n \<noteq> NULL \<longrightarrow> n \<in> set ys \<and> nb_addr (nbr s1 n) = addr" "n \<in> set xs \<longrightarrow> s1 = s \<and> ys = xs"
    "n \<noteq> NULL \<and> n \<notin> set xs \<longrightarrow> ys = xs @ [n] \<and> nbr s1 = (nbr s)(n := new_neighbor addr)"
    using add_nbr_correct [OF ok len] by blast
  have sub: "set xs \<subseteq> set ys" using a(4,6,7) by (cases "n \<in> set xs"; cases "n = NULL") auto
  have same: "\<forall>m \<in> set xs. nbr s1 m = nbr s m" using a(4,6,7) by (cases "n \<in> set xs"; cases "n = NULL") auto
  have old: "packets s1 n = (if n \<in> set xs then packets s n else [])" if "n \<noteq> NULL"
    using a(6,7) that new_neighbor_ok [OF len] by auto
  have unl: "\<not> tq_locked s" using ok by (simp add: tq_ok_def)
  have fail: "tsch_queue_add_packet env addr sent arg s = Some (NULL, s2) \<Longrightarrow> tq_ok s2 ys \<Longrightarrow>
      memb_used (packet_memb s2) = memb_used (packet_memb s) \<Longrightarrow> nbr s2 = nbr s1 \<Longrightarrow> ?thesis" for s2
    using sub same by (intro exI [of _ NULL] exI [of _ s2] exI [of _ ys]) simp
  show ?thesis
  proof (cases "n = NULL")
    case True
    then show ?thesis using a unl by (intro fail [of s1]) (simp_all add: tsch_queue_add_packet_def tsch_is_locked_def)
  next
    case n0: False
    then have n: "n \<in> set ys" "nbr_ok (nbr s1 n)" using a(5) tq_packets(3) [OF a(2)] by auto
    let ?i = "ringbufindex_peek_put (tx_ringbuf (nbr s1 n))"
    show ?thesis
    proof (cases "length (packets s1 n) = 3")
      case True
      then have "?i = -1" using pks_full [OF n(2)] by simp
      then show ?thesis using a unl n0 by (intro fail [of s1]) (simp_all add: tsch_queue_add_packet_def tsch_is_locked_def)
    next
      case room: False
      note put = pks_put [OF n(2) room]
      obtain p m where al: "memb_alloc (packet_memb s) = (p, m)" by fastforce
      have mok: "memb_ok (packet_memb s)" using ok by (simp add: tq_ok_def)
      show ?thesis
      proof (cases "p = NULL")
        case True
        then have "m = packet_memb s" using bp.alloc_fail [OF mok] al by simp
        then show ?thesis using a unl n0 put(1) al True
          by (intro fail [of s1]) (simp_all add: tsch_queue_add_packet_def tsch_is_locked_def)
      next
        case p0: False
        have fr: "p \<notin> memb_used (packet_memb s)" "memb_used m = insert p (memb_used (packet_memb s))" "memb_ok m"
          using bp.alloc_fresh [OF mok] bp.alloc_ok [OF mok] al p0 by auto
        obtain qb w where q: "env_qb_new env (tq_world s1) = (qb, w)" by fastforce
        show ?thesis
        proof (cases "qb = NULL")
          case True
          let ?m = "snd (memb_free m p)"
          let ?s2 = "(upd_pkt p (\<lambda>k. k\<lparr>pk_qb := qb\<rparr>) (s1\<lparr>packet_memb := m, tq_world := w\<rparr>))\<lparr>packet_memb := ?m\<rparr>"
          have u: "memb_used ?m = memb_used (packet_memb s)" using bp.free_used [OF fr(3), of p] fr by auto
          have "tq_ok ?s2 ys" using a(2,3) u bp.free_ok [OF fr(3)] by (simp add: tq_ok_def)
          then show ?thesis using a unl n0 put(1) al p0 q True u
            by (intro fail [of ?s2]) (simp_all add: tsch_queue_add_packet_def tsch_is_locked_def)
        next
          case False
          let ?nb = "(nbr s1 n)\<lparr>tx_array := (tx_array (nbr s1 n))[nat ?i := p],
            tx_ringbuf := snd (ringbufindex_put (tx_ringbuf (nbr s1 n)))\<rparr>"
          let ?k = "(pkt s1 p)\<lparr>pk_qb := qb, pk_sent := sent, pk_ptr := arg, pk_ret := MAC_TX_DEFERRED, pk_transmissions := 0\<rparr>"
          let ?s2 = "s1\<lparr>packet_memb := m, tq_world := w, pkt := (pkt s1)(p := ?k), nbr := (nbr s1)(n := ?nb)\<rparr>"
          have e: "tsch_queue_add_packet env addr sent arg s = Some (p, ?s2)"
            using a unl n0 put(1) al p0 q False
            by (simp add: tsch_queue_add_packet_def tsch_is_locked_def upd_pkt_def upd_nbr_def)
          have tp: "distinct (packets s1 n)" "set (packets s1 n) \<subseteq> memb_used (packet_memb s)"
            using tq_packets [OF a(2) n(1)] a(3) by simp_all
          have rest: "x \<in> set ys \<Longrightarrow> set (packets s1 x) \<subseteq> memb_used (packet_memb s)" for x
            using tq_packets(2) [OF a(2)] a(3) by metis
          have "tq_ok ?s2 ys"
            by (rule tq_ok_change [OF a(2) n(1) put(2)])
              (use a(2,3) fr put(3) tp rest in \<open>auto simp: tq_ok_def\<close>)
          then show ?thesis using e sub p0 fr(1,2) put(3) old [OF n0] a(5) n0 same False n(1)
            by (intro exI [of _ p] exI [of _ ?s2] exI [of _ ys]) auto
        qed
      qed
    qed
  qed
qed

lemma remove_packet_correct:
  assumes ok: "tq_ok s xs" and n: "n \<in> set xs"
  shows "packets s n = [] \<Longrightarrow> \<exists>s'. tsch_queue_remove_packet_from_queue n s = (NULL, s') \<and> s' = s"
    and "packets s n = p # ps \<Longrightarrow> \<exists>nb. tsch_queue_remove_packet_from_queue n s = (p, s\<lparr>nbr := (nbr s)(n := nb)\<rparr>) \<and>
      pks nb = ps \<and> nb = (nbr s n)\<lparr>tx_ringbuf := tx_ringbuf nb\<rparr> \<and> tq_ok (s\<lparr>nbr := (nbr s)(n := nb)\<rparr>) xs"
proof -
  have unl: "\<not> tq_locked s" using ok by (simp add: tq_ok_def)
  note tp = tq_packets [OF ok n]
  show "packets s n = [] \<Longrightarrow> \<exists>s'. tsch_queue_remove_packet_from_queue n s = (NULL, s') \<and> s' = s"
    using unl tp(4) pks_get_empty [of "nbr s n"]
    by (simp add: tsch_queue_remove_packet_from_queue_def tsch_is_locked_def upd_nbr_def)
  assume q: "packets s n = p # ps"
  obtain i r where g: "ringbufindex_get (tx_ringbuf (nbr s n)) = (int i, r)" "tx_array (nbr s n) ! i = p"
    "nbr_ok ((nbr s n)\<lparr>tx_ringbuf := r\<rparr>)" "pks ((nbr s n)\<lparr>tx_ringbuf := r\<rparr>) = ps"
    using pks_get_some [OF tp(3) q] by blast
  let ?nb = "(nbr s n)\<lparr>tx_ringbuf := r\<rparr>"
  have e: "tsch_queue_remove_packet_from_queue n s = (p, s\<lparr>nbr := (nbr s)(n := ?nb)\<rparr>)"
    using unl tp(4) g(1,2) by (simp add: tsch_queue_remove_packet_from_queue_def tsch_is_locked_def upd_nbr_def)
  have rest: "x \<in> set xs \<Longrightarrow> set (packets s x) \<subseteq> memb_used (packet_memb s)" for x
    using tq_packets(2) [OF ok] by metis
  have "tq_ok (s\<lparr>nbr := (nbr s)(n := ?nb)\<rparr>) xs"
    by (rule tq_ok_change [OF ok n g(3)]) (use ok g(4) tp(1,2) q rest in \<open>auto simp: tq_ok_def\<close>)
  then show "\<exists>nb. tsch_queue_remove_packet_from_queue n s = (p, s\<lparr>nbr := (nbr s)(n := nb)\<rparr>) \<and>
      pks nb = ps \<and> nb = (nbr s n)\<lparr>tx_ringbuf := tx_ringbuf nb\<rparr> \<and> tq_ok (s\<lparr>nbr := (nbr s)(n := nb)\<rparr>) xs"
    using e g(4) by (intro exI [of _ ?nb]) simp
qed

text \<open>
  C21: Adding a packet for an address either fails, leaking no block and touching no queue, or
  returns a block that was free, set up for the caller, and appends it to the queue of the neighbour with that
  address (created when there is none), leaving the other queues alone; all queues keep sharing no packet.
\<close>

theorem tsch_queue_add_packet_appends:
  assumes "tq_ok s xs" and "length addr = LINKADDR_SIZE"
  shows "\<exists>p s' ys. tsch_queue_add_packet env addr sent arg s = Some (p, s') \<and> tq_ok s' ys \<and> set xs \<subseteq> set ys \<and>
    (p = NULL \<longrightarrow> memb_used (packet_memb s') = memb_used (packet_memb s) \<and> (\<forall>n \<in> set xs. packets s' n = packets s n)) \<and>
    (p \<noteq> NULL \<longrightarrow> p \<notin> memb_used (packet_memb s) \<and> memb_used (packet_memb s') = insert p (memb_used (packet_memb s)) \<and>
       pk_sent (pkt s' p) = sent \<and> pk_ptr (pkt s' p) = arg \<and> pk_transmissions (pkt s' p) = 0 \<and>
       pk_ret (pkt s' p) = MAC_TX_DEFERRED \<and> pk_qb (pkt s' p) \<noteq> NULL \<and>
       (\<exists>n \<in> set ys. nb_addr (nbr s' n) = addr \<and> packets s' n = (if n \<in> set xs then packets s n else []) @ [p] \<and>
          (\<forall>m \<in> set xs. m \<noteq> n \<longrightarrow> nbr s' m = nbr s m)))"
  using add_packet_correct [OF assms] .

text \<open>
  C22: The packet the slot operation is offered for a neighbour is the oldest one of its queue, except on a shared
  link while the neighbour backs off; removing takes exactly that packet, and the queue keeps the rest in order.
\<close>

theorem tsch_queue_serves_oldest:
  assumes "tq_ok s xs" and "n \<in> set xs" and "packets s n = p # ps"
  shows "tsch_queue_get_packet_for_nbr n link s =
      (if (\<exists>opts. link = Some opts \<and> opts AND LINK_OPTION_SHARED \<noteq> 0) \<and> backoff_window (nbr s n) \<noteq> 0 then NULL else p) \<and>
    (\<exists>s'. tsch_queue_remove_packet_from_queue n s = (p, s') \<and> tq_ok s' xs \<and> packets s' n = ps \<and>
      (\<forall>m. m \<noteq> n \<longrightarrow> nbr s' m = nbr s m) \<and> \<not> tsch_queue_is_empty n s \<and> (tsch_queue_is_empty n s' \<longleftrightarrow> ps = []))"
proof -
  note tp = tq_packets [OF assms(1,2)]
  have unl: "\<not> tq_locked s" using assms(1) by (simp add: tq_ok_def)
  obtain i where "ringbufindex_peek_get (tx_ringbuf (nbr s n)) = int i" "tx_array (nbr s n) ! i = p"
    using pks_get_some [OF tp(3) assms(3)] by blast
  then have "tsch_queue_get_packet_for_nbr n link s =
      (if (\<exists>opts. link = Some opts \<and> opts AND LINK_OPTION_SHARED \<noteq> 0) \<and> backoff_window (nbr s n) \<noteq> 0 then NULL else p)"
    using unl tp(4)
    by (cases link) (simp_all add: tsch_queue_get_packet_for_nbr_def tsch_is_locked_def tsch_queue_backoff_expired_def)
  moreover obtain nb where nb: "tsch_queue_remove_packet_from_queue n s = (p, s\<lparr>nbr := (nbr s)(n := nb)\<rparr>)"
    "pks nb = ps" "tq_ok (s\<lparr>nbr := (nbr s)(n := nb)\<rparr>) xs"
    using remove_packet_correct(2) [OF assms] by blast
  ultimately show ?thesis using unl tp(4) assms(3)
    by (simp add: tsch_queue_is_empty_def pks_empty_iff tsch_is_locked_def)
qed

text \<open>A callback that leaves the queues alone.\<close>

definition quiet_env :: "'w tq_env \<Rightarrow> bool" where
  "quiet_env env \<longleftrightarrow> (\<forall>f a r t s. \<exists>w. env_sent env f a r t s = s\<lparr>tq_world := w\<rparr>)"

lemma flush_loop_correct:
  assumes "quiet_env env"
  shows "tq_ok s xs \<Longrightarrow> n \<in> set xs \<Longrightarrow> packets s n = ps \<Longrightarrow>
    \<exists>s'. flush_loop env n s = Some s' \<and> tq_ok s' xs \<and> packets s' n = [] \<and>
      memb_used (packet_memb s') = memb_used (packet_memb s) - set ps \<and> neighbor_list s' = neighbor_list s \<and>
      neighbor_memb s' = neighbor_memb s \<and> (\<forall>m. m \<noteq> n \<longrightarrow> nbr s' m = nbr s m) \<and>
      (\<exists>r. nbr s' n = (nbr s n)\<lparr>tx_ringbuf := r\<rparr>)"
proof (induction ps arbitrary: s)
  case Nil
  have "tsch_queue_is_empty n s"
    using Nil tq_packets(4) [OF Nil.prems(1,2)] by (simp add: tsch_queue_is_empty_def tsch_is_locked_def tq_ok_def pks_empty_iff)
  then show ?case using Nil by (intro exI [of _ s]) (auto simp: flush_loop.simps [of env n s] intro: exI [of _ "tx_ringbuf (nbr s n)"])
next
  case (Cons p ps)
  note tp = tq_packets [OF Cons.prems(1,2)]
  have ne: "\<not> tsch_queue_is_empty n s" using Cons.prems(3) by (simp add: tsch_queue_is_empty_def pks_empty_iff)
  obtain nb where nb: "tsch_queue_remove_packet_from_queue n s = (p, s\<lparr>nbr := (nbr s)(n := nb)\<rparr>)"
    "pks nb = ps" "nb = (nbr s n)\<lparr>tx_ringbuf := tx_ringbuf nb\<rparr>" "tq_ok (s\<lparr>nbr := (nbr s)(n := nb)\<rparr>) xs"
    using remove_packet_correct(2) [OF Cons.prems] by blast
  have pu: "p \<in> memb_used (packet_memb s)" using tp(2) Cons.prems(3) by simp
  have mok: "memb_ok (packet_memb s)" using Cons.prems(1) by (simp add: tq_ok_def)
  have p0: "p \<noteq> NULL" using used_nonnull [OF mok pu] .
  let ?s1 = "upd_pkt p (\<lambda>k. k\<lparr>pk_ret := MAC_TX_ERR\<rparr>) (s\<lparr>nbr := (nbr s)(n := nb)\<rparr>)"
  obtain w where w: "env_sent env (pk_sent (pkt ?s1 p)) (pk_ptr (pkt ?s1 p)) (pk_ret (pkt ?s1 p)) (pk_transmissions (pkt ?s1 p)) ?s1
      = ?s1\<lparr>tq_world := w\<rparr>"
    using assms unfolding quiet_env_def by blast
  let ?s2 = "tsch_queue_free_packet env p (?s1\<lparr>tq_world := w\<rparr>)"
  have s2: "packet_memb ?s2 = snd (memb_free (packet_memb s) p)" "nbr ?s2 = (nbr s)(n := nb)"
    "neighbor_list ?s2 = neighbor_list s" "neighbor_memb ?s2 = neighbor_memb s" "tq_locked ?s2 = tq_locked s"
    using p0 by (simp_all add: tsch_queue_free_packet_def)
  have used2: "memb_used (packet_memb ?s2) = memb_used (packet_memb s) - {p}"
    using bp.free_used [OF mok, of p] s2(1) by simp
  have dis: "p \<notin> set ps" "distinct ps" using tp(1) Cons.prems(3) by auto
  have other: "set (packets s x) \<subseteq> memb_used (packet_memb s) - {p}" if "x \<in> set xs" "x \<noteq> n" for x
    using tq_packets(2) [OF Cons.prems(1) that(1)] tp(5) [OF that] Cons.prems(3) by auto
  have "tq_ok ?s2 xs"
  proof (rule tq_ok_change [OF Cons.prems(1,2)])
    show "nbr_ok nb" using nb(4) Cons.prems(2) by (auto simp: tq_ok_def)
    show "nb_addr nb = nb_addr (nbr s n)" by (subst nb(3)) simp
    show "memb_ok (packet_memb ?s2)" using bp.free_ok [OF mok, of p] s2(1) by simp
    show "\<not> tq_locked ?s2" using Cons.prems(1) s2(5) by (simp add: tq_ok_def)
    show "distinct (pks nb)" "\<And>q. q \<in> set (pks nb) \<Longrightarrow> q \<in> set (packets s n) \<or> q \<notin> memb_used (packet_memb s)"
      using dis nb(2) Cons.prems(3) by auto
    show "set (pks nb) \<subseteq> memb_used (packet_memb ?s2)" using tp(2) dis(1) nb(2) Cons.prems(3) used2 by auto
    show "\<And>x. x \<in> set xs \<Longrightarrow> x \<noteq> n \<Longrightarrow> set (packets s x) \<subseteq> memb_used (packet_memb ?s2)" using other used2 by simp
  qed (use s2 in simp_all)
  moreover have "packets ?s2 n = ps" using s2(2) nb(2) by simp
  ultimately obtain s' where IH: "flush_loop env n ?s2 = Some s'" "tq_ok s' xs" "packets s' n = []"
    "memb_used (packet_memb s') = memb_used (packet_memb ?s2) - set ps" "neighbor_list s' = neighbor_list ?s2"
    "neighbor_memb s' = neighbor_memb ?s2" "\<forall>m. m \<noteq> n \<longrightarrow> nbr s' m = nbr ?s2 m"
    "\<exists>r. nbr s' n = (nbr ?s2 n)\<lparr>tx_ringbuf := r\<rparr>"
    using Cons.IH [of ?s2] Cons.prems(2) by blast
  have step: "flush_loop env n s = flush_loop env n ?s2"
    using ne nb(1) p0 w by (subst flush_loop.simps) (simp add: Let_def)
  have "\<exists>r. nbr s' n = (nbr s n)\<lparr>tx_ringbuf := r\<rparr>"
  proof -
    obtain r where "nbr s' n = nb\<lparr>tx_ringbuf := r\<rparr>" using IH(8) s2(2) by auto
    also have "nb\<lparr>tx_ringbuf := r\<rparr> = (nbr s n)\<lparr>tx_ringbuf := r\<rparr>" by (subst nb(3)) simp
    finally show ?thesis by blast
  qed
  then show ?case using step IH s2 used2 by (intro exI [of _ s']) auto
qed

lemma remove_unused_correct:
  assumes ok: "tq_ok s (ys @ n # zs)" and un: "unused_nbr s n"
  shows "\<exists>s'. tsch_queue_remove_nbr env n s = Some s' \<and> tq_ok s' (ys @ zs) \<and> nbr s' = nbr s \<and> tq_locked s' = tq_locked s \<and>
    memb_used (neighbor_memb s') = memb_used (neighbor_memb s) - {n} \<and> packet_memb s' = packet_memb s"
proof -
  have unl: "\<not> tq_locked s" using ok by (simp add: tq_ok_def)
  have dis: "distinct (ys @ n # zs)" using ok is_clist_distinct unfolding tq_ok_def by blast
  have c: "is_clist (neighbor_list s) (ys @ n # zs)" using ok by (simp add: tq_ok_def)
  have n0: "n \<noteq> NULL" using is_clist_nonnull [OF c] by simp
  obtain l where l: "list_remove (neighbor_list s) n = Some l" "is_clist l (remove1 n (ys @ n # zs))"
    using list_remove_correct [OF c] by blast
  have r1: "remove1 n (ys @ n # zs) = ys @ zs" using dis by (simp add: remove1_append)
  let ?s1 = "s\<lparr>neighbor_list := l\<rparr>"
  have e: "tsch_release_lock (s\<lparr>tq_locked := True, neighbor_list := l\<rparr>) = ?s1"
    using unl by (simp add: tsch_release_lock_def)
  have "tsch_queue_is_empty n ?s1" using un by (simp add: unused_nbr_def tsch_queue_is_empty_def tsch_is_locked_def)
  then have fl: "flush_loop env n ?s1 = Some ?s1" by (simp add: flush_loop.simps [of env n])
  let ?m = "snd (memb_free (neighbor_memb s) n)"
  let ?s2 = "?s1\<lparr>neighbor_memb := ?m\<rparr>"
  have mok: "memb_ok (neighbor_memb s)" using ok by (simp add: tq_ok_def)
  have u: "memb_used ?m = memb_used (neighbor_memb s) - {n}" "memb_ok ?m"
    using bp.free_used [OF mok] bp.free_ok [OF mok] by auto
  have run: "tsch_queue_remove_nbr env n s = Some ?s2"
    using unl n0 l(1) e fl by (simp add: tsch_queue_remove_nbr_def tsch_get_lock_def tsch_queue_flush_nbr_queue_def)
  have "tq_ok ?s2 (ys @ zs)" using ok l(2) r1 u dis by (auto simp: tq_ok_def)
  then show ?thesis using run u by (intro exI [of _ ?s2]) simp
qed

lemma free_unused_loop_correct:
  assumes "tq_ok s (ys @ xs)" and "n = (case xs of [] \<Rightarrow> NULL | x # _ \<Rightarrow> x)"
  shows "\<exists>s'. free_unused_loop env n s = Some s' \<and> tq_ok s' (ys @ filter (\<lambda>x. \<not> unused_nbr s x) xs) \<and> nbr s' = nbr s \<and>
    memb_used (neighbor_memb s') = memb_used (neighbor_memb s) - set (filter (unused_nbr s) xs) \<and>
    packet_memb s' = packet_memb s"
  using assms
proof (induction xs arbitrary: s ys n)
  case Nil
  then show ?case by (intro exI [of _ s]) (simp add: free_unused_loop.simps [of env NULL s])
next
  case (Cons x xs)
  have c: "is_clist (neighbor_list s) (ys @ x # xs)" using Cons.prems(1) by (simp add: tq_ok_def)
  have x0: "x \<noteq> NULL" using is_clist_nonnull [OF c] by simp
  have nx: "list_item_next (neighbor_list s) x = (case xs of [] \<Rightarrow> NULL | y # _ \<Rightarrow> y)"
    using chain_next_head [OF chain_append [OF c [unfolded is_clist_def]]] x0 by (simp add: list_item_next_def)
  have n: "n = x" using Cons.prems(2) by simp
  show ?case
  proof (cases "unused_nbr s x")
    case False
    have "tq_ok s ((ys @ [x]) @ xs)" using Cons.prems(1) by simp
    from Cons.IH [OF this nx] show ?thesis using False
      by (simp add: n free_unused_loop.simps [of env x s] x0 Let_def)
  next
    case True
    obtain s1 where s1: "tsch_queue_remove_nbr env x s = Some s1" "tq_ok s1 (ys @ xs)" "nbr s1 = nbr s"
      "tq_locked s1 = tq_locked s" "memb_used (neighbor_memb s1) = memb_used (neighbor_memb s) - {x}"
      "packet_memb s1 = packet_memb s"
      using remove_unused_correct [OF Cons.prems(1) True] by blast
    have same: "unused_nbr s1 = unused_nbr s"
      by (simp add: fun_eq_iff unused_nbr_def tsch_queue_is_empty_def tsch_is_locked_def s1(3,4))
    obtain s' where s': "free_unused_loop env (list_item_next (neighbor_list s) x) s1 = Some s'"
      "tq_ok s' (ys @ filter (\<lambda>x. \<not> unused_nbr s1 x) xs)" "nbr s' = nbr s1"
      "memb_used (neighbor_memb s') = memb_used (neighbor_memb s1) - set (filter (unused_nbr s1) xs)"
      "packet_memb s' = packet_memb s1"
      using Cons.IH [OF s1(2) nx] by blast
    then show ?thesis using True s1 same
      by (intro exI [of _ s']) (auto simp: n free_unused_loop.simps [of env x s] x0 Let_def)
  qed
qed

text \<open>
  Reclaiming frees exactly the neighbours that are not broadcast neighbours or the time source, have no
  link and no packet waiting: their blocks go back to the pool, and every other neighbour stays, in order
  and unchanged, with all of its packets.
\<close>

theorem tsch_queue_free_unused_exact:
  assumes "tq_ok s xs"
  shows "\<exists>s'. tsch_queue_free_unused_neighbors env s = Some s' \<and>
    tq_ok s' (filter (\<lambda>n. is_broadcast (nbr s n) \<or> is_time_source (nbr s n) \<or> tx_links_count (nbr s n) \<noteq> 0 \<or> packets s n \<noteq> []) xs) \<and>
    nbr s' = nbr s \<and> packet_memb s' = packet_memb s \<and>
    memb_used (neighbor_memb s') = memb_used (neighbor_memb s) -
      set (filter (\<lambda>n. \<not> (is_broadcast (nbr s n) \<or> is_time_source (nbr s n) \<or> tx_links_count (nbr s n) \<noteq> 0 \<or> packets s n \<noteq> [])) xs)"
proof -
  have unl: "\<not> tq_locked s" using assms by (simp add: tq_ok_def)
  have h: "list_head (neighbor_list s) = (case xs of [] \<Rightarrow> NULL | x # _ \<Rightarrow> x)"
    using assms by (cases xs) (auto simp: tq_ok_def is_clist_def list_head_def)
  have un: "unused_nbr s n \<longleftrightarrow>
      \<not> (is_broadcast (nbr s n) \<or> is_time_source (nbr s n) \<or> tx_links_count (nbr s n) \<noteq> 0 \<or> packets s n \<noteq> [])"
    if "n \<in> set xs" for n
    using unl tq_packets(4) [OF assms that]
    by (auto simp: unused_nbr_def tsch_queue_is_empty_def tsch_is_locked_def pks_empty_iff)
  have f: "filter (\<lambda>x. \<not> unused_nbr s x) xs =
      filter (\<lambda>n. is_broadcast (nbr s n) \<or> is_time_source (nbr s n) \<or> tx_links_count (nbr s n) \<noteq> 0 \<or> packets s n \<noteq> []) xs"
    "filter (unused_nbr s) xs =
      filter (\<lambda>n. \<not> (is_broadcast (nbr s n) \<or> is_time_source (nbr s n) \<or> tx_links_count (nbr s n) \<noteq> 0 \<or> packets s n \<noteq> [])) xs"
    using un by (auto intro!: filter_cong)
  obtain s' where s': "free_unused_loop env (list_head (neighbor_list s)) s = Some s'"
    "tq_ok s' (filter (\<lambda>x. \<not> unused_nbr s x) xs)" "nbr s' = nbr s"
    "memb_used (neighbor_memb s') = memb_used (neighbor_memb s) - set (filter (unused_nbr s) xs)"
    "packet_memb s' = packet_memb s"
    using free_unused_loop_correct [of s "[]" xs "list_head (neighbor_list s)" env] assms h by auto
  show ?thesis
    using s'(1,3,5) s'(2) [unfolded f(1)] s'(4) [unfolded f(2)] unl
    by (intro exI [of _ s']) (simp add: tsch_queue_free_unused_neighbors_def tsch_is_locked_def)
qed

text \<open>
  Each failed shared transmission raises the backoff exponent by one, up to the maximum, and picks a window
  of between 1 and \<open>2 ^ exponent\<close> slots; the neighbour may transmit again after exactly that many eligible
  slots, and a window never falls below zero.
\<close>

theorem tsch_queue_backoff_window:
  assumes "eligible = (\<lambda>n. (tx_links_count n = 0 \<and> bc) \<or> (tx_links_count n > 0 \<and> linkaddr_cmp dest (nb_addr n)))"
    and "n' = tsch_queue_backoff_inc rand n" and "eligible n"
  shows "unat (backoff_exponent n') = min (unat (backoff_exponent n) + 1) 7 \<and>
    1 \<le> unat (backoff_window n') \<and> unat (backoff_window n') \<le> 2 ^ unat (backoff_exponent n') \<and>
    (\<forall>k. tsch_queue_backoff_expired ((backoff_step bc dest ^^ k) n') \<longleftrightarrow> unat (backoff_window n') \<le> k) \<and>
    tsch_queue_backoff_expired (tsch_queue_backoff_reset n')"
proof -
  let ?e = "min (unat (backoff_exponent n) + 1) 7"
  let ?w = "unat (drop_bit 6 rand) mod 2 ^ ?e"
  have small: "k < 256 \<Longrightarrow> unat (of_nat k :: u8) = k" for k
    by (simp add: unat_of_nat take_bit_eq_mod)
  have "backoff_exponent n' = of_nat ?e"
    unfolding assms(2) tsch_queue_backoff_inc_def Let_def TSCH_MAC_MAX_BE_def by simp
  then have e: "unat (backoff_exponent n') = ?e" by (simp only: small)
  have "(2::nat) ^ ?e \<le> 2 ^ 7" by (rule power_increasing) simp_all
  moreover have "?w < 2 ^ ?e" by simp
  ultimately have "?w < 2 ^ 7" by (rule order_less_le_trans [rotated])
  then have w: "?w < 128" "?w < 2 ^ ?e" by simp_all
  have "unat (of_nat ?w :: u8) = ?w" using w(1) by (intro small) simp
  moreover have "backoff_window n' = of_nat (unat (drop_bit 6 rand) mod 2 ^ unat (backoff_exponent n')) + 1"
    by (simp add: assms(2) tsch_queue_backoff_inc_def Let_def)
  ultimately have bw: "unat (backoff_window n') = Suc ?w" using w(1) e by (simp add: unat_word_ariths)
  have el: "eligible n'" using assms(1,3) by (simp add: assms(2) tsch_queue_backoff_inc_def Let_def)
  have step: "eligible m \<Longrightarrow> eligible (backoff_step bc dest m) \<and>
      unat (backoff_window (backoff_step bc dest m)) = unat (backoff_window m) - 1" for m
    by (auto simp: assms(1) backoff_step_def unat_eq_zero unat_minus_one)
  have "eligible ((backoff_step bc dest ^^ k) n') \<and> unat (backoff_window ((backoff_step bc dest ^^ k) n')) = unat (backoff_window n') - k" for k
    by (induction k) (use el step in auto)
  then have "tsch_queue_backoff_expired ((backoff_step bc dest ^^ k) n') \<longleftrightarrow> unat (backoff_window n') \<le> k" for k
    by (metis diff_is_0_eq tsch_queue_backoff_expired_def unat_eq_zero)
  moreover have "unat (backoff_window n') \<le> 2 ^ unat (backoff_exponent n')"
    unfolding bw e using w(2) by (rule Suc_leI)
  moreover have "1 \<le> unat (backoff_window n')" by (simp add: bw)
  moreover have "tsch_queue_backoff_expired (tsch_queue_backoff_reset n')"
    by (simp add: tsch_queue_backoff_reset_def tsch_queue_backoff_expired_def)
  ultimately show ?thesis using e by blast
qed

theorem tsch_queue_backoff_window_witness:
  "let n' = tsch_queue_backoff_inc 0x1f40 (new_neighbor tsch_broadcast_address)
   in unat (backoff_exponent n') = 2 \<and> tsch_queue_backoff_expired ((backoff_step True [] ^^ 4) n')"
proof -
  let ?n = "new_neighbor tsch_broadcast_address"
  have t: "tx_links_count ?n = 0" "backoff_exponent ?n = 1"
    by (simp_all add: new_neighbor_def Let_def zero_neighbor_def tsch_queue_backoff_reset_def TSCH_MAC_MIN_BE_def)
  define n' where "n' = tsch_queue_backoff_inc 0x1f40 ?n"
  have el: "(\<lambda>n. (tx_links_count n = 0 \<and> True) \<or> (tx_links_count n > 0 \<and> linkaddr_cmp [] (nb_addr n))) ?n"
    using t(1) by simp
  have w: "unat (backoff_exponent n') = min (unat (backoff_exponent ?n) + 1) 7"
    "unat (backoff_window n') \<le> 2 ^ unat (backoff_exponent n')"
    "tsch_queue_backoff_expired ((backoff_step True [] ^^ 4) n') \<longleftrightarrow> unat (backoff_window n') \<le> 4"
    using tsch_queue_backoff_window [OF refl n'_def el] by blast+
  then show ?thesis unfolding n'_def [symmetric] Let_def using t(2) by simp
qed

lemma tq_ok_cong:
  assumes "tq_locked s' = tq_locked s" "neighbor_list s' = neighbor_list s" "packet_memb s' = packet_memb s"
    "neighbor_memb s' = neighbor_memb s"
    "\<And>n. tx_array (nbr s' n) = tx_array (nbr s n) \<and> tx_ringbuf (nbr s' n) = tx_ringbuf (nbr s n) \<and> nb_addr (nbr s' n) = nb_addr (nbr s n)"
  shows "tq_ok s' xs \<longleftrightarrow> tq_ok s xs"
  using assms by (simp add: tq_ok_def pks_def nbr_ok_def)

lemma get_time_source_eq:
  "tq_ok s xs \<Longrightarrow> tsch_queue_get_time_source s =
    Some (case find (\<lambda>n. is_time_source (nbr s n)) xs of None \<Rightarrow> NULL | Some m \<Rightarrow> m)"
  by (simp add: tsch_queue_get_time_source_def tsch_is_locked_def tq_ok_def nbr_search_clist [of _ xs])

text \<open>
  With at most one time source before, switching to a new one ends with the neighbour of that address as the
  only time source (or fails and changes nothing), and switching to none ends with no time source.
\<close>

theorem tsch_queue_single_time_source:
  assumes ok: "tq_ok s xs" and nc: "\<not> tsch_is_coordinator s"
    and uniq: "\<forall>a \<in> set xs. \<forall>b \<in> set xs. is_time_source (nbr s a) \<and> is_time_source (nbr s b) \<longrightarrow> a = b"
    and len: "length addr = LINKADDR_SIZE"
  shows "(\<exists>b s' ys. tsch_queue_update_time_source env (Some addr) s = Some (b, s') \<and> tq_ok s' ys \<and>
      (\<not> b \<longrightarrow> s' = s) \<and>
      (b \<longrightarrow> (\<exists>n \<in> set ys. nb_addr (nbr s' n) = addr \<and> (\<forall>m \<in> set ys. is_time_source (nbr s' m) \<longleftrightarrow> m = n)))) \<and>
    (\<exists>s'. tsch_queue_update_time_source env None s = Some (True, s') \<and> tq_ok s' xs \<and>
      (\<forall>m \<in> set xs. \<not> is_time_source (nbr s' m)))"
proof
  define old where "old = (case find (\<lambda>n. is_time_source (nbr s n)) xs of None \<Rightarrow> NULL | Some m \<Rightarrow> m)"
  have old: "tsch_queue_get_time_source s = Some old" using get_time_source_eq [OF ok] by (simp add: old_def)
  have nn: "m \<in> set xs \<Longrightarrow> m \<noteq> NULL" for m using tq_packets(4) [OF ok] .
  have ots: "is_time_source (nbr s m) \<longleftrightarrow> m = old" if "m \<in> set xs" for m
  proof (cases "find (\<lambda>n. is_time_source (nbr s n)) xs")
    case None
    then have "old = NULL" "\<not> is_time_source (nbr s m)" using that by (simp add: old_def, auto simp: find_None_iff)
    then show ?thesis using that nn by simp
  next
    case (Some k)
    then have "k \<in> set xs" "is_time_source (nbr s k)" by (auto simp: find_Some_iff)
    then show ?thesis using that uniq Some by (auto simp: old_def)
  qed
  have oxs: "old \<noteq> NULL \<Longrightarrow> old \<in> set xs"
  proof (cases "find (\<lambda>n. is_time_source (nbr s n)) xs")
    case (Some k)
    then have "k \<in> set xs" by (auto simp: find_Some_iff)
    then show ?thesis by (simp add: old_def Some)
  qed (simp add: old_def)
  have unl: "\<not> tq_locked s" using ok by (simp add: tq_ok_def)
  show "\<exists>s'. tsch_queue_update_time_source env None s = Some (True, s') \<and> tq_ok s' xs \<and>
      (\<forall>m \<in> set xs. \<not> is_time_source (nbr s' m))"
  proof (cases "old = NULL")
    case True
    then show ?thesis using old unl nc ok ots nn
      by (intro exI [of _ s]) (auto simp: tsch_queue_update_time_source_def tsch_is_locked_def)
  next
    case False
    let ?s = "upd_nbr old (\<lambda>n. n\<lparr>is_time_source := False\<rparr>) (s\<lparr>tq_world := env_ka_stop env (tq_world s)\<rparr>)"
    have "tq_ok ?s xs" using ok tq_ok_cong [of ?s s xs] by simp
    then show ?thesis using old unl nc ots False
      by (intro exI [of _ ?s]) (auto simp: tsch_queue_update_time_source_def tsch_is_locked_def)
  qed
  obtain n s1 ys where a: "tsch_queue_add_nbr addr s = Some (n, s1)" "tq_ok s1 ys"
    "n = NULL \<longrightarrow> s1 = s \<and> ys = xs" "n \<noteq> NULL \<longrightarrow> n \<in> set ys \<and> nb_addr (nbr s1 n) = addr"
    "n \<in> set xs \<longrightarrow> s1 = s \<and> ys = xs"
    "n \<noteq> NULL \<and> n \<notin> set xs \<longrightarrow> ys = xs @ [n] \<and> nbr s1 = (nbr s)(n := new_neighbor addr)"
    using add_nbr_correct [OF ok len] by blast
  show "\<exists>b s' ys. tsch_queue_update_time_source env (Some addr) s = Some (b, s') \<and> tq_ok s' ys \<and>
      (\<not> b \<longrightarrow> s' = s) \<and>
      (b \<longrightarrow> (\<exists>n \<in> set ys. nb_addr (nbr s' n) = addr \<and> (\<forall>m \<in> set ys. is_time_source (nbr s' m) \<longleftrightarrow> m = n)))"
  proof (cases "n = NULL")
    case True
    then show ?thesis using a old unl nc
      by (intro exI [of _ False] exI [of _ s] exI [of _ xs]) (simp add: tsch_queue_update_time_source_def tsch_is_locked_def)
  next
    case n0: False
    have ts1: "is_time_source (nbr s1 m) \<longleftrightarrow> m = old" if "m \<in> set ys" for m
      using that a(5,6) n0 ots oxs nn new_neighbor_ok [OF len] by (cases "n \<in> set xs") auto
    show ?thesis
    proof (cases "n = old")
      case True
      then show ?thesis using a n0 old unl nc ts1
        by (intro exI [of _ True] exI [of _ s1] exI [of _ ys])
          (auto simp: tsch_queue_update_time_source_def tsch_is_locked_def)
    next
      case False
      let ?s2 = "(upd_nbr n (\<lambda>n. n\<lparr>is_time_source := True\<rparr>) s1)\<lparr>tq_world := env_ka_start env (tq_world s1)\<rparr>"
      let ?s3 = "if old \<noteq> NULL then upd_nbr old (\<lambda>n. n\<lparr>is_time_source := False\<rparr>) ?s2 else ?s2"
      have "tq_ok ?s3 ys" using a(2) tq_ok_cong [of ?s3 s1 ys] by simp
      moreover have "tsch_queue_update_time_source env (Some addr) s = Some (True, ?s3)"
        using a(1) n0 old unl nc False by (simp add: tsch_queue_update_time_source_def tsch_is_locked_def Let_def)
      moreover have "nb_addr (nbr ?s3 n) = addr" using a(4) n0 by auto
      moreover have "is_time_source (nbr ?s3 m) \<longleftrightarrow> m = n" if "m \<in> set ys" for m
        using ts1 [OF that] False tq_packets(4) [OF a(2) that] by auto
      ultimately show ?thesis using a(4) n0
        by (intro exI [of _ True] exI [of _ ?s3] exI [of _ ys]) blast
    qed
  qed
qed

subsection \<open>A sample state\<close>

definition sample_nbr :: "linkaddr \<Rightarrow> u8 \<Rightarrow> tsch_neighbor" where
  "sample_nbr a k = (new_neighbor a)\<lparr>tx_array := [5000, 5016, 0, 0], tx_ringbuf := \<lparr>rbi_mask = 3, put_ptr = k, get_ptr = 0\<rparr>\<rparr>"

definition sample_tq :: "nat tschq" where
  "sample_tq = \<lparr>tq_locked = False, tsch_is_coordinator = False,
     packet_memb = \<lparr>m_size = 16, m_num = 8, m_count = [1, 1, 0, 0, 0, 0, 0, 0], m_mem = 5000, m_data = []\<rparr>,
     neighbor_memb = \<lparr>m_size = 64, m_num = 12, m_count = [1, 1, 0, 0, 0, 0, 0, 0, 0, 0, 0, 0], m_mem = 1000, m_data = []\<rparr>,
     neighbor_list = clist_of [1000, 1064],
     nbr = (\<lambda>n. if n = 1000 then sample_nbr [1, 2, 3, 4, 5, 6, 7, 8] 2 else sample_nbr [1, 2, 3, 4, 5, 6, 7, 9] 0),
     pkt = (\<lambda>_. \<lparr>pk_qb = 0, pk_sent = 0, pk_ptr = 0, pk_transmissions = 0, pk_ret = 0, pk_header_len = 0,
                  pk_tsch_sync_ie_offset = 0\<rparr>),
     n_broadcast = 0, n_eb = 0, tq_world = 0\<rparr>"

definition sample_env :: "nat tq_env" where
  "sample_env = \<lparr>env_sent = (\<lambda>_ _ _ _ s. s), env_qb_new = (\<lambda>w. (w + 1, w + 1)), env_qb_free = (\<lambda>_ w. w),
     env_ka_start = (\<lambda>w. w), env_ka_stop = (\<lambda>w. w)\<rparr>"

lemma upt_0_2: "[0..<2] = [0, 1]"
  by (simp add: upt_rec)

lemma sample_nbr_facts:
  "pks (sample_nbr a 2) = [5000, 5016]" "pks (sample_nbr a 0) = []"
  "length a = 8 \<Longrightarrow> nbr_ok (sample_nbr a 2)" "length a = 8 \<Longrightarrow> nbr_ok (sample_nbr a 0)"
  "length a = 8 \<Longrightarrow> nb_addr (sample_nbr a k) = a"
  "\<not> is_time_source (sample_nbr a k)" "tx_links_count (sample_nbr a k) = 0" "backoff_window (sample_nbr a k) = 0"
  "is_broadcast (sample_nbr a k) \<longleftrightarrow> linkaddr_cmp a tsch_eb_address \<or> linkaddr_cmp a tsch_broadcast_address"
  by (simp_all add: sample_nbr_def pks_def rbi_elems_def rbi_count_def circ_def nbr_ok_def rbi_ok_def
      mask_eq_exp_minus_1 upt_0_2 new_neighbor_def Let_def zero_neighbor_def tsch_queue_backoff_reset_def
      linkaddr_copy_eq LINKADDR_SIZE_def)

lemma sample_tq_ok: "tq_ok sample_tq [1000, 1064]"
proof -
  have "{5000, 5016} \<subseteq> memb_used (packet_memb sample_tq)"
    unfolding memb_used_def sample_tq_def block_addr_def
    by (auto intro: exI [of _ 0] exI [of _ 1])
  moreover have "{1000, 1064} \<subseteq> memb_used (neighbor_memb sample_tq)"
    unfolding memb_used_def sample_tq_def block_addr_def
    by (auto intro: exI [of _ 0] exI [of _ 1])
  ultimately show ?thesis
    by (simp add: tq_ok_def sample_nbr_facts) (simp add: sample_tq_def is_clist_clist_of memb_ok_def sample_nbr_facts)
qed

theorem tsch_queue_add_packet_appends_witness:
  "\<exists>p s' ys. tsch_queue_add_packet sample_env [1, 2, 3, 4, 5, 6, 7, 8] 77 99 sample_tq = Some (p, s') \<and> tq_ok s' ys"
proof -
  have "length [1, 2, 3, 4, 5, 6, 7, 8 :: u8] = LINKADDR_SIZE" by (simp add: LINKADDR_SIZE_def)
  from tsch_queue_add_packet_appends [OF sample_tq_ok this, of sample_env 77 99] show ?thesis by blast
qed

theorem tsch_queue_serves_oldest_witness:
  "\<exists>s'. tsch_queue_remove_packet_from_queue 1000 sample_tq = (5000, s') \<and> packets s' 1000 = [5016]"
  using tsch_queue_serves_oldest [OF sample_tq_ok, of 1000 5000 "[5016]" None]
  by (auto simp: sample_tq_def sample_nbr_facts)

theorem tsch_queue_free_unused_exact_witness:
  "\<exists>s'. tsch_queue_free_unused_neighbors sample_env sample_tq = Some s' \<and> tq_ok s' [1000]"
proof -
  have "filter (\<lambda>n. is_broadcast (nbr sample_tq n) \<or> is_time_source (nbr sample_tq n) \<or>
      tx_links_count (nbr sample_tq n) \<noteq> 0 \<or> packets sample_tq n \<noteq> []) [1000, 1064] = [1000]"
    by (simp add: sample_tq_def sample_nbr_facts linkaddr_cmp_eq LINKADDR_SIZE_def tsch_eb_address_def tsch_broadcast_address_def)
  then show ?thesis using tsch_queue_free_unused_exact [OF sample_tq_ok, of sample_env] by auto
qed

theorem tsch_queue_single_time_source_witness:
  "\<exists>s'. tsch_queue_update_time_source sample_env None sample_tq = Some (True, s') \<and> tq_ok s' [1000, 1064]"
proof -
  have l: "length [1, 2, 3, 4, 5, 6, 7, 8 :: u8] = LINKADDR_SIZE" by (simp add: LINKADDR_SIZE_def)
  have n: "\<not> tsch_is_coordinator sample_tq" by (simp add: sample_tq_def)
  have u: "\<forall>a \<in> set [1000, 1064]. \<forall>b \<in> set [1000, 1064].
      is_time_source (nbr sample_tq a) \<and> is_time_source (nbr sample_tq b) \<longrightarrow> a = b"
    by (simp add: sample_tq_def sample_nbr_facts)
  from tsch_queue_single_time_source [OF sample_tq_ok n u l, of sample_env] show ?thesis by blast
qed

end
