(* ===== verification/Tsch_Schedule.thy ===== *)
theory Tsch_Schedule
  imports Tsch_Queue
begin

section \<open>The TSCH schedule (emb6/src/dll/tsch/tsch-schedule.c, emb6/inc/dll/tsch/tsch-asn.h)\<close>

text \<open>
  Slotframes with their links, which the code keeps in two pools and in linked lists, and the choice of the next
  active link. The lists of links of all slotframes share the next fields of the links: \<open>link_next\<close>; a slotframe
  holds the head of its list. The queues of the neighbours, whose counters the schedule maintains, and the lock are
  those of \<open>Tsch_Queue\<close>.
\<close>

subsection \<open>Absolute slot numbers\<close>

record tsch_asn =
  asn_ls4b :: u32
  asn_ms1b :: u8

record tsch_asn_divisor =
  dv_val :: u16
  dv_asn_ms1b_remainder :: u16

definition TSCH_ASN_INC :: "tsch_asn \<Rightarrow> u32 \<Rightarrow> tsch_asn" where
  "TSCH_ASN_INC asn inc =
     (let new_ls4b = asn_ls4b asn + inc;
          asn = (if new_ls4b < asn_ls4b asn then asn\<lparr>asn_ms1b := asn_ms1b asn + 1\<rparr> else asn)
      in asn\<lparr>asn_ls4b := new_ls4b\<rparr>)"

definition TSCH_ASN_DEC :: "tsch_asn \<Rightarrow> u32 \<Rightarrow> tsch_asn" where
  "TSCH_ASN_DEC asn dec =
     (let new_ls4b = asn_ls4b asn - dec;
          asn = (if new_ls4b > asn_ls4b asn then asn\<lparr>asn_ms1b := asn_ms1b asn - 1\<rparr> else asn)
      in asn\<lparr>asn_ls4b := new_ls4b\<rparr>)"

definition TSCH_ASN_DIFF :: "tsch_asn \<Rightarrow> tsch_asn \<Rightarrow> u32" where
  "TSCH_ASN_DIFF asn1 asn2 = asn_ls4b asn1 - asn_ls4b asn2"

definition TSCH_ASN_DIVISOR_INIT :: "u16 \<Rightarrow> tsch_asn_divisor" where
  "TSCH_ASN_DIVISOR_INIT val =
     \<lparr>dv_val = val, dv_asn_ms1b_remainder = ucast (((0xffffffff :: u32) mod ucast val + 1) mod ucast val)\<rparr>"

text \<open>The operands are \<open>int\<close> values, but for the casts to 16 bits.\<close>

definition TSCH_ASN_MOD :: "tsch_asn \<Rightarrow> tsch_asn_divisor \<Rightarrow> int" where
  "TSCH_ASN_MOD asn dv =
     (uint (of_int (uint (asn_ls4b asn) mod uint (dv_val dv)) :: u16) +
      uint (of_int (uint (asn_ms1b asn) * uint (dv_asn_ms1b_remainder dv) mod uint (dv_val dv)) :: u16)) mod uint (dv_val dv)"

subsection \<open>State\<close>

definition LINK_OPTION_TX :: u8 where "LINK_OPTION_TX = 1"
definition LINK_OPTION_RX :: u8 where "LINK_OPTION_RX = 2"
definition LINK_OPTION_TIME_KEEPING :: u8 where "LINK_OPTION_TIME_KEEPING = 8"
definition TSCH_SCHEDULE_DEFAULT_LENGTH :: u16 where "TSCH_SCHEDULE_DEFAULT_LENGTH = 7"


datatype link_type = LINK_TYPE_NORMAL | LINK_TYPE_ADVERTISING | LINK_TYPE_ADVERTISING_ONLY

record tsch_link =
  tl_handle :: u16
  tl_addr :: linkaddr
  tl_slotframe_handle :: u16
  tl_timeslot :: u16
  tl_channel_offset :: u16
  tl_link_options :: u8
  tl_link_type :: link_type
  tl_data :: ptr

record tsch_slotframe =
  fr_handle :: u16
  fr_size :: tsch_asn_divisor
  fr_links :: ptr

record 'w sched =
  sq :: "'w tschq"
  link_memb :: memb
  slotframe_memb :: memb
  link :: "ptr \<Rightarrow> tsch_link"
  link_next :: "ptr \<Rightarrow> ptr"
  frame :: "ptr \<Rightarrow> tsch_slotframe"
  slotframe_list :: clist
  current_link :: ptr
  current_link_handle :: int

definition links_list :: "'w sched \<Rightarrow> ptr \<Rightarrow> clist" where
  "links_list s sf = \<lparr>cl_head = fr_links (frame s sf), cl_next = link_next s\<rparr>"

definition set_links :: "ptr \<Rightarrow> clist \<Rightarrow> 'w sched \<Rightarrow> 'w sched" where
  "set_links sf l s = s\<lparr>frame := (frame s)(sf := (frame s sf)\<lparr>fr_links := cl_head l\<rparr>), link_next := cl_next l\<rparr>"

lemma links_list_upd [simp]:
  "links_list (s\<lparr>sq := q\<rparr>) sf = links_list s sf" "links_list (s\<lparr>current_link := p\<rparr>) sf = links_list s sf"
  "links_list (s\<lparr>link_memb := m\<rparr>) sf = links_list s sf"
  by (simp_all add: links_list_def)

subsection \<open>Operations\<close>

definition tsch_schedule_get_slotframe_by_handle :: "u16 \<Rightarrow> 'w sched \<Rightarrow> ptr option" where
  "tsch_schedule_get_slotframe_by_handle handle s =
     (if \<not> tsch_is_locked (sq s)
      then nbr_search (slotframe_list s) (\<lambda>sf. fr_handle (frame s sf) = handle) (list_head (slotframe_list s))
      else Some NULL)"

partial_function (option) link_by_handle_loop :: "u16 \<Rightarrow> 'w sched \<Rightarrow> ptr \<Rightarrow> ptr option" where
  "link_by_handle_loop handle s sf =
     (if sf = NULL then Some NULL
      else do {
        l \<leftarrow> nbr_search (links_list s sf) (\<lambda>l. tl_handle (link s l) = handle) (list_head (links_list s sf));
        if l \<noteq> NULL then Some l else link_by_handle_loop handle s (list_item_next (slotframe_list s) sf)
      })"

definition tsch_schedule_get_link_by_handle :: "u16 \<Rightarrow> 'w sched \<Rightarrow> ptr option" where
  "tsch_schedule_get_link_by_handle handle s =
     (if \<not> tsch_is_locked (sq s) then link_by_handle_loop handle s (list_head (slotframe_list s)) else Some NULL)"

definition tsch_schedule_get_link_by_timeslot :: "ptr \<Rightarrow> u16 \<Rightarrow> 'w sched \<Rightarrow> ptr option" where
  "tsch_schedule_get_link_by_timeslot sf timeslot s =
     (if \<not> tsch_is_locked (sq s) \<and> sf \<noteq> NULL
      then nbr_search (links_list s sf) (\<lambda>l. tl_timeslot (link s l) = timeslot) (list_head (links_list s sf))
      else Some NULL)"

definition tsch_schedule_add_slotframe :: "u16 \<Rightarrow> u16 \<Rightarrow> 'w sched \<Rightarrow> (ptr \<times> 'w sched) option" where
  "tsch_schedule_add_slotframe handle sz s =
     (if sz = 0 then Some (NULL, s)
      else do {
        sf0 \<leftarrow> tsch_schedule_get_slotframe_by_handle handle s;
        if sf0 \<noteq> NULL then Some (NULL, s)
        else case tsch_get_lock (sq s) of
          (False, _) \<Rightarrow> Some (NULL, s)
        | (True, q) \<Rightarrow>
            (case memb_alloc (slotframe_memb s) of
               (sf, m) \<Rightarrow> do {
                 let s = s\<lparr>sq := q, slotframe_memb := m\<rparr>;
                 s \<leftarrow> (if sf \<noteq> NULL then do {
                        let s = s\<lparr>frame := (frame s)(sf :=
                          (frame s sf)\<lparr>fr_handle := handle, fr_size := TSCH_ASN_DIVISOR_INIT sz, fr_links := NULL\<rparr>)\<rparr>;
                        l \<leftarrow> list_add (slotframe_list s) sf;
                        Some (s\<lparr>slotframe_list := l\<rparr>)
                      } else Some s);
                 Some (sf, s\<lparr>sq := tsch_release_lock (sq s)\<rparr>)
               })
      })"

text \<open>The counters of Tx links of the neighbour at an address, changed by \<open>d\<close>.\<close>

definition count_links :: "u8 \<Rightarrow> linkaddr \<Rightarrow> u8 \<Rightarrow> 'w tschq \<Rightarrow> 'w tschq option" where
  "count_links link_options addr d q =
     (if link_options AND LINK_OPTION_TX \<noteq> 0 then do {
        (n, q) \<leftarrow> tsch_queue_add_nbr addr q;
        Some (if n \<noteq> NULL then
          (let q = upd_nbr n (\<lambda>nb. nb\<lparr>tx_links_count := tx_links_count nb + d\<rparr>) q
           in if link_options AND LINK_OPTION_SHARED = 0
              then upd_nbr n (\<lambda>nb. nb\<lparr>dedicated_tx_links_count := dedicated_tx_links_count nb + d\<rparr>) q else q)
         else q)
      } else Some q)"

definition tsch_schedule_remove_link :: "ptr \<Rightarrow> ptr \<Rightarrow> 'w sched \<Rightarrow> (int \<times> 'w sched) option" where
  "tsch_schedule_remove_link sf l s =
     (if sf \<noteq> NULL \<and> l \<noteq> NULL \<and> tl_slotframe_handle (link s l) = fr_handle (frame s sf) then
        (case tsch_get_lock (sq s) of
           (True, q) \<Rightarrow> do {
             let link_options = tl_link_options (link s l);
             let addr = tl_addr (link s l);
             let s = (if l = current_link s then s\<lparr>sq := q, current_link := NULL\<rparr> else s\<lparr>sq := q\<rparr>);
             c \<leftarrow> list_remove (links_list s sf) l;
             let s = set_links sf c s;
             let s = s\<lparr>link_memb := snd (memb_free (link_memb s) l)\<rparr>;
             q \<leftarrow> count_links link_options addr (-1) (tsch_release_lock (sq s));
             Some (1, s\<lparr>sq := q\<rparr>)
           }
         | (False, _) \<Rightarrow> Some (0, s))
      else Some (0, s))"

definition tsch_schedule_remove_link_by_timeslot :: "ptr \<Rightarrow> u16 \<Rightarrow> 'w sched \<Rightarrow> (int \<times> 'w sched) option" where
  "tsch_schedule_remove_link_by_timeslot sf timeslot s =
     (if sf \<noteq> NULL then do {
        l \<leftarrow> tsch_schedule_get_link_by_timeslot sf timeslot s;
        tsch_schedule_remove_link sf l s
      } else Some (0, s))"

definition tsch_schedule_add_link ::
  "ptr \<Rightarrow> u8 \<Rightarrow> link_type \<Rightarrow> linkaddr option \<Rightarrow> u16 \<Rightarrow> u16 \<Rightarrow> 'w sched \<Rightarrow> (ptr \<times> 'w sched) option" where
  "tsch_schedule_add_link sf link_options link_type address timeslot channel_offset s =
     (if sf = NULL then Some (NULL, s)
      else do {
        (_, s) \<leftarrow> tsch_schedule_remove_link_by_timeslot sf timeslot s;
        case tsch_get_lock (sq s) of
          (False, _) \<Rightarrow> Some (NULL, s)
        | (True, q) \<Rightarrow>
            (case memb_alloc (link_memb s) of
               (l, m) \<Rightarrow>
                 (let s = s\<lparr>sq := q, link_memb := m\<rparr>
                  in if l = NULL then Some (l, s\<lparr>sq := tsch_release_lock (sq s)\<rparr>)
                     else do {
                       c \<leftarrow> list_add (links_list s sf) l;
                       let s = set_links sf c s;
                       let address = (case address of None \<Rightarrow> linkaddr_null | Some a \<Rightarrow> a);
                       let s = s\<lparr>link := (link s)(l := (link s l)\<lparr>tl_handle := of_int (current_link_handle s),
                         tl_link_options := link_options, tl_link_type := link_type,
                         tl_slotframe_handle := fr_handle (frame s sf), tl_timeslot := timeslot,
                         tl_channel_offset := channel_offset, tl_data := NULL,
                         tl_addr := linkaddr_copy (tl_addr (link s l)) address\<rparr>),
                         current_link_handle := current_link_handle s + 1\<rparr>;
                       q \<leftarrow> count_links (tl_link_options (link s l)) (tl_addr (link s l)) 1 (tsch_release_lock (sq s));
                       Some (l, s\<lparr>sq := q\<rparr>)
                     }))
      })"

partial_function (option) remove_links_loop :: "ptr \<Rightarrow> 'w sched \<Rightarrow> 'w sched option" where
  "remove_links_loop sf s =
     (if list_head (links_list s sf) = NULL then Some s
      else do {
        (_, s) \<leftarrow> tsch_schedule_remove_link sf (list_head (links_list s sf)) s;
        remove_links_loop sf s
      })"

definition tsch_schedule_remove_slotframe :: "ptr \<Rightarrow> 'w sched \<Rightarrow> (int \<times> 'w sched) option" where
  "tsch_schedule_remove_slotframe sf s =
     (if sf \<noteq> NULL then do {
        s \<leftarrow> remove_links_loop sf s;
        case tsch_get_lock (sq s) of
          (True, q) \<Rightarrow> do {
            let s = s\<lparr>sq := q, slotframe_memb := snd (memb_free (slotframe_memb s) sf)\<rparr>;
            c \<leftarrow> list_remove (slotframe_list s) sf;
            Some (1, s\<lparr>slotframe_list := c, sq := tsch_release_lock (sq s)\<rparr>)
          }
        | (False, _) \<Rightarrow> Some (0, s)
      } else Some (0, s))"

partial_function (option) tsch_schedule_remove_all_slotframes :: "'w sched \<Rightarrow> (int \<times> 'w sched) option" where
  "tsch_schedule_remove_all_slotframes s =
     (if list_head (slotframe_list s) = NULL then Some (1, s)
      else do {
        (r, s) \<leftarrow> tsch_schedule_remove_slotframe (list_head (slotframe_list s)) s;
        if r = 0 then Some (0, s) else tsch_schedule_remove_all_slotframes s
      })"

definition tsch_schedule_init :: "'w sched \<Rightarrow> int \<times> 'w sched" where
  "tsch_schedule_init s =
     (case tsch_get_lock (sq s) of
        (True, q) \<Rightarrow> (1, s\<lparr>sq := tsch_release_lock q, link_memb := memb_init (link_memb s),
          slotframe_memb := memb_init (slotframe_memb s), slotframe_list := list_init (slotframe_list s)\<rparr>)
      | (False, _) \<Rightarrow> (0, s))"

definition tsch_schedule_create_minimal :: "'w sched \<Rightarrow> 'w sched option" where
  "tsch_schedule_create_minimal s = do {
     (_, s) \<leftarrow> tsch_schedule_remove_all_slotframes s;
     (sf_min, s) \<leftarrow> tsch_schedule_add_slotframe 0 TSCH_SCHEDULE_DEFAULT_LENGTH s;
     (_, s) \<leftarrow> tsch_schedule_add_link sf_min
       (LINK_OPTION_RX OR LINK_OPTION_TX OR LINK_OPTION_SHARED OR LINK_OPTION_TIME_KEEPING)
       LINK_TYPE_ADVERTISING (Some tsch_broadcast_address) 0 0 s;
     Some s
   }"

subsection \<open>The next active link\<close>

text \<open>The running result: \<open>time_to_curr_best\<close>, \<open>curr_best\<close> and \<open>curr_backup\<close>.\<close>

type_synonym best = "u16 \<times> ptr \<times> ptr"

definition time_to_timeslot :: "tsch_asn_divisor \<Rightarrow> u16 \<Rightarrow> u16 \<Rightarrow> u16" where
  "time_to_timeslot dv timeslot ts = (if ts > timeslot then ts - timeslot else dv_val dv + ts - timeslot)"

definition active_step :: "(ptr \<Rightarrow> tsch_link) \<Rightarrow> u16 \<Rightarrow> ptr \<Rightarrow> best \<Rightarrow> best" where
  "active_step lk time l = (\<lambda>(t, best, backup).
     if best = NULL \<or> time < t then (time, l, NULL)
     else if time = t then
       let tx = (\<lambda>x. tl_link_options (lk x) AND LINK_OPTION_TX);
           rx = (\<lambda>x. tl_link_options (lk x) AND LINK_OPTION_RX \<noteq> 0);
           new_best = (if tx best = tx l
             then if tl_slotframe_handle (lk l) < tl_slotframe_handle (lk best) then l else NULL
             else if tx l \<noteq> 0 then l else NULL);
           backup = (if backup = NULL then
               let backup = (if new_best \<noteq> l \<and> rx l then l else backup)
               in if new_best \<noteq> best \<and> rx best then best else backup
             else backup)
       in (t, if new_best \<noteq> NULL then new_best else best, backup)
     else (t, best, backup))"

partial_function (option) active_links_loop :: "'w sched \<Rightarrow> ptr \<Rightarrow> u16 \<Rightarrow> ptr \<Rightarrow> best \<Rightarrow> best option" where
  "active_links_loop s sf timeslot l b =
     (if l = NULL then Some b
      else active_links_loop s sf timeslot (list_item_next (links_list s sf) l)
             (active_step (link s) (time_to_timeslot (fr_size (frame s sf)) timeslot (tl_timeslot (link s l))) l b))"

partial_function (option) active_frames_loop :: "'w sched \<Rightarrow> tsch_asn \<Rightarrow> ptr \<Rightarrow> best \<Rightarrow> best option" where
  "active_frames_loop s asn sf b =
     (if sf = NULL then Some b
      else do {
        let timeslot = of_int (TSCH_ASN_MOD asn (fr_size (frame s sf)));
        b \<leftarrow> active_links_loop s sf timeslot (list_head (links_list s sf)) b;
        active_frames_loop s asn (list_item_next (slotframe_list s) sf) b
      })"

text \<open>The result, the value written to \<open>time_offset\<close> and the one written to \<open>backup_link\<close>.\<close>

definition tsch_schedule_get_next_active_link :: "tsch_asn \<Rightarrow> 'w sched \<Rightarrow> (ptr \<times> u16 option \<times> ptr) option" where
  "tsch_schedule_get_next_active_link asn s =
     (if \<not> tsch_is_locked (sq s) then do {
        (t, best, backup) \<leftarrow> active_frames_loop s asn (list_head (slotframe_list s)) (0, NULL, NULL);
        Some (best, Some t, backup)
      } else Some (NULL, None, NULL))"

declare link_by_handle_loop.simps [simp del] remove_links_loop.simps [simp del]
  tsch_schedule_remove_all_slotframes.simps [simp del] active_links_loop.simps [simp del] active_frames_loop.simps [simp del]

subsection \<open>Arithmetic on slot numbers\<close>

definition asn_val :: "tsch_asn \<Rightarrow> int" where
  "asn_val a = uint (asn_ms1b a) * 2 ^ 32 + uint (asn_ls4b a)"

lemma uint_16_bounds: "0 \<le> uint (v :: u16)" "uint (v :: u16) < 65536"
  using unsigned_less [of v, where ?'a = int] by simp_all

lemma uint_pos: "v \<noteq> (0 :: u16) \<Longrightarrow> 0 < uint v"
  using uint_16_bounds(1) [of v] unsigned_eq_0_iff [of v, where ?'a = int] by (simp add: order_less_le)

lemma uint_ucast_16_32 [simp]: "uint (ucast (v :: u16) :: u32) = uint v"
  using uint_16_bounds(2) [of v] by (simp add: unsigned_ucast_eq take_bit_int_eq_self_iff)

lemma cast16_small: "0 \<le> x \<Longrightarrow> x < 65536 \<Longrightarrow> uint (of_int x :: u16) = x"
  by (simp add: unsigned_of_int take_bit_int_eq_self_iff)

lemma divisor_remainder:
  assumes "v \<noteq> 0"
  shows "uint (dv_asn_ms1b_remainder (TSCH_ASN_DIVISOR_INIT v)) = 2 ^ 32 mod uint v"
proof -
  let ?w = "ucast v :: u32"
  have v: "0 < uint v" "uint v < 65536" using assms uint_16_bounds [of v] unsigned_eq_0_iff [of v] by (auto simp: order_less_le)
  have m: "uint ((0xffffffff :: u32) mod ?w) = 0xffffffff mod uint v" by (simp add: uint_mod)
  have b: "0xffffffff mod uint v < uint v" "0 \<le> 0xffffffff mod uint v" using v by simp_all
  have p: "uint ((0xffffffff :: u32) mod ?w + 1) = 0xffffffff mod uint v + 1"
  proof -
    have "uint ((0xffffffff :: u32) mod ?w + 1) = (0xffffffff mod uint v + 1) mod 2 ^ 32"
      unfolding uint_word_ariths(1) m by simp
    also have "\<dots> = 0xffffffff mod uint v + 1" 
    proof (rule mod_pos_pos_trivial)
      show "0 \<le> 0xffffffff mod uint v + 1" using b by linarith
      have "0xffffffff mod uint v + 1 < (4294967296 :: int)" using b v by linarith
      also have "\<dots> = 2 ^ 32" by simp
      finally show "0xffffffff mod uint v + 1 < 2 ^ 32" .
    qed
    finally show ?thesis .
  qed
  have q: "uint (((0xffffffff :: u32) mod ?w + 1) mod ?w) = 2 ^ 32 mod uint v"
    unfolding uint_mod p by (simp add: mod_add_left_eq)
  have "uint (ucast (((0xffffffff :: u32) mod ?w + 1) mod ?w) :: u16) = take_bit 16 (2 ^ 32 mod uint v)"
    unfolding unsigned_ucast_eq q by simp
  also have "\<dots> = 2 ^ 32 mod uint v"
  proof -
    have "2 ^ 32 mod uint v < 65536" using pos_mod_bound [OF v(1), of "2 ^ 32"] v(2) by linarith
    then show ?thesis using v(1) by (simp add: take_bit_int_eq_self_iff)
  qed
  finally show ?thesis by (simp add: TSCH_ASN_DIVISOR_INIT_def)
qed

lemma asn_mod_correct:
  assumes "v \<noteq> 0"
  shows "TSCH_ASN_MOD a (TSCH_ASN_DIVISOR_INIT v) = asn_val a mod uint v"
proof -
  have v: "0 < uint v" "uint v < 65536" using assms uint_16_bounds [of v] unsigned_eq_0_iff [of v] by (auto simp: order_less_le)
  have s: "uint (of_int (x mod uint v) :: u16) = x mod uint v" for x
    using pos_mod_bound [of "uint v" x] pos_mod_sign [of "uint v" x] v by (intro cast16_small) linarith+
  have "TSCH_ASN_MOD a (TSCH_ASN_DIVISOR_INIT v) =
      (uint (asn_ls4b a) mod uint v + uint (asn_ms1b a) * (2 ^ 32 mod uint v) mod uint v) mod uint v"
    unfolding TSCH_ASN_MOD_def divisor_remainder [OF assms] by (simp add: TSCH_ASN_DIVISOR_INIT_def s)
  also have "\<dots> = (uint (asn_ls4b a) + uint (asn_ms1b a) * 2 ^ 32) mod uint v"
    by (simp only: mod_add_left_eq mod_add_right_eq mod_mult_right_eq)
  finally show ?thesis by (simp add: asn_val_def add.commute)
qed

lemma asn_bounds: "0 \<le> uint (asn_ls4b a)" "uint (asn_ls4b a) < 2 ^ 32" "0 \<le> uint (asn_ms1b a)" "uint (asn_ms1b a) < 2 ^ 8"
  using unsigned_less [of "asn_ls4b a", where ?'a = int] unsigned_less [of "asn_ms1b a", where ?'a = int] by simp_all

lemma asn_inc_correct: "asn_val (TSCH_ASN_INC a d) = (asn_val a + uint d) mod 2 ^ 40"
proof -
  let ?l = "uint (asn_ls4b a)" and ?m = "uint (asn_ms1b a)" and ?d = "uint d"
  note b = asn_bounds [of a]
  have d: "0 \<le> ?d" "?d < 2 ^ 32" using unsigned_less [of d, where ?'a = int] by simp_all
  have l: "uint (asn_ls4b a + d) = (if ?l + ?d < 2 ^ 32 then ?l + ?d else ?l + ?d - 2 ^ 32)" by (simp add: uint_plus_if')
  have m: "uint (asn_ms1b a + 1) = (if ?m + 1 < 2 ^ 8 then ?m + 1 else 0)" using b by (simp add: uint_plus_if')
  show ?thesis
  proof (cases "?l + ?d < 2 ^ 32")
    case True
    then have "\<not> asn_ls4b a + d < asn_ls4b a" using l d by (simp add: word_less_alt)
    moreover have "?m * 2 ^ 32 + (?l + ?d) < 2 ^ 40" using True b by simp
    ultimately show ?thesis using True l b d by (simp add: TSCH_ASN_INC_def Let_def asn_val_def mod_pos_pos_trivial add.assoc)
  next
    case False
    then have w: "asn_ls4b a + d < asn_ls4b a" using l d by (simp add: word_less_alt)
    show ?thesis
    proof (cases "?m + 1 < 2 ^ 8")
      case True
      then have "(?m + 1) * 2 ^ 32 + (?l + ?d - 2 ^ 32) < 2 ^ 40" using b d by simp
      moreover have "?m * 2 ^ 32 + ?l + ?d = (?m + 1) * 2 ^ 32 + (?l + ?d - 2 ^ 32)" by simp
      ultimately show ?thesis using True False l w b d m
        by (simp add: TSCH_ASN_INC_def Let_def asn_val_def mod_pos_pos_trivial)
    next
      case top: False
      then have "?m = 255" using b by simp
      then have e: "?m * 2 ^ 32 + ?l + ?d = (?l + ?d - 2 ^ 32) + 2 ^ 40" by simp
      have "asn_val (TSCH_ASN_INC a d) = ?l + ?d - 2 ^ 32"
        using top False l w m by (simp add: TSCH_ASN_INC_def Let_def asn_val_def)
      moreover have "(?m * 2 ^ 32 + ?l + ?d) mod 2 ^ 40 = ?l + ?d - 2 ^ 32"
        unfolding e mod_add_self2 using False b d by (intro mod_pos_pos_trivial) simp_all
      ultimately show ?thesis by (simp add: asn_val_def)
    qed
  qed
qed

lemma asn_dec_inc: "TSCH_ASN_DEC (TSCH_ASN_INC a d) d = a"
proof -
  have "(asn_ls4b a + d < asn_ls4b a) = (asn_ls4b a > asn_ls4b a + d)" by simp
  then show ?thesis by (cases a) (simp add: TSCH_ASN_INC_def TSCH_ASN_DEC_def Let_def)
qed

text \<open>
  Slot numbers behave as 40-bit integers: the modulus that is computed from two halves and the precomputed
  remainder of \<open>2\<^sup>3\<^sup>2\<close> is that of the whole number, for every divisor but 0; incrementing adds modulo
  \<open>2\<^sup>4\<^sup>0\<close>, and decrementing undoes it.
\<close>

theorem asn_arithmetic:
  assumes "v \<noteq> 0"
  shows "TSCH_ASN_MOD a (TSCH_ASN_DIVISOR_INIT v) = asn_val a mod uint v \<and>
    asn_val (TSCH_ASN_INC a d) = (asn_val a + uint d) mod 2 ^ 40 \<and>
    TSCH_ASN_DEC (TSCH_ASN_INC a d) d = a \<and> TSCH_ASN_DIFF (TSCH_ASN_INC a d) a = d"
  using asn_mod_correct [OF assms] asn_inc_correct asn_dec_inc
  by (simp add: TSCH_ASN_DIFF_def TSCH_ASN_INC_def Let_def)

theorem asn_arithmetic_witness:
  "TSCH_ASN_MOD \<lparr>asn_ls4b = 5, asn_ms1b = 1\<rparr> (TSCH_ASN_DIVISOR_INIT 7) = 2 \<and>
    asn_val (TSCH_ASN_INC \<lparr>asn_ls4b = 0xffffffff, asn_ms1b = 0xff\<rparr> 3) = 2"
proof -
  have "TSCH_ASN_MOD \<lparr>asn_ls4b = 5, asn_ms1b = 1\<rparr> (TSCH_ASN_DIVISOR_INIT 7) = 2"
    using asn_arithmetic [of 7 "\<lparr>asn_ls4b = 5, asn_ms1b = 1\<rparr>" 0] by (simp add: asn_val_def)
  moreover have "asn_val (TSCH_ASN_INC \<lparr>asn_ls4b = 0xffffffff, asn_ms1b = 0xff\<rparr> 3) = 2"
    using asn_arithmetic [of 7 "\<lparr>asn_ls4b = 0xffffffff, asn_ms1b = 0xff\<rparr>" 3] by (simp add: asn_val_def)
  ultimately show ?thesis by blast
qed

subsection \<open>The next active link is the earliest one\<close>

definition frames_ok :: "'w sched \<Rightarrow> ptr list \<Rightarrow> (ptr \<Rightarrow> ptr list) \<Rightarrow> bool" where
  "frames_ok s xs ls \<longleftrightarrow> is_clist (slotframe_list s) xs \<and>
     (\<forall>sf \<in> set xs. is_clist (links_list s sf) (ls sf) \<and>
        (\<exists>v. v \<noteq> 0 \<and> fr_size (frame s sf) = TSCH_ASN_DIVISOR_INIT v \<and> (\<forall>l \<in> set (ls sf). tl_timeslot (link s l) < v)))"

text \<open>A link is active at a slot number when the slot number is at its timeslot in the slotframe.\<close>

definition link_active :: "'w sched \<Rightarrow> ptr \<Rightarrow> ptr \<Rightarrow> int \<Rightarrow> bool" where
  "link_active s sf l a \<longleftrightarrow> a mod uint (dv_val (fr_size (frame s sf))) = uint (tl_timeslot (link s l))"

definition has_tx :: "(ptr \<Rightarrow> tsch_link) \<Rightarrow> ptr \<Rightarrow> bool" where
  "has_tx lk l \<longleftrightarrow> tl_link_options (lk l) AND LINK_OPTION_TX \<noteq> 0"

definition has_rx :: "(ptr \<Rightarrow> tsch_link) \<Rightarrow> ptr \<Rightarrow> bool" where
  "has_rx lk l \<longleftrightarrow> tl_link_options (lk l) AND LINK_OPTION_RX \<noteq> 0"

text \<open>The order of overlapping links: Tx links first, then the lower slotframe handle.\<close>

definition goes_before :: "(ptr \<Rightarrow> tsch_link) \<Rightarrow> ptr \<Rightarrow> ptr \<Rightarrow> bool" where
  "goes_before lk b l \<longleftrightarrow> (has_tx lk l \<longrightarrow> has_tx lk b) \<and>
     (has_tx lk b = has_tx lk l \<longrightarrow> tl_slotframe_handle (lk b) \<le> tl_slotframe_handle (lk l))"

definition best_inv :: "(ptr \<Rightarrow> tsch_link) \<Rightarrow> (u16 \<times> ptr) set \<Rightarrow> best \<Rightarrow> bool" where
  "best_inv lk Q = (\<lambda>(t, b, bk). Q = {} \<and> t = 0 \<and> b = NULL \<and> bk = NULL \<or>
     (t, b) \<in> Q \<and> b \<noteq> NULL \<and> (\<forall>(t', l') \<in> Q. t \<le> t' \<and> (t' = t \<longrightarrow> goes_before lk b l')) \<and>
     (bk \<noteq> NULL \<longrightarrow> (t, bk) \<in> Q \<and> has_rx lk bk) \<and> (\<forall>x. (t, x) \<in> Q \<and> x \<noteq> b \<and> x \<noteq> NULL \<and> has_rx lk x \<longrightarrow> bk \<noteq> NULL))"

lemma tx_eq: "(a AND LINK_OPTION_TX = b AND LINK_OPTION_TX) = ((a AND LINK_OPTION_TX \<noteq> 0) = (b AND LINK_OPTION_TX \<noteq> 0))"
  by (simp add: LINK_OPTION_TX_def and_one_eq mod_2_eq_odd)

lemma active_step_inv:
  assumes "best_inv lk Q (t, b, bk)" and "l \<noteq> NULL"
  shows "best_inv lk (insert (t', l) Q) (active_step lk t' l (t, b, bk))"
proof (cases "b = NULL \<or> t' < t")
  case True
  then show ?thesis using assms by (auto simp: best_inv_def active_step_def goes_before_def)
next
  case False
  then have q: "(t, b) \<in> Q" "b \<noteq> NULL" "\<And>u x. (u, x) \<in> Q \<Longrightarrow> t \<le> u" "\<And>x. (t, x) \<in> Q \<Longrightarrow> goes_before lk b x"
    "bk \<noteq> NULL \<Longrightarrow> (t, bk) \<in> Q \<and> has_rx lk bk" "\<And>x. (t, x) \<in> Q \<Longrightarrow> x \<noteq> b \<Longrightarrow> x \<noteq> NULL \<Longrightarrow> has_rx lk x \<Longrightarrow> bk \<noteq> NULL"
    using assms(1) by (auto simp: best_inv_def)
  show ?thesis
  proof (cases "t' = t")
    case same: True
    define win where "win = (if has_tx lk b = has_tx lk l then tl_slotframe_handle (lk l) < tl_slotframe_handle (lk b) else has_tx lk l)"
    define nbk where "nbk = snd (snd (active_step lk t' l (t, b, bk)))"
    have st: "active_step lk t' l (t, b, bk) = (t, if win then l else b, nbk)"
      using False same assms(2) q(2)
      by (simp add: active_step_def Let_def tx_eq has_tx_def [symmetric] win_def nbk_def)
    have bk: "(t, nbk) \<in> insert (t, l) Q \<and> has_rx lk nbk" if "nbk \<noteq> NULL"
      using that q same False unfolding nbk_def
      by (auto simp: active_step_def Let_def tx_eq has_tx_def [symmetric] has_rx_def [symmetric] split: if_splits)
    have some: "nbk \<noteq> NULL" if x: "(t, x) \<in> insert (t, l) Q" "x \<noteq> (if win then l else b)" "x \<noteq> NULL" "has_rx lk x" for x
    proof (cases "bk = NULL")
      case True
      have "x = b \<or> x = l" using q(6) [of x] x True by auto
      then show ?thesis using x(2-4) True False same assms(2) q(2) unfolding nbk_def win_def
        by (auto simp: active_step_def Let_def tx_eq has_tx_def [symmetric] has_rx_def [symmetric] split: if_splits)
    next
      case False
      then show ?thesis using \<open>\<not> (b = NULL \<or> t' < t)\<close> same unfolding nbk_def by (simp add: active_step_def Let_def)
    qed
    have "goes_before lk (if win then l else b) x" if "(t, x) \<in> insert (t, l) Q" for x
      using that q(4) [of x] by (auto simp: win_def goes_before_def)
    then have "\<forall>(t', l') \<in> insert (t, l) Q. t \<le> t' \<and> (t' = t \<longrightarrow> goes_before lk (if win then l else b) l')" using q(3) by auto
    moreover have "\<forall>x. (t, x) \<in> insert (t, l) Q \<and> x \<noteq> (if win then l else b) \<and> x \<noteq> NULL \<and> has_rx lk x \<longrightarrow> nbk \<noteq> NULL"
      using some by blast
    moreover have "(t, if win then l else b) \<in> insert (t, l) Q" "(if win then l else b) \<noteq> NULL" using q(1,2) assms(2) by simp_all
    ultimately show ?thesis using bk unfolding st unfolding same best_inv_def prod.case by blast
  next
    case other: False
    then have "t < t'" using False by auto
    then show ?thesis using other False q by (auto simp: best_inv_def active_step_def)
  qed
qed

lemma active_links_loop_chain:
  "chain (link_next s) l ks \<Longrightarrow> active_links_loop s sf timeslot l b =
    Some (fold (\<lambda>l. active_step (link s) (time_to_timeslot (fr_size (frame s sf)) timeslot (tl_timeslot (link s l))) l) ks b)"
proof (induction ks arbitrary: l b)
  case Nil then show ?case by (simp add: active_links_loop.simps [of s sf timeslot NULL])
next
  case (Cons x ks)
  then show ?case by (simp add: active_links_loop.simps [of s sf timeslot x] list_item_next_def links_list_def)
qed

definition frame_time :: "'w sched \<Rightarrow> tsch_asn \<Rightarrow> ptr \<Rightarrow> ptr \<Rightarrow> u16" where
  "frame_time s asn sf l =
     time_to_timeslot (fr_size (frame s sf)) (of_int (TSCH_ASN_MOD asn (fr_size (frame s sf)))) (tl_timeslot (link s l))"

lemma fold_active_inv:
  "best_inv lk Q b \<Longrightarrow> NULL \<notin> set ks \<Longrightarrow> best_inv lk (Q \<union> (\<lambda>l. (f l, l)) ` set ks) (fold (\<lambda>l. active_step lk (f l) l) ks b)"
proof (induction ks arbitrary: b Q)
  case (Cons x ks)
  obtain t c bk where b: "b = (t, c, bk)" by (cases b)
  have "best_inv lk (insert (f x, x) Q) (active_step lk (f x) x b)"
    using active_step_inv Cons.prems unfolding b by simp
  from Cons.IH [OF this] Cons.prems show ?case by simp
qed simp

lemma active_frames_loop_inv:
  assumes "\<forall>sf \<in> set xs. is_clist (links_list s sf) (ls sf)"
  shows "chain (cl_next (slotframe_list s)) sf xs \<Longrightarrow> best_inv (link s) Q b \<Longrightarrow>
    \<exists>b'. active_frames_loop s asn sf b = Some b' \<and>
      best_inv (link s) (Q \<union> {(frame_time s asn sf l, l) | sf l. sf \<in> set xs \<and> l \<in> set (ls sf)}) b'"
  using assms
proof (induction xs arbitrary: sf Q b)
  case Nil then show ?case by (simp add: active_frames_loop.simps [of s asn NULL])
next
  case (Cons x xs)
  have c: "is_clist (links_list s x) (ls x)" using Cons.prems by simp
  have nn: "NULL \<notin> set (ls x)" using is_clist_nonnull [OF c] by blast
  let ?b = "fold (\<lambda>l. active_step (link s) (frame_time s asn x l) l) (ls x) b"
  have l: "active_links_loop s x (of_int (TSCH_ASN_MOD asn (fr_size (frame s x)))) (list_head (links_list s x)) b = Some ?b"
    using c by (simp add: active_links_loop_chain [of s _ "ls x"] is_clist_def links_list_def list_head_def frame_time_def)
  have x: "sf = x" "x \<noteq> NULL" "chain (cl_next (slotframe_list s)) (cl_next (slotframe_list s) x) xs" using Cons.prems(1) by auto
  have "best_inv (link s) (Q \<union> (\<lambda>l. (frame_time s asn x l, l)) ` set (ls x)) ?b"
    by (rule fold_active_inv [OF Cons.prems(2) nn])
  from Cons.IH [OF x(3) this] Cons.prems(3) obtain b' where
    b': "active_frames_loop s asn (cl_next (slotframe_list s) x) ?b = Some b'"
    "best_inv (link s) (Q \<union> (\<lambda>l. (frame_time s asn x l, l)) ` set (ls x) \<union>
      {(frame_time s asn sf l, l) | sf l. sf \<in> set xs \<and> l \<in> set (ls sf)}) b'" by auto
  have "Q \<union> (\<lambda>l. (frame_time s asn x l, l)) ` set (ls x) \<union> {(frame_time s asn sf l, l) | sf l. sf \<in> set xs \<and> l \<in> set (ls sf)} =
    Q \<union> {(frame_time s asn sf l, l) | sf l. sf \<in> set (x # xs) \<and> l \<in> set (ls sf)}" by auto
  then show ?case using b' l x
    by (simp add: active_frames_loop.simps [of s asn x] list_item_next_def)
qed

lemma mod_next_at:
  fixes a v ts :: int
  assumes "0 < v" and "0 \<le> ts" and "ts < v"
  defines "off \<equiv> if ts > a mod v then ts - a mod v else v + ts - a mod v"
  shows "0 < off" and "off \<le> v" and "(a + off) mod v = ts" and "0 < k \<Longrightarrow> k < off \<Longrightarrow> (a + k) mod v \<noteq> ts"
proof -
  define r where "r = a mod v"
  have r: "0 \<le> r" "r < v" using assms(1) by (simp_all add: r_def)
  show "0 < off" "off \<le> v" using r assms(2,3) by (simp_all add: off_def r_def [symmetric])
  have e: "(a + k) mod v = (r + k) mod v" for k by (simp add: r_def mod_add_left_eq)
  have w: "(r + k) mod v = (if r + k < v then r + k else r + k - v)" if "0 \<le> k" "k \<le> v" for k
    using that r by (auto simp: mod_pos_pos_trivial) (metis diff_ge_0_iff_ge diff_less_eq add_less_le_mono linorder_not_less minus_mod_self2 mod_pos_pos_trivial)
  show "(a + off) mod v = ts"
    unfolding e using w [of off] \<open>0 < off\<close> \<open>off \<le> v\<close> r assms(2,3) by (auto simp: off_def r_def [symmetric] split: if_splits)
  show "(a + k) mod v \<noteq> ts" if "0 < k" "k < off"
    unfolding e using that w [of k] \<open>off \<le> v\<close> r assms(2,3) by (auto simp: off_def r_def [symmetric] split: if_splits)
qed

lemma uint_frame_time:
  assumes "v \<noteq> 0" and "fr_size (frame s sf) = TSCH_ASN_DIVISOR_INIT v" and "tl_timeslot (link s l) < v"
  shows "uint (frame_time s asn sf l) =
    (let r = asn_val asn mod uint v; ts = uint (tl_timeslot (link s l)) in if ts > r then ts - r else uint v + ts - r)"
proof -
  define r where "r = asn_val asn mod uint v"
  define ts where "ts = uint (tl_timeslot (link s l))"
  have v: "0 < uint v" "uint v < 65536" using assms(1) uint_16_bounds [of v] unsigned_eq_0_iff [of v] by (auto simp: order_less_le)
  have r: "0 \<le> r" "r < uint v" using v by (simp_all add: r_def)
  have t: "0 \<le> ts" "ts < uint v" using assms(3) by (simp_all add: ts_def word_less_alt)
  have m: "TSCH_ASN_MOD asn (fr_size (frame s sf)) = r" by (simp add: assms(2) asn_mod_correct [OF assms(1)] r_def)
  have ur: "uint (of_int r :: u16) = r" using r v by (intro cast16_small) linarith+
  have d: "dv_val (TSCH_ASN_DIVISOR_INIT v) = v" by (simp add: TSCH_ASN_DIVISOR_INIT_def)
  have p: "p mod 65536 = p" if "0 \<le> p" "p < 65536" for p :: int using that by (rule mod_pos_pos_trivial)
  show ?thesis
  proof (cases "r < ts")
    case True
    then have "uint (tl_timeslot (link s l) - of_int r) = (ts - r) mod 65536"
      unfolding uint_word_ariths(2) ur ts_def by simp
    also have "\<dots> = ts - r" using True r t v by (intro p) linarith+
    finally show ?thesis using True
      by (simp add: frame_time_def time_to_timeslot_def m word_less_alt ur ts_def [symmetric] r_def [symmetric])
  next
    case False
    have "uint (v + tl_timeslot (link s l) - of_int r) = ((uint v + ts) mod 65536 - r) mod 65536"
      unfolding uint_word_ariths(1,2) ur ts_def by simp
    also have "\<dots> = (uint v + ts - r) mod 65536" by (simp add: mod_diff_left_eq)
    also have "\<dots> = uint v + ts - r"
    proof (cases "uint v + ts - r = 65536")
      case True then show ?thesis using False v by linarith
    qed (use False r t v in \<open>intro p; linarith\<close>)
    finally show ?thesis using False
      by (simp add: frame_time_def time_to_timeslot_def m [unfolded assms(2)] d assms(2) word_less_alt ur ts_def [symmetric] r_def [symmetric])
  qed
qed

lemma frame_time_next:
  assumes "frames_ok s xs ls" and "sf \<in> set xs" and "l \<in> set (ls sf)"
  shows "0 < uint (frame_time s asn sf l)" and "link_active s sf l (asn_val asn + uint (frame_time s asn sf l))"
    and "0 < k \<Longrightarrow> k < uint (frame_time s asn sf l) \<Longrightarrow> \<not> link_active s sf l (asn_val asn + k)"
proof -
  obtain v where v: "v \<noteq> 0" "fr_size (frame s sf) = TSCH_ASN_DIVISOR_INIT v" "tl_timeslot (link s l) < v"
    using assms by (auto simp: frames_ok_def)
  have d: "dv_val (fr_size (frame s sf)) = v" by (simp add: v(2) TSCH_ASN_DIVISOR_INIT_def)
  have b: "0 < uint v" "0 \<le> uint (tl_timeslot (link s l))" "uint (tl_timeslot (link s l)) < uint v"
    using uint_pos [OF v(1)] v(3) by (simp_all add: word_less_alt)
  note t = uint_frame_time [OF v, unfolded Let_def, of asn]
  show "0 < uint (frame_time s asn sf l)" using mod_next_at(1) [OF b] unfolding t .
  show "link_active s sf l (asn_val asn + uint (frame_time s asn sf l))"
    using mod_next_at(3) [OF b] unfolding link_active_def d t .
  show "\<not> link_active s sf l (asn_val asn + k)" if "0 < k" "k < uint (frame_time s asn sf l)"
    using mod_next_at(4) [OF b that(1)] that(2) unfolding link_active_def d t by simp
qed

text \<open>
  C6: The chosen link is active at the slot that is announced, no link of any slotframe is active in a slot before,
  and among the links active in that slot it is first in the order of the standard: a Tx link if there is one, and
  of the lowest slotframe handle. A backup link is given whenever a link other than the chosen one is active in that slot and can
  receive; the one that is given is active in the slot and can receive, but it may be the chosen link itself. Without any link the result is null.
\<close>

theorem next_active_link_is_earliest:
  assumes "frames_ok s xs ls" and "\<not> tq_locked (sq s)"
  shows "((\<forall>sf \<in> set xs. ls sf = []) \<longrightarrow> tsch_schedule_get_next_active_link asn s = Some (NULL, Some 0, NULL)) \<and>
    ((\<exists>sf \<in> set xs. ls sf \<noteq> []) \<longrightarrow> (\<exists>l t bk. tsch_schedule_get_next_active_link asn s = Some (l, Some t, bk) \<and> 0 < t \<and>
      (\<exists>sf \<in> set xs. l \<in> set (ls sf) \<and> link_active s sf l (asn_val asn + uint t)) \<and>
      (\<forall>sf \<in> set xs. \<forall>l' \<in> set (ls sf). \<forall>k. 0 < k \<and> k < uint t \<longrightarrow> \<not> link_active s sf l' (asn_val asn + k)) \<and>
      (\<forall>sf \<in> set xs. \<forall>l' \<in> set (ls sf). link_active s sf l' (asn_val asn + uint t) \<longrightarrow> goes_before (link s) l l') \<and>
      (bk \<noteq> NULL \<longrightarrow> has_rx (link s) bk \<and>
        (\<exists>sf \<in> set xs. bk \<in> set (ls sf) \<and> link_active s sf bk (asn_val asn + uint t))) \<and>
      (\<forall>sf \<in> set xs. \<forall>l' \<in> set (ls sf). l' \<noteq> l \<and> has_rx (link s) l' \<and> link_active s sf l' (asn_val asn + uint t) \<longrightarrow> bk \<noteq> NULL)))"
proof -
  let ?Q = "{(frame_time s asn sf l, l) | sf l. sf \<in> set xs \<and> l \<in> set (ls sf)}"
  have c: "chain (cl_next (slotframe_list s)) (list_head (slotframe_list s)) xs" "\<forall>sf \<in> set xs. is_clist (links_list s sf) (ls sf)"
    using assms(1) by (simp_all add: frames_ok_def is_clist_def list_head_def)
  have "best_inv (link s) {} (0, NULL, NULL)" by (simp add: best_inv_def)
  from active_frames_loop_inv [OF c(2,1) this, of asn] obtain t b bk where
    r: "active_frames_loop s asn (list_head (slotframe_list s)) (0, NULL, NULL) = Some (t, b, bk)" "best_inv (link s) ?Q (t, b, bk)"
    by auto
  have g: "tsch_schedule_get_next_active_link asn s = Some (b, Some t, bk)"
    using r(1) assms(2) by (simp add: tsch_schedule_get_next_active_link_def tsch_is_locked_def)
  note ft = frame_time_next [OF assms(1), where asn = asn]
  show ?thesis
  proof (cases "?Q = {}")
    case True
    have "\<forall>sf \<in> set xs. ls sf = []"
    proof (intro ballI, rule ccontr)
      fix sf assume "sf \<in> set xs" "ls sf \<noteq> []"
      then have "(frame_time s asn sf (hd (ls sf)), hd (ls sf)) \<in> ?Q" using hd_in_set by blast
      then show False using True by blast
    qed
    moreover have "t = 0" "b = NULL" "bk = NULL" using r(2) unfolding True by (simp_all add: best_inv_def)
    ultimately show ?thesis using g by auto
  next
    case False
    then have q: "(t, b) \<in> ?Q" "\<And>t' l'. (t', l') \<in> ?Q \<Longrightarrow> t \<le> t' \<and> (t' = t \<longrightarrow> goes_before (link s) b l')"
      "bk \<noteq> NULL \<Longrightarrow> (t, bk) \<in> ?Q \<and> has_rx (link s) bk"
      "\<And>x. (t, x) \<in> ?Q \<Longrightarrow> x \<noteq> b \<Longrightarrow> x \<noteq> NULL \<Longrightarrow> has_rx (link s) x \<Longrightarrow> bk \<noteq> NULL"
      using r(2) by (auto simp: best_inv_def)
    obtain sf where sf: "sf \<in> set xs" "b \<in> set (ls sf)" "t = frame_time s asn sf b" using q(1) by blast
    have le: "t \<le> frame_time s asn sf' l'" "frame_time s asn sf' l' = t \<Longrightarrow> goes_before (link s) b l'"
      if "sf' \<in> set xs" "l' \<in> set (ls sf')" for sf' l' using q(2) that by blast+
    have pos: "0 < uint t" using ft(1) [OF sf(1,2)] sf(3) by simp
    have early: "\<not> link_active s sf' l' (asn_val asn + k)" if "sf' \<in> set xs" "l' \<in> set (ls sf')" "0 < k" "k < uint t" for sf' l' k
    proof -
      have "uint t \<le> uint (frame_time s asn sf' l')" using le(1) [OF that(1,2)] by (simp add: word_le_def)
      then show ?thesis using ft(3) [OF that(1,2,3)] that(4) by simp
    qed
    have slot: "frame_time s asn sf' l' = t" if "sf' \<in> set xs" "l' \<in> set (ls sf')" "link_active s sf' l' (asn_val asn + uint t)" for sf' l'
    proof -
      have "\<not> uint t < uint (frame_time s asn sf' l')" using ft(3) [OF that(1,2) pos] that(3) by blast
      then show ?thesis using le(1) [OF that(1,2)] by (simp add: word_less_alt [symmetric] order_antisym)
    qed
    have now: "goes_before (link s) b l'" if "sf' \<in> set xs" "l' \<in> set (ls sf')" "link_active s sf' l' (asn_val asn + uint t)" for sf' l'
      using le(2) [OF that(1,2) slot [OF that]] .
    have some: "bk \<noteq> NULL" if l': "sf' \<in> set xs" "l' \<in> set (ls sf')" "l' \<noteq> b" "has_rx (link s) l'" "link_active s sf' l' (asn_val asn + uint t)" for sf' l'
    proof (rule q(4) [OF _ l'(3) _ l'(4)])
      show "(t, l') \<in> ?Q" using slot [OF l'(1,2,5)] l'(1,2) by blast
      show "l' \<noteq> NULL" using is_clist_nonnull [OF c(2) [rule_format, OF l'(1)]] l'(2) by metis
    qed
    have "\<exists>sf \<in> set xs. bk \<in> set (ls sf) \<and> link_active s sf bk (asn_val asn + uint t)" if "bk \<noteq> NULL"
      using q(3) [OF that] ft(2) by blast
    moreover have "link_active s sf b (asn_val asn + uint t)" using ft(2) [OF sf(1,2)] sf(3) by simp
    moreover have "0 < t" using pos by (simp add: word_less_alt)
    moreover have "ls sf \<noteq> []" using sf(2) by auto
    ultimately show ?thesis using g sf(1,2) early now some q(3) by blast
  qed
qed

text \<open>
  When a second link falls into the slot of the chosen one and does not replace it, a chosen link that can
  receive is made its own backup, and the second link is not used although it can receive as well.
\<close>

theorem backup_link_is_best:
  assumes "b \<noteq> NULL" and "has_rx lk b" and "goes_before lk b l" and "b \<noteq> l"
  shows "active_step lk t l (t, b, NULL) = (t, b, b)"
  using assms
  by (auto simp: active_step_def Let_def tx_eq has_tx_def [symmetric] has_rx_def [symmetric] goes_before_def not_less)

subsection \<open>The invariant of the schedule\<close>

definition tlink_ok :: "'w sched \<Rightarrow> ptr \<Rightarrow> ptr \<Rightarrow> bool" where
  "tlink_ok s sf l \<longleftrightarrow> tl_slotframe_handle (link s l) = fr_handle (frame s sf) \<and> length (tl_addr (link s l)) = LINKADDR_SIZE \<and>
     tl_timeslot (link s l) < dv_val (fr_size (frame s sf))"

text \<open>
  \<open>xs\<close> are the slotframes, \<open>ls\<close> their links and \<open>qs\<close> the neighbours. Blocks in use belong to one slotframe, a
  slotframe has one link per timeslot, and a link carries the handle of its slotframe.
\<close>

definition frame_ok :: "'w sched \<Rightarrow> (ptr \<Rightarrow> ptr list) \<Rightarrow> ptr \<Rightarrow> bool" where
  "frame_ok s ls sf \<longleftrightarrow> is_clist (links_list s sf) (ls sf) \<and> (\<exists>v. v \<noteq> 0 \<and> fr_size (frame s sf) = TSCH_ASN_DIVISOR_INIT v) \<and>
     (\<forall>l \<in> set (ls sf). tlink_ok s sf l) \<and> set (ls sf) \<subseteq> memb_used (link_memb s) \<and>
     distinct (map (\<lambda>l. tl_timeslot (link s l)) (ls sf))"

definition sched_ok :: "'w sched \<Rightarrow> ptr list \<Rightarrow> (ptr \<Rightarrow> ptr list) \<Rightarrow> ptr list \<Rightarrow> bool" where
  "sched_ok s xs ls qs \<longleftrightarrow> tq_ok (sq s) qs \<and> is_clist (slotframe_list s) xs \<and> memb_ok (link_memb s) \<and> memb_ok (slotframe_memb s) \<and>
     set xs \<subseteq> memb_used (slotframe_memb s) \<and> (\<forall>sf \<in> set xs. frame_ok s ls sf) \<and>
     (\<forall>sf \<in> set xs. \<forall>sf' \<in> set xs. sf \<noteq> sf' \<longrightarrow> set (ls sf) \<inter> set (ls sf') = {}) \<and>
     distinct (map (\<lambda>sf. fr_handle (frame s sf)) xs)"

lemma sched_ok_frames: "sched_ok s xs ls qs \<Longrightarrow> frames_ok s xs ls"
  by (fastforce simp: sched_ok_def frames_ok_def frame_ok_def tlink_ok_def TSCH_ASN_DIVISOR_INIT_def)

lemma chain_cong: "(\<And>p. p \<in> set xs \<Longrightarrow> nx p = nx' p) \<Longrightarrow> chain nx p xs = chain nx' p xs"
  by (induction xs arbitrary: p) auto

lemma sched_ok_relink:
  assumes ok: "sched_ok s xs ls qs" and sf: "sf \<in> set xs" and c: "is_clist c ks"
    and out: "\<And>p. p \<notin> set (ls sf) \<Longrightarrow> p \<notin> X \<Longrightarrow> cl_next c p = link_next s p"
    and fresh: "X \<inter> memb_used (link_memb s) = {}" and ks: "set ks \<subseteq> set (ls sf) \<union> X"
    and s': "frame s' = (frame s)(sf := (frame s sf)\<lparr>fr_links := cl_head c\<rparr>)" "link_next s' = cl_next c"
      "slotframe_list s' = slotframe_list s" "slotframe_memb s' = slotframe_memb s" "memb_ok (link_memb s')" "tq_ok (sq s') qs'"
    and links: "\<And>x. x \<notin> X \<Longrightarrow> link s' x = link s x"
    and used: "memb_used (link_memb s) - set (ls sf) \<union> set ks \<subseteq> memb_used (link_memb s')"
    and new: "\<And>l. l \<in> set ks \<Longrightarrow> tlink_ok s' sf l" "distinct (map (\<lambda>l. tl_timeslot (link s' l)) ks)"
  shows "sched_ok s' xs (ls(sf := ks)) qs'"
proof -
  have fo: "frame_ok s ls x" if "x \<in> set xs" for x using ok that by (simp add: sched_ok_def)
  have dj: "set (ls x) \<inter> set (ls y) = {}" if "x \<in> set xs" "y \<in> set xs" "x \<noteq> y" for x y
    using ok that by (simp add: sched_ok_def)
  have u: "set (ls x) \<inter> X = {}" if "x \<in> set xs" for x
    using fo [OF that] fresh by (auto simp: frame_ok_def)
  have "frame_ok s' (ls(sf := ks)) sf"
    using c s'(1,2) used new fo [OF sf] by (auto simp: frame_ok_def links_list_def is_clist_def)
  moreover have "frame_ok s' (ls(sf := ks)) x" if x: "x \<in> set xs" "x \<noteq> sf" for x
  proof -
    have same: "p \<in> set (ls x) \<Longrightarrow> link_next s' p = link_next s p" "p \<in> set (ls x) \<Longrightarrow> link s' p = link s p" for p
      using out [of p] links [of p] dj [OF x(1) sf x(2)] u [OF x(1)] s'(2) by auto
    have fr: "frame s' x = frame s x" using s'(1) x(2) by simp
    have "is_clist (links_list s' x) (ls x)"
      using fo [OF x(1)] chain_cong [of "ls x" "link_next s'" "link_next s"] same(1)
      by (simp add: frame_ok_def links_list_def is_clist_def fr)
    moreover have "distinct (map (\<lambda>l. tl_timeslot (link s' l)) (ls x))"
      using fo [OF x(1)] same(2) by (simp add: frame_ok_def cong: map_cong)
    ultimately show ?thesis
      using fo [OF x(1)] same(2) dj [OF x(1) sf x(2)] used x(2)
      by (auto simp: frame_ok_def tlink_ok_def fr)
  qed
  moreover have e: "fr_handle (frame s' x) = fr_handle (frame s x)" for x by (simp add: s'(1))
  then have "distinct (map (\<lambda>x. fr_handle (frame s' x)) xs)" using ok by (simp add: sched_ok_def)
  moreover have "set ((ls(sf := ks)) x) \<inter> set ((ls(sf := ks)) y) = {}" if "x \<in> set xs" "y \<in> set xs" "x \<noteq> y" for x y
    using dj [OF that] dj [OF sf, of x] dj [OF sf, of y] u [OF that(1)] u [OF that(2)] ks that by auto
  ultimately show ?thesis using ok s'(3-6) unfolding sched_ok_def by (metis (no_types, lifting))
qed

text \<open>What counting a link does: the counter of the neighbour of that address changes, other neighbours keep theirs.\<close>

definition links_of :: "'w tschq \<Rightarrow> ptr list \<Rightarrow> linkaddr \<Rightarrow> u8" where
  "links_of q qs a = (case find (\<lambda>n. nb_addr (nbr q n) = a) qs of None \<Rightarrow> 0 | Some n \<Rightarrow> tx_links_count (nbr q n))"

lemma count_links_ok:
  assumes ok: "tq_ok q qs" and len: "length addr = LINKADDR_SIZE"
  shows "\<exists>q' qs'. count_links opts addr d q = Some q' \<and> tq_ok q' qs'"
proof -
  obtain n q1 ys where a: "tsch_queue_add_nbr addr q = Some (n, q1)" "tq_ok q1 ys"
    using add_nbr_correct [OF ok len] by blast
  have "tq_ok (upd_nbr n (\<lambda>nb. nb\<lparr>tx_links_count := tx_links_count nb + d\<rparr>) q1) ys"
    by (rule iffD2 [OF tq_ok_cong a(2)]) auto
  moreover have "tq_ok (upd_nbr n (\<lambda>nb. nb\<lparr>dedicated_tx_links_count := dedicated_tx_links_count nb + d\<rparr>)
     (upd_nbr n (\<lambda>nb. nb\<lparr>tx_links_count := tx_links_count nb + d\<rparr>) q1)) ys"
    by (rule iffD2 [OF tq_ok_cong a(2)]) auto
  ultimately show ?thesis using a ok unfolding count_links_def Let_def
    by (cases "n = NULL"; cases "opts AND LINK_OPTION_SHARED = 0"; cases "opts AND LINK_OPTION_TX = 0") (simp; blast)+
qed

lemma remove_link_correct:
  assumes ok: "sched_ok s xs ls qs" and sf: "sf \<in> set xs" and l: "l \<in> set (ls sf)"
  shows "\<exists>s' qs'. tsch_schedule_remove_link sf l s = Some (1, s') \<and> sched_ok s' xs (ls(sf := remove1 l (ls sf))) qs' \<and>
    memb_used (link_memb s') = memb_used (link_memb s) - {l} \<and> slotframe_memb s' = slotframe_memb s \<and> link s' = link s \<and>
    slotframe_list s' = slotframe_list s \<and> (\<forall>x. fr_handle (frame s' x) = fr_handle (frame s x) \<and> fr_size (frame s' x) = fr_size (frame s x)) \<and>
    current_link s' = (if l = current_link s then NULL else current_link s) \<and>
    count_links (tl_link_options (link s l)) (tl_addr (link s l)) (-1) (sq s) = Some (sq s')"
proof -
  have fo: "frame_ok s ls sf" using ok sf by (simp add: sched_ok_def)
  then have c: "is_clist (links_list s sf) (ls sf)" and lk: "tlink_ok s sf l" using l by (simp_all add: frame_ok_def)
  have nn: "sf \<noteq> NULL" "l \<noteq> NULL" using is_clist_nonnull [OF c l] ok sf is_clist_nonnull [of "slotframe_list s" xs sf]
    by (auto simp: sched_ok_def)
  obtain c' where c': "list_remove (links_list s sf) l = Some c'" "is_clist c' (remove1 l (ls sf))"
    "\<forall>p. p \<notin> set (ls sf) \<longrightarrow> cl_next c' p = link_next s p"
    using list_remove_correct [OF c, of l] by (auto simp: links_list_def)
  have tq: "tq_ok (sq s) qs" "\<not> tq_locked (sq s)" using ok by (simp_all add: sched_ok_def tq_ok_def)
  have mok: "memb_ok (link_memb s)" using ok by (simp add: sched_ok_def)
  obtain q' qs' where q': "count_links (tl_link_options (link s l)) (tl_addr (link s l)) (-1) (sq s) = Some q'" "tq_ok q' qs'"
    using count_links_ok [OF tq(1), of "tl_addr (link s l)"] lk unfolding tlink_ok_def by blast
  have rel: "tsch_release_lock (sq s\<lparr>tq_locked := True\<rparr>) = sq s" using tq(2) by (simp add: tsch_release_lock_def)
  let ?s = "set_links sf c' s\<lparr>sq := q', current_link := (if l = current_link s then NULL else current_link s),
    link_memb := snd (memb_free (link_memb s) l)\<rparr>"
  have e: "tsch_schedule_remove_link sf l s = Some (1, ?s)"
    using nn lk tq(2) c'(1) q'(1) rel
    by (cases "l = current_link s") (simp_all add: tsch_schedule_remove_link_def tlink_ok_def tsch_get_lock_def set_links_def)
  have used: "memb_used (link_memb ?s) = memb_used (link_memb s) - {l}" using bp.free_used [OF mok] by (simp add: set_links_def)
  have d: "distinct (ls sf)" using is_clist_distinct [OF c] .
  have "sched_ok ?s xs (ls(sf := remove1 l (ls sf))) qs'"
  proof (rule sched_ok_relink [OF ok sf c'(2), where X = "{}"])
    show "distinct (map (\<lambda>l. tl_timeslot (link ?s l)) (remove1 l (ls sf)))"
      using fo d by (auto simp: frame_ok_def set_links_def distinct_map distinct_remove1 inj_on_def)
    show "\<And>la. la \<in> set (remove1 l (ls sf)) \<Longrightarrow> tlink_ok ?s sf la"
      using fo by (auto simp: frame_ok_def set_links_def tlink_ok_def dest: notin_set_remove1 set_remove1_subset [THEN subsetD])
    show "memb_used (link_memb s) - set (ls sf) \<union> set (remove1 l (ls sf)) \<subseteq> memb_used (link_memb ?s)"
      unfolding used using fo d l by (auto simp: frame_ok_def)
    show "set (remove1 l (ls sf)) \<subseteq> set (ls sf) \<union> {}" by (simp add: set_remove1_subset)
  qed (use c'(3) q'(2) bp.free_ok [OF mok] in \<open>simp_all add: set_links_def\<close>)
  then show ?thesis using e used q'(1) by (intro exI [of _ ?s] exI [of _ qs'] conjI) (simp_all add: set_links_def)
qed

lemma filter_unique_timeslot:
  "distinct (map f xs) \<Longrightarrow> find (\<lambda>x. f x = (t :: u16)) xs = Some l \<Longrightarrow> filter (\<lambda>x. f x \<noteq> t) xs = remove1 l xs \<and> l \<in> set xs \<and> f l = t"
proof (induction xs)
  case (Cons x xs)
  show ?case
  proof (cases "f x = t")
    case True
    then have "\<forall>y \<in> set xs. f y \<noteq> t" using Cons.prems(1) by (metis distinct.simps(2) imageI list.set_map list.simps(9))
    then have "filter (\<lambda>x. f x \<noteq> t) xs = xs" by (simp add: filter_id_conv)
    then show ?thesis using True Cons.prems(2) by simp
  next
    case False
    then show ?thesis using Cons by (auto split: if_splits)
  qed
qed simp

lemma remove_by_timeslot_correct:
  assumes ok: "sched_ok s xs ls qs" and sf: "sf \<in> set xs"
  shows "\<exists>r s' qs'. tsch_schedule_remove_link_by_timeslot sf ts s = Some (r, s') \<and>
    sched_ok s' xs (ls(sf := filter (\<lambda>l. tl_timeslot (link s l) \<noteq> ts) (ls sf))) qs' \<and> link s' = link s \<and>
    (\<forall>x. fr_handle (frame s' x) = fr_handle (frame s x) \<and> fr_size (frame s' x) = fr_size (frame s x)) \<and>
    (r = 1 \<longleftrightarrow> (\<exists>l \<in> set (ls sf). tl_timeslot (link s l) = ts))"
proof -
  have fo: "frame_ok s ls sf" using ok sf by (simp add: sched_ok_def)
  then have c: "is_clist (links_list s sf) (ls sf)" "distinct (map (\<lambda>l. tl_timeslot (link s l)) (ls sf))" by (simp_all add: frame_ok_def)
  have nn: "sf \<noteq> NULL" using ok sf is_clist_nonnull [of "slotframe_list s" xs sf] by (auto simp: sched_ok_def)
  have unl: "\<not> tq_locked (sq s)" using ok by (simp add: sched_ok_def tq_ok_def)
  have g: "tsch_schedule_get_link_by_timeslot sf ts s =
      Some (case find (\<lambda>l. tl_timeslot (link s l) = ts) (ls sf) of None \<Rightarrow> NULL | Some m \<Rightarrow> m)"
    using nn unl by (simp add: tsch_schedule_get_link_by_timeslot_def tsch_is_locked_def nbr_search_clist [OF c(1)])
  show ?thesis
  proof (cases "find (\<lambda>l. tl_timeslot (link s l) = ts) (ls sf)")
    case None
    then have "\<forall>l \<in> set (ls sf). tl_timeslot (link s l) \<noteq> ts" by (auto simp: find_None_iff)
    moreover from this have "ls(sf := filter (\<lambda>l. tl_timeslot (link s l) \<noteq> ts) (ls sf)) = ls" by (simp add: filter_id_conv)
    moreover have "tsch_schedule_remove_link_by_timeslot sf ts s = Some (0, s)"
      using nn g None by (simp add: tsch_schedule_remove_link_by_timeslot_def tsch_schedule_remove_link_def)
    ultimately show ?thesis using ok by auto
  next
    case (Some l)
    note f = filter_unique_timeslot [OF c(2) Some]
    obtain s' qs' where r: "tsch_schedule_remove_link sf l s = Some (1, s')" "sched_ok s' xs (ls(sf := remove1 l (ls sf))) qs'" "link s' = link s"
      "\<forall>x. fr_handle (frame s' x) = fr_handle (frame s x) \<and> fr_size (frame s' x) = fr_size (frame s x)"
      using remove_link_correct [OF ok sf] f by blast
    have "tsch_schedule_remove_link_by_timeslot sf ts s = Some (1, s')"
      using nn g Some r(1) by (simp add: tsch_schedule_remove_link_by_timeslot_def)
    then show ?thesis using r f by (intro exI [of _ 1] exI [of _ s'] exI [of _ qs']) auto
  qed
qed

lemma add_link_correct:
  assumes ok: "sched_ok s xs ls qs" and sf: "sf \<in> set xs" and ts: "timeslot < dv_val (fr_size (frame s sf))"
    and len: "length addr = LINKADDR_SIZE" and na: "\<forall>l. length (tl_addr (link s l)) = LINKADDR_SIZE"
  defines "ks \<equiv> filter (\<lambda>l. tl_timeslot (link s l) \<noteq> timeslot) (ls sf)"
  shows "\<exists>l s' qs'. tsch_schedule_add_link sf opts ty (Some addr) timeslot ch s = Some (l, s') \<and>
    sched_ok s' xs (ls(sf := if l = NULL then ks else ks @ [l])) qs' \<and>
    (\<forall>x. x \<noteq> l \<longrightarrow> link s' x = link s x) \<and>
    (l \<noteq> NULL \<longrightarrow> tl_timeslot (link s' l) = timeslot \<and> tl_addr (link s' l) = addr \<and> tl_link_options (link s' l) = opts \<and>
       tl_link_type (link s' l) = ty \<and> tl_channel_offset (link s' l) = ch)"
proof -
  obtain r s1 qs1 where r: "tsch_schedule_remove_link_by_timeslot sf timeslot s = Some (r, s1)" "sched_ok s1 xs (ls(sf := ks)) qs1"
    "link s1 = link s" "\<And>x. fr_handle (frame s1 x) = fr_handle (frame s x)" "\<And>x. fr_size (frame s1 x) = fr_size (frame s x)"
    using remove_by_timeslot_correct [OF ok sf, of timeslot] unfolding ks_def by blast
  have nn: "sf \<noteq> NULL" using ok sf is_clist_nonnull [of "slotframe_list s" xs sf] by (auto simp: sched_ok_def)
  have tq: "tq_ok (sq s1) qs1" "\<not> tq_locked (sq s1)" using r(2) by (simp_all add: sched_ok_def tq_ok_def)
  have rel: "tsch_release_lock (sq s1\<lparr>tq_locked := True\<rparr>) = sq s1" using tq(2) by (simp add: tsch_release_lock_def)
  have mok: "memb_ok (link_memb s1)" using r(2) by (simp add: sched_ok_def)
  obtain l m where a: "memb_alloc (link_memb s1) = (l, m)" by fastforce
  have fo: "frame_ok s1 (ls(sf := ks)) sf" using r(2) sf by (simp add: sched_ok_def)
  show ?thesis
  proof (cases "l = NULL")
    case True
    then have m: "m = link_memb s1" using bp.alloc_fail [OF mok] a by simp
    have "tsch_schedule_add_link sf opts ty (Some addr) timeslot ch s = Some (NULL, s1)"
      using nn r(1) tq(2) a True m rel by (simp add: tsch_schedule_add_link_def tsch_get_lock_def)
    then show ?thesis using r(2,3) by (intro exI [of _ NULL] exI [of _ s1] exI [of _ qs1]) simp
  next
    case False
    have al: "l \<notin> memb_used (link_memb s1)" "memb_used m = insert l (memb_used (link_memb s1))" "memb_ok m"
      using bp.alloc_fresh [OF mok] bp.alloc_ok [OF mok] a False by auto
    have c: "is_clist (links_list s1 sf) ks" using fo by (simp add: frame_ok_def)
    have lk: "l \<notin> set ks" using al(1) fo by (auto simp: frame_ok_def)
    obtain c' where c': "list_add (links_list s1 sf) l = Some c'" "is_clist c' (ks @ [l])"
      "\<forall>p. p \<notin> insert l (set ks) \<longrightarrow> cl_next c' p = link_next s1 p"
      using list_add_correct [OF c False] lk by (auto simp: remove1_idem links_list_def)
    have ac: "linkaddr_copy (tl_addr (link s l)) addr = addr" using na len by (intro linkaddr_copy_eq) simp_all
    obtain q' qs' where q': "count_links opts addr 1 (sq s1) = Some q'" "tq_ok q' qs'"
      using count_links_ok [OF tq(1) len] by blast
    let ?lk = "(link s l)\<lparr>tl_handle := of_int (current_link_handle s1), tl_link_options := opts, tl_link_type := ty,
        tl_slotframe_handle := fr_handle (frame s sf), tl_timeslot := timeslot, tl_channel_offset := ch, tl_data := NULL, tl_addr := addr\<rparr>"
    let ?s = "set_links sf c' s1\<lparr>link_memb := m, link := (link s)(l := ?lk), current_link_handle := current_link_handle s1 + 1, sq := q'\<rparr>"
    have e: "tsch_schedule_add_link sf opts ty (Some addr) timeslot ch s = Some (l, ?s)"
      using nn r tq(2) a False c'(1) q'(1) rel ac
      by (simp add: tsch_schedule_add_link_def tsch_get_lock_def set_links_def Let_def)
    have "sched_ok ?s xs ((ls(sf := ks))(sf := ks @ [l])) qs'"
    proof (rule sched_ok_relink [OF r(2) sf c'(2), where X = "{l}"])
      show "distinct (map (\<lambda>l. tl_timeslot (link ?s l)) (ks @ [l]))"
      proof -
        have e: "map (\<lambda>l. tl_timeslot (link ?s l)) (ks @ [l]) = map (\<lambda>l. tl_timeslot (link s1 l)) ks @ [timeslot]" using lk r(3) by auto
        have "timeslot \<notin> set (map (\<lambda>l. tl_timeslot (link s1 l)) ks)" using r(3) by (auto simp: ks_def)
        then show ?thesis unfolding e using fo by (simp add: frame_ok_def)
      qed
      show "tlink_ok ?s sf x" if "x \<in> set (ks @ [l])" for x
      proof (cases "x = l")
        case True
        then show ?thesis using ts len r(4,5) by (simp add: tlink_ok_def set_links_def)
      next
        case False
        then have "tlink_ok s1 sf x" using that fo by (simp add: frame_ok_def)
        then show ?thesis using False r(3) by (simp add: tlink_ok_def set_links_def)
      qed
      show "{l} \<inter> memb_used (link_memb s1) = {}" using al(1) by simp
      show "memb_used (link_memb s1) - set ((ls(sf := ks)) sf) \<union> set (ks @ [l]) \<subseteq> memb_used (link_memb ?s)"
        using fo al(2) by (auto simp: frame_ok_def)
      show "\<And>p. p \<notin> set ((ls(sf := ks)) sf) \<Longrightarrow> p \<notin> {l} \<Longrightarrow> cl_next c' p = link_next s1 p" using c'(3) by simp
    qed (use q'(2) al(3) r(3) in \<open>simp_all add: set_links_def\<close>)
    then show ?thesis using e False by (intro exI [of _ l] exI [of _ ?s] exI [of _ qs']) simp
  qed
qed

lemma remove_links_loop_correct:
  "sched_ok s xs ls qs \<Longrightarrow> sf \<in> set xs \<Longrightarrow> ls sf = ks \<Longrightarrow>
    \<exists>s' qs'. remove_links_loop sf s = Some s' \<and> sched_ok s' xs (ls(sf := [])) qs' \<and>
      memb_used (link_memb s') = memb_used (link_memb s) - set ks \<and> slotframe_memb s' = slotframe_memb s"
proof (induction ks arbitrary: s ls qs)
  case Nil
  then have "list_head (links_list s sf) = NULL" by (auto simp: sched_ok_def frame_ok_def is_clist_def list_head_def)
  moreover have "ls(sf := []) = ls" using Nil.prems(3) by auto
  ultimately show ?case using Nil.prems(1) by (auto simp: remove_links_loop.simps [of sf s])
next
  case (Cons l ks)
  have "is_clist (links_list s sf) (l # ks)" using Cons.prems by (auto simp: sched_ok_def frame_ok_def)
  then have h: "list_head (links_list s sf) = l" "l \<noteq> NULL" by (simp_all add: is_clist_def list_head_def)
  have "l \<in> set (ls sf)" using Cons.prems(3) by simp
  from remove_link_correct [OF Cons.prems(1,2) this] obtain s1 qs1 where
    s1: "tsch_schedule_remove_link sf l s = Some (1, s1)" "sched_ok s1 xs (ls(sf := ks)) qs1"
      "memb_used (link_memb s1) = memb_used (link_memb s) - {l}" "slotframe_memb s1 = slotframe_memb s"
    using Cons.prems(3) by auto
  have "(ls(sf := ks)) sf = ks" by simp
  from Cons.IH [OF s1(2) Cons.prems(2) this, unfolded fun_upd_upd] obtain s' qs' where
    s': "remove_links_loop sf s1 = Some s'" "sched_ok s' xs (ls(sf := [])) qs'"
      "memb_used (link_memb s') = memb_used (link_memb s1) - set ks" "slotframe_memb s' = slotframe_memb s1" by blast
  have "remove_links_loop sf s = Some s'" using h s1(1) s'(1) by (simp add: remove_links_loop.simps [of sf s])
  then show ?case using s'(2-4) s1(3,4) by (intro exI [of _ s'] exI [of _ qs'] conjI) (assumption | auto)+
qed

lemma remove_slotframe_correct:
  assumes ok: "sched_ok s xs ls qs" and sf: "sf \<in> set xs"
  shows "\<exists>s' qs'. tsch_schedule_remove_slotframe sf s = Some (1, s') \<and> sched_ok s' (remove1 sf xs) (ls(sf := [])) qs' \<and>
    memb_used (link_memb s') = memb_used (link_memb s) - set (ls sf) \<and>
    memb_used (slotframe_memb s') = memb_used (slotframe_memb s) - {sf}"
proof -
  from remove_links_loop_correct [OF ok sf refl] obtain s1 qs1 where
    s1: "remove_links_loop sf s = Some s1" "sched_ok s1 xs (ls(sf := [])) qs1"
      "memb_used (link_memb s1) = memb_used (link_memb s) - set (ls sf)" "slotframe_memb s1 = slotframe_memb s" by blast
  have c: "is_clist (slotframe_list s1) xs" and m: "memb_ok (slotframe_memb s1)" and unl: "\<not> tq_locked (sq s1)"
    using s1(2) by (simp_all add: sched_ok_def tq_ok_def)
  have nn: "sf \<noteq> NULL" using is_clist_nonnull [OF c sf] .
  obtain c' where c': "list_remove (slotframe_list s1) sf = Some c'" "is_clist c' (remove1 sf xs)"
    using list_remove_correct [OF c, of sf] by blast
  let ?s = "s1\<lparr>slotframe_memb := snd (memb_free (slotframe_memb s1) sf), slotframe_list := c'\<rparr>"
  have "tsch_release_lock (sq s1\<lparr>tq_locked := True\<rparr>) = sq s1" using unl by (simp add: tsch_release_lock_def)
  then have e: "tsch_schedule_remove_slotframe sf s = Some (1, ?s)"
    using nn s1(1) unl c'(1) by (simp add: tsch_schedule_remove_slotframe_def tsch_get_lock_def)
  have d: "distinct xs" using is_clist_distinct [OF c] .
  have used: "memb_used (slotframe_memb ?s) = memb_used (slotframe_memb s) - {sf}" using bp.free_used [OF m] s1(4) by simp
  have "sched_ok ?s (remove1 sf xs) (ls(sf := [])) qs1"
  proof -
    have fr: "frame_ok ?s (ls(sf := [])) x" if "x \<in> set xs" for x
      using s1(2) that by (simp add: sched_ok_def frame_ok_def links_list_def tlink_ok_def)
    have "distinct (map (\<lambda>x. fr_handle (frame s1 x)) (remove1 sf xs))"
      using s1(2) d by (auto simp: sched_ok_def distinct_map distinct_remove1 inj_on_def)
    moreover have "set (remove1 sf xs) = set xs - {sf}" using d by simp
    moreover have dj: "\<forall>a \<in> set (remove1 sf xs). \<forall>b \<in> set (remove1 sf xs). a \<noteq> b \<longrightarrow> set ((ls(sf := [])) a) \<inter> set ((ls(sf := [])) b) = {}"
      using s1(2) set_remove1_subset [of sf xs] unfolding sched_ok_def by blast
    moreover have "set (remove1 sf xs) \<subseteq> memb_used (slotframe_memb ?s)"
      unfolding used using calculation(2) s1(2,4) by (auto simp: sched_ok_def)
    moreover have "\<forall>x \<in> set (remove1 sf xs). frame_ok ?s (ls(sf := [])) x" using fr set_remove1_subset [of sf xs] by blast
    ultimately show ?thesis
      unfolding sched_ok_def by (intro conjI) (use s1(2) c'(2) bp.free_ok [OF m] in \<open>simp_all add: sched_ok_def\<close>)
  qed
  then show ?thesis using e used s1(3) by (intro exI [of _ ?s] exI [of _ qs1]) simp
qed

lemma remove_all_correct:
  "sched_ok s xs ls qs \<Longrightarrow> \<exists>s' ls' qs'. tsch_schedule_remove_all_slotframes s = Some (1, s') \<and> sched_ok s' [] ls' qs' \<and>
    memb_used (link_memb s') = memb_used (link_memb s) - \<Union> (set ` ls ` set xs) \<and>
    memb_used (slotframe_memb s') = memb_used (slotframe_memb s) - set xs"
proof (induction xs arbitrary: s ls qs)
  case Nil
  then have "list_head (slotframe_list s) = NULL" by (simp add: sched_ok_def is_clist_def list_head_def)
  then have "tsch_schedule_remove_all_slotframes s = Some (1, s)" by (simp add: tsch_schedule_remove_all_slotframes.simps [of s])
  then show ?case using Nil by (intro exI [of _ s] exI [of _ ls] exI [of _ qs]) simp
next
  case (Cons x xs)
  have "is_clist (slotframe_list s) (x # xs)" using Cons.prems by (simp add: sched_ok_def)
  then have h: "list_head (slotframe_list s) = x" "x \<noteq> NULL" "x \<notin> set xs"
    using is_clist_distinct [of "slotframe_list s" "x # xs"] by (simp_all add: is_clist_def list_head_def)
  have m: "x \<in> set (x # xs)" and rx: "remove1 x (x # xs) = xs" by simp_all
  obtain s1 qs1 where s1: "tsch_schedule_remove_slotframe x s = Some (1, s1)" "sched_ok s1 xs (ls(x := [])) qs1"
    "memb_used (link_memb s1) = memb_used (link_memb s) - set (ls x)"
    "memb_used (slotframe_memb s1) = memb_used (slotframe_memb s) - {x}"
    using remove_slotframe_correct [OF Cons.prems m, unfolded rx] by (elim exE conjE) (rule that)
  from Cons.IH [OF s1(2)] obtain s' ls' qs' where
    s': "tsch_schedule_remove_all_slotframes s1 = Some (1, s')" "sched_ok s' [] ls' qs'"
      "memb_used (link_memb s') = memb_used (link_memb s1) - \<Union> (set ` (ls(x := [])) ` set xs)"
      "memb_used (slotframe_memb s') = memb_used (slotframe_memb s1) - set xs" by (elim exE conjE) (rule that)
  have i: "(ls(x := [])) ` set xs = ls ` set xs" using h(3) by auto
  have r: "tsch_schedule_remove_all_slotframes s = Some (1, s')"
    using h(1,2) s1(1) s'(1) by (simp add: tsch_schedule_remove_all_slotframes.simps [of s])
  have u: "memb_used (link_memb s') = memb_used (link_memb s) - \<Union> (set ` ls ` set (x # xs))"
    unfolding s'(3) s1(3) i list.set(2) image_insert Union_insert by blast
  have v: "memb_used (slotframe_memb s') = memb_used (slotframe_memb s) - set (x # xs)"
    unfolding s'(4) s1(4) list.set(2) by blast
  show ?case by (intro exI [of _ s'] exI [of _ ls'] exI [of _ qs'] conjI r s'(2) u v)
qed

lemma remove_links_loop_locked:
  assumes "remove_links_loop sf s = Some s'"
  shows "\<not> (tq_locked (sq s) \<and> list_head (links_list s sf) \<noteq> NULL)"
proof (rule remove_links_loop.raw_induct [where P = "\<lambda>sf s s'. \<not> (tq_locked (sq s) \<and> list_head (links_list s sf) \<noteq> NULL)", OF _ assms])
  fix loop sf and s s' :: "'a sched"
  assume IH: "\<And>sf s s'. loop sf s = Some s' \<Longrightarrow> \<not> (tq_locked (sq s) \<and> list_head (links_list s sf) \<noteq> NULL)"
    and eq: "(if list_head (links_list s sf) = NULL then Some s
      else Option.bind (tsch_schedule_remove_link sf (list_head (links_list s sf)) s) (\<lambda>(_, s). loop sf s)) = Some s'"
  show "\<not> (tq_locked (sq s) \<and> list_head (links_list s sf) \<noteq> NULL)"
  proof
    assume a: "tq_locked (sq s) \<and> list_head (links_list s sf) \<noteq> NULL"
    then have "tsch_schedule_remove_link sf (list_head (links_list s sf)) s = Some (0, s)"
      by (simp add: tsch_schedule_remove_link_def tsch_get_lock_def)
    then have "loop sf s = Some s'" using eq a by simp
    then show False using IH a by blast
  qed
qed

text \<open>
  C25: Adding a link replaces the one that uses its timeslot, so that a slotframe has at most one link per timeslot,
  and appends a link with the given fields; when the pool is empty it fails, the replaced link being gone. The
  invariant of the schedule is kept.
\<close>

theorem add_link_replaces_timeslot:
  assumes "sched_ok s xs ls qs" and "sf \<in> set xs" and "timeslot < dv_val (fr_size (frame s sf))"
    and "length addr = LINKADDR_SIZE" and "\<forall>l. length (tl_addr (link s l)) = LINKADDR_SIZE"
    and "ks = filter (\<lambda>l. tl_timeslot (link s l) \<noteq> timeslot) (ls sf)"
  shows "\<exists>l s' qs'. tsch_schedule_add_link sf opts ty (Some addr) timeslot ch s = Some (l, s') \<and>
    sched_ok s' xs (ls(sf := if l = NULL then ks else ks @ [l])) qs' \<and>
    (\<forall>x. x \<noteq> l \<longrightarrow> link s' x = link s x) \<and>
    (l \<noteq> NULL \<longrightarrow> tl_timeslot (link s' l) = timeslot \<and> tl_addr (link s' l) = addr \<and> tl_link_options (link s' l) = opts \<and>
       tl_link_type (link s' l) = ty \<and> tl_channel_offset (link s' l) = ch)"
  using add_link_correct [OF assms(1-5)] unfolding assms(6) .

text \<open>
  C26: Removing all slotframes returns with an empty schedule in which every link and slotframe is given back, when
  the lock is free; a slotframe that has links cannot be removed while the lock is held: the loop over its links
  does not return.
\<close>

theorem remove_slotframes_terminates_iff_unlocked:
  "(sched_ok s xs ls qs \<longrightarrow> (\<exists>s' ls' qs'. tsch_schedule_remove_all_slotframes s = Some (1, s') \<and> sched_ok s' [] ls' qs' \<and>
      memb_used (link_memb s') = memb_used (link_memb s) - \<Union> (set ` ls ` set xs) \<and>
      memb_used (slotframe_memb s') = memb_used (slotframe_memb s) - set xs)) \<and>
   (tq_locked (sq s) \<and> sf \<noteq> NULL \<and> list_head (links_list s sf) \<noteq> NULL \<longrightarrow> tsch_schedule_remove_slotframe sf s = None)"
proof -
  have "remove_links_loop sf s = None" if "tq_locked (sq s)" "list_head (links_list s sf) \<noteq> NULL"
    using remove_links_loop_locked [of sf s] that by (cases "remove_links_loop sf s") auto
  then show ?thesis using remove_all_correct by (auto simp: tsch_schedule_remove_slotframe_def)
qed

definition sample_link :: "u16 \<Rightarrow> u8 \<Rightarrow> tsch_link" where
  "sample_link ts opts = \<lparr>tl_handle = 0, tl_addr = [1, 2, 3, 4, 5, 6, 7, 8], tl_slotframe_handle = 0, tl_timeslot = ts,
     tl_channel_offset = 0, tl_link_options = opts, tl_link_type = LINK_TYPE_NORMAL, tl_data = 0\<rparr>"

definition sample_sched :: "nat sched" where
  "sample_sched = \<lparr>sq = sample_tq,
     link_memb = \<lparr>m_size = 32, m_num = 4, m_count = [1, 1, 0, 0], m_mem = 2000, m_data = []\<rparr>,
     slotframe_memb = \<lparr>m_size = 16, m_num = 2, m_count = [1, 0], m_mem = 3000, m_data = []\<rparr>,
     link = (\<lambda>l. if l = 2000 then sample_link 1 3 else sample_link 4 2),
     link_next = cl_next (clist_of [2000, 2032]),
     frame = (\<lambda>_. \<lparr>fr_handle = 0, fr_size = TSCH_ASN_DIVISOR_INIT 7, fr_links = 2000\<rparr>),
     slotframe_list = clist_of [3000], current_link = 0, current_link_handle = 2\<rparr>"

lemma sample_sched_links: "links_list sample_sched sf = clist_of [2000, 2032]"
  by (simp add: links_list_def sample_sched_def clist_of_def)

lemma sample_sched_pools:
  "memb_ok (link_memb sample_sched)" "memb_ok (slotframe_memb sample_sched)"
  "2000 \<in> memb_used (link_memb sample_sched)" "2032 \<in> memb_used (link_memb sample_sched)"
  "3000 \<in> memb_used (slotframe_memb sample_sched)"
proof -
  show ok: "memb_ok (link_memb sample_sched)" "memb_ok (slotframe_memb sample_sched)"
    by (simp_all add: sample_sched_def memb_ok_def)
  show "2000 \<in> memb_used (link_memb sample_sched)"
    using memb_used_block [OF ok(1), of 0] by (simp add: sample_sched_def block_addr_def)
  show "2032 \<in> memb_used (link_memb sample_sched)"
    using memb_used_block [OF ok(1), of 1] by (simp add: sample_sched_def block_addr_def)
  show "3000 \<in> memb_used (slotframe_memb sample_sched)"
    using memb_used_block [OF ok(2), of 0] by (simp add: sample_sched_def block_addr_def)
qed

lemma sample_sched_ok: "sched_ok sample_sched [3000] (\<lambda>_. [2000, 2032]) [1000, 1064]"
proof -
  have c: "is_clist (links_list sample_sched 3000) [2000, 2032]"
    unfolding sample_sched_links by (rule is_clist_clist_of) simp_all
  have l: "is_clist (slotframe_list sample_sched) [3000]"
    using is_clist_clist_of [of "[3000]"] by (simp add: sample_sched_def)
  have "tlink_ok sample_sched 3000 2000" "tlink_ok sample_sched 3000 2032"
    by (simp_all add: sample_sched_def tlink_ok_def sample_link_def LINKADDR_SIZE_def TSCH_ASN_DIVISOR_INIT_def)
  moreover have "tl_timeslot (link sample_sched 2000) \<noteq> tl_timeslot (link sample_sched 2032)"
    by (simp add: sample_sched_def sample_link_def)
  moreover have "fr_size (frame sample_sched 3000) = TSCH_ASN_DIVISOR_INIT 7" by (simp add: sample_sched_def)
  moreover have "(7 :: u16) \<noteq> 0" by simp
  ultimately have f: "frame_ok sample_sched (\<lambda>_. [2000, 2032]) 3000"
    using c sample_sched_pools(3,4) unfolding frame_ok_def by (intro conjI exI [of _ 7]) simp_all
  have "sq sample_sched = sample_tq" by (simp add: sample_sched_def)
  then show ?thesis using sample_tq_ok sample_sched_pools f l unfolding sched_ok_def by (intro conjI) simp_all
qed

lemma sample_sched_facts:
  "\<not> tq_locked (sq sample_sched)" "fr_size (frame sample_sched sf) = TSCH_ASN_DIVISOR_INIT 7"
  "link sample_sched 2000 = sample_link 1 3" "link sample_sched 2032 = sample_link 4 2"
  "\<forall>l. length (tl_addr (link sample_sched l)) = LINKADDR_SIZE"
  by (simp_all add: sample_sched_def sample_tq_def sample_link_def LINKADDR_SIZE_def)

theorem next_active_link_is_earliest_witness:
  "\<exists>l t bk. tsch_schedule_get_next_active_link \<lparr>asn_ls4b = 12, asn_ms1b = 0\<rparr> sample_sched = Some (l, Some t, bk) \<and> 0 < t \<and>
    (\<forall>k. 0 < k \<and> k < uint t \<longrightarrow> \<not> link_active sample_sched 3000 2000 (12 + k))"
proof -
  have "asn_val \<lparr>asn_ls4b = 12, asn_ms1b = 0\<rparr> = 12" by (simp add: asn_val_def)
  then show ?thesis
    using next_active_link_is_earliest [OF sched_ok_frames [OF sample_sched_ok] sample_sched_facts(1), of "\<lparr>asn_ls4b = 12, asn_ms1b = 0\<rparr>"]
    by auto
qed

theorem backup_link_is_best_witness:
  "active_step (link sample_sched) 5 2032 (5, 2000, NULL) = (5, 2000, 2000) \<and> has_rx (link sample_sched) 2032"
proof -
  have "has_rx (link sample_sched) 2000" "has_rx (link sample_sched) 2032" "goes_before (link sample_sched) 2000 2032"
    by (simp_all add: has_rx_def goes_before_def has_tx_def sample_sched_facts sample_link_def LINK_OPTION_TX_def LINK_OPTION_RX_def)
  then show ?thesis using backup_link_is_best [of 2000 "link sample_sched" 2032 5] by simp
qed

theorem add_link_replaces_timeslot_witness:
  "\<exists>l s' qs'. tsch_schedule_add_link 3000 7 LINK_TYPE_NORMAL (Some [1, 2, 3, 4, 5, 6, 7, 9]) 4 2 sample_sched = Some (l, s') \<and>
    sched_ok s' [3000] ((\<lambda>_. [2000, 2032])(3000 := if l = NULL then [2000] else [2000] @ [l])) qs'"
proof -
  have i: "3000 \<in> set [3000]" by simp
  have t: "4 < dv_val (fr_size (frame sample_sched 3000))" by (simp add: sample_sched_facts TSCH_ASN_DIVISOR_INIT_def)
  have a: "length [1, 2, 3, 4, 5, 6, 7, 9 :: u8] = LINKADDR_SIZE" by (simp add: LINKADDR_SIZE_def)
  have k: "[2000] = filter (\<lambda>l. tl_timeslot (link sample_sched l) \<noteq> 4) [2000, 2032]"
    by (simp add: sample_sched_facts sample_link_def)
  show ?thesis
    using add_link_replaces_timeslot [OF sample_sched_ok i t a sample_sched_facts(5) k, of 7 LINK_TYPE_NORMAL 2] by blast
qed

theorem remove_slotframes_terminates_iff_unlocked_witness:
  "(\<exists>s' ls' qs'. tsch_schedule_remove_all_slotframes sample_sched = Some (1, s') \<and> sched_ok s' [] ls' qs') \<and>
   tsch_schedule_remove_slotframe 3000 (sample_sched\<lparr>sq := sample_tq\<lparr>tq_locked := True\<rparr>\<rparr>) = None"
proof -
  have "list_head (links_list (sample_sched\<lparr>sq := sample_tq\<lparr>tq_locked := True\<rparr>\<rparr>) 3000) = 2000"
    by (simp add: sample_sched_links list_head_def clist_of_def)
  then have "tsch_schedule_remove_slotframe 3000 (sample_sched\<lparr>sq := sample_tq\<lparr>tq_locked := True\<rparr>\<rparr>) = None"
    using remove_slotframes_terminates_iff_unlocked [of "sample_sched\<lparr>sq := sample_tq\<lparr>tq_locked := True\<rparr>\<rparr>" "[]" "\<lambda>_. []" "[]" 3000]
    by simp
  moreover have "\<exists>s' ls' qs'. tsch_schedule_remove_all_slotframes sample_sched = Some (1, s') \<and> sched_ok s' [] ls' qs'"
    using remove_slotframes_terminates_iff_unlocked [of sample_sched "[3000]" "\<lambda>_. [2000, 2032]" "[1000, 1064]" 0] sample_sched_ok
    by blast
  ultimately show ?thesis by blast
qed

end
