(* ===== verification/Ie802154e.thy ===== *)
theory Ie802154e
  imports Emb6_Prelude "HOL-Library.Monad_Syntax"
begin

section \<open>Information elements of IEEE 802.15.4e frames (emb6/src/dll/tsch/frame802154e-ie.c)\<close>

text \<open>
  The functions that write the information elements of a TSCH frame and the parser of a received one.
  A buffer is the list of the bytes that may be accessed; an access outside of it is the result \<open>None\<close>.
  A parser reads at an offset into the buffer, where the code advances a pointer. \<open>int\<close> values are
  integers, \<open>-1\<close> is the error result, and a null \<open>ies\<close> is \<open>None\<close>.
\<close>

subsection \<open>Data\<close>

definition HEADER_IE_ACK_NACK_TIME_CORRECTION :: u8 where "HEADER_IE_ACK_NACK_TIME_CORRECTION = 0x1e"
definition HEADER_IE_LIST_TERMINATION_1 :: u8 where "HEADER_IE_LIST_TERMINATION_1 = 0x7e"
definition HEADER_IE_LIST_TERMINATION_2 :: u8 where "HEADER_IE_LIST_TERMINATION_2 = 0x7f"
definition PAYLOAD_IE_MLME :: u8 where "PAYLOAD_IE_MLME = 1"
definition PAYLOAD_IE_LIST_TERMINATION :: u8 where "PAYLOAD_IE_LIST_TERMINATION = 0xf"
definition MLME_SHORT_IE_TSCH_SYNCHRONIZATION :: u8 where "MLME_SHORT_IE_TSCH_SYNCHRONIZATION = 0x1a"
definition MLME_SHORT_IE_TSCH_SLOFTRAME_AND_LINK :: u8 where "MLME_SHORT_IE_TSCH_SLOFTRAME_AND_LINK = 0x1b"
definition MLME_SHORT_IE_TSCH_TIMESLOT :: u8 where "MLME_SHORT_IE_TSCH_TIMESLOT = 0x1c"
definition MLME_LONG_IE_TSCH_CHANNEL_HOPPING_SEQUENCE :: u8 where "MLME_LONG_IE_TSCH_CHANNEL_HOPPING_SEQUENCE = 0x9"
definition FRAME802154E_IE_MAX_LINKS :: int where "FRAME802154E_IE_MAX_LINKS = 4"
definition tsch_ts_elements_count :: nat where "tsch_ts_elements_count = 12"
definition TSCH_HOPPING_SEQUENCE_MAX_LEN :: nat where "TSCH_HOPPING_SEQUENCE_MAX_LEN = 16"

lemmas ie_ids =
  HEADER_IE_ACK_NACK_TIME_CORRECTION_def HEADER_IE_LIST_TERMINATION_1_def HEADER_IE_LIST_TERMINATION_2_def
  PAYLOAD_IE_MLME_def PAYLOAD_IE_LIST_TERMINATION_def MLME_SHORT_IE_TSCH_SYNCHRONIZATION_def
  MLME_SHORT_IE_TSCH_SLOFTRAME_AND_LINK_def MLME_SHORT_IE_TSCH_TIMESLOT_def
  MLME_LONG_IE_TSCH_CHANNEL_HOPPING_SEQUENCE_def

record ie_link =
  lk_timeslot :: u16
  lk_channel_offset :: u16
  lk_link_options :: u8

record ie_slotframe =
  sf_num_slotframes :: u8
  sf_slotframe_handle :: u8
  sf_slotframe_size :: u16
  sf_num_links :: u8
  sf_links :: "ie_link list"

record ies =
  ie_time_correction :: u16
  ie_is_nack :: u8
  ie_payload_ie_offset :: u8
  ie_mlme_len :: u16
  ie_asn_ls4b :: u32
  ie_asn_ms1b :: u8
  ie_join_priority :: u8
  ie_tsch_timeslot_id :: u8
  ie_tsch_timeslot :: "u16 list"
  ie_tsch_slotframe_and_link :: ie_slotframe
  ie_channel_hopping_sequence_id :: u8
  ie_hopping_sequence_len :: u16
  ie_hopping_sequence_list :: "u8 list"

subsection \<open>Access to the buffer\<close>

definition rd :: "u8 list \<Rightarrow> nat \<Rightarrow> u8 option" where
  "rd buf i = (if i < length buf then Some (buf ! i) else None)"

definition wr :: "u8 list \<Rightarrow> nat \<Rightarrow> u8 \<Rightarrow> u8 list option" where
  "wr buf i v = (if i < length buf then Some (buf[i := v]) else None)"

definition WRITE16 :: "u8 list \<Rightarrow> nat \<Rightarrow> u16 \<Rightarrow> u8 list option" where
  "WRITE16 buf i val = do {
     buf \<leftarrow> wr buf i (ucast (val AND 0xff));
     wr buf (i + 1) (ucast (drop_bit 8 val AND 0xff))
   }"

definition READ16 :: "u8 list \<Rightarrow> nat \<Rightarrow> u16 option" where
  "READ16 buf i = do {
     lo \<leftarrow> rd buf i;
     hi \<leftarrow> rd buf (i + 1);
     Some (ucast lo OR push_bit 8 (ucast hi))
   }"

fun wr_list :: "u8 list \<Rightarrow> nat \<Rightarrow> u8 list \<Rightarrow> u8 list option" where
  "wr_list buf i [] = Some buf"
| "wr_list buf i (v # vs) = do { buf \<leftarrow> wr buf i v; wr_list buf (Suc i) vs }"

fun rd_list :: "u8 list \<Rightarrow> nat \<Rightarrow> nat \<Rightarrow> u8 list option" where
  "rd_list buf i 0 = Some []"
| "rd_list buf i (Suc n) = do { v \<leftarrow> rd buf i; vs \<leftarrow> rd_list buf (Suc i) n; Some (v # vs) }"

subsection \<open>Descriptors\<close>

definition header_ie_descriptor :: "u8 \<Rightarrow> int \<Rightarrow> u16" where
  "header_ie_descriptor element_id ie_len = (of_int ie_len AND 0x7f) + push_bit 7 (ucast element_id AND 0xff)"

definition payload_ie_descriptor :: "u8 \<Rightarrow> int \<Rightarrow> u16" where
  "payload_ie_descriptor group_id ie_len =
     (of_int ie_len AND 0x07ff) + push_bit 11 (ucast group_id AND 0x0f) + push_bit 15 1"

definition mlme_short_ie_descriptor :: "u8 \<Rightarrow> int \<Rightarrow> u16" where
  "mlme_short_ie_descriptor sub_id ie_len = (of_int ie_len AND 0xff) + push_bit 8 (ucast sub_id AND 0x7f)"

definition mlme_long_ie_descriptor :: "u8 \<Rightarrow> int \<Rightarrow> u16" where
  "mlme_long_ie_descriptor sub_id ie_len =
     (of_int ie_len AND 0x07ff) + push_bit 11 (ucast sub_id AND 0x0f) + push_bit 15 1"

definition create_header_ie_descriptor :: "u8 list \<Rightarrow> u8 \<Rightarrow> int \<Rightarrow> u8 list option" where
  "create_header_ie_descriptor buf element_id ie_len = WRITE16 buf 0 (header_ie_descriptor element_id ie_len)"

definition create_payload_ie_descriptor :: "u8 list \<Rightarrow> u8 \<Rightarrow> int \<Rightarrow> u8 list option" where
  "create_payload_ie_descriptor buf group_id ie_len = WRITE16 buf 0 (payload_ie_descriptor group_id ie_len)"

definition create_mlme_short_ie_descriptor :: "u8 list \<Rightarrow> u8 \<Rightarrow> int \<Rightarrow> u8 list option" where
  "create_mlme_short_ie_descriptor buf sub_id ie_len = WRITE16 buf 0 (mlme_short_ie_descriptor sub_id ie_len)"

definition create_mlme_long_ie_descriptor :: "u8 list \<Rightarrow> u8 \<Rightarrow> int \<Rightarrow> u8 list option" where
  "create_mlme_long_ie_descriptor buf sub_id ie_len = WRITE16 buf 0 (mlme_long_ie_descriptor sub_id ie_len)"

subsection \<open>Writing information elements\<close>

definition frame80215e_create_ie_header_ack_nack_time_correction :: "u8 list \<Rightarrow> int \<Rightarrow> ies option \<Rightarrow> (int \<times> u8 list) option" where
  "frame80215e_create_ie_header_ack_nack_time_correction buf len ies =
     (case ies of
        Some ies \<Rightarrow>
          if len \<ge> 2 + 2 then do {
            let time_sync_field = ie_time_correction ies AND 0x0fff;
            let time_sync_field = (if ie_is_nack ies \<noteq> 0 then time_sync_field OR 0x8000 else time_sync_field);
            buf \<leftarrow> WRITE16 buf 2 time_sync_field;
            buf \<leftarrow> create_header_ie_descriptor buf HEADER_IE_ACK_NACK_TIME_CORRECTION 2;
            Some (2 + 2, buf)
          } else Some (-1, buf)
      | None \<Rightarrow> Some (-1, buf))"

definition frame80215e_create_ie_header_list_termination_1 :: "u8 list \<Rightarrow> int \<Rightarrow> ies option \<Rightarrow> (int \<times> u8 list) option" where
  "frame80215e_create_ie_header_list_termination_1 buf len ies =
     (if len \<ge> 2 + 0 \<and> ies \<noteq> None then do {
        buf \<leftarrow> create_header_ie_descriptor buf HEADER_IE_LIST_TERMINATION_1 0;
        Some (2 + 0, buf)
      } else Some (-1, buf))"

definition frame80215e_create_ie_header_list_termination_2 :: "u8 list \<Rightarrow> int \<Rightarrow> ies option \<Rightarrow> (int \<times> u8 list) option" where
  "frame80215e_create_ie_header_list_termination_2 buf len ies =
     (if len \<ge> 2 + 0 \<and> ies \<noteq> None then do {
        buf \<leftarrow> create_header_ie_descriptor buf HEADER_IE_LIST_TERMINATION_2 0;
        Some (2 + 0, buf)
      } else Some (-1, buf))"

definition frame80215e_create_ie_payload_list_termination :: "u8 list \<Rightarrow> int \<Rightarrow> ies option \<Rightarrow> (int \<times> u8 list) option" where
  "frame80215e_create_ie_payload_list_termination buf len ies =
     (if len \<ge> 2 + 0 \<and> ies \<noteq> None then do {
        buf \<leftarrow> create_payload_ie_descriptor buf PAYLOAD_IE_LIST_TERMINATION 0;
        Some (2 + 0, buf)
      } else Some (-1, buf))"

definition frame80215e_create_ie_mlme :: "u8 list \<Rightarrow> int \<Rightarrow> ies option \<Rightarrow> (int \<times> u8 list) option" where
  "frame80215e_create_ie_mlme buf len ies =
     (case ies of
        Some ies \<Rightarrow>
          if len \<ge> 2 + 0 then do {
            buf \<leftarrow> create_payload_ie_descriptor buf PAYLOAD_IE_MLME (uint (ie_mlme_len ies));
            Some (2 + 0, buf)
          } else Some (-1, buf)
      | None \<Rightarrow> Some (-1, buf))"

definition frame80215e_create_ie_tsch_synchronization :: "u8 list \<Rightarrow> int \<Rightarrow> ies option \<Rightarrow> (int \<times> u8 list) option" where
  "frame80215e_create_ie_tsch_synchronization buf len ies =
     (case ies of
        Some ies \<Rightarrow>
          if len \<ge> 2 + 6 then do {
            buf \<leftarrow> wr buf 2 (ucast (ie_asn_ls4b ies));
            buf \<leftarrow> wr buf 3 (ucast (drop_bit 8 (ie_asn_ls4b ies)));
            buf \<leftarrow> wr buf 4 (ucast (drop_bit 16 (ie_asn_ls4b ies)));
            buf \<leftarrow> wr buf 5 (ucast (drop_bit 24 (ie_asn_ls4b ies)));
            buf \<leftarrow> wr buf 6 (ie_asn_ms1b ies);
            buf \<leftarrow> wr buf 7 (ie_join_priority ies);
            buf \<leftarrow> create_mlme_short_ie_descriptor buf MLME_SHORT_IE_TSCH_SYNCHRONIZATION 6;
            Some (2 + 6, buf)
          } else Some (-1, buf)
      | None \<Rightarrow> Some (-1, buf))"

text \<open>The loop over the links, from link \<open>i\<close> on, with \<open>n\<close> links left.\<close>

primrec links_loop :: "ie_link list \<Rightarrow> u8 list \<Rightarrow> nat \<Rightarrow> nat \<Rightarrow> u8 list option" where
  "links_loop links buf i 0 = Some buf"
| "links_loop links buf i (Suc n) = do {
     buf \<leftarrow> WRITE16 buf (2 + 5 + i * 5) (lk_timeslot (links ! i));
     buf \<leftarrow> WRITE16 buf (2 + 5 + i * 5 + 2) (lk_channel_offset (links ! i));
     buf \<leftarrow> wr buf (2 + 5 + i * 5 + 4) (lk_link_options (links ! i));
     links_loop links buf (Suc i) n
   }"

definition frame80215e_create_ie_tsch_slotframe_and_link :: "u8 list \<Rightarrow> int \<Rightarrow> ies option \<Rightarrow> (int \<times> u8 list) option" where
  "frame80215e_create_ie_tsch_slotframe_and_link buf len ies =
     (case ies of
        Some ies \<Rightarrow>
          (let sf = ie_tsch_slotframe_and_link ies;
               num_slotframes = uint (sf_num_slotframes sf);
               num_links = uint (sf_num_links sf);
               ie_len = 1 + num_slotframes * (4 + 5 * num_links)
           in if num_slotframes > 1 \<or> num_links > FRAME802154E_IE_MAX_LINKS \<or> len < 2 + ie_len
              then Some (-1, buf)
              else do {
                buf \<leftarrow> wr buf 2 (of_int num_slotframes);
                buf \<leftarrow> (if num_slotframes = 1 then do {
                          buf \<leftarrow> wr buf (2 + 1) (sf_slotframe_handle sf);
                          buf \<leftarrow> WRITE16 buf (2 + 2) (sf_slotframe_size sf);
                          buf \<leftarrow> wr buf (2 + 4) (of_int num_links);
                          links_loop (sf_links sf) buf 0 (nat num_links)
                        } else Some buf);
                buf \<leftarrow> create_mlme_short_ie_descriptor buf MLME_SHORT_IE_TSCH_SLOFTRAME_AND_LINK ie_len;
                Some (2 + ie_len, buf)
              })
      | None \<Rightarrow> Some (-1, buf))"

primrec timeslot_loop :: "u16 list \<Rightarrow> u8 list \<Rightarrow> nat \<Rightarrow> nat \<Rightarrow> u8 list option" where
  "timeslot_loop ts buf i 0 = Some buf"
| "timeslot_loop ts buf i (Suc n) = do {
     buf \<leftarrow> WRITE16 buf (3 + 2 * i) (ts ! i);
     timeslot_loop ts buf (Suc i) n
   }"

definition frame80215e_create_ie_tsch_timeslot :: "u8 list \<Rightarrow> int \<Rightarrow> ies option \<Rightarrow> (int \<times> u8 list) option" where
  "frame80215e_create_ie_tsch_timeslot buf len ies =
     (case ies of
        None \<Rightarrow> Some (-1, buf)
      | Some ies \<Rightarrow>
          (let ie_len = (if ie_tsch_timeslot_id ies = 0 then 1 else 25)
           in if len \<ge> 2 + ie_len then do {
                buf \<leftarrow> wr buf 2 (ie_tsch_timeslot_id ies);
                buf \<leftarrow> (if ie_tsch_timeslot_id ies \<noteq> 0
                       then timeslot_loop (ie_tsch_timeslot ies) buf 0 tsch_ts_elements_count else Some buf);
                buf \<leftarrow> create_mlme_short_ie_descriptor buf MLME_SHORT_IE_TSCH_TIMESLOT ie_len;
                Some (2 + ie_len, buf)
              } else Some (-1, buf)))"

definition frame80215e_create_ie_tsch_channel_hopping_sequence :: "u8 list \<Rightarrow> int \<Rightarrow> ies option \<Rightarrow> (int \<times> u8 list) option" where
  "frame80215e_create_ie_tsch_channel_hopping_sequence buf len ies =
     (case ies of
        None \<Rightarrow> Some (-1, buf)
      | Some ies \<Rightarrow>
          if unat (ie_hopping_sequence_len ies) > TSCH_HOPPING_SEQUENCE_MAX_LEN then Some (-1, buf)
          else let n = unat (ie_hopping_sequence_len ies);
                   ie_len = (if ie_channel_hopping_sequence_id ies = 0 then 1 else 12 + int n)
            in if len \<ge> 2 + ie_len then do {
                 buf \<leftarrow> wr buf 2 (ie_channel_hopping_sequence_id ies);
                 buf \<leftarrow> wr buf 3 0;
                 buf \<leftarrow> WRITE16 buf 4 0;
                 buf \<leftarrow> WRITE16 buf 6 0;
                 buf \<leftarrow> WRITE16 buf 8 0;
                 buf \<leftarrow> WRITE16 buf 10 (ie_hopping_sequence_len ies);
                 buf \<leftarrow> wr_list buf 12 (take n (ie_hopping_sequence_list ies));
                 buf \<leftarrow> WRITE16 buf (12 + n) 0;
                 buf \<leftarrow> create_mlme_long_ie_descriptor buf MLME_LONG_IE_TSCH_CHANNEL_HOPPING_SEQUENCE ie_len;
                 Some (2 + ie_len, buf)
               } else Some (-1, buf))"

subsection \<open>Parsing information elements\<close>

definition frame802154e_parse_header_ie :: "u8 list \<Rightarrow> nat \<Rightarrow> int \<Rightarrow> u8 \<Rightarrow> ies \<Rightarrow> (int \<times> ies) option" where
  "frame802154e_parse_header_ie buf off len element_id ies =
     (if element_id = HEADER_IE_ACK_NACK_TIME_CORRECTION \<and> len = 2 then do {
        time_sync_field \<leftarrow> READ16 buf off;
        let drift_us = (if time_sync_field AND 0x0800 \<noteq> 0 then time_sync_field OR 0xf000 else time_sync_field AND 0x0fff);
        Some (len, ies\<lparr>ie_is_nack := (if time_sync_field AND 0x8000 \<noteq> 0 then 1 else 0), ie_time_correction := drift_us\<rparr>)
      } else Some (-1, ies))"

primrec parse_links :: "u8 list \<Rightarrow> nat \<Rightarrow> nat \<Rightarrow> nat \<Rightarrow> ie_link list \<Rightarrow> ie_link list option" where
  "parse_links buf off i 0 links = Some links"
| "parse_links buf off i (Suc n) links = do {
     ts \<leftarrow> READ16 buf (off + 5 + i * 5);
     co \<leftarrow> READ16 buf (off + 5 + i * 5 + 2);
     op \<leftarrow> rd buf (off + 5 + i * 5 + 4);
     parse_links buf off (Suc i) n (links[i := \<lparr>lk_timeslot = ts, lk_channel_offset = co, lk_link_options = op\<rparr>])
   }"

primrec parse_timeslots :: "u8 list \<Rightarrow> nat \<Rightarrow> nat \<Rightarrow> nat \<Rightarrow> u16 list \<Rightarrow> u16 list option" where
  "parse_timeslots buf off i 0 ts = Some ts"
| "parse_timeslots buf off i (Suc n) ts = do {
     v \<leftarrow> READ16 buf (off + 1 + 2 * i);
     parse_timeslots buf off (Suc i) n (ts[i := v])
   }"

definition parse_slotframe :: "u8 list \<Rightarrow> nat \<Rightarrow> int \<Rightarrow> ies \<Rightarrow> (int \<times> ies) option" where
  "parse_slotframe buf off len ies =
     (if len \<ge> 1 then do {
        b0 \<leftarrow> rd buf off;
        b4 \<leftarrow> rd buf (off + 4);
        if b0 = 0 then Some (len, ies)
        else if b0 \<le> 1 \<and> uint b4 \<le> FRAME802154E_IE_MAX_LINKS \<and> len = 1 + uint b0 * (4 + 5 * uint b4) then do {
          b1 \<leftarrow> rd buf (off + 1);
          size \<leftarrow> READ16 buf (off + 2);
          links \<leftarrow> parse_links buf off 0 (unat b4) (sf_links (ie_tsch_slotframe_and_link ies));
          Some (len, ies\<lparr>ie_tsch_slotframe_and_link :=
            \<lparr>sf_num_slotframes = b0, sf_slotframe_handle = b1, sf_slotframe_size = size, sf_num_links = b4, sf_links = links\<rparr>\<rparr>)
        } else Some (-1, ies)
      } else Some (-1, ies))"

definition parse_synchronization :: "u8 list \<Rightarrow> nat \<Rightarrow> int \<Rightarrow> ies \<Rightarrow> (int \<times> ies) option" where
  "parse_synchronization buf off len ies =
     (if len = 6 then do {
        b0 \<leftarrow> rd buf off;
        b1 \<leftarrow> rd buf (off + 1);
        b2 \<leftarrow> rd buf (off + 2);
        b3 \<leftarrow> rd buf (off + 3);
        b4 \<leftarrow> rd buf (off + 4);
        b5 \<leftarrow> rd buf (off + 5);
        Some (len, ies\<lparr>ie_asn_ls4b := ucast b0 OR push_bit 8 (ucast b1) OR push_bit 16 (ucast b2) OR push_bit 24 (ucast b3),
                       ie_asn_ms1b := b4, ie_join_priority := b5\<rparr>)
      } else Some (-1, ies))"

definition parse_timeslot :: "u8 list \<Rightarrow> nat \<Rightarrow> int \<Rightarrow> ies \<Rightarrow> (int \<times> ies) option" where
  "parse_timeslot buf off len ies =
     (if len = 1 \<or> len = 25 then do {
        b0 \<leftarrow> rd buf off;
        ts \<leftarrow> (if len = 25 then parse_timeslots buf off 0 tsch_ts_elements_count (ie_tsch_timeslot ies)
              else Some (ie_tsch_timeslot ies));
        Some (len, ies\<lparr>ie_tsch_timeslot_id := b0, ie_tsch_timeslot := ts\<rparr>)
      } else Some (-1, ies))"

definition frame802154e_parse_mlme_short_ie :: "u8 list \<Rightarrow> nat \<Rightarrow> int \<Rightarrow> u8 \<Rightarrow> ies \<Rightarrow> (int \<times> ies) option" where
  "frame802154e_parse_mlme_short_ie buf off len sub_id ies =
     (if sub_id = MLME_SHORT_IE_TSCH_SLOFTRAME_AND_LINK then parse_slotframe buf off len ies
      else if sub_id = MLME_SHORT_IE_TSCH_SYNCHRONIZATION then parse_synchronization buf off len ies
      else if sub_id = MLME_SHORT_IE_TSCH_TIMESLOT then parse_timeslot buf off len ies
      else Some (-1, ies))"

definition frame802154e_parse_mlme_long_ie :: "u8 list \<Rightarrow> nat \<Rightarrow> int \<Rightarrow> u8 \<Rightarrow> ies \<Rightarrow> (int \<times> ies) option" where
  "frame802154e_parse_mlme_long_ie buf off len sub_id ies =
     (if sub_id = MLME_LONG_IE_TSCH_CHANNEL_HOPPING_SEQUENCE \<and> len > 0 then do {
        b0 \<leftarrow> rd buf off;
        let ies = ies\<lparr>ie_channel_hopping_sequence_id := b0\<rparr>;
        if len > 1 then do {
          n \<leftarrow> READ16 buf (off + 8);
          let ies = ies\<lparr>ie_hopping_sequence_len := n\<rparr>;
          if unat n \<le> TSCH_HOPPING_SEQUENCE_MAX_LEN \<and> len = 12 + uint n then do {
            l \<leftarrow> rd_list buf (off + 10) (unat n);
            Some (len, ies\<lparr>ie_hopping_sequence_list := l @ drop (unat n) (ie_hopping_sequence_list ies)\<rparr>)
          } else Some (len, ies)
        } else Some (len, ies)
      } else Some (-1, ies))"

datatype parsing_state = PARSING_HEADER_IE | PARSING_PAYLOAD_IE | PARSING_MLME_SUBIE

text \<open>
  One round of the loop after the descriptor has been read: it returns, or goes on with a length to skip, a
  state and the bytes left of the enclosing MLME element. \<open>off\<close> and \<open>buf_size\<close> are those after the descriptor.
\<close>

datatype ie_step_res = Ret int ies | Go u16 parsing_state int ies

definition header_step :: "u8 list \<Rightarrow> nat \<Rightarrow> u8 \<Rightarrow> u16 \<Rightarrow> int \<Rightarrow> ies \<Rightarrow> ie_step_res option" where
  "header_step buf off buf_size ie_desc nested ies =
     (if ie_desc AND 0x8000 \<noteq> 0 then Some (Ret (-1) ies)
      else let len = ie_desc AND 0x007f; id = ucast (drop_bit 7 (ie_desc AND 0x7f80))
        in if id = HEADER_IE_LIST_TERMINATION_1 then
             if len = 0 then Some (Go len PARSING_PAYLOAD_IE nested (ies\<lparr>ie_payload_ie_offset := of_nat off\<rparr>))
             else Some (Ret (-1) ies)
           else if id = HEADER_IE_LIST_TERMINATION_2 then
             if len = 0 then Some (Ret (int off + uint len) (ies\<lparr>ie_payload_ie_offset := of_nat off\<rparr>))
             else Some (Ret (-1) ies)
           else if len > ucast buf_size then Some (Ret (-1) ies)
           else do {
             (r, ies) \<leftarrow> frame802154e_parse_header_ie buf off (uint len) id ies;
             Some (if r = -1 then Ret (-1) ies else Go len PARSING_HEADER_IE nested ies)
           })"

definition payload_step :: "nat \<Rightarrow> u16 \<Rightarrow> ies \<Rightarrow> ie_step_res option" where
  "payload_step off ie_desc ies =
     (if ie_desc AND 0x8000 = 0 then Some (Ret (-1) ies)
      else let len = ie_desc AND 0x7ff; id = ucast (drop_bit 11 (ie_desc AND 0x7800))
        in if id = PAYLOAD_IE_MLME then Some (Go 0 PARSING_MLME_SUBIE (uint len) ies)
           else if id = PAYLOAD_IE_LIST_TERMINATION then Some (Ret (if len = 0 then int off + uint len else -1) ies)
           else Some (Ret (-1) ies))"

definition mlme_step :: "u8 list \<Rightarrow> nat \<Rightarrow> u8 \<Rightarrow> u16 \<Rightarrow> int \<Rightarrow> ies \<Rightarrow> ie_step_res option" where
  "mlme_step buf off buf_size ie_desc nested ies =
     (let short = (ie_desc AND 0x8000 = 0);
          len = (if short then ie_desc AND 0x00ff else ie_desc AND 0x7ff);
          id = (if short then ucast (drop_bit 8 (ie_desc AND 0x7f00)) else ucast (drop_bit 11 (ie_desc AND 0x7800)))
      in if len > ucast buf_size then Some (Ret (-1) ies)
         else do {
           (r, ies) \<leftarrow> (if short then frame802154e_parse_mlme_short_ie buf off (uint len) id ies
                       else frame802154e_parse_mlme_long_ie buf off (uint len) id ies);
           let nested = nested - (2 + uint len);
           Some (if r = -1 \<or> nested < 0 then Ret (-1) ies
                 else Go len (if nested = 0 then PARSING_PAYLOAD_IE else PARSING_MLME_SUBIE) nested ies)
         })"

definition ie_step :: "u8 list \<Rightarrow> nat \<Rightarrow> u8 \<Rightarrow> u16 \<Rightarrow> parsing_state \<Rightarrow> int \<Rightarrow> ies \<Rightarrow> ie_step_res option" where
  "ie_step buf off buf_size ie_desc st nested ies =
     (case st of
        PARSING_HEADER_IE \<Rightarrow> header_step buf off buf_size ie_desc nested ies
      | PARSING_PAYLOAD_IE \<Rightarrow> payload_step off ie_desc ies
      | PARSING_MLME_SUBIE \<Rightarrow> mlme_step buf off buf_size ie_desc nested ies)"

lemma step_len_le:
  "ie_step buf off bs d st nested ies = Some (Go len st' nested' ies') \<Longrightarrow> len \<le> ucast bs"
  by (cases st)
    (auto simp: ie_step_def header_step_def payload_step_def mlme_step_def Let_def not_less
      split: if_splits Option.bind_splits prod.splits)

lemma skip_decreases:
  fixes bs :: u8 and len :: u16
  assumes "2 \<le> bs" and "len \<le> ucast (bs - 2)"
  shows "unat (bs - 2 - ucast len) + unat len + 2 = unat bs"
proof -
  have b: "unat (bs - 2) + 2 = unat bs" using assms(1) unsigned_less [of bs]
    by (simp add: word_le_nat_alt unat_sub_if_size word_size)
  have l: "unat len \<le> unat (bs - 2)" using assms(2)
    by (simp add: word_le_nat_alt unsigned_ucast_eq take_bit_eq_mod)
  have "unat (bs - 2) < 2 ^ LENGTH(8)" by (rule unsigned_less)
  then have "unat (ucast len :: u8) = unat len"
    using l by (simp add: unsigned_ucast_eq take_bit_eq_mod)
  then have "unat (ucast len :: u8) \<le> unat (bs - 2)" using l by simp
  then have "unat (bs - 2 - ucast len) = unat (bs - 2) - unat (ucast len :: u8)"
    unfolding unat_sub_if_size by simp
  then show ?thesis using b l \<open>unat (ucast len :: u8) = unat len\<close> by linarith
qed

function ie_loop :: "u8 list \<Rightarrow> nat \<Rightarrow> u8 \<Rightarrow> parsing_state \<Rightarrow> int \<Rightarrow> ies \<Rightarrow> (int \<times> ies) option" where
  "ie_loop buf off buf_size st nested ies =
     (if buf_size = 0 then
        Some (int off, if st = PARSING_HEADER_IE then ies\<lparr>ie_payload_ie_offset := of_nat off\<rparr> else ies)
      else if buf_size < 2 then Some (-1, ies)
      else do {
        d \<leftarrow> READ16 buf off;
        r \<leftarrow> ie_step buf (off + 2) (buf_size - 2) d st nested ies;
        case r of
          Ret v ies \<Rightarrow> Some (v, ies)
        | Go len st nested ies \<Rightarrow> ie_loop buf (off + 2 + unat len) (buf_size - 2 - ucast len) st nested ies
      })"
  by pat_completeness auto
termination
proof (relation "measure (\<lambda>(buf, off, bs, st, nested, ies). unat bs)", goal_cases)
  case (2 buf off bs st nested ies d r len st' nested' ies')
  then have "len \<le> ucast (bs - 2)" using step_len_le by blast
  moreover have "2 \<le> bs" using 2 by (simp add: not_less)
  ultimately show ?case using skip_decreases [of bs len] by simp
qed simp

declare ie_loop.simps [simp del]

definition frame802154e_parse_information_elements :: "u8 list \<Rightarrow> u8 \<Rightarrow> ies option \<Rightarrow> (int \<times> ies option) option" where
  "frame802154e_parse_information_elements buf buf_size ies =
     (case ies of
        None \<Rightarrow> Some (-1, None)
      | Some ies \<Rightarrow> do {
          (r, ies) \<leftarrow> ie_loop buf 0 buf_size PARSING_HEADER_IE 0 (ies\<lparr>ie_payload_ie_offset := 0\<rparr>);
          Some (r, Some ies)
        })"

subsection \<open>Reads and writes\<close>

lemma rd_some [simp]: "i < length buf \<Longrightarrow> rd buf i = Some (buf ! i)"
  by (simp add: rd_def)

lemma READ16_some: "i + 1 < length buf \<Longrightarrow> READ16 buf i = Some (ucast (buf ! i) OR push_bit 8 (ucast (buf ! (i + 1))))"
  by (simp add: READ16_def)

definition poke16 :: "u8 list \<Rightarrow> nat \<Rightarrow> u16 \<Rightarrow> u8 list" where
  "poke16 buf i v = buf[i := ucast v, Suc i := ucast (drop_bit 8 v)]"

lemma length_poke16 [simp]: "length (poke16 buf i v) = length buf"
  by (simp add: poke16_def)

lemma ucast_and_ff: "(ucast (v AND 0xff) :: u8) = ucast (v :: u16)"
proof (rule bit_word_eqI)
  fix n assume "n < LENGTH(8)"
  moreover have m: "(0xff :: u16) = mask 8" by (simp add: mask_eq_exp_minus_1)
  ultimately show "bit (ucast (v AND 0xff) :: u8) n = bit (ucast v :: u8) n"
    unfolding m by (simp add: bit_ucast_iff bit_and_iff bit_mask_iff)
qed

lemma WRITE16_some: "i + 1 < length buf \<Longrightarrow> WRITE16 buf i v = Some (poke16 buf i v)"
  by (simp add: WRITE16_def wr_def poke16_def ucast_and_ff)

lemma wr_some [simp]: "i < length buf \<Longrightarrow> wr buf i v = Some (buf[i := v])"
  by (simp add: wr_def)

lemma ucast_lo_hi: "ucast (ucast v :: u8) OR push_bit 8 (ucast (ucast (drop_bit 8 v) :: u8)) = (v :: u16)"
  by (rule bit_word_eqI) (auto simp: bit_ucast_iff bit_or_iff bit_push_bit_iff bit_drop_bit_eq not_less)

lemma READ16_poke16: "i + 1 < length buf \<Longrightarrow> READ16 (poke16 buf i v) i = Some v"
  by (simp add: READ16_some poke16_def ucast_lo_hi)

lemma READ16_poke16_other:
  "j + 1 < length buf \<Longrightarrow> j + 1 < i \<or> i + 1 < j \<Longrightarrow> READ16 (poke16 buf i v) j = READ16 buf j"
  by (auto simp: READ16_some poke16_def nth_list_update)

lemma nth_poke16_other: "j \<noteq> i \<Longrightarrow> j \<noteq> Suc i \<Longrightarrow> poke16 buf i v ! j = buf ! j"
  by (simp add: poke16_def)

lemma wr_SomeD: "wr buf i v = Some b \<Longrightarrow> i < length buf \<and> length b = length buf"
  by (auto simp: wr_def split: if_splits)

lemma WRITE16_SomeD: "WRITE16 buf i v = Some b \<Longrightarrow> i + 1 < length buf \<and> length b = length buf"
  by (auto simp: WRITE16_def dest!: wr_SomeD split: Option.bind_splits)

lemma wr_list_SomeD: "wr_list buf i vs = Some b \<Longrightarrow> length b = length buf"
  by (induction vs arbitrary: i buf) (auto dest!: wr_SomeD split: Option.bind_splits)

subsection \<open>Writers stay inside the length they are given\<close>

definition writes_within :: "(u8 list \<Rightarrow> int \<Rightarrow> ies option \<Rightarrow> (int \<times> u8 list) option) \<Rightarrow> u8 list \<Rightarrow> int \<Rightarrow> ies option \<Rightarrow> bool" where
  "writes_within f buf len ies \<longleftrightarrow>
     (\<exists>r buf'. f buf len ies = Some (r, buf') \<and> length buf' = length buf \<and>
        (r = -1 \<and> buf' = buf \<or> 0 \<le> r \<and> r \<le> len \<and> drop (nat r) buf' = drop (nat r) buf))"

definition ies_ok :: "ies \<Rightarrow> bool" where
  "ies_ok ies \<longleftrightarrow> length (sf_links (ie_tsch_slotframe_and_link ies)) = 4 \<and> length (ie_tsch_timeslot ies) = tsch_ts_elements_count \<and>
     length (ie_hopping_sequence_list ies) = TSCH_HOPPING_SEQUENCE_MAX_LEN"

lemma drop_poke16 [simp]: "Suc i < n \<Longrightarrow> drop n (poke16 buf i v) = drop n buf"
  by (simp add: poke16_def)

lemma links_loop_some:
  "7 + 5 * (i + n) \<le> length buf \<Longrightarrow> i + n \<le> length links \<Longrightarrow>
    \<exists>b. links_loop links buf i n = Some b \<and> length b = length buf \<and>
      (\<forall>j. j < 7 + 5 * i \<or> 7 + 5 * (i + n) \<le> j \<longrightarrow> b ! j = buf ! j) \<and>
      (\<forall>k. i \<le> k \<and> k < i + n \<longrightarrow> READ16 b (7 + 5 * k) = Some (lk_timeslot (links ! k)) \<and>
         READ16 b (9 + 5 * k) = Some (lk_channel_offset (links ! k)) \<and> b ! (11 + 5 * k) = lk_link_options (links ! k))"
proof (induction n arbitrary: i buf)
  case (Suc n)
  let ?b = "(poke16 (poke16 buf (7 + 5 * i) (lk_timeslot (links ! i))) (9 + 5 * i) (lk_channel_offset (links ! i)))
    [11 + 5 * i := lk_link_options (links ! i)]"
  have step: "links_loop links buf i (Suc n) = links_loop links ?b (Suc i) n"
    using Suc.prems by (simp add: WRITE16_some algebra_simps)
  have "7 + 5 * (Suc i + n) \<le> length ?b" "Suc i + n \<le> length links" using Suc.prems by simp_all
  from Suc.IH [OF this] obtain b where b: "links_loop links ?b (Suc i) n = Some b" "length b = length ?b"
    "\<forall>j. j < 7 + 5 * Suc i \<or> 7 + 5 * (Suc i + n) \<le> j \<longrightarrow> b ! j = ?b ! j"
    "\<forall>k. Suc i \<le> k \<and> k < Suc i + n \<longrightarrow> READ16 b (7 + 5 * k) = Some (lk_timeslot (links ! k)) \<and>
         READ16 b (9 + 5 * k) = Some (lk_channel_offset (links ! k)) \<and> b ! (11 + 5 * k) = lk_link_options (links ! k)"
    by blast
  have r: "READ16 b j = READ16 ?b j" if "j + 1 < 12 + 5 * i" for j
    using b(2) b(3) [rule_format, of j] b(3) [rule_format, of "j + 1"] that by (simp add: READ16_def rd_def)
  have "READ16 ?b (7 + 5 * i) = Some (lk_timeslot (links ! i))" "READ16 ?b (9 + 5 * i) = Some (lk_channel_offset (links ! i))"
    using Suc.prems by (simp_all add: READ16_some poke16_def ucast_lo_hi nth_list_update)
  then have here: "READ16 b (7 + 5 * i) = Some (lk_timeslot (links ! i))" "READ16 b (9 + 5 * i) = Some (lk_channel_offset (links ! i))"
    "b ! (11 + 5 * i) = lk_link_options (links ! i)"
    using r [of "7 + 5 * i"] r [of "9 + 5 * i"] b(3) [rule_format, of "11 + 5 * i"] Suc.prems by simp_all
  have "b ! j = buf ! j" if "j < 7 + 5 * i \<or> 7 + 5 * (i + Suc n) \<le> j" for j
    using b(3) [rule_format, of j] that by (auto simp: poke16_def nth_list_update)
  moreover have "READ16 b (7 + 5 * k) = Some (lk_timeslot (links ! k)) \<and>
         READ16 b (9 + 5 * k) = Some (lk_channel_offset (links ! k)) \<and> b ! (11 + 5 * k) = lk_link_options (links ! k)"
    if "i \<le> k" "k < i + Suc n" for k
    using here b(4) [rule_format, of k] that by (cases "k = i") auto
  ultimately show ?case using step b(1,2) by (intro exI [of _ b]) simp
qed auto

lemma timeslot_loop_some:
  "3 + 2 * (i + n) \<le> length buf \<Longrightarrow> \<exists>b. timeslot_loop ts buf i n = Some b \<and> length b = length buf \<and>
      drop (3 + 2 * (i + n)) b = drop (3 + 2 * (i + n)) buf"
proof (induction n arbitrary: i buf)
  case (Suc n)
  from Suc.IH [of "Suc i" "poke16 buf (3 + 2 * i) (ts ! i)"] Suc.prems show ?case
    by (auto simp: WRITE16_some)
qed simp

lemma wr_list_some:
  "i + length vs \<le> length buf \<Longrightarrow> \<exists>b. wr_list buf i vs = Some b \<and> length b = length buf \<and>
    drop (i + length vs) b = drop (i + length vs) buf"
proof (induction vs arbitrary: i buf)
  case (Cons v vs)
  from Cons.IH [of "Suc i" "buf[i := v]"] Cons.prems show ?case by auto
qed simp

lemma drop_eq_nth: "length b = length (buf :: 'a list) \<Longrightarrow> (\<And>j. n \<le> j \<Longrightarrow> b ! j = buf ! j) \<Longrightarrow> drop n b = drop n buf"
  by (auto simp: list_eq_iff_nth_eq)

lemma wf_slotframe:
  assumes "len \<le> int (length buf)" and "ies_ok ies"
  shows "writes_within frame80215e_create_ie_tsch_slotframe_and_link buf len (Some ies)"
proof -
  let ?sf = "ie_tsch_slotframe_and_link ies"
  let ?ns = "uint (sf_num_slotframes ?sf)" and ?nl = "uint (sf_num_links ?sf)"
  let ?l = "1 + ?ns * (4 + 5 * ?nl)"
  show ?thesis
  proof (cases "?ns > 1 \<or> ?nl > FRAME802154E_IE_MAX_LINKS \<or> len < 2 + ?l")
    case True
    then show ?thesis by (simp add: writes_within_def frame80215e_create_ie_tsch_slotframe_and_link_def Let_def)
  next
    case False
    then have c: "?ns \<le> 1" "?nl \<le> 4" "2 + ?l \<le> len" by (auto simp: FRAME802154E_IE_MAX_LINKS_def)
    have nn: "0 \<le> ?ns" "0 \<le> ?nl" by simp_all
    show ?thesis
    proof (cases "?ns = 1")
      case one: True
      let ?b = "(poke16 (buf[2 := of_int ?ns, 3 := sf_slotframe_handle ?sf]) 4 (sf_slotframe_size ?sf))[6 := of_int ?nl]"
      define m where "m = nat ?nl"
      have im: "?nl = int m" by (simp add: m_def)
      have "2 + ?l = 7 + 5 * int m" by (simp add: one im)
      then have l: "7 + 5 * int m \<le> len" "nat (2 + ?l) = 7 + 5 * m" using c(3) by linarith+
      have len0: "7 + 5 * m \<le> length buf" using l(1) assms(1) by linarith
      then have len: "7 + 5 * (0 + m) \<le> length buf" by simp
      then obtain b where b: "links_loop (sf_links ?sf) ?b 0 m = Some b" "length b = length buf"
        "\<And>j. 7 + 5 * m \<le> j \<Longrightarrow> b ! j = ?b ! j"
        using links_loop_some [of 0 m ?b "sf_links ?sf"] assms(2) c(2) im by (auto simp: ies_ok_def)
      have e: "frame80215e_create_ie_tsch_slotframe_and_link buf len (Some ies) =
          Some (2 + ?l, poke16 b 0 (mlme_short_ie_descriptor MLME_SHORT_IE_TSCH_SLOFTRAME_AND_LINK ?l))"
        using False one len b(1,2) unfolding m_def
        by (simp add: frame80215e_create_ie_tsch_slotframe_and_link_def Let_def WRITE16_some create_mlme_short_ie_descriptor_def)
      have "drop (7 + 5 * m) b = drop (7 + 5 * m) buf"
        using b(2,3) by (intro drop_eq_nth) (auto simp: poke16_def nth_list_update)
      then have "drop (nat (2 + ?l)) b = drop (nat (2 + ?l)) buf" by (simp only: l(2))
      moreover have "drop (nat (2 + ?l)) (poke16 b 0 v) = drop (nat (2 + ?l)) b" for v
        unfolding l(2) by simp
      moreover have "0 \<le> 2 + ?l" using nn by simp
      ultimately show ?thesis using e b(2) c(3) unfolding writes_within_def by auto
    next
      case False
      then have z: "?ns = 0" using c(1) nn by linarith
      have "3 \<le> len" using c(3) unfolding z by simp
      then have "3 \<le> length buf" using assms(1) by linarith
      then show ?thesis using c z
        by (simp add: writes_within_def frame80215e_create_ie_tsch_slotframe_and_link_def Let_def WRITE16_some
            create_mlme_short_ie_descriptor_def FRAME802154E_IE_MAX_LINKS_def)
    qed
  qed
qed

lemma wf_timeslot:
  assumes "len \<le> int (length buf)"
  shows "writes_within frame80215e_create_ie_tsch_timeslot buf len (Some ies)"
proof (cases "ie_tsch_timeslot_id ies = 0")
  case True
  then show ?thesis using assms
    by (auto simp: writes_within_def frame80215e_create_ie_tsch_timeslot_def WRITE16_some create_mlme_short_ie_descriptor_def)
next
  case False
  show ?thesis
  proof (cases "27 \<le> len")
    case True
    then obtain b where "timeslot_loop (ie_tsch_timeslot ies) (buf[2 := ie_tsch_timeslot_id ies]) 0 12 = Some b"
      "length b = length buf" "drop 27 b = drop 27 (buf[2 := ie_tsch_timeslot_id ies])"
      using timeslot_loop_some [of 0 12 "buf[2 := ie_tsch_timeslot_id ies]" "ie_tsch_timeslot ies"] assms by auto
    then show ?thesis using False True assms
      by (simp add: writes_within_def frame80215e_create_ie_tsch_timeslot_def WRITE16_some
          create_mlme_short_ie_descriptor_def tsch_ts_elements_count_def)
  next
    case len: False
    then show ?thesis using False by (simp add: writes_within_def frame80215e_create_ie_tsch_timeslot_def)
  qed
qed

lemma wf_hopping:
  assumes "len \<le> int (length buf)" and "ies_ok ies" and "ie_channel_hopping_sequence_id ies \<noteq> 0"
  shows "writes_within frame80215e_create_ie_tsch_channel_hopping_sequence buf len (Some ies)"
proof -
  let ?n = "unat (ie_hopping_sequence_len ies)"
  show ?thesis
  proof (cases "?n \<le> TSCH_HOPPING_SEQUENCE_MAX_LEN \<and> 14 + int ?n \<le> len")
    case True
    let ?b = "poke16 (poke16 (poke16 (poke16 (buf[2 := ie_channel_hopping_sequence_id ies, 3 := 0]) 4 0) 6 0) 8 0) 10 (ie_hopping_sequence_len ies)"
    let ?l = "take ?n (ie_hopping_sequence_list ies)"
    have ll: "length ?l = ?n" using True assms(2) by (simp add: ies_ok_def)
    have lb: "14 + ?n \<le> length buf" using True assms(1) by linarith
    obtain b where b: "wr_list ?b 12 ?l = Some b" "length b = length buf" "drop (12 + ?n) b = drop (12 + ?n) ?b"
      using wr_list_some [of 12 ?l ?b] ll lb by auto
    have "drop (14 + ?n) b = drop 2 (drop (12 + ?n) b)" by (simp add: add.commute)
    also have "\<dots> = drop (14 + ?n) ?b" unfolding b(3) by (simp add: add.commute)
    also have "\<dots> = drop (14 + ?n) buf" by simp
    finally have d: "drop (14 + ?n) b = drop (14 + ?n) buf" .
    have e: "frame80215e_create_ie_tsch_channel_hopping_sequence buf len (Some ies) =
        Some (14 + int ?n, poke16 (poke16 b (12 + ?n) 0) 0
          (mlme_long_ie_descriptor MLME_LONG_IE_TSCH_CHANNEL_HOPPING_SEQUENCE (12 + int ?n)))"
      using True assms(3) lb b(1,2)
      by (simp add: frame80215e_create_ie_tsch_channel_hopping_sequence_def Let_def WRITE16_some create_mlme_long_ie_descriptor_def)
    have "nat (14 + int ?n) = 14 + ?n" by linarith
    then show ?thesis using e d b(2) True by (simp add: writes_within_def)
  next
    case False
    then show ?thesis using assms(3)
      by (auto simp: writes_within_def frame80215e_create_ie_tsch_channel_hopping_sequence_def Let_def)
  qed
qed

text \<open>
  C23: Given a buffer of at least \<open>len\<close> bytes, each writer either returns \<open>-1\<close> and leaves the buffer alone, or
  returns the size of the element, at most \<open>len\<close>, and touches no byte beyond it. The exception is the channel hopping writer
  with sequence identifier 0, which is left out: it can write past the end (\<open>create_ie_hopping_id0_overflow\<close>).
\<close>

theorem create_ie_writes_within:
  assumes "len \<le> int (length buf)" and "\<And>i. ies = Some i \<Longrightarrow> ies_ok i"
    and "f \<in> {frame80215e_create_ie_header_ack_nack_time_correction, frame80215e_create_ie_header_list_termination_1,
      frame80215e_create_ie_header_list_termination_2, frame80215e_create_ie_payload_list_termination,
      frame80215e_create_ie_mlme, frame80215e_create_ie_tsch_synchronization,
      frame80215e_create_ie_tsch_slotframe_and_link, frame80215e_create_ie_tsch_timeslot} \<or>
      f = frame80215e_create_ie_tsch_channel_hopping_sequence \<and> (\<forall>i. ies = Some i \<longrightarrow> ie_channel_hopping_sequence_id i \<noteq> 0)"
  shows "writes_within f buf len ies"
proof (cases ies)
  case None
  then show ?thesis using assms(3)
    by (auto simp: writes_within_def frame80215e_create_ie_header_ack_nack_time_correction_def
        frame80215e_create_ie_header_list_termination_1_def frame80215e_create_ie_header_list_termination_2_def
        frame80215e_create_ie_payload_list_termination_def frame80215e_create_ie_mlme_def
        frame80215e_create_ie_tsch_synchronization_def frame80215e_create_ie_tsch_slotframe_and_link_def
        frame80215e_create_ie_tsch_timeslot_def frame80215e_create_ie_tsch_channel_hopping_sequence_def)
next
  case (Some i)
  have small:
    "writes_within frame80215e_create_ie_header_ack_nack_time_correction buf len (Some i)"
    "writes_within frame80215e_create_ie_header_list_termination_1 buf len (Some i)"
    "writes_within frame80215e_create_ie_header_list_termination_2 buf len (Some i)"
    "writes_within frame80215e_create_ie_payload_list_termination buf len (Some i)"
    "writes_within frame80215e_create_ie_mlme buf len (Some i)"
    "writes_within frame80215e_create_ie_tsch_synchronization buf len (Some i)"
    using assms(1)
    by (auto simp: writes_within_def WRITE16_some create_header_ie_descriptor_def create_payload_ie_descriptor_def
        create_mlme_short_ie_descriptor_def frame80215e_create_ie_header_ack_nack_time_correction_def Let_def
        frame80215e_create_ie_header_list_termination_1_def frame80215e_create_ie_header_list_termination_2_def
        frame80215e_create_ie_payload_list_termination_def frame80215e_create_ie_mlme_def
        frame80215e_create_ie_tsch_synchronization_def)
  show ?thesis using assms Some small wf_slotframe [of len buf i] wf_timeslot [of len buf i] wf_hopping [of len buf i] by auto
qed

definition sample_ies :: ies where
  "sample_ies = \<lparr>ie_time_correction = 0xfffe, ie_is_nack = 1, ie_payload_ie_offset = 0, ie_mlme_len = 20,
     ie_asn_ls4b = 0x01020304, ie_asn_ms1b = 5, ie_join_priority = 6, ie_tsch_timeslot_id = 0,
     ie_tsch_timeslot = replicate 12 0,
     ie_tsch_slotframe_and_link = \<lparr>sf_num_slotframes = 1, sf_slotframe_handle = 9, sf_slotframe_size = 17, sf_num_links = 1,
       sf_links = replicate 4 \<lparr>lk_timeslot = 3, lk_channel_offset = 2, lk_link_options = 1\<rparr>\<rparr>,
     ie_channel_hopping_sequence_id = 0, ie_hopping_sequence_len = 4, ie_hopping_sequence_list = replicate 16 11\<rparr>"

lemma sample_ies_ok: "ies_ok sample_ies"
  by (simp add: ies_ok_def sample_ies_def tsch_ts_elements_count_def TSCH_HOPPING_SEQUENCE_MAX_LEN_def)

theorem create_ie_writes_within_witness:
  "writes_within frame80215e_create_ie_tsch_slotframe_and_link (replicate 16 0) 14 (Some sample_ies)"
  by (rule create_ie_writes_within) (simp_all add: sample_ies_ok)

text \<open>
  With sequence identifier 0 the channel hopping writer checks the room for the identifier alone but writes the
  whole element: in a buffer of \<open>len\<close> bytes it writes past the end whenever fewer than 14 bytes plus the
  sequence are left, although the size it reports is 3.
\<close>

theorem create_ie_hopping_id0_overflow:
  assumes "ies_ok ies" and "ie_channel_hopping_sequence_id ies = 0"
    and "unat (ie_hopping_sequence_len ies) \<le> TSCH_HOPPING_SEQUENCE_MAX_LEN"
    and "3 \<le> len" and "len = int (length buf)"
  shows "(frame80215e_create_ie_tsch_channel_hopping_sequence buf len (Some ies) = None \<longleftrightarrow>
      len < 14 + int (unat (ie_hopping_sequence_len ies))) \<and>
    (\<forall>r buf'. frame80215e_create_ie_tsch_channel_hopping_sequence buf len (Some ies) = Some (r, buf') \<longrightarrow> r = 3)"
proof -
  let ?f = "frame80215e_create_ie_tsch_channel_hopping_sequence buf len (Some ies)"
  let ?n = "unat (ie_hopping_sequence_len ies)"
  let ?l = "take ?n (ie_hopping_sequence_list ies)"
  have some: "r = 3 \<and> 14 + ?n \<le> length buf" if "?f = Some (r, buf')" for r buf'
    using that assms(2-4)
    by (auto simp: frame80215e_create_ie_tsch_channel_hopping_sequence_def Let_def
        dest!: wr_SomeD WRITE16_SomeD wr_list_SomeD split: Option.bind_splits)
  have "\<exists>r b. ?f = Some (r, b)" if lb: "14 + ?n \<le> length buf"
  proof -
    let ?b = "poke16 (poke16 (poke16 (poke16 (buf[2 := ie_channel_hopping_sequence_id ies, 3 := 0]) 4 0) 6 0) 8 0) 10 (ie_hopping_sequence_len ies)"
    have ll: "length ?l = ?n" using assms(1,3) by (simp add: ies_ok_def)
    obtain b where b: "wr_list ?b 12 ?l = Some b" "length b = length buf"
      using wr_list_some [of 12 ?l ?b] ll lb by auto
    then show ?thesis using assms(2-4) lb
      by (simp add: frame80215e_create_ie_tsch_channel_hopping_sequence_def Let_def WRITE16_some create_mlme_long_ie_descriptor_def)
  qed
  then have "?f = None \<longleftrightarrow> \<not> 14 + ?n \<le> length buf" using some by (cases ?f) auto
  moreover have "len < 14 + int ?n \<longleftrightarrow> \<not> 14 + ?n \<le> length buf" using assms(5) by linarith
  ultimately show ?thesis using some by blast
qed

theorem create_ie_hopping_id0_overflow_witness:
  "frame80215e_create_ie_tsch_channel_hopping_sequence [0, 0, 0] 3 (Some sample_ies) = None"
proof -
  have len: "unat (ie_hopping_sequence_len sample_ies) = 4" and id: "ie_channel_hopping_sequence_id sample_ies = 0"
    unfolding sample_ies_def by simp_all
  have p: "unat (ie_hopping_sequence_len sample_ies) \<le> TSCH_HOPPING_SEQUENCE_MAX_LEN"
    unfolding len TSCH_HOPPING_SEQUENCE_MAX_LEN_def by simp
  have l: "(3 :: int) = int (length [0, 0, 0 :: u8])" by simp
  have "(3 :: int) < 14 + int (unat (ie_hopping_sequence_len sample_ies))" unfolding len by simp
  then show ?thesis
    using create_ie_hopping_id0_overflow [OF sample_ies_ok id p _ l] by blast
qed

subsection \<open>Reading back what was written\<close>

lemma bit_of_small:
  fixes v :: u16
  assumes "-2048 \<le> sint v" and "sint v < 2048" and "11 \<le> n" and "n < 16"
  shows "bit v n = bit v 11"
proof -
  have "signed_take_bit 11 (sint v) = sint v" using assms(1,2) by (simp add: signed_take_bit_int_eq_self_iff)
  moreover have "bit (signed_take_bit 11 (sint v)) n = bit (sint v) 11"
    using assms(3) by (simp add: bit_signed_take_bit_iff min.absorb1)
  ultimately have "bit (sint v) n = bit (sint v) 11" by simp
  then show ?thesis using assms(3,4) by (simp add: bit_sint_iff)
qed

lemma bit_masks:
  "bit (0xfff :: u16) n \<longleftrightarrow> n < 12" "bit (0x8000 :: u16) n \<longleftrightarrow> n = 15"
  "bit (0x800 :: u16) n \<longleftrightarrow> n = 11" "bit (0xf000 :: u16) n \<longleftrightarrow> 12 \<le> n \<and> n < 16"
proof -
  have m: "(0xfff :: u16) = mask 12" "(0x8000 :: u16) = push_bit 15 1" "(0x800 :: u16) = push_bit 11 1"
    "(0xf000 :: u16) = push_bit 12 (mask 4)"
    by (simp_all add: mask_eq_exp_minus_1)
  show "bit (0xfff :: u16) n \<longleftrightarrow> n < 12" "bit (0x8000 :: u16) n \<longleftrightarrow> n = 15"
    "bit (0x800 :: u16) n \<longleftrightarrow> n = 11" "bit (0xf000 :: u16) n \<longleftrightarrow> 12 \<le> n \<and> n < 16"
    unfolding m bit_push_bit_iff bit_mask_iff bit_1_iff by auto
qed

lemma sync_field_bits:
  fixes v :: u16
  shows "((v AND 0xfff) OR 0x8000) AND 0x8000 \<noteq> 0" and "(v AND 0xfff) AND 0x8000 = 0"
    and "((v AND 0xfff) OR 0x8000) AND 0x800 = (v AND 0x800)" and "(v AND 0xfff) AND 0x800 = (v AND 0x800)"
    and "((v AND 0xfff) OR 0x8000) AND 0xfff = v AND 0xfff" and "(v AND 0xfff) AND 0xfff = v AND 0xfff"
    and "((v AND 0xfff) OR 0x8000) OR 0xf000 = v OR 0xf000" and "(v AND 0xfff) OR 0xf000 = v OR 0xf000"
proof -
  have "bit (((v AND 0xfff) OR 0x8000) AND 0x8000) 15" by (simp add: bit_and_iff bit_or_iff bit_masks)
  then show "((v AND 0xfff) OR 0x8000) AND 0x8000 \<noteq> 0" by (metis bit_0_eq bot_apply bot_bool_def)
  show "(v AND 0xfff) AND 0x8000 = 0" "((v AND 0xfff) OR 0x8000) AND 0x800 = (v AND 0x800)"
    "(v AND 0xfff) AND 0x800 = (v AND 0x800)" "((v AND 0xfff) OR 0x8000) AND 0xfff = v AND 0xfff"
    "(v AND 0xfff) AND 0xfff = v AND 0xfff" "((v AND 0xfff) OR 0x8000) OR 0xf000 = v OR 0xf000"
    "(v AND 0xfff) OR 0xf000 = v OR 0xf000"
    by (rule bit_word_eqI; simp only: bit_and_iff bit_or_iff bit_masks bit_0_eq bot_apply; auto)+
qed

lemma drift_of_small:
  fixes v :: u16
  assumes "-2048 \<le> sint v" and "sint v < 2048"
  shows "(if v AND 0x800 \<noteq> 0 then v OR 0xf000 else v AND 0xfff) = v"
proof -
  have top: "bit v n = bit v 11" if "11 \<le> n" "n < 16" for n using bit_of_small [OF assms that] .
  have "v AND push_bit 11 1 \<noteq> 0 \<longleftrightarrow> bit v 11" by (rule bit_iff_and_push_bit_not_eq_0 [symmetric])
  then have t: "v AND 0x800 \<noteq> 0 \<longleftrightarrow> bit v 11" by simp
  have "v OR 0xf000 = v" if "bit v 11"
  proof (rule bit_word_eqI)
    fix n assume "n < LENGTH(16)"
    then show "bit (v OR 0xf000) n = bit v n"
      using that top [of n] unfolding bit_or_iff bit_masks by (cases "11 \<le> n") auto
  qed
  moreover have "v AND 0xfff = v" if "\<not> bit v 11"
  proof (rule bit_word_eqI)
    fix n assume "n < LENGTH(16)"
    then show "bit (v AND 0xfff) n = bit v n"
      using that top [of n] unfolding bit_and_iff bit_masks by (cases "11 \<le> n") auto
  qed
  ultimately show ?thesis unfolding t by (simp only: split: if_splits) simp
qed

lemma ie_loop_go:
  "READ16 buf off = Some d \<Longrightarrow> \<not> bs < 2 \<Longrightarrow> bs \<noteq> 0 \<Longrightarrow> off' = off + 2 \<Longrightarrow>
    ie_step buf off' (bs - 2) d st nested ies = Some (Go len st' nested' ies') \<Longrightarrow>
    ie_loop buf off bs st nested ies = ie_loop buf (off' + unat len) (bs - 2 - ucast len) st' nested' ies'"
  unfolding ie_loop.simps [of buf off bs] by simp

lemma ie_loop_stop:
  "READ16 buf off = Some d \<Longrightarrow> \<not> bs < 2 \<Longrightarrow> bs \<noteq> 0 \<Longrightarrow> off' = off + 2 \<Longrightarrow>
    ie_step buf off' (bs - 2) d st nested ies = None \<Longrightarrow> ie_loop buf off bs st nested ies = None"
  unfolding ie_loop.simps [of buf off bs] by simp

lemma ie_loop_end:
  "ie_loop buf off 0 st nested ies =
    Some (int off, if st = PARSING_HEADER_IE then ies\<lparr>ie_payload_ie_offset := of_nat off\<rparr> else ies)"
  by (subst ie_loop.simps) simp

text \<open>
  The time correction element the writer produces is read back by the parser of the whole frame: the
  acknowledgement flag as 0 or 1, and the drift unchanged whenever it fits the 12 signed bits of the field. The
  parser reports the four bytes of the element and an empty payload behind them.
\<close>

theorem ack_nack_roundtrip:
  assumes "-2048 \<le> sint (ie_time_correction ies)" and "sint (ie_time_correction ies) < 2048" and "4 \<le> length buf"
  shows "\<exists>b. frame80215e_create_ie_header_ack_nack_time_correction buf (int (length buf)) (Some ies) = Some (4, b) \<and>
    frame802154e_parse_information_elements b 4 (Some out) =
      Some (4, Some (out\<lparr>ie_is_nack := (if ie_is_nack ies \<noteq> 0 then 1 else 0),
        ie_time_correction := ie_time_correction ies, ie_payload_ie_offset := 4\<rparr>))"
proof -
  let ?f = "if ie_is_nack ies \<noteq> 0 then (ie_time_correction ies AND 0xfff) OR 0x8000 else ie_time_correction ies AND 0xfff"
  let ?b = "poke16 (poke16 buf 2 ?f) 0 0xf02"
  have d: "header_ie_descriptor HEADER_IE_ACK_NACK_TIME_CORRECTION 2 = 0xf02"
    by (simp add: header_ie_descriptor_def ie_ids)
  have c: "frame80215e_create_ie_header_ack_nack_time_correction buf (int (length buf)) (Some ies) = Some (4, ?b)"
    using assms(3) d by (simp add: frame80215e_create_ie_header_ack_nack_time_correction_def Let_def WRITE16_some
        create_header_ie_descriptor_def)
  have r: "READ16 ?b 0 = Some 0xf02" "READ16 ?b 2 = Some ?f"
    using assms(3) by (simp_all add: READ16_poke16 READ16_poke16_other)
  have h: "frame802154e_parse_header_ie ?b 2 2 HEADER_IE_ACK_NACK_TIME_CORRECTION j =
      Some (2, j\<lparr>ie_is_nack := (if ie_is_nack ies \<noteq> 0 then 1 else 0), ie_time_correction := ie_time_correction ies\<rparr>)" for j
    using r(2) drift_of_small [OF assms(1,2)]
    by (auto simp: frame802154e_parse_header_ie_def Let_def sync_field_bits)
  show ?thesis
  proof (intro exI [of _ ?b] conjI c)
    have s: "ie_step ?b 2 2 0xf02 PARSING_HEADER_IE 0 j =
      Some (Go 2 PARSING_HEADER_IE 0 (j\<lparr>ie_is_nack := (if ie_is_nack ies \<noteq> 0 then 1 else 0),
        ie_time_correction := ie_time_correction ies\<rparr>))" for j
      using h [of j] by (simp add: ie_step_def header_step_def Let_def ie_ids)
    have "ie_loop ?b 0 4 PARSING_HEADER_IE 0 j = ie_loop ?b (2 + unat (2 :: u16)) (4 - 2 - ucast (2 :: u16)) PARSING_HEADER_IE 0
        (j\<lparr>ie_is_nack := (if ie_is_nack ies \<noteq> 0 then 1 else 0), ie_time_correction := ie_time_correction ies\<rparr>)" for j
      by (rule ie_loop_go [OF r(1)]) (use s [of j] in simp_all)
    then have "ie_loop ?b 0 4 PARSING_HEADER_IE 0 j =
      Some (4, j\<lparr>ie_is_nack := (if ie_is_nack ies \<noteq> 0 then 1 else 0),
        ie_time_correction := ie_time_correction ies, ie_payload_ie_offset := 4\<rparr>)" for j
      by (simp add: ie_loop_end)
    then show "frame802154e_parse_information_elements ?b 4 (Some out) =
      Some (4, Some (out\<lparr>ie_is_nack := (if ie_is_nack ies \<noteq> 0 then 1 else 0),
        ie_time_correction := ie_time_correction ies, ie_payload_ie_offset := 4\<rparr>))"
      by (simp add: frame802154e_parse_information_elements_def)
  qed
qed

theorem ack_nack_roundtrip_witness:
  "\<exists>b. frame80215e_create_ie_header_ack_nack_time_correction [9, 9, 9, 9] 4 (Some sample_ies) = Some (4, b) \<and>
    frame802154e_parse_information_elements b 4 (Some sample_ies) =
      Some (4, Some (sample_ies\<lparr>ie_is_nack := 1, ie_time_correction := 0xfffe, ie_payload_ie_offset := 4\<rparr>))"
proof -
  have "ie_time_correction sample_ies = 0xfffe" "ie_is_nack sample_ies = 1" unfolding sample_ies_def by simp_all
  then show ?thesis using ack_nack_roundtrip [of sample_ies "[9, 9, 9, 9]" sample_ies] by simp
qed

lemma ie_link_eta: "\<lparr>lk_timeslot = lk_timeslot r, lk_channel_offset = lk_channel_offset r, lk_link_options = lk_link_options r\<rparr> = r"
  by (cases r) simp

lemma parse_links_some:
  "off + 5 + 5 * (i + n) \<le> length b \<Longrightarrow> i + n \<le> length l \<Longrightarrow> length l = length links \<Longrightarrow>
   (\<forall>k. i \<le> k \<and> k < i + n \<longrightarrow> READ16 b (off + 5 + 5 * k) = Some (lk_timeslot (links ! k)) \<and>
       READ16 b (off + 7 + 5 * k) = Some (lk_channel_offset (links ! k)) \<and> b ! (off + 9 + 5 * k) = lk_link_options (links ! k)) \<Longrightarrow>
   parse_links b off i n l = Some (take i l @ take n (drop i links) @ drop (i + n) l)"
proof (induction n arbitrary: i l)
  case (Suc n)
  have h: "READ16 b (off + 5 + i * 5) = Some (lk_timeslot (links ! i))"
    "READ16 b (off + 5 + i * 5 + 2) = Some (lk_channel_offset (links ! i))"
    "rd b (off + 5 + i * 5 + 4) = Some (lk_link_options (links ! i))"
    using Suc.prems(4) [rule_format, of i] Suc.prems(1) by (simp_all add: algebra_simps)
  have "parse_links b off i (Suc n) l = parse_links b off (Suc i) n (l[i := links ! i])"
    using h by (simp add: ie_link_eta)
  also have "\<dots> = Some (take (Suc i) (l[i := links ! i]) @ take n (drop (Suc i) links) @ drop (Suc i + n) (l[i := links ! i]))"
    by (rule Suc.IH) (use Suc.prems in auto)
  also have "take (Suc i) (l[i := links ! i]) = take i l @ [links ! i]"
    using Suc.prems(2) by (simp add: take_Suc_conv_app_nth)
  also have "take (Suc n) (drop i links) = links ! i # take n (drop (Suc i) links)"
    using Suc.prems(2,3) by (simp add: Cons_nth_drop_Suc [symmetric])
  ultimately show ?case by simp
qed simp
lemma byte_lor_ls4b:
  "ucast (ucast a :: u8) OR push_bit 8 (ucast (ucast (drop_bit 8 a) :: u8)) OR push_bit 16 (ucast (ucast (drop_bit 16 a) :: u8)) OR
   push_bit 24 (ucast (ucast (drop_bit 24 a) :: u8)) = (a :: u32)"
proof (rule bit_word_eqI)
  fix n assume "n < LENGTH(32)"
  then have n: "n < 32" by simp
  then consider "n < 8" | "8 \<le> n" "n < 16" | "16 \<le> n" "n < 24" | "24 \<le> n" by linarith
  then show "bit (ucast (ucast a :: u8) OR push_bit 8 (ucast (ucast (drop_bit 8 a) :: u8)) OR push_bit 16 (ucast (ucast (drop_bit 16 a) :: u8)) OR
   push_bit 24 (ucast (ucast (drop_bit 24 a) :: u8)) :: u32) n = bit a n"
    by cases (use n in \<open>auto simp: bit_or_iff bit_push_bit_iff bit_ucast_iff bit_drop_bit_eq\<close>)
qed

text \<open>
  A synchronization element that was written is read back as it was inside an MLME element that it fills: the
  40 bits of the absolute slot number and the join priority reach the parsed structure, and the parser goes on
  behind the element, at the next payload element.
\<close>

theorem synchronization_roundtrip:
  assumes "8 \<le> length buf"
  shows "\<exists>b d. frame80215e_create_ie_tsch_synchronization buf (int (length buf)) (Some ies) = Some (8, b) \<and>
    READ16 b 0 = Some d \<and>
    ie_step b 2 6 d PARSING_MLME_SUBIE 8 out = Some (Go 6 PARSING_PAYLOAD_IE 0
      (out\<lparr>ie_asn_ls4b := ie_asn_ls4b ies, ie_asn_ms1b := ie_asn_ms1b ies, ie_join_priority := ie_join_priority ies\<rparr>))"
proof -
  let ?a = "ie_asn_ls4b ies"
  let ?b0 = "buf[2 := ucast ?a, 3 := ucast (drop_bit 8 ?a), 4 := ucast (drop_bit 16 ?a), 5 := ucast (drop_bit 24 ?a),
    6 := ie_asn_ms1b ies, 7 := ie_join_priority ies]"
  let ?b = "poke16 ?b0 0 0x1a06"
  have d: "mlme_short_ie_descriptor MLME_SHORT_IE_TSCH_SYNCHRONIZATION 6 = 0x1a06"
    by (simp add: mlme_short_ie_descriptor_def ie_ids)
  have c: "frame80215e_create_ie_tsch_synchronization buf (int (length buf)) (Some ies) = Some (8, ?b)"
    using assms d by (simp add: frame80215e_create_ie_tsch_synchronization_def WRITE16_some create_mlme_short_ie_descriptor_def)
  have n: "?b ! 2 = ucast ?a" "?b ! 3 = ucast (drop_bit 8 ?a)" "?b ! 4 = ucast (drop_bit 16 ?a)" "?b ! 5 = ucast (drop_bit 24 ?a)"
    "?b ! 6 = ie_asn_ms1b ies" "?b ! 7 = ie_join_priority ies"
    using assms by (simp_all add: poke16_def)
  have "parse_synchronization ?b 2 6 out = Some (6, out\<lparr>ie_asn_ls4b := ?a, ie_asn_ms1b := ie_asn_ms1b ies, ie_join_priority := ie_join_priority ies\<rparr>)"
    using assms n by (simp add: parse_synchronization_def rd_def byte_lor_ls4b)
  then have "ie_step ?b 2 6 0x1a06 PARSING_MLME_SUBIE 8 out = Some (Go 6 PARSING_PAYLOAD_IE 0
      (out\<lparr>ie_asn_ls4b := ie_asn_ls4b ies, ie_asn_ms1b := ie_asn_ms1b ies, ie_join_priority := ie_join_priority ies\<rparr>))"
    by (simp add: ie_step_def mlme_step_def Let_def frame802154e_parse_mlme_short_ie_def ie_ids)
  then show ?thesis using c assms by (intro exI [of _ ?b] exI [of _ "0x1a06"]) (simp add: READ16_poke16)
qed

theorem synchronization_roundtrip_witness:
  "\<exists>b d. frame80215e_create_ie_tsch_synchronization (replicate 8 0) 8 (Some sample_ies) = Some (8, b) \<and>
    READ16 b 0 = Some d \<and>
    ie_step b 2 6 d PARSING_MLME_SUBIE 8 sample_ies = Some (Go 6 PARSING_PAYLOAD_IE 0 sample_ies)"
proof -
  have "sample_ies\<lparr>ie_asn_ls4b := ie_asn_ls4b sample_ies, ie_asn_ms1b := ie_asn_ms1b sample_ies,
    ie_join_priority := ie_join_priority sample_ies\<rparr> = sample_ies" by simp
  then show ?thesis using synchronization_roundtrip [of "replicate 8 0" sample_ies sample_ies] by simp
qed

text \<open>
  C12: The slotframe and link element that is written is read back by its parser: the handle, the size and each of
  the links in use; links of the destination beyond those in use keep their values.
\<close>

theorem slotframe_roundtrip:
  fixes ies out :: ies
  defines "sf \<equiv> ie_tsch_slotframe_and_link ies" and "sfo \<equiv> ie_tsch_slotframe_and_link out"
  assumes "ies_ok ies" and "ies_ok out" and "sf_num_slotframes sf = 1" and "unat (sf_num_links sf) \<le> 4"
    and "7 + 5 * unat (sf_num_links sf) \<le> length buf"
  shows "\<exists>b. frame80215e_create_ie_tsch_slotframe_and_link buf (int (length buf)) (Some ies) =
      Some (7 + 5 * int (unat (sf_num_links sf)), b) \<and>
    parse_slotframe b 2 (5 + 5 * int (unat (sf_num_links sf))) out =
      Some (5 + 5 * int (unat (sf_num_links sf)), out\<lparr>ie_tsch_slotframe_and_link := sf\<lparr>sf_links :=
        take (unat (sf_num_links sf)) (sf_links sf) @ drop (unat (sf_num_links sf)) (sf_links sfo)\<rparr>\<rparr>)"
proof -
  define m where "m = unat (sf_num_links sf)"
  have nl: "uint (sf_num_links sf) = int m" and on: "of_nat m = sf_num_links sf" by (simp_all add: m_def)
  let ?b0 = "(poke16 (buf[2 := 1, 3 := sf_slotframe_handle sf]) 4 (sf_slotframe_size sf))[6 := sf_num_links sf]"
  have m: "m \<le> 4" "7 + 5 * m \<le> length buf" using assms(6,7) by (simp_all add: m_def)
  have ll: "length (sf_links sf) = 4" "length (sf_links sfo) = 4" using assms(3,4) by (simp_all add: ies_ok_def sf_def sfo_def)
  obtain b where b: "links_loop (sf_links sf) ?b0 0 m = Some b" "length b = length buf"
    "\<forall>j. j < 7 \<or> 7 + 5 * m \<le> j \<longrightarrow> b ! j = ?b0 ! j"
    "\<forall>k. k < m \<longrightarrow> READ16 b (7 + 5 * k) = Some (lk_timeslot (sf_links sf ! k)) \<and>
       READ16 b (9 + 5 * k) = Some (lk_channel_offset (sf_links sf ! k)) \<and> b ! (11 + 5 * k) = lk_link_options (sf_links sf ! k)"
    using links_loop_some [of 0 m ?b0 "sf_links sf"] m ll by auto
  define bb where "bb = poke16 b 0 (mlme_short_ie_descriptor MLME_SHORT_IE_TSCH_SLOFTRAME_AND_LINK (5 + 5 * int m))"
  have e: "frame80215e_create_ie_tsch_slotframe_and_link buf (int (length buf)) (Some ies) = Some (7 + 5 * int m, bb)"
    using assms(5) m b(1,2) unfolding bb_def
    by (simp add: frame80215e_create_ie_tsch_slotframe_and_link_def Let_def WRITE16_some create_mlme_short_ie_descriptor_def
        sf_def [symmetric] nl on FRAME802154E_IE_MAX_LINKS_def m_def [symmetric])
  have lb: "length bb = length buf" by (simp add: bb_def b(2))
  have same: "bb ! j = b ! j" if "2 \<le> j" for j using that by (simp add: bb_def nth_poke16_other)
  have n: "bb ! 2 = 1" "bb ! 3 = sf_slotframe_handle sf" "bb ! 6 = sf_num_links sf"
    using b(3) m same by (simp_all add: poke16_def)
  have "READ16 ?b0 4 = Some (sf_slotframe_size sf)"
    using m by (simp add: READ16_some poke16_def ucast_lo_hi)
  moreover have r: "READ16 bb j = READ16 b j" if "2 \<le> j" for j
    using that same by (simp add: READ16_def rd_def lb b(2))
  moreover have "READ16 b 4 = READ16 ?b0 4" using b(2,3) m by (simp add: READ16_some)
  ultimately have sz: "READ16 bb 4 = Some (sf_slotframe_size sf)" by simp
  have pl: "parse_links bb 2 0 m (sf_links sfo) = Some (take m (sf_links sf) @ drop m (sf_links sfo))"
    using parse_links_some [of 2 0 m bb "sf_links sfo" "sf_links sf"] m ll lb b(4) r same by simp
  have "parse_slotframe bb 2 (5 + 5 * int m) out = Some (5 + 5 * int m, out\<lparr>ie_tsch_slotframe_and_link :=
      sf\<lparr>sf_links := take m (sf_links sf) @ drop m (sf_links sfo)\<rparr>\<rparr>)"
    using m n sz pl lb assms(5) unfolding parse_slotframe_def
    by (simp add: nl FRAME802154E_IE_MAX_LINKS_def m_def [symmetric] sfo_def [symmetric])
  then show ?thesis using e unfolding m_def by blast
qed
theorem slotframe_roundtrip_witness:
  "\<exists>b. frame80215e_create_ie_tsch_slotframe_and_link (replicate 12 0) 12 (Some sample_ies) = Some (12, b) \<and>
    parse_slotframe b 2 10 sample_ies = Some (10, sample_ies)"
proof -
  have l: "unat (sf_num_links (ie_tsch_slotframe_and_link sample_ies)) = 1"
    "sf_num_slotframes (ie_tsch_slotframe_and_link sample_ies) = 1"
    unfolding sample_ies_def by simp_all
  have "sample_ies\<lparr>ie_tsch_slotframe_and_link := ie_tsch_slotframe_and_link sample_ies\<rparr> = sample_ies" by simp
  then show ?thesis
    using slotframe_roundtrip [OF sample_ies_ok sample_ies_ok l(2), of "replicate 12 0"] unfolding l by simp
qed

subsection \<open>The parser on arbitrary bytes\<close>

lemma parse_links_total:
  "off + 5 + 5 * (i + n) \<le> length b \<Longrightarrow> parse_links b off i n l \<noteq> None"
proof (induction n arbitrary: i l)
  case (Suc n)
  have "off + 5 + 5 * (Suc i + n) \<le> length b" using Suc.prems by simp
  then show ?case using Suc.prems Suc.IH [of "Suc i"] by (auto simp: READ16_some)
qed simp

lemma parse_timeslots_total:
  "off + 1 + 2 * (i + n) \<le> length b \<Longrightarrow> parse_timeslots b off i n l \<noteq> None"
proof (induction n arbitrary: i l)
  case (Suc n)
  have "off + 1 + 2 * (Suc i + n) \<le> length b" using Suc.prems by simp
  then show ?case using Suc.prems Suc.IH [of "Suc i"] by (auto simp: READ16_some)
qed simp

lemma rd_list_total: "off + n \<le> length b \<Longrightarrow> rd_list b off n \<noteq> None"
proof (induction n arbitrary: off)
  case (Suc n)
  then have "rd_list b (Suc off) n \<noteq> None" by (intro Suc.IH) simp
  then obtain vs where "rd_list b (Suc off) n = Some vs" by blast
  then show ?case using Suc.prems by simp
qed simp

text \<open>The elements of the parsers below are in the buffer up to their length, and 8 bytes follow.\<close>

lemma sync_timeslot_total:
  assumes "off + k \<le> length b"
  shows "\<exists>r j. parse_synchronization b off (int k) ies = Some (r, j)" and "\<exists>r j. parse_timeslot b off (int k) ies = Some (r, j)"
proof -
  show "\<exists>r j. parse_synchronization b off (int k) ies = Some (r, j)"
    using assms by (simp add: parse_synchronization_def rd_def)
  consider "k = 25" | "k = 1" | "k \<noteq> 1" "k \<noteq> 25" by blast
  then show "\<exists>r j. parse_timeslot b off (int k) ies = Some (r, j)"
  proof cases
    case 1
    then have "off + 1 + 2 * (0 + 12) \<le> length b" using assms by simp
    from parse_timeslots_total [OF this] obtain l where "parse_timeslots b off 0 12 (ie_tsch_timeslot ies) = Some l" by blast
    then show ?thesis using assms 1 by (simp add: parse_timeslot_def tsch_ts_elements_count_def)
  next
    case 2
    then show ?thesis using assms by (simp add: parse_timeslot_def)
  next
    case 3
    then show ?thesis by (simp add: parse_timeslot_def)
  qed
qed

lemma slotframe_total:
  assumes "off + k + 8 \<le> length b"
  shows "\<exists>r j. parse_slotframe b off (int k) ies = Some (r, j)"
proof (cases "1 \<le> k \<and> b ! off \<noteq> 0 \<and> b ! off \<le> 1 \<and> int k = 1 + uint (b ! off) * (4 + 5 * uint (b ! (off + 4)))")
  case True
  then have "unat (b ! off) \<noteq> 0" "unat (b ! off) \<le> 1" by (simp_all add: word_le_nat_alt unat_eq_0)
  then have "uint (b ! off) = 1" unfolding uint_nat by linarith
  moreover define m where "m = unat (b ! (off + 4))"
  moreover have "uint (b ! (off + 4)) = int m" by (simp add: m_def)
  ultimately have "int k = 5 + 5 * int m" using True by simp
  then have "k = 5 + 5 * m" by linarith
  then have "off + 5 + 5 * (0 + m) \<le> length b" using assms by simp
  from parse_links_total [OF this] obtain l where
    "parse_links b off 0 m (sf_links (ie_tsch_slotframe_and_link ies)) = Some l" by blast
  then show ?thesis using assms True by (simp add: parse_slotframe_def READ16_some m_def [symmetric])
next
  case False
  then show ?thesis using assms by (auto simp: parse_slotframe_def)
qed

lemma short_ie_total:
  "off + k + 8 \<le> length b \<Longrightarrow> \<exists>r j. frame802154e_parse_mlme_short_ie b off (int k) sub ies = Some (r, j)"
  using sync_timeslot_total [of off k b ies] slotframe_total [of off k b ies]
  by (simp add: frame802154e_parse_mlme_short_ie_def)

lemma long_ie_total:
  assumes "off + k + 8 \<le> length b"
  shows "\<exists>r j. frame802154e_parse_mlme_long_ie b off (int k) sub ies = Some (r, j)"
proof (cases "1 < k")
  case True
  then obtain n where n: "READ16 b (off + 8) = Some n" using assms by (simp add: READ16_some)
  have "\<exists>l. rd_list b (off + 10) (unat n) = Some l" if "int k = 12 + uint n"
  proof -
    have "int k = 12 + int (unat n)" using that by simp
    then have "off + 10 + unat n \<le> length b" using assms by linarith
    from rd_list_total [OF this] show ?thesis by blast
  qed
  then show ?thesis using assms n by (auto simp: frame802154e_parse_mlme_long_ie_def Let_def)
next
  case False
  then show ?thesis using assms by (auto simp: frame802154e_parse_mlme_long_ie_def Let_def)
qed

lemma header_ie_total:
  assumes "off + k \<le> length b"
  shows "\<exists>r j. frame802154e_parse_header_ie b off (int k) eid ies = Some (r, j)"
  using assms by (simp add: frame802154e_parse_header_ie_def READ16_some Let_def)

lemma ie_step_total:
  assumes "off + unat bs + 8 \<le> length b"
  shows "\<exists>r. ie_step b off bs d st nested ies = Some r \<and> (\<forall>v j. r = Ret v j \<longrightarrow> v = -1 \<or> v = int off)"
proof -
  have bs: "unat bs < 2 ^ LENGTH(8)" by (rule unsigned_less)
  have room: "off + unat len + 8 \<le> length b" if "\<not> ucast bs < len" for len :: u16
  proof -
    have "unat len \<le> unat (ucast bs :: u16)" using that by (simp add: word_less_nat_alt not_less)
    also have "\<dots> = unat bs" using bs by (simp add: unsigned_ucast_eq take_bit_eq_mod)
    finally show ?thesis using assms by simp
  qed
  show ?thesis
  proof (cases st)
    case PARSING_HEADER_IE
    let ?len = "d AND 0x7f" and ?id = "ucast (drop_bit 7 (d AND 0x7f80)) :: u8"
    show ?thesis
    proof (cases "ucast bs < ?len")
      case True
      then show ?thesis using PARSING_HEADER_IE by (auto simp: ie_step_def header_step_def Let_def)
    next
      case False
      from room [OF False] have "off + unat ?len \<le> length b" by simp
      from header_ie_total [OF this, of ?id ies] show ?thesis using PARSING_HEADER_IE
        by (auto simp: ie_step_def header_step_def Let_def)
    qed
  next
    case PARSING_PAYLOAD_IE
    then show ?thesis by (auto simp: ie_step_def payload_step_def Let_def)
  next
    case PARSING_MLME_SUBIE
    let ?short = "d AND 0x8000 = 0"
    define len where "len = (if ?short then d AND 0xff else d AND 0x7ff)"
    show ?thesis
    proof (cases "ucast bs < len")
      case True
      then show ?thesis using PARSING_MLME_SUBIE by (auto simp: ie_step_def mlme_step_def Let_def len_def)
    next
      case False
      from short_ie_total [OF room [OF False], of "ucast (drop_bit 8 (d AND 0x7f00))" ies]
        long_ie_total [OF room [OF False], of "ucast (drop_bit 11 (d AND 0x7800))" ies]
      show ?thesis using PARSING_MLME_SUBIE
        by (auto simp: ie_step_def mlme_step_def Let_def len_def)
    qed
  qed
qed
lemma ie_loop_total:
  "off + unat bs + 8 \<le> length b \<Longrightarrow>
    \<exists>v j. ie_loop b off bs st nested ies = Some (v, j) \<and> (v = -1 \<or> int off \<le> v \<and> v \<le> int (off + unat bs))"
proof (induction b off bs st nested ies rule: ie_loop.induct)
  case (1 b off bs st nested ies)
  show ?case
  proof (cases "bs = 0 \<or> bs < 2")
    case True
    then show ?thesis unfolding ie_loop.simps [of b off bs] by auto
  next
    case False
    then have two: "2 \<le> unat bs" by (simp add: word_less_nat_alt)
    then have b2: "unat (bs - 2) = unat bs - 2" by (simp add: unat_sub_if_size)
    obtain d where d: "READ16 b off = Some d" using two "1.prems" by (simp add: READ16_some)
    have "(off + 2) + unat (bs - 2) + 8 \<le> length b" using two "1.prems" b2 by simp
    from ie_step_total [OF this] obtain r where
      r: "ie_step b (off + 2) (bs - 2) d st nested ies = Some r" "\<And>v j. r = Ret v j \<Longrightarrow> v = -1 \<or> v = int (off + 2)" by blast
    show ?thesis
    proof (cases r)
      case (Ret v j)
      moreover have "2 \<le> uint bs" using two unfolding unat_eq_nat_uint by linarith
      ultimately show ?thesis using r d two False unfolding ie_loop.simps [of b off bs] by auto
    next
      case (Go len st' nested' ies')
      have "\<not> bs < 2" using False by simp
      from skip_decreases [of bs len] step_len_le [OF r(1) [unfolded Go]] this
      have sk: "unat (bs - 2 - ucast len) + unat len + 2 = unat bs" by simp
      have "\<exists>v j. ie_loop b (off + 2 + unat len) (bs - 2 - ucast len) st' nested' ies' = Some (v, j) \<and>
        (v = -1 \<or> int (off + 2 + unat len) \<le> v \<and> v \<le> int (off + 2 + unat len + unat (bs - 2 - ucast len)))"
        by (rule "1.IH") (use False d r Go sk "1.prems" in simp_all)
      then obtain v j where vj: "ie_loop b (off + 2 + unat len) (bs - 2 - ucast len) st' nested' ies' = Some (v, j)"
        "v = -1 \<or> int (off + 2 + unat len) \<le> v \<and> v \<le> int (off + 2 + unat len + unat (bs - 2 - ucast len))" by blast
      have "ie_loop b off bs st nested ies = ie_loop b (off + 2 + unat len) (bs - 2 - ucast len) st' nested' ies'"
        using ie_loop_go [OF d] False r(1) Go by blast
      moreover have "v = -1 \<or> int off \<le> v \<and> v \<le> int (off + unat bs)" using vj(2) sk by linarith
      ultimately show ?thesis using vj(1) by (intro exI [of _ v] exI [of _ j] conjI) simp_all
    qed
  qed
qed

text \<open>
  C24: The parser returns on every input: for any bytes, when the buffer extends at least 8 bytes beyond the size
  given, it ends, accesses nothing outside of the buffer, and returns \<open>-1\<close> or a length between 0 and that size.
\<close>

theorem parse_information_elements_total:
  assumes "unat buf_size + 8 \<le> length buf"
  shows "\<exists>v j. frame802154e_parse_information_elements buf buf_size ies = Some (v, j) \<and>
    (v = -1 \<or> 0 \<le> v \<and> v \<le> int (unat buf_size))"
proof (cases ies)
  case (Some i)
  have "0 + unat buf_size + 8 \<le> length buf" using assms by simp
  from ie_loop_total [OF this, of PARSING_HEADER_IE 0 "i\<lparr>ie_payload_ie_offset := 0\<rparr>"] Some show ?thesis
    by (auto simp: frame802154e_parse_information_elements_def)
qed (simp add: frame802154e_parse_information_elements_def)

theorem parse_information_elements_total_witness:
  "\<exists>v j. frame802154e_parse_information_elements (replicate 12 0xff) 4 (Some sample_ies) = Some (v, j) \<and>
    (v = -1 \<or> 0 \<le> v \<and> v \<le> 4)"
  using parse_information_elements_total [of 4 "replicate 12 0xff" "Some sample_ies"] by simp

text \<open>
  The margin is needed: on a frame that ends with a slotframe and link element of length 1, the parser reads the
  number of links three bytes behind the end of the frame, before it looks at the number of slotframes.
\<close>

theorem parse_slotframe_reads_past_frame:
  "frame802154e_parse_information_elements [0x00, 0x3f, 0x03, 0x88, 0x01, 0x1b, 0] 7 (Some ies) = None"
proof -
  let ?b = "[0x00, 0x3f, 0x03, 0x88, 0x01, 0x1b, 0] :: u8 list"
  define i2 where "i2 = ies\<lparr>ie_payload_ie_offset := 2\<rparr>"
  have r: "READ16 ?b 0 = Some 0x3f00" "READ16 ?b 2 = Some 0x8803" "READ16 ?b 4 = Some 0x1b01"
    by (simp_all add: READ16_def rd_def)
  have s: "ie_step ?b 2 5 0x3f00 PARSING_HEADER_IE 0 (ies\<lparr>ie_payload_ie_offset := 0\<rparr>) = Some (Go 0 PARSING_PAYLOAD_IE 0 i2)"
    "ie_step ?b 4 3 0x8803 PARSING_PAYLOAD_IE 0 i2 = Some (Go 0 PARSING_MLME_SUBIE 3 i2)"
    by (simp_all add: ie_step_def header_step_def payload_step_def Let_def ie_ids i2_def)
  have w: "(7 :: u8) - 2 = 5" "(5 :: u8) - 2 = 3" "(5 :: u8) - ucast (0 :: u16) = 5" "(3 :: u8) - ucast (0 :: u16) = 3" "2 + unat (0 :: u16) = 2"
    "4 + unat (0 :: u16) = 4" "\<not> (7 :: u8) < 2" "(7 :: u8) \<noteq> 0" "\<not> (5 :: u8) < 2" "(5 :: u8) \<noteq> 0" "(2 :: nat) = 0 + 2" "(4 :: nat) = 2 + 2"
    by simp_all
  have 1: "ie_loop ?b 0 7 PARSING_HEADER_IE 0 (ies\<lparr>ie_payload_ie_offset := 0\<rparr>) = ie_loop ?b 2 5 PARSING_PAYLOAD_IE 0 i2"
    using ie_loop_go [OF r(1) w(7,8,11), unfolded w(1), OF s(1)] unfolding w(1-6) .
  have 2: "ie_loop ?b 2 5 PARSING_PAYLOAD_IE 0 i2 = ie_loop ?b 4 3 PARSING_MLME_SUBIE 3 i2"
    using ie_loop_go [OF r(2) w(9,10,12), unfolded w(2), OF s(2)] unfolding w(1-6) .
  have "parse_slotframe ?b 6 1 i2 = None" by (simp add: parse_slotframe_def rd_def)
  then have "ie_step ?b 6 (3 - 2) 0x1b01 PARSING_MLME_SUBIE 3 i2 = None"
    by (simp add: ie_step_def mlme_step_def frame802154e_parse_mlme_short_ie_def Let_def ie_ids)
  then have "ie_loop ?b 4 3 PARSING_MLME_SUBIE 3 i2 = None"
    by (intro ie_loop_stop [OF r(3)]) simp_all
  then show ?thesis using 1 2 by (simp add: frame802154e_parse_information_elements_def)
qed

end
