(* ===== verification/Mmem.thy ===== *)
theory Mmem
  imports Clist Bytemem
begin

section \<open>Managed memory (utils/src/mmem.c)\<close>

text \<open>
  An allocator of blocks of any size in one array. The blocks are kept without gaps, in the order of their list: freeing
  a block moves the contents of the later ones down and corrects their pointers. What is shown: the blocks tile the used
  part of the array, an allocation fails only when the sum of the sizes would exceed the array, and freeing a block keeps the
  contents of all others.
\<close>

subsection \<open>The code\<close>

text \<open>
  The \<open>next\<close> fields of the block descriptors are those of the list. The array is at the address \<open>memory\<close>, an argument of the
  operations.
\<close>

record mmem =
  mm_size :: u32
  mm_ptr :: ptr

record mmem_state =
  mmemlist :: clist
  avail_memory :: u32
  mm_block :: "ptr \<Rightarrow> mmem"
  mm_mem :: mem

definition MMEM_SIZE :: nat where "MMEM_SIZE = 4096"

definition mmem_init :: "mmem_state \<Rightarrow> mmem_state" where
  "mmem_init s = s\<lparr>mmemlist := list_init (mmemlist s), avail_memory := of_nat MMEM_SIZE\<rparr>"

text \<open>The address \<open>&memory[MMEM_SIZE - avail_memory]\<close> of the first unused byte.\<close>

definition mm_top :: "ptr \<Rightarrow> u32 \<Rightarrow> ptr" where
  "mm_top memory avail = memory + (MMEM_SIZE - unat avail)"

definition mmem_alloc :: "ptr \<Rightarrow> mmem_state \<Rightarrow> ptr \<Rightarrow> u32 \<Rightarrow> (nat \<times> mmem_state) option" where
  "mmem_alloc memory s m sz =
     (if avail_memory s < sz then Some (0, s)
      else do {
        l \<leftarrow> list_add (mmemlist s) m;
        let s = s\<lparr>mmemlist := l\<rparr>;
        let s = s\<lparr>mm_block := (mm_block s)(m := \<lparr>mm_size = sz, mm_ptr = mm_top memory (avail_memory s)\<rparr>)\<rparr>;
        Some (1, s\<lparr>avail_memory := avail_memory s - sz\<rparr>)
      })"

text \<open>The loop over the later blocks, which takes \<open>sz\<close> off their pointers.\<close>

partial_function (option) move_loop :: "(ptr \<Rightarrow> ptr) \<Rightarrow> u32 \<Rightarrow> (ptr \<Rightarrow> mmem) \<Rightarrow> ptr \<Rightarrow> (ptr \<Rightarrow> mmem) option" where
  "move_loop nx sz b n =
     (if n = NULL then Some b else move_loop nx sz (b(n := b n\<lparr>mm_ptr := mm_ptr (b n) - unat sz\<rparr>)) (nx n))"

definition mmem_free :: "ptr \<Rightarrow> mmem_state \<Rightarrow> ptr \<Rightarrow> mmem_state option" where
  "mmem_free memory s m = do {
     let nx = cl_next (mmemlist s);
     let b = mm_block s;
     s \<leftarrow> (if nx m \<noteq> NULL then do {
             mem \<leftarrow> memmove (mm_mem s) (mm_ptr (b m)) (mm_ptr (b (nx m)))
               (mm_top memory (avail_memory s) - mm_ptr (b (nx m)));
             b \<leftarrow> move_loop nx (mm_size (b m)) b (nx m);
             Some (s\<lparr>mm_mem := mem, mm_block := b\<rparr>)
           } else Some s);
     let s = s\<lparr>avail_memory := avail_memory s + mm_size (mm_block s m)\<rparr>;
     l \<leftarrow> list_remove (mmemlist s) m;
     Some (s\<lparr>mmemlist := l\<rparr>)
   }"

subsection \<open>Blocks without gaps\<close>

fun tiled :: "(ptr \<Rightarrow> mmem) \<Rightarrow> ptr \<Rightarrow> ptr list \<Rightarrow> ptr \<Rightarrow> bool" where
  "tiled b p [] e \<longleftrightarrow> e = p"
| "tiled b p (x # xs) e \<longleftrightarrow> mm_ptr (b x) = p \<and> tiled b (p + unat (mm_size (b x))) xs e"

definition mmem_ok :: "ptr \<Rightarrow> mmem_state \<Rightarrow> ptr list \<Rightarrow> bool" where
  "mmem_ok memory s xs \<longleftrightarrow> is_clist (mmemlist s) xs \<and> unat (avail_memory s) \<le> MMEM_SIZE \<and>
     accessible (mm_mem s) memory MMEM_SIZE \<and>
     tiled (mm_block s) memory xs (mm_top memory (avail_memory s))"

text \<open>The contents of a block, and the sizes of all blocks.\<close>

definition mmem_content :: "mmem_state \<Rightarrow> ptr \<Rightarrow> u8 list option" where
  "mmem_content s x = load_list (mm_mem s) (mm_ptr (mm_block s x)) (unat (mm_size (mm_block s x)))"

definition mmem_used :: "mmem_state \<Rightarrow> ptr list \<Rightarrow> nat" where
  "mmem_used s xs = (\<Sum>x\<leftarrow>xs. unat (mm_size (mm_block s x)))"

lemma tiled_append: "tiled b p (xs @ ys) e \<longleftrightarrow> (\<exists>q. tiled b p xs q \<and> tiled b q ys e)"
  by (induction xs arbitrary: p) auto

lemma tiled_cong: "(\<And>x. x \<in> set xs \<Longrightarrow> b' x = b x) \<Longrightarrow> tiled b' p xs e \<longleftrightarrow> tiled b p xs e"
  by (induction xs arbitrary: p) auto

lemma tiled_end: "tiled b p xs e \<Longrightarrow> e = p + (\<Sum>x\<leftarrow>xs. unat (mm_size (b x)))"
proof (induction xs arbitrary: p)
  case (Cons x xs)
  then have "e = p + unat (mm_size (b x)) + (\<Sum>x\<leftarrow>xs. unat (mm_size (b x)))" by simp
  then show ?case by simp
qed simp

lemma tiled_within:
  "tiled b p xs e \<Longrightarrow> x \<in> set xs \<Longrightarrow> p \<le> mm_ptr (b x) \<and> mm_ptr (b x) + unat (mm_size (b x)) \<le> e"
proof (induction xs arbitrary: p)
  case (Cons y ys)
  have t: "tiled b (p + unat (mm_size (b y))) ys e" "mm_ptr (b y) = p" using Cons.prems(1) by simp_all
  have "p + unat (mm_size (b y)) \<le> e" using tiled_end [OF t(1)] by linarith
  then show ?case using Cons.IH [OF t(1)] Cons.prems(2) t(2) by auto
qed simp

text \<open>Blocks of a tiling do not overlap.\<close>

lemma tiled_disjoint:
  "tiled b p xs e \<Longrightarrow> distinct xs \<Longrightarrow> x \<in> set xs \<Longrightarrow> y \<in> set xs \<Longrightarrow> x \<noteq> y \<Longrightarrow>
    mm_ptr (b x) + unat (mm_size (b x)) \<le> mm_ptr (b y) \<or> mm_ptr (b y) + unat (mm_size (b y)) \<le> mm_ptr (b x)"
proof (induction xs arbitrary: p)
  case (Cons z zs)
  have t: "tiled b (p + unat (mm_size (b z))) zs e" "mm_ptr (b z) = p" using Cons.prems(1) by simp_all
  note w = tiled_within [OF t(1)]
  consider "x = z" "y \<in> set zs" | "y = z" "x \<in> set zs" | "x \<in> set zs" "y \<in> set zs"
    using Cons.prems(3-5) by auto
  then show ?case
  proof cases
    case 3
    then show ?thesis using Cons.IH [OF t(1)] Cons.prems(2,5) by simp
  qed (use w t(2) in simp_all)
qed simp

definition moved :: "u32 \<Rightarrow> ptr set \<Rightarrow> (ptr \<Rightarrow> mmem) \<Rightarrow> ptr \<Rightarrow> mmem" where
  "moved k A b x = (if x \<in> A then b x\<lparr>mm_ptr := mm_ptr (b x) - unat k\<rparr> else b x)"

lemma moved_size [simp]: "mm_size (moved k A b x) = mm_size (b x)"
  by (simp add: moved_def)

lemma move_loop_chain: "chain nx p xs \<Longrightarrow> move_loop nx k b p = Some (moved k (set xs) b)"
proof (induction xs arbitrary: p b)
  case Nil
  then show ?case by (simp add: move_loop.simps moved_def fun_eq_iff)
next
  case (Cons x xs)
  have "x \<notin> set xs" using chain_distinct [OF Cons.prems] by simp
  then have "moved k (set xs) (b(x := b x\<lparr>mm_ptr := mm_ptr (b x) - unat k\<rparr>)) = moved k (set (x # xs)) b"
    by (auto simp: moved_def fun_eq_iff)
  with Cons show ?case by (subst move_loop.simps) (simp del: fun_upd_apply)
qed

lemma tiled_moved:
  "tiled b (p + unat k) xs e \<Longrightarrow> tiled (moved k (set xs \<union> A) b) p xs (e - unat k)"
proof (induction xs arbitrary: p A)
  case (Cons x xs)
  have t: "tiled b (p + unat k + unat (mm_size (b x))) xs e" using Cons.prems by simp
  have "tiled (moved k (set xs \<union> insert x A) b) (p + unat (mm_size (b x))) xs (e - unat k)"
    using t by (intro Cons.IH) (simp add: ac_simps)
  then show ?case using Cons.prems by (simp add: moved_def [of k _ b x])
qed simp

lemma mmem_used_avail: "mmem_ok memory s xs \<Longrightarrow> mmem_used s xs + unat (avail_memory s) = MMEM_SIZE"
  unfolding mmem_ok_def mmem_used_def mm_top_def by (elim conjE, drule tiled_end) linarith

lemma mmem_init_ok: "accessible (mm_mem s) memory MMEM_SIZE \<Longrightarrow> mmem_ok memory (mmem_init s) []"
  by (simp add: mmem_ok_def mmem_init_def list_init_def is_clist_def MMEM_SIZE_def mm_top_def)

subsection \<open>Allocating and freeing\<close>

lemma mmem_alloc_result:
  assumes "mmem_ok memory s xs" and "m \<noteq> NULL" and "m \<notin> set xs" and "sz \<le> avail_memory s"
  shows "\<exists>s'. mmem_alloc memory s m sz = Some (1, s') \<and> mmem_ok memory s' (xs @ [m]) \<and>
    mm_size (mm_block s' m) = sz \<and> mm_mem s' = mm_mem s \<and> (\<forall>x. x \<noteq> m \<longrightarrow> mm_block s' x = mm_block s x)"
proof -
  have c: "is_clist (mmemlist s) xs" using assms(1) by (simp add: mmem_ok_def)
  obtain l where l: "list_add (mmemlist s) m = Some l" "is_clist l (xs @ [m])"
    using list_add_correct [OF c assms(2)] assms(3) by (auto simp: remove1_idem)
  have sz: "unat sz \<le> unat (avail_memory s)" using assms(4) by (simp add: word_le_nat_alt)
  then have d: "unat (avail_memory s - sz) = unat (avail_memory s) - unat sz"
    by (simp add: unat_sub_if')
  let ?e = "mm_top memory (avail_memory s)"
  let ?b = "(mm_block s)(m := \<lparr>mm_size = sz, mm_ptr = ?e\<rparr>)"
  have a: "unat (avail_memory s) \<le> MMEM_SIZE" using assms(1) by (simp add: mmem_ok_def)
  have "tiled ?b memory xs ?e \<longleftrightarrow> tiled (mm_block s) memory xs ?e" using assms(3) by (intro tiled_cong) auto
  then have "tiled ?b memory xs ?e" using assms(1) by (simp add: mmem_ok_def)
  moreover have "mm_top memory (avail_memory s - sz) = ?e + unat sz" using a sz unfolding mm_top_def d by simp
  ultimately have "tiled ?b memory (xs @ [m]) (mm_top memory (avail_memory s - sz))"
    unfolding tiled_append by auto
  then show ?thesis using assms(1,4) l a d
    by (auto simp: mmem_alloc_def mmem_ok_def Let_def not_less)
qed

text \<open>
  C31: An allocation of a new block from managed memory succeeds exactly when the sizes of all blocks and the new one together
  are at most the size of the memory: freed memory is never lost to fragmentation. A refused one changes nothing. One that
  succeeds appends a block of the asked size which overlaps no other, and changes no other block and no memory.
\<close>

theorem mmem_alloc_exact:
  assumes "mmem_ok memory s xs" and "m \<noteq> NULL" and "m \<notin> set xs"
  shows "if mmem_used s xs + unat sz \<le> MMEM_SIZE
    then \<exists>s'. mmem_alloc memory s m sz = Some (1, s') \<and> mmem_ok memory s' (xs @ [m]) \<and> mm_size (mm_block s' m) = sz \<and>
      (\<forall>x \<in> set xs. mm_block s' x = mm_block s x \<and> mmem_content s' x = mmem_content s x \<and>
        mm_ptr (mm_block s x) + unat (mm_size (mm_block s x)) \<le> mm_ptr (mm_block s' m))
    else mmem_alloc memory s m sz = Some (0, s)"
proof (cases "sz \<le> avail_memory s")
  case True
  then have "mmem_used s xs + unat sz \<le> MMEM_SIZE" using mmem_used_avail [OF assms(1)] by (simp add: word_le_nat_alt)
  moreover obtain s' where s': "mmem_alloc memory s m sz = Some (1, s')" "mmem_ok memory s' (xs @ [m])"
    "mm_size (mm_block s' m) = sz" "mm_mem s' = mm_mem s" "\<forall>x. x \<noteq> m \<longrightarrow> mm_block s' x = mm_block s x"
    using mmem_alloc_result [OF assms True] by blast
  moreover have "mm_block s' x = mm_block s x \<and> mmem_content s' x = mmem_content s x \<and>
      mm_ptr (mm_block s x) + unat (mm_size (mm_block s x)) \<le> mm_ptr (mm_block s' m)" if x: "x \<in> set xs" for x
  proof -
    have e: "mm_block s' x = mm_block s x" using s'(5) x assms(3) by auto
    obtain q where "tiled (mm_block s') memory xs q" "mm_ptr (mm_block s' m) = q"
      using s'(2) unfolding mmem_ok_def tiled_append by auto
    then show ?thesis using tiled_within [of "mm_block s'" memory xs q x] x e s'(4) by (simp add: mmem_content_def)
  qed
  ultimately show ?thesis by auto
next
  case False
  then have "\<not> mmem_used s xs + unat sz \<le> MMEM_SIZE" using mmem_used_avail [OF assms(1)] by (simp add: word_le_nat_alt)
  then show ?thesis using False by (simp add: mmem_alloc_def not_le)
qed

lemma load_list_shift: "(\<And>i. i < n \<Longrightarrow> m' (p + i) = m (q + i)) \<Longrightarrow> load_list m' p n = load_list m q n"
proof (induction n arbitrary: p q)
  case (Suc n)
  have "m' p = m q" using Suc.prems [of 0] by simp
  moreover have "load_list m' (Suc p) n = load_list m (Suc q) n"
    using Suc.prems [of "Suc _"] by (intro Suc.IH) simp
  ultimately show ?case by simp
qed simp

text \<open>Moving the later blocks down.\<close>

lemma memmove_down:
  assumes "accessible m lo n" and "lo \<le> dst" and "dst + k \<le> src" and "src + len \<le> lo + n" and "k = src - dst"
  shows "\<exists>m'. memmove m dst src len = Some m' \<and> accessible m' lo n \<and>
    (\<forall>q. q < dst \<longrightarrow> m' q = m q) \<and> (\<forall>i < len. m' (dst + i) = m (src + i))"
proof -
  have "accessible m dst len" "accessible m src len"
    using assms(2-5) by (intro accessible_mono [OF assms(1)]; linarith)+
  from memmove_put [OF this] obtain vs where v: "bytes_at m src vs" "length vs = len" "memmove m dst src len = Some (put m dst vs)"
    by blast
  moreover have "accessible (put m dst vs) lo n" using \<open>accessible m dst len\<close> assms(1) v(2) by simp
  moreover have "put m dst vs (dst + i) = m (src + i)" if "i < len" for i
    using v(1,2) that by (simp add: put_inside bytes_at_def)
  ultimately show ?thesis using put_outside [of _ dst vs m] by blast
qed

lemma mmem_free_last:
  assumes "mmem_ok memory s (ys @ [m])"
  shows "\<exists>s'. mmem_free memory s m = Some s' \<and> mmem_ok memory s' ys \<and> mm_block s' = mm_block s \<and> mm_mem s' = mm_mem s"
proof -
  have c: "is_clist (mmemlist s) (ys @ [m])" and a: "unat (avail_memory s) \<le> MMEM_SIZE" using assms by (simp_all add: mmem_ok_def)
  have "chain (cl_next (mmemlist s)) m (m # [])" using chain_append c unfolding is_clist_def by fast
  then have n: "cl_next (mmemlist s) m = NULL" by simp
  have "remove1 m (ys @ [m]) = ys" using is_clist_distinct [OF c] by simp
  with list_remove_correct [OF c, of m] obtain l where l: "list_remove (mmemlist s) m = Some l" "is_clist l ys" by auto
  obtain q where q: "tiled (mm_block s) memory ys q" "mm_ptr (mm_block s m) = q"
    "mm_top memory (avail_memory s) = q + unat (mm_size (mm_block s m))"
    using assms unfolding mmem_ok_def tiled_append by auto
  have u: "mmem_used s (ys @ [m]) + unat (avail_memory s) = MMEM_SIZE" by (rule mmem_used_avail [OF assms])
  then have "unat (avail_memory s + mm_size (mm_block s m)) = unat (avail_memory s) + unat (mm_size (mm_block s m))"
    by (intro unat_add_lem [THEN iffD1]) (simp add: mmem_used_def MMEM_SIZE_def)
  moreover from this have "mm_top memory (avail_memory s + mm_size (mm_block s m)) = q"
    using q(3) u unfolding mm_top_def mmem_used_def by simp
  ultimately show ?thesis using assms n l q u
    by (simp add: mmem_free_def Let_def mmem_ok_def mmem_used_def)
qed

lemma mmem_free_inner:
  assumes "mmem_ok memory s (ys @ m # z # zs)"
  shows "\<exists>s'. mmem_free memory s m = Some s' \<and> mmem_ok memory s' (ys @ z # zs) \<and>
    (\<forall>x \<in> set (ys @ z # zs). mm_size (mm_block s' x) = mm_size (mm_block s x) \<and> mmem_content s' x = mmem_content s x)"
proof -
  let ?l = "mmemlist s" and ?b = "mm_block s" and ?k = "mm_size (mm_block s m)" and ?e = "mm_top memory (avail_memory s)"
    and ?av = "avail_memory s + mm_size (mm_block s m)"
  let ?b' = "moved ?k (set (z # zs)) ?b"
  have c: "is_clist ?l (ys @ m # z # zs)" and acc: "accessible (mm_mem s) memory MMEM_SIZE" using assms by (simp_all add: mmem_ok_def)
  have d: "distinct (ys @ m # z # zs)" by (rule is_clist_distinct [OF c])
  have "chain (cl_next ?l) m (m # z # zs)" using chain_append c unfolding is_clist_def by fast
  then have n: "cl_next ?l m = z" "z \<noteq> NULL" and zs: "chain (cl_next ?l) z (z # zs)" by auto
  have "remove1 m (ys @ m # z # zs) = ys @ z # zs" using d by simp
  with list_remove_correct [OF c, of m] obtain l where l: "list_remove ?l m = Some l" "is_clist l (ys @ z # zs)" by auto
  obtain q where q: "tiled ?b memory ys q" "mm_ptr (?b m) = q" and tz: "tiled ?b (q + unat ?k) (z # zs) ?e"
    using assms unfolding mmem_ok_def tiled_append by auto
  have pz: "mm_ptr (?b z) = q + unat ?k" using tz by simp
  have lo: "memory \<le> q" using tiled_end [OF q(1)] by linarith
  have u: "mmem_used s (ys @ m # z # zs) + unat (avail_memory s) = MMEM_SIZE" by (rule mmem_used_avail [OF assms])
  then have av: "unat ?av = unat (avail_memory s) + unat ?k"
    by (intro unat_add_lem [THEN iffD1]) (simp add: mmem_used_def MMEM_SIZE_def)
  have top: "mm_top memory ?av = ?e - unat ?k" "?e \<le> memory + MMEM_SIZE" "unat ?av \<le> MMEM_SIZE"
    using u unfolding mm_top_def av mmem_used_def by simp_all
  have e: "q + unat ?k \<le> ?e" using tiled_end [OF tz] by linarith
  obtain mem where mem: "memmove (mm_mem s) q (q + unat ?k) (?e - (q + unat ?k)) = Some mem" "accessible mem memory MMEM_SIZE"
    "\<forall>r. r < q \<longrightarrow> mem r = mm_mem s r" "\<forall>i < ?e - (q + unat ?k). mem (q + i) = mm_mem s (q + unat ?k + i)"
    using memmove_down [OF acc lo, of "unat ?k" "q + unat ?k" "?e - (q + unat ?k)"] e top(2) by auto
  let ?s = "s\<lparr>mm_mem := mem, mm_block := ?b', avail_memory := ?av, mmemlist := l\<rparr>"
  have same: "?b' x = ?b x" if "x \<in> set (ys @ [m])" for x using that d by (auto simp: moved_def)
  have loop: "move_loop (cl_next ?l) ?k ?b z = Some ?b'" by (rule move_loop_chain [OF zs])
  have f: "mmem_free memory s m = Some ?s"
    using n q(2) pz mem(1) loop l(1) same [of m] by (simp add: mmem_free_def Let_def)
  have "tiled ?b' memory ys q" using q(1) tiled_cong [of ys ?b' ?b] same by simp
  moreover have "tiled ?b' q (z # zs) (mm_top memory ?av)" unfolding top(1)
    using tiled_moved [OF tz, of "{}"] unfolding Un_empty_right .
  ultimately have "tiled ?b' memory (ys @ z # zs) (mm_top memory ?av)" unfolding tiled_append by blast
  then have ok: "mmem_ok memory ?s (ys @ z # zs)" using l(2) mem(2) top(3) by (simp add: mmem_ok_def)
  have "mmem_content ?s x = mmem_content s x" if x: "x \<in> set (ys @ z # zs)" for x
  proof (cases "x \<in> set ys")
    case True
    then have w: "mm_ptr (?b x) + unat (mm_size (?b x)) \<le> q" "?b' x = ?b x" using tiled_within [OF q(1)] same by auto
    have "load_list mem (mm_ptr (?b x)) (unat (mm_size (?b x))) = load_list (mm_mem s) (mm_ptr (?b x)) (unat (mm_size (?b x)))"
      using mem(3) w(1) by (intro load_list_same) simp
    then show ?thesis using w(2) by (simp add: mmem_content_def)
  next
    case False
    then have xz: "x \<in> set (z # zs)" using x by auto
    from tiled_within [OF tz this] have w: "q + unat ?k \<le> mm_ptr (?b x)" "mm_ptr (?b x) + unat (mm_size (?b x)) \<le> ?e" by auto
    have p: "mm_ptr (?b' x) = mm_ptr (?b x) - unat ?k" "mm_size (?b' x) = mm_size (?b x)" using xz unfolding moved_def by simp_all
    have "mem (mm_ptr (?b x) - unat ?k + i) = mm_mem s (mm_ptr (?b x) + i)" if "i < unat (mm_size (?b x))" for i
      using mem(4) [rule_format, of "mm_ptr (?b x) - unat ?k - q + i"] w that by simp
    then have "load_list mem (mm_ptr (?b x) - unat ?k) n = load_list (mm_mem s) (mm_ptr (?b x)) n" if "n \<le> unat (mm_size (?b x))" for n
      using that by (intro load_list_shift) simp
    then show ?thesis using p by (simp add: mmem_content_def)
  qed
  then show ?thesis using f ok by auto
qed

text \<open>
  C5: Freeing an allocated block of managed memory returns, leaves the other blocks in their order and without gaps, gives exactly
  the size of the block back, and keeps the size and the contents of every other block, though blocks move.
\<close>

theorem mmem_free_compacts:
  assumes "mmem_ok memory s xs" and "m \<in> set xs"
  shows "\<exists>s'. mmem_free memory s m = Some s' \<and> mmem_ok memory s' (remove1 m xs) \<and>
    unat (avail_memory s') = unat (avail_memory s) + unat (mm_size (mm_block s m)) \<and>
    (\<forall>x \<in> set (remove1 m xs). mm_size (mm_block s' x) = mm_size (mm_block s x) \<and> mmem_content s' x = mmem_content s x)"
proof -
  obtain ys zs where xs: "xs = ys @ m # zs" using split_list [OF assms(2)] by blast
  have "distinct xs" using assms(1) is_clist_distinct by (auto simp: mmem_ok_def)
  then have r: "remove1 m xs = ys @ zs" by (simp add: xs)
  obtain s' where s': "mmem_free memory s m = Some s'" "mmem_ok memory s' (ys @ zs)"
    "\<forall>x \<in> set (ys @ zs). mm_size (mm_block s' x) = mm_size (mm_block s x) \<and> mmem_content s' x = mmem_content s x"
  proof (cases zs)
    case Nil
    then show ?thesis using mmem_free_last [of memory s ys m] assms(1) that by (auto simp: xs mmem_content_def)
  next
    case (Cons z us)
    then show ?thesis using mmem_free_inner [of memory s ys m z us] assms(1) that unfolding xs Cons by blast
  qed
  have "mmem_used s' (ys @ zs) = mmem_used s (ys @ zs)"
    unfolding mmem_used_def using s'(3) by (intro arg_cong [where f = sum_list] map_cong) auto
  then have "unat (avail_memory s') = unat (avail_memory s) + unat (mm_size (mm_block s m))"
    using mmem_used_avail [OF s'(2)] mmem_used_avail [OF assms(1)] by (simp add: mmem_used_def xs)
  then show ?thesis using s' unfolding r by blast
qed

text \<open>A sample: two blocks of 10 and 3 bytes.\<close>

definition mmem_sample :: mmem_state where
  "mmem_sample = \<lparr>mmemlist = \<lparr>cl_head = 100, cl_next = (\<lambda>p. if p = 100 then 200 else NULL)\<rparr>, avail_memory = 4083,
     mm_block = (\<lambda>p. if p = 100 then \<lparr>mm_size = 10, mm_ptr = 5000\<rparr> else \<lparr>mm_size = 3, mm_ptr = 5010\<rparr>),
     mm_mem = mem_of 5010 [7, 8, 9]\<rparr>"

lemma mmem_sample_ok: "mmem_ok 5000 mmem_sample [100, 200]"
  by (simp add: mmem_ok_def mmem_sample_def is_clist_def MMEM_SIZE_def mm_top_def accessible_mem_of)

theorem mmem_alloc_exact_witness:
  "(\<exists>s'. mmem_alloc 5000 mmem_sample 300 4083 = Some (1, s') \<and> mmem_ok 5000 s' [100, 200, 300]) \<and>
    mmem_alloc 5000 mmem_sample 300 4084 = Some (0, mmem_sample)"
proof -
  have u: "mmem_used mmem_sample [100, 200] = 13" by (simp add: mmem_used_def mmem_sample_def)
  show ?thesis
    using mmem_alloc_exact [OF mmem_sample_ok, of 300 4083] mmem_alloc_exact [OF mmem_sample_ok, of 300 4084]
    by (auto simp: u MMEM_SIZE_def)
qed

theorem mmem_free_compacts_witness:
  "\<exists>s'. mmem_free 5000 mmem_sample 100 = Some s' \<and> mmem_ok 5000 s' [200] \<and> unat (avail_memory s') = 4093 \<and>
    mmem_content s' 200 = Some [7, 8, 9]"
proof -
  have "mmem_content mmem_sample 200 = Some [7, 8, 9]"
    using load_list_bytes [of "mem_of 5010 [7, 8, 9]" 5010 3 "[7, 8, 9]"] bytes_at_mem_of [of 5010 "[7, 8, 9]"]
    by (simp add: mmem_content_def mmem_sample_def)
  then show ?thesis using mmem_free_compacts [OF mmem_sample_ok, of 100] by (auto simp: mmem_sample_def)
qed

end
