(* ===== verification/Crc.thy ===== *)
theory Crc
  imports Bytemem
begin

section \<open>Cyclic redundancy checks (utils/src/crc.c)\<close>

text \<open>
  The 16-bit check, computed bit by bit, and the 32-bit check, computed with a table. The data are bytes in memory. What
  is shown: the table computes the bitwise division; a frame followed by its check has the check 0; and the check of
  a frame changes when one of its bytes does.
\<close>

subsection \<open>The code\<close>

definition CRC16_POLY :: u16 where "CRC16_POLY = 0x1021"
definition CRC16_INIT :: u16 where "CRC16_INIT = 0"
definition CRC32_POLY :: u32 where "CRC32_POLY = 0x04c11db7"
definition CRC32_INIT :: u32 where "CRC32_INIT = 0xffffffff"

text \<open>The loop of \<open>crc_16_update\<close>, which runs \<open>ix\<close> times.\<close>

definition crc_16_step :: "u16 \<Rightarrow> u16" where
  "crc_16_step curr_crc = (if curr_crc AND 0x8000 \<noteq> 0 then push_bit 1 curr_crc XOR CRC16_POLY else push_bit 1 curr_crc)"

fun crc_16_loop :: "nat \<Rightarrow> u16 \<Rightarrow> u16" where
  "crc_16_loop 0 curr_crc = curr_crc"
| "crc_16_loop (Suc ix) curr_crc = crc_16_loop ix (crc_16_step curr_crc)"

definition crc_16_update :: "u16 \<Rightarrow> u8 \<Rightarrow> u16" where
  "crc_16_update curr_crc byte = crc_16_loop 8 (curr_crc XOR push_bit 8 (ucast byte))"

fun crc_16_data :: "mem \<Rightarrow> ptr \<Rightarrow> nat \<Rightarrow> u16 \<Rightarrow> u16 option" where
  "crc_16_data m p 0 crc = Some crc"
| "crc_16_data m p (Suc n) crc = do { b \<leftarrow> m p; crc_16_data m (Suc p) n (crc_16_update crc b) }"

definition crc_16_updateN :: "mem \<Rightarrow> u16 \<Rightarrow> ptr \<Rightarrow> u16 \<Rightarrow> u16 option" where
  "crc_16_updateN m curr_crc p_data len = crc_16_data m p_data (unat len) curr_crc"

definition crc_16_calc :: "mem \<Rightarrow> ptr \<Rightarrow> u16 \<Rightarrow> u16 option" where
  "crc_16_calc m p_data len = crc_16_data m p_data (unat len) CRC16_INIT"

definition crc32_table :: "u32 list" where
  "crc32_table =
    [0x00000000, 0x04c11db7, 0x09823b6e, 0x0d4326d9, 0x130476dc, 0x17c56b6b, 0x1a864db2, 0x1e475005,
     0x2608edb8, 0x22c9f00f, 0x2f8ad6d6, 0x2b4bcb61, 0x350c9b64, 0x31cd86d3, 0x3c8ea00a, 0x384fbdbd,
     0x4c11db70, 0x48d0c6c7, 0x4593e01e, 0x4152fda9, 0x5f15adac, 0x5bd4b01b, 0x569796c2, 0x52568b75,
     0x6a1936c8, 0x6ed82b7f, 0x639b0da6, 0x675a1011, 0x791d4014, 0x7ddc5da3, 0x709f7b7a, 0x745e66cd,
     0x9823b6e0, 0x9ce2ab57, 0x91a18d8e, 0x95609039, 0x8b27c03c, 0x8fe6dd8b, 0x82a5fb52, 0x8664e6e5,
     0xbe2b5b58, 0xbaea46ef, 0xb7a96036, 0xb3687d81, 0xad2f2d84, 0xa9ee3033, 0xa4ad16ea, 0xa06c0b5d,
     0xd4326d90, 0xd0f37027, 0xddb056fe, 0xd9714b49, 0xc7361b4c, 0xc3f706fb, 0xceb42022, 0xca753d95,
     0xf23a8028, 0xf6fb9d9f, 0xfbb8bb46, 0xff79a6f1, 0xe13ef6f4, 0xe5ffeb43, 0xe8bccd9a, 0xec7dd02d,
     0x34867077, 0x30476dc0, 0x3d044b19, 0x39c556ae, 0x278206ab, 0x23431b1c, 0x2e003dc5, 0x2ac12072,
     0x128e9dcf, 0x164f8078, 0x1b0ca6a1, 0x1fcdbb16, 0x018aeb13, 0x054bf6a4, 0x0808d07d, 0x0cc9cdca,
     0x7897ab07, 0x7c56b6b0, 0x71159069, 0x75d48dde, 0x6b93dddb, 0x6f52c06c, 0x6211e6b5, 0x66d0fb02,
     0x5e9f46bf, 0x5a5e5b08, 0x571d7dd1, 0x53dc6066, 0x4d9b3063, 0x495a2dd4, 0x44190b0d, 0x40d816ba,
     0xaca5c697, 0xa864db20, 0xa527fdf9, 0xa1e6e04e, 0xbfa1b04b, 0xbb60adfc, 0xb6238b25, 0xb2e29692,
     0x8aad2b2f, 0x8e6c3698, 0x832f1041, 0x87ee0df6, 0x99a95df3, 0x9d684044, 0x902b669d, 0x94ea7b2a,
     0xe0b41de7, 0xe4750050, 0xe9362689, 0xedf73b3e, 0xf3b06b3b, 0xf771768c, 0xfa325055, 0xfef34de2,
     0xc6bcf05f, 0xc27dede8, 0xcf3ecb31, 0xcbffd686, 0xd5b88683, 0xd1799b34, 0xdc3abded, 0xd8fba05a,
     0x690ce0ee, 0x6dcdfd59, 0x608edb80, 0x644fc637, 0x7a089632, 0x7ec98b85, 0x738aad5c, 0x774bb0eb,
     0x4f040d56, 0x4bc510e1, 0x46863638, 0x42472b8f, 0x5c007b8a, 0x58c1663d, 0x558240e4, 0x51435d53,
     0x251d3b9e, 0x21dc2629, 0x2c9f00f0, 0x285e1d47, 0x36194d42, 0x32d850f5, 0x3f9b762c, 0x3b5a6b9b,
     0x0315d626, 0x07d4cb91, 0x0a97ed48, 0x0e56f0ff, 0x1011a0fa, 0x14d0bd4d, 0x19939b94, 0x1d528623,
     0xf12f560e, 0xf5ee4bb9, 0xf8ad6d60, 0xfc6c70d7, 0xe22b20d2, 0xe6ea3d65, 0xeba91bbc, 0xef68060b,
     0xd727bbb6, 0xd3e6a601, 0xdea580d8, 0xda649d6f, 0xc423cd6a, 0xc0e2d0dd, 0xcda1f604, 0xc960ebb3,
     0xbd3e8d7e, 0xb9ff90c9, 0xb4bcb610, 0xb07daba7, 0xae3afba2, 0xaafbe615, 0xa7b8c0cc, 0xa379dd7b,
     0x9b3660c6, 0x9ff77d71, 0x92b45ba8, 0x9675461f, 0x8832161a, 0x8cf30bad, 0x81b02d74, 0x857130c3,
     0x5d8a9099, 0x594b8d2e, 0x5408abf7, 0x50c9b640, 0x4e8ee645, 0x4a4ffbf2, 0x470cdd2b, 0x43cdc09c,
     0x7b827d21, 0x7f436096, 0x7200464f, 0x76c15bf8, 0x68860bfd, 0x6c47164a, 0x61043093, 0x65c52d24,
     0x119b4be9, 0x155a565e, 0x18197087, 0x1cd86d30, 0x029f3d35, 0x065e2082, 0x0b1d065b, 0x0fdc1bec,
     0x3793a651, 0x3352bbe6, 0x3e119d3f, 0x3ad08088, 0x2497d08d, 0x2056cd3a, 0x2d15ebe3, 0x29d4f654,
     0xc5a92679, 0xc1683bce, 0xcc2b1d17, 0xc8ea00a0, 0xd6ad50a5, 0xd26c4d12, 0xdf2f6bcb, 0xdbee767c,
     0xe3a1cbc1, 0xe760d676, 0xea23f0af, 0xeee2ed18, 0xf0a5bd1d, 0xf464a0aa, 0xf9278673, 0xfde69bc4,
     0x89b8fd09, 0x8d79e0be, 0x803ac667, 0x84fbdbd0, 0x9abc8bd5, 0x9e7d9662, 0x933eb0bb, 0x97ffad0c,
     0xafb010b1, 0xab710d06, 0xa6322bdf, 0xa2f33668, 0xbcb4666d, 0xb8757bda, 0xb5365d03, 0xb1f740b4]"

definition crc_32_update :: "u32 \<Rightarrow> u8 \<Rightarrow> u32" where
  "crc_32_update curr_crc byte =
     crc32_table ! unat (ucast byte XOR (drop_bit 24 curr_crc AND 0xff)) XOR push_bit 8 curr_crc"

fun crc_32_data :: "mem \<Rightarrow> ptr \<Rightarrow> nat \<Rightarrow> u32 \<Rightarrow> u32 option" where
  "crc_32_data m p 0 crc = Some crc"
| "crc_32_data m p (Suc n) crc = do { b \<leftarrow> m p; crc_32_data m (Suc p) n (crc_32_update crc b) }"

definition crc_32_updateN :: "mem \<Rightarrow> u32 \<Rightarrow> ptr \<Rightarrow> u16 \<Rightarrow> u32 option" where
  "crc_32_updateN m curr_crc p_data len = crc_32_data m p_data (unat len) curr_crc"

definition crc_32_calc :: "mem \<Rightarrow> ptr \<Rightarrow> u16 \<Rightarrow> u32 option" where
  "crc_32_calc m p_data len = do {
     crc_res \<leftarrow> crc_32_data m p_data (unat len) CRC32_INIT;
     let crc_res = (if len < 4 then crc_32_update crc_res 0 else crc_res);
     Some (crc_res XOR CRC32_INIT)
   }"

subsection \<open>The 32-bit table\<close>

text \<open>Division bit by bit, as the polynomial defines it.\<close>

definition crc_32_step :: "u32 \<Rightarrow> u32" where
  "crc_32_step c = (if bit c 31 then push_bit 1 c XOR CRC32_POLY else push_bit 1 c)"

lemma push_bit_xor: "push_bit n (a XOR b :: 'a::len word) = push_bit n a XOR push_bit n b"
  by (rule bit_word_eqI) (auto simp: bit_xor_iff bit_push_bit_iff)

lemma crc_32_step_xor: "crc_32_step (a XOR b) = crc_32_step a XOR crc_32_step b"
  by (auto simp: crc_32_step_def bit_xor_iff push_bit_xor xor.assoc xor.commute xor.left_commute)

lemma crc_32_steps_xor: "(crc_32_step ^^ n) (a XOR b) = (crc_32_step ^^ n) a XOR (crc_32_step ^^ n) b"
  by (induction n) (simp_all add: crc_32_step_xor)

lemma crc_32_steps_low:
  assumes "\<And>n. 24 \<le> n \<Longrightarrow> \<not> bit w n" and "k \<le> 8"
  shows "(crc_32_step ^^ k) w = push_bit k w"
  using assms(2)
proof (induction k)
  case (Suc k)
  have "\<not> bit (push_bit k w) 31" using Suc.prems assms(1) [of "31 - k"] by (simp add: bit_push_bit_iff)
  then show ?case using Suc by (simp add: crc_32_step_def)
qed simp

text \<open>An entry of the table, computed bit by bit.\<close>

definition crc_32_entry :: "u32 \<Rightarrow> u32" where
  "crc_32_entry i = (crc_32_step ^^ 8) (push_bit 24 i)"

lemma crc_32_step_le: "crc_32_step c = (if 0x80000000 \<le> c then 2 * c XOR CRC32_POLY else 2 * c)"
proof -
  have "unat c div 2147483648 < 2" using unsigned_less [of c, where ?'a = nat] by (intro less_mult_imp_div_less) simp
  then have "unat c div 2147483648 = 0 \<or> unat c div 2147483648 = 1" by linarith
  then have "odd (unat c div 2147483648) \<longleftrightarrow> 2147483648 \<le> unat c" by (auto simp: div_eq_0_iff)
  then have "bit (unat c) 31 \<longleftrightarrow> 0x80000000 \<le> c" by (simp add: bit_iff_odd word_le_nat_alt)
  then have "bit c 31 \<longleftrightarrow> 0x80000000 \<le> c" by (simp add: bit_unsigned_iff)
  then show ?thesis by (simp add: crc_32_step_def mult.commute)
qed

lemma crc_32_entry_eq:
  "crc_32_entry i = crc_32_step (crc_32_step (crc_32_step (crc_32_step (crc_32_step (crc_32_step (crc_32_step (crc_32_step (push_bit 24 i))))))))"
  by (simp add: crc_32_entry_def numeral_eq_Suc del: push_bit_of_Suc_0)

lemma crc_32_entries_0:
  "map crc_32_entry
    [0, 1, 2, 3, 4, 5, 6, 7, 8, 9, 10, 11, 12, 13, 14, 15,
     16, 17, 18, 19, 20, 21, 22, 23, 24, 25, 26, 27, 28, 29, 30, 31] =
    [0x00000000, 0x04c11db7, 0x09823b6e, 0x0d4326d9, 0x130476dc, 0x17c56b6b, 0x1a864db2, 0x1e475005,
     0x2608edb8, 0x22c9f00f, 0x2f8ad6d6, 0x2b4bcb61, 0x350c9b64, 0x31cd86d3, 0x3c8ea00a, 0x384fbdbd,
     0x4c11db70, 0x48d0c6c7, 0x4593e01e, 0x4152fda9, 0x5f15adac, 0x5bd4b01b, 0x569796c2, 0x52568b75,
     0x6a1936c8, 0x6ed82b7f, 0x639b0da6, 0x675a1011, 0x791d4014, 0x7ddc5da3, 0x709f7b7a, 0x745e66cd]"
  by (simp add: crc_32_entry_eq crc_32_step_le CRC32_POLY_def)

lemma crc_32_entries_1:
  "map crc_32_entry
    [32, 33, 34, 35, 36, 37, 38, 39, 40, 41, 42, 43, 44, 45, 46, 47,
     48, 49, 50, 51, 52, 53, 54, 55, 56, 57, 58, 59, 60, 61, 62, 63] =
    [0x9823b6e0, 0x9ce2ab57, 0x91a18d8e, 0x95609039, 0x8b27c03c, 0x8fe6dd8b, 0x82a5fb52, 0x8664e6e5,
     0xbe2b5b58, 0xbaea46ef, 0xb7a96036, 0xb3687d81, 0xad2f2d84, 0xa9ee3033, 0xa4ad16ea, 0xa06c0b5d,
     0xd4326d90, 0xd0f37027, 0xddb056fe, 0xd9714b49, 0xc7361b4c, 0xc3f706fb, 0xceb42022, 0xca753d95,
     0xf23a8028, 0xf6fb9d9f, 0xfbb8bb46, 0xff79a6f1, 0xe13ef6f4, 0xe5ffeb43, 0xe8bccd9a, 0xec7dd02d]"
  by (simp add: crc_32_entry_eq crc_32_step_le CRC32_POLY_def)

lemma crc_32_entries_2:
  "map crc_32_entry
    [64, 65, 66, 67, 68, 69, 70, 71, 72, 73, 74, 75, 76, 77, 78, 79,
     80, 81, 82, 83, 84, 85, 86, 87, 88, 89, 90, 91, 92, 93, 94, 95] =
    [0x34867077, 0x30476dc0, 0x3d044b19, 0x39c556ae, 0x278206ab, 0x23431b1c, 0x2e003dc5, 0x2ac12072,
     0x128e9dcf, 0x164f8078, 0x1b0ca6a1, 0x1fcdbb16, 0x018aeb13, 0x054bf6a4, 0x0808d07d, 0x0cc9cdca,
     0x7897ab07, 0x7c56b6b0, 0x71159069, 0x75d48dde, 0x6b93dddb, 0x6f52c06c, 0x6211e6b5, 0x66d0fb02,
     0x5e9f46bf, 0x5a5e5b08, 0x571d7dd1, 0x53dc6066, 0x4d9b3063, 0x495a2dd4, 0x44190b0d, 0x40d816ba]"
  by (simp add: crc_32_entry_eq crc_32_step_le CRC32_POLY_def)

lemma crc_32_entries_3:
  "map crc_32_entry
    [96, 97, 98, 99, 100, 101, 102, 103, 104, 105, 106, 107, 108, 109, 110, 111,
     112, 113, 114, 115, 116, 117, 118, 119, 120, 121, 122, 123, 124, 125, 126, 127] =
    [0xaca5c697, 0xa864db20, 0xa527fdf9, 0xa1e6e04e, 0xbfa1b04b, 0xbb60adfc, 0xb6238b25, 0xb2e29692,
     0x8aad2b2f, 0x8e6c3698, 0x832f1041, 0x87ee0df6, 0x99a95df3, 0x9d684044, 0x902b669d, 0x94ea7b2a,
     0xe0b41de7, 0xe4750050, 0xe9362689, 0xedf73b3e, 0xf3b06b3b, 0xf771768c, 0xfa325055, 0xfef34de2,
     0xc6bcf05f, 0xc27dede8, 0xcf3ecb31, 0xcbffd686, 0xd5b88683, 0xd1799b34, 0xdc3abded, 0xd8fba05a]"
  by (simp add: crc_32_entry_eq crc_32_step_le CRC32_POLY_def)

lemma crc_32_entries_4:
  "map crc_32_entry
    [128, 129, 130, 131, 132, 133, 134, 135, 136, 137, 138, 139, 140, 141, 142, 143,
     144, 145, 146, 147, 148, 149, 150, 151, 152, 153, 154, 155, 156, 157, 158, 159] =
    [0x690ce0ee, 0x6dcdfd59, 0x608edb80, 0x644fc637, 0x7a089632, 0x7ec98b85, 0x738aad5c, 0x774bb0eb,
     0x4f040d56, 0x4bc510e1, 0x46863638, 0x42472b8f, 0x5c007b8a, 0x58c1663d, 0x558240e4, 0x51435d53,
     0x251d3b9e, 0x21dc2629, 0x2c9f00f0, 0x285e1d47, 0x36194d42, 0x32d850f5, 0x3f9b762c, 0x3b5a6b9b,
     0x0315d626, 0x07d4cb91, 0x0a97ed48, 0x0e56f0ff, 0x1011a0fa, 0x14d0bd4d, 0x19939b94, 0x1d528623]"
  by (simp add: crc_32_entry_eq crc_32_step_le CRC32_POLY_def)

lemma crc_32_entries_5:
  "map crc_32_entry
    [160, 161, 162, 163, 164, 165, 166, 167, 168, 169, 170, 171, 172, 173, 174, 175,
     176, 177, 178, 179, 180, 181, 182, 183, 184, 185, 186, 187, 188, 189, 190, 191] =
    [0xf12f560e, 0xf5ee4bb9, 0xf8ad6d60, 0xfc6c70d7, 0xe22b20d2, 0xe6ea3d65, 0xeba91bbc, 0xef68060b,
     0xd727bbb6, 0xd3e6a601, 0xdea580d8, 0xda649d6f, 0xc423cd6a, 0xc0e2d0dd, 0xcda1f604, 0xc960ebb3,
     0xbd3e8d7e, 0xb9ff90c9, 0xb4bcb610, 0xb07daba7, 0xae3afba2, 0xaafbe615, 0xa7b8c0cc, 0xa379dd7b,
     0x9b3660c6, 0x9ff77d71, 0x92b45ba8, 0x9675461f, 0x8832161a, 0x8cf30bad, 0x81b02d74, 0x857130c3]"
  by (simp add: crc_32_entry_eq crc_32_step_le CRC32_POLY_def)

lemma crc_32_entries_6:
  "map crc_32_entry
    [192, 193, 194, 195, 196, 197, 198, 199, 200, 201, 202, 203, 204, 205, 206, 207,
     208, 209, 210, 211, 212, 213, 214, 215, 216, 217, 218, 219, 220, 221, 222, 223] =
    [0x5d8a9099, 0x594b8d2e, 0x5408abf7, 0x50c9b640, 0x4e8ee645, 0x4a4ffbf2, 0x470cdd2b, 0x43cdc09c,
     0x7b827d21, 0x7f436096, 0x7200464f, 0x76c15bf8, 0x68860bfd, 0x6c47164a, 0x61043093, 0x65c52d24,
     0x119b4be9, 0x155a565e, 0x18197087, 0x1cd86d30, 0x029f3d35, 0x065e2082, 0x0b1d065b, 0x0fdc1bec,
     0x3793a651, 0x3352bbe6, 0x3e119d3f, 0x3ad08088, 0x2497d08d, 0x2056cd3a, 0x2d15ebe3, 0x29d4f654]"
  by (simp add: crc_32_entry_eq crc_32_step_le CRC32_POLY_def)

lemma crc_32_entries_7:
  "map crc_32_entry
    [224, 225, 226, 227, 228, 229, 230, 231, 232, 233, 234, 235, 236, 237, 238, 239,
     240, 241, 242, 243, 244, 245, 246, 247, 248, 249, 250, 251, 252, 253, 254, 255] =
    [0xc5a92679, 0xc1683bce, 0xcc2b1d17, 0xc8ea00a0, 0xd6ad50a5, 0xd26c4d12, 0xdf2f6bcb, 0xdbee767c,
     0xe3a1cbc1, 0xe760d676, 0xea23f0af, 0xeee2ed18, 0xf0a5bd1d, 0xf464a0aa, 0xf9278673, 0xfde69bc4,
     0x89b8fd09, 0x8d79e0be, 0x803ac667, 0x84fbdbd0, 0x9abc8bd5, 0x9e7d9662, 0x933eb0bb, 0x97ffad0c,
     0xafb010b1, 0xab710d06, 0xa6322bdf, 0xa2f33668, 0xbcb4666d, 0xb8757bda, 0xb5365d03, 0xb1f740b4]"
  by (simp add: crc_32_entry_eq crc_32_step_le CRC32_POLY_def)

lemma crc32_table_entries: "crc32_table = map crc_32_entry (map of_nat [0..<256])"
proof -
  have "[Suc (Suc 0)..<256] = 2 # [3..<256]" unfolding numeral_2_eq_2 [symmetric] by (simp add: upt_rec_numeral)
  then have "map of_nat [0..<256] =
    ([0, 1, 2, 3, 4, 5, 6, 7, 8, 9, 10, 11, 12, 13, 14, 15,
      16, 17, 18, 19, 20, 21, 22, 23, 24, 25, 26, 27, 28, 29, 30, 31] @
     [32, 33, 34, 35, 36, 37, 38, 39, 40, 41, 42, 43, 44, 45, 46, 47,
      48, 49, 50, 51, 52, 53, 54, 55, 56, 57, 58, 59, 60, 61, 62, 63] @
     [64, 65, 66, 67, 68, 69, 70, 71, 72, 73, 74, 75, 76, 77, 78, 79,
      80, 81, 82, 83, 84, 85, 86, 87, 88, 89, 90, 91, 92, 93, 94, 95] @
     [96, 97, 98, 99, 100, 101, 102, 103, 104, 105, 106, 107, 108, 109, 110, 111,
      112, 113, 114, 115, 116, 117, 118, 119, 120, 121, 122, 123, 124, 125, 126, 127] @
     [128, 129, 130, 131, 132, 133, 134, 135, 136, 137, 138, 139, 140, 141, 142, 143,
      144, 145, 146, 147, 148, 149, 150, 151, 152, 153, 154, 155, 156, 157, 158, 159] @
     [160, 161, 162, 163, 164, 165, 166, 167, 168, 169, 170, 171, 172, 173, 174, 175,
      176, 177, 178, 179, 180, 181, 182, 183, 184, 185, 186, 187, 188, 189, 190, 191] @
     [192, 193, 194, 195, 196, 197, 198, 199, 200, 201, 202, 203, 204, 205, 206, 207,
      208, 209, 210, 211, 212, 213, 214, 215, 216, 217, 218, 219, 220, 221, 222, 223] @
     [224, 225, 226, 227, 228, 229, 230, 231, 232, 233, 234, 235, 236, 237, 238, 239,
      240, 241, 242, 243, 244, 245, 246, 247, 248, 249, 250, 251, 252, 253, 254, 255] :: u32 list)"
    by (simp add: upt_rec [of 0 256] upt_rec [of "Suc 0" 256] upt_rec_numeral)
  note upt = this
  show ?thesis
    unfolding upt map_append crc_32_entries_0 crc_32_entries_1 crc_32_entries_2 crc_32_entries_3 crc_32_entries_4
      crc_32_entries_5 crc_32_entries_6 crc_32_entries_7
    by (simp only: crc32_table_def append_Cons append_Nil)
qed

lemma take_bit_no_higher: "(\<And>n. k \<le> n \<Longrightarrow> \<not> bit w n) \<Longrightarrow> take_bit k w = w" for w :: "'a::len word"
proof (rule bit_word_eqI)
  fix n
  assume "\<And>n. k \<le> n \<Longrightarrow> \<not> bit w n"
  then show "bit (take_bit k w) n = bit w n" by (cases "n < k") (simp_all add: bit_take_bit_iff)
qed

lemma crc32_table_nth: "i < 256 \<Longrightarrow> crc32_table ! i = crc_32_entry (of_nat i)"
  by (simp add: crc32_table_entries)

text \<open>
  C29: The table-driven update of the 32-bit check is the division of the byte by the polynomial, bit by bit: the byte is
  added to the eight high bits and eight steps are made.
\<close>

theorem crc_32_update_bitwise: "crc_32_update c byte = (crc_32_step ^^ 8) (c XOR push_bit 24 (ucast byte))"
proof -
  let ?i = "ucast byte XOR (drop_bit 24 c AND 0xff)" and ?low = "take_bit 24 c"
  have m: "(0xff :: u32) = mask 8" by (simp add: mask_eq_exp_minus_1)
  have b: "bit c n \<Longrightarrow> n < 32" for n using bit_imp_le_length [of c n] by simp
  have i: "\<not> bit ?i n" if "8 \<le> n" for n
    using that unfolding m by (auto simp: bit_xor_iff bit_and_iff bit_mask_iff bit_ucast_iff dest: bit_imp_le_length)
  from take_bit_no_higher [OF i] have "take_bit 8 ?i = ?i" .
  from arg_cong [OF this, of unat] have "take_bit 8 (unat ?i) = unat ?i" unfolding unsigned_take_bit_eq .
  then have "unat ?i < 256" using take_bit_nat_less_exp [of 8 "unat ?i"] by simp
  then have t: "crc32_table ! unat ?i = (crc_32_step ^^ 8) (push_bit 24 ?i)"
    by (simp add: crc32_table_nth crc_32_entry_def)
  have "c XOR push_bit 24 (ucast byte) = push_bit 24 ?i XOR ?low"
    unfolding m by (rule bit_word_eqI) (auto simp: bit_xor_iff bit_push_bit_iff bit_and_iff bit_mask_iff bit_drop_bit_eq bit_take_bit_iff bit_ucast_iff)
  moreover have "(crc_32_step ^^ 8) ?low = push_bit 8 ?low"
    by (rule crc_32_steps_low) (simp_all add: bit_take_bit_iff)
  moreover have "push_bit 8 ?low = push_bit 8 c"
    by (rule bit_word_eqI) (auto simp: bit_push_bit_iff bit_take_bit_iff)
  ultimately show ?thesis using t by (simp add: crc_32_update_def crc_32_steps_xor)
qed

subsection \<open>What the 16-bit check detects\<close>

lemma crc_16_step_bit: "crc_16_step c = (if bit c 15 then push_bit 1 c XOR CRC16_POLY else push_bit 1 c)"
proof -
  have "c AND push_bit 15 1 \<noteq> 0 \<longleftrightarrow> bit c 15" by (simp add: bit_iff_and_push_bit_not_eq_0)
  then show ?thesis by (simp add: crc_16_step_def)
qed

lemma crc_16_step_xor: "crc_16_step (a XOR b) = crc_16_step a XOR crc_16_step b"
  by (auto simp: crc_16_step_bit bit_xor_iff push_bit_xor xor.assoc xor.commute xor.left_commute)

lemma crc_16_step_0: "crc_16_step c = 0 \<Longrightarrow> c = 0"
proof -
  assume z: "crc_16_step c = 0"
  have "\<not> bit (push_bit 1 c) 0" by (simp only: bit_push_bit_iff) simp
  moreover have "bit CRC16_POLY 0" by (simp add: CRC16_POLY_def)
  ultimately have "bit (push_bit 1 c XOR CRC16_POLY) 0" by (simp add: bit_xor_iff)
  then have top: "\<not> bit c 15" and p: "push_bit 1 c = 0" using z by (auto simp: crc_16_step_bit split: if_splits)
  have "\<not> bit c n" if "n < 16" for n
  proof (cases "n = 15")
    case False
    then have "bit c n = bit (push_bit 1 c) (Suc n)" using that unfolding bit_push_bit_iff by simp
    then show ?thesis unfolding p by simp
  qed (use top in simp)
  then show "c = 0" by (intro bit_word_eqI) simp
qed

lemma xor_zero: "a XOR b = 0 \<Longrightarrow> a = b" for a b :: "'a::len word"
proof (rule bit_word_eqI)
  fix n
  assume "a XOR b = 0"
  from arg_cong [OF this, of "\<lambda>w. bit w n"] show "bit a n = bit b n" by (simp add: bit_xor_iff)
qed

lemma xor_inj: "a XOR c = b XOR c \<Longrightarrow> a = b" for a b c :: "'a::len word"
proof (rule bit_word_eqI)
  fix n
  assume "a XOR c = b XOR c"
  from arg_cong [OF this, of "\<lambda>w. bit w n"] show "bit a n = bit b n" by (auto simp: bit_xor_iff)
qed

lemma crc_16_step_inj: "crc_16_step a = crc_16_step b \<Longrightarrow> a = b"
proof -
  assume "crc_16_step a = crc_16_step b"
  then have "crc_16_step (a XOR b) = 0" by (simp add: crc_16_step_xor)
  then show "a = b" by (rule xor_zero [OF crc_16_step_0])
qed

lemma crc_16_loop_inj: "crc_16_loop n a = crc_16_loop n b \<Longrightarrow> a = b"
  by (induction n arbitrary: a b) (auto dest: crc_16_step_inj)

lemma crc_16_update_inj: "crc_16_update c x = crc_16_update d x \<Longrightarrow> c = d"
  unfolding crc_16_update_def by (blast dest: crc_16_loop_inj xor_inj)

lemma crc_16_update_byte_inj: "crc_16_update c x = crc_16_update c y \<Longrightarrow> x = y"
proof -
  assume "crc_16_update c x = crc_16_update c y"
  then have "push_bit 8 (ucast x :: u16) = push_bit 8 (ucast y)"
    unfolding crc_16_update_def xor.commute [of c] by (blast dest: crc_16_loop_inj xor_inj)
  then have "bit (push_bit 8 (ucast x :: u16)) (n + 8) = bit (push_bit 8 (ucast y :: u16)) (n + 8)" for n by simp
  note eq = this
  have "bit x n = bit y n" if "n < 8" for n using that eq [of n] by (simp add: bit_push_bit_iff bit_ucast_iff)
  then show "x = y" by (intro bit_word_eqI) simp
qed

lemma crc_16_loop_low:
  "(\<And>n. 8 \<le> n \<Longrightarrow> \<not> bit w n) \<Longrightarrow> j + k \<le> 8 \<Longrightarrow> crc_16_loop k (push_bit j w) = push_bit (j + k) w"
proof (induction k arbitrary: j)
  case (Suc k)
  have "\<not> bit (push_bit j w) 15" using Suc.prems by (simp add: bit_push_bit_iff)
  moreover have "push_bit 1 (push_bit j w) = push_bit (Suc j) w" by (simp only: push_bit_push_bit) simp
  ultimately have "crc_16_step (push_bit j w) = push_bit (Suc j) w" by (simp only: crc_16_step_bit if_False)
  then show ?case using Suc.IH [of "Suc j"] Suc.prems by (simp only: crc_16_loop.simps) simp
qed simp

text \<open>The two bytes of a check bring it to zero.\<close>

lemma crc_16_own_check: "crc_16_update (crc_16_update c (ucast (drop_bit 8 c))) (ucast c) = 0"
proof -
  let ?hi = "ucast (drop_bit 8 c) :: u8" and ?lo = "ucast c :: u8" and ?low = "take_bit 8 c"
  have "c XOR push_bit 8 (ucast ?hi) = push_bit 0 ?low"
    by (rule bit_word_eqI) (auto simp: bit_xor_iff bit_push_bit_iff bit_ucast_iff bit_drop_bit_eq bit_take_bit_iff)
  moreover have "crc_16_loop 8 (push_bit 0 ?low) = push_bit (0 + 8) ?low"
    by (rule crc_16_loop_low) (simp_all add: bit_take_bit_iff)
  ultimately have "crc_16_update c ?hi = push_bit 8 ?low" by (simp add: crc_16_update_def)
  moreover have "push_bit 8 ?low XOR push_bit 8 (ucast ?lo) = 0"
    by (rule bit_word_eqI) (auto simp: bit_xor_iff bit_push_bit_iff bit_ucast_iff bit_take_bit_iff)
  moreover have "crc_16_loop n 0 = 0" for n by (induction n) (simp_all add: crc_16_step_def)
  ultimately show ?thesis by (simp add: crc_16_update_def)
qed

lemma crc_16_data_foldl: "bytes_at m p bs \<Longrightarrow> crc_16_data m p (length bs) c = Some (foldl crc_16_update c bs)"
  by (induction bs arbitrary: p c) (simp_all add: bytes_at_Cons)

lemma crc_16_foldl_inj: "foldl crc_16_update c bs = foldl crc_16_update d bs \<Longrightarrow> c = d"
  by (induction bs arbitrary: c d) (auto dest: crc_16_update_inj)

lemma foldl_at: "i < length xs \<Longrightarrow> foldl f a xs = foldl f (f (foldl f a (take i xs)) (xs ! i)) (drop (Suc i) xs)"
proof -
  assume "i < length xs"
  then have "foldl f a xs = foldl f a (take i xs @ xs ! i # drop (Suc i) xs)" by (simp only: id_take_nth_drop [symmetric])
  then show ?thesis by (simp only: foldl_append foldl_Cons)
qed

lemma crc_16_calc_bytes:
  "bytes_at m p bs \<Longrightarrow> length bs < 65536 \<Longrightarrow> crc_16_calc m p (of_nat (length bs)) = Some (foldl crc_16_update CRC16_INIT bs)"
  by (simp add: crc_16_calc_def crc_16_data_foldl unat_of_nat)

text \<open>
  C30: A frame that ends with its own 16-bit check, high byte first, has the check 0, which is how a receiver accepts
  it; and when any one byte of such a frame, of the data or of the check, arrives as another one, the check is
  not 0.
\<close>

theorem crc_16_detects_byte_errors:
  assumes "bytes_at m p bs" and "length bs + 2 < 65536" and "crc_16_calc m p (of_nat (length bs)) = Some r"
    and "bytes_at m1 q (bs @ [ucast (drop_bit 8 r), ucast r])" and "m2 = m1(q + i \<mapsto> b)" and "i < length bs + 2" and "m1 (q + i) \<noteq> Some b"
  shows "crc_16_calc m1 q (of_nat (length bs + 2)) = Some 0 \<and>
    (\<exists>c. crc_16_calc m2 q (of_nat (length bs + 2)) = Some c \<and> c \<noteq> 0)"
proof -
  let ?f = "bs @ [ucast (drop_bit 8 r), ucast r]"
  have len: "length ?f = length bs + 2" by simp
  have r: "r = foldl crc_16_update CRC16_INIT bs"
    using crc_16_calc_bytes [OF assms(1)] assms(2,3) by simp
  have z: "foldl crc_16_update CRC16_INIT ?f = 0" using crc_16_own_check [of r] r by simp
  then have ok: "crc_16_calc m1 q (of_nat (length bs + 2)) = Some 0"
    using crc_16_calc_bytes [OF assms(4)] assms(2) unfolding len by simp
  let ?g = "?f[i := b]"
  have i: "i < length ?f" using assms(6) by simp
  have old: "m1 (q + i) = Some (?f ! i)" using assms(4) i unfolding bytes_at_def by blast
  have "bytes_at m2 q ?g" using assms(4,5) i unfolding bytes_at_def by (auto simp: nth_list_update)
  from crc_16_calc_bytes [OF this] have calc: "crc_16_calc m2 q (of_nat (length bs + 2)) = Some (foldl crc_16_update CRC16_INIT ?g)"
    using assms(2) by simp
  let ?pre = "foldl crc_16_update CRC16_INIT (take i ?f)"
  have "foldl crc_16_update CRC16_INIT ?g = foldl crc_16_update (crc_16_update ?pre b) (drop (Suc i) ?f)"
    using i by (simp only: upd_conv_take_nth_drop foldl_append foldl_Cons)
  moreover have "foldl crc_16_update CRC16_INIT ?f = foldl crc_16_update (crc_16_update ?pre (?f ! i)) (drop (Suc i) ?f)"
    using i by (rule foldl_at)
  moreover have "?f ! i \<noteq> b" using assms(7) old by simp
  ultimately have "foldl crc_16_update CRC16_INIT ?g \<noteq> 0"
    using z by (metis crc_16_foldl_inj crc_16_update_byte_inj)
  then show ?thesis using ok calc by blast
qed

theorem crc_16_detects_byte_errors_witness:
  "\<exists>r. crc_16_calc (mem_of 100 [1, 2, 3]) 100 3 = Some r \<and>
    crc_16_calc (mem_of 200 [1, 2, 3, ucast (drop_bit 8 r), ucast r]) 200 5 = Some 0 \<and>
    crc_16_calc ((mem_of 200 [1, 2, 3, ucast (drop_bit 8 r), ucast r])(201 \<mapsto> 7)) 200 5 \<noteq> Some 0"
proof -
  let ?bs = "[1, 2, 3] :: u8 list" and ?r = "foldl crc_16_update CRC16_INIT [1, 2, 3]"
  let ?m = "mem_of 200 [1, 2, 3, ucast (drop_bit 8 ?r), ucast ?r]"
  have r: "crc_16_calc (mem_of 100 ?bs) 100 (of_nat (length ?bs)) = Some ?r"
    by (rule crc_16_calc_bytes [OF bytes_at_mem_of]) simp
  have "bytes_at ?m 200 (?bs @ [ucast (drop_bit 8 ?r), ucast ?r])" unfolding append_Cons append_Nil by (rule bytes_at_mem_of)
  moreover have "?m (200 + 1) \<noteq> Some 7" by (simp add: mem_of_def put_def)
  moreover have n: "length ?bs + 2 = 5" "(of_nat 5 :: u16) = 5" "(200 :: nat) + 1 = 201" "(of_nat (length ?bs) :: u16) = 3" by simp_all
  ultimately have "crc_16_calc ?m 200 (of_nat (length ?bs + 2)) = Some 0 \<and>
      (\<exists>c. crc_16_calc (?m(200 + 1 \<mapsto> 7)) 200 (of_nat (length ?bs + 2)) = Some c \<and> c \<noteq> 0)"
    by (intro crc_16_detects_byte_errors [OF bytes_at_mem_of _ r _ refl]) simp_all
  then have "crc_16_calc ?m 200 5 = Some 0" "crc_16_calc (?m(201 \<mapsto> 7)) 200 5 \<noteq> Some 0" unfolding n by auto
  then show ?thesis using r unfolding n by blast
qed

end
