(* ===== verification/Aes.thy ===== *)
theory Aes
  imports Emb6_Prelude
begin

section \<open>AES-128 (utils/src/aes-128.c)\<close>

text \<open>
  The driver keeps the round keys of the key that was set and encrypts one block in place. A block is a list of 16 bytes, the static
  variable \<open>round_keys\<close> a list of 11 keys. The reference is the cipher of FIPS 197, over the field of 256 elements.
\<close>

subsection \<open>The driver\<close>

definition AES_128_BLOCK_SIZE :: nat where "AES_128_BLOCK_SIZE = 16"
definition AES_128_KEY_LENGTH :: nat where "AES_128_KEY_LENGTH = 16"

definition sbox :: "u8 list" where
  "sbox =
    [0x63, 0x7c, 0x77, 0x7b, 0xf2, 0x6b, 0x6f, 0xc5, 0x30, 0x01, 0x67, 0x2b, 0xfe, 0xd7, 0xab, 0x76,
     0xca, 0x82, 0xc9, 0x7d, 0xfa, 0x59, 0x47, 0xf0, 0xad, 0xd4, 0xa2, 0xaf, 0x9c, 0xa4, 0x72, 0xc0,
     0xb7, 0xfd, 0x93, 0x26, 0x36, 0x3f, 0xf7, 0xcc, 0x34, 0xa5, 0xe5, 0xf1, 0x71, 0xd8, 0x31, 0x15,
     0x04, 0xc7, 0x23, 0xc3, 0x18, 0x96, 0x05, 0x9a, 0x07, 0x12, 0x80, 0xe2, 0xeb, 0x27, 0xb2, 0x75,
     0x09, 0x83, 0x2c, 0x1a, 0x1b, 0x6e, 0x5a, 0xa0, 0x52, 0x3b, 0xd6, 0xb3, 0x29, 0xe3, 0x2f, 0x84,
     0x53, 0xd1, 0x00, 0xed, 0x20, 0xfc, 0xb1, 0x5b, 0x6a, 0xcb, 0xbe, 0x39, 0x4a, 0x4c, 0x58, 0xcf,
     0xd0, 0xef, 0xaa, 0xfb, 0x43, 0x4d, 0x33, 0x85, 0x45, 0xf9, 0x02, 0x7f, 0x50, 0x3c, 0x9f, 0xa8,
     0x51, 0xa3, 0x40, 0x8f, 0x92, 0x9d, 0x38, 0xf5, 0xbc, 0xb6, 0xda, 0x21, 0x10, 0xff, 0xf3, 0xd2,
     0xcd, 0x0c, 0x13, 0xec, 0x5f, 0x97, 0x44, 0x17, 0xc4, 0xa7, 0x7e, 0x3d, 0x64, 0x5d, 0x19, 0x73,
     0x60, 0x81, 0x4f, 0xdc, 0x22, 0x2a, 0x90, 0x88, 0x46, 0xee, 0xb8, 0x14, 0xde, 0x5e, 0x0b, 0xdb,
     0xe0, 0x32, 0x3a, 0x0a, 0x49, 0x06, 0x24, 0x5c, 0xc2, 0xd3, 0xac, 0x62, 0x91, 0x95, 0xe4, 0x79,
     0xe7, 0xc8, 0x37, 0x6d, 0x8d, 0xd5, 0x4e, 0xa9, 0x6c, 0x56, 0xf4, 0xea, 0x65, 0x7a, 0xae, 0x08,
     0xba, 0x78, 0x25, 0x2e, 0x1c, 0xa6, 0xb4, 0xc6, 0xe8, 0xdd, 0x74, 0x1f, 0x4b, 0xbd, 0x8b, 0x8a,
     0x70, 0x3e, 0xb5, 0x66, 0x48, 0x03, 0xf6, 0x0e, 0x61, 0x35, 0x57, 0xb9, 0x86, 0xc1, 0x1d, 0x9e,
     0xe1, 0xf8, 0x98, 0x11, 0x69, 0xd9, 0x8e, 0x94, 0x9b, 0x1e, 0x87, 0xe9, 0xce, 0x55, 0x28, 0xdf,
     0x8c, 0xa1, 0x89, 0x0d, 0xbf, 0xe6, 0x42, 0x68, 0x41, 0x99, 0x2d, 0x0f, 0xb0, 0x54, 0xbb, 0x16]"

definition galois_mul2 :: "u8 \<Rightarrow> u8" where
  "galois_mul2 v = (let xor_val = drop_bit 7 v * 0x1b in push_bit 1 v XOR xor_val)"

text \<open>One pass of the loop over the rounds: the next round key from the one before.\<close>

definition next_key :: "u8 list \<Rightarrow> u8 \<Rightarrow> u8 list" where
  "next_key p rcon =
     (let k = [sbox ! unat (p ! 13) XOR p ! 0 XOR rcon, sbox ! unat (p ! 14) XOR p ! 1,
               sbox ! unat (p ! 15) XOR p ! 2, sbox ! unat (p ! 12) XOR p ! 3]
      in fold (\<lambda>j k. k @ [p ! j XOR k ! (j - 4)]) [4..<AES_128_BLOCK_SIZE] k)"

fun key_loop :: "nat \<Rightarrow> u8 list \<Rightarrow> u8 \<Rightarrow> u8 list list" where
  "key_loop 0 p rcon = []"
| "key_loop (Suc n) p rcon = (let k = next_key p rcon in k # key_loop n k (galois_mul2 rcon))"

definition aes_set_key :: "u8 list \<Rightarrow> u8 list list" where
  "aes_set_key key = (let k = take AES_128_KEY_LENGTH key in k # key_loop 10 k 0x01)"

definition add_round_key :: "u8 list \<Rightarrow> u8 list \<Rightarrow> u8 list" where
  "add_round_key k state = fold (\<lambda>i s. s[i := s ! i XOR k ! i]) [0..<AES_128_BLOCK_SIZE] state"

definition byte_sub :: "u8 list \<Rightarrow> u8 list" where
  "byte_sub state = fold (\<lambda>i s. s[i := sbox ! unat (s ! i)]) [0..<AES_128_BLOCK_SIZE] state"

definition shift_row :: "u8 list \<Rightarrow> u8 list" where
  "shift_row s =
     (let buf1 = s ! 1; s = s[1 := s ! 5]; s = s[5 := s ! 9]; s = s[9 := s ! 13]; s = s[13 := buf1];
          buf1 = s ! 2; buf2 = s ! 6; s = s[2 := s ! 10]; s = s[6 := s ! 14]; s = s[10 := buf1]; s = s[14 := buf2];
          buf1 = s ! 15; s = s[15 := s ! 11]; s = s[11 := s ! 7]; s = s[7 := s ! 3]
      in s[3 := buf1])"

definition mix_step :: "nat \<Rightarrow> u8 list \<Rightarrow> u8 list" where
  "mix_step i s =
     (let buf4 = push_bit 2 i;
          buf1 = s ! buf4 XOR s ! (buf4 + 1) XOR s ! (buf4 + 2) XOR s ! (buf4 + 3);
          buf2 = s ! buf4;
          buf3 = galois_mul2 (s ! buf4 XOR s ! (buf4 + 1));
          s = s[buf4 := s ! buf4 XOR buf3 XOR buf1];
          buf3 = galois_mul2 (s ! (buf4 + 1) XOR s ! (buf4 + 2));
          s = s[buf4 + 1 := s ! (buf4 + 1) XOR buf3 XOR buf1];
          buf3 = galois_mul2 (s ! (buf4 + 2) XOR s ! (buf4 + 3));
          s = s[buf4 + 2 := s ! (buf4 + 2) XOR buf3 XOR buf1];
          buf3 = galois_mul2 (s ! (buf4 + 3) XOR buf2)
      in s[buf4 + 3 := s ! (buf4 + 3) XOR buf3 XOR buf1])"

definition encrypt_round :: "u8 list list \<Rightarrow> nat \<Rightarrow> u8 list \<Rightarrow> u8 list" where
  "encrypt_round round_keys round state =
     (let s = shift_row (byte_sub state);
          s = (if round < 10 then fold mix_step [0..<4] s else s)
      in add_round_key (round_keys ! round) s)"

definition aes_encrypt :: "u8 list list \<Rightarrow> u8 list \<Rightarrow> u8 list" where
  "aes_encrypt round_keys state = fold (encrypt_round round_keys) [1..<11] (add_round_key (round_keys ! 0) state)"

definition aes_128_set_padded_key :: "u8 list \<Rightarrow> nat \<Rightarrow> u8 list list option" where
  "aes_128_set_padded_key key key_len =
     (if key_len \<le> AES_128_BLOCK_SIZE then Some (aes_set_key (take key_len key @ replicate (AES_128_BLOCK_SIZE - key_len) 0)) else None)"

subsection \<open>The cipher of FIPS 197\<close>

text \<open>Multiplication in the field: the polynomial of one factor for every bit of the other, reduced by \<open>x ^ 8 + x ^ 4 + x ^ 3 + x + 1\<close>.\<close>

definition xtime :: "u8 \<Rightarrow> u8" where
  "xtime a = (if bit a 7 then push_bit 1 a XOR 0x1b else push_bit 1 a)"

fun gmul_loop :: "nat \<Rightarrow> u8 \<Rightarrow> u8 \<Rightarrow> u8" where
  "gmul_loop 0 a b = 0"
| "gmul_loop (Suc n) a b = (if bit b 0 then a else 0) XOR gmul_loop n (xtime a) (drop_bit 1 b)"

definition gmul :: "u8 \<Rightarrow> u8 \<Rightarrow> u8" where "gmul a b = gmul_loop 8 a b"

text \<open>The inverse, with 0 for 0; then an affine map of the bits.\<close>

definition ginv :: "u8 \<Rightarrow> u8" where
  "ginv a = (case find (\<lambda>b. gmul a b = 1) (map of_nat [0..<256]) of None \<Rightarrow> 0 | Some b \<Rightarrow> b)"

definition rotl :: "nat \<Rightarrow> u8 \<Rightarrow> u8" where "rotl n b = push_bit n b OR drop_bit (8 - n) b"

definition affine :: "u8 \<Rightarrow> u8" where
  "affine b = b XOR rotl 1 b XOR rotl 2 b XOR rotl 3 b XOR rotl 4 b XOR 0x63"

definition sub_byte :: "u8 \<Rightarrow> u8" where "sub_byte a = affine (ginv a)"

definition sub_bytes :: "u8 list \<Rightarrow> u8 list" where "sub_bytes = map sub_byte"

text \<open>Byte \<open>r + 4 * c\<close> of a block is in row \<open>r\<close> and column \<open>c\<close>.\<close>

definition shift_rows :: "u8 list \<Rightarrow> u8 list" where
  "shift_rows s = map (\<lambda>i. s ! (i mod 4 + 4 * ((i div 4 + i mod 4) mod 4))) [0..<16]"

definition mix_columns :: "u8 list \<Rightarrow> u8 list" where
  "mix_columns s = map (\<lambda>i. let c = 4 * (i div 4); at = (\<lambda>k. s ! (c + (i mod 4 + k) mod 4))
     in gmul (at 0) 2 XOR gmul (at 1) 3 XOR at 2 XOR at 3) [0..<16]"

definition xor_bytes :: "u8 list \<Rightarrow> u8 list \<Rightarrow> u8 list" where "xor_bytes = map2 (XOR)"

text \<open>The key schedule, in words of 4 bytes.\<close>

definition schedule_word :: "nat \<Rightarrow> u8 list list \<Rightarrow> u8 list" where
  "schedule_word i w =
     (let temp = w ! (i - 1);
          temp = (if i mod 4 = 0 then xor_bytes (sub_bytes (rotate1 temp)) [(xtime ^^ (i div 4 - 1)) 1, 0, 0, 0] else temp)
      in xor_bytes (w ! (i - 4)) temp)"

definition key_expansion :: "u8 list \<Rightarrow> u8 list list" where
  "key_expansion key = fold (\<lambda>i w. w @ [schedule_word i w]) [4..<44] (map (\<lambda>i. take 4 (drop (4 * i) key)) [0..<4])"

definition round_key :: "u8 list list \<Rightarrow> nat \<Rightarrow> u8 list" where
  "round_key w r = w ! (4 * r) @ w ! (4 * r + 1) @ w ! (4 * r + 2) @ w ! (4 * r + 3)"

definition fips_round :: "u8 list list \<Rightarrow> nat \<Rightarrow> u8 list \<Rightarrow> u8 list" where
  "fips_round w r s = xor_bytes (mix_columns (shift_rows (sub_bytes s))) (round_key w r)"

definition fips_aes :: "u8 list \<Rightarrow> u8 list \<Rightarrow> u8 list" where
  "fips_aes key block =
     (let w = key_expansion key;
          s = fold (fips_round w) [1..<10] (xor_bytes block (round_key w 0))
      in xor_bytes (shift_rows (sub_bytes s)) (round_key w 10))"

subsection \<open>The field\<close>

lemma bit_if: "bit (if c then a else 0) n \<longleftrightarrow> c \<and> bit a n" for a :: u8
  by simp

lemma u8_expand:
  fixes a :: u8
  shows "a = (if bit a 0 then 1 else 0) XOR (if bit a 1 then 2 else 0) XOR (if bit a 2 then 4 else 0) XOR (if bit a 3 then 8 else 0) XOR
    (if bit a 4 then 16 else 0) XOR (if bit a 5 then 32 else 0) XOR (if bit a 6 then 64 else 0) XOR (if bit a 7 then 128 else 0)" (is "a = ?e")
proof (rule bit_word_eqI)
  have m: "bit (push_bit k (1 :: u8)) n \<longleftrightarrow> n = k \<and> n < 8" for k n by (auto simp: bit_push_bit_iff bit_1_iff simp del: push_bit_of_1)
  have c: "bit (1 :: u8) n \<longleftrightarrow> n = 0 \<and> n < 8" "bit (2 :: u8) n \<longleftrightarrow> n = 1 \<and> n < 8" "bit (4 :: u8) n \<longleftrightarrow> n = 2 \<and> n < 8"
    "bit (8 :: u8) n \<longleftrightarrow> n = 3 \<and> n < 8" "bit (16 :: u8) n \<longleftrightarrow> n = 4 \<and> n < 8" "bit (32 :: u8) n \<longleftrightarrow> n = 5 \<and> n < 8"
    "bit (64 :: u8) n \<longleftrightarrow> n = 6 \<and> n < 8" "bit (128 :: u8) n \<longleftrightarrow> n = 7 \<and> n < 8" for n
    using m [of 0 n] m [of 1 n] m [of 2 n] m [of 3 n] m [of 4 n] m [of 5 n] m [of 6 n] m [of 7 n] by simp_all
  fix n assume n: "n < LENGTH(8)"
  then consider "n = 0" | "n = 1" | "n = 2" | "n = 3" | "n = 4" | "n = 5" | "n = 6" | "n = 7" by fastforce
  then show "bit a n \<longleftrightarrow> bit ?e n" unfolding bit_xor_iff bit_if c by cases (simp_all only: simp_thms refl, simp_all)
qed

text \<open>What holds of the powers of 2 and of sums holds of every byte.\<close>

lemma u8_xor_induct:
  fixes P :: "u8 \<Rightarrow> bool"
  assumes "P 0" and "\<And>p. p \<in> set [1, 2, 4, 8, 16, 32, 64, 128] \<Longrightarrow> P p" and "\<And>a b. P a \<Longrightarrow> P b \<Longrightarrow> P (a XOR b)"
  shows "P a"
  using assms by (subst u8_expand) (intro assms(3); simp)

lemma xtime_xor: "xtime (a XOR b) = xtime a XOR xtime b"
proof -
  have p: "push_bit 1 (a XOR b) = push_bit 1 a XOR push_bit 1 b" by (rule bit_word_eqI) (auto simp: bit_xor_iff bit_push_bit_iff)
  show ?thesis unfolding xtime_def p by (auto simp: bit_xor_iff xor.assoc xor.commute xor.left_commute)
qed

lemma xtime_0 [simp]: "xtime 0 = 0" by (simp add: xtime_def)

lemma gmul_loop_xor1: "gmul_loop n (a XOR b) c = gmul_loop n a c XOR gmul_loop n b c"
  by (induction n arbitrary: a b c) (simp_all add: xtime_xor xor.assoc xor.left_commute)

lemma drop_bit_xor: "drop_bit n (a XOR b :: u8) = drop_bit n a XOR drop_bit n b"
  by (rule bit_word_eqI) (auto simp: bit_xor_iff bit_drop_bit_eq)

lemma gmul_loop_xor2: "gmul_loop n a (b XOR c) = gmul_loop n a b XOR gmul_loop n a c"
  by (induction n arbitrary: a b c) (auto simp: drop_bit_xor bit_xor_iff xor.assoc xor.left_commute)

lemma gmul_loop_xtime: "gmul_loop n (xtime a) b = xtime (gmul_loop n a b)"
  by (induction n arbitrary: a b) (simp_all add: xtime_xor)

lemma gmul_loop_0: "gmul_loop n 0 b = 0" "gmul_loop n a 0 = 0"
  by (induction n arbitrary: a b) simp_all

lemmas gmul_linear = gmul_loop_xor1 [of 8, folded gmul_def] gmul_loop_xor2 [of 8, folded gmul_def]
lemmas gmul_xtime = gmul_loop_xtime [of 8, folded gmul_def]
lemmas gmul_zero [simp] = gmul_loop_0 [of 8, folded gmul_def]

text \<open>Rewriting by these computes products.\<close>

lemma gmul_steps: "gmul a b = gmul_loop (Suc (Suc (Suc (Suc (Suc (Suc (Suc (Suc 0)))))))) a b" by (simp add: gmul_def numeral_eq_Suc)

lemma xtime_steps: "xtime a = (if bit a 7 then 2 * a XOR 0x1b else 2 * a)" by (simp add: xtime_def mult.commute)

lemma gmul_commute: "gmul a b = gmul b a"
proof (induction a rule: u8_xor_induct)
  case (2 p)
  then show ?case
  proof (induction b rule: u8_xor_induct)
    case (2 q)
    have "list_all (\<lambda>p. list_all (\<lambda>q. gmul p q = gmul q p) [1, 2, 4, 8, 16, 32, 64, 128]) [1, 2, 4, 8, 16, 32, 64, 128]"
      by (simp add: gmul_steps xtime_steps)
    then show ?case using 2 unfolding list_all_iff by blast
  qed (simp_all add: gmul_linear)
qed (simp_all add: gmul_linear)

lemma gmul_one: "gmul a 1 = a"
proof (induction a rule: u8_xor_induct)
  case (2 p)
  have "list_all (\<lambda>p. gmul p 1 = p) [1, 2, 4, 8, 16, 32, 64, 128]" by code_simp
  then show ?case using 2 unfolding list_all_iff by blast
qed (simp_all add: gmul_linear)

lemma gmul_assoc: "gmul (gmul a b) c = gmul a (gmul b c)"
proof (induction c rule: u8_xor_induct)
  case (2 p)
  have "list_all (\<lambda>p. \<exists>j \<in> set [0..<8]. p = (xtime ^^ j) 1) [1, 2, 4, 8, 16, 32, 64, 128]" by code_simp
  then obtain j where p: "p = (xtime ^^ j) 1" using 2 unfolding list_all_iff by blast
  have one: "gmul x ((xtime ^^ j) 1) = (xtime ^^ j) x" for x
  proof (induction j)
    case (Suc j)
    have "gmul x ((xtime ^^ Suc j) 1) = gmul (xtime ((xtime ^^ j) 1)) x" by (simp add: gmul_commute)
    also have "\<dots> = xtime (gmul x ((xtime ^^ j) 1))" by (metis gmul_commute gmul_xtime)
    finally show ?case using Suc by simp
  qed (simp add: gmul_one)
  have shift: "gmul a ((xtime ^^ j) x) = (xtime ^^ j) (gmul a x)" for x
    by (induction j) (simp_all, metis gmul_commute gmul_xtime)
  show ?case unfolding p one shift ..
qed (simp_all add: gmul_linear)

lemma gmul_inverse_unique: "gmul a b = 1 \<Longrightarrow> gmul a c = 1 \<Longrightarrow> b = c"
  by (metis gmul_assoc gmul_commute gmul_one)

lemma ginv_eq: "gmul a b = 1 \<Longrightarrow> ginv a = b"
proof -
  assume b: "gmul a b = 1"
  have "b = of_nat (unat b)" "unat b < 256" using unsigned_less [of b, where ?'a = nat] by simp_all
  then have "b \<in> set (map of_nat [0..<256])" by (metis atLeastLessThan_iff image_eqI set_map set_upt zero_le)
  then obtain c where c: "find (\<lambda>b. gmul a b = 1) (map of_nat [0..<256]) = Some c" using b by (metis (mono_tags, lifting) find_None_iff not_Some_eq)
  then have "gmul a c = 1" by (auto simp: find_Some_iff)
  then show ?thesis using c gmul_inverse_unique [OF b] by (simp add: ginv_def)
qed

lemma inverse_entries_0: "list_all (\<lambda>(a, b, c). gmul a b = 1 \<and> affine b = c)
    [(1, 1, 124), (2, 141, 119), (3, 246, 123), (4, 203, 242), (5, 82, 107), (6, 123, 111), (7, 209, 197),
     (8, 232, 48), (9, 79, 1), (10, 41, 103), (11, 192, 43), (12, 176, 254), (13, 225, 215), (14, 229, 171), (15, 199, 118),
     (16, 116, 202), (17, 180, 130), (18, 170, 201), (19, 75, 125), (20, 153, 250), (21, 43, 89), (22, 96, 71), (23, 95, 240),
     (24, 88, 173), (25, 63, 212), (26, 253, 162), (27, 204, 175), (28, 255, 156), (29, 64, 164), (30, 238, 114), (31, 178, 192)]"
  by (simp add: gmul_steps xtime_steps affine_def rotl_def)

lemma inverse_entries_1: "list_all (\<lambda>(a, b, c). gmul a b = 1 \<and> affine b = c)
    [(32, 58, 183), (33, 110, 253), (34, 90, 147), (35, 241, 38), (36, 85, 54), (37, 77, 63), (38, 168, 247), (39, 201, 204),
     (40, 193, 52), (41, 10, 165), (42, 152, 229), (43, 21, 241), (44, 48, 113), (45, 68, 216), (46, 162, 49), (47, 194, 21),
     (48, 44, 4), (49, 69, 199), (50, 146, 35), (51, 108, 195), (52, 243, 24), (53, 57, 150), (54, 102, 5), (55, 66, 154),
     (56, 242, 7), (57, 53, 18), (58, 32, 128), (59, 111, 226), (60, 119, 235), (61, 187, 39), (62, 89, 178), (63, 25, 117)]"
  by (simp add: gmul_steps xtime_steps affine_def rotl_def)

lemma inverse_entries_2: "list_all (\<lambda>(a, b, c). gmul a b = 1 \<and> affine b = c)
    [(64, 29, 9), (65, 254, 131), (66, 55, 44), (67, 103, 26), (68, 45, 27), (69, 49, 110), (70, 245, 90), (71, 105, 160),
     (72, 167, 82), (73, 100, 59), (74, 171, 214), (75, 19, 179), (76, 84, 41), (77, 37, 227), (78, 233, 47), (79, 9, 132),
     (80, 237, 83), (81, 92, 209), (82, 5, 0), (83, 202, 237), (84, 76, 32), (85, 36, 252), (86, 135, 177), (87, 191, 91),
     (88, 24, 106), (89, 62, 203), (90, 34, 190), (91, 240, 57), (92, 81, 74), (93, 236, 76), (94, 97, 88), (95, 23, 207)]"
  by (simp add: gmul_steps xtime_steps affine_def rotl_def)

lemma inverse_entries_3: "list_all (\<lambda>(a, b, c). gmul a b = 1 \<and> affine b = c)
    [(96, 22, 208), (97, 94, 239), (98, 175, 170), (99, 211, 251), (100, 73, 67), (101, 166, 77), (102, 54, 51), (103, 67, 133),
     (104, 244, 69), (105, 71, 249), (106, 145, 2), (107, 223, 127), (108, 51, 80), (109, 147, 60), (110, 33, 159), (111, 59, 168),
     (112, 121, 81), (113, 183, 163), (114, 151, 64), (115, 133, 143), (116, 16, 146), (117, 181, 157), (118, 186, 56), (119, 60, 245),
     (120, 182, 188), (121, 112, 182), (122, 208, 218), (123, 6, 33), (124, 161, 16), (125, 250, 255), (126, 129, 243), (127, 130, 210)]"
  by (simp add: gmul_steps xtime_steps affine_def rotl_def)

lemma inverse_entries_4: "list_all (\<lambda>(a, b, c). gmul a b = 1 \<and> affine b = c)
    [(128, 131, 205), (129, 126, 12), (130, 127, 19), (131, 128, 236), (132, 150, 95), (133, 115, 151), (134, 190, 68), (135, 86, 23),
     (136, 155, 196), (137, 158, 167), (138, 149, 126), (139, 217, 61), (140, 247, 100), (141, 2, 93), (142, 185, 25), (143, 164, 115),
     (144, 222, 96), (145, 106, 129), (146, 50, 79), (147, 109, 220), (148, 216, 34), (149, 138, 42), (150, 132, 144), (151, 114, 136),
     (152, 42, 70), (153, 20, 238), (154, 159, 184), (155, 136, 20), (156, 249, 222), (157, 220, 94), (158, 137, 11), (159, 154, 219)]"
  by (simp add: gmul_steps xtime_steps affine_def rotl_def)

lemma inverse_entries_5: "list_all (\<lambda>(a, b, c). gmul a b = 1 \<and> affine b = c)
    [(160, 251, 224), (161, 124, 50), (162, 46, 58), (163, 195, 10), (164, 143, 73), (165, 184, 6), (166, 101, 36), (167, 72, 92),
     (168, 38, 194), (169, 200, 211), (170, 18, 172), (171, 74, 98), (172, 206, 145), (173, 231, 149), (174, 210, 228), (175, 98, 121),
     (176, 12, 231), (177, 224, 200), (178, 31, 55), (179, 239, 109), (180, 17, 141), (181, 117, 213), (182, 120, 78), (183, 113, 169),
     (184, 165, 108), (185, 142, 86), (186, 118, 244), (187, 61, 234), (188, 189, 101), (189, 188, 122), (190, 134, 174), (191, 87, 8)]"
  by (simp add: gmul_steps xtime_steps affine_def rotl_def)

lemma inverse_entries_6: "list_all (\<lambda>(a, b, c). gmul a b = 1 \<and> affine b = c)
    [(192, 11, 186), (193, 40, 120), (194, 47, 37), (195, 163, 46), (196, 218, 28), (197, 212, 166), (198, 228, 180), (199, 15, 198),
     (200, 169, 232), (201, 39, 221), (202, 83, 116), (203, 4, 31), (204, 27, 75), (205, 252, 189), (206, 172, 139), (207, 230, 138),
     (208, 122, 112), (209, 7, 62), (210, 174, 181), (211, 99, 102), (212, 197, 72), (213, 219, 3), (214, 226, 246), (215, 234, 14),
     (216, 148, 97), (217, 139, 53), (218, 196, 87), (219, 213, 185), (220, 157, 134), (221, 248, 193), (222, 144, 29), (223, 107, 158)]"
  by (simp add: gmul_steps xtime_steps affine_def rotl_def)

lemma inverse_entries_7: "list_all (\<lambda>(a, b, c). gmul a b = 1 \<and> affine b = c)
    [(224, 177, 225), (225, 13, 248), (226, 214, 152), (227, 235, 17), (228, 198, 105), (229, 14, 217), (230, 207, 142), (231, 173, 148),
     (232, 8, 155), (233, 78, 30), (234, 215, 135), (235, 227, 233), (236, 93, 206), (237, 80, 85), (238, 30, 40), (239, 179, 223),
     (240, 91, 140), (241, 35, 161), (242, 56, 137), (243, 52, 13), (244, 104, 191), (245, 70, 230), (246, 3, 66), (247, 140, 104),
     (248, 221, 65), (249, 156, 153), (250, 125, 45), (251, 160, 15), (252, 205, 176), (253, 26, 84), (254, 65, 187), (255, 28, 22)]"
  by (simp add: gmul_steps xtime_steps affine_def rotl_def)

lemma sub_byte_eq: "gmul a b = 1 \<and> affine b = c \<Longrightarrow> sub_byte a = c"
  using ginv_eq by (auto simp: sub_byte_def)

lemma ginv_0: "ginv 0 = 0"
proof -
  have "find (\<lambda>b. gmul 0 b = 1) bs = None" for bs by (simp add: find_None_iff)
  then show ?thesis by (simp add: ginv_def)
qed

lemma sub_byte_0: "sub_byte 0 = 0x63"
  by (simp add: sub_byte_def ginv_0 affine_def rotl_def)

lemma sub_byte_entries: "list_all (\<lambda>(a, b, c). gmul a b = 1 \<and> affine b = c) es \<Longrightarrow> list_all (\<lambda>(a, b, c). sub_byte a = c) es"
  unfolding list_all_iff using sub_byte_eq by fastforce

lemma bytes_256:
  "map of_nat [0..<256] =
    ([0, 1, 2, 3, 4, 5, 6, 7, 8, 9, 10, 11, 12, 13, 14, 15, 16, 17, 18, 19, 20, 21, 22, 23, 24, 25, 26, 27, 28, 29, 30, 31,
      32, 33, 34, 35, 36, 37, 38, 39, 40, 41, 42, 43, 44, 45, 46, 47, 48, 49, 50, 51, 52, 53, 54, 55, 56, 57, 58, 59, 60, 61, 62, 63,
      64, 65, 66, 67, 68, 69, 70, 71, 72, 73, 74, 75, 76, 77, 78, 79, 80, 81, 82, 83, 84, 85, 86, 87, 88, 89, 90, 91, 92, 93, 94, 95,
      96, 97, 98, 99, 100, 101, 102, 103, 104, 105, 106, 107, 108, 109, 110, 111, 112, 113, 114, 115, 116, 117, 118, 119, 120, 121, 122, 123, 124, 125, 126, 127,
      128, 129, 130, 131, 132, 133, 134, 135, 136, 137, 138, 139, 140, 141, 142, 143, 144, 145, 146, 147, 148, 149, 150, 151, 152, 153, 154, 155, 156, 157, 158, 159,
      160, 161, 162, 163, 164, 165, 166, 167, 168, 169, 170, 171, 172, 173, 174, 175, 176, 177, 178, 179, 180, 181, 182, 183, 184, 185, 186, 187, 188, 189, 190, 191,
      192, 193, 194, 195, 196, 197, 198, 199, 200, 201, 202, 203, 204, 205, 206, 207, 208, 209, 210, 211, 212, 213, 214, 215, 216, 217, 218, 219, 220, 221, 222, 223,
      224, 225, 226, 227, 228, 229, 230, 231, 232, 233, 234, 235, 236, 237, 238, 239, 240, 241, 242, 243, 244, 245, 246, 247, 248, 249, 250, 251, 252, 253, 254, 255] :: u8 list)"
proof -
  have "[Suc (Suc 0)..<256] = 2 # [3..<256]" unfolding numeral_2_eq_2 [symmetric] by (simp add: upt_rec_numeral)
  then show ?thesis by (simp add: upt_rec [of 0 256] upt_rec [of "Suc 0" 256] upt_rec_numeral)
qed

lemma sbox_sub_byte: "sbox = map sub_byte (map of_nat [0..<256])"
proof -
  note e = sub_byte_entries [OF inverse_entries_0] sub_byte_entries [OF inverse_entries_1] sub_byte_entries [OF inverse_entries_2] sub_byte_entries [OF inverse_entries_3]
    sub_byte_entries [OF inverse_entries_4] sub_byte_entries [OF inverse_entries_5] sub_byte_entries [OF inverse_entries_6] sub_byte_entries [OF inverse_entries_7]
  note e' = e [unfolded list.pred_inject prod.case]
  show ?thesis unfolding bytes_256 sbox_def by (simp only: list.map sub_byte_0 e')
qed

lemma sbox_nth: "sbox ! unat a = sub_byte a"
proof -
  have "unat a < 256" using unsigned_less [of a, where ?'a = nat] by simp
  then show ?thesis by (simp add: sbox_sub_byte)
qed

subsection \<open>The steps of a round\<close>

lemma fold_update_map:
  "length s = n \<Longrightarrow> fold (\<lambda>i s. s[i := f i (s ! i)]) [0..<n] s = map (\<lambda>i. f i (s ! i)) [0..<n]"
proof -
  have "k \<le> length s \<Longrightarrow> fold (\<lambda>i s. s[i := f i (s ! i)]) [0..<k] s = map (\<lambda>i. f i (s ! i)) [0..<k] @ drop k s" for k
  proof (induction k)
    case (Suc k)
    then show ?case by (simp add: nth_append list_update_append Cons_nth_drop_Suc [symmetric])
  qed simp
  from this [of n] show "length s = n \<Longrightarrow> ?thesis" by simp
qed

lemma byte_sub_eq: "length s = 16 \<Longrightarrow> byte_sub s = sub_bytes s"
  using fold_update_map [of s 16 "\<lambda>i b. sbox ! unat b"]
  by (simp add: byte_sub_def sub_bytes_def AES_128_BLOCK_SIZE_def sbox_nth list_eq_iff_nth_eq)

lemma add_round_key_eq: "length s = 16 \<Longrightarrow> length k = 16 \<Longrightarrow> add_round_key k s = xor_bytes s k"
  using fold_update_map [of s 16 "\<lambda>i b. b XOR k ! i"]
  by (simp add: add_round_key_def xor_bytes_def AES_128_BLOCK_SIZE_def list_eq_iff_nth_eq)

lemma list_16:
  assumes "length s = 16"
  obtains a0 a1 a2 a3 a4 a5 a6 a7 a8 a9 a10 a11 a12 a13 a14 a15
    where "s = [a0, a1, a2, a3, a4, a5, a6, a7, a8, a9, a10, a11, a12, a13, a14, a15]"
  using assms by (auto simp: numeral_eq_Suc length_Suc_conv)

lemma upt_16: "[0..<16] = [0, 1, 2, 3, 4, 5, 6, 7, 8, 9, 10, 11, 12, 13, 14, 15]"
  by (simp add: upt_rec_numeral numeral_eq_Suc)

lemma shift_row_eq: "length s = 16 \<Longrightarrow> shift_row s = shift_rows s"
  by (erule list_16) (simp add: shift_row_def shift_rows_def upt_16 Let_def)

lemma drop_bit_7: "drop_bit 7 a = (if bit a 7 then 1 else 0)" for a :: u8
proof (rule bit_word_eqI)
  fix n assume "n < LENGTH(8)"
  have "n = 0 \<or> \<not> bit a (7 + n)" using bit_imp_le_length [of a "7 + n"] by auto
  then show "bit (drop_bit 7 a) n \<longleftrightarrow> bit (if bit a 7 then 1 else 0 :: u8) n" by (auto simp: bit_drop_bit_eq bit_1_iff)
qed

lemma galois_mul2_xtime: "galois_mul2 a = xtime a"
  unfolding galois_mul2_def xtime_def drop_bit_7 by simp

lemma gmul_2: "gmul a 2 = xtime a"
  by (simp add: gmul_steps)

lemma gmul_3: "gmul a 3 = xtime a XOR a"
  by (simp add: gmul_steps xor.commute)

lemma xor_cancel: "a XOR (a XOR b) = b" for a b :: u8
  by (simp flip: xor.assoc)

lemmas xor_ac = xor.assoc xor.commute xor.left_commute xor_cancel

lemma mix_columns_eq: "length s = 16 \<Longrightarrow> fold mix_step [0..<4] s = mix_columns s"
proof (erule list_16)
  have 4: "[0..<4] = [0, 1, 2, 3]" by (simp add: upt_rec_numeral numeral_eq_Suc)
  show "fold mix_step [0..<4] s = mix_columns s" if "s = [a0, a1, a2, a3, a4, a5, a6, a7, a8, a9, a10, a11, a12, a13, a14, a15]"
    for a0 a1 a2 a3 a4 a5 a6 a7 a8 a9 a10 a11 a12 a13 a14 a15
    unfolding that 4
    by (simp add: mix_columns_def mix_step_def upt_16 Let_def galois_mul2_xtime gmul_2 gmul_3 xtime_xor push_bit_nat_def) (simp add: xor_ac)
qed

text \<open>One round.\<close>

lemma length_steps:
  "length (sub_bytes s) = length s" "length (shift_rows s) = 16" "length (mix_columns s) = 16"
  "length (xor_bytes s k) = min (length s) (length k)"
  by (simp_all add: sub_bytes_def shift_rows_def mix_columns_def xor_bytes_def)

lemma encrypt_round_eq:
  assumes "length s = 16" and "length (rk ! r) = 16"
  shows "encrypt_round rk r s = xor_bytes (if r < 10 then mix_columns (shift_rows (sub_bytes s)) else shift_rows (sub_bytes s)) (rk ! r)"
  using assms by (simp add: encrypt_round_def byte_sub_eq shift_row_eq mix_columns_eq add_round_key_eq length_steps)

lemma encrypt_rounds_eq:
  assumes "length s = 16" and "\<And>r. r \<in> set rs \<Longrightarrow> r < 10 \<and> length (rk ! r) = 16 \<and> rk ! r = round_key w r"
  shows "fold (encrypt_round rk) rs s = fold (fips_round w) rs s \<and> length (fold (fips_round w) rs s) = 16"
  using assms
proof (induction rs arbitrary: s)
  case (Cons r rs)
  have r: "r < 10" "length (rk ! r) = 16" "rk ! r = round_key w r" using Cons.prems(2) [OF list.set_intros(1)] by blast+
  then have "encrypt_round rk r s = fips_round w r s" using encrypt_round_eq [OF Cons.prems(1) r(2)] by (simp add: fips_round_def)
  moreover have "length (fips_round w r s) = 16" using r(2) [unfolded r(3)] by (simp add: fips_round_def length_steps)
  ultimately show ?case using Cons.IH [OF _ Cons.prems(2) [OF list.set_intros(2)], of "fips_round w r s"] by simp
qed simp

subsection \<open>The key schedule\<close>

lemma schedule_first:
  assumes "length u = 4 * m"
  shows "schedule_word (4 * m + 4) (u @ [wa, wb, wc, wd]) = xor_bytes wa (xor_bytes (sub_bytes (rotate1 wd)) [(xtime ^^ m) 1, 0, 0, 0])"
  using assms by (simp add: schedule_word_def nth_append Let_def)

lemma schedule_next:
  assumes "length u = 4 * m" and "0 < k" and "k < 4" and "length v = 4 + k"
  shows "schedule_word (4 * m + 4 + k) (u @ v) = xor_bytes (v ! k) (v ! (3 + k))"
proof -
  have "(4 * m + 4 + k) mod 4 = k" using assms(2,3) by presburger
  then show ?thesis using assms by (simp add: schedule_word_def nth_append Let_def)
qed

lemma key_step:
  fixes a0 a1 a2 a3 b0 b1 b2 b3 c0 c1 c2 c3 d0 d1 d2 d3 :: u8
  assumes "length u = 4 * m" and "w = u @ [[a0, a1, a2, a3], [b0, b1, b2, b3], [c0, c1, c2, c3], [d0, d1, d2, d3]]"
    and "k = next_key [a0, a1, a2, a3, b0, b1, b2, b3, c0, c1, c2, c3, d0, d1, d2, d3] ((xtime ^^ m) 1)"
  shows "fold (\<lambda>i w. w @ [schedule_word i w]) [4 * m + 4..<4 * m + 8] w = w @ [take 4 k, take 4 (drop 4 k), take 4 (drop 8 k), drop 12 k]"
    and "length k = 16"
proof -
  have i: "[4 * m + 4..<4 * m + 8] = [4 * m + 4, 4 * m + 4 + 1, 4 * m + 4 + 2, 4 * m + 4 + 3]"
    by (simp add: upt_rec numeral_eq_Suc)
  have u4: "[4..<AES_128_BLOCK_SIZE] = [4, 5, 6, 7, 8, 9, 10, 11, 12, 13, 14, 15]"
    by (simp add: AES_128_BLOCK_SIZE_def upt_rec_numeral numeral_eq_Suc)
  let ?r = "(xtime ^^ m) 1"
  have k: "k = [sub_byte d1 XOR a0 XOR ?r, sub_byte d2 XOR a1, sub_byte d3 XOR a2, sub_byte d0 XOR a3,
    b0 XOR (sub_byte d1 XOR a0 XOR ?r), b1 XOR (sub_byte d2 XOR a1), b2 XOR (sub_byte d3 XOR a2), b3 XOR (sub_byte d0 XOR a3),
    c0 XOR (b0 XOR (sub_byte d1 XOR a0 XOR ?r)), c1 XOR (b1 XOR (sub_byte d2 XOR a1)), c2 XOR (b2 XOR (sub_byte d3 XOR a2)), c3 XOR (b3 XOR (sub_byte d0 XOR a3)),
    d0 XOR (c0 XOR (b0 XOR (sub_byte d1 XOR a0 XOR ?r))), d1 XOR (c1 XOR (b1 XOR (sub_byte d2 XOR a1))),
    d2 XOR (c2 XOR (b2 XOR (sub_byte d3 XOR a2))), d3 XOR (c3 XOR (b3 XOR (sub_byte d0 XOR a3)))]"
    unfolding assms(3) next_key_def u4 by (simp add: sbox_nth Let_def)
  then show "length k = 16" by simp
  let ?x = "xor_bytes [a0, a1, a2, a3] (xor_bytes (sub_bytes (rotate1 [d0, d1, d2, d3])) [?r, 0, 0, 0])"
  let ?y = "xor_bytes [b0, b1, b2, b3] ?x" let ?z = "xor_bytes [c0, c1, c2, c3] ?y" let ?q = "xor_bytes [d0, d1, d2, d3] ?z"
  let ?v = "[[a0, a1, a2, a3], [b0, b1, b2, b3], [c0, c1, c2, c3], [d0, d1, d2, d3]]"
  have s1: "schedule_word (4 * m + 4) w = ?x" unfolding assms(2) by (rule schedule_first [OF assms(1)])
  have s2: "schedule_word (4 * m + 4 + 1) (w @ [?x]) = ?y" using schedule_next [OF assms(1), of 1 "?v @ [?x]"] by (simp add: assms(2))
  have s3: "schedule_word (4 * m + 4 + 2) ((w @ [?x]) @ [?y]) = ?z" using schedule_next [OF assms(1), of 2 "?v @ [?x, ?y]"] by (simp add: assms(2))
  have s4: "schedule_word (4 * m + 4 + 3) (((w @ [?x]) @ [?y]) @ [?z]) = ?q" using schedule_next [OF assms(1), of 3 "?v @ [?x, ?y, ?z]"] by (simp add: assms(2))
  have w: "?x = take 4 k" "?y = take 4 (drop 4 k)" "?z = take 4 (drop 8 k)" "?q = drop 12 k"
    unfolding k by (simp_all add: xor_bytes_def sub_bytes_def xor.assoc xor.commute xor.left_commute)
  show "fold (\<lambda>i w. w @ [schedule_word i w]) [4 * m + 4..<4 * m + 8] w = w @ [take 4 k, take 4 (drop 4 k), take 4 (drop 8 k), drop 12 k]"
    unfolding i fold_simps s1 s2 s3 s4 unfolding w(4) unfolding w(3) unfolding w(2) unfolding w(1) by simp
qed

text \<open>The words of a round key.\<close>

definition words_of :: "u8 list \<Rightarrow> u8 list list" where
  "words_of k = [take 4 k, take 4 (drop 4 k), take 4 (drop 8 k), drop 12 k]"

lemma length_words_of [simp]: "length (words_of k) = 4"
  by (simp add: words_of_def)

lemma round_key_words:
  assumes "length u = 4 * r" and "length k = 16"
  shows "round_key (u @ words_of k @ v) r = k"
proof -
  obtain a0 a1 a2 a3 a4 a5 a6 a7 a8 a9 a10 a11 a12 a13 a14 a15
    where "k = [a0, a1, a2, a3, a4, a5, a6, a7, a8, a9, a10, a11, a12, a13, a14, a15]" by (rule list_16 [OF assms(2)])
  then show ?thesis using assms(1) by (simp add: round_key_def words_of_def nth_append)
qed

lemma key_loop_words:
  assumes "length u = 4 * m" and "length k = 16"
  shows "fold (\<lambda>i w. w @ [schedule_word i w]) [4 * m + 4..<4 * (m + n) + 4] (u @ words_of k) =
      u @ words_of k @ concat (map words_of (key_loop n k ((xtime ^^ m) 1)))"
    and "list_all (\<lambda>k. length k = 16) (key_loop n k ((xtime ^^ m) 1))"
proof -
  have "fold (\<lambda>i w. w @ [schedule_word i w]) [4 * m + 4..<4 * (m + n) + 4] (u @ words_of k) =
      u @ words_of k @ concat (map words_of (key_loop n k ((xtime ^^ m) 1))) \<and> list_all (\<lambda>k. length k = 16) (key_loop n k ((xtime ^^ m) 1))"
    using assms
  proof (induction n arbitrary: u m k)
    case (Suc n)
    obtain a0 a1 a2 a3 b0 b1 b2 b3 c0 c1 c2 c3 d0 d1 d2 d3
      where k: "k = [a0, a1, a2, a3, b0, b1, b2, b3, c0, c1, c2, c3, d0, d1, d2, d3]" by (rule list_16 [OF Suc.prems(2)])
    let ?k = "next_key k ((xtime ^^ m) 1)"
    have w: "u @ words_of k = u @ [[a0, a1, a2, a3], [b0, b1, b2, b3], [c0, c1, c2, c3], [d0, d1, d2, d3]]" by (simp add: k words_of_def)
    note step = key_step [OF Suc.prems(1) w, of ?k, unfolded k [symmetric], OF refl]
    have l: "length (u @ words_of k) = 4 * Suc m" using Suc.prems(1) by simp
    have i: "[4 * m + 4..<4 * (m + Suc n) + 4] = [4 * m + 4..<4 * m + 8] @ [4 * Suc m + 4..<4 * (Suc m + n) + 4]"
    proof -
      have e: "4 * (m + Suc n) + 4 = 4 * m + 8 + 4 * n" "4 * (Suc m + n) + 4 = 4 * m + 8 + 4 * n" "4 * Suc m + 4 = 4 * m + 8" by simp_all
      show ?thesis unfolding e by (rule upt_add_eq_append) simp
    qed
    have "fold (\<lambda>i w. w @ [schedule_word i w]) [4 * m + 4..<4 * (m + Suc n) + 4] (u @ words_of k) =
        fold (\<lambda>i w. w @ [schedule_word i w]) [4 * Suc m + 4..<4 * (Suc m + n) + 4] ((u @ words_of k) @ words_of ?k)"
      unfolding i fold_append o_apply step(1) by (simp add: words_of_def)
    then show ?case using Suc.IH [OF l step(2)] step(2) by (simp add: Let_def galois_mul2_xtime)
  qed simp
  then show "fold (\<lambda>i w. w @ [schedule_word i w]) [4 * m + 4..<4 * (m + n) + 4] (u @ words_of k) =
      u @ words_of k @ concat (map words_of (key_loop n k ((xtime ^^ m) 1)))"
    "list_all (\<lambda>k. length k = 16) (key_loop n k ((xtime ^^ m) 1))" by blast+
qed

lemma concat_words_nth:
  "list_all (\<lambda>k. length k = 16) ks \<Longrightarrow> r < length ks \<Longrightarrow> round_key (concat (map words_of ks)) r = ks ! r"
proof -
  assume a: "list_all (\<lambda>k. length k = 16) ks" "r < length ks"
  have "concat (map words_of ks) = concat (map words_of (take r ks @ ks ! r # drop (Suc r) ks))"
    by (rule arg_cong [OF id_take_nth_drop [OF a(2)]])
  also have "\<dots> = concat (map words_of (take r ks)) @ words_of (ks ! r) @ concat (map words_of (drop (Suc r) ks))"
    by (simp only: map_append list.map concat_append concat.simps)
  finally have c: "concat (map words_of ks) = concat (map words_of (take r ks)) @ words_of (ks ! r) @ concat (map words_of (drop (Suc r) ks))" .
  have "length (concat (map words_of l)) = 4 * length l" for l by (induction l) simp_all
  from this [of "take r ks"] have "length (concat (map words_of (take r ks))) = 4 * r" using a(2) by simp
  moreover have "length (ks ! r) = 16" using a by (simp add: list_all_length)
  ultimately show ?thesis unfolding c by (rule round_key_words)
qed

lemma length_key_loop [simp]: "length (key_loop n k c) = n"
  by (induction n arbitrary: k c) (simp_all add: Let_def)

lemma key_expansion_eq:
  assumes "length key = 16"
  shows "key_expansion key = concat (map words_of (aes_set_key key))" and "list_all (\<lambda>k. length k = 16) (aes_set_key key)"
proof -
  have 4: "[0..<4] = [0, 1, 2, 3]" by (simp add: upt_rec_numeral numeral_eq_Suc)
  have w: "map (\<lambda>i. take 4 (drop (4 * i) key)) [0..<4] = words_of key" unfolding 4 using assms by (simp add: words_of_def)
  have k: "take AES_128_KEY_LENGTH key = key" using assms by (simp add: AES_128_KEY_LENGTH_def)
  have e: "4 * 0 + 4 = (4 :: nat)" "4 * (0 + 10) + 4 = (44 :: nat)" "(xtime ^^ 0) 1 = 1" by simp_all
  have s: "aes_set_key key = key # key_loop 10 key 1" by (simp only: aes_set_key_def k Let_def)
  have z: "length [] = 4 * (0 :: nat)" by simp
  note l = key_loop_words [OF z assms, of 10, unfolded e append_Nil]
  show "key_expansion key = concat (map words_of (aes_set_key key))"
    unfolding key_expansion_def w s list.map concat.simps by (rule l(1))
  show "list_all (\<lambda>k. length k = 16) (aes_set_key key)" unfolding s list.pred_inject using assms l(2) by blast
qed

lemma aes_encrypt_fips:
  assumes l: "length key = 16" "length block = 16"
  shows "aes_encrypt (aes_set_key key) block = fips_aes key block"
proof -
  let ?rk = "aes_set_key key" and ?w = "key_expansion key"
  note e = key_expansion_eq [OF l(1)]
  have n: "length ?rk = 11" by (simp add: aes_set_key_def Let_def)
  have rk: "length (?rk ! r) = 16" "?rk ! r = round_key ?w r" if "r < 11" for r
    using that n e(2) concat_words_nth [OF e(2), of r] unfolding e(1) list_all_length by simp_all
  let ?s0 = "xor_bytes block (round_key ?w 0)"
  have s0: "add_round_key (?rk ! 0) block = ?s0" "length ?s0 = 16"
    using add_round_key_eq [OF l(2) rk(1) [of 0]] rk [of 0] l(2) by (simp_all add: length_steps)
  have u: "[1..<11] = [1..<10] @ [10]" by (simp add: upt_rec_numeral numeral_eq_Suc)
  have rounds: "fold (encrypt_round ?rk) [1..<10] ?s0 = fold (fips_round ?w) [1..<10] ?s0" "length (fold (fips_round ?w) [1..<10] ?s0) = 16"
    using encrypt_rounds_eq [OF s0(2), of "[1..<10]" ?rk ?w] rk by auto
  show ?thesis
    unfolding aes_encrypt_def fips_aes_def u s0(1) fold_append o_apply rounds(1) Let_def
    using encrypt_round_eq [OF rounds(2) rk(1) [of 10]] rk(2) [of 10] by simp
qed

text \<open>
  C9: The driver computes AES-128: for every key of 16 bytes and every block, encrypting with the round keys of \<open>set_key\<close> is the
  cipher of FIPS 197, whose substitution is the affine map of the inverse in the field of 256 elements, whose
  columns are multiplied by a matrix over this field and whose key schedule goes word by word.
\<close>

theorem aes_encrypt_is_fips_aes:
  assumes "length key = AES_128_KEY_LENGTH" and "length block = AES_128_BLOCK_SIZE"
  shows "aes_encrypt (aes_set_key key) block = fips_aes key block"
  using assms by (simp add: aes_encrypt_fips AES_128_KEY_LENGTH_def AES_128_BLOCK_SIZE_def)

text \<open>The example of FIPS 197, appendix B.\<close>

theorem aes_encrypt_is_fips_aes_witness:
  "aes_encrypt (aes_set_key [0x2b, 0x7e, 0x15, 0x16, 0x28, 0xae, 0xd2, 0xa6, 0xab, 0xf7, 0x15, 0x88, 0x09, 0xcf, 0x4f, 0x3c])
      [0x32, 0x43, 0xf6, 0xa8, 0x88, 0x5a, 0x30, 0x8d, 0x31, 0x31, 0x98, 0xa2, 0xe0, 0x37, 0x07, 0x34] =
    fips_aes [0x2b, 0x7e, 0x15, 0x16, 0x28, 0xae, 0xd2, 0xa6, 0xab, 0xf7, 0x15, 0x88, 0x09, 0xcf, 0x4f, 0x3c]
      [0x32, 0x43, 0xf6, 0xa8, 0x88, 0x5a, 0x30, 0x8d, 0x31, 0x31, 0x98, 0xa2, 0xe0, 0x37, 0x07, 0x34]"
  by (rule aes_encrypt_is_fips_aes) (simp_all add: AES_128_KEY_LENGTH_def AES_128_BLOCK_SIZE_def)

end
