(* ===== verification/Ccm_Star.thy ===== *)
theory Ccm_Star
  imports Aes Bytemem
begin

section \<open>CCM* (utils/src/ccm-star.c)\<close>

text \<open>
  Authenticated encryption of a message in place. The nonce, the message, the additional data and the place of the result are in
  the byte-addressed memory, the arrays on the stack are lists of 16 bytes. The block cipher is a parameter: the driver \<open>AES_128\<close>
  with its round keys. Positions and counters have 8 bits, as in the code; the loops over positions are partial functions,
  since a position can wrap around.
\<close>

subsection \<open>The driver\<close>

definition CCM_STAR_NONCE_LENGTH :: nat where "CCM_STAR_NONCE_LENGTH = 13"
definition CCM_STAR_ENCRYPTION_FLAGS :: u8 where "CCM_STAR_ENCRYPTION_FLAGS = 1"

definition CCM_STAR_AUTH_FLAGS :: "u8 \<Rightarrow> u8 \<Rightarrow> u8" where
  "CCM_STAR_AUTH_FLAGS Adata M =
     ucast ((if Adata \<noteq> 0 then push_bit 6 1 else 0) OR push_bit 3 (drop_bit 1 (ucast M - 2)) OR 1 :: u32)"

definition set_iv :: "mem \<Rightarrow> u8 \<Rightarrow> ptr \<Rightarrow> u8 \<Rightarrow> u8 list option" where
  "set_iv s flags nonce counter = do { n \<leftarrow> load_list s nonce CCM_STAR_NONCE_LENGTH; Some (flags # n @ [0, counter]) }"

text \<open>The loop of \<open>ctr_step\<close>, on the message in memory and on an array of the caller.\<close>

function ctr_xor :: "mem \<Rightarrow> ptr \<Rightarrow> nat \<Rightarrow> nat \<Rightarrow> u8 list \<Rightarrow> nat \<Rightarrow> mem option" where
  "ctr_xor s m pos m_len a i =
     (if pos + i < m_len \<and> i < AES_128_BLOCK_SIZE then do {
        v \<leftarrow> s (m + pos + i);
        s \<leftarrow> store s (m + pos + i) (v XOR a ! i);
        ctr_xor s m pos m_len a (Suc i)
      } else Some s)"
  by pat_completeness auto
termination by (relation "measure (\<lambda>(s, m, pos, m_len, a, i). AES_128_BLOCK_SIZE - i)") auto

definition ctr_step :: "(u8 list \<Rightarrow> u8 list) \<Rightarrow> mem \<Rightarrow> ptr \<Rightarrow> u8 \<Rightarrow> ptr \<Rightarrow> u8 \<Rightarrow> u8 \<Rightarrow> mem option" where
  "ctr_step E s nonce pos m m_len counter = do {
     a \<leftarrow> set_iv s CCM_STAR_ENCRYPTION_FLAGS nonce counter;
     ctr_xor s m (unat pos) (unat m_len) (E a) 0
   }"

definition ctr_step_local :: "(u8 list \<Rightarrow> u8 list) \<Rightarrow> mem \<Rightarrow> ptr \<Rightarrow> u8 list \<Rightarrow> u8 \<Rightarrow> u8 list option" where
  "ctr_step_local E s nonce x counter = do {
     a \<leftarrow> set_iv s CCM_STAR_ENCRYPTION_FLAGS nonce counter;
     Some (fold (\<lambda>i x. x[i := x ! i XOR E a ! i]) [0..<AES_128_BLOCK_SIZE] x)
   }"

text \<open>The loops of \<open>mic\<close> that add bytes from memory to the block: the byte \<open>p[d + i]\<close> to \<open>x[i]\<close>, where \<open>d\<close> is -2 in the first.\<close>

function mic_xor :: "mem \<Rightarrow> ptr \<Rightarrow> int \<Rightarrow> nat \<Rightarrow> u8 list \<Rightarrow> nat \<Rightarrow> u8 list option" where
  "mic_xor s p d n x i =
     (if d + int i < int n \<and> i < AES_128_BLOCK_SIZE then do {
        v \<leftarrow> s (nat (int p + d + int i));
        mic_xor s p d n (x[i := x ! i XOR v]) (Suc i)
      } else Some x)"
  by pat_completeness auto
termination by (relation "measure (\<lambda>(s, p, d, n, x, i). AES_128_BLOCK_SIZE - i)") auto

declare ctr_xor.simps [simp del] mic_xor.simps [simp del]

partial_function (option) mic_loop :: "(u8 list \<Rightarrow> u8 list) \<Rightarrow> mem \<Rightarrow> ptr \<Rightarrow> u8 \<Rightarrow> u8 \<Rightarrow> u8 list \<Rightarrow> u8 list option" where
  "mic_loop E s p n pos block =
     (if pos < n then do {
        x \<leftarrow> mic_xor s p (int (unat pos)) (unat n) block 0;
        mic_loop E s p n (pos + of_nat AES_128_BLOCK_SIZE) (E x)
      } else Some block)"

definition mic :: "(u8 list \<Rightarrow> u8 list) \<Rightarrow> mem \<Rightarrow> ptr \<Rightarrow> ptr \<Rightarrow> u8 \<Rightarrow> ptr \<Rightarrow> u8 \<Rightarrow> ptr \<Rightarrow> u8 \<Rightarrow> mem option" where
  "mic E s nonce m m_len a a_len result mic_len = do {
     x \<leftarrow> set_iv s (CCM_STAR_AUTH_FLAGS a_len mic_len) nonce m_len;
     x \<leftarrow> (if a_len \<noteq> 0 then do {
            let x = E x;
            x \<leftarrow> mic_xor s a (- 2) (unat a_len) (x[1 := x ! 1 XOR a_len]) 2;
            mic_loop E s a a_len 14 (E x)
          } else Some (E x));
     x \<leftarrow> (if m_len \<noteq> 0 then mic_loop E s m m_len 0 x else Some x);
     x \<leftarrow> ctr_step_local E s nonce x 0;
     if unat mic_len \<le> AES_128_BLOCK_SIZE then store_list s result (take (unat mic_len) x) else None
   }"

partial_function (option) ctr_loop :: "(u8 list \<Rightarrow> u8 list) \<Rightarrow> mem \<Rightarrow> ptr \<Rightarrow> ptr \<Rightarrow> u8 \<Rightarrow> u8 \<Rightarrow> u8 \<Rightarrow> mem option" where
  "ctr_loop E s nonce m m_len pos counter =
     (if pos < m_len then do {
        s \<leftarrow> ctr_step E s nonce pos m m_len counter;
        ctr_loop E s nonce m m_len (pos + of_nat AES_128_BLOCK_SIZE) (counter + 1)
      } else Some s)"

definition ctr :: "(u8 list \<Rightarrow> u8 list) \<Rightarrow> mem \<Rightarrow> ptr \<Rightarrow> ptr \<Rightarrow> u8 \<Rightarrow> mem option" where
  "ctr E s nonce m m_len = ctr_loop E s nonce m m_len 0 1"

definition aead :: "(u8 list \<Rightarrow> u8 list) \<Rightarrow> mem \<Rightarrow> ptr \<Rightarrow> ptr \<Rightarrow> u8 \<Rightarrow> ptr \<Rightarrow> u8 \<Rightarrow> ptr \<Rightarrow> u8 \<Rightarrow> bool \<Rightarrow> mem option" where
  "aead E s nonce m m_len a a_len result mic_len forward = do {
     s \<leftarrow> (if \<not> forward then ctr E s nonce m m_len else Some s);
     s \<leftarrow> mic E s nonce m m_len a a_len result mic_len;
     if forward then ctr E s nonce m m_len else Some s
   }"

subsection \<open>CCM of RFC 3610\<close>

text \<open>Data in blocks of 16 bytes, the last one filled with zeros.\<close>

function blocks :: "u8 list \<Rightarrow> u8 list list" where
  "blocks vs = (if vs = [] then [] else (take 16 vs @ replicate (16 - length vs) 0) # blocks (drop 16 vs))"
  by pat_completeness auto
termination by (relation "measure length") auto

declare blocks.simps [simp del]

definition ccm_blocks :: "nat \<Rightarrow> u8 list \<Rightarrow> u8 list \<Rightarrow> u8 list \<Rightarrow> u8 list list" where
  "ccm_blocks M nonce msg ad =
     (of_nat ((if ad = [] then 0 else 64) + 8 * ((M - 2) div 2) + 1) # nonce @ [of_nat (length msg div 256), of_nat (length msg mod 256)]) #
     (if ad = [] then [] else blocks ([of_nat (length ad div 256), of_nat (length ad mod 256)] @ ad)) @ blocks msg"

definition cbc_mac :: "(u8 list \<Rightarrow> u8 list) \<Rightarrow> u8 list list \<Rightarrow> u8 list" where
  "cbc_mac F bs = fold (\<lambda>b x. F (xor_bytes x b)) bs (replicate 16 0)"

definition ctr_block :: "u8 list \<Rightarrow> nat \<Rightarrow> u8 list" where
  "ctr_block nonce i = 1 # nonce @ [of_nat (i div 256), of_nat (i mod 256)]"

definition ccm_tag :: "(u8 list \<Rightarrow> u8 list) \<Rightarrow> nat \<Rightarrow> u8 list \<Rightarrow> u8 list \<Rightarrow> u8 list \<Rightarrow> u8 list" where
  "ccm_tag F M nonce msg ad = take M (xor_bytes (cbc_mac F (ccm_blocks M nonce msg ad)) (F (ctr_block nonce 0)))"

definition ccm_cipher :: "(u8 list \<Rightarrow> u8 list) \<Rightarrow> u8 list \<Rightarrow> u8 list \<Rightarrow> u8 list" where
  "ccm_cipher F nonce msg = xor_bytes msg (concat (map (\<lambda>i. F (ctr_block nonce i)) [1..<length msg div 16 + 2]))"

subsection \<open>The loops over a block\<close>

lemma xor_bytes_Cons [simp]: "xor_bytes (x # xs) (y # ys) = (x XOR y) # xor_bytes xs ys"
  by (simp add: xor_bytes_def)

lemma xor_bytes_Nil [simp]: "xor_bytes [] ys = []" "xor_bytes xs [] = []"
  by (simp_all add: xor_bytes_def)

lemma length_xor_bytes [simp]: "length (xor_bytes xs ys) = min (length xs) (length ys)"
  by (simp add: xor_bytes_def)

lemma xor_bytes_append: "length xs = length ys \<Longrightarrow> xor_bytes (xs @ us) (ys @ vs) = xor_bytes xs ys @ xor_bytes us vs"
  by (simp add: xor_bytes_def)

lemma xor_bytes_zero: "length xs \<le> n \<Longrightarrow> xor_bytes xs (replicate n 0) = xs"
  by (simp add: xor_bytes_def list_eq_iff_nth_eq)

lemma ctr_xor_bytes:
  assumes "bytes_at s (m + pos + i) vs" and "length a = 16" and "length vs = min (m_len - pos) 16 - i"
  shows "ctr_xor s m pos m_len a i = Some (put s (m + pos + i) (xor_bytes vs (drop i a)))"
  using assms
proof (induction vs arbitrary: i s)
  case Nil
  then have c: "\<not> (pos + i < m_len \<and> i < AES_128_BLOCK_SIZE)" by (auto simp: AES_128_BLOCK_SIZE_def)
  show ?case by (subst ctr_xor.simps, subst if_not_P [OF c]) simp
next
  case (Cons v vs)
  let ?q = "m + pos + i" and ?x = "v XOR a ! i"
  have c: "pos + i < m_len" "i < 16" using Cons.prems(3) by (auto simp: min_def split: if_splits)
  have v: "s ?q = Some v" "bytes_at s (Suc ?q) vs" using Cons.prems(1) by (simp_all add: bytes_at_Cons)
  have "ctr_xor s m pos m_len a i = ctr_xor (put s ?q [?x]) m pos m_len a (Suc i)"
    using c v(1) by (subst ctr_xor.simps) (simp add: AES_128_BLOCK_SIZE_def store_put)
  also have "\<dots> = Some (put (put s ?q [?x]) (Suc ?q) (xor_bytes vs (drop (Suc i) a)))"
    using Cons.IH [of "put s ?q [?x]" "Suc i"] Cons.prems(2,3) v(2) by (simp add: bytes_at_put_outside)
  also have "\<dots> = Some (put s ?q (xor_bytes (v # vs) (drop i a)))"
    using c(2) Cons.prems(2) by (simp add: Cons_nth_drop_Suc [symmetric] put_Cons)
  finally show ?case .
qed

lemma mic_xor_bytes:
  assumes "bytes_at s (nat (int p + d + int i)) vs" and "0 \<le> int p + d + int i" and "length x = 16" and "length vs = nat (min (int n - d) 16 - int i)"
  shows "mic_xor s p d n x i = Some (take i x @ xor_bytes (drop i x) (vs @ replicate (16 - i - length vs) 0))"
  using assms
proof (induction vs arbitrary: i x)
  case Nil
  then have c: "\<not> (d + int i < int n \<and> i < AES_128_BLOCK_SIZE)" by (auto simp: AES_128_BLOCK_SIZE_def)
  moreover have "xor_bytes (drop i x) (replicate (16 - i) 0) = drop i x" using Nil by (intro xor_bytes_zero) simp
  ultimately show ?case by (subst mic_xor.simps, subst if_not_P [OF c]) simp
next
  case (Cons v vs)
  let ?q = "nat (int p + d + int i)" and ?x = "x[i := x ! i XOR v]"
  have c: "d + int i < int n" "i < 16" using Cons.prems(4) by (auto simp: min_def split: if_splits)
  have q: "Suc ?q = nat (int p + d + int (Suc i))" using Cons.prems(2) by simp
  have v: "s ?q = Some v" "bytes_at s (nat (int p + d + int (Suc i))) vs" using Cons.prems(1) unfolding bytes_at_Cons q by blast+
  have "mic_xor s p d n x i = mic_xor s p d n ?x (Suc i)"
    using c v(1) by (subst mic_xor.simps) (simp add: AES_128_BLOCK_SIZE_def)
  also have "\<dots> = Some (take (Suc i) ?x @ xor_bytes (drop (Suc i) ?x) (vs @ replicate (16 - Suc i - length vs) 0))"
    using v(2) Cons.prems(2,3,4) c by (intro Cons.IH) (auto simp: min_def split: if_splits)
  also have "\<dots> = Some (take i x @ xor_bytes (drop i x) ((v # vs) @ replicate (16 - i - length (v # vs)) 0))"
    using c(2) Cons.prems(3) by (simp add: Cons_nth_drop_Suc [symmetric] take_Suc_conv_app_nth)
  finally show ?case .
qed

lemma set_iv_bytes: "bytes_at s nonce n \<Longrightarrow> length n = 13 \<Longrightarrow> set_iv s flags nonce counter = Some (flags # n @ [0, counter])"
  using load_list_bytes [of s nonce 13 n] by (simp add: set_iv_def CCM_STAR_NONCE_LENGTH_def)

lemma ctr_local_fold:
  assumes "length x = 16"
  shows "fold (\<lambda>i x. x[i := x ! i XOR a ! i]) [0..<AES_128_BLOCK_SIZE] x = map (\<lambda>i. x ! i XOR a ! i) [0..<16]"
  unfolding AES_128_BLOCK_SIZE_def by (rule fold_update_map [OF assms])

subsection \<open>Positions of 8 bits\<close>

lemma pos_add_block:
  fixes pos :: u8
  assumes "unat pos < 240 + unat pos mod 16"
  shows "unat (pos + of_nat AES_128_BLOCK_SIZE) = unat pos + 16"
proof -
  have "unat pos = 16 * (unat pos div 16) + unat pos mod 16" by simp
  then have "unat pos div 16 < 15" using assms by linarith
  moreover have "unat pos mod 16 < 16" by simp
  ultimately have "unat pos + 16 < 256" by linarith
  then show ?thesis by (simp add: AES_128_BLOCK_SIZE_def unat_word_ariths(1))
qed

lemma pos_wraps:
  fixes pos :: u8
  shows "unat (pos + of_nat AES_128_BLOCK_SIZE) mod 16 = unat pos mod 16"
proof -
  have "unat (pos + of_nat AES_128_BLOCK_SIZE) = (unat pos + 16) mod 256" by (simp add: AES_128_BLOCK_SIZE_def unat_word_ariths(1))
  moreover have "k mod 256 mod 16 = k mod 16" for k :: nat by (rule mod_mod_cancel) simp
  ultimately show ?thesis by simp
qed

lemma pos_below: "unat pos \<le> 240 + unat pos mod 16" for pos :: u8
proof -
  have "unat pos < 16 * 16" using unsigned_less [of pos, where ?'a = nat] by simp
  then have "unat pos div 16 < 16" by (rule less_mult_imp_div_less)
  moreover have "unat pos = 16 * (unat pos div 16) + unat pos mod 16" by simp
  ultimately show ?thesis by linarith
qed

lemma block_length: "P < N \<Longrightarrow> min (N - P) 16 = nat (min (int N - int P) 16 - int 0)"
  by arith

text \<open>From the last position before 256 a loop starts again near 0.\<close>

lemma mic_loop_diverges:
  assumes "240 + unat pos mod 16 < unat n"
  shows "mic_loop E s p n pos x = None"
proof -
  have "\<not> 240 + unat pos mod 16 < unat n" if "mic_loop E s p n pos x = Some y" for y
  proof (rule mic_loop.raw_induct [where P = "\<lambda>E s p n pos x y. \<not> 240 + unat pos mod 16 < unat n", OF _ that])
    fix loop E s p n and pos :: u8 and x y
    assume IH: "\<And>E s p n pos x y. loop E s p n pos x = Some y \<Longrightarrow> \<not> 240 + unat pos mod 16 < unat n"
      and eq: "(if pos < n then do {
        x \<leftarrow> mic_xor s p (int (unat pos)) (unat n) x 0;
        loop E s p n (pos + of_nat AES_128_BLOCK_SIZE) (E x)
      } else Some x) = Some y"
    show "\<not> 240 + unat pos mod 16 < unat n"
    proof
      assume a: "240 + unat pos mod 16 < unat n"
      then have "pos < n" using pos_below [of pos] by (simp add: word_less_nat_alt)
      then obtain x' where "loop E s p n (pos + of_nat AES_128_BLOCK_SIZE) x' = Some y"
        using eq by (auto simp: bind_eq_Some_conv)
      from IH [OF this] show False using a pos_wraps [of pos] by simp
    qed
  qed
  then show ?thesis using assms by (cases "mic_loop E s p n pos x") blast+
qed

lemma ctr_loop_diverges:
  assumes "240 + unat pos mod 16 < unat m_len"
  shows "ctr_loop E s nonce m m_len pos counter = None"
proof -
  have "\<not> 240 + unat pos mod 16 < unat m_len" if "ctr_loop E s nonce m m_len pos counter = Some y" for y
  proof (rule ctr_loop.raw_induct [where P = "\<lambda>E s nonce m m_len pos counter y. \<not> 240 + unat pos mod 16 < unat m_len", OF _ that])
    fix loop E s nonce m m_len and pos :: u8 and counter y
    assume IH: "\<And>E s nonce m m_len pos counter y. loop E s nonce m m_len pos counter = Some y \<Longrightarrow> \<not> 240 + unat pos mod 16 < unat m_len"
      and eq: "(if pos < m_len then do {
        s \<leftarrow> ctr_step E s nonce pos m m_len counter;
        loop E s nonce m m_len (pos + of_nat AES_128_BLOCK_SIZE) (counter + 1)
      } else Some s) = Some y"
    show "\<not> 240 + unat pos mod 16 < unat m_len"
    proof
      assume a: "240 + unat pos mod 16 < unat m_len"
      then have "pos < m_len" using pos_below [of pos] by (simp add: word_less_nat_alt)
      then obtain s' where "loop E s' nonce m m_len (pos + of_nat AES_128_BLOCK_SIZE) (counter + 1) = Some y"
        using eq by (auto simp: bind_eq_Some_conv)
      from IH [OF this] show False using a pos_wraps [of pos] by simp
    qed
  qed
  then show ?thesis using assms by (cases "ctr_loop E s nonce m m_len pos counter") blast+
qed

subsection \<open>A block cipher and its reference\<close>

locale block_cipher =
  fixes E F :: "u8 list \<Rightarrow> u8 list"
  assumes agrees: "length x = 16 \<Longrightarrow> E x = F x"
    and length_F: "length x = 16 \<Longrightarrow> length (F x) = 16"
begin

lemma mic_loop_blocks:
  assumes "unat n \<le> 240 + unat pos mod 16" and "bytes_at s (p + unat pos) vs" and "length vs = unat n - unat pos" and "length x = 16"
  shows "mic_loop E s p n pos x = Some (fold (\<lambda>b x. F (xor_bytes x b)) (blocks vs) x) \<and> length (fold (\<lambda>b x. F (xor_bytes x b)) (blocks vs) x) = 16"
  using assms
proof (induction vs arbitrary: pos x rule: blocks.induct)
  case (1 vs)
  show ?case
  proof (cases "vs = []")
    case True
    then have "\<not> pos < n" using 1(4) by (simp add: word_less_nat_alt)
    then show ?thesis using True 1(5) by (subst mic_loop.simps) (simp add: blocks.simps)
  next
    case False
    have pos: "unat pos < unat n" using False 1(4) by (cases vs) simp_all
    have next_pos: "unat (pos + of_nat AES_128_BLOCK_SIZE) = unat pos + 16" using pos 1(2) by (intro pos_add_block) simp
    let ?b = "take 16 vs @ replicate (16 - length vs) 0"
    have "mic_xor s p (int (unat pos)) (unat n) x 0 = Some (take 0 x @ xor_bytes (drop 0 x) (take 16 vs @ replicate (16 - 0 - length (take 16 vs)) 0))"
      using 1(3,4,5) block_length [OF pos] by (intro mic_xor_bytes) (simp_all add: bytes_at_take nat_int_add del: of_nat_unat)
    then have x: "mic_xor s p (int (unat pos)) (unat n) x 0 = Some (xor_bytes x ?b)" by (simp add: min_def)
    have l: "length (xor_bytes x ?b) = 16" using 1(5) by simp
    have "mic_loop E s p n pos x = mic_loop E s p n (pos + of_nat AES_128_BLOCK_SIZE) (F (xor_bytes x ?b))"
      using pos x agrees [OF l] by (subst mic_loop.simps) (simp add: word_less_nat_alt)
    moreover have "bytes_at s (p + unat pos + 16) (drop 16 vs)"
    proof (cases "16 \<le> length vs")
      case True then show ?thesis by (rule bytes_at_drop [OF 1(3)])
    qed simp
    ultimately show ?thesis using 1(1) [of "pos + of_nat AES_128_BLOCK_SIZE" "F (xor_bytes x ?b)"] False next_pos 1(2,4) length_F [OF l] pos_wraps [of pos]
      by (subst (1 2) blocks.simps) (simp add: add.assoc)
  qed
qed

end

lemma xor_bytes_append2: "length ys = 16 \<Longrightarrow> xor_bytes xs (ys @ zs) = xor_bytes (take 16 xs) ys @ xor_bytes (drop 16 xs) zs"
  by (simp add: xor_bytes_def zip_append2)

lemma xor_bytes_zero_left: "length xs = n \<Longrightarrow> xor_bytes (replicate n 0) xs = xs"
  by (simp add: xor_bytes_def list_eq_iff_nth_eq)

lemma ctr_block_small: "i < 256 \<Longrightarrow> ctr_block n i = 1 # n @ [0, of_nat i]"
  by (simp add: ctr_block_def)

lemma length_ctr_block: "length n = 13 \<Longrightarrow> length (ctr_block n i) = 16"
  by (simp add: ctr_block_def)

lemma put_put_block: "length xs = 16 \<or> ys = [] \<Longrightarrow> put (put s p xs) (p + 16) ys = put s p (xs @ ys)"
  by (auto simp: put_append)

lemma auth_flags:
  assumes "even M" and "2 \<le> M" and "M \<le> 16" and "unat mic_len = M"
  shows "CCM_STAR_AUTH_FLAGS a_len mic_len = of_nat ((if a_len = 0 then 0 else 64) + 8 * ((M - 2) div 2) + 1)"
proof -
  have m: "mic_len = of_nat M" unfolding assms(4) [symmetric] by simp
  obtain k where "M = 2 * k" using assms(1) by (rule evenE)
  moreover from this have "k \<in> {1, 2, 3, 4, 5, 6, 7, 8}" using assms(2,3) by auto
  ultimately show ?thesis unfolding m by (auto simp: CCM_STAR_AUTH_FLAGS_def)
qed

context block_cipher
begin

lemma ctr_step_bytes:
  assumes "bytes_at s nonce n" and "length n = 13" and "bytes_at s (m + unat pos) (take 16 vs)" and "length vs = unat m_len - unat pos" and "c < 256"
  shows "ctr_step E s nonce pos m m_len (of_nat c) = Some (put s (m + unat pos) (xor_bytes (take 16 vs) (F (ctr_block n c))))"
proof -
  have b: "length (ctr_block n c) = 16" by (rule length_ctr_block [OF assms(2)])
  have "set_iv s CCM_STAR_ENCRYPTION_FLAGS nonce (of_nat c) = Some (ctr_block n c)"
    using set_iv_bytes [OF assms(1,2)] ctr_block_small [OF assms(5)] by (simp add: CCM_STAR_ENCRYPTION_FLAGS_def)
  moreover have "ctr_xor s m (unat pos) (unat m_len) (F (ctr_block n c)) 0 = Some (put s (m + unat pos + 0) (xor_bytes (take 16 vs) (drop 0 (F (ctr_block n c)))))"
    using assms(3,4) length_F [OF b] by (intro ctr_xor_bytes) (simp_all add: min.commute)
  ultimately show ?thesis using agrees [OF b] by (simp add: ctr_step_def)
qed

lemma ctr_loop_bytes:
  assumes "unat m_len \<le> 240" and "unat pos mod 16 = 0" and "bytes_at s nonce n" and "length n = 13"
    and "bytes_at s (m + unat pos) vs" and "length vs = unat m_len - unat pos" and "nonce + 13 \<le> m \<or> m + unat m_len \<le> nonce"
    and "c = unat pos div 16 + 1" and "c + (length vs + 15) div 16 \<le> k"
  shows "ctr_loop E s nonce m m_len pos (of_nat c) = Some (put s (m + unat pos) (xor_bytes vs (concat (map (\<lambda>i. F (ctr_block n i)) [c..<k]))))"
  using assms
proof (induction vs arbitrary: pos s c rule: blocks.induct)
  case (1 vs)
  note p = 1(2-)
  show ?case
  proof (cases "vs = []")
    case True
    then have "\<not> pos < m_len" using p(6) by (simp add: word_less_nat_alt)
    then show ?thesis using True by (subst ctr_loop.simps) simp
  next
    case False
    have pos: "unat pos < unat m_len" using False p(6) by (cases vs) simp_all
    have next_pos: "unat (pos + of_nat AES_128_BLOCK_SIZE) = unat pos + 16" using pos p(1,2) by (intro pos_add_block) simp
    let ?b = "F (ctr_block n c)" and ?q = "m + unat pos"
    let ?s = "put s ?q (xor_bytes (take 16 vs) ?b)"
    have b: "length ?b = 16" by (rule length_F [OF length_ctr_block [OF p(4)]])
    have l: "length (xor_bytes (take 16 vs) ?b) = min 16 (length vs)" using b by (simp add: min.commute)
    have c: "c < 256" using p(1,8) pos by (simp add: div_le_mono order.strict_trans1 [of _ 240])
    have step: "ctr_step E s nonce pos m m_len (of_nat c) = Some ?s"
      using p(3,4,6) bytes_at_take [OF p(5)] c by (intro ctr_step_bytes)
    have loop: "ctr_loop E s nonce m m_len pos (of_nat c) = ctr_loop E ?s nonce m m_len (pos + of_nat AES_128_BLOCK_SIZE) (of_nat (Suc c))"
      using pos step by (subst ctr_loop.simps) (simp add: word_less_nat_alt add.commute)
    have k: "[c..<k] = c # [Suc c..<k]" using p(9) False by (cases vs) (simp_all add: upt_conv_Cons)
    have n: "bytes_at ?s nonce n" using p(3,4,6,7) pos l by (subst bytes_at_put_outside) auto
    have r: "bytes_at ?s (m + unat (pos + of_nat AES_128_BLOCK_SIZE)) (drop 16 vs)"
    proof (cases "16 \<le> length vs")
      case True
      then show ?thesis using bytes_at_drop [OF p(5) True] l unfolding next_pos by (subst bytes_at_put_outside) (simp_all add: add.assoc)
    qed simp
    have d: "Suc c + (length (drop 16 vs) + 15) div 16 \<le> k"
    proof (cases "16 \<le> length vs")
      case False
      moreover have "1 \<le> (length vs + 15) div 16" using \<open>vs \<noteq> []\<close> by (cases vs) simp_all
      ultimately have "Suc c \<le> k" "drop 16 vs = []" using p(9) by simp_all
      then show ?thesis by simp
    qed (use p(9) in \<open>simp add: le_div_geq\<close>)
    have h: "unat (pos + of_nat AES_128_BLOCK_SIZE) mod 16 = 0" "length (drop 16 vs) = unat m_len - unat (pos + of_nat AES_128_BLOCK_SIZE)"
      "Suc c = unat (pos + of_nat AES_128_BLOCK_SIZE) div 16 + 1"
      unfolding next_pos using p(2,6,8) by simp_all
    have "ctr_loop E s nonce m m_len pos (of_nat c) =
        Some (put ?s (?q + 16) (xor_bytes (drop 16 vs) (concat (map (\<lambda>i. F (ctr_block n i)) [Suc c..<k]))))"
      using 1(1) [OF False p(1) h(1) n p(4) r h(2) p(7) h(3) d] unfolding loop next_pos add.assoc .
    also have "\<dots> = Some (put s ?q (xor_bytes (take 16 vs) ?b @ xor_bytes (drop 16 vs) (concat (map (\<lambda>i. F (ctr_block n i)) [Suc c..<k]))))"
      using l by (subst put_put_block) (auto simp: min_def)
    finally show ?thesis unfolding k by (simp add: xor_bytes_append2 [OF b])
  qed
qed

lemma ctr_bytes:
  assumes "unat m_len \<le> 240" and "bytes_at s nonce n" and "length n = 13" and "bytes_at s m msg" and "length msg = unat m_len"
    and "nonce + 13 \<le> m \<or> m + unat m_len \<le> nonce"
  shows "ctr E s nonce m m_len = Some (put s m (ccm_cipher F n msg))"
  using ctr_loop_bytes [of m_len 0 s nonce n m msg 1 "length msg div 16 + 2"] assms
  by (simp add: ctr_def ccm_cipher_def)

lemma ctr_step_local_bytes:
  assumes "bytes_at s nonce n" and "length n = 13" and "length x = 16"
  shows "ctr_step_local E s nonce x 0 = Some (xor_bytes x (F (ctr_block n 0)))"
proof -
  have b: "length (ctr_block n 0) = 16" by (rule length_ctr_block [OF assms(2)])
  have "set_iv s CCM_STAR_ENCRYPTION_FLAGS nonce 0 = Some (ctr_block n 0)"
    using set_iv_bytes [OF assms(1,2)] ctr_block_small [of 0 n] by (simp add: CCM_STAR_ENCRYPTION_FLAGS_def)
  moreover have "map (\<lambda>i. x ! i XOR F (ctr_block n 0) ! i) [0..<16] = xor_bytes x (F (ctr_block n 0))"
    using assms(3) length_F [OF b] by (simp add: xor_bytes_def list_eq_iff_nth_eq)
  ultimately show ?thesis using ctr_local_fold [OF assms(3)] agrees [OF b] by (simp add: ctr_step_local_def)
qed

abbreviation absorb :: "u8 list list \<Rightarrow> u8 list \<Rightarrow> u8 list" where
  "absorb bs \<equiv> fold (\<lambda>b x. F (xor_bytes x b)) bs"

lemma mic_head_bytes:
  assumes "unat a_len \<le> 254" and "bytes_at s a ad" and "length ad = unat a_len" and "ad \<noteq> []" and "length x = 16"
  shows "\<exists>y. mic_xor s a (- 2) (unat a_len) (x[1 := x ! 1 XOR a_len]) 2 = Some y \<and> length y = 16 \<and>
    mic_loop E s a a_len 14 (E y) = Some (absorb (blocks ([0, a_len] @ ad)) x)"
proof -
  obtain x0 x1 xs where x: "x = x0 # x1 # xs" "length xs = 14" using assms(5) by (auto simp: numeral_eq_Suc length_Suc_conv)
  let ?z = "take 14 ad @ replicate (14 - length ad) 0"
  let ?y = "xor_bytes x (0 # a_len # ?z)"
  have "mic_xor s a (- 2) (unat a_len) (x[1 := x ! 1 XOR a_len]) 2 =
      Some (take 2 (x[1 := x ! 1 XOR a_len]) @ xor_bytes (drop 2 (x[1 := x ! 1 XOR a_len])) (take 14 ad @ replicate (16 - 2 - length (take 14 ad)) 0))"
    using assms(3,5) bytes_at_take [OF assms(2)] by (intro mic_xor_bytes) (simp_all add: min_def del: of_nat_unat)
  then have m: "mic_xor s a (- 2) (unat a_len) (x[1 := x ! 1 XOR a_len]) 2 = Some ?y"
    by (simp add: x numeral_eq_Suc min_def)
  have l: "length ?y = 16" using assms(5) by simp
  have d: "bytes_at s (a + unat (14 :: u8)) (drop 14 ad)"
  proof (cases "14 \<le> length ad")
    case True then show ?thesis using bytes_at_drop [OF assms(2) True] by simp
  qed simp
  have "mic_loop E s a a_len 14 (F ?y) = Some (absorb (blocks (drop 14 ad)) (F ?y))"
    using mic_loop_blocks [of a_len 14 s a "drop 14 ad" "F ?y"] d assms(1,3) length_F [OF l] by simp
  moreover have "absorb (blocks ([0, a_len] @ ad)) x = absorb (blocks (drop 14 ad)) (F ?y)"
    by (subst blocks.simps) (simp add: numeral_eq_Suc)
  ultimately show ?thesis using m l agrees [OF l] by simp
qed

lemma length_blocks: "\<forall>b \<in> set (blocks vs). length b = 16"
  by (induction vs rule: blocks.induct) (subst blocks.simps, auto simp: min_def)

lemma length_absorb: "length x = 16 \<Longrightarrow> \<forall>b \<in> set bs. length b = 16 \<Longrightarrow> length (absorb bs x) = 16"
  by (induction bs arbitrary: x) (simp_all add: length_F)

text \<open>For every length of the result the checksum is the last block, under the key stream.\<close>

lemma mic_absorbs:
  assumes "unat m_len \<le> 240" and "unat a_len \<le> 254" and "unat mic_len \<le> 16"
    and "bytes_at s nonce n" and "length n = 13" and "bytes_at s m msg" and "length msg = unat m_len"
    and "bytes_at s a ad" and "length ad = unat a_len" and "accessible s result (unat mic_len)"
  shows "mic E s nonce m m_len a a_len result mic_len =
    Some (put s result (take (unat mic_len) (xor_bytes (absorb ((if ad = [] then [] else blocks ([0, a_len] @ ad)) @ blocks msg)
      (F (CCM_STAR_AUTH_FLAGS a_len mic_len # n @ [0, m_len]))) (F (ctr_block n 0)))))"
proof -
  let ?b0 = "CCM_STAR_AUTH_FLAGS a_len mic_len # n @ [0, m_len]"
  have a0: "a_len = 0 \<longleftrightarrow> ad = []" using assms(9) by (metis length_0_conv unat_eq_zero)
  have m0: "m_len = 0 \<longleftrightarrow> msg = []" using assms(7) by (metis length_0_conv unat_eq_zero)
  have iv: "set_iv s (CCM_STAR_AUTH_FLAGS a_len mic_len) nonce m_len = Some ?b0" by (rule set_iv_bytes [OF assms(4,5)])
  have l0: "length ?b0 = 16" using assms(5) by simp
  let ?x1 = "absorb (if ad = [] then [] else blocks ([0, a_len] @ ad)) (F ?b0)"
  let ?x2 = "absorb (blocks msg) ?x1"
  have x1: "(if a_len \<noteq> 0 then do {
            let x = E ?b0;
            x \<leftarrow> mic_xor s a (- 2) (unat a_len) (x[1 := x ! 1 XOR a_len]) 2;
            mic_loop E s a a_len 14 (E x)
          } else Some (E ?b0)) = Some ?x1"
    using mic_head_bytes [OF assms(2,8,9) _ length_F [OF l0]] agrees [OF l0] by (auto simp: a0 Let_def)
  have l1: "length ?x1 = 16" using length_blocks by (intro length_absorb length_F l0) simp
  have x2: "(if m_len \<noteq> 0 then mic_loop E s m m_len 0 ?x1 else Some ?x1) = Some ?x2"
    using mic_loop_blocks [of m_len 0 s m msg ?x1] assms(1,6,7) l1 m0 by (auto simp: blocks.simps [of "[]"])
  have l2: "length ?x2 = 16" using length_blocks by (intro length_absorb l1) simp
  have t: "length (xor_bytes ?x2 (F (ctr_block n 0))) = 16" using l2 length_F [OF length_ctr_block [OF assms(5)]] by simp
  show ?thesis
    unfolding mic_def iv Option.bind.bind_lunit x1 x2 ctr_step_local_bytes [OF assms(4,5) l2] fold_append o_apply
    using assms(3,10) t by (simp add: AES_128_BLOCK_SIZE_def store_list_put)
qed

lemma mic_bytes:
  assumes "unat m_len \<le> 240" and "unat a_len \<le> 254" and "even M" and "2 \<le> M" and "M \<le> 16" and "unat mic_len = M"
    and "bytes_at s nonce n" and "length n = 13" and "bytes_at s m msg" and "length msg = unat m_len"
    and "bytes_at s a ad" and "length ad = unat a_len" and "accessible s result M"
  shows "mic E s nonce m m_len a a_len result mic_len = Some (put s result (ccm_tag F M n msg ad))"
proof -
  let ?f = "of_nat ((if ad = [] then 0 else 64) + 8 * ((M - 2) div 2) + 1) :: u8"
  let ?b0 = "?f # n @ [0, m_len]"
  have a0: "a_len = 0 \<longleftrightarrow> ad = []" using assms(12) by (metis length_0_conv unat_eq_zero)
  have f: "CCM_STAR_AUTH_FLAGS a_len mic_len = ?f" using auth_flags [OF assms(3-6), of a_len] unfolding a0 .
  have z: "xor_bytes (replicate 16 0) ?b0 = ?b0" using assms(8) by (intro xor_bytes_zero_left) simp
  have lens: "of_nat (length msg div 256) = (0 :: u8)" "of_nat (length msg mod 256) = m_len" "of_nat (length ad div 256) = (0 :: u8)" "of_nat (length ad mod 256) = a_len"
    using assms(1,2) unfolding assms(10,12) by simp_all
  have mac: "cbc_mac F (ccm_blocks M n msg ad) = absorb ((if ad = [] then [] else blocks ([0, a_len] @ ad)) @ blocks msg) (F ?b0)"
    unfolding cbc_mac_def ccm_blocks_def lens fold_append fold_simps o_apply z by simp
  show ?thesis
    using mic_absorbs [OF assms(1,2) _ assms(7-12), of mic_len result] assms(5,6,13) unfolding f ccm_tag_def mac by simp
qed

end

subsection \<open>AES as the cipher\<close>

lemma fold_length: "(\<And>i x. length (f i x) = length x) \<Longrightarrow> length (fold f is x) = length x"
  by (induction "is" arbitrary: x) simp_all

lemma length_aes_encrypt: "length (aes_encrypt rk x) = length x"
  unfolding aes_encrypt_def encrypt_round_def add_round_key_def byte_sub_def shift_row_def mix_step_def Let_def
  by (simp add: fold_length)

interpretation aes: block_cipher "aes_encrypt rk" "aes_encrypt rk" for rk
  by unfold_locales (simp_all add: length_aes_encrypt)

lemma aes_block_cipher: "length key = 16 \<Longrightarrow> block_cipher (aes_encrypt (aes_set_key key)) (fips_aes key)"
proof
  fix x :: "u8 list" assume k: "length key = 16" and x: "length x = 16"
  show e: "aes_encrypt (aes_set_key key) x = fips_aes key x" using k x by (rule aes_encrypt_fips)
  show "length (fips_aes key x) = 16" using length_aes_encrypt [of "aes_set_key key" x] x unfolding e by simp
qed

subsection \<open>Encryption and decryption\<close>

definition regions_apart :: "ptr \<Rightarrow> nat \<Rightarrow> ptr \<Rightarrow> nat \<Rightarrow> bool" where
  "regions_apart p n q k \<longleftrightarrow> p + n \<le> q \<or> q + k \<le> p"

text \<open>A call with the nonce \<open>n\<close>, the message and the additional data in memory, and room for the result.\<close>

definition ccm_ready :: "mem \<Rightarrow> ptr \<Rightarrow> u8 list \<Rightarrow> ptr \<Rightarrow> u8 list \<Rightarrow> ptr \<Rightarrow> u8 list \<Rightarrow> ptr \<Rightarrow> nat \<Rightarrow> bool" where
  "ccm_ready s nonce n m msg a ad result M \<longleftrightarrow>
     bytes_at s nonce n \<and> length n = 13 \<and> bytes_at s m msg \<and> length msg \<le> 240 \<and> bytes_at s a ad \<and> length ad \<le> 254 \<and>
     accessible s result M \<and> even M \<and> 2 \<le> M \<and> M \<le> 16 \<and> regions_apart nonce 13 m (length msg) \<and> regions_apart a (length ad) m (length msg) \<and>
     regions_apart result M nonce 13 \<and> regions_apart result M m (length msg) \<and> regions_apart result M a (length ad)"

lemma bytes_at_put_regions_apart: "regions_apart p (length vs) q (length us) \<Longrightarrow> bytes_at (put s p vs) q us \<longleftrightarrow> bytes_at s q us"
  by (rule bytes_at_put_outside) (auto simp: regions_apart_def)

lemma xor_bytes_twice: "length xs \<le> length ys \<Longrightarrow> xor_bytes (xor_bytes xs ys) ys = xs"
  by (simp add: xor_bytes_def list_eq_iff_nth_eq xor.assoc)

lemma regions_apart_sym: "regions_apart p n q k \<longleftrightarrow> regions_apart q k p n"
  by (auto simp: regions_apart_def)

context block_cipher
begin

lemma length_keystream: "length n = 13 \<Longrightarrow> length (concat (map (\<lambda>i. F (ctr_block n i)) is)) = 16 * length is"
  by (induction "is") (simp_all add: length_F length_ctr_block)

lemma keystream_covers: "length n = 13 \<Longrightarrow> length msg \<le> length (concat (map (\<lambda>i. F (ctr_block n i)) [1..<length msg div 16 + 2]))"
  by (simp only: length_keystream length_upt)

lemma length_ccm_cipher: "length n = 13 \<Longrightarrow> length (ccm_cipher F n msg) = length msg"
  using keystream_covers [of n msg] by (simp add: ccm_cipher_def)

lemma ccm_cipher_twice: "length n = 13 \<Longrightarrow> ccm_cipher F n (ccm_cipher F n msg) = msg"
  using keystream_covers [of n msg] length_ccm_cipher [of n msg]
  unfolding ccm_cipher_def [of F n "ccm_cipher F n msg"] by (simp add: ccm_cipher_def xor_bytes_twice)

lemma length_ccm_tag: "M \<le> 16 \<Longrightarrow> length n = 13 \<Longrightarrow> length (ccm_tag F M n msg ad) = M"
proof -
  assume a: "M \<le> 16" "length n = 13"
  have "length (cbc_mac F (ccm_blocks M n msg ad)) = 16"
    unfolding cbc_mac_def using a(2) length_blocks by (intro length_absorb) (auto simp: ccm_blocks_def)
  then show ?thesis using a length_F [OF length_ctr_block [OF a(2)]] by (simp add: ccm_tag_def)
qed

lemma aead_forward:
  assumes "ccm_ready s nonce n m msg a ad result M"
  shows "aead E s nonce m (of_nat (length msg)) a (of_nat (length ad)) result (of_nat M) True =
    Some (put (put s result (ccm_tag F M n msg ad)) m (ccm_cipher F n msg))"
proof -
  note r = assms [unfolded ccm_ready_def]
  let ?s = "put s result (ccm_tag F M n msg ad)"
  have mic: "mic E s nonce m (of_nat (length msg)) a (of_nat (length ad)) result (of_nat M) = Some ?s"
    using r by (intro mic_bytes) (simp_all add: unat_of_nat)
  have t: "length (ccm_tag F M n msg ad) = M" using r by (intro length_ccm_tag) blast+
  have "ctr E ?s nonce m (of_nat (length msg)) = Some (put ?s m (ccm_cipher F n msg))"
    using r t by (intro ctr_bytes) (simp_all add: bytes_at_put_regions_apart unat_of_nat regions_apart_def)
  then show ?thesis by (simp add: aead_def mic)
qed

lemma aead_backward:
  assumes "ccm_ready s nonce n m (ccm_cipher F n msg) a ad result M"
  shows "aead E s nonce m (of_nat (length msg)) a (of_nat (length ad)) result (of_nat M) False =
    Some (put (put s m msg) result (ccm_tag F M n msg ad))"
proof -
  have n: "length n = 13" using assms by (simp add: ccm_ready_def)
  note r = assms [unfolded ccm_ready_def length_ccm_cipher [OF n]]
  have ctr: "ctr E s nonce m (of_nat (length msg)) = Some (put s m msg)"
    using r ctr_bytes [of "of_nat (length msg)" s nonce n m "ccm_cipher F n msg"]
    by (simp add: unat_of_nat regions_apart_def ccm_cipher_twice length_ccm_cipher)
  have acc: "accessible s m (length msg)"
    using bytes_at_accessible [of s m "ccm_cipher F n msg"] r by (simp add: length_ccm_cipher)
  have "mic E (put s m msg) nonce m (of_nat (length msg)) a (of_nat (length ad)) result (of_nat M) =
      Some (put (put s m msg) result (ccm_tag F M n msg ad))"
    using r by (intro mic_bytes) (simp_all add: unat_of_nat bytes_at_put bytes_at_put_regions_apart regions_apart_sym acc)
  then show ?thesis by (simp add: aead_def ctr)
qed

lemma aead_returns:
  assumes "accessible s nonce 13" and "accessible s m (unat m_len)" and "accessible s a (unat a_len)"
    and "accessible s result (unat mic_len)" and "unat mic_len \<le> 16" and "regions_apart nonce 13 m (unat m_len)"
    and "unat m_len \<le> 240" and "unat a_len \<le> 254"
  shows "aead E s nonce m m_len a a_len result mic_len forward \<noteq> None"
proof -
  have ctr: "\<exists>msg. ctr E s nonce m m_len = Some (put s m msg) \<and> length msg = unat m_len"
    if n: "accessible s nonce 13" and m: "accessible s m (unat m_len)" for s
  proof -
    obtain n where n: "bytes_at s nonce n" "length n = 13" using accessible_load [OF n] by (auto simp: load_list_bytes)
    obtain msg where m: "bytes_at s m msg" "length msg = unat m_len" using accessible_load [OF m] by (auto simp: load_list_bytes)
    show ?thesis using ctr_bytes [OF assms(7) n m] assms(6) length_ccm_cipher [OF n(2)] m(2) by (auto simp: regions_apart_def)
  qed
  have mic: "\<exists>t. mic E s nonce m m_len a a_len result mic_len = Some (put s result t) \<and> length t \<le> unat mic_len"
    if n: "accessible s nonce 13" and m: "accessible s m (unat m_len)" and a: "accessible s a (unat a_len)" and r: "accessible s result (unat mic_len)" for s
  proof -
    obtain n where n: "bytes_at s nonce n" "length n = 13" using accessible_load [OF n] by (auto simp: load_list_bytes)
    obtain msg where m: "bytes_at s m msg" "length msg = unat m_len" using accessible_load [OF m] by (auto simp: load_list_bytes)
    obtain ad where a: "bytes_at s a ad" "length ad = unat a_len" using accessible_load [OF a] by (auto simp: load_list_bytes)
    show ?thesis using mic_absorbs [OF assms(7,8,5) n m a r] by auto
  qed
  have acc: "accessible (put s result t) q k \<longleftrightarrow> accessible s q k" if "length t \<le> unat mic_len" for t q k
    using that accessible_mono [OF assms(4), of result "length t"] by simp
  show ?thesis
  proof (cases forward)
    case True
    obtain t where t: "mic E s nonce m m_len a a_len result mic_len = Some (put s result t)" "length t \<le> unat mic_len" using mic assms(1-4) by blast
    show ?thesis using True t(1) ctr [of "put s result t"] assms(1,2) acc [OF t(2)] by (auto simp: aead_def)
  next
    case False
    obtain msg where msg: "ctr E s nonce m m_len = Some (put s m msg)" "length msg = unat m_len" using ctr assms(1,2) by blast
    show ?thesis using False msg(1) mic [of "put s m msg"] assms(1-4) msg(2) by (auto simp: aead_def)
  qed
qed

end

lemma aead_diverges:
  assumes "240 < unat m_len \<or> 254 < unat a_len"
  shows "aead E s nonce m m_len a a_len result mic_len forward = None"
proof -
  have c: "ctr E s nonce m m_len = None" if "240 < unat m_len" for s
    using ctr_loop_diverges [of 0 m_len] that by (simp add: ctr_def)
  have n: "mic E s nonce m m_len a a_len result mic_len = None" for s
  proof (cases "254 < unat a_len")
    case True
    then have a: "a_len \<noteq> 0" "mic_loop E s a a_len 14 x = None" for x using mic_loop_diverges [of 14 a_len] by auto
    show ?thesis by (simp add: mic_def a Let_def Option.bind_eq_None_conv split: Option.bind_splits)
  next
    case False
    then have m: "m_len \<noteq> 0" "mic_loop E s m m_len 0 x = None" for x using assms mic_loop_diverges [of 0 m_len] by auto
    show ?thesis by (simp add: mic_def m split: Option.bind_splits)
  qed
  then show ?thesis by (simp add: aead_def split: Option.bind_splits)
qed

text \<open>
  C3: Sealing is CCM of RFC 3610 with AES-128: for every key, a nonce of 13 bytes, a message of at most 240 bytes,
  additional data of at most 254 bytes and an even length of the checksum, encrypting replaces the message by its sum with the key
  stream of FIPS 197 under counters 1, 2, ..., stores the encrypted CBC-MAC over the flags, the lengths, the additional data and the message
  at the result, and changes nothing else.
\<close>

theorem aead_is_ccm:
  assumes "length key = AES_128_KEY_LENGTH" and "ccm_ready s nonce n m msg a ad result M"
  shows "aead (aes_encrypt (aes_set_key key)) s nonce m (of_nat (length msg)) a (of_nat (length ad)) result (of_nat M) True =
    Some (put (put s result (ccm_tag (fips_aes key) M n msg ad)) m (ccm_cipher (fips_aes key) n msg))"
  using assms by (intro block_cipher.aead_forward [OF aes_block_cipher]) (simp_all add: AES_128_KEY_LENGTH_def)

lemma ccm_ready_example:
  assumes "length n = 13" and "length msg \<le> 240" and "length ad \<le> 254"
  shows "ccm_ready (mem_of 100 (n @ msg @ ad)) 100 n 113 msg (113 + length msg) ad 1000 8"
  using bytes_at_mem_of [of 100 "n @ msg @ ad"] assms
  by (simp add: ccm_ready_def bytes_at_append accessible_mem_of regions_apart_def)

theorem aead_is_ccm_witness:
  "aead (aes_encrypt (aes_set_key (replicate 16 7))) (mem_of 100 (replicate 13 9 @ [1, 2, 3] @ [4, 5])) 100 113 (of_nat (length [1, 2, 3 :: u8]))
      (113 + length [1, 2, 3 :: u8]) (of_nat (length [4, 5 :: u8])) 1000 (of_nat 8) True =
    Some (put (put (mem_of 100 (replicate 13 9 @ [1, 2, 3] @ [4, 5])) 1000 (ccm_tag (fips_aes (replicate 16 7)) 8 (replicate 13 9) [1, 2, 3] [4, 5]))
      113 (ccm_cipher (fips_aes (replicate 16 7)) (replicate 13 9) [1, 2, 3]))"
  by (rule aead_is_ccm [OF _ ccm_ready_example]) (simp_all add: AES_128_KEY_LENGTH_def)

text \<open>
  C10: Opening undoes sealing: a message sealed in place and opened with the same key, nonce and additional data is the
  message again, the bytes at the result are the checksum the sender stored, and both calls return.
\<close>

theorem aead_roundtrip:
  assumes "length key = AES_128_KEY_LENGTH" and "ccm_ready s nonce n m msg a ad result M"
    and "accessible s result' M" and "regions_apart result' M nonce 13" and "regions_apart result' M m (length msg)"
    and "regions_apart result' M a (length ad)" and "regions_apart result' M result M"
  shows "\<exists>s1 s2 tag. aead (aes_encrypt (aes_set_key key)) s nonce m (of_nat (length msg)) a (of_nat (length ad)) result (of_nat M) True = Some s1 \<and>
    aead (aes_encrypt (aes_set_key key)) s1 nonce m (of_nat (length msg)) a (of_nat (length ad)) result' (of_nat M) False = Some s2 \<and>
    bytes_at s1 m (ccm_cipher (fips_aes key) n msg) \<and> bytes_at s2 m msg \<and>
    length tag = M \<and> bytes_at s1 result tag \<and> bytes_at s2 result tag \<and> bytes_at s2 result' tag"
proof -
  let ?F = "fips_aes key" and ?E = "aes_encrypt (aes_set_key key)"
  have "length key = 16" using assms(1) by (simp add: AES_128_KEY_LENGTH_def)
  note c = aes_block_cipher [OF this]
  note r = assms(2) [unfolded ccm_ready_def]
  let ?t = "ccm_tag ?F M n msg ad" and ?c = "ccm_cipher ?F n msg"
  let ?s1 = "put (put s result ?t) m ?c" and ?s2 = "put (put (put (put s result ?t) m ?c) m msg) result' ?t"
  have l: "length ?c = length msg" "length ?t = M"
    using r block_cipher.length_ccm_cipher [OF c] block_cipher.length_ccm_tag [OF c] by blast+
  note apart = bytes_at_put_regions_apart regions_apart_sym
  have acc: "accessible ?s1 q k \<longleftrightarrow> accessible s q k" for q k
    using r l by (simp add: bytes_at_accessible)
  have ready: "ccm_ready ?s1 nonce n m ?c a ad result' M"
    using r l assms(3-7) unfolding ccm_ready_def acc by (simp add: apart bytes_at_put)
  have "aead ?E s nonce m (of_nat (length msg)) a (of_nat (length ad)) result (of_nat M) True = Some ?s1"
    by (rule block_cipher.aead_forward [OF c assms(2)])
  moreover have "aead ?E ?s1 nonce m (of_nat (length msg)) a (of_nat (length ad)) result' (of_nat M) False = Some ?s2"
    by (rule block_cipher.aead_backward [OF c ready])
  moreover have "bytes_at ?s1 m ?c" by (rule bytes_at_put)
  moreover have "bytes_at ?s2 m msg" using l assms(5) by (simp add: bytes_at_put_regions_apart bytes_at_put)
  moreover have "bytes_at ?s1 result ?t" "bytes_at ?s2 result ?t"
    using r l assms(7) by (simp_all add: apart bytes_at_put)
  moreover have "bytes_at ?s2 result' ?t" by (rule bytes_at_put)
  ultimately show ?thesis using l(2) by blast
qed

theorem aead_roundtrip_witness:
  "\<exists>s1 s2 tag. aead (aes_encrypt (aes_set_key (replicate 16 7))) (mem_of 100 (replicate 13 9 @ [1, 2, 3] @ [4, 5])) 100 113 (of_nat (length [1, 2, 3 :: u8]))
      (113 + length [1, 2, 3 :: u8]) (of_nat (length [4, 5 :: u8])) 1000 (of_nat 8) True = Some s1 \<and>
    aead (aes_encrypt (aes_set_key (replicate 16 7))) s1 100 113 (of_nat (length [1, 2, 3 :: u8]))
      (113 + length [1, 2, 3 :: u8]) (of_nat (length [4, 5 :: u8])) 2000 (of_nat 8) False = Some s2 \<and>
    bytes_at s1 113 (ccm_cipher (fips_aes (replicate 16 7)) (replicate 13 9) [1, 2, 3]) \<and> bytes_at s2 113 [1, 2, 3] \<and>
    length tag = 8 \<and> bytes_at s1 1000 tag \<and> bytes_at s2 1000 tag \<and> bytes_at s2 2000 tag"
  by (rule aead_roundtrip [OF _ ccm_ready_example]) (simp_all add: AES_128_KEY_LENGTH_def accessible_mem_of regions_apart_def)

text \<open>
  C35: When a call returns: with accessible buffers, sealing and opening end exactly for messages of at most 240 bytes and
  additional data of at most 254 bytes. For anything longer the 8-bit position wraps around and the loop runs for ever.
\<close>

theorem aead_returns_iff:
  assumes "accessible s nonce 13" and "accessible s m (unat m_len)" and "accessible s a (unat a_len)"
    and "accessible s result (unat mic_len)" and "unat mic_len \<le> 16" and "regions_apart nonce 13 m (unat m_len)"
  shows "aead (aes_encrypt rk) s nonce m m_len a a_len result mic_len forward \<noteq> None \<longleftrightarrow> unat m_len \<le> 240 \<and> unat a_len \<le> 254"
  using aes.aead_returns [OF assms] aead_diverges [of m_len a_len] by (meson not_le)

theorem aead_returns_iff_witness:
  "(aead (aes_encrypt (replicate 11 (replicate 16 1))) (mem_of 0 []) 0 100 240 400 254 700 8 True \<noteq> None \<longleftrightarrow> unat (240 :: u8) \<le> 240 \<and> unat (254 :: u8) \<le> 254) \<and>
   (aead (aes_encrypt (replicate 11 (replicate 16 1))) (mem_of 0 []) 0 100 241 400 254 700 8 False \<noteq> None \<longleftrightarrow> unat (241 :: u8) \<le> 240 \<and> unat (254 :: u8) \<le> 254)"
  by (intro conjI aead_returns_iff) (simp_all add: accessible_mem_of regions_apart_def)

end
