(* ===== verification/Iphc.thy ===== *)
theory Iphc
  imports Bytemem
begin

section \<open>Header compression of 6LoWPAN (net/sicslowpan/sicslowpan.c)\<close>

text \<open>
  \<open>compress_hdr_iphc\<close> writes the IPv6 header of a packet, and its UDP header, in the short form of RFC 6282 to the packet
  buffer, and \<open>uncompress_hdr_iphc\<close> reads that form. The headers are bytes of the IP buffer, at the offsets of \<open>struct uip_ip_hdr\<close>
  and \<open>struct uip_udp_hdr\<close>; 16-bit fields are in network byte order. The packet buffer is a byte-addressed memory, written at
  \<open>hc06_ptr\<close>.
\<close>

subsection \<open>Constants\<close>

named_theorems iphc_consts \<open>values of the constants\<close>

definition SICSLOWPAN_UDP_4_BIT_PORT_MIN :: u16 where [iphc_consts]: "SICSLOWPAN_UDP_4_BIT_PORT_MIN = 0xF0B0"
definition SICSLOWPAN_UDP_8_BIT_PORT_MIN :: u16 where [iphc_consts]: "SICSLOWPAN_UDP_8_BIT_PORT_MIN = 0xF000"
definition SICSLOWPAN_DISPATCH_IPHC :: u8 where [iphc_consts]: "SICSLOWPAN_DISPATCH_IPHC = 0x60"
definition SICSLOWPAN_IPHC_FL_C :: u8 where [iphc_consts]: "SICSLOWPAN_IPHC_FL_C = 0x10"
definition SICSLOWPAN_IPHC_TC_C :: u8 where [iphc_consts]: "SICSLOWPAN_IPHC_TC_C = 0x08"
definition SICSLOWPAN_IPHC_NH_C :: u8 where [iphc_consts]: "SICSLOWPAN_IPHC_NH_C = 0x04"
definition SICSLOWPAN_IPHC_TTL_1 :: u8 where [iphc_consts]: "SICSLOWPAN_IPHC_TTL_1 = 0x01"
definition SICSLOWPAN_IPHC_TTL_64 :: u8 where [iphc_consts]: "SICSLOWPAN_IPHC_TTL_64 = 0x02"
definition SICSLOWPAN_IPHC_TTL_255 :: u8 where [iphc_consts]: "SICSLOWPAN_IPHC_TTL_255 = 0x03"
definition SICSLOWPAN_IPHC_TTL_I :: u8 where [iphc_consts]: "SICSLOWPAN_IPHC_TTL_I = 0x00"
definition SICSLOWPAN_IPHC_CID :: u8 where [iphc_consts]: "SICSLOWPAN_IPHC_CID = 0x80"
definition SICSLOWPAN_IPHC_SAC :: u8 where [iphc_consts]: "SICSLOWPAN_IPHC_SAC = 0x40"
definition SICSLOWPAN_IPHC_SAM_00 :: u8 where [iphc_consts]: "SICSLOWPAN_IPHC_SAM_00 = 0x00"
definition SICSLOWPAN_IPHC_SAM_11 :: u8 where [iphc_consts]: "SICSLOWPAN_IPHC_SAM_11 = 0x30"
definition SICSLOWPAN_IPHC_SAM_BIT :: nat where [iphc_consts]: "SICSLOWPAN_IPHC_SAM_BIT = 4"
definition SICSLOWPAN_IPHC_M :: u8 where [iphc_consts]: "SICSLOWPAN_IPHC_M = 0x08"
definition SICSLOWPAN_IPHC_DAC :: u8 where [iphc_consts]: "SICSLOWPAN_IPHC_DAC = 0x04"
definition SICSLOWPAN_IPHC_DAM_00 :: u8 where [iphc_consts]: "SICSLOWPAN_IPHC_DAM_00 = 0x00"
definition SICSLOWPAN_IPHC_DAM_01 :: u8 where [iphc_consts]: "SICSLOWPAN_IPHC_DAM_01 = 0x01"
definition SICSLOWPAN_IPHC_DAM_10 :: u8 where [iphc_consts]: "SICSLOWPAN_IPHC_DAM_10 = 0x02"
definition SICSLOWPAN_IPHC_DAM_11 :: u8 where [iphc_consts]: "SICSLOWPAN_IPHC_DAM_11 = 0x03"
definition SICSLOWPAN_IPHC_DAM_BIT :: nat where [iphc_consts]: "SICSLOWPAN_IPHC_DAM_BIT = 0"
definition SICSLOWPAN_NHC_UDP_MASK :: u8 where [iphc_consts]: "SICSLOWPAN_NHC_UDP_MASK = 0xF8"
definition SICSLOWPAN_NHC_UDP_ID :: u8 where [iphc_consts]: "SICSLOWPAN_NHC_UDP_ID = 0xF0"
definition SICSLOWPAN_NHC_UDP_CHECKSUMC :: u8 where [iphc_consts]: "SICSLOWPAN_NHC_UDP_CHECKSUMC = 0x04"
definition SICSLOWPAN_NHC_UDP_CS_P_00 :: u8 where [iphc_consts]: "SICSLOWPAN_NHC_UDP_CS_P_00 = 0xF0"
definition SICSLOWPAN_NHC_UDP_CS_P_01 :: u8 where [iphc_consts]: "SICSLOWPAN_NHC_UDP_CS_P_01 = 0xF1"
definition SICSLOWPAN_NHC_UDP_CS_P_10 :: u8 where [iphc_consts]: "SICSLOWPAN_NHC_UDP_CS_P_10 = 0xF2"
definition SICSLOWPAN_NHC_UDP_CS_P_11 :: u8 where [iphc_consts]: "SICSLOWPAN_NHC_UDP_CS_P_11 = 0xF3"
definition UIP_PROTO_UDP :: u8 where [iphc_consts]: "UIP_PROTO_UDP = 17"
definition UIP_IPH_LEN :: nat where [iphc_consts]: "UIP_IPH_LEN = 40"
definition UIP_UDPH_LEN :: nat where [iphc_consts]: "UIP_UDPH_LEN = 8"

definition unc_llconf :: "u8 list" where [iphc_consts]: "unc_llconf = [0x0f, 0x28, 0x22, 0x20]"
definition unc_ctxconf :: "u8 list" where [iphc_consts]: "unc_ctxconf = [0x00, 0x88, 0x82, 0x80]"
definition unc_mxconf :: "u8 list" where [iphc_consts]: "unc_mxconf = [0x0f, 0x25, 0x23, 0x21]"
definition llprefix :: "u8 list" where [iphc_consts]: "llprefix = [0xfe, 0x80]"
definition ttl_values :: "u8 list" where [iphc_consts]: "ttl_values = [0, 1, 64, 255]"

subsection \<open>Headers, addresses and contexts\<close>

text \<open>
  The fields of the headers at the start of the IP buffer, as a list of bytes: \<open>struct uip_ip_hdr\<close> and, behind it,
  \<open>struct uip_udp_hdr\<close>. An address is a list of 16 bytes, read by bytes or by pairs of bytes.
\<close>

abbreviation h_vtc :: "u8 list \<Rightarrow> u8" where "h_vtc h \<equiv> h ! 0"
abbreviation h_tcflow :: "u8 list \<Rightarrow> u8" where "h_tcflow h \<equiv> h ! 1"
abbreviation h_flow :: "u8 list \<Rightarrow> u8 list" where "h_flow h \<equiv> [h ! 2, h ! 3]"
abbreviation h_proto :: "u8 list \<Rightarrow> u8" where "h_proto h \<equiv> h ! 6"
abbreviation h_ttl :: "u8 list \<Rightarrow> u8" where "h_ttl h \<equiv> h ! 7"
abbreviation h_srcipaddr :: "u8 list \<Rightarrow> u8 list" where "h_srcipaddr h \<equiv> take 16 (drop 8 h)"
abbreviation h_destipaddr :: "u8 list \<Rightarrow> u8 list" where "h_destipaddr h \<equiv> take 16 (drop 24 h)"
abbreviation h_srcport :: "u8 list \<Rightarrow> u8 list" where "h_srcport h \<equiv> [h ! 40, h ! 41]"
abbreviation h_destport :: "u8 list \<Rightarrow> u8 list" where "h_destport h \<equiv> [h ! 42, h ! 43]"
abbreviation h_udpchksum :: "u8 list \<Rightarrow> u8 list" where "h_udpchksum h \<equiv> [h ! 46, h ! 47]"

text \<open>\<open>UIP_HTONS\<close> of a field is the number its two bytes are in network order; assigning \<open>UIP_HTONS\<close> of a number to a field
  stores its bytes in that order.\<close>

definition UIP_HTONS :: "u8 list \<Rightarrow> u16" where
  "UIP_HTONS f = push_bit 8 (ucast (f ! 0)) OR ucast (f ! 1)"

definition net_bytes :: "u16 \<Rightarrow> u8 list" where
  "net_bytes v = [ucast (drop_bit 8 v), ucast v]"

definition u16_zero :: "u8 list \<Rightarrow> nat \<Rightarrow> bool" where
  "u16_zero a i \<longleftrightarrow> a ! (2 * i) = 0 \<and> a ! (2 * i + 1) = 0"

definition uip_is_addr_mac_addr_based :: "u8 list \<Rightarrow> u8 list \<Rightarrow> bool" where
  "uip_is_addr_mac_addr_based a m \<longleftrightarrow>
     a ! 8 = m ! 0 XOR 0x02 \<and> a ! 9 = m ! 1 \<and> a ! 10 = m ! 2 \<and> a ! 11 = m ! 3 \<and>
     a ! 12 = m ! 4 \<and> a ! 13 = m ! 5 \<and> a ! 14 = m ! 6 \<and> a ! 15 = m ! 7"

definition uip_is_addr_unspecified :: "u8 list \<Rightarrow> bool" where
  "uip_is_addr_unspecified a \<longleftrightarrow>
     u16_zero a 0 \<and> u16_zero a 1 \<and> u16_zero a 2 \<and> u16_zero a 3 \<and> u16_zero a 4 \<and> u16_zero a 5 \<and> u16_zero a 6 \<and> u16_zero a 7"

definition uip_is_addr_linklocal :: "u8 list \<Rightarrow> bool" where
  "uip_is_addr_linklocal a \<longleftrightarrow> a ! 0 = 0xfe \<and> a ! 1 = 0x80"

definition uip_is_addr_mcast :: "u8 list \<Rightarrow> bool" where
  "uip_is_addr_mcast a \<longleftrightarrow> a ! 0 = 0xFF"

definition sicslowpan_is_iid_16_bit_compressable :: "u8 list \<Rightarrow> bool" where
  "sicslowpan_is_iid_16_bit_compressable a \<longleftrightarrow>
     u16_zero a 4 \<and> a ! 10 = 0 \<and> a ! 11 = 0xff \<and> a ! 12 = 0xfe \<and> a ! 13 = 0"

definition sicslowpan_is_mcast_addr_compressable48 :: "u8 list \<Rightarrow> bool" where
  "sicslowpan_is_mcast_addr_compressable48 a \<longleftrightarrow>
     u16_zero a 1 \<and> u16_zero a 2 \<and> u16_zero a 3 \<and> u16_zero a 4 \<and> a ! 10 = 0"

definition sicslowpan_is_mcast_addr_compressable32 :: "u8 list \<Rightarrow> bool" where
  "sicslowpan_is_mcast_addr_compressable32 a \<longleftrightarrow>
     u16_zero a 1 \<and> u16_zero a 2 \<and> u16_zero a 3 \<and> u16_zero a 4 \<and> u16_zero a 5 \<and> a ! 12 = 0"

definition sicslowpan_is_mcast_addr_compressable8 :: "u8 list \<Rightarrow> bool" where
  "sicslowpan_is_mcast_addr_compressable8 a \<longleftrightarrow>
     a ! 1 = 2 \<and> u16_zero a 1 \<and> u16_zero a 2 \<and> u16_zero a 3 \<and> u16_zero a 4 \<and> u16_zero a 5 \<and> u16_zero a 6 \<and> a ! 14 = 0"

record sicslowpan_addr_context =
  cx_used :: u8
  cx_number :: u8
  cx_prefix :: "u8 list"

definition addr_context_lookup_by_prefix ::
  "sicslowpan_addr_context list \<Rightarrow> u8 list \<Rightarrow> sicslowpan_addr_context option" where
  "addr_context_lookup_by_prefix addr_contexts ipaddr =
     find (\<lambda>c. cx_used c = 1 \<and> take 8 (cx_prefix c) = take 8 ipaddr) addr_contexts"

definition addr_context_lookup_by_number ::
  "sicslowpan_addr_context list \<Rightarrow> u8 \<Rightarrow> sicslowpan_addr_context option" where
  "addr_context_lookup_by_number addr_contexts number =
     find (\<lambda>c. cx_used c = 1 \<and> cx_number c = number) addr_contexts"

text \<open>The variables of the module that the compression uses.\<close>

record hc =
  packetbuf :: mem
  packetbuf_ptr :: ptr
  packetbuf_hdr_len :: u8
  uncomp_hdr_len :: u8
  hc06_ptr :: ptr

definition PACKETBUF_IPHC_BUF :: "'a hc_scheme \<Rightarrow> nat \<Rightarrow> ptr" where
  "PACKETBUF_IPHC_BUF s i = packetbuf_ptr s + unat (packetbuf_hdr_len s) + i"

text \<open>Bytes written at \<open>hc06_ptr\<close>, which advances behind them; a byte written elsewhere.\<close>

definition emit_hc :: "u8 list \<Rightarrow> 'a hc_scheme \<Rightarrow> 'a hc_scheme option" where
  "emit_hc bs s = do {
     m \<leftarrow> store_list (packetbuf s) (hc06_ptr s) bs;
     Some (s\<lparr>packetbuf := m, hc06_ptr := hc06_ptr s + length bs\<rparr>)
   }"

definition poke :: "ptr \<Rightarrow> u8 \<Rightarrow> 'a hc_scheme \<Rightarrow> 'a hc_scheme option" where
  "poke p v s = do { m \<leftarrow> store (packetbuf s) p v; Some (s\<lparr>packetbuf := m\<rparr>) }"

subsection \<open>Compression\<close>

definition compress_addr_64 :: "nat \<Rightarrow> u8 list \<Rightarrow> u8 list \<Rightarrow> 'a hc_scheme \<Rightarrow> (u8 \<times> 'a hc_scheme) option" where
  "compress_addr_64 bitpos ipaddr lladdr s =
     (if uip_is_addr_mac_addr_based ipaddr lladdr then Some (push_bit bitpos 3, s)
      else if sicslowpan_is_iid_16_bit_compressable ipaddr then do {
        s \<leftarrow> emit_hc (take 2 (drop 14 ipaddr)) s;
        Some (push_bit bitpos 2, s)
      } else do {
        s \<leftarrow> emit_hc (take 8 (drop 8 ipaddr)) s;
        Some (push_bit bitpos 1, s)
      })"

text \<open>Traffic class and flow label; \<open>iphc0\<close> is extended.\<close>

definition iphc_tmp :: "u8 list \<Rightarrow> u8" where
  "iphc_tmp h = (let tmp = push_bit 4 (h_vtc h) OR drop_bit 4 (h_tcflow h) in push_bit 6 (tmp AND 0x03) OR drop_bit 2 tmp)"

definition compress_tf :: "u8 list \<Rightarrow> u8 \<times> 'a hc_scheme \<Rightarrow> (u8 \<times> 'a hc_scheme) option" where
  "compress_tf h = (\<lambda>(iphc0, s).
     let tmp = iphc_tmp h in
     if h_tcflow h AND 0x0F = 0 \<and> h_flow h = [0, 0] then
       (let iphc0 = iphc0 OR SICSLOWPAN_IPHC_FL_C in
        if h_vtc h AND 0x0F = 0 \<and> h_tcflow h AND 0xF0 = 0 then Some (iphc0 OR SICSLOWPAN_IPHC_TC_C, s)
        else do { s \<leftarrow> emit_hc [tmp] s; Some (iphc0, s) })
     else if h_vtc h AND 0x0F = 0 \<and> h_tcflow h AND 0xF0 = 0 then
       do {
         s \<leftarrow> emit_hc ((tmp AND 0xc0 OR h_tcflow h AND 0x0F) # h_flow h) s;
         Some (iphc0 OR SICSLOWPAN_IPHC_TC_C, s)
       }
     else do { s \<leftarrow> emit_hc (tmp # h_tcflow h # h_flow h) s; Some (iphc0, s) })"

definition compress_nh :: "u8 list \<Rightarrow> u8 \<times> 'a hc_scheme \<Rightarrow> (u8 \<times> 'a hc_scheme) option" where
  "compress_nh h = (\<lambda>(iphc0, s).
     let iphc0 = (if h_proto h = UIP_PROTO_UDP then iphc0 OR SICSLOWPAN_IPHC_NH_C else iphc0) in
     if iphc0 AND SICSLOWPAN_IPHC_NH_C = 0 then do { s \<leftarrow> emit_hc [h_proto h] s; Some (iphc0, s) } else Some (iphc0, s))"

definition compress_ttl :: "u8 list \<Rightarrow> u8 \<times> 'a hc_scheme \<Rightarrow> (u8 \<times> 'a hc_scheme) option" where
  "compress_ttl h = (\<lambda>(iphc0, s).
     if h_ttl h = 1 then Some (iphc0 OR SICSLOWPAN_IPHC_TTL_1, s)
     else if h_ttl h = 64 then Some (iphc0 OR SICSLOWPAN_IPHC_TTL_64, s)
     else if h_ttl h = 255 then Some (iphc0 OR SICSLOWPAN_IPHC_TTL_255, s)
     else do { s \<leftarrow> emit_hc [h_ttl h] s; Some (iphc0, s) })"

text \<open>The byte of the context numbers is extended in place.\<close>

definition or_context :: "u8 \<Rightarrow> 'a hc_scheme \<Rightarrow> 'a hc_scheme option" where
  "or_context v s = do { b \<leftarrow> packetbuf s (PACKETBUF_IPHC_BUF s 2); poke (PACKETBUF_IPHC_BUF s 2) (b OR v) s }"

definition compress_src ::
  "sicslowpan_addr_context list \<Rightarrow> u8 list \<Rightarrow> u8 list \<Rightarrow> u8 \<times> 'a hc_scheme \<Rightarrow> (u8 \<times> 'a hc_scheme) option" where
  "compress_src addr_contexts uip_lladdr h = (\<lambda>(iphc1, s).
     let src = h_srcipaddr h; dst = h_destipaddr h in
     if uip_is_addr_unspecified src then Some (iphc1 OR SICSLOWPAN_IPHC_SAC OR SICSLOWPAN_IPHC_SAM_00, s)
     else case addr_context_lookup_by_prefix addr_contexts src of
       Some context \<Rightarrow> do {
         s \<leftarrow> or_context (push_bit 4 (cx_number context)) s;
         (v, s) \<leftarrow> compress_addr_64 SICSLOWPAN_IPHC_SAM_BIT src uip_lladdr s;
         Some (iphc1 OR (SICSLOWPAN_IPHC_CID OR SICSLOWPAN_IPHC_SAC) OR v, s)
       }
     | None \<Rightarrow>
         if uip_is_addr_linklocal src \<and> u16_zero dst 1 \<and> u16_zero dst 2 \<and> u16_zero dst 3 then do {
           (v, s) \<leftarrow> compress_addr_64 SICSLOWPAN_IPHC_SAM_BIT src uip_lladdr s;
           Some (iphc1 OR v, s)
         } else do { s \<leftarrow> emit_hc src s; Some (iphc1 OR SICSLOWPAN_IPHC_SAM_00, s) })"

definition compress_dest ::
  "sicslowpan_addr_context list \<Rightarrow> u8 list \<Rightarrow> u8 list \<Rightarrow> u8 \<times> 'a hc_scheme \<Rightarrow> (u8 \<times> 'a hc_scheme) option" where
  "compress_dest addr_contexts link_destaddr h = (\<lambda>(iphc1, s).
     let dst = h_destipaddr h in
     if uip_is_addr_mcast dst then
       (let iphc1 = iphc1 OR SICSLOWPAN_IPHC_M in
        if sicslowpan_is_mcast_addr_compressable8 dst then do {
          s \<leftarrow> emit_hc [dst ! 15] s; Some (iphc1 OR SICSLOWPAN_IPHC_DAM_11, s) }
        else if sicslowpan_is_mcast_addr_compressable32 dst then do {
          s \<leftarrow> emit_hc (dst ! 1 # take 3 (drop 13 dst)) s; Some (iphc1 OR SICSLOWPAN_IPHC_DAM_10, s) }
        else if sicslowpan_is_mcast_addr_compressable48 dst then do {
          s \<leftarrow> emit_hc (dst ! 1 # take 5 (drop 11 dst)) s; Some (iphc1 OR SICSLOWPAN_IPHC_DAM_01, s) }
        else do { s \<leftarrow> emit_hc dst s; Some (iphc1 OR SICSLOWPAN_IPHC_DAM_00, s) })
     else case addr_context_lookup_by_prefix addr_contexts dst of
       Some context \<Rightarrow> do {
         s \<leftarrow> or_context (cx_number context) s;
         (v, s) \<leftarrow> compress_addr_64 SICSLOWPAN_IPHC_DAM_BIT dst link_destaddr s;
         Some (iphc1 OR SICSLOWPAN_IPHC_DAC OR v, s)
       }
     | None \<Rightarrow>
         if uip_is_addr_linklocal dst \<and> u16_zero dst 1 \<and> u16_zero dst 2 \<and> u16_zero dst 3 then do {
           (v, s) \<leftarrow> compress_addr_64 SICSLOWPAN_IPHC_DAM_BIT dst link_destaddr s;
           Some (iphc1 OR v, s)
         } else do { s \<leftarrow> emit_hc dst s; Some (iphc1 OR SICSLOWPAN_IPHC_DAM_00, s) })"

definition compress_udp :: "u8 list \<Rightarrow> 'a hc_scheme \<Rightarrow> 'a hc_scheme option" where
  "compress_udp h s =
     (let srcport = UIP_HTONS (h_srcport h); destport = UIP_HTONS (h_destport h) in do {
     s \<leftarrow> (if srcport AND 0xfff0 = SICSLOWPAN_UDP_4_BIT_PORT_MIN \<and> destport AND 0xfff0 = SICSLOWPAN_UDP_4_BIT_PORT_MIN then
             emit_hc [SICSLOWPAN_NHC_UDP_CS_P_11,
               ucast (push_bit 4 (srcport - SICSLOWPAN_UDP_4_BIT_PORT_MIN)) + ucast (destport - SICSLOWPAN_UDP_4_BIT_PORT_MIN)] s
           else if destport AND 0xff00 = SICSLOWPAN_UDP_8_BIT_PORT_MIN then
             emit_hc (SICSLOWPAN_NHC_UDP_CS_P_01 # h_srcport h @ [ucast (destport - SICSLOWPAN_UDP_8_BIT_PORT_MIN)]) s
           else if srcport AND 0xff00 = SICSLOWPAN_UDP_8_BIT_PORT_MIN then
             emit_hc (SICSLOWPAN_NHC_UDP_CS_P_10 # ucast (srcport - SICSLOWPAN_UDP_8_BIT_PORT_MIN) # h_destport h) s
           else emit_hc (SICSLOWPAN_NHC_UDP_CS_P_00 # h_srcport h @ h_destport h) s);
     emit_hc (h_udpchksum h) s
   })"

definition compress_hdr_iphc ::
  "sicslowpan_addr_context list \<Rightarrow> u8 list \<Rightarrow> u8 list \<Rightarrow> u8 list \<Rightarrow> 'a hc_scheme \<Rightarrow> 'a hc_scheme option" where
  "compress_hdr_iphc addr_contexts uip_lladdr link_destaddr h s = do {
     let s = s\<lparr>hc06_ptr := packetbuf_ptr s + 2\<rparr>;
     let iphc0 = SICSLOWPAN_DISPATCH_IPHC;
     let iphc1 = (0 :: u8);
     s \<leftarrow> poke (PACKETBUF_IPHC_BUF s 2) 0 s;
     let cid = (addr_context_lookup_by_prefix addr_contexts (h_destipaddr h) \<noteq> None \<or>
                addr_context_lookup_by_prefix addr_contexts (h_srcipaddr h) \<noteq> None);
     let iphc1 = (if cid then iphc1 OR SICSLOWPAN_IPHC_CID else iphc1);
     let s = (if cid then s\<lparr>hc06_ptr := hc06_ptr s + 1\<rparr> else s);
     (iphc0, s) \<leftarrow> compress_tf h (iphc0, s);
     (iphc0, s) \<leftarrow> compress_nh h (iphc0, s);
     (iphc0, s) \<leftarrow> compress_ttl h (iphc0, s);
     (iphc1, s) \<leftarrow> compress_src addr_contexts uip_lladdr h (iphc1, s);
     (iphc1, s) \<leftarrow> compress_dest addr_contexts link_destaddr h (iphc1, s);
     let s = s\<lparr>uncomp_hdr_len := of_nat UIP_IPH_LEN\<rparr>;
     s \<leftarrow> (if h_proto h = UIP_PROTO_UDP then do {
             s \<leftarrow> compress_udp h s;
             Some (s\<lparr>uncomp_hdr_len := uncomp_hdr_len s + of_nat UIP_UDPH_LEN\<rparr>)
           } else Some s);
     s \<leftarrow> poke (PACKETBUF_IPHC_BUF s 0) iphc0 s;
     s \<leftarrow> poke (PACKETBUF_IPHC_BUF s 1) iphc1 s;
     Some (s\<lparr>packetbuf_hdr_len := of_nat (hc06_ptr s - packetbuf_ptr s)\<rparr>)
   }"

subsection \<open>Decompression\<close>

text \<open>
  The target \<open>buf\<close> is a memory whose address 0 is the start of the IP header. The byte \<open>i\<close> behind \<open>hc06_ptr\<close> is \<open>at_ptr s i\<close>.
\<close>

definition at_ptr :: "'a hc_scheme \<Rightarrow> nat \<Rightarrow> u8 option" where
  "at_ptr s i = packetbuf s (hc06_ptr s + i)"

definition advance :: "nat \<Rightarrow> 'a hc_scheme \<Rightarrow> 'a hc_scheme" where
  "advance n s = s\<lparr>hc06_ptr := hc06_ptr s + n\<rparr>"

definition uip_ds6_set_addr_iid :: "mem \<Rightarrow> ptr \<Rightarrow> u8 list \<Rightarrow> mem option" where
  "uip_ds6_set_addr_iid buf ipaddr lladdr =
     (if length lladdr < 8 then None
      else do {
        buf \<leftarrow> store_list buf (ipaddr + 8) (take 8 lladdr);
        b \<leftarrow> buf (ipaddr + 8);
        store buf (ipaddr + 8) (b XOR 0x02)
      })"

definition nibble :: "u8 \<Rightarrow> nat" where
  "nibble n = (if n = 15 then 16 else unat n)"

definition uncompress_addr ::
  "'a hc_scheme \<Rightarrow> mem \<Rightarrow> ptr \<Rightarrow> u8 list \<Rightarrow> u8 \<Rightarrow> u8 list \<Rightarrow> ('a hc_scheme \<times> mem) option" where
  "uncompress_addr s buf ipaddr prefix pref_post_count lladdr =
     (let prefcount = nibble (drop_bit 4 pref_post_count); postcount = nibble (pref_post_count AND 0x0f) in
      if length prefix < prefcount then None
      else do {
        buf \<leftarrow> (if prefcount > 0 then store_list buf ipaddr (take prefcount prefix) else Some buf);
        buf \<leftarrow> (if prefcount + postcount < 16
               then store_list buf (ipaddr + prefcount) (replicate (16 - (prefcount + postcount)) 0) else Some buf);
        if postcount > 0 then do {
          bs \<leftarrow> load_list (packetbuf s) (hc06_ptr s) postcount;
          buf \<leftarrow> store_list buf (ipaddr + (16 - postcount)) bs;
          buf \<leftarrow> (if postcount = 2 \<and> prefcount < 11 then store_list buf (ipaddr + 11) [0xff, 0xfe] else Some buf);
          Some (advance postcount s, buf)
        } else if prefcount > 0 then do {
          buf \<leftarrow> uip_ds6_set_addr_iid buf ipaddr lladdr;
          Some (s, buf)
        } else Some (s, buf)
      })"

definition uncompress_tf :: "u8 \<Rightarrow> 'a hc_scheme \<times> mem \<Rightarrow> ('a hc_scheme \<times> mem) option" where
  "uncompress_tf iphc0 = (\<lambda>(s, buf).
     if iphc0 AND SICSLOWPAN_IPHC_FL_C = 0 then
       if iphc0 AND SICSLOWPAN_IPHC_TC_C = 0 then do {
         fl \<leftarrow> load_list (packetbuf s) (hc06_ptr s + 1) 3;
         buf \<leftarrow> store_list buf 1 fl;
         tmp \<leftarrow> at_ptr s 0;
         let s = advance 4 s;
         buf \<leftarrow> store buf 0 (0x60 OR drop_bit 2 tmp AND 0x0f);
         tcflow \<leftarrow> buf 1;
         buf \<leftarrow> store buf 1 (drop_bit 2 tmp AND 0x30 OR push_bit 6 tmp OR tcflow AND 0x0f);
         Some (s, buf)
       } else do {
         buf \<leftarrow> store buf 0 0x60;
         b \<leftarrow> at_ptr s 0;
         buf \<leftarrow> store buf 1 (b AND 0x0F OR drop_bit 2 b AND 0x30);
         fl \<leftarrow> load_list (packetbuf s) (hc06_ptr s + 1) 2;
         buf \<leftarrow> store_list buf 2 fl;
         Some (advance 3 s, buf)
       }
     else if iphc0 AND SICSLOWPAN_IPHC_TC_C = 0 then do {
       b \<leftarrow> at_ptr s 0;
       buf \<leftarrow> store buf 0 (0x60 OR drop_bit 2 b AND 0x0f);
       buf \<leftarrow> store buf 1 (push_bit 6 b AND 0xC0 OR drop_bit 2 b AND 0x30);
       buf \<leftarrow> store_list buf 2 [0, 0];
       Some (advance 1 s, buf)
     } else do {
       buf \<leftarrow> store buf 0 0x60;
       buf \<leftarrow> store buf 1 0;
       buf \<leftarrow> store_list buf 2 [0, 0];
       Some (s, buf)
     })"

definition uncompress_nh :: "u8 \<Rightarrow> 'a hc_scheme \<times> mem \<Rightarrow> ('a hc_scheme \<times> mem) option" where
  "uncompress_nh iphc0 = (\<lambda>(s, buf).
     if iphc0 AND SICSLOWPAN_IPHC_NH_C = 0 then do {
       b \<leftarrow> at_ptr s 0;
       buf \<leftarrow> store buf 6 b;
       Some (advance 1 s, buf)
     } else Some (s, buf))"

definition uncompress_ttl :: "u8 \<Rightarrow> 'a hc_scheme \<times> mem \<Rightarrow> ('a hc_scheme \<times> mem) option" where
  "uncompress_ttl iphc0 = (\<lambda>(s, buf).
     if iphc0 AND 0x03 \<noteq> SICSLOWPAN_IPHC_TTL_I then do {
       buf \<leftarrow> store buf 7 (ttl_values ! unat (iphc0 AND 0x03));
       Some (s, buf)
     } else do {
       b \<leftarrow> at_ptr s 0;
       buf \<leftarrow> store buf 7 b;
       Some (advance 1 s, buf)
     })"

text \<open>The flag of the result is whether the function returns early, as a context is missing.\<close>

definition uncompress_src ::
  "sicslowpan_addr_context list \<Rightarrow> u8 list \<Rightarrow> u8 \<Rightarrow> 'a hc_scheme \<times> mem \<Rightarrow> (bool \<times> 'a hc_scheme \<times> mem) option" where
  "uncompress_src addr_contexts sender iphc1 = (\<lambda>(s, buf).
     let tmp = drop_bit SICSLOWPAN_IPHC_SAM_BIT (iphc1 AND SICSLOWPAN_IPHC_SAM_11) AND 0x03 in
     if iphc1 AND SICSLOWPAN_IPHC_SAC \<noteq> 0 then do {
       sci \<leftarrow> (if iphc1 AND SICSLOWPAN_IPHC_CID \<noteq> 0
              then do { b \<leftarrow> packetbuf s (PACKETBUF_IPHC_BUF s 2); Some (drop_bit 4 b) } else Some 0);
       if tmp \<noteq> 0 then
         (case addr_context_lookup_by_number addr_contexts sci of
            None \<Rightarrow> Some (True, s, buf)
          | Some context \<Rightarrow> do {
              r \<leftarrow> uncompress_addr s buf 8 (cx_prefix context) (unc_ctxconf ! unat tmp) sender;
              Some (False, r)
            })
       else do {
         r \<leftarrow> uncompress_addr s buf 8 [] (unc_ctxconf ! unat tmp) sender;
         Some (False, r)
       }
     } else do {
       r \<leftarrow> uncompress_addr s buf 8 llprefix (unc_llconf ! unat tmp) sender;
       Some (False, r)
     })"

definition uncompress_dest ::
  "sicslowpan_addr_context list \<Rightarrow> u8 list \<Rightarrow> u8 \<Rightarrow> 'a hc_scheme \<times> mem \<Rightarrow> (bool \<times> 'a hc_scheme \<times> mem) option" where
  "uncompress_dest addr_contexts receiver iphc1 = (\<lambda>(s, buf).
     let tmp = drop_bit SICSLOWPAN_IPHC_DAM_BIT (iphc1 AND SICSLOWPAN_IPHC_DAM_11) AND 0x03 in
     if iphc1 AND SICSLOWPAN_IPHC_M \<noteq> 0 then
       if iphc1 AND SICSLOWPAN_IPHC_DAC \<noteq> 0 then Some (False, s, buf)
       else do {
         (prefix, s) \<leftarrow> (if tmp > 0 \<and> tmp < 3 then do { b \<leftarrow> at_ptr s 0; Some ([0xff, b], advance 1 s) }
                        else Some ([0xff, 0x02], s));
         r \<leftarrow> uncompress_addr s buf 24 prefix (unc_mxconf ! unat tmp) [];
         Some (False, r)
       }
     else if iphc1 AND SICSLOWPAN_IPHC_DAC \<noteq> 0 then do {
       dci \<leftarrow> (if iphc1 AND SICSLOWPAN_IPHC_CID \<noteq> 0
              then do { b \<leftarrow> packetbuf s (PACKETBUF_IPHC_BUF s 2); Some (b AND 0x0f) } else Some 0);
       case addr_context_lookup_by_number addr_contexts dci of
         None \<Rightarrow> Some (True, s, buf)
       | Some context \<Rightarrow> do {
           r \<leftarrow> uncompress_addr s buf 24 (cx_prefix context) (unc_ctxconf ! unat tmp) receiver;
           Some (False, r)
         }
     } else do {
       r \<leftarrow> uncompress_addr s buf 24 llprefix (unc_llconf ! unat tmp) receiver;
       Some (False, r)
     })"

definition uncompress_udp :: "'a hc_scheme \<times> mem \<Rightarrow> ('a hc_scheme \<times> mem) option" where
  "uncompress_udp = (\<lambda>(s, buf). do {
     b \<leftarrow> at_ptr s 0;
     if b AND SICSLOWPAN_NHC_UDP_MASK = SICSLOWPAN_NHC_UDP_ID then do {
       buf \<leftarrow> store buf 6 UIP_PROTO_UDP;
       let checksum_compressed = b AND SICSLOWPAN_NHC_UDP_CHECKSUMC;
       let cs = b AND SICSLOWPAN_NHC_UDP_CS_P_11;
       (s, buf) \<leftarrow> (if cs = SICSLOWPAN_NHC_UDP_CS_P_00 then do {
           sp \<leftarrow> load_list (packetbuf s) (hc06_ptr s + 1) 2;
           buf \<leftarrow> store_list buf 40 sp;
           dp \<leftarrow> load_list (packetbuf s) (hc06_ptr s + 3) 2;
           buf \<leftarrow> store_list buf 42 dp;
           Some (advance 5 s, buf)
         } else if cs = SICSLOWPAN_NHC_UDP_CS_P_01 then do {
           sp \<leftarrow> load_list (packetbuf s) (hc06_ptr s + 1) 2;
           buf \<leftarrow> store_list buf 40 sp;
           d \<leftarrow> at_ptr s 3;
           buf \<leftarrow> store_list buf 42 (net_bytes (SICSLOWPAN_UDP_8_BIT_PORT_MIN + ucast d));
           Some (advance 4 s, buf)
         } else if cs = SICSLOWPAN_NHC_UDP_CS_P_10 then do {
           d \<leftarrow> at_ptr s 1;
           buf \<leftarrow> store_list buf 40 (net_bytes (SICSLOWPAN_UDP_8_BIT_PORT_MIN + ucast d));
           dp \<leftarrow> load_list (packetbuf s) (hc06_ptr s + 2) 2;
           buf \<leftarrow> store_list buf 42 dp;
           Some (advance 4 s, buf)
         } else do {
           d \<leftarrow> at_ptr s 1;
           buf \<leftarrow> store_list buf 40 (net_bytes (SICSLOWPAN_UDP_4_BIT_PORT_MIN + ucast (drop_bit 4 d)));
           buf \<leftarrow> store_list buf 42 (net_bytes (SICSLOWPAN_UDP_4_BIT_PORT_MIN + ucast (d AND 0x0F)));
           Some (advance 2 s, buf)
         });
       (s, buf) \<leftarrow> (if checksum_compressed = 0 then do {
           c \<leftarrow> load_list (packetbuf s) (hc06_ptr s) 2;
           buf \<leftarrow> store_list buf 46 c;
           Some (advance 2 s, buf)
         } else Some (s, buf));
       Some (s\<lparr>uncomp_hdr_len := uncomp_hdr_len s + of_nat UIP_UDPH_LEN\<rparr>, buf)
     } else Some (s, buf)
   })"

definition uncompress_len :: "nat \<Rightarrow> u16 \<Rightarrow> 'a hc_scheme \<times> mem \<Rightarrow> ('a hc_scheme \<times> mem) option" where
  "uncompress_len datalen ip_len = (\<lambda>(s, buf).
     let len = (if ip_len = 0
                then int datalen - int (unat (packetbuf_hdr_len s)) + int (unat (uncomp_hdr_len s)) - int UIP_IPH_LEN
                else int (unat ip_len) - int UIP_IPH_LEN) in do {
     buf \<leftarrow> store buf 4 (word_of_int (len div 256));
     buf \<leftarrow> store buf 5 (word_of_int (len mod 256));
     proto \<leftarrow> buf 6;
     buf \<leftarrow> (if proto = UIP_PROTO_UDP then do { l \<leftarrow> load_list buf 4 2; store_list buf 44 l } else Some buf);
     Some (s, buf)
   })"

definition uncompress_hdr_iphc ::
  "sicslowpan_addr_context list \<Rightarrow> u8 list \<Rightarrow> u8 list \<Rightarrow> nat \<Rightarrow> u16 \<Rightarrow> 'a hc_scheme \<times> mem \<Rightarrow> ('a hc_scheme \<times> mem) option" where
  "uncompress_hdr_iphc addr_contexts sender receiver datalen ip_len = (\<lambda>(s, buf). do {
     let s = s\<lparr>hc06_ptr := packetbuf_ptr s + unat (packetbuf_hdr_len s) + 2\<rparr>;
     iphc0 \<leftarrow> packetbuf s (PACKETBUF_IPHC_BUF s 0);
     iphc1 \<leftarrow> packetbuf s (PACKETBUF_IPHC_BUF s 1);
     let s = (if iphc1 AND SICSLOWPAN_IPHC_CID \<noteq> 0 then advance 1 s else s);
     r \<leftarrow> uncompress_tf iphc0 (s, buf);
     r \<leftarrow> uncompress_nh iphc0 r;
     r \<leftarrow> uncompress_ttl iphc0 r;
     (ret, r) \<leftarrow> uncompress_src addr_contexts sender iphc1 r;
     if ret then Some r else do {
       (ret, r) \<leftarrow> uncompress_dest addr_contexts receiver iphc1 r;
       if ret then Some r else do {
         let (s, buf) = r;
         let s = s\<lparr>uncomp_hdr_len := uncomp_hdr_len s + of_nat UIP_IPH_LEN\<rparr>;
         (s, buf) \<leftarrow> (if iphc0 AND SICSLOWPAN_IPHC_NH_C \<noteq> 0 then uncompress_udp (s, buf) else Some (s, buf));
         let s = s\<lparr>packetbuf_hdr_len := of_nat (hc06_ptr s - packetbuf_ptr s)\<rparr>;
         uncompress_len datalen ip_len (s, buf)
       }
     }
   })"

end
