(* ===== verification/Sicslowpan.thy ===== *)
theory Sicslowpan
  imports Iphc Timers Linkaddr "HOL-Library.Signed_Division"
begin

section \<open>6LoWPAN: fragmentation, input and output (net/sicslowpan/sicslowpan.c)\<close>

text \<open>
  \<open>output\<close> takes an IPv6 packet from the IP buffer, compresses its header and sends it in one frame or in fragments; \<open>input\<close> takes a
  frame from the packet buffer, decompresses its header, collects fragments and hands complete packets to the IP layer.
  The buffers are arrays: each is a memory of its own, and an access outside of it has no result. The packet buffer
  module is the array, where address 0 is the start, the data pointer, the data length and the addresses of the current frame. The framer, the queue buffers and the
  transmission are arguments: the header length, the number of free buffers, whether an allocation succeeds, and the status the driver reports.
  The counters of the link statistics, the signal strength and the sniffer are left out.
\<close>

subsection \<open>State\<close>

definition SICSLOWPAN_DISPATCH_IPV6 :: u8 where "SICSLOWPAN_DISPATCH_IPV6 = 0x41"
definition SICSLOWPAN_DISPATCH_FRAG1 :: u8 where "SICSLOWPAN_DISPATCH_FRAG1 = 0xc0"
definition SICSLOWPAN_DISPATCH_FRAGN :: u8 where "SICSLOWPAN_DISPATCH_FRAGN = 0xe0"
definition SICSLOWPAN_IPV6_HDR_LEN :: u8 where "SICSLOWPAN_IPV6_HDR_LEN = 1"
definition SICSLOWPAN_FRAG1_HDR_LEN :: u8 where "SICSLOWPAN_FRAG1_HDR_LEN = 4"
definition SICSLOWPAN_FRAGN_HDR_LEN :: u8 where "SICSLOWPAN_FRAGN_HDR_LEN = 5"
definition SICSLOWPAN_FRAGMENT_BUFFERS :: nat where "SICSLOWPAN_FRAGMENT_BUFFERS = 4"
definition SICSLOWPAN_REASS_CONTEXTS :: nat where "SICSLOWPAN_REASS_CONTEXTS = 2"
definition SICSLOWPAN_FRAGMENT_SIZE :: nat where "SICSLOWPAN_FRAGMENT_SIZE = 110"
definition SICSLOWPAN_FIRST_FRAGMENT_SIZE :: nat where "SICSLOWPAN_FIRST_FRAGMENT_SIZE = SICSLOWPAN_FRAGMENT_SIZE + 38"
definition MAC_MAX_PAYLOAD :: int where "MAC_MAX_PAYLOAD = 127 - 2"
definition SICSLOWPAN_FIXED_HDRLEN :: int where "SICSLOWPAN_FIXED_HDRLEN = 21"
definition UIP_BUFSIZE :: nat where "UIP_BUFSIZE = 350"

datatype mac_status = MAC_TX_OK | MAC_TX_COLLISION | MAC_TX_NOACK | MAC_TX_DEFERRED | MAC_TX_ERR | MAC_TX_ERR_FATAL

record sicslowpan_frag_info =
  fi_sender :: linkaddr
  fi_tag :: u16
  fi_len :: u16
  fi_reassembled_len :: u16
  fi_reass_timer :: timer
  fi_first_frag_len :: u16
  fi_first_frag :: mem

record sicslowpan_frag_buf =
  fb_index :: u8
  fb_offset :: u8
  fb_len :: u8
  fb_data :: mem

record sics = hc +
  packetbuf_payload_len :: int
  last_tx_status :: mac_status
  my_tag :: u16
  frag_info :: "sicslowpan_frag_info list"
  frag_buf :: "sicslowpan_frag_buf list"
  uip_buf :: mem
  uip_len :: u16
  pb_dataptr :: ptr
  pb_datalen :: nat
  pb_sender :: linkaddr
  pb_receiver :: linkaddr
  frames_sent :: "u8 list list"

definition GET16 :: "mem \<Rightarrow> ptr \<Rightarrow> nat \<Rightarrow> u16 option" where
  "GET16 m p index = do { a \<leftarrow> m (p + index); b \<leftarrow> m (p + index + 1); Some (push_bit 8 (ucast a) OR ucast b) }"

definition SET16 :: "ptr \<Rightarrow> nat \<Rightarrow> u16 \<Rightarrow> mem \<Rightarrow> mem option" where
  "SET16 p index value m = do {
     m \<leftarrow> store m (p + index) (ucast (drop_bit 8 value AND 0xff));
     store m (p + index + 1) (ucast (value AND 0xff))
   }"

text \<open>\<open>memcpy\<close> between two arrays; a length that is negative is a huge \<open>size_t\<close>.\<close>

definition memcpy :: "mem \<Rightarrow> ptr \<Rightarrow> mem \<Rightarrow> ptr \<Rightarrow> int \<Rightarrow> mem option" where
  "memcpy dst p src q n = (if n < 0 then None else do { bs \<leftarrow> load_list src q (nat n); store_list dst p bs })"

subsection \<open>Fragments\<close>

definition fb_clear :: "nat \<Rightarrow> sicslowpan_frag_buf \<Rightarrow> sicslowpan_frag_buf" where
  "fb_clear i b = (if fb_len b > 0 \<and> unat (fb_index b) = i then b\<lparr>fb_len := 0\<rparr> else b)"

definition clear_fragments :: "nat \<Rightarrow> sics \<Rightarrow> nat \<times> sics" where
  "clear_fragments i s =
     (length (filter (\<lambda>b. fb_len b > 0 \<and> unat (fb_index b) = i) (frag_buf s)),
      s\<lparr>frag_info := (frag_info s)[i := (frag_info s ! i)\<lparr>fi_len := 0\<rparr>], frag_buf := map (fb_clear i) (frag_buf s)\<rparr>)"

definition timeout_step :: "u32 \<Rightarrow> nat \<Rightarrow> nat \<Rightarrow> nat \<times> sics \<Rightarrow> nat \<times> sics" where
  "timeout_step now not_context i = (\<lambda>(count, s).
     if fi_len (frag_info s ! i) > 0 \<and> i \<noteq> not_context \<and> timer_expired now (fi_reass_timer (frag_info s ! i))
     then (let (n, s) = clear_fragments i s in (count + n, s)) else (count, s))"

definition timeout_fragments :: "u32 \<Rightarrow> nat \<Rightarrow> sics \<Rightarrow> nat \<times> sics" where
  "timeout_fragments now not_context s = fold (timeout_step now not_context) [0..<SICSLOWPAN_REASS_CONTEXTS] (0, s)"

fun store_loop :: "nat list \<Rightarrow> nat \<Rightarrow> u8 \<Rightarrow> sics \<Rightarrow> (int \<times> sics) option" where
  "store_loop [] index offset s = Some (-1, s)"
| "store_loop (i # is) index offset s =
     (if fb_len (frag_buf s ! i) = 0 then
       (let n = int (pb_datalen s) - int (unat (packetbuf_hdr_len s));
            b = (frag_buf s ! i)\<lparr>fb_offset := offset, fb_len := word_of_int n, fb_index := of_nat index\<rparr> in do {
         d \<leftarrow> memcpy (fb_data b) 0 (packetbuf s) (packetbuf_ptr s + unat (packetbuf_hdr_len s)) n;
         Some (int (unat (fb_len b)), s\<lparr>frag_buf := (frag_buf s)[i := b\<lparr>fb_data := d\<rparr>]\<rparr>)
       })
      else store_loop is index offset s)"

definition store_fragment :: "nat \<Rightarrow> u8 \<Rightarrow> sics \<Rightarrow> (int \<times> sics) option" where
  "store_fragment index offset s = store_loop [0..<SICSLOWPAN_FRAGMENT_BUFFERS] index offset s"

text \<open>A first fragment: the loop over the contexts, which frees expired ones and remembers the first free one.\<close>

definition first_step :: "u32 \<Rightarrow> nat \<Rightarrow> nat option \<times> sics \<Rightarrow> nat option \<times> sics" where
  "first_step now i = (\<lambda>(found, s).
     let s = (if fi_len (frag_info s ! i) > 0 \<and> timer_expired now (fi_reass_timer (frag_info s ! i)) then snd (clear_fragments i s) else s) in
     (if found = None \<and> fi_len (frag_info s ! i) = 0 then Some i else found, s))"

definition same_session :: "u16 \<Rightarrow> linkaddr \<Rightarrow> sicslowpan_frag_info \<Rightarrow> bool" where
  "same_session tag sender f \<longleftrightarrow> fi_tag f = tag \<and> fi_len f > 0 \<and> linkaddr_cmp (fi_sender f) sender"

definition add_fragment :: "u32 \<Rightarrow> u32 \<Rightarrow> u16 \<Rightarrow> u16 \<Rightarrow> u8 \<Rightarrow> sics \<Rightarrow> (nat option \<times> sics) option" where
  "add_fragment now maxage tag frag_size offset s =
     (if offset = 0 then
       (case fold (first_step now) [0..<SICSLOWPAN_REASS_CONTEXTS] (None, s) of
          (None, s) \<Rightarrow> Some (None, s)
        | (Some i, s) \<Rightarrow>
            let f = frag_info s ! i;
                f = f\<lparr>fi_len := frag_size, fi_tag := tag, fi_sender := linkaddr_copy (fi_sender f) (pb_sender s),
                     fi_reass_timer := timer_set now (fi_reass_timer f) maxage\<rparr>
            in Some (Some i, s\<lparr>frag_info := (frag_info s)[i := f]\<rparr>))
      else
       (case find (\<lambda>i. same_session tag (pb_sender s) (frag_info s ! i)) [0..<SICSLOWPAN_REASS_CONTEXTS] of
          None \<Rightarrow> Some (None, s)
        | Some i \<Rightarrow> do {
            (len, s) \<leftarrow> store_fragment i offset s;
            (len, s) \<leftarrow> (if len < 0 then
                (let (n, s) = timeout_fragments now i s in if n > 0 then store_fragment i offset s else Some (len, s))
              else Some (len, s));
            if len > 0 then
              (let f = frag_info s ! i; f = f\<lparr>fi_reassembled_len := fi_reassembled_len f + word_of_int len\<rparr>
               in Some (Some i, s\<lparr>frag_info := (frag_info s)[i := f]\<rparr>))
            else Some (None, s)
          }))"

fun copy_loop :: "nat \<Rightarrow> sicslowpan_frag_buf list \<Rightarrow> mem \<Rightarrow> mem option" where
  "copy_loop c [] uip = Some uip"
| "copy_loop c (b # bs) uip =
     (if fb_len b > 0 \<and> unat (fb_index b) = c then do {
        uip \<leftarrow> memcpy uip (unat (push_bit 3 (ucast (fb_offset b)) :: u16)) (fb_data b) 0 (int (unat (fb_len b)));
        copy_loop c bs uip
      } else copy_loop c bs uip)"

definition copy_frags2uip :: "nat \<Rightarrow> sics \<Rightarrow> sics option" where
  "copy_frags2uip c s = do {
     uip \<leftarrow> memcpy (uip_buf s) 0 (fi_first_frag (frag_info s ! c)) 0 (int (unat (fi_first_frag_len (frag_info s ! c))));
     uip \<leftarrow> copy_loop c (frag_buf s) uip;
     Some (snd (clear_fragments c (s\<lparr>uip_buf := uip\<rparr>)))
   }"

subsection \<open>Input\<close>

text \<open>The buffer that the headers and the payload of a frame go to.\<close>

datatype in_buffer = Buf_NULL | Buf_uip | Buf_first nat

definition read_buffer :: "in_buffer \<Rightarrow> sics \<Rightarrow> mem" where
  "read_buffer b s = (case b of Buf_NULL \<Rightarrow> (\<lambda>_. None) | Buf_uip \<Rightarrow> uip_buf s | Buf_first c \<Rightarrow> fi_first_frag (frag_info s ! c))"

definition write_buffer :: "in_buffer \<Rightarrow> mem \<Rightarrow> sics \<Rightarrow> sics" where
  "write_buffer b m s = (case b of Buf_NULL \<Rightarrow> s | Buf_uip \<Rightarrow> s\<lparr>uip_buf := m\<rparr>
     | Buf_first c \<Rightarrow> s\<lparr>frag_info := (frag_info s)[c := (frag_info s ! c)\<lparr>fi_first_frag := m\<rparr>]\<rparr>)"

text \<open>The locals of \<open>input\<close> that the handling of the fragment header sets.\<close>

record frag_locals =
  lo_frag_size :: u16
  lo_frag_offset :: u8
  lo_is_fragment :: bool
  lo_context :: nat
  lo_first :: bool
  lo_last :: bool
  lo_buffer :: in_buffer

text \<open>The switch over the fragment dispatch; without a context the function returns.\<close>

definition input_fragment :: "u32 \<Rightarrow> u32 \<Rightarrow> sics \<Rightarrow> (frag_locals option \<times> sics) option" where
  "input_fragment now maxage s =
     (let p = packetbuf_ptr s;
          l = \<lparr>lo_frag_size = 0, lo_frag_offset = 0, lo_is_fragment = False, lo_context = 0, lo_first = False, lo_last = False, lo_buffer = Buf_uip\<rparr>
      in do {
        d \<leftarrow> GET16 (packetbuf s) p 0;
        let dispatch = drop_bit 8 (d AND 0xf800);
        if dispatch = ucast SICSLOWPAN_DISPATCH_FRAG1 then do {
          d \<leftarrow> GET16 (packetbuf s) p 0;
          let frag_size = d AND 0x07ff;
          tag \<leftarrow> GET16 (packetbuf s) p 2;
          let s = s\<lparr>packetbuf_hdr_len := packetbuf_hdr_len s + SICSLOWPAN_FRAG1_HDR_LEN\<rparr>;
          (c, s) \<leftarrow> add_fragment now maxage tag frag_size 0 s;
          case c of None \<Rightarrow> Some (None, s)
          | Some c \<Rightarrow> Some (Some (l\<lparr>lo_frag_size := frag_size, lo_is_fragment := True, lo_context := c, lo_first := True,
                                   lo_buffer := Buf_first c\<rparr>), s)
        } else if dispatch = ucast SICSLOWPAN_DISPATCH_FRAGN then do {
          offset \<leftarrow> packetbuf s (p + 4);
          tag \<leftarrow> GET16 (packetbuf s) p 2;
          d \<leftarrow> GET16 (packetbuf s) p 0;
          let frag_size = d AND 0x07ff;
          let s = s\<lparr>packetbuf_hdr_len := packetbuf_hdr_len s + SICSLOWPAN_FRAGN_HDR_LEN\<rparr>;
          (c, s) \<leftarrow> add_fragment now maxage tag frag_size offset s;
          case c of None \<Rightarrow> Some (None, s)
          | Some c \<Rightarrow> Some (Some (l\<lparr>lo_frag_size := frag_size, lo_frag_offset := offset, lo_is_fragment := True, lo_context := c,
                                   lo_last := (fi_reassembled_len (frag_info s ! c) \<ge> frag_size), lo_buffer := Buf_NULL\<rparr>), s)
        } else Some (Some l, s)
      })"

text \<open>The header of the frame; the flag is whether the dispatch is known.\<close>

definition input_header :: "sicslowpan_addr_context list \<Rightarrow> frag_locals \<Rightarrow> sics \<Rightarrow> (bool \<times> sics) option" where
  "input_header addr_contexts l s = do {
     b \<leftarrow> packetbuf s (packetbuf_ptr s + unat (packetbuf_hdr_len s));
     if b AND 0xe0 = SICSLOWPAN_DISPATCH_IPHC then do {
       (s, m) \<leftarrow> uncompress_hdr_iphc addr_contexts (pb_sender s) (pb_receiver s) (pb_datalen s) (lo_frag_size l) (s, read_buffer (lo_buffer l) s);
       Some (True, write_buffer (lo_buffer l) m s)
     } else if b = SICSLOWPAN_DISPATCH_IPV6 then do {
       let s = s\<lparr>packetbuf_hdr_len := packetbuf_hdr_len s + SICSLOWPAN_IPV6_HDR_LEN\<rparr>;
       m \<leftarrow> memcpy (read_buffer (lo_buffer l) s) 0 (packetbuf s) (packetbuf_ptr s + unat (packetbuf_hdr_len s)) (int UIP_IPH_LEN);
       let s = write_buffer (lo_buffer l) m s;
       Some (True, s\<lparr>packetbuf_hdr_len := packetbuf_hdr_len s + of_nat UIP_IPH_LEN, uncomp_hdr_len := uncomp_hdr_len s + of_nat UIP_IPH_LEN\<rparr>)
     } else Some (False, s)
   }"

text \<open>The rest of \<open>input\<close>, from the label \<open>copypayload\<close>; the flag of the result is whether \<open>tcpip_input\<close> is called.\<close>

definition input_payload :: "frag_locals \<Rightarrow> sics \<Rightarrow> (bool \<times> sics) option" where
  "input_payload l s =
     (if pb_datalen s < unat (packetbuf_hdr_len s) then Some (False, s)
      else
        (let s = s\<lparr>packetbuf_payload_len := int (pb_datalen s) - int (unat (packetbuf_hdr_len s))\<rparr>;
             req_size = int (unat (uncomp_hdr_len s)) + int (unat (push_bit 3 (ucast (lo_frag_offset l)) :: u16)) + packetbuf_payload_len s
         in if req_size > int UIP_BUFSIZE then Some (False, s)
         else do {
           s \<leftarrow> (if lo_buffer l \<noteq> Buf_NULL then do {
                   m \<leftarrow> memcpy (read_buffer (lo_buffer l) s) (unat (uncomp_hdr_len s)) (packetbuf s)
                     (packetbuf_ptr s + unat (packetbuf_hdr_len s)) (packetbuf_payload_len s);
                   Some (write_buffer (lo_buffer l) m s)
                 } else Some s);
           let n = int (unat (uncomp_hdr_len s)) + packetbuf_payload_len s;
           let c = lo_context l;
           s \<leftarrow> (if lo_frag_size l > 0 then do {
                   let s = (if lo_first l then s\<lparr>frag_info := (frag_info s)[c := (frag_info s ! c)\<lparr>fi_reassembled_len := word_of_int n,
                                fi_first_frag_len := word_of_int n\<rparr>]\<rparr> else s);
                   if lo_last l then copy_frags2uip c
                     (s\<lparr>frag_info := (frag_info s)[c := (frag_info s ! c)\<lparr>fi_reassembled_len := lo_frag_size l\<rparr>]\<rparr>)
                   else Some s
                 } else Some s);
           if \<not> lo_is_fragment l \<or> lo_last l then
             Some (True, s\<lparr>uip_len := if lo_is_fragment l \<and> lo_last l then lo_frag_size l else word_of_int n\<rparr>)
           else Some (False, s)
         }))"

definition sicslowpan_input :: "u32 \<Rightarrow> u32 \<Rightarrow> sicslowpan_addr_context list \<Rightarrow> sics \<Rightarrow> (bool \<times> sics) option" where
  "sicslowpan_input now maxage addr_contexts s = do {
     let s = s\<lparr>uncomp_hdr_len := 0, packetbuf_hdr_len := 0, packetbuf_ptr := pb_dataptr s\<rparr>;
     (l, s) \<leftarrow> input_fragment now maxage s;
     case l of None \<Rightarrow> Some (False, s)
     | Some l \<Rightarrow>
         if lo_is_fragment l \<and> \<not> lo_first l then input_payload l s
         else do {
           (known, s) \<leftarrow> input_header addr_contexts l s;
           if known then input_payload l s else Some (False, s)
         }
   }"

subsection \<open>Output\<close>

text \<open>
  What is outside of the module while a packet is sent: whether the stack is initialised and the header length the framer reports,
  the number of free queue buffers, whether the next allocation of one succeeds, and the status of a transmission, \<open>None\<close>
  when it is not reported before the driver returns. The last two depend on the frames sent before.
\<close>

record out_env =
  oe_framer_length :: "int option"
  oe_numfree :: int
  oe_queuebuf :: "u8 list list \<Rightarrow> bool"
  oe_status :: "u8 list list \<Rightarrow> mac_status option"

text \<open>The frame in the packet buffer goes to the driver; the callback \<open>packet_sent\<close> stores the status.\<close>

definition send_packet :: "out_env \<Rightarrow> linkaddr \<Rightarrow> sics \<Rightarrow> sics option" where
  "send_packet env dest s = do {
     let s = s\<lparr>pb_receiver := dest\<rparr>;
     frame \<leftarrow> load_list (packetbuf s) (pb_dataptr s) (pb_datalen s);
     let s = s\<lparr>frames_sent := frames_sent s @ [frame]\<rparr>;
     Some (case oe_status env (frames_sent s) of None \<Rightarrow> s | Some st \<Rightarrow> s\<lparr>last_tx_status := st\<rparr>)
   }"

text \<open>
  A fragment is kept in a queue buffer over its transmission, so the packet buffer is the same behind it. The flag is whether
  the buffer could be allocated.
\<close>

definition send_fragment :: "out_env \<Rightarrow> linkaddr \<Rightarrow> sics \<Rightarrow> (bool \<times> sics) option" where
  "send_fragment env dest s =
     (if \<not> oe_queuebuf env (frames_sent s) then Some (False, s) else do { s \<leftarrow> send_packet env dest s; Some (True, s) })"

partial_function (option) fragn_loop :: "out_env \<Rightarrow> linkaddr \<Rightarrow> u16 \<Rightarrow> sics \<Rightarrow> (nat \<times> sics) option" where
  "fragn_loop env dest processed s =
     (if \<not> processed < uip_len s then Some (1, s) else do {
        m \<leftarrow> store (packetbuf s) (packetbuf_ptr s + 4) (ucast (drop_bit 3 processed));
        let rest = int (unat (uip_len s)) - int (unat processed);
        let n = (if rest < packetbuf_payload_len s then rest else packetbuf_payload_len s);
        m \<leftarrow> memcpy m (packetbuf_ptr s + unat (packetbuf_hdr_len s)) (uip_buf s) (unat processed) n;
        let s = s\<lparr>packetbuf := m, packetbuf_payload_len := n, pb_datalen := nat (n + int (unat (packetbuf_hdr_len s)))\<rparr>;
        (ok, s) \<leftarrow> send_fragment env dest s;
        if \<not> ok then Some (0, s)
        else if last_tx_status s \<in> {MAC_TX_COLLISION, MAC_TX_ERR, MAC_TX_NOACK, MAC_TX_ERR_FATAL} then Some (0, s)
        else fragn_loop env dest (processed + word_of_int n) s
      })"

text \<open>\<open>n AND 0xfffffff8\<close>.\<close>

definition mult_8 :: "int \<Rightarrow> int" where "mult_8 n = n - n mod 8"

definition output_fragments :: "out_env \<Rightarrow> linkaddr \<Rightarrow> int \<Rightarrow> sics \<Rightarrow> (nat \<times> sics) option" where
  "output_fragments env dest max_payload s =
     (if max_payload = 5 then None
      else if oe_numfree env - 1 < int (unat (uip_len s)) sdiv (max_payload - 5) + 1 then Some (0, s)
      else do {
        let s = s\<lparr>last_tx_status := MAC_TX_OK\<rparr>;
        let p = packetbuf_ptr s;
        m \<leftarrow> memmove (packetbuf s) (p + 4) p (unat (packetbuf_hdr_len s));
        m \<leftarrow> SET16 p 0 (0xc000 OR uip_len s) m;
        let frag_tag = my_tag s;
        m \<leftarrow> SET16 p 2 frag_tag m;
        let s = s\<lparr>my_tag := my_tag s + 1, packetbuf_hdr_len := packetbuf_hdr_len s + SICSLOWPAN_FRAG1_HDR_LEN\<rparr>;
        let n = mult_8 (max_payload - int (unat (packetbuf_hdr_len s)));
        m \<leftarrow> memcpy m (p + unat (packetbuf_hdr_len s)) (uip_buf s) (unat (uncomp_hdr_len s)) n;
        let s = s\<lparr>packetbuf := m, packetbuf_payload_len := n, pb_datalen := nat (n + int (unat (packetbuf_hdr_len s)))\<rparr>;
        (ok, s) \<leftarrow> send_fragment env dest s;
        if \<not> ok then Some (0, s)
        else if last_tx_status s \<in> {MAC_TX_COLLISION, MAC_TX_ERR, MAC_TX_ERR_FATAL} then Some (0, s)
        else do {
          let processed = word_of_int n + ucast (uncomp_hdr_len s);
          let s = s\<lparr>packetbuf_hdr_len := SICSLOWPAN_FRAGN_HDR_LEN\<rparr>;
          m \<leftarrow> SET16 p 0 (0xe000 OR uip_len s) (packetbuf s);
          fragn_loop env dest processed (s\<lparr>packetbuf := m, packetbuf_payload_len := mult_8 (max_payload - int (unat (packetbuf_hdr_len s)))\<rparr>)
        }
      })"

text \<open>An IPv6 header that is not compressed; the threshold of the configuration is 0, so that every header is.\<close>

definition COMPRESSION_THRESHOLD :: u16 where "COMPRESSION_THRESHOLD = 0"

definition compress_hdr_ipv6 :: "sics \<Rightarrow> sics option" where
  "compress_hdr_ipv6 s = do {
     m \<leftarrow> store (packetbuf s) (packetbuf_ptr s) SICSLOWPAN_DISPATCH_IPV6;
     let s = s\<lparr>packetbuf := m, packetbuf_hdr_len := packetbuf_hdr_len s + SICSLOWPAN_IPV6_HDR_LEN\<rparr>;
     m \<leftarrow> memcpy (packetbuf s) (packetbuf_ptr s + unat (packetbuf_hdr_len s)) (uip_buf s) 0 (int UIP_IPH_LEN);
     Some (s\<lparr>packetbuf := m, packetbuf_hdr_len := packetbuf_hdr_len s + of_nat UIP_IPH_LEN, uncomp_hdr_len := uncomp_hdr_len s + of_nat UIP_IPH_LEN\<rparr>)
   }"

definition sicslowpan_output ::
  "out_env \<Rightarrow> sicslowpan_addr_context list \<Rightarrow> linkaddr \<Rightarrow> linkaddr option \<Rightarrow> sics \<Rightarrow> (nat \<times> sics) option" where
  "sicslowpan_output env addr_contexts uip_lladdr localdest s = do {
     let s = s\<lparr>uncomp_hdr_len := 0, packetbuf_hdr_len := 0\<rparr>;
     let s = s\<lparr>pb_dataptr := 0, pb_datalen := 0, pb_sender := linkaddr_null, pb_receiver := linkaddr_null\<rparr>;
     let s = s\<lparr>packetbuf_ptr := pb_dataptr s\<rparr>;
     let dest = (case localdest of None \<Rightarrow> linkaddr_null | Some a \<Rightarrow> a);
     h \<leftarrow> load_list (uip_buf s) 0 (UIP_IPH_LEN + UIP_UDPH_LEN);
     s \<leftarrow> (if uip_len s \<ge> COMPRESSION_THRESHOLD then compress_hdr_iphc addr_contexts uip_lladdr dest h s else compress_hdr_ipv6 s);
     let s = s\<lparr>pb_receiver := dest\<rparr>;
     case oe_framer_length env of None \<Rightarrow> Some (0, s)
     | Some framer_hdrlen \<Rightarrow>
         let max_payload = MAC_MAX_PAYLOAD - (if framer_hdrlen < 0 then SICSLOWPAN_FIXED_HDRLEN else framer_hdrlen) in
         if int (unat (uip_len s)) - int (unat (uncomp_hdr_len s)) > max_payload - int (unat (packetbuf_hdr_len s))
         then output_fragments env dest max_payload s
         else do {
           let n = int (unat (uip_len s)) - int (unat (uncomp_hdr_len s));
           m \<leftarrow> memcpy (packetbuf s) (packetbuf_ptr s + unat (packetbuf_hdr_len s)) (uip_buf s) (unat (uncomp_hdr_len s)) n;
           let s = s\<lparr>packetbuf := m, pb_datalen := nat (n + int (unat (packetbuf_hdr_len s)))\<rparr>;
           s \<leftarrow> send_packet env dest s;
           Some (1, s)
         }
   }"

text \<open>The address contexts that \<open>sicslowpan_init\<close> sets up: one, with number 0 and two bytes of prefix.\<close>

definition sicslowpan_init :: "sicslowpan_addr_context list \<Rightarrow> sicslowpan_addr_context list" where
  "sicslowpan_init addr_contexts =
     addr_contexts[0 := (addr_contexts ! 0)\<lparr>cx_used := 1, cx_number := 0,
       cx_prefix := (cx_prefix (addr_contexts ! 0))[0 := 0xaa, 1 := 0xaa]\<rparr>]"

end
