(* ===== verification/Iphc_Encode.thy ===== *)
theory Iphc_Encode
  imports Iphc
begin

section \<open>What the header compression writes\<close>

text \<open>
  The compressed form of a header as a list of bytes, and that \<open>compress_hdr_iphc\<close> writes exactly these bytes, for
  every header, set of contexts and addresses, when the packet buffer has room for the longest form, 48 bytes.
\<close>

subsection \<open>The encoding\<close>

definition tf_flags :: "u8 list \<Rightarrow> u8" where
  "tf_flags h = (if h_tcflow h AND 0x0F = 0 \<and> h_flow h = [0, 0] then 0x10 else 0) OR
     (if h_vtc h AND 0x0F = 0 \<and> h_tcflow h AND 0xF0 = 0 then 0x08 else 0)"

definition tf_bytes :: "u8 list \<Rightarrow> u8 list" where
  "tf_bytes h =
     (let tmp = iphc_tmp h; notc = (h_vtc h AND 0x0F = 0 \<and> h_tcflow h AND 0xF0 = 0) in
      if h_tcflow h AND 0x0F = 0 \<and> h_flow h = [0, 0] then (if notc then [] else [tmp])
      else if notc then (tmp AND 0xc0 OR h_tcflow h AND 0x0F) # h_flow h
      else tmp # h_tcflow h # h_flow h)"

definition nh_flag :: "u8 list \<Rightarrow> u8" where
  "nh_flag h = (if h_proto h = UIP_PROTO_UDP then 0x04 else 0)"

definition nh_bytes :: "u8 list \<Rightarrow> u8 list" where
  "nh_bytes h = (if h_proto h = UIP_PROTO_UDP then [] else [h_proto h])"

definition ttl_flag :: "u8 list \<Rightarrow> u8" where
  "ttl_flag h = (if h_ttl h = 1 then 1 else if h_ttl h = 64 then 2 else if h_ttl h = 255 then 3 else 0)"

definition ttl_bytes :: "u8 list \<Rightarrow> u8 list" where
  "ttl_bytes h = (if h_ttl h = 1 \<or> h_ttl h = 64 \<or> h_ttl h = 255 then [] else [h_ttl h])"

text \<open>An interface identifier: its mode and bytes.\<close>

definition iid_mode :: "u8 list \<Rightarrow> u8 list \<Rightarrow> u8" where
  "iid_mode a l = (if uip_is_addr_mac_addr_based a l then 3 else if sicslowpan_is_iid_16_bit_compressable a then 2 else 1)"

definition iid_bytes :: "u8 list \<Rightarrow> u8 list \<Rightarrow> u8 list" where
  "iid_bytes a l =
     (if uip_is_addr_mac_addr_based a l then [] else if sicslowpan_is_iid_16_bit_compressable a then take 2 (drop 14 a)
      else take 8 (drop 8 a))"

text \<open>For an address: the flags of the second byte, the context number and the bytes.\<close>

definition src_enc :: "sicslowpan_addr_context list \<Rightarrow> u8 list \<Rightarrow> u8 list \<Rightarrow> u8 \<times> u8 \<times> u8 list" where
  "src_enc cs l h =
     (let a = h_srcipaddr h; d = h_destipaddr h in
      if uip_is_addr_unspecified a then (0x40, 0, [])
      else case addr_context_lookup_by_prefix cs a of
        Some c \<Rightarrow> (0xC0 OR push_bit 4 (iid_mode a l), push_bit 4 (cx_number c), iid_bytes a l)
      | None \<Rightarrow> if uip_is_addr_linklocal a \<and> u16_zero d 1 \<and> u16_zero d 2 \<and> u16_zero d 3
               then (push_bit 4 (iid_mode a l), 0, iid_bytes a l) else (0, 0, a))"

definition dest_enc :: "sicslowpan_addr_context list \<Rightarrow> u8 list \<Rightarrow> u8 list \<Rightarrow> u8 \<times> u8 \<times> u8 list" where
  "dest_enc cs l h =
     (let a = h_destipaddr h in
      if uip_is_addr_mcast a then
        (if sicslowpan_is_mcast_addr_compressable8 a then (0x0B, 0, [a ! 15])
         else if sicslowpan_is_mcast_addr_compressable32 a then (0x0A, 0, a ! 1 # take 3 (drop 13 a))
         else if sicslowpan_is_mcast_addr_compressable48 a then (0x09, 0, a ! 1 # take 5 (drop 11 a))
         else (0x08, 0, a))
      else case addr_context_lookup_by_prefix cs a of
        Some c \<Rightarrow> (0x04 OR iid_mode a l, cx_number c, iid_bytes a l)
      | None \<Rightarrow> if uip_is_addr_linklocal a \<and> u16_zero a 1 \<and> u16_zero a 2 \<and> u16_zero a 3
               then (iid_mode a l, 0, iid_bytes a l) else (0, 0, a))"

definition udp_bytes :: "u8 list \<Rightarrow> u8 list" where
  "udp_bytes h =
     (let sp = UIP_HTONS (h_srcport h); dp = UIP_HTONS (h_destport h) in
      (if sp AND 0xfff0 = 0xF0B0 \<and> dp AND 0xfff0 = 0xF0B0
       then [0xF3, ucast (push_bit 4 (sp - 0xF0B0)) + ucast (dp - 0xF0B0)]
       else if dp AND 0xff00 = 0xF000 then 0xF1 # h_srcport h @ [ucast (dp - 0xF000)]
       else if sp AND 0xff00 = 0xF000 then 0xF2 # ucast (sp - 0xF000) # h_destport h
       else 0xF0 # h_srcport h @ h_destport h) @ h_udpchksum h)"

definition has_cid :: "sicslowpan_addr_context list \<Rightarrow> u8 list \<Rightarrow> bool" where
  "has_cid cs h \<longleftrightarrow> addr_context_lookup_by_prefix cs (h_destipaddr h) \<noteq> None \<or>
     addr_context_lookup_by_prefix cs (h_srcipaddr h) \<noteq> None"

definition inline_bytes :: "sicslowpan_addr_context list \<Rightarrow> u8 list \<Rightarrow> u8 list \<Rightarrow> u8 list \<Rightarrow> u8 list" where
  "inline_bytes cs sl dl h = tf_bytes h @ nh_bytes h @ ttl_bytes h @ snd (snd (src_enc cs sl h)) @ snd (snd (dest_enc cs dl h)) @
     (if h_proto h = UIP_PROTO_UDP then udp_bytes h else [])"

definition iphc_bytes :: "sicslowpan_addr_context list \<Rightarrow> u8 list \<Rightarrow> u8 list \<Rightarrow> u8 list \<Rightarrow> u8 list" where
  "iphc_bytes cs sl dl h =
     (0x60 OR tf_flags h OR nh_flag h OR ttl_flag h) #
     ((if has_cid cs h then 0x80 else 0) OR fst (src_enc cs sl h) OR fst (dest_enc cs dl h)) #
     (if has_cid cs h then [fst (snd (src_enc cs sl h)) OR fst (snd (dest_enc cs dl h))] else []) @
     inline_bytes cs sl dl h"

subsection \<open>Writing it\<close>

text \<open>The state of the compression: the context byte, the start of the inline bytes, and these.\<close>

definition cst :: "'a hc_scheme \<Rightarrow> mem \<Rightarrow> u8 \<Rightarrow> ptr \<Rightarrow> u8 list \<Rightarrow> 'a hc_scheme" where
  "cst s m c base bs = s\<lparr>packetbuf := put (put m (packetbuf_ptr s + 2) [c]) base bs, hc06_ptr := base + length bs\<rparr>"

definition room :: "'a hc_scheme \<Rightarrow> mem \<Rightarrow> ptr \<Rightarrow> nat \<Rightarrow> bool" where
  "room s m base n \<longleftrightarrow> accessible m (packetbuf_ptr s) 48 \<and> packetbuf_hdr_len s = 0 \<and>
     packetbuf_ptr s + 2 \<le> base \<and> base + n \<le> packetbuf_ptr s + 48"

lemma room_mono: "room s m base n \<Longrightarrow> k \<le> n \<Longrightarrow> room s m base k"
  by (simp add: room_def)

lemma emit_hc_cst:
  assumes "room s m base (length bs + length xs)"
  shows "emit_hc xs (cst s m c base bs) = Some (cst s m c base (bs @ xs))"
proof -
  have r: "accessible m (packetbuf_ptr s) 48" using assms by (simp add: room_def)
  have a: "accessible m (packetbuf_ptr s + 2) 1" "accessible m base (length bs)" "accessible m (base + length bs) (length xs)"
    using assms unfolding room_def by (intro accessible_mono [OF r]; simp)+
  then have "accessible (put (put m (packetbuf_ptr s + 2) [c]) base bs) (base + length bs) (length xs)"
    by (simp add: accessible_put)
  then show ?thesis by (simp add: emit_hc_def cst_def store_list_put put_append)
qed

lemma put_before: "p + length xs \<le> q \<Longrightarrow> put (put m q ys) p xs = put (put m p xs) q ys"
  by (rule ext) (auto simp: put_def)

lemma put_twice: "length xs = length ys \<Longrightarrow> put (put m p xs) p ys = put m p ys"
  by (rule ext) (auto simp: put_def)

lemma or_context_cst:
  assumes "room s m base (length bs)" and "base = packetbuf_ptr s + 3"
  shows "or_context v (cst s m c base bs) = Some (cst s m (c OR v) base bs)"
proof -
  let ?q = "packetbuf_ptr s + 2"
  have q: "base = ?q + 1" using assms(2) by simp
  have r: "accessible m (packetbuf_ptr s) 48" using assms(1) by (simp add: room_def)
  have a: "accessible m ?q 1" "accessible m base (length bs)"
    using assms unfolding room_def by (intro accessible_mono [OF r]; simp)+
  have r: "put (put m ?q [c]) base bs ?q = Some c" unfolding q by (simp add: put_def)
  have "put (put (put m ?q [c]) base bs) ?q [c OR v] = put (put m ?q [c OR v]) base bs"
    unfolding q by (subst put_before) (simp_all add: put_twice)
  then show ?thesis using r assms(1) a
    by (simp add: room_def or_context_def PACKETBUF_IPHC_BUF_def poke_def store_put cst_def)
qed

lemma compress_tf_cst:
  assumes "room s m base (length bs + 4)"
  shows "compress_tf h (i, cst s m c base bs) = Some (i OR tf_flags h, cst s m c base (bs @ tf_bytes h))"
proof -
  have e: "length xs \<le> 4 \<Longrightarrow> emit_hc xs (cst s m c base bs) = Some (cst s m c base (bs @ xs))" for xs
    by (intro emit_hc_cst room_mono [OF assms]) simp
  show ?thesis
    by (simp add: compress_tf_def tf_flags_def tf_bytes_def Let_def e iphc_consts or.assoc)
qed

lemma compress_nh_cst:
  assumes "room s m base (length bs + 1)" and "i AND 0x04 = 0"
  shows "compress_nh h (i, cst s m c base bs) = Some (i OR nh_flag h, cst s m c base (bs @ nh_bytes h))"
proof -
  have "(i OR 4) AND 4 = 4" by (simp add: bit.conj_disj_distrib2 assms(2))
  then show ?thesis using assms(2) emit_hc_cst [of s m base bs "[h_proto h]" c] assms(1)
    by (auto simp: compress_nh_def nh_flag_def nh_bytes_def Let_def iphc_consts)
qed

lemma compress_ttl_cst:
  assumes "room s m base (length bs + 1)"
  shows "compress_ttl h (i, cst s m c base bs) = Some (i OR ttl_flag h, cst s m c base (bs @ ttl_bytes h))"
  using emit_hc_cst [of s m base bs "[h_ttl h]" c] assms
  by (auto simp: compress_ttl_def ttl_flag_def ttl_bytes_def iphc_consts)

lemma compress_addr_64_cst:
  assumes "room s m base (length bs + 8)"
  shows "compress_addr_64 b a l (cst s m c base bs) = Some (push_bit b (iid_mode a l), cst s m c base (bs @ iid_bytes a l))"
proof -
  have e: "length xs \<le> 8 \<Longrightarrow> emit_hc xs (cst s m c base bs) = Some (cst s m c base (bs @ xs))" for xs
    by (intro emit_hc_cst room_mono [OF assms]) simp
  show ?thesis by (simp add: compress_addr_64_def iid_mode_def iid_bytes_def e)
qed

lemma compress_src_cst:
  assumes "room s m base (length bs + 16)" and "addr_context_lookup_by_prefix cs (h_srcipaddr h) \<noteq> None \<Longrightarrow> base = packetbuf_ptr s + 3"
  shows "compress_src cs l h (i, cst s m c base bs) =
    (case src_enc cs l h of (f, k, xs) \<Rightarrow> Some (i OR f, cst s m (c OR k) base (bs @ xs)))"
proof -
  have e: "length xs \<le> 16 \<Longrightarrow> emit_hc xs (cst s m c base bs) = Some (cst s m c base (bs @ xs))" for xs
    by (intro emit_hc_cst room_mono [OF assms(1)]) simp
  have a: "compress_addr_64 4 (h_srcipaddr h) l (cst s m k base bs) =
      Some (push_bit 4 (iid_mode (h_srcipaddr h) l), cst s m k base (bs @ iid_bytes (h_srcipaddr h) l))" for k
    by (intro compress_addr_64_cst room_mono [OF assms(1)]) simp
  have o: "addr_context_lookup_by_prefix cs (h_srcipaddr h) = Some d \<Longrightarrow>
      or_context v (cst s m c base bs) = Some (cst s m (c OR v) base bs)" for d v
    using assms(2) by (intro or_context_cst room_mono [OF assms(1)]) simp_all
  show ?thesis
    by (simp add: compress_src_def src_enc_def Let_def iphc_consts e a o or.assoc split: option.split) blast
qed

lemma compress_dest_cst:
  assumes "room s m base (length bs + 16)" and "addr_context_lookup_by_prefix cs (h_destipaddr h) \<noteq> None \<Longrightarrow> base = packetbuf_ptr s + 3"
  shows "compress_dest cs l h (i, cst s m c base bs) =
    (case dest_enc cs l h of (f, k, xs) \<Rightarrow> Some (i OR f, cst s m (c OR k) base (bs @ xs)))"
proof -
  have e: "length xs \<le> 16 \<Longrightarrow> emit_hc xs (cst s m c base bs) = Some (cst s m c base (bs @ xs))" for xs
    by (intro emit_hc_cst room_mono [OF assms(1)]) simp
  have a: "compress_addr_64 0 (h_destipaddr h) l (cst s m k base bs) =
      Some (push_bit 0 (iid_mode (h_destipaddr h) l), cst s m k base (bs @ iid_bytes (h_destipaddr h) l))" for k
    by (intro compress_addr_64_cst room_mono [OF assms(1)]) simp
  have o: "addr_context_lookup_by_prefix cs (h_destipaddr h) = Some d \<Longrightarrow>
      or_context v (cst s m c base bs) = Some (cst s m (c OR v) base bs)" for d v
    using assms(2) by (intro or_context_cst room_mono [OF assms(1)]) simp_all
  show ?thesis
    by (simp add: compress_dest_def dest_enc_def Let_def iphc_consts e a o or.assoc split: option.split) blast
qed

lemma compress_udp_cst:
  assumes "room s m base (length bs + 7)"
  shows "compress_udp h (cst s m c base bs) = Some (cst s m c base (bs @ udp_bytes h))"
proof -
  have e: "length ys + length xs \<le> 7 \<Longrightarrow> emit_hc xs (cst s m c base (bs @ ys)) = Some (cst s m c base ((bs @ ys) @ xs))" for xs ys
    by (intro emit_hc_cst room_mono [OF assms]) simp
  note e0 = e [of "[]", simplified]
  show ?thesis
    by (simp add: compress_udp_def udp_bytes_def Let_def iphc_consts e0 e)
qed

subsection \<open>The whole header\<close>

lemma tf_bytes_length: "length (tf_bytes h) \<le> 4"
  by (simp add: tf_bytes_def Let_def)

lemma nh_bytes_length: "length (nh_bytes h) \<le> 1"
  by (simp add: nh_bytes_def)

lemma ttl_bytes_length: "length (ttl_bytes h) \<le> 1"
  by (simp add: ttl_bytes_def)

lemma iid_bytes_length: "length (iid_bytes a l) \<le> 8"
  by (simp add: iid_bytes_def min_le_iff_disj)

lemma src_enc_length: "src_enc cs l h = (f, k, xs) \<Longrightarrow> length xs \<le> 16"
  using iid_bytes_length [of "h_srcipaddr h" l] by (auto simp: src_enc_def Let_def split: if_splits option.splits)

lemma dest_enc_length: "dest_enc cs l h = (f, k, xs) \<Longrightarrow> length xs \<le> 16"
  using iid_bytes_length [of "h_destipaddr h" l] by (auto simp: dest_enc_def Let_def split: if_splits option.splits)

lemma udp_bytes_length: "length (udp_bytes h) \<le> 7"
  by (simp add: udp_bytes_def Let_def)

lemma inline_bytes_length: "length (inline_bytes cs sl dl h) \<le> 45"
proof -
  obtain f k xs where x: "src_enc cs sl h = (f, k, xs)" by (metis prod_cases3)
  obtain g j ys where y: "dest_enc cs dl h = (g, j, ys)" by (metis prod_cases3)
  show ?thesis
    using tf_bytes_length [of h] nh_bytes_length [of h] ttl_bytes_length [of h] src_enc_length [OF x] dest_enc_length [OF y]
      udp_bytes_length [of h] by (simp add: inline_bytes_def x y)
qed

lemma iphc_bytes_length: "length (iphc_bytes cs sl dl h) \<le> 48"
  using inline_bytes_length [of cs sl dl h] by (simp add: iphc_bytes_def)

definition compress_fields ::
  "sicslowpan_addr_context list \<Rightarrow> u8 list \<Rightarrow> u8 list \<Rightarrow> u8 list \<Rightarrow> u8 \<Rightarrow> 'a hc_scheme \<Rightarrow> (u8 \<times> u8 \<times> 'a hc_scheme) option" where
  "compress_fields cs sl dl h iphc1 s = do {
     (iphc0, s) \<leftarrow> compress_tf h (0x60, s);
     (iphc0, s) \<leftarrow> compress_nh h (iphc0, s);
     (iphc0, s) \<leftarrow> compress_ttl h (iphc0, s);
     (iphc1, s) \<leftarrow> compress_src cs sl h (iphc1, s);
     (iphc1, s) \<leftarrow> compress_dest cs dl h (iphc1, s);
     Some (iphc0, iphc1, s)
   }"

definition field_bytes :: "sicslowpan_addr_context list \<Rightarrow> u8 list \<Rightarrow> u8 list \<Rightarrow> u8 list \<Rightarrow> u8 list" where
  "field_bytes cs sl dl h = tf_bytes h @ nh_bytes h @ ttl_bytes h @ snd (snd (src_enc cs sl h)) @ snd (snd (dest_enc cs dl h))"

lemma compress_fields_cst:
  assumes "room s m base 45"
    and "addr_context_lookup_by_prefix cs (h_srcipaddr h) \<noteq> None \<Longrightarrow> base = packetbuf_ptr s + 3"
    and "addr_context_lookup_by_prefix cs (h_destipaddr h) \<noteq> None \<Longrightarrow> base = packetbuf_ptr s + 3"
  shows "compress_fields cs sl dl h i (cst s m 0 base []) = Some
    (0x60 OR tf_flags h OR nh_flag h OR ttl_flag h, i OR fst (src_enc cs sl h) OR fst (dest_enc cs dl h),
     cst s m (fst (snd (src_enc cs sl h)) OR fst (snd (dest_enc cs dl h))) base (field_bytes cs sl dl h))"
proof -
  obtain f k xs where x: "src_enc cs sl h = (f, k, xs)" by (metis prod_cases3)
  obtain g j ys where y: "dest_enc cs dl h = (g, j, ys)" by (metis prod_cases3)
  let ?t = "tf_bytes h" and ?n = "nh_bytes h" and ?l = "ttl_bytes h" and ?i = "0x60 OR tf_flags h"
  note len = tf_bytes_length [of h] nh_bytes_length [of h] ttl_bytes_length [of h] src_enc_length [OF x] dest_enc_length [OF y]
  have "?i AND 4 = 0" by (simp add: tf_flags_def)
  then have nh: "compress_nh h (?i, cst s m 0 base ?t) = Some (?i OR nh_flag h, cst s m 0 base (?t @ ?n))"
    using len by (intro compress_nh_cst room_mono [OF assms(1)]) simp_all
  have tf: "compress_tf h (0x60, cst s m 0 base []) = Some (?i, cst s m 0 base ([] @ ?t))"
    by (intro compress_tf_cst room_mono [OF assms(1)]) simp
  have ttl: "compress_ttl h (?i OR nh_flag h, cst s m 0 base (?t @ ?n)) =
      Some ((?i OR nh_flag h) OR ttl_flag h, cst s m 0 base ((?t @ ?n) @ ?l))"
    using len by (intro compress_ttl_cst room_mono [OF assms(1)]) simp
  have src: "compress_src cs sl h (i, cst s m 0 base ((?t @ ?n) @ ?l)) =
      (case src_enc cs sl h of (f, k, xs) \<Rightarrow> Some (i OR f, cst s m (0 OR k) base (((?t @ ?n) @ ?l) @ xs)))"
    using len assms(2) by (intro compress_src_cst room_mono [OF assms(1)]) simp_all
  have dst: "compress_dest cs dl h (i OR f, cst s m (0 OR k) base (((?t @ ?n) @ ?l) @ xs)) =
      (case dest_enc cs dl h of (g, j, ys) \<Rightarrow> Some ((i OR f) OR g, cst s m ((0 OR k) OR j) base ((((?t @ ?n) @ ?l) @ xs) @ ys)))"
    using len assms(3) by (intro compress_dest_cst room_mono [OF assms(1)]) simp_all
  show ?thesis using tf nh ttl src dst
    by (simp add: compress_fields_def field_bytes_def x y or.assoc)
qed

lemma field_bytes_length: "length (field_bytes cs sl dl h) \<le> 38"
proof -
  obtain f k xs where x: "src_enc cs sl h = (f, k, xs)" by (metis prod_cases3)
  obtain g j ys where y: "dest_enc cs dl h = (g, j, ys)" by (metis prod_cases3)
  show ?thesis
    using tf_bytes_length [of h] nh_bytes_length [of h] ttl_bytes_length [of h] src_enc_length [OF x] dest_enc_length [OF y]
    by (simp add: field_bytes_def x y)
qed

lemma inline_bytes_fields:
  "inline_bytes cs sl dl h = field_bytes cs sl dl h @ (if h_proto h = UIP_PROTO_UDP then udp_bytes h else [])"
  by (simp add: inline_bytes_def field_bytes_def)

lemma inline_bytes_nonempty: "inline_bytes cs sl dl h \<noteq> []"
  by (simp add: inline_bytes_def nh_bytes_def udp_bytes_def Let_def)

lemma compress_hdr_iphc_fields:
  "compress_hdr_iphc cs sl dl h s = do {
     s \<leftarrow> poke (packetbuf_ptr s + unat (packetbuf_hdr_len s) + 2) 0 (s\<lparr>hc06_ptr := packetbuf_ptr s + 2\<rparr>);
     (iphc0, iphc1, s) \<leftarrow> compress_fields cs sl dl h (if has_cid cs h then 0x80 else 0)
       (if has_cid cs h then s\<lparr>hc06_ptr := hc06_ptr s + 1\<rparr> else s);
     let s = s\<lparr>uncomp_hdr_len := 40\<rparr>;
     s \<leftarrow> (if h_proto h = UIP_PROTO_UDP then do { s \<leftarrow> compress_udp h s; Some (s\<lparr>uncomp_hdr_len := uncomp_hdr_len s + 8\<rparr>) } else Some s);
     s \<leftarrow> poke (PACKETBUF_IPHC_BUF s 0) iphc0 s;
     s \<leftarrow> poke (PACKETBUF_IPHC_BUF s 1) iphc1 s;
     Some (s\<lparr>packetbuf_hdr_len := of_nat (hc06_ptr s - packetbuf_ptr s)\<rparr>)
   }"
  by (simp add: compress_hdr_iphc_def compress_fields_def has_cid_def iphc_consts PACKETBUF_IPHC_BUF_def Let_def
      Option.bind_assoc case_prod_unfold cong: if_cong)

lemma compress_udp_end:
  assumes "room s m base 45"
  shows "(if h_proto h = UIP_PROTO_UDP then do {
      s \<leftarrow> compress_udp h ((cst s m c base (field_bytes cs sl dl h))\<lparr>uncomp_hdr_len := 40\<rparr>); Some (s\<lparr>uncomp_hdr_len := uncomp_hdr_len s + 8\<rparr>) }
    else Some ((cst s m c base (field_bytes cs sl dl h))\<lparr>uncomp_hdr_len := 40\<rparr>)) =
    Some (cst (s\<lparr>uncomp_hdr_len := if h_proto h = UIP_PROTO_UDP then 48 else 40\<rparr>) m c base (inline_bytes cs sl dl h))"
proof -
  have c: "(cst s m c base bs)\<lparr>uncomp_hdr_len := n\<rparr> = cst (s\<lparr>uncomp_hdr_len := n\<rparr>) m c base bs" for bs n
    by (simp add: cst_def)
  have "room (s\<lparr>uncomp_hdr_len := 40\<rparr>) m base (length (field_bytes cs sl dl h) + 7)"
    using assms field_bytes_length [of cs sl dl h] by (simp add: room_def)
  from compress_udp_cst [OF this, of h c] show ?thesis
    unfolding c by (simp add: inline_bytes_fields cst_def)
qed

lemma put_header:
  assumes "base = p + 2 + (if cid then 1 else 0)" and "bs \<noteq> []"
  shows "put (put (put (put m (p + 2) [c]) base bs) p [i]) (p + 1) [j] = put m p (i # j # (if cid then [c] else []) @ bs)"
proof -
  have s: "put (put (put X Y Z) p [i]) (p + 1) [j] = put (put (put X p [i]) (p + 1) [j]) Y Z" if "p + 2 \<le> Y" for X Y Z
    using that by (subst put_before; simp)+
  have "p + 2 \<le> base" using assms(1) by simp
  from s [OF this, of "put m (p + 2) [c]" bs] s [of "p + 2" m "[c]"]
  have "put (put (put (put m (p + 2) [c]) base bs) p [i]) (p + 1) [j] =
      put (put (put (put m p [i]) (p + 1) [j]) (p + 2) [c]) base bs" by simp
  also have "\<dots> = put m p (i # j # (if cid then [c] else []) @ bs)"
  proof (cases cid)
    case True
    then show ?thesis using assms(1) by (simp add: put_Cons)
  next
    case False
    obtain b cs where "bs = b # cs" using assms(2) by (cases bs) auto
    then show ?thesis using False assms(1) by (simp add: put_Cons)
  qed
  finally show ?thesis .
qed

lemma compress_hdr_iphc_put:
  assumes "accessible (packetbuf s) (packetbuf_ptr s) 48" and "packetbuf_hdr_len s = 0"
  shows "compress_hdr_iphc cs sl dl h s = Some (s\<lparr>packetbuf := put (packetbuf s) (packetbuf_ptr s) (iphc_bytes cs sl dl h),
    hc06_ptr := packetbuf_ptr s + length (iphc_bytes cs sl dl h), packetbuf_hdr_len := of_nat (length (iphc_bytes cs sl dl h)),
    uncomp_hdr_len := if h_proto h = UIP_PROTO_UDP then 48 else 40\<rparr>) \<and> length (iphc_bytes cs sl dl h) \<le> 48"
proof -
  let ?m = "packetbuf s" and ?p = "packetbuf_ptr s"
  define base where "base = ?p + 2 + (if has_cid cs h then 1 else 0)"
  define c where "c = fst (snd (src_enc cs sl h)) OR fst (snd (dest_enc cs dl h))"
  let ?i0 = "0x60 OR tf_flags h OR nh_flag h OR ttl_flag h"
  let ?i1 = "(if has_cid cs h then 0x80 else 0) OR fst (src_enc cs sl h) OR fst (dest_enc cs dl h)"
  let ?s = "s\<lparr>uncomp_hdr_len := if h_proto h = UIP_PROTO_UDP then 48 else 40\<rparr>" and ?il = "inline_bytes cs sl dl h"
  have room: "room s ?m base 45" using assms by (simp add: room_def base_def)
  have "accessible ?m (?p + 2) 1" by (rule accessible_mono [OF assms(1)]) simp_all
  then have start: "poke (?p + unat (packetbuf_hdr_len s) + 2) 0 (s\<lparr>hc06_ptr := ?p + 2\<rparr>) =
      Some (s\<lparr>hc06_ptr := ?p + 2, packetbuf := put ?m (?p + 2) [0]\<rparr>)"
    using assms(2) by (simp add: poke_def store_put accessible_def)
  let ?S = "s\<lparr>hc06_ptr := ?p + 2, packetbuf := put ?m (?p + 2) [0]\<rparr>"
  have init: "(if has_cid cs h then ?S\<lparr>hc06_ptr := hc06_ptr ?S + 1\<rparr> else ?S) = cst s ?m 0 base []"
    by (simp add: cst_def base_def)
  have fields: "compress_fields cs sl dl h (if has_cid cs h then 0x80 else 0) (cst s ?m 0 base []) =
      Some (?i0, ?i1, cst s ?m c base (field_bytes cs sl dl h))"
    unfolding c_def by (rule compress_fields_cst [OF room]) (auto simp: base_def has_cid_def)
  have acc: "accessible (put (put ?m (?p + 2) [c]) base ?il) ?p 48"
  proof -
    have "accessible ?m (?p + 2) 1" "accessible ?m base (length ?il)"
      using inline_bytes_length [of cs sl dl h] by (intro accessible_mono [OF assms(1)]; simp add: base_def)+
    then show ?thesis using assms(1) by (simp add: accessible_put)
  qed
  then have *: "put (put ?m (?p + 2) [c]) base ?il ?p \<noteq> None" "put (put ?m (?p + 2) [c]) base ?il (?p + 1) \<noteq> None"
    using accessible_mono [OF acc, of ?p 1] accessible_mono [OF acc, of "?p + 1" 1] by (simp_all add: accessible_def)
  let ?c = "cst ?s ?m c base ?il" and ?b = "iphc_bytes cs sl dl h"
  let ?c1 = "?c\<lparr>packetbuf := put (put (put ?m (?p + 2) [c]) base ?il) ?p [?i0]\<rparr>"
  have b: "?b = ?i0 # ?i1 # (if has_cid cs h then [c] else []) @ ?il" by (simp add: iphc_bytes_def c_def)
  have buf: "PACKETBUF_IPHC_BUF ?c 0 = ?p" "PACKETBUF_IPHC_BUF ?c1 1 = ?p + 1"
    using assms(2) by (simp_all add: PACKETBUF_IPHC_BUF_def cst_def)
  have poke0: "poke ?p ?i0 ?c = Some ?c1" using * by (simp add: poke_def store_put cst_def)
  have "put (put (put ?m (?p + 2) [c]) base ?il) ?p [?i0] (?p + 1) \<noteq> None" using * by (simp add: put_def)
  then have poke1: "poke (?p + 1) ?i1 ?c1 = Some (?c\<lparr>packetbuf := put ?m ?p ?b\<rparr>)"
    using put_header [OF base_def inline_bytes_nonempty, of ?m c cs sl dl h ?i0 ?i1] unfolding b
    by (simp add: poke_def store_put)
  have len: "base + length ?il = ?p + length (iphc_bytes cs sl dl h)" by (simp add: base_def iphc_bytes_def)
  have "compress_hdr_iphc cs sl dl h s = Some (?c\<lparr>packetbuf := put ?m ?p ?b, packetbuf_hdr_len := of_nat (base + length ?il - ?p)\<rparr>)"
    unfolding compress_hdr_iphc_fields start Option.bind.bind_lunit init fields prod.case Let_def compress_udp_end [OF room]
      buf poke0 poke1 by (simp add: cst_def)
  then show ?thesis using len iphc_bytes_length [of cs sl dl h] by (simp add: cst_def)
qed

text \<open>
  C32: Compression writes exactly the compressed form of the header at the start of the packet buffer, at most 48 bytes, and sets
  the lengths of the compressed and of the uncompressed header. No other byte of the buffer changes.
\<close>

theorem compress_hdr_iphc_exact:
  assumes "accessible (packetbuf s) (packetbuf_ptr s) 48" and "packetbuf_hdr_len s = 0"
  shows "compress_hdr_iphc cs sl dl h s = Some (s\<lparr>packetbuf := put (packetbuf s) (packetbuf_ptr s) (iphc_bytes cs sl dl h),
    hc06_ptr := packetbuf_ptr s + length (iphc_bytes cs sl dl h), packetbuf_hdr_len := of_nat (length (iphc_bytes cs sl dl h)),
    uncomp_hdr_len := if h_proto h = UIP_PROTO_UDP then 48 else 40\<rparr>) \<and> length (iphc_bytes cs sl dl h) \<le> 48"
  by (rule compress_hdr_iphc_put [OF assms])

end
