(* ===== verification/Iphc_Roundtrip.thy ===== *)
theory Iphc_Roundtrip
  imports Iphc_Encode
begin

section \<open>Decompressing what was compressed\<close>

text \<open>
  Each step of \<open>uncompress_hdr_iphc\<close> reads the bytes its counterpart wrote and puts the same field into the IP buffer, so the
  header read is the header written, for headers of version 6. The one exception is part of the result: a source address whose prefix
  was dropped though it is not the link-local prefix.
\<close>

subsection \<open>Bits\<close>

lemma u8_bits:
  "(a :: u8) = b \<longleftrightarrow> bit a 0 = bit b 0 \<and> bit a 1 = bit b 1 \<and> bit a 2 = bit b 2 \<and> bit a 3 = bit b 3 \<and>
     bit a 4 = bit b 4 \<and> bit a 5 = bit b 5 \<and> bit a 6 = bit b 6 \<and> bit a 7 = bit b 7"
proof -
  have "bit a n = bit b n" if b: "bit a 0 = bit b 0" "bit a 1 = bit b 1" "bit a 2 = bit b 2" "bit a 3 = bit b 3"
     "bit a 4 = bit b 4" "bit a 5 = bit b 5" "bit a 6 = bit b 6" "bit a 7 = bit b 7" and "n < 8" for n
  proof -
    have "n = 0 \<or> n = 1 \<or> n = 2 \<or> n = 3 \<or> n = 4 \<or> n = 5 \<or> n = 6 \<or> n = 7" using \<open>n < 8\<close> by linarith
    then show ?thesis using b by (elim disjE) (simp_all only:)
  qed
  then have "a = b" if "bit a 0 = bit b 0" "bit a 1 = bit b 1" "bit a 2 = bit b 2" "bit a 3 = bit b 3"
     "bit a 4 = bit b 4" "bit a 5 = bit b 5" "bit a 6 = bit b 6" "bit a 7 = bit b 7"
    using that by (intro bit_word_eqI) simp
  then show ?thesis by blast
qed

lemma u8_no_bit: "8 \<le> n \<Longrightarrow> \<not> bit (w :: u8) n"
  using bit_imp_le_length [of w n] by auto

lemmas u8_bit_simps = bit_and_iff bit_or_iff bit_xor_iff bit_push_bit_iff bit_drop_bit_eq u8_no_bit

lemma iphc_tmp_vtc: "drop_bit 4 (h ! 0) = 6 \<Longrightarrow> 0x60 OR drop_bit 2 (iphc_tmp h) AND 0x0f = h ! 0"
  unfolding u8_bits iphc_tmp_def Let_def by (simp add: u8_bit_simps)

lemma iphc_tmp_tcflow:
  "drop_bit 2 (iphc_tmp h) AND 0x30 OR push_bit 6 (iphc_tmp h) OR h ! 1 AND 0x0f = h ! 1"
  unfolding u8_bits iphc_tmp_def Let_def by (simp add: u8_bit_simps)

lemma iphc_tmp_no_tc:
  "h ! 1 AND 0xF0 = 0 \<Longrightarrow> b = iphc_tmp h AND 0xc0 OR h ! 1 AND 0x0F \<Longrightarrow> b AND 0x0F OR drop_bit 2 b AND 0x30 = h ! 1"
  unfolding u8_bits iphc_tmp_def Let_def by (simp add: u8_bit_simps)

lemma iphc_tmp_no_flow: "h ! 1 AND 0x0F = 0 \<Longrightarrow> push_bit 6 (iphc_tmp h) AND 0xC0 OR drop_bit 2 (iphc_tmp h) AND 0x30 = h ! 1"
  unfolding u8_bits iphc_tmp_def Let_def by (simp add: u8_bit_simps)

lemma vtc_no_tc: "drop_bit 4 v = 6 \<Longrightarrow> v AND 0x0F = 0 \<Longrightarrow> v = 0x60" for v :: u8
  unfolding u8_bits by (simp add: u8_bit_simps)

lemma tcflow_zero: "t AND 0x0F = 0 \<Longrightarrow> t AND 0xF0 = 0 \<Longrightarrow> t = 0" for t :: u8
  unfolding u8_bits by (simp add: u8_bit_simps)

subsection \<open>Steps\<close>

declare store_list.simps [simp del] load_list.simps [simp del]

lemma store_list_buf: "accessible buf 0 n \<Longrightarrow> p + length vs \<le> n \<Longrightarrow> store_list buf p vs = Some (put buf p vs)"
  by (rule store_list_put) (rule accessible_mono, auto)

lemma store_buf: "accessible buf 0 n \<Longrightarrow> p < n \<Longrightarrow> store buf p v = Some (put buf p [v])"
  by (rule store_put) (simp add: accessible_def)

lemma accessible_put_buf: "accessible buf 0 n \<Longrightarrow> p + length vs \<le> n \<Longrightarrow> accessible (put buf p vs) 0 n"
  by (subst accessible_put) (auto intro: accessible_mono)

lemmas buf_simps = store_list_buf [where n = 48] store_buf [where n = 48] accessible_put_buf [where n = 48]

lemma load_bytes: "bytes_at m p vs \<Longrightarrow> n = length vs \<Longrightarrow> load_list m p n = Some vs"
  by (simp add: load_list_bytes)

text \<open>A field that is four bytes, written in pieces.\<close>

lemma put_pieces:
  "put (put (put buf 1 [a, b, c]) 0 [x]) 1 [y] = put buf 0 [x, y, b, c]"
  "put (put (put buf 0 [x]) 1 [y]) 2 [b, c] = put buf 0 [x, y, b, c]"
  "put (put (put (put buf 0 [x]) 1 [y]) 2 [b]) 3 [c] = put buf 0 [x, y, b, c]"
  by (simp_all add: put_Cons fun_upd_twist numeral_2_eq_2 numeral_3_eq_3)

lemmas put_piece_simps = put_pieces put_pieces [unfolded One_nat_def]

lemma take_4: "length h = 48 \<Longrightarrow> take 4 h = [h ! 0, h ! 1, h ! 2, h ! 3]"
  by (rule nth_equalityI) (auto simp: less_Suc_eq numeral_eq_Suc)

definition tf_elided :: "u8 list \<Rightarrow> bool" where "tf_elided h \<longleftrightarrow> h_vtc h AND 0x0F = 0 \<and> h_tcflow h AND 0xF0 = 0"
definition fl_elided :: "u8 list \<Rightarrow> bool" where "fl_elided h \<longleftrightarrow> h_tcflow h AND 0x0F = 0 \<and> h_flow h = [0, 0]"

lemma uncompress_tf_step:
  assumes "bytes_at (packetbuf s) (hc06_ptr s) (tf_bytes h)" and "drop_bit 4 (h ! 0) = 6" and "length h = 48"
    and "accessible buf 0 48" and "i AND 0x10 = 0 \<longleftrightarrow> \<not> fl_elided h" and "i AND 0x08 = 0 \<longleftrightarrow> \<not> tf_elided h"
  shows "uncompress_tf i (s, buf) = Some (advance (length (tf_bytes h)) s, put buf 0 (take 4 h))"
proof (cases "fl_elided h")
  case True
  then have f: "h ! 1 AND 0x0F = 0" "h ! 2 = 0" "h ! 3 = 0" by (simp_all add: fl_elided_def)
  show ?thesis
  proof (cases "tf_elided h")
    case True
    then have t: "h ! 0 = 0x60" "h ! 1 = 0" using vtc_no_tc [OF assms(2)] tcflow_zero [OF f(1)] by (simp_all add: tf_elided_def)
    have "tf_bytes h = []" using True \<open>fl_elided h\<close> by (auto simp: tf_bytes_def tf_elided_def fl_elided_def Let_def)
    then show ?thesis using assms(4-6) True \<open>fl_elided h\<close> t f
      by (simp add: uncompress_tf_def iphc_consts buf_simps put_piece_simps take_4 [OF assms(3)] advance_def)
  next
    case False
    then have b: "tf_bytes h = [iphc_tmp h]" using \<open>fl_elided h\<close> by (auto simp: tf_bytes_def tf_elided_def fl_elided_def Let_def)
    then have "at_ptr s 0 = Some (iphc_tmp h)" using assms(1) by (simp add: at_ptr_def bytes_at_Cons)
    then show ?thesis using assms(4-6) False \<open>fl_elided h\<close> b f iphc_tmp_no_flow [OF f(1)] iphc_tmp_vtc [OF assms(2)]
      by (simp add: uncompress_tf_def iphc_consts buf_simps put_piece_simps take_4 [OF assms(3)] advance_def)
  qed
next
  case False
  show ?thesis
  proof (cases "tf_elided h")
    case True
    let ?b = "iphc_tmp h AND 0xc0 OR h ! 1 AND 0x0F"
    have b: "tf_bytes h = [?b, h ! 2, h ! 3]" using True False by (auto simp: tf_bytes_def tf_elided_def fl_elided_def Let_def)
    have t: "h ! 0 = 0x60" "?b AND 0x0F OR drop_bit 2 ?b AND 0x30 = h ! 1"
      using True vtc_no_tc [OF assms(2)] iphc_tmp_no_tc [of h ?b] by (simp_all only: tf_elided_def)
    have "at_ptr s 0 = Some ?b" "load_list (packetbuf s) (Suc (hc06_ptr s)) 2 = Some [h ! 2, h ! 3]"
      using assms(1) b by (simp_all add: at_ptr_def bytes_at_Cons load_bytes)
    then show ?thesis using assms(4-6) True False b t
      by (simp add: uncompress_tf_def iphc_consts buf_simps put_piece_simps take_4 [OF assms(3)] advance_def)
  next
    case False
    then have b: "tf_bytes h = [iphc_tmp h, h ! 1, h ! 2, h ! 3]"
      using \<open>\<not> fl_elided h\<close> by (auto simp: tf_bytes_def tf_elided_def fl_elided_def Let_def)
    have "at_ptr s 0 = Some (iphc_tmp h)" "load_list (packetbuf s) (Suc (hc06_ptr s)) 3 = Some [h ! 1, h ! 2, h ! 3]"
      using assms(1) b by (simp_all add: at_ptr_def bytes_at_Cons load_bytes)
    moreover have "put (put buf (Suc 0) [h ! 1, h ! 2, h ! 3]) 0 [h ! 0] (Suc 0) = Some (h ! 1)" by (simp add: put_def)
    ultimately show ?thesis using assms(4-6) False \<open>\<not> fl_elided h\<close> b iphc_tmp_vtc [OF assms(2)] iphc_tmp_tcflow [of h]
      by (simp add: uncompress_tf_def iphc_consts buf_simps put_piece_simps take_4 [OF assms(3)] advance_def)
  qed
qed

lemma uncompress_nh_step:
  assumes "bytes_at (packetbuf s) (hc06_ptr s) (nh_bytes h)" and "accessible buf 0 48"
    and "i AND 0x04 = 0 \<longleftrightarrow> h_proto h \<noteq> UIP_PROTO_UDP"
  shows "uncompress_nh i (s, buf) = Some (advance (length (nh_bytes h)) s, if h_proto h = UIP_PROTO_UDP then buf else put buf 6 [h_proto h])"
  using assms by (auto simp: uncompress_nh_def nh_bytes_def iphc_consts at_ptr_def bytes_at_Cons buf_simps advance_def)

lemma uncompress_ttl_step:
  assumes "bytes_at (packetbuf s) (hc06_ptr s) (ttl_bytes h)" and "accessible buf 0 48" and "i AND 0x03 = ttl_flag h"
  shows "uncompress_ttl i (s, buf) = Some (advance (length (ttl_bytes h)) s, put buf 7 [h_ttl h])"
  using assms by (auto simp: uncompress_ttl_def ttl_bytes_def ttl_flag_def iphc_consts at_ptr_def bytes_at_Cons buf_simps advance_def split: if_splits)

text \<open>An address put together from a prefix, zeros and bytes of the packet, or the link-layer address.\<close>

lemma put_put_append: "put (put m p xs) (p + length xs) ys = put m p (xs @ ys)"
  by (simp add: put_append)

lemma put_inner: "k + length ys \<le> length xs \<Longrightarrow> put (put m p xs) (p + k) ys = put m p (take k xs @ ys @ drop (k + length ys) xs)"
proof (rule ext)
  fix q
  assume k: "k + length ys \<le> length xs"
  consider "q < p" | i where "q = p + i" by (metis le_add_diff_inverse not_le)
  then show "put (put m p xs) (p + k) ys q = put m p (take k xs @ ys @ drop (k + length ys) xs) q"
  proof cases
    case 2
    then show ?thesis using k by (auto simp: put_def nth_append)
  qed (simp add: put_def)
qed

lemma uncompress_addr_iid:
  assumes "n = nibble (drop_bit 4 pc)" and "nibble (pc AND 0x0f) = 0" and "0 < n" and "n \<le> 8" and "n \<le> length prefix"
    and "length l = 8" and "accessible buf 0 48" and "p + 16 \<le> 48"
  shows "uncompress_addr s buf p prefix pc l =
    Some (s, put buf p (take n prefix @ replicate (8 - n) 0 @ (l ! 0 XOR 2) # drop 1 l))"
proof -
  have a: "accessible buf p n" "accessible buf (p + n) (16 - n)" "accessible buf (p + 8) 8" "accessible buf p 16"
    using assms(4,8) by (intro accessible_mono [OF assms(7)]; simp)+
  let ?b1 = "put buf p (take n prefix @ replicate (16 - n) 0)"
  have b1: "put (put buf p (take n prefix)) (p + n) (replicate (16 - n) 0) = ?b1"
    using put_put_append [of buf p "take n prefix" "replicate (16 - n) 0"] assms(5) by simp
  have "accessible ?b1 p 16" using a(4) assms(4,5) by simp
  then have a2: "accessible ?b1 (p + 8) 8" by (rule accessible_mono) simp_all
  have b2: "put ?b1 (p + 8) l = put buf p (take n prefix @ replicate (8 - n) 0 @ l)"
    using assms(4-6) by (subst put_inner) (simp_all add: min_absorb2)
  obtain x xs where l: "l = x # xs" "length xs = 7" using assms(6) by (cases l) auto
  have r: "put buf p (take n prefix @ replicate (8 - n) 0 @ l) (p + 8) = Some x"
    using assms(4-6) by (simp add: put_def nth_append l)
  have b3: "put (put buf p (take n prefix @ replicate (8 - n) 0 @ l)) (p + 8) [x XOR 2] =
      put buf p (take n prefix @ replicate (8 - n) 0 @ (x XOR 2) # xs)"
    using assms(4,5) by (subst put_inner) (simp_all add: l)
  show ?thesis
    using assms(1-6) a a2 b1 b2 r b3
    by (simp add: uncompress_addr_def uip_ds6_set_addr_iid_def store_list_put store_put l Let_def)
qed

text \<open>The zeros in the middle of an address are not written when there are none.\<close>

lemma store_zeros:
  "(if 0 < k then store_list buf p (replicate k 0) else Some buf) = store_list buf p (replicate k 0)"
  by (simp add: store_list.simps)

lemma uncompress_addr_bytes:
  assumes "n = nibble (drop_bit 4 pc)" and "nibble (pc AND 0x0f) = length bs" and "0 < length bs" and "n + length bs \<le> 16"
    and "n \<le> length prefix" and "bytes_at (packetbuf s) (hc06_ptr s) bs" and "accessible buf 0 48" and "p + 16 \<le> 48"
    and "length bs = 2 \<Longrightarrow> n \<le> 8"
  shows "uncompress_addr s buf p prefix pc l = Some (advance (length bs) s, put buf p (take n prefix @
    (if length bs = 2 then replicate (11 - n) 0 @ [0xff, 0xfe, 0] else replicate (16 - n - length bs) 0) @ bs))"
proof -
  let ?k = "length bs"
  have a: "accessible buf p n" "accessible buf (p + n) (16 - (n + ?k))" "accessible buf p 16"
    using assms(4,8) by (intro accessible_mono [OF assms(7)]; simp)+
  let ?z = "take n prefix @ replicate (16 - (n + ?k)) 0"
  have b1: "put (put buf p (take n prefix)) (p + n) (replicate (16 - (n + ?k)) 0) = put buf p ?z"
    using put_put_append [of buf p "take n prefix" "replicate (16 - (n + ?k)) 0"] assms(5) by simp
  have lz: "length ?z = 16 - ?k" using assms(4,5) by simp
  have "accessible buf p (length ?z)" unfolding lz by (rule accessible_mono [OF a(3)]) simp_all
  then have "accessible (put buf p ?z) p 16" using a(3) by (subst accessible_put)
  then have a2: "accessible (put buf p ?z) (p + (16 - ?k)) ?k" by (rule accessible_mono) (use assms(4) in simp_all)
  have b2: "put (put buf p ?z) (p + (16 - ?k)) bs = put buf p (?z @ bs)"
    using put_put_append [of buf p ?z bs] unfolding lz .
  have a3: "accessible (put buf p (?z @ bs)) (p + 11) 2"
  proof -
    have "length (?z @ bs) = 16" using lz assms(4) by simp
    then have "accessible (put buf p (?z @ bs)) p 16" using a(3) by (subst accessible_put) (simp_all only:)
    then show ?thesis by (rule accessible_mono) simp_all
  qed
  have b3: "put (put buf p (?z @ bs)) (p + 11) [0xff, 0xfe] = put buf p (take n prefix @ replicate (11 - n) 0 @ [0xff, 0xfe, 0] @ bs)"
    if "?k = 2"
  proof -
    have n: "n \<le> 8" using assms(9) that .
    then have "take 11 (?z @ bs) = take n prefix @ replicate (11 - n) 0" "drop 13 (?z @ bs) = 0 # bs"
      using assms(5) that by (simp_all add: min_absorb2 numeral_2_eq_2 numeral_3_eq_3 Suc_diff_le)
    then show ?thesis using n assms(5) that by (subst put_inner) simp_all
  qed
  have s3: "store_list (put buf p (?z @ bs)) (p + 11) [0xff, 0xfe] = Some (put (put buf p (?z @ bs)) (p + 11) [0xff, 0xfe])"
    using a3 by (intro store_list_put) (simp add: numeral_2_eq_2)
  have zeros: "(if n + ?k < 16 then store_list (put buf p (take n prefix)) (p + n) (replicate (16 - (n + ?k)) 0) else Some (put buf p (take n prefix)))
      = Some (put buf p ?z)"
  proof -
    have "accessible (put buf p (take n prefix)) (p + n) (16 - (n + ?k))" using a(1,2) assms(5) by (subst accessible_put) (simp_all add: min_absorb2)
    then have "store_list (put buf p (take n prefix)) (p + n) (replicate (16 - (n + ?k)) 0) = Some (put buf p ?z)"
      using b1 by (subst store_list_put) simp_all
    then show ?thesis using assms(4) store_list.simps(1) by (cases "n + ?k < 16") simp_all
  qed
  have prefix: "(if 0 < n then store_list buf p (take n prefix) else Some buf) = Some (put buf p (take n prefix))"
    using a(1) assms(5) by (simp add: store_list_put min_absorb2)
  have load: "load_list (packetbuf s) (hc06_ptr s) ?k = Some bs" by (rule load_bytes [OF assms(6) refl])
  show ?thesis
    using assms(3,9) a2 b2 s3 b3
    unfolding uncompress_addr_def Let_def assms(1) [symmetric] assms(2) prefix Option.bind.bind_lunit zeros load
    by (auto simp: assms(5) not_less store_list_put diff_diff_left)
qed

lemma addr_split:
  assumes "length a = 16"
  shows "a = take 8 a @ [a ! 8, a ! 9, a ! 10, a ! 11, a ! 12, a ! 13, a ! 14, a ! 15]"
    and "a = [a ! 0, a ! 1, a ! 2, a ! 3, a ! 4, a ! 5, a ! 6, a ! 7, a ! 8, a ! 9, a ! 10, a ! 11, a ! 12, a ! 13, a ! 14, a ! 15]"
proof -
  let ?t = "[a ! 8, a ! 9, a ! 10, a ! 11, a ! 12, a ! 13, a ! 14, a ! 15]"
  have "drop 8 a = ?t" using assms by (intro nth_equalityI) (auto simp: less_Suc_eq numeral_eq_Suc)
  then show t: "a = take 8 a @ ?t" by (metis append_take_drop_id)
  have "take 8 a = [a ! 0, a ! 1, a ! 2, a ! 3, a ! 4, a ! 5, a ! 6, a ! 7]"
    using assms by (intro nth_equalityI) (auto simp: less_Suc_eq numeral_eq_Suc)
  then show "a = [a ! 0, a ! 1, a ! 2, a ! 3, a ! 4, a ! 5, a ! 6, a ! 7, a ! 8, a ! 9, a ! 10, a ! 11, a ! 12, a ! 13, a ! 14, a ! 15]"
    using t by (metis append_Cons append_Nil)
qed

lemma list_8: "length l = 8 \<Longrightarrow> l = [l ! 0, l ! 1, l ! 2, l ! 3, l ! 4, l ! 5, l ! 6, l ! 7]"
  by (intro nth_equalityI) (auto simp: less_Suc_eq numeral_eq_Suc)

lemma tail_2: "length a = 16 \<Longrightarrow> take 2 (drop 14 a) = [a ! 14, a ! 15]"
  by (intro nth_equalityI) (auto simp: less_Suc_eq numeral_eq_Suc)

lemma tail_8: "length a = 16 \<Longrightarrow> take 8 (drop 8 a) = drop 8 a"
  by simp

lemma uncompress_iid:
  assumes "length a = 16" and "length l = 8" and "take n prefix @ replicate (8 - n) 0 = take 8 a" and "0 < n" and "n \<le> 8"
    and "n \<le> length prefix" and "nibble (drop_bit 4 pc) = n"
    and "nibble (pc AND 0x0f) = (if iid_mode a l = 3 then 0 else if iid_mode a l = 2 then 2 else 8)"
    and "bytes_at (packetbuf s) (hc06_ptr s) (iid_bytes a l)" and "accessible buf 0 48" and "p + 16 \<le> 48"
  shows "uncompress_addr s buf p prefix pc l = Some (advance (length (iid_bytes a l)) s, put buf p a)"
proof -
  consider "uip_is_addr_mac_addr_based a l" | "\<not> uip_is_addr_mac_addr_based a l" "sicslowpan_is_iid_16_bit_compressable a"
    | "\<not> uip_is_addr_mac_addr_based a l" "\<not> sicslowpan_is_iid_16_bit_compressable a" by blast
  then show ?thesis
  proof cases
    case 1
    then have b: "iid_bytes a l = []" and m: "iid_mode a l = 3" by (simp_all add: iid_bytes_def iid_mode_def)
    have "drop 1 l = [l ! 1, l ! 2, l ! 3, l ! 4, l ! 5, l ! 6, l ! 7]" by (subst list_8 [OF assms(2)]) simp
    then have "(l ! 0 XOR 2) # drop 1 l = [a ! 8, a ! 9, a ! 10, a ! 11, a ! 12, a ! 13, a ! 14, a ! 15]"
      using 1 by (simp add: uip_is_addr_mac_addr_based_def)
    then have "take n prefix @ replicate (8 - n) 0 @ (l ! 0 XOR 2) # drop 1 l = a"
      using addr_split(1) [OF assms(1)] assms(3) by (metis append_assoc)
    then show ?thesis using uncompress_addr_iid [OF assms(7) [symmetric] _ assms(4,5,6,2,10,11), of s] assms(8) m b
      by (simp add: advance_def)
  next
    case 2
    then have b: "iid_bytes a l = [a ! 14, a ! 15]" and m: "iid_mode a l = 2"
      using tail_2 [OF assms(1)] by (simp_all add: iid_bytes_def iid_mode_def)
    have k: "length (iid_bytes a l) = 2" by (simp add: b)
    have "11 - n = 8 - n + 3" using assms(5) by simp
    then have "replicate (11 - n) (0 :: u8) = replicate (8 - n) 0 @ replicate 3 0" by (simp only: replicate_add)
    also have "replicate 3 (0 :: u8) = [0, 0, 0]" by (simp add: numeral_3_eq_3)
    finally have "replicate (11 - n) (0 :: u8) = replicate (8 - n) 0 @ [0, 0, 0]" .
    moreover have "a ! 8 = 0" "a ! 9 = 0" "a ! 10 = 0" "a ! 11 = 0xff" "a ! 12 = 0xfe" "a ! 13 = 0"
      using 2(2) by (simp_all add: sicslowpan_is_iid_16_bit_compressable_def u16_zero_def)
    ultimately have "take n prefix @ (replicate (11 - n) 0 @ [0xff, 0xfe, 0]) @ iid_bytes a l = a"
      using addr_split(1) [OF assms(1)] assms(3) b by (metis append_assoc append_Cons append_Nil)
    then show ?thesis using uncompress_addr_bytes [OF assms(7) [symmetric] _ _ _ assms(6,9,10,11), of l] assms(5,8) m k
      by simp
  next
    case 3
    then have b: "iid_bytes a l = drop 8 a" and m: "iid_mode a l = 1"
      using assms(1) by (simp_all add: iid_bytes_def iid_mode_def)
    have k: "length (iid_bytes a l) = 8" using b assms(1) by simp
    have "take n prefix @ replicate (8 - n) 0 @ iid_bytes a l = a"
      using assms(3) b by (metis append_assoc append_take_drop_id)
    then show ?thesis using uncompress_addr_bytes [OF assms(7) [symmetric] _ _ _ assms(6,9,10,11), of l] assms(5,8) m k
      by simp
  qed
qed

definition u16s_zero :: "u8 list \<Rightarrow> bool" where
  "u16s_zero a \<longleftrightarrow> u16_zero a 1 \<and> u16_zero a 2 \<and> u16_zero a 3"

lemma linklocal_prefix:
  assumes "length a = 16" and "uip_is_addr_linklocal a" and "u16s_zero a"
  shows "take 2 llprefix @ replicate (8 - 2) 0 = take 8 a"
proof -
  have "take 8 a = [0xfe, 0x80, 0, 0, 0, 0, 0, 0]"
    using assms by (subst addr_split(2) [OF assms(1)]) (simp add: uip_is_addr_linklocal_def u16s_zero_def u16_zero_def)
  then show ?thesis by (simp add: llprefix_def numeral_eq_Suc)
qed

lemma unspecified_zero: "length a = 16 \<Longrightarrow> uip_is_addr_unspecified a \<Longrightarrow> a = replicate 16 0"
  by (subst addr_split(2), assumption) (simp add: uip_is_addr_unspecified_def u16_zero_def numeral_eq_Suc)

lemma iid_mode_cases: "iid_mode a l = 1 \<or> iid_mode a l = 2 \<or> iid_mode a l = 3"
  by (simp add: iid_mode_def)

lemma and_sub: "w AND m = v AND m \<Longrightarrow> k AND m = k \<Longrightarrow> w AND k = v AND k" for w v m k :: u8
  by (metis and.assoc and.commute)

text \<open>An address that was sent in full.\<close>

lemma uncompress_full:
  assumes "length a = 16" and "bytes_at (packetbuf s) (hc06_ptr s) a" and "accessible buf 0 48" and "p + 16 \<le> 48"
  shows "uncompress_addr s buf p prefix 0x0f l = Some (advance 16 s, put buf p a)"
  using uncompress_addr_bytes [of 0 "0x0f" a prefix s buf p l] assms by (simp add: nibble_def)

text \<open>A set of contexts both sides agree on: used numbers are distinct and fit into four bits.\<close>

definition contexts_ok :: "sicslowpan_addr_context list \<Rightarrow> bool" where
  "contexts_ok cs \<longleftrightarrow> (\<forall>c \<in> set cs. length (cx_prefix c) = 8 \<and> cx_number c < 16) \<and>
     distinct (map cx_number (filter (\<lambda>c. cx_used c = 1) cs))"

lemma find_unique:
  "x \<in> set xs \<Longrightarrow> P x \<Longrightarrow> distinct (map f (filter P xs)) \<Longrightarrow> find (\<lambda>y. P y \<and> f y = f x) xs = Some x"
  by (induction xs) (auto simp: image_iff split: if_splits)

lemma context_found:
  assumes "contexts_ok cs" and "addr_context_lookup_by_prefix cs a = Some c"
  shows "addr_context_lookup_by_number cs (cx_number c) = Some c" and "length (cx_prefix c) = 8" and "cx_number c < 16"
    and "take 8 (cx_prefix c) = take 8 a"
proof -
  have c: "c \<in> set cs" "cx_used c = 1" "take 8 (cx_prefix c) = take 8 a"
    using assms(2) unfolding addr_context_lookup_by_prefix_def find_Some_iff by auto
  then show "length (cx_prefix c) = 8" "cx_number c < 16" "take 8 (cx_prefix c) = take 8 a"
    using assms(1) by (auto simp: contexts_ok_def)
  show "addr_context_lookup_by_number cs (cx_number c) = Some c"
    using find_unique [of c cs "\<lambda>c. cx_used c = 1" cx_number] c assms(1)
    by (simp add: addr_context_lookup_by_number_def contexts_ok_def)
qed

lemma small_u8: "v < 16 \<Longrightarrow> 4 \<le> n \<Longrightarrow> \<not> bit v n" for v :: u8
proof -
  assume "v < 16" "4 \<le> n"
  then have "take_bit 4 v = v" by (simp add: word_less_nat_alt unsigned_take_bit_eq take_bit_nat_eq_self word_unat_eq_iff)
  then show ?thesis using \<open>4 \<le> n\<close> by (metis bit_take_bit_iff not_less)
qed

lemma context_nibbles:
  assumes "v < 16" and "w < 16"
  shows "drop_bit 4 (push_bit 4 v) = (v :: u8)" and "drop_bit 4 (push_bit 4 v OR w) = (v :: u8)" and "(push_bit 4 v OR w) AND 0x0f = w"
  using small_u8 [OF assms(1)] small_u8 [OF assms(2)] unfolding u8_bits by (simp_all add: u8_bit_simps)

text \<open>The prefix of a source address is dropped, and was not link-local.\<close>

definition src_prefix_lost :: "sicslowpan_addr_context list \<Rightarrow> u8 list \<Rightarrow> bool" where
  "src_prefix_lost cs h \<longleftrightarrow> addr_context_lookup_by_prefix cs (h_srcipaddr h) = None \<and>
     uip_is_addr_linklocal (h_srcipaddr h) \<and> u16s_zero (h_destipaddr h) \<and> \<not> u16s_zero (h_srcipaddr h)"

lemma uncompress_src_step:
  assumes "src_enc cs l h = (f, k, xs)" and "bytes_at (packetbuf s) (hc06_ptr s) xs" and "length h = 48" and "length l = 8"
    and "accessible buf 0 48" and "i AND 0x70 = f AND 0x70" and "contexts_ok cs" and "\<not> src_prefix_lost cs h"
    and "addr_context_lookup_by_prefix cs (h_srcipaddr h) \<noteq> None \<Longrightarrow> i AND 0x80 \<noteq> 0"
    and "i AND 0x80 \<noteq> 0 \<Longrightarrow> packetbuf s (PACKETBUF_IPHC_BUF s 2) = Some b"
    and "addr_context_lookup_by_prefix cs (h_srcipaddr h) \<noteq> None \<Longrightarrow> \<not> uip_is_addr_unspecified (h_srcipaddr h) \<Longrightarrow> drop_bit 4 b = drop_bit 4 k"
  shows "uncompress_src cs l i (s, buf) = Some (False, advance (length xs) s, put buf 8 (h_srcipaddr h))"
proof -
  let ?a = "h_srcipaddr h" and ?t = "drop_bit 4 (i AND 0x30) AND 3"
  have a: "length ?a = 16" using assms(3) by simp
  have i4: "i AND 0x40 = f AND 0x40" and i3: "i AND 0x30 = f AND 0x30" using and_sub [OF assms(6)] by simp_all
  note def = uncompress_src_def iphc_consts Let_def i4 i3
  show ?thesis
  proof (cases "uip_is_addr_unspecified ?a")
    case True
    then have e: "f = 0x40" "xs = []" using assms(1) by (simp_all add: src_enc_def Let_def)
    have z: "accessible buf 8 16" by (rule accessible_mono [OF assms(5)]) simp_all
    have "i AND 0x80 \<noteq> 0 \<Longrightarrow> packetbuf s (PACKETBUF_IPHC_BUF s 2) = Some b" by (rule assms(10))
    then show ?thesis using e z
      by (simp add: def nibble_def uncompress_addr_def store_list_put advance_def unspecified_zero [OF a True])
  next
    case False
    show ?thesis
    proof (cases "addr_context_lookup_by_prefix cs ?a")
      case (Some c)
      note found = context_found [OF assms(7) Some]
      have e: "f = 0xC0 OR push_bit 4 (iid_mode ?a l)" "xs = iid_bytes ?a l" "k = push_bit 4 (cx_number c)"
        using assms(1) False Some by (simp_all add: src_enc_def Let_def)
      have cid: "i AND 0x80 \<noteq> 0" "packetbuf s (PACKETBUF_IPHC_BUF s 2) = Some b" "drop_bit 4 b = cx_number c"
        using assms(9-11) Some False e(3) context_nibbles(1) [OF found(3) found(3)] by simp_all
      have p: "take 8 (cx_prefix c) @ replicate (8 - 8) 0 = take 8 ?a" using found(4) by simp
      have "uncompress_addr s buf 8 (cx_prefix c) (unc_ctxconf ! unat (iid_mode ?a l)) l =
          Some (advance (length xs) s, put buf 8 ?a)"
        using iid_mode_cases [of ?a l] assms(2) found(2) assms(5) unfolding e(2)
        by (intro uncompress_iid [OF a assms(4) p]) (auto simp: iphc_consts nibble_def)
      then show ?thesis using iid_mode_cases [of ?a l] e(1) cid found(1) by (auto simp: def)
    next
      case None
      show ?thesis
      proof (cases "uip_is_addr_linklocal ?a \<and> u16s_zero (h_destipaddr h)")
        case True
        then have e: "f = push_bit 4 (iid_mode ?a l)" "xs = iid_bytes ?a l"
          using assms(1) False None by (simp_all add: src_enc_def u16s_zero_def Let_def)
        have p: "take 2 llprefix @ replicate (8 - 2) 0 = take 8 ?a"
          using True assms(8) None by (intro linklocal_prefix [OF a]) (simp_all add: src_prefix_lost_def)
        have "uncompress_addr s buf 8 llprefix (unc_llconf ! unat (iid_mode ?a l)) l = Some (advance (length xs) s, put buf 8 ?a)"
          using iid_mode_cases [of ?a l] assms(2,5) unfolding e(2)
          by (intro uncompress_iid [OF a assms(4) p]) (auto simp: iphc_consts nibble_def)
        then show ?thesis using iid_mode_cases [of ?a l] e(1) by (auto simp: def)
      next
        case other: False
        then have e: "f = 0" "xs = ?a" using assms(1) False None by (auto simp: src_enc_def Let_def u16s_zero_def)
        then show ?thesis using uncompress_full [OF a, of s buf 8 llprefix l] assms(2,5) a by (simp add: def)
      qed
    qed
  qed
qed

lemma mcast_8:
  "length a = 16 \<Longrightarrow> uip_is_addr_mcast a \<Longrightarrow> sicslowpan_is_mcast_addr_compressable8 a \<Longrightarrow>
    [0xff, 0x02] @ replicate 13 0 @ [a ! 15] = a"
  by (subst (2) addr_split(2), assumption)
    (simp add: uip_is_addr_mcast_def sicslowpan_is_mcast_addr_compressable8_def u16_zero_def numeral_eq_Suc)

lemma mcast_32:
  "length a = 16 \<Longrightarrow> uip_is_addr_mcast a \<Longrightarrow> sicslowpan_is_mcast_addr_compressable32 a \<Longrightarrow>
    [0xff, a ! 1] @ replicate 11 0 @ take 3 (drop 13 a) = a"
proof -
  assume a: "length a = 16" "uip_is_addr_mcast a" "sicslowpan_is_mcast_addr_compressable32 a"
  have "take 3 (drop 13 a) = [a ! 13, a ! 14, a ! 15]"
    using a(1) by (intro nth_equalityI) (auto simp: less_Suc_eq numeral_eq_Suc)
  then show ?thesis using a(2,3) by (subst (3) addr_split(2) [OF a(1)])
    (simp add: uip_is_addr_mcast_def sicslowpan_is_mcast_addr_compressable32_def u16_zero_def numeral_eq_Suc)
qed

lemma mcast_48:
  "length a = 16 \<Longrightarrow> uip_is_addr_mcast a \<Longrightarrow> sicslowpan_is_mcast_addr_compressable48 a \<Longrightarrow>
    [0xff, a ! 1] @ replicate 9 0 @ take 5 (drop 11 a) = a"
proof -
  assume a: "length a = 16" "uip_is_addr_mcast a" "sicslowpan_is_mcast_addr_compressable48 a"
  have "take 5 (drop 11 a) = [a ! 11, a ! 12, a ! 13, a ! 14, a ! 15]"
    using a(1) by (intro nth_equalityI) (auto simp: less_Suc_eq numeral_eq_Suc)
  then show ?thesis using a(2,3) by (subst (3) addr_split(2) [OF a(1)])
    (simp add: uip_is_addr_mcast_def sicslowpan_is_mcast_addr_compressable48_def u16_zero_def numeral_eq_Suc)
qed

lemma uncompress_mcast:
  assumes "nibble (drop_bit 4 pc) = 2" and "nibble (pc AND 0x0f) = length bs" and "length bs \<in> {1, 3, 5}" and "length prefix = 2"
    and "bytes_at (packetbuf s) (hc06_ptr s) bs" and "accessible buf 0 48" and "prefix @ replicate (14 - length bs) 0 @ bs = a"
  shows "uncompress_addr s buf 24 prefix pc l = Some (advance (length bs) s, put buf 24 a)"
  using uncompress_addr_bytes [OF assms(1) [symmetric] assms(2) _ _ _ assms(5,6), where p = 24 and prefix = prefix and l = l] assms(3,4,7)
  by (cases bs) auto

lemma uncompress_dest_step:
  assumes "dest_enc cs l h = (f, k, xs)" and "bytes_at (packetbuf s) (hc06_ptr s) xs" and "length h = 48" and "length l = 8"
    and "accessible buf 0 48" and "i AND 0x0f = f AND 0x0f" and "contexts_ok cs"
    and "addr_context_lookup_by_prefix cs (h_destipaddr h) \<noteq> None \<Longrightarrow>
      i AND 0x80 \<noteq> 0 \<and> packetbuf s (PACKETBUF_IPHC_BUF s 2) = Some b"
    and "addr_context_lookup_by_prefix cs (h_destipaddr h) \<noteq> None \<Longrightarrow> \<not> uip_is_addr_mcast (h_destipaddr h) \<Longrightarrow> b AND 0x0f = k"
  shows "uncompress_dest cs l i (s, buf) = Some (False, advance (length xs) s, put buf 24 (h_destipaddr h))"
proof -
  let ?a = "h_destipaddr h"
  have a: "length ?a = 16" using assms(3) by simp
  have i: "i AND 0x08 = f AND 0x08" "i AND 0x04 = f AND 0x04" "i AND 0x03 = f AND 0x03" using and_sub [OF assms(6)] by simp_all
  note def = uncompress_dest_def iphc_consts Let_def i
  show ?thesis
  proof (cases "uip_is_addr_mcast ?a")
    case True
    consider "sicslowpan_is_mcast_addr_compressable8 ?a"
      | "\<not> sicslowpan_is_mcast_addr_compressable8 ?a" "sicslowpan_is_mcast_addr_compressable32 ?a"
      | "\<not> sicslowpan_is_mcast_addr_compressable8 ?a" "\<not> sicslowpan_is_mcast_addr_compressable32 ?a" "sicslowpan_is_mcast_addr_compressable48 ?a"
      | "\<not> sicslowpan_is_mcast_addr_compressable8 ?a" "\<not> sicslowpan_is_mcast_addr_compressable32 ?a" "\<not> sicslowpan_is_mcast_addr_compressable48 ?a"
      by blast
    then show ?thesis
    proof cases
      case 1
      then have e: "f = 0x0B" "xs = [?a ! 15]" using assms(1) True by (simp_all add: dest_enc_def Let_def)
      have "uncompress_addr s buf 24 [0xff, 0x02] 0x21 [] = Some (advance (length xs) s, put buf 24 ?a)"
        using assms(2,5) mcast_8 [OF a True 1] unfolding e by (intro uncompress_mcast) (simp_all add: nibble_def)
      then show ?thesis by (simp add: def e(1))
    next
      case 2
      then have e: "f = 0x0A" "xs = ?a ! 1 # take 3 (drop 13 ?a)" using assms(1) True by (simp_all add: dest_enc_def Let_def)
      have b: "at_ptr s 0 = Some (?a ! 1)" "bytes_at (packetbuf (advance 1 s)) (hc06_ptr (advance 1 s)) (take 3 (drop 13 ?a))"
        using assms(2) e(2) by (simp_all add: at_ptr_def bytes_at_Cons advance_def)
      have n: "length (take 3 (drop 13 ?a)) = 3" using a by simp
      have "uncompress_addr (advance 1 s) buf 24 [0xff, ?a ! 1] 0x23 [] = Some (advance 3 (advance 1 s), put buf 24 ?a)"
        using uncompress_mcast [OF _ _ _ _ b(2) assms(5), of "0x23" "[0xff, ?a ! 1]" ?a "[]"] mcast_32 [OF a True 2(2)] n
        by (simp add: nibble_def)
      then show ?thesis using b(1) n e by (simp add: def advance_def)
    next
      case 3
      then have e: "f = 0x09" "xs = ?a ! 1 # take 5 (drop 11 ?a)" using assms(1) True by (simp_all add: dest_enc_def Let_def)
      have b: "at_ptr s 0 = Some (?a ! 1)" "bytes_at (packetbuf (advance 1 s)) (hc06_ptr (advance 1 s)) (take 5 (drop 11 ?a))"
        using assms(2) e(2) by (simp_all add: at_ptr_def bytes_at_Cons advance_def)
      have n: "length (take 5 (drop 11 ?a)) = 5" using a by simp
      have "uncompress_addr (advance 1 s) buf 24 [0xff, ?a ! 1] 0x25 [] = Some (advance 5 (advance 1 s), put buf 24 ?a)"
        using uncompress_mcast [OF _ _ _ _ b(2) assms(5), of "0x25" "[0xff, ?a ! 1]" ?a "[]"] mcast_48 [OF a True 3(3)] n
        by (simp add: nibble_def)
      then show ?thesis using b(1) n e by (simp add: def advance_def)
    next
      case 4
      then have e: "f = 0x08" "xs = ?a" using assms(1) True by (simp_all add: dest_enc_def Let_def)
      then show ?thesis using uncompress_full [OF a, of s buf 24 "[0xff, 0x02]" "[]"] assms(2,5) a by (simp add: def)
    qed
  next
    case uni: False
    show ?thesis
    proof (cases "addr_context_lookup_by_prefix cs ?a")
      case (Some c)
      note found = context_found [OF assms(7) Some]
      have e: "f = 0x04 OR iid_mode ?a l" "xs = iid_bytes ?a l" "k = cx_number c"
        using assms(1) uni Some by (simp_all add: dest_enc_def Let_def)
      have p: "take 8 (cx_prefix c) @ replicate (8 - 8) 0 = take 8 ?a" using found(4) by simp
      have "uncompress_addr s buf 24 (cx_prefix c) (unc_ctxconf ! unat (iid_mode ?a l)) l = Some (advance (length xs) s, put buf 24 ?a)"
        using iid_mode_cases [of ?a l] assms(2) found(2) assms(5) unfolding e(2)
        by (intro uncompress_iid [OF a assms(4) p]) (auto simp: iphc_consts nibble_def)
      then show ?thesis using iid_mode_cases [of ?a l] e(1,3) assms(8,9) Some uni found(1) by (auto simp: def)
    next
      case None
      show ?thesis
      proof (cases "uip_is_addr_linklocal ?a \<and> u16s_zero ?a")
        case True
        then have e: "f = iid_mode ?a l" "xs = iid_bytes ?a l" using assms(1) uni None by (simp_all add: dest_enc_def u16s_zero_def Let_def)
        have p: "take 2 llprefix @ replicate (8 - 2) 0 = take 8 ?a" using True by (intro linklocal_prefix [OF a]) simp_all
        have "uncompress_addr s buf 24 llprefix (unc_llconf ! unat (iid_mode ?a l)) l = Some (advance (length xs) s, put buf 24 ?a)"
          using iid_mode_cases [of ?a l] assms(2,5) unfolding e(2)
          by (intro uncompress_iid [OF a assms(4) p]) (auto simp: iphc_consts nibble_def)
        then show ?thesis using iid_mode_cases [of ?a l] e(1) by (auto simp: def)
      next
        case other: False
        then have e: "f = 0" "xs = ?a" using assms(1) uni None by (auto simp: dest_enc_def Let_def u16s_zero_def)
        then show ?thesis using uncompress_full [OF a, of s buf 24 llprefix l] assms(2,5) a by (simp add: def)
      qed
    qed
  qed
qed

subsection \<open>UDP\<close>

lemma net_bytes_HTONS: "net_bytes (UIP_HTONS [x, y]) = [x, y]"
proof -
  have "bit x n \<Longrightarrow> n < 8" "bit y n \<Longrightarrow> n < 8" for n using bit_imp_le_length by fastforce+
  then have "ucast (drop_bit 8 (push_bit 8 (ucast x) OR ucast y :: u16)) = x" "ucast (push_bit 8 (ucast x) OR ucast y :: u16) = y"
    by (intro bit_word_eqI; auto simp: bit_ucast_iff bit_or_iff bit_drop_bit_eq bit_push_bit_iff)+
  then show ?thesis by (simp add: net_bytes_def UIP_HTONS_def)
qed

lemma split_mask: "w AND m = v \<Longrightarrow> NOT m = k \<Longrightarrow> w = v + (w AND k)" for w :: "'a::len word"
proof -
  assume "w AND m = v" "NOT m = k"
  have "(w AND m) + (w AND NOT m) = (w AND m) OR (w AND NOT m)" by (rule disjunctive_add) (auto simp: bit_and_iff bit_not_iff)
  also have "\<dots> = w" by (rule bit_word_eqI) (auto simp: bit_and_iff bit_or_iff bit_not_iff)
  finally show ?thesis using \<open>w AND m = v\<close> \<open>NOT m = k\<close> by simp
qed

lemma port_4: "w AND 0xfff0 = 0xF0B0 \<Longrightarrow> w - 0xF0B0 = w AND 0xf" for w :: u16
proof -
  assume a: "w AND 0xfff0 = 0xF0B0"
  have "NOT (0xfff0 :: u16) = 0xf" by simp
  from split_mask [OF a this] show ?thesis by (metis add_diff_cancel_left')
qed

lemma port_8: "w AND 0xff00 = 0xF000 \<Longrightarrow> w - 0xF000 = w AND 0xff" for w :: u16
proof -
  assume a: "w AND 0xff00 = 0xF000"
  have "NOT (0xff00 :: u16) = 0xff" by simp
  from split_mask [OF a this] show ?thesis by (metis add_diff_cancel_left')
qed

lemma and_mask_ucast: "n \<le> 8 \<Longrightarrow> ucast (ucast (w AND mask n) :: u8) = w AND mask n" for w :: u16
  by (rule bit_word_eqI) (auto simp: bit_ucast_iff bit_and_iff bit_mask_iff)

lemma port_8_back: "w AND 0xff00 = 0xF000 \<Longrightarrow> 0xF000 + ucast (ucast (w - 0xF000) :: u8) = w" for w :: u16
proof -
  assume a: "w AND 0xff00 = 0xF000"
  have m: "(0xff :: u16) = mask 8" by (simp add: mask_eq_exp_minus_1)
  have "ucast (ucast (w AND 0xff) :: u8) = w AND 0xff" unfolding m by (rule and_mask_ucast) simp
  then have "ucast (ucast (w - 0xF000) :: u8) = w - 0xF000" unfolding port_8 [OF a] .
  then show ?thesis by simp
qed

lemma nibble_small: "ucast (w AND 0xf :: u16) < (16 :: u8)"
proof -
  have m: "(0xf :: u16) = mask 4" by (simp add: mask_eq_exp_minus_1)
  have "unat (w AND mask 4) < 16" using and_mask_eq_mod [of w 4] by simp
  then show ?thesis unfolding m by (simp add: word_less_nat_alt unsigned_ucast_eq take_bit_nat_eq_self)
qed

lemma ports_4_back:
  assumes "v AND 0xfff0 = 0xF0B0" and "w AND 0xfff0 = 0xF0B0"
    and "d = ucast (push_bit 4 (v - 0xF0B0)) + ucast (w - 0xF0B0)"
  shows "0xF0B0 + ucast (drop_bit 4 (d :: u8)) = (v :: u16)" and "0xF0B0 + ucast (d AND 0x0F) = (w :: u16)"
proof -
  let ?x = "ucast (v AND 0xf) :: u8" and ?y = "ucast (w AND 0xf) :: u8"
  have m: "(0xf :: u16) = mask 4" by (simp add: mask_eq_exp_minus_1)
  have "ucast (push_bit 4 (v AND 0xf)) = push_bit 4 ?x" unfolding u8_bits by (simp add: u8_bit_simps bit_ucast_iff)
  moreover have "push_bit 4 ?x + ?y = push_bit 4 ?x OR ?y"
    using small_u8 [OF nibble_small, of _ w] by (intro disjunctive_add) (auto simp: bit_push_bit_iff)
  ultimately have d: "d = push_bit 4 ?x OR ?y" unfolding assms(3) port_4 [OF assms(1)] port_4 [OF assms(2)] by simp
  have bk: "ucast (ucast (u AND 0xf) :: u8) = u AND 0xf" for u :: u16 unfolding m by (rule and_mask_ucast) simp
  show "0xF0B0 + ucast (drop_bit 4 d) = v" "0xF0B0 + ucast (d AND 0x0F) = w"
    unfolding d context_nibbles(2,3) [OF nibble_small nibble_small] bk
    using port_4 [OF assms(1)] port_4 [OF assms(2)] by (simp_all add: algebra_simps)
qed

lemma load_2: "bytes_at m p vs \<Longrightarrow> i + 2 \<le> length vs \<Longrightarrow> load_list m (p + i) 2 = Some [vs ! i, vs ! (i + 1)]"
proof -
  assume a: "bytes_at m p vs" "i + 2 \<le> length vs"
  have "m (p + i) = Some (vs ! i)" "m (p + (i + 1)) = Some (vs ! (i + 1))"
    using a(2) a(1) [unfolded bytes_at_def, rule_format, of i] a(1) [unfolded bytes_at_def, rule_format, of "i + 1"] by simp_all
  then show ?thesis by (simp add: numeral_2_eq_2 load_list.simps)
qed

lemma uncompress_udp_step:
  assumes "bytes_at (packetbuf s) (hc06_ptr s) (udp_bytes h)" and "accessible buf 0 48"
  shows "uncompress_udp (s, buf) = Some ((advance (length (udp_bytes h)) s)\<lparr>uncomp_hdr_len := uncomp_hdr_len s + 8\<rparr>,
    put (put (put (put buf 6 [UIP_PROTO_UDP]) 40 (h_srcport h)) 42 (h_destport h)) 46 (h_udpchksum h))"
proof -
  let ?sp = "UIP_HTONS (h_srcport h)" and ?dp = "UIP_HTONS (h_destport h)"
  note net = net_bytes_HTONS [of "h ! 40" "h ! 41"] net_bytes_HTONS [of "h ! 42" "h ! 43"]
  note def = uncompress_udp_def iphc_consts Let_def buf_simps advance_def
  have at: "i < length (udp_bytes h) \<Longrightarrow> at_ptr s i = Some (udp_bytes h ! i)" for i
    using assms(1) by (simp add: at_ptr_def bytes_at_def)
  note ld = load_2 [OF assms(1)]
  consider "?sp AND 0xfff0 = 0xF0B0 \<and> ?dp AND 0xfff0 = 0xF0B0"
    | "\<not> (?sp AND 0xfff0 = 0xF0B0 \<and> ?dp AND 0xfff0 = 0xF0B0)" "?dp AND 0xff00 = 0xF000"
    | "\<not> (?sp AND 0xfff0 = 0xF0B0 \<and> ?dp AND 0xfff0 = 0xF0B0)" "?dp AND 0xff00 \<noteq> 0xF000" "?sp AND 0xff00 = 0xF000"
    | "\<not> (?sp AND 0xfff0 = 0xF0B0 \<and> ?dp AND 0xfff0 = 0xF0B0)" "?dp AND 0xff00 \<noteq> 0xF000" "?sp AND 0xff00 \<noteq> 0xF000"
    by blast
  then show ?thesis
  proof cases
    case 1
    define d :: u8 where "d = ucast (push_bit 4 (?sp - 0xF0B0)) + ucast (?dp - 0xF0B0)"
    note d = ports_4_back [OF conjunct1 [OF 1] conjunct2 [OF 1] d_def]
    have b: "udp_bytes h = [0xF3, d] @ h_udpchksum h" using 1 by (simp add: udp_bytes_def d_def Let_def)
    show ?thesis using assms(2) at [of 0] at [of 1] ld [of 2] unfolding b by (simp add: def d net)
  next
    case 2
    define d :: u8 where "d = ucast (?dp - 0xF000)"
    have b: "udp_bytes h = 0xF1 # h_srcport h @ [d] @ h_udpchksum h" using 2 by (simp add: udp_bytes_def d_def Let_def)
    have d: "0xF000 + ucast d = ?dp" unfolding d_def by (rule port_8_back [OF 2(2)])
    show ?thesis using assms(2) at [of 0] at [of 3] ld [of 1] ld [of 4] unfolding b by (simp add: def d net)
  next
    case 3
    define d :: u8 where "d = ucast (?sp - 0xF000)"
    have b: "udp_bytes h = 0xF2 # d # h_destport h @ h_udpchksum h" using 3 by (simp add: udp_bytes_def d_def Let_def)
    have d: "0xF000 + ucast d = ?sp" unfolding d_def by (rule port_8_back [OF 3(3)])
    show ?thesis using assms(2) at [of 0] at [of 1] ld [of 2] ld [of 4] unfolding b by (simp add: def d net)
  next
    case 4
    then have b: "udp_bytes h = 0xF0 # h_srcport h @ h_destport h @ h_udpchksum h" by (simp only: udp_bytes_def Let_def if_False append_Cons append_assoc)
    show ?thesis using assms(2) at [of 0] ld [of 1] ld [of 3] ld [of 5] unfolding b by (simp add: def)
  qed
qed

subsection \<open>Flags\<close>

lemma iphc0_flags:
  assumes "i = 0x60 OR tf_flags h OR nh_flag h OR ttl_flag h"
  shows "i AND 0x10 = 0 \<longleftrightarrow> \<not> fl_elided h" and "i AND 0x08 = 0 \<longleftrightarrow> \<not> tf_elided h"
    and "i AND 0x04 = 0 \<longleftrightarrow> h_proto h \<noteq> UIP_PROTO_UDP" and "i AND 0x03 = ttl_flag h"
  unfolding assms tf_flags_def fl_elided_def [symmetric] tf_elided_def [symmetric] nh_flag_def ttl_flag_def
  by (simp_all split: if_split)

lemma src_enc_flags:
  assumes "src_enc cs l h = (f, k, xs)" and "contexts_ok cs"
  shows "f AND 0x0f = 0" and "f AND 0x80 \<noteq> 0 \<Longrightarrow> has_cid cs h" and "k AND 0x0f = 0"
proof -
  have m: "push_bit 4 (iid_mode (h_srcipaddr h) l) AND 0x0f = 0" "push_bit 4 (iid_mode (h_srcipaddr h) l) AND 0x80 = 0"
    using iid_mode_cases [of "h_srcipaddr h" l] by auto
  show "f AND 0x0f = 0" using assms(1) m
    by (auto simp: src_enc_def Let_def bit.conj_disj_distrib2 split: if_splits option.splits)
  show "f AND 0x80 \<noteq> 0 \<Longrightarrow> has_cid cs h" using assms(1) m(2)
    by (auto simp: src_enc_def Let_def has_cid_def split: if_splits option.splits)
  have "push_bit 4 v AND 0x0f = 0" for v :: u8 unfolding u8_bits by (simp add: u8_bit_simps)
  then show "k AND 0x0f = 0" using assms(1) by (auto simp: src_enc_def Let_def split: if_splits option.splits)
qed

lemma dest_enc_flags:
  assumes "dest_enc cs l h = (g, j, ys)" and "contexts_ok cs"
  shows "g AND 0xf0 = 0" and "j < 16"
proof -
  have m: "iid_mode (h_destipaddr h) l AND 0xf0 = 0" using iid_mode_cases [of "h_destipaddr h" l] by auto
  show "g AND 0xf0 = 0" using assms(1) m
    by (auto simp: dest_enc_def Let_def bit.conj_disj_distrib2 split: if_splits option.splits)
  show "j < 16" using assms context_found(3) [OF assms(2)]
    by (auto simp: dest_enc_def Let_def split: if_splits option.splits)
qed

lemma iphc1_flags:
  assumes "f AND 0x0f = (0 :: u8)" and "g AND 0xf0 = (0 :: u8)" and "f AND 0x80 \<noteq> 0 \<Longrightarrow> cid" and "i = (if cid then 0x80 else 0) OR f OR g"
  shows "i AND 0x70 = f AND 0x70" and "i AND 0x0f = g AND 0x0f" and "i AND 0x80 \<noteq> 0 \<longleftrightarrow> cid"
proof -
  have g: "g AND 0x70 = 0" "g AND 0x80 = 0" using and_sub [of g "0xf0" 0] assms(2) by simp_all
  show "i AND 0x70 = f AND 0x70" "i AND 0x0f = g AND 0x0f" "i AND 0x80 \<noteq> 0 \<longleftrightarrow> cid"
    using assms g by (auto simp: bit.conj_disj_distrib2)
qed

lemma context_byte:
  assumes "k AND 0x0f = 0" and "j < 16"
  shows "drop_bit 4 (k OR j) = drop_bit 4 (k :: u8)" and "(k OR j) AND 0x0f = (j :: u8)"
  using assms(1) small_u8 [OF assms(2)] unfolding u8_bits by (simp_all add: u8_bit_simps)

subsection \<open>The whole header\<close>

definition len_bytes :: "int \<Rightarrow> u8 list" where
  "len_bytes n = [word_of_int (n div 256), word_of_int (n mod 256)]"

text \<open>The headers that decompression writes, in the order of its writes.\<close>

definition put_headers :: "u8 list \<Rightarrow> int \<Rightarrow> mem \<Rightarrow> mem" where
  "put_headers h n buf =
     (let buf = put buf 0 (take 4 h);
          buf = (if h_proto h = UIP_PROTO_UDP then buf else put buf 6 [h_proto h]);
          buf = put (put (put buf 7 [h_ttl h]) 8 (h_srcipaddr h)) 24 (h_destipaddr h);
          buf = (if h_proto h = UIP_PROTO_UDP
                 then put (put (put (put buf 6 [UIP_PROTO_UDP]) 40 (h_srcport h)) 42 (h_destport h)) 46 (h_udpchksum h) else buf);
          buf = put buf 4 (len_bytes n)
      in if h_proto h = UIP_PROTO_UDP then put buf 44 (len_bytes n) else buf)"

lemma put_headers_accessible:
  assumes "length h = 48" and "accessible buf 0 48"
  shows "accessible (put_headers h n buf) 0 48"
  using assms by (simp add: put_headers_def Let_def buf_simps len_bytes_def)

lemma put_headers_outside: "length h = 48 \<Longrightarrow> 48 \<le> q \<Longrightarrow> put_headers h n buf q = buf q"
  by (simp add: put_headers_def Let_def put_def len_bytes_def)

lemma header_split:
  assumes "length h = 48"
  shows "take 40 h = take 4 h @ [h ! 4, h ! 5] @ [h ! 6] @ [h ! 7] @ h_srcipaddr h @ h_destipaddr h"
    and "h = take 40 h @ h_srcport h @ h_destport h @ [h ! 44, h ! 45] @ h_udpchksum h"
proof -
  have "take 8 h = take 4 h @ [h ! 4, h ! 5, h ! 6, h ! 7]" using assms
    by (intro nth_equalityI) (auto simp: nth_append less_Suc_eq numeral_eq_Suc)
  moreover have "take 40 h = take 8 h @ h_srcipaddr h @ h_destipaddr h"
    using take_add [of 8 32 h] take_add [of 16 16 "drop 8 h"] by simp
  ultimately show "take 40 h = take 4 h @ [h ! 4, h ! 5] @ [h ! 6] @ [h ! 7] @ h_srcipaddr h @ h_destipaddr h" by simp
  have "drop 40 h = h_srcport h @ h_destport h @ [h ! 44, h ! 45] @ h_udpchksum h" using assms
    by (intro nth_equalityI) (auto simp: less_Suc_eq numeral_eq_Suc)
  then show "h = take 40 h @ h_srcport h @ h_destport h @ [h ! 44, h ! 45] @ h_udpchksum h" by (metis append_take_drop_id)
qed

lemma put_headers_bytes:
  assumes "length h = 48" and "[h ! 4, h ! 5] = len_bytes n" and "h_proto h = UIP_PROTO_UDP \<Longrightarrow> [h ! 44, h ! 45] = len_bytes n"
  shows "bytes_at (put_headers h n buf) 0 (if h_proto h = UIP_PROTO_UDP then h else take 40 h)"
proof (cases "h_proto h = UIP_PROTO_UDP")
  case True
  have "bytes_at (put_headers h n buf) 0 ((take 4 h @ [h ! 4, h ! 5] @ [h ! 6] @ [h ! 7] @ h_srcipaddr h @ h_destipaddr h) @
      h_srcport h @ h_destport h @ [h ! 44, h ! 45] @ h_udpchksum h)"
    unfolding assms(2) assms(3) [OF True] using assms(1) True
    by (simp add: put_headers_def Let_def bytes_at_append bytes_at_put bytes_at_put_outside len_bytes_def min_absorb2 del: append_Cons)
  then show ?thesis using True header_split [OF assms(1)] by metis
next
  case False
  have "bytes_at (put_headers h n buf) 0 (take 4 h @ [h ! 4, h ! 5] @ [h ! 6] @ [h ! 7] @ h_srcipaddr h @ h_destipaddr h)"
    unfolding assms(2) using assms(1) False
    by (simp add: put_headers_def Let_def bytes_at_append bytes_at_put bytes_at_put_outside len_bytes_def min_absorb2 del: append_Cons)
  then show ?thesis using False header_split [OF assms(1)] by metis
qed

text \<open>Decompression of the bytes of a header.\<close>

definition uncompressed :: "u8 list \<Rightarrow> nat \<Rightarrow> 'a hc_scheme \<Rightarrow> 'a hc_scheme" where
  "uncompressed h n r = r\<lparr>hc06_ptr := packetbuf_ptr r + unat (packetbuf_hdr_len r) + n,
     packetbuf_hdr_len := packetbuf_hdr_len r + of_nat n,
     uncomp_hdr_len := uncomp_hdr_len r + (if h_proto h = UIP_PROTO_UDP then 48 else 40)\<rparr>"

definition ip_payload_len :: "'a hc_scheme \<Rightarrow> nat \<Rightarrow> u16 \<Rightarrow> int" where
  "ip_payload_len r datalen len = (if len = 0
     then int datalen - int (unat (packetbuf_hdr_len r)) + int (unat (uncomp_hdr_len r)) - 40 else int (unat len) - 40)"

lemma uncompress_len_step:
  assumes "accessible buf 0 48" and "buf 6 = Some p"
  shows "uncompress_len datalen len (s, buf) = Some (s, if p = UIP_PROTO_UDP
    then put (put buf 4 (len_bytes (ip_payload_len s datalen len))) 44 (len_bytes (ip_payload_len s datalen len))
    else put buf 4 (len_bytes (ip_payload_len s datalen len)))"
proof -
  let ?n = "ip_payload_len s datalen len" and ?b = "put buf 4 (len_bytes (ip_payload_len s datalen len))"
  have l: "put (put buf 4 [word_of_int (?n div 256)]) 5 [word_of_int (?n mod 256)] = ?b"
    by (simp add: len_bytes_def put_Cons)
  have a: "accessible ?b 0 48" using assms(1) by (simp add: buf_simps len_bytes_def)
  have "?b 6 = Some p" using assms(2) by (simp add: put_def len_bytes_def)
  moreover have "load_list ?b 4 2 = Some (len_bytes ?n)"
    by (rule load_bytes [OF bytes_at_put]) (simp add: len_bytes_def)
  moreover have "store_list ?b 44 (len_bytes ?n) = Some (put ?b 44 (len_bytes ?n))"
    by (rule store_list_buf [OF a]) (simp add: len_bytes_def)
  moreover have st: "store buf 4 (word_of_int (?n div 256)) = Some (put buf 4 [word_of_int (?n div 256)])"
    "store (put buf 4 [word_of_int (?n div 256)]) 5 (word_of_int (?n mod 256)) = Some ?b"
    using assms(1) l by (simp_all add: buf_simps)
  moreover have n: "(if len = 0 then int datalen - int (unat (packetbuf_hdr_len s)) + int (unat (uncomp_hdr_len s)) - int UIP_IPH_LEN
      else int (unat len) - int UIP_IPH_LEN) = ?n"
    by (simp add: ip_payload_len_def iphc_consts)
  ultimately show ?thesis
    unfolding uncompress_len_def prod.case Let_def n st Option.bind.bind_lunit by simp
qed

lemma advance_fields [simp]:
  "packetbuf (advance n s) = packetbuf s" "packetbuf_ptr (advance n s) = packetbuf_ptr s"
  "packetbuf_hdr_len (advance n s) = packetbuf_hdr_len s" "uncomp_hdr_len (advance n s) = uncomp_hdr_len s"
  "hc06_ptr (advance n s) = hc06_ptr s + n" "PACKETBUF_IPHC_BUF (advance n s) i = PACKETBUF_IPHC_BUF s i"
  by (simp_all add: advance_def PACKETBUF_IPHC_BUF_def)

lemma uncompress_hdr_iphc_bytes:
  assumes "length h = 48" and "drop_bit 4 (h_vtc h) = 6" and "contexts_ok cs" and "\<not> src_prefix_lost cs h"
    and "length sl = 8" and "length dl = 8"
    and "bytes_at (packetbuf r) (packetbuf_ptr r + unat (packetbuf_hdr_len r)) (iphc_bytes cs sl dl h)"
    and "accessible buf 0 48"
  shows "uncompress_hdr_iphc cs sl dl datalen len (r, buf) =
    Some (uncompressed h (length (iphc_bytes cs sl dl h)) r,
      put_headers h (ip_payload_len (uncompressed h (length (iphc_bytes cs sl dl h)) r) datalen len) buf)"
proof -
  obtain f k xs where x: "src_enc cs sl h = (f, k, xs)" by (metis prod_cases3)
  obtain g j ys where y: "dest_enc cs dl h = (g, j, ys)" by (metis prod_cases3)
  define i0 where "i0 = 0x60 OR tf_flags h OR nh_flag h OR ttl_flag h"
  define i1 where "i1 = (if has_cid cs h then 0x80 else 0) OR f OR g"
  define cb where "cb = (if has_cid cs h then [k OR j] else [])"
  let ?q = "packetbuf_ptr r + unat (packetbuf_hdr_len r)" and ?u = "if h_proto h = UIP_PROTO_UDP then udp_bytes h else []"
  let ?t = "tf_bytes h" and ?n = "nh_bytes h" and ?l = "ttl_bytes h"
  have bs: "iphc_bytes cs sl dl h = [i0, i1] @ cb @ ?t @ ?n @ ?l @ xs @ ys @ ?u"
    by (simp add: iphc_bytes_def inline_bytes_def x y i0_def i1_def cb_def)
  note f0 = iphc0_flags [OF i0_def]
  note f1 = iphc1_flags [OF src_enc_flags(1) [OF x assms(3)] dest_enc_flags(1) [OF y assms(3)] src_enc_flags(2) [OF x assms(3)] i1_def]
  note cb = context_byte [OF src_enc_flags(3) [OF x assms(3)] dest_enc_flags(2) [OF y assms(3)]]
  define S where "S p = r\<lparr>hc06_ptr := p\<rparr>" for p
  have S [simp]: "packetbuf (S p) = packetbuf r" "hc06_ptr (S p) = p" "advance n (S p) = S (p + n)" "PACKETBUF_IPHC_BUF (S p) i = ?q + i"
    "packetbuf_ptr (S p) = packetbuf_ptr r" "packetbuf_hdr_len (S p) = packetbuf_hdr_len r" "uncomp_hdr_len (S p) = uncomp_hdr_len r" for p n i
    by (simp_all add: S_def advance_def PACKETBUF_IPHC_BUF_def)
  define p1 where "p1 = ?q + 2 + length cb"
  define p2 where "p2 = p1 + length ?t"
  define p3 where "p3 = p2 + length ?n"
  define p4 where "p4 = p3 + length ?l"
  define p5 where "p5 = p4 + length xs"
  define p6 where "p6 = p5 + length ys"
  note ps = p2_def [symmetric] p3_def [symmetric] p4_def [symmetric] p5_def [symmetric] p6_def [symmetric]
  have "bytes_at (packetbuf r) ?q [i0, i1]" "bytes_at (packetbuf r) (?q + 2) cb" and at: "bytes_at (packetbuf r) p1 ?t"
    "bytes_at (packetbuf r) p2 ?n" "bytes_at (packetbuf r) p3 ?l" "bytes_at (packetbuf r) p4 xs" "bytes_at (packetbuf r) p5 ys"
    "bytes_at (packetbuf r) p6 ?u"
    using assms(7) unfolding bs bytes_at_append by (simp_all add: p1_def p2_def p3_def p4_def p5_def p6_def add.assoc)
  then have i: "packetbuf r ?q = Some i0" "packetbuf r (?q + 1) = Some i1" and c: "has_cid cs h \<Longrightarrow> packetbuf r (?q + 2) = Some (k OR j)"
    by (simp_all add: bytes_at_Cons cb_def)
  define B1 where "B1 = put buf 0 (take 4 h)"
  define B2 where "B2 = (if h_proto h = UIP_PROTO_UDP then B1 else put B1 6 [h_proto h])"
  define B3 where "B3 = put B2 7 [h_ttl h]"
  define B4 where "B4 = put B3 8 (h_srcipaddr h)"
  define B5 where "B5 = put B4 24 (h_destipaddr h)"
  have acc: "accessible B1 0 48" "accessible B2 0 48" "accessible B3 0 48" "accessible B4 0 48" "accessible B5 0 48"
    using assms(1,8) by (simp_all add: B1_def B2_def B3_def B4_def B5_def buf_simps)
  have tf: "uncompress_tf i0 (S p1, buf) = Some (S p2, B1)"
    using uncompress_tf_step [of "S p1" h buf i0] at(1) assms(1,2,8) f0 by (simp add: ps B1_def)
  have nh: "uncompress_nh i0 (S p2, B1) = Some (S p3, B2)"
    using uncompress_nh_step [of "S p2" h B1 i0] at(2) acc(1) f0 by (simp add: ps B2_def)
  have ttl: "uncompress_ttl i0 (S p3, B2) = Some (S p4, B3)"
    using uncompress_ttl_step [of "S p3" h B2 i0] at(3) acc(2) f0 by (simp add: ps B3_def)
  have src: "uncompress_src cs sl i1 (S p4, B3) = Some (False, S p5, B4)"
    using uncompress_src_step [OF x, of "S p4" B3 i1 "k OR j"] at(4) acc(3) assms(1,3-5) f1 c cb(1)
    by (simp add: ps B4_def has_cid_def)
  have dest: "uncompress_dest cs dl i1 (S p5, B4) = Some (False, S p6, B5)"
    using uncompress_dest_step [OF y, of "S p5" B4 i1 "k OR j"] at(5) acc(4) assms(1,3,6) f1 c cb(2)
    by (simp add: ps B5_def has_cid_def)
  let ?len = "length (iphc_bytes cs sl dl h)"
  define e where "e = p6 + length ?u"
  have e: "e = ?q + ?len" unfolding bs e_def p6_def p5_def p4_def p3_def p2_def p1_def by simp
  define B6 where "B6 = (if h_proto h = UIP_PROTO_UDP
    then put (put (put (put B5 6 [UIP_PROTO_UDP]) 40 (h_srcport h)) 42 (h_destport h)) 46 (h_udpchksum h) else B5)"
  define E where "E = (S e)\<lparr>uncomp_hdr_len := uncomp_hdr_len r + (if h_proto h = UIP_PROTO_UDP then 48 else 40)\<rparr>"
  have udp: "(if i0 AND SICSLOWPAN_IPHC_NH_C \<noteq> 0
      then uncompress_udp ((S p6)\<lparr>uncomp_hdr_len := uncomp_hdr_len r + of_nat UIP_IPH_LEN\<rparr>, B5)
      else Some ((S p6)\<lparr>uncomp_hdr_len := uncomp_hdr_len r + of_nat UIP_IPH_LEN\<rparr>, B5)) = Some (E, B6)"
  proof (cases "h_proto h = UIP_PROTO_UDP")
    case True
    have "bytes_at (packetbuf ((S p6)\<lparr>uncomp_hdr_len := uncomp_hdr_len r + 40\<rparr>)) (hc06_ptr ((S p6)\<lparr>uncomp_hdr_len := uncomp_hdr_len r + 40\<rparr>)) (udp_bytes h)"
      using at(6) True by simp
    from uncompress_udp_step [OF this acc(5)] show ?thesis using True f0(3)
      by (simp add: E_def B6_def e_def S_def advance_def iphc_consts(6,30) UIP_IPH_LEN_def add.assoc)
  next
    case False
    then show ?thesis using f0(3) by (simp add: E_def B6_def e_def iphc_consts(6) UIP_IPH_LEN_def)
  qed
  have acc6: "accessible B6 0 48" using acc(5) by (simp add: B6_def buf_simps)
  have b6: "B6 6 = Some (h_proto h)"
    using assms(1) by (simp add: B6_def B5_def B4_def B3_def B2_def put_def)
  have start: "(if i1 AND SICSLOWPAN_IPHC_CID \<noteq> 0 then advance 1 (S (?q + 2)) else S (?q + 2)) = S p1"
    using f1(3) by (simp add: SICSLOWPAN_IPHC_CID_def p1_def cb_def)
  have ends: "E\<lparr>packetbuf_hdr_len := of_nat (hc06_ptr E - packetbuf_ptr E)\<rparr> = uncompressed h ?len r"
    by (simp add: E_def uncompressed_def S_def e)
  have i': "packetbuf r (?q + 0) = Some i0" "packetbuf r (?q + 1) = Some i1" using i by simp_all
  have s: "r\<lparr>hc06_ptr := ?q + 2\<rparr> = S (?q + 2)" by (simp add: S_def)
  have "uncompress_hdr_iphc cs sl dl datalen len (r, buf) = uncompress_len datalen len (uncompressed h ?len r, B6)"
    unfolding uncompress_hdr_iphc_def prod.case Let_def s S(1,4) i' Option.bind.bind_lunit start tf nh ttl src dest if_False
      S(7) udp ends ..
  then show ?thesis unfolding uncompress_len_step [OF acc6 b6]
    by (simp add: put_headers_def Let_def B1_def B2_def B3_def B4_def B5_def B6_def)
qed

text \<open>
  C4: Whatever header \<open>compress_hdr_iphc\<close> wrote, \<open>uncompress_hdr_iphc\<close> reads back byte for byte, for all traffic classes, flow labels,
  next headers, hop limits, addresses and ports of a version 6 header whose length fields are right, when both sides have the same
  contexts and link-layer addresses, in a datagram that is a fragment or not, and it sets the lengths of both forms and writes nothing behind the header. The exception
  is a link-local source address that has bits set behind its first 16 and a destination that has none there.
\<close>

theorem iphc_roundtrip:
  assumes "length h = 48" and "drop_bit 4 (h_vtc h) = 6" and "contexts_ok cs" and "length sl = 8" and "length dl = 8"
    and "\<not> src_prefix_lost cs h"
    and "accessible (packetbuf s) (packetbuf_ptr s) 48" and "packetbuf_hdr_len s = 0"
    and "compress_hdr_iphc cs sl dl h s = Some s1"
    and "bytes_at (packetbuf s1) (packetbuf_ptr s1) bs" and "length bs = unat (packetbuf_hdr_len s1)"
    and "bytes_at (packetbuf r) (packetbuf_ptr r + unat (packetbuf_hdr_len r)) bs" and "unat (packetbuf_hdr_len r) \<le> 4" and "uncomp_hdr_len r = 0"
    and "datalen = unat (packetbuf_hdr_len r) + length bs + payload"
    and "n = (if len = 0 then int payload + (if h_proto h = UIP_PROTO_UDP then 8 else 0) else int (unat len) - 40)"
    and "[h ! 4, h ! 5] = len_bytes n" and "h_proto h = UIP_PROTO_UDP \<Longrightarrow> [h ! 44, h ! 45] = len_bytes n"
    and "accessible buf 0 48"
  shows "\<exists>r' buf'. uncompress_hdr_iphc cs sl dl datalen len (r, buf) = Some (r', buf') \<and>
    bytes_at buf' 0 (take (unat (uncomp_hdr_len s1)) h) \<and> uncomp_hdr_len r' = uncomp_hdr_len s1 \<and>
    unat (packetbuf_hdr_len r') = unat (packetbuf_hdr_len r) + length bs \<and> packetbuf r' = packetbuf r \<and>
    (\<forall>q \<ge> 48. buf' q = buf q)"
proof -
  let ?bs = "iphc_bytes cs sl dl h" and ?len = "length (iphc_bytes cs sl dl h)"
  note c = compress_hdr_iphc_put [OF assms(7,8), of cs sl dl h]
  have l: "?len \<le> 48" using c by blast
  have u: "unat (of_nat ?len :: u8) = ?len" using l by (simp add: unat_of_nat)
  have s1: "packetbuf s1 = put (packetbuf s) (packetbuf_ptr s) ?bs" "packetbuf_ptr s1 = packetbuf_ptr s"
    "packetbuf_hdr_len s1 = of_nat ?len" "uncomp_hdr_len s1 = (if h_proto h = UIP_PROTO_UDP then 48 else 40)"
    using c assms(9) by auto
  then have "length bs = ?len" using assms(11) u by simp
  then have bs: "bs = ?bs" using assms(10) bytes_at_put unfolding s1(1,2) by (rule bytes_at_unique [rotated 2])
  let ?r = "uncompressed h ?len r" and ?n = "ip_payload_len (uncompressed h ?len r) datalen len"
  have "unat (packetbuf_hdr_len r + of_nat ?len) = unat (packetbuf_hdr_len r) + ?len"
    using l assms(13) u by (subst unat_add_lem [THEN iffD1]) simp_all
  then have r: "unat (packetbuf_hdr_len ?r) = unat (packetbuf_hdr_len r) + ?len" "uncomp_hdr_len ?r = uncomp_hdr_len s1"
    "packetbuf ?r = packetbuf r"
    using assms(14) s1(4) by (simp_all add: uncompressed_def)
  have n: "?n = n" using assms(15,16) r s1(4) bs by (simp add: ip_payload_len_def)
  have len: "[h ! 4, h ! 5] = len_bytes ?n" "h_proto h = UIP_PROTO_UDP \<Longrightarrow> [h ! 44, h ! 45] = len_bytes ?n"
    using assms(17,18) unfolding n by simp_all
  have "take (unat (uncomp_hdr_len s1)) h = (if h_proto h = UIP_PROTO_UDP then h else take 40 h)"
    using s1(4) assms(1) by simp
  then have "bytes_at (put_headers h ?n buf) 0 (take (unat (uncomp_hdr_len s1)) h)"
    using put_headers_bytes [OF assms(1) len] by simp
  then show ?thesis
    using uncompress_hdr_iphc_bytes [OF assms(1-3,6,4,5) assms(12) [unfolded bs] assms(19), of datalen len] r bs
      put_headers_outside [OF assms(1)] by auto
qed

text \<open>A sample: traffic class and flow label inline, addresses compressed, both ports short, a payload of 4 bytes.\<close>

definition sample_header :: "u8 list" where
  "sample_header =
    [0x6a, 0xb1, 0x23, 0x45, 0, 12, 17, 33,
     0xfe, 0x80, 0, 0, 0, 0, 0, 0, 1, 2, 3, 4, 5, 6, 7, 8,
     0xff, 0x02, 0, 0, 0, 0, 0, 0, 0, 0, 0, 9, 8, 7, 6, 5,
     0xf0, 0xb3, 0xf0, 0xb8, 0, 12, 77, 88]"

definition sample_contexts :: "sicslowpan_addr_context list" where
  "sample_contexts = [\<lparr>cx_used = 1, cx_number = 0, cx_prefix = [0xaa, 0xaa, 0, 0, 0, 0, 0, 0]\<rparr>]"

definition sample_lladdr :: "u8 list" where "sample_lladdr = [2, 0, 0, 0, 0, 0, 0, 9]"

definition sample_hc :: hc where
  "sample_hc = \<lparr>packetbuf = (\<lambda>_. Some 0), packetbuf_ptr = 10, packetbuf_hdr_len = 0, uncomp_hdr_len = 0, hc06_ptr = 0\<rparr>"

lemma sample_header_length: "length sample_header = 48"
  by (simp add: sample_header_def)

lemma sample_header_fields:
  "drop_bit 4 (h_vtc sample_header) = 6" "[sample_header ! 4, sample_header ! 5] = len_bytes 12"
  "[sample_header ! 44, sample_header ! 45] = len_bytes 12" "h_proto sample_header = UIP_PROTO_UDP"
  by (simp_all add: sample_header_def len_bytes_def UIP_PROTO_UDP_def)

lemma sample_contexts_ok: "contexts_ok sample_contexts"
  by (simp add: contexts_ok_def sample_contexts_def)

lemma sample_prefix_kept: "\<not> src_prefix_lost sample_contexts sample_header"
  by (simp add: src_prefix_lost_def u16s_zero_def u16_zero_def sample_header_def numeral_eq_Suc)

lemma accessible_all: "accessible (\<lambda>_. Some 0) p n"
  by (simp add: accessible_def)

theorem compress_hdr_iphc_exact_witness:
  "\<exists>s1. compress_hdr_iphc sample_contexts sample_lladdr sample_lladdr sample_header sample_hc = Some s1 \<and>
    bytes_at (packetbuf s1) 10 (iphc_bytes sample_contexts sample_lladdr sample_lladdr sample_header) \<and> uncomp_hdr_len s1 = 48"
  using compress_hdr_iphc_exact [of sample_hc sample_contexts sample_lladdr sample_lladdr sample_header] sample_header_fields(4)
  by (auto simp: sample_hc_def accessible_all bytes_at_put)

theorem iphc_roundtrip_witness:
  "\<exists>s1. compress_hdr_iphc sample_contexts sample_lladdr sample_lladdr sample_header sample_hc = Some s1 \<and>
    (\<exists>r' buf'. uncompress_hdr_iphc sample_contexts sample_lladdr sample_lladdr (unat (packetbuf_hdr_len s1) + 4) 0
        (s1\<lparr>packetbuf_hdr_len := 0, uncomp_hdr_len := 0\<rparr>, \<lambda>_. Some 0) = Some (r', buf') \<and>
      bytes_at buf' 0 sample_header)"
proof -
  let ?bs = "iphc_bytes sample_contexts sample_lladdr sample_lladdr sample_header"
  have acc: "accessible (packetbuf sample_hc) (packetbuf_ptr sample_hc) 48" and z: "packetbuf_hdr_len sample_hc = 0"
    by (simp_all add: sample_hc_def accessible_all)
  obtain s1 where s1: "compress_hdr_iphc sample_contexts sample_lladdr sample_lladdr sample_header sample_hc = Some s1"
    "packetbuf s1 = put (packetbuf sample_hc) (packetbuf_ptr sample_hc) ?bs" "packetbuf_ptr s1 = packetbuf_ptr sample_hc"
    "packetbuf_hdr_len s1 = of_nat (length ?bs)" "uncomp_hdr_len s1 = 48" and l: "length ?bs \<le> 48"
    using compress_hdr_iphc_put [OF acc z, of sample_contexts sample_lladdr sample_lladdr sample_header] sample_header_fields(4)
    by auto
  have b: "bytes_at (packetbuf s1) (packetbuf_ptr s1) ?bs" unfolding s1(2,3) by (rule bytes_at_put)
  have u: "length ?bs = unat (packetbuf_hdr_len s1)" unfolding s1(4) using l by (simp add: unat_of_nat)
  let ?r = "s1\<lparr>packetbuf_hdr_len := 0, uncomp_hdr_len := 0\<rparr>"
  have "\<exists>r' buf'. uncompress_hdr_iphc sample_contexts sample_lladdr sample_lladdr (unat (packetbuf_hdr_len s1) + 4) 0 (?r, \<lambda>_. Some 0) =
      Some (r', buf') \<and> bytes_at buf' 0 (take (unat (uncomp_hdr_len s1)) sample_header) \<and> uncomp_hdr_len r' = uncomp_hdr_len s1 \<and>
      unat (packetbuf_hdr_len r') = unat (packetbuf_hdr_len ?r) + length ?bs \<and> packetbuf r' = packetbuf ?r \<and> (\<forall>q \<ge> 48. buf' q = Some 0)"
    using b u sample_header_fields
    by (intro iphc_roundtrip [OF sample_header_length _ sample_contexts_ok _ _ sample_prefix_kept acc z s1(1) b u, where payload = 4 and n = 12])
      (simp_all add: sample_lladdr_def accessible_all)
  then show ?thesis using s1(1,5) sample_header_length by auto
qed

subsection \<open>The source address that is lost\<close>

lemma iid_same: "drop 8 a = drop 8 b \<Longrightarrow> length a = 16 \<Longrightarrow> length b = 16 \<Longrightarrow> iid_mode a l = iid_mode b l \<and> iid_bytes a l = iid_bytes b l"
proof -
  assume a: "drop 8 a = drop 8 b" "length a = 16" "length b = 16"
  have "a ! (8 + i) = b ! (8 + i)" if "i < 8" for i
    using arg_cong [OF a(1), of "\<lambda>x. x ! i"] a(2,3) that by simp
  from this [of 0] this [of 1] this [of 2] this [of 3] this [of 4] this [of 5] this [of 6] this [of 7]
  have e: "a ! 8 = b ! 8" "a ! 9 = b ! 9" "a ! 10 = b ! 10" "a ! 11 = b ! 11" "a ! 12 = b ! 12" "a ! 13 = b ! 13"
    "a ! 14 = b ! 14" "a ! 15 = b ! 15" by simp_all
  have "take 2 (drop 14 a) = take 2 (drop 14 b)" unfolding tail_2 [OF a(2)] tail_2 [OF a(3)] using e by simp
  moreover have "uip_is_addr_mac_addr_based a l = uip_is_addr_mac_addr_based b l" using e by (simp add: uip_is_addr_mac_addr_based_def)
  moreover have "sicslowpan_is_iid_16_bit_compressable a = sicslowpan_is_iid_16_bit_compressable b"
    using e by (simp add: sicslowpan_is_iid_16_bit_compressable_def u16_zero_def)
  ultimately show ?thesis using a(1) by (simp only: iid_mode_def iid_bytes_def)
qed

text \<open>The header with zeros in the place of the bytes of the source address that lie between the link-local prefix and the interface identifier.\<close>

definition src_net_zeroed :: "u8 list \<Rightarrow> u8 list" where
  "src_net_zeroed h = take 10 h @ replicate 6 0 @ drop 16 h"

lemma src_net_zeroed_fields:
  assumes "length h = 48"
  shows "length (src_net_zeroed h) = 48" "h_destipaddr (src_net_zeroed h) = h_destipaddr h"
    "h_srcipaddr (src_net_zeroed h) = take 2 (h_srcipaddr h) @ replicate 6 0 @ drop 8 (h_srcipaddr h)"
    "i < 10 \<or> 16 \<le> i \<Longrightarrow> src_net_zeroed h ! i = h ! i"
  using assms by (auto simp: src_net_zeroed_def nth_append take_drop min_absorb2)

lemma iphc_bytes_zeroed:
  assumes "length h = 48" and "addr_context_lookup_by_prefix cs (h_srcipaddr h) = None"
    and "addr_context_lookup_by_prefix cs (h_srcipaddr (src_net_zeroed h)) = None"
    and "uip_is_addr_linklocal (h_srcipaddr h)" and "u16s_zero (h_destipaddr h)"
  shows "iphc_bytes cs sl dl (src_net_zeroed h) = iphc_bytes cs sl dl h"
proof -
  let ?h = "src_net_zeroed h" and ?a = "h_srcipaddr h"
  note z = src_net_zeroed_fields [OF assms(1)]
  have n: "?h ! 0 = h ! 0" "?h ! 1 = h ! 1" "?h ! 2 = h ! 2" "?h ! 3 = h ! 3" "?h ! 6 = h ! 6" "?h ! 7 = h ! 7" "?h ! 40 = h ! 40" "?h ! 41 = h ! 41"
    "?h ! 42 = h ! 42" "?h ! 43 = h ! 43" "?h ! 46 = h ! 46" "?h ! 47 = h ! 47"
    using z(4) by simp_all
  have d: "drop 8 (h_srcipaddr ?h) = drop 8 ?a" and l: "length (h_srcipaddr ?h) = 16" "length ?a = 16" unfolding z(3) using assms(1) by simp_all
  note same = iid_same [OF d l, of sl]
  have p: "h_srcipaddr ?h ! 0 = ?a ! 0" "h_srcipaddr ?h ! 1 = ?a ! 1" unfolding z(3) using assms(1) by (simp_all add: nth_append)
  then have ll: "uip_is_addr_linklocal (h_srcipaddr ?h)" using assms(4) by (simp add: uip_is_addr_linklocal_def)
  then have u: "\<not> uip_is_addr_unspecified (h_srcipaddr ?h)" "\<not> uip_is_addr_unspecified ?a" using assms(4)
    by (auto simp: uip_is_addr_linklocal_def uip_is_addr_unspecified_def u16_zero_def)
  have src: "src_enc cs sl ?h = src_enc cs sl h" using assms(2-5) u ll same z(2)
    by (simp add: src_enc_def u16s_zero_def Let_def)
  have dst: "dest_enc cs dl ?h = dest_enc cs dl h" by (simp add: dest_enc_def z(2))
  have c: "has_cid cs ?h = has_cid cs h" using assms(2,3) by (simp add: has_cid_def z(2))
  show ?thesis unfolding iphc_bytes_def inline_bytes_def src dst c tf_flags_def nh_flag_def ttl_flag_def tf_bytes_def nh_bytes_def ttl_bytes_def
      udp_bytes_def iphc_tmp_def n ..
qed

text \<open>
  C33: The test whether the bytes behind the link-local prefix of the source address are zero reads those of the destination address. When
  they are zero there and not in the source address, and no context has the prefix of the source address, with or without these bytes,
  \<open>compress_hdr_iphc\<close> writes what it writes for the header with zeros in their place, and the receiver decompresses that source address, not
  the one that was sent.
\<close>

theorem iphc_source_prefix_lost:
  assumes "length h = 48" and "drop_bit 4 (h_vtc h) = 6" and "contexts_ok cs" and "length sl = 8" and "length dl = 8"
    and "uip_is_addr_linklocal (h_srcipaddr h)" and "u16s_zero (h_destipaddr h)" and "\<not> u16s_zero (h_srcipaddr h)"
    and "addr_context_lookup_by_prefix cs (h_srcipaddr h) = None"
    and "addr_context_lookup_by_prefix cs (h_srcipaddr (src_net_zeroed h)) = None"
    and "accessible (packetbuf s) (packetbuf_ptr s) 48" and "packetbuf_hdr_len s = 0"
    and "compress_hdr_iphc cs sl dl h s = Some s1"
    and "bytes_at (packetbuf s1) (packetbuf_ptr s1) bs" and "length bs = unat (packetbuf_hdr_len s1)"
    and "bytes_at (packetbuf r) (packetbuf_ptr r + unat (packetbuf_hdr_len r)) bs" and "accessible buf 0 48"
  shows "compress_hdr_iphc cs sl dl (src_net_zeroed h) s = Some s1 \<and>
    (\<exists>r' buf'. uncompress_hdr_iphc cs sl dl datalen len (r, buf) = Some (r', buf') \<and>
      bytes_at buf' 8 (h_srcipaddr (src_net_zeroed h)) \<and> \<not> bytes_at buf' 8 (h_srcipaddr h))"
proof -
  let ?h = "src_net_zeroed h" and ?a = "h_srcipaddr h" and ?bs = "iphc_bytes cs sl dl h"
  note z = src_net_zeroed_fields [OF assms(1)] and e = iphc_bytes_zeroed [OF assms(1,9,10,6,7)]
  note c = compress_hdr_iphc_put [OF assms(11,12), of cs sl dl]
  have proto: "h_proto ?h = h_proto h" "drop_bit 4 (h_vtc ?h) = 6" using z(4) assms(2) by simp_all
  have same: "compress_hdr_iphc cs sl dl ?h s = compress_hdr_iphc cs sl dl h s" using c [of h] c [of ?h] unfolding e proto by simp
  have l: "length ?bs \<le> 48" using c by blast
  have s1: "packetbuf s1 = put (packetbuf s) (packetbuf_ptr s) ?bs" "packetbuf_ptr s1 = packetbuf_ptr s" "packetbuf_hdr_len s1 = of_nat (length ?bs)"
    using c [of h] assms(13) by auto
  have "length bs = length ?bs" using assms(15) s1(3) l by (simp add: unat_of_nat)
  then have bs: "bs = ?bs" using assms(14) bytes_at_put unfolding s1(1,2) by (rule bytes_at_unique [rotated 2])
  have zero: "u16s_zero (h_srcipaddr ?h)" unfolding z(3) using assms(1) by (simp add: u16s_zero_def u16_zero_def nth_append)
  then have kept: "\<not> src_prefix_lost cs ?h" by (simp add: src_prefix_lost_def)
  note u = uncompress_hdr_iphc_bytes [OF z(1) proto(2) assms(3) kept assms(4,5) assms(16) [unfolded bs e [symmetric]] assms(17), of datalen len]
  let ?buf = "put_headers ?h (ip_payload_len (uncompressed ?h (length (iphc_bytes cs sl dl ?h)) r) datalen len) buf"
  have b: "bytes_at ?buf 8 (h_srcipaddr ?h)" using z(1)
    by (simp add: put_headers_def Let_def bytes_at_put bytes_at_put_outside len_bytes_def min_absorb2)
  have "h_srcipaddr ?h \<noteq> ?a" using zero assms(8) by metis
  then have "\<not> bytes_at ?buf 8 ?a" using bytes_at_unique [OF _ b, of ?a] z(1) assms(1) by auto
  then show ?thesis using same assms(13) u b by simp
qed

definition lost_header :: "u8 list" where
  "lost_header =
    [0x60, 0, 0, 0, 0, 0, 58, 64,
     0xfe, 0x80, 0, 0, 0, 0, 0, 7, 0, 0, 0, 0, 0, 0, 0, 1,
     0xfe, 0x80, 0, 0, 0, 0, 0, 0, 0, 0, 0, 0, 0, 0, 0, 2,
     0, 0, 0, 0, 0, 0, 0, 0]"

theorem iphc_source_prefix_lost_witness:
  "\<exists>s1 r' buf'. compress_hdr_iphc sample_contexts sample_lladdr sample_lladdr lost_header sample_hc = Some s1 \<and>
    uncompress_hdr_iphc sample_contexts sample_lladdr sample_lladdr 20 0 (s1\<lparr>packetbuf_hdr_len := 0\<rparr>, \<lambda>_. Some 0) = Some (r', buf') \<and>
    bytes_at buf' 8 [0xfe, 0x80, 0, 0, 0, 0, 0, 0, 0, 0, 0, 0, 0, 0, 0, 1] \<and>
    \<not> bytes_at buf' 8 [0xfe, 0x80, 0, 0, 0, 0, 0, 7, 0, 0, 0, 0, 0, 0, 0, 1]"
proof -
  let ?bs = "iphc_bytes sample_contexts sample_lladdr sample_lladdr lost_header"
  have acc: "accessible (packetbuf sample_hc) (packetbuf_ptr sample_hc) 48" and z: "packetbuf_hdr_len sample_hc = 0"
    by (simp_all add: sample_hc_def accessible_all)
  have a: "h_srcipaddr lost_header = [0xfe, 0x80, 0, 0, 0, 0, 0, 7, 0, 0, 0, 0, 0, 0, 0, 1]"
    "h_srcipaddr (src_net_zeroed lost_header) = [0xfe, 0x80, 0, 0, 0, 0, 0, 0, 0, 0, 0, 0, 0, 0, 0, 1]"
    "h_destipaddr lost_header = [0xfe, 0x80, 0, 0, 0, 0, 0, 0, 0, 0, 0, 0, 0, 0, 0, 2]"
    "length lost_header = 48"
    by (simp_all add: lost_header_def src_net_zeroed_def eval_nat_numeral)
  have v: "drop_bit 4 (h_vtc lost_header) = 6" by (simp add: lost_header_def)
  have lost: "uip_is_addr_linklocal (h_srcipaddr lost_header)" "u16s_zero (h_destipaddr lost_header)" "\<not> u16s_zero (h_srcipaddr lost_header)"
    "addr_context_lookup_by_prefix sample_contexts (h_srcipaddr lost_header) = None"
    "addr_context_lookup_by_prefix sample_contexts (h_srcipaddr (src_net_zeroed lost_header)) = None"
    unfolding a(1-3) by (simp_all add: u16s_zero_def u16_zero_def uip_is_addr_linklocal_def addr_context_lookup_by_prefix_def sample_contexts_def)
  obtain s1 where s1: "compress_hdr_iphc sample_contexts sample_lladdr sample_lladdr lost_header sample_hc = Some s1"
    "packetbuf s1 = put (packetbuf sample_hc) (packetbuf_ptr sample_hc) ?bs" "packetbuf_ptr s1 = packetbuf_ptr sample_hc"
    "packetbuf_hdr_len s1 = of_nat (length ?bs)" and l: "length ?bs \<le> 48"
    using compress_hdr_iphc_put [OF acc z, of sample_contexts sample_lladdr sample_lladdr lost_header] by auto
  have b: "bytes_at (packetbuf s1) (packetbuf_ptr s1) ?bs" unfolding s1(2,3) by (rule bytes_at_put)
  have u: "length ?bs = unat (packetbuf_hdr_len s1)" using s1(4) l by (simp add: unat_of_nat)
  have "length sample_lladdr = 8" by (simp add: sample_lladdr_def)
  from iphc_source_prefix_lost [OF a(4) v sample_contexts_ok this this lost acc z s1(1) b u,
      of "s1\<lparr>packetbuf_hdr_len := 0\<rparr>" "\<lambda>_. Some 0" 20 0, unfolded a(1,2)] b s1(1)
  show ?thesis by (auto simp: accessible_all)
qed

end
