(* ===== verification/Sicslowpan_Session.thy ===== *)
theory Sicslowpan_Session
  imports Sicslowpan Iphc_Roundtrip
begin

section \<open>Sessions of fragments\<close>

text \<open>
  What \<open>input\<close> does to the sessions and fragment buffers: every buffer in use belongs to an open session; the
  fragments of a packet, in any order behind the first one, are put together to the packet; and a fragment that is
  longer than its buffer is written over the end of it.
\<close>

subsection \<open>Reading frames\<close>

lemma get16: "m (p + i) = Some a \<Longrightarrow> m (p + i + 1) = Some b \<Longrightarrow> GET16 m p i = Some (push_bit 8 (ucast a) OR ucast b)"
  by (simp add: GET16_def)

definition hi :: "u16 \<Rightarrow> u8" where "hi v = ucast (drop_bit 8 v AND 0xff)"
definition lo :: "u16 \<Rightarrow> u8" where "lo v = ucast (v AND 0xff)"

lemma hi_lo: "push_bit 8 (ucast (hi v)) OR ucast (lo v) = v"
proof -
  have m: "(0xff :: u16) = mask 8" by (simp add: mask_eq_exp_minus_1)
  show ?thesis unfolding hi_def lo_def m
    by (rule bit_word_eqI) (auto simp: bit_or_iff bit_push_bit_iff bit_ucast_iff bit_and_iff bit_mask_iff bit_drop_bit_eq)
qed

lemma get16_bytes: "bytes_at m (p + i) [hi v, lo v] \<Longrightarrow> GET16 m p i = Some v"
  using get16 [of m p i "hi v" "lo v"] hi_lo [of v] by (simp add: bytes_at_Cons)

lemma set16_put: "accessible m (p + i) 2 \<Longrightarrow> SET16 p i v m = Some (put m (p + i) [hi v, lo v])"
  by (simp add: SET16_def hi_def lo_def accessible_Suc numeral_2_eq_2 store_def put_Cons)

lemma memcpy_put:
  assumes "accessible dst p (length bs)" and "bytes_at src q bs" and "n = int (length bs)"
  shows "memcpy dst p src q n = Some (put dst p bs)"
  using assms by (simp add: memcpy_def load_bytes store_list_put)

text \<open>Eleven bits of a datagram size beside the five of a dispatch.\<close>

lemma dispatch_bits:
  fixes d v :: u16
  assumes "v < 2048" and "d AND 0x07ff = 0"
  shows "(d OR v) AND 0x07ff = v" and "(d OR v) AND 0xf800 = d"
proof -
  have m: "(0x07ff :: u16) = mask 11" by (simp add: mask_eq_exp_minus_1)
  have v: "v AND 0x07ff = v" unfolding m
    using assms(1) by (simp add: word_unat_eq_iff and_mask_eq_mod word_less_nat_alt)
  then show "(d OR v) AND 0x07ff = v" by (simp add: bit.conj_disj_distrib2 assms(2))
  have n: "(0xf800 :: u16) = NOT 0x07ff" by simp
  have "v AND 0xf800 = 0" by (subst v [symmetric]) (simp add: and.assoc)
  moreover have "d AND 0xf800 = d" unfolding n
    by (rule bit_word_eqI) (metis assms(2) bit_and_iff bit_not_iff bit_0_eq bot_apply bot_bool_def impossible_bit)
  ultimately show "(d OR v) AND 0xf800 = d" by (simp add: bit.conj_disj_distrib2)
qed

subsection \<open>Sessions and buffers\<close>

text \<open>Every fragment buffer in use belongs to an open session.\<close>

definition frag_ok :: "sics \<Rightarrow> bool" where
  "frag_ok s \<longleftrightarrow> length (frag_info s) = SICSLOWPAN_REASS_CONTEXTS \<and> length (frag_buf s) = SICSLOWPAN_FRAGMENT_BUFFERS \<and>
     (\<forall>b \<in> set (frag_buf s). fb_len b > 0 \<longrightarrow>
       unat (fb_index b) < SICSLOWPAN_REASS_CONTEXTS \<and> fi_len (frag_info s ! unat (fb_index b)) > 0)"

lemma frag_okD: "frag_ok s \<Longrightarrow> length (frag_info s) = 2" "frag_ok s \<Longrightarrow> length (frag_buf s) = 4"
  by (simp_all add: frag_ok_def SICSLOWPAN_REASS_CONTEXTS_def SICSLOWPAN_FRAGMENT_BUFFERS_def)

text \<open>A change of the state that keeps which sessions are open, and the buffers, keeps this.\<close>

lemma frag_ok_same:
  assumes "frag_ok s" and "frag_buf s' = frag_buf s" and "map fi_len (frag_info s') = map fi_len (frag_info s)"
  shows "frag_ok s'"
proof -
  have l: "length (frag_info s') = length (frag_info s)" using assms(3) by (metis length_map)
  have "fi_len (frag_info s' ! i) = fi_len (frag_info s ! i)" if "i < length (frag_info s)" for i
    using arg_cong [OF assms(3), of "\<lambda>x. x ! i"] that l by simp
  then show ?thesis using assms(1,2) l by (simp add: frag_ok_def)
qed

lemma map_fi_len_update: "fi_len f = fi_len (xs ! i) \<Longrightarrow> map fi_len (xs[i := f]) = map fi_len xs"
  by (cases "i < length xs") (simp_all add: map_update list_update_beyond list_update_same_conv)

lemma clear_fragments_ok: "frag_ok s \<Longrightarrow> frag_ok (snd (clear_fragments i s))"
  by (auto simp: frag_ok_def clear_fragments_def fb_clear_def nth_list_update SICSLOWPAN_REASS_CONTEXTS_def split: if_splits)

lemma timeout_step_ok: "frag_ok (snd r) \<Longrightarrow> frag_ok (snd (timeout_step now j i r))"
  using clear_fragments_ok by (auto simp: timeout_step_def split_beta Let_def)

lemma timeout_fragments_ok: "frag_ok s \<Longrightarrow> frag_ok (snd (timeout_fragments now j s))"
proof -
  have "frag_ok (snd r) \<Longrightarrow> frag_ok (snd (fold (timeout_step now j) is r))" for "is" r
    by (induction "is" arbitrary: r) (simp_all add: timeout_step_ok)
  from this [of "(0, s)"] show "frag_ok s \<Longrightarrow> ?thesis" by (simp add: timeout_fragments_def)
qed

lemma timeout_step_keeps: "fi_len (frag_info (snd r) ! j) = fi_len (frag_info (snd (timeout_step now j i r)) ! j)"
  by (cases "j < length (frag_info (snd r))") (auto simp: timeout_step_def split_beta Let_def clear_fragments_def nth_list_update)

lemma timeout_fragments_keeps: "fi_len (frag_info (snd (timeout_fragments now j s)) ! j) = fi_len (frag_info s ! j)"
proof -
  have "fi_len (frag_info (snd (fold (timeout_step now j) is r)) ! j) = fi_len (frag_info (snd r) ! j)" for "is" r
    by (induction "is" arbitrary: r) (simp_all add: timeout_step_keeps [symmetric])
  from this [of _ "(0, s)"] show ?thesis by (simp add: timeout_fragments_def)
qed

lemma store_loop_ok:
  assumes "store_loop is index offset s = Some (n, s')" and "frag_ok s" and "index < 2" and "fi_len (frag_info s ! index) > 0"
  shows "frag_ok s' \<and> frag_info s' = frag_info s"
  using assms
proof (induction "is")
  case (Cons i "is")
  show ?case
  proof (cases "fb_len (frag_buf s ! i) = 0")
    case True
    then obtain b where s': "s' = s\<lparr>frag_buf := (frag_buf s)[i := b]\<rparr>" "fb_index b = of_nat index"
      using Cons.prems(1) by (auto simp: Let_def split: Option.bind_splits)
    have "unat (fb_index b) = index" using s'(2) Cons.prems(3) by (simp add: unat_of_nat)
    then show ?thesis using s'(1) Cons.prems(2-4)
      by (auto simp: frag_ok_def SICSLOWPAN_REASS_CONTEXTS_def dest!: set_update_subset_insert [THEN subsetD])
  next
    case False
    then show ?thesis using Cons by simp
  qed
qed simp

lemma store_fragment_ok:
  "store_fragment index offset s = Some (n, s') \<Longrightarrow> frag_ok s \<Longrightarrow> index < 2 \<Longrightarrow> fi_len (frag_info s ! index) > 0 \<Longrightarrow>
    frag_ok s' \<and> frag_info s' = frag_info s"
  unfolding store_fragment_def by (rule store_loop_ok)

lemma first_step_ok: "frag_ok (snd r) \<Longrightarrow> frag_ok (snd (first_step now i r))"
  using clear_fragments_ok by (auto simp: first_step_def split_beta Let_def)

text \<open>The context a first fragment gets is free.\<close>

lemma first_step_found:
  "(\<And>j. fst r = Some j \<Longrightarrow> j < 2 \<and> fi_len (frag_info (snd r) ! j) = 0) \<Longrightarrow> i < 2 \<Longrightarrow> fst (first_step now i r) = Some j \<Longrightarrow>
    j < 2 \<and> fi_len (frag_info (snd (first_step now i r)) ! j) = 0"
  by (cases "i < length (frag_info (snd r))"; cases "j < length (frag_info (snd r))")
    (auto simp: first_step_def split_beta Let_def clear_fragments_def nth_list_update not_less list_update_beyond split: if_splits)

lemma first_steps_found:
  assumes "frag_ok s"
  shows "frag_ok (snd (fold (first_step now) [0..<SICSLOWPAN_REASS_CONTEXTS] (None, s)))"
    and "fst (fold (first_step now) [0..<SICSLOWPAN_REASS_CONTEXTS] (None, s)) = Some j \<Longrightarrow>
      j < 2 \<and> fi_len (frag_info (snd (fold (first_step now) [0..<SICSLOWPAN_REASS_CONTEXTS] (None, s))) ! j) = 0"
proof -
  have l: "[0..<SICSLOWPAN_REASS_CONTEXTS] = [0, 1]" by (simp add: SICSLOWPAN_REASS_CONTEXTS_def upt_rec)
  show "frag_ok (snd (fold (first_step now) [0..<SICSLOWPAN_REASS_CONTEXTS] (None, s)))"
    unfolding l using assms by (simp add: first_step_ok)
  have 0: "fst (first_step now 0 (None, s)) = Some k \<Longrightarrow> k < 2 \<and> fi_len (frag_info (snd (first_step now 0 (None, s))) ! k) = 0" for k
    by (rule first_step_found) simp_all
  show "fst (fold (first_step now) [0..<SICSLOWPAN_REASS_CONTEXTS] (None, s)) = Some j \<Longrightarrow>
      j < 2 \<and> fi_len (frag_info (snd (fold (first_step now) [0..<SICSLOWPAN_REASS_CONTEXTS] (None, s))) ! j) = 0"
    unfolding l using first_step_found [of "first_step now 0 (None, s)" 1 now j] 0 by simp
qed

lemma frag_ok_open:
  assumes "frag_ok s" and "fi_len (frag_info s ! i) = 0" and "i < 2"
  shows "frag_ok (s\<lparr>frag_info := (frag_info s)[i := f]\<rparr>)"
  using assms by (auto simp: frag_ok_def SICSLOWPAN_REASS_CONTEXTS_def nth_list_update)

lemma add_fragment_ok:
  assumes "add_fragment now maxage tag frag_size offset s = Some (c, s')" and "frag_ok s"
  shows "frag_ok s' \<and> (\<forall>i. c = Some i \<longrightarrow> i < 2)"
proof (cases "offset = 0")
  case True
  let ?r = "fold (first_step now) [0..<SICSLOWPAN_REASS_CONTEXTS] (None, s)"
  note found = first_steps_found [OF assms(2), of now]
  obtain j s1 where r: "?r = (j, s1)" by (cases ?r)
  show ?thesis
  proof (cases j)
    case None
    then show ?thesis using assms(1) found(1) r True by (simp add: add_fragment_def)
  next
    case (Some i)
    then show ?thesis using assms(1) found(1) found(2) [of i] r True
      by (auto simp: add_fragment_def Let_def intro: frag_ok_open)
  qed
next
  case False
  show ?thesis
  proof (cases "find (\<lambda>i. same_session tag (pb_sender s) (frag_info s ! i)) [0..<SICSLOWPAN_REASS_CONTEXTS]")
    case None
    then show ?thesis using assms False by (simp add: add_fragment_def)
  next
    case (Some i)
    then have i: "i < 2" "fi_len (frag_info s ! i) > 0"
      unfolding find_Some_iff by (auto simp: SICSLOWPAN_REASS_CONTEXTS_def same_session_def)
    obtain n1 s1 where st: "store_fragment i offset s = Some (n1, s1)"
      using assms(1) False Some by (auto simp: add_fragment_def split: Option.bind_splits)
    have ok1: "frag_ok s1" "frag_info s1 = frag_info s" using store_fragment_ok [OF st assms(2) i] by auto
    define r2 where "r2 = (if n1 < 0 then (let (n, s) = timeout_fragments now i s1 in if n > 0 then store_fragment i offset s else Some (n1, s))
      else Some (n1, s1))"
    obtain n2 s2 where r2: "r2 = Some (n2, s2)"
      using assms(1) False Some st by (auto simp: add_fragment_def r2_def [symmetric] split: Option.bind_splits)
    have t: "frag_ok (snd (timeout_fragments now i s1))" "fi_len (frag_info (snd (timeout_fragments now i s1)) ! i) > 0"
      using timeout_fragments_ok [OF ok1(1)] timeout_fragments_keeps [of now i s1] i(2) ok1(2) by simp_all
    have ok2: "frag_ok s2"
    proof (cases "n1 < 0")
      case True
      then show ?thesis using r2 t store_fragment_ok [of i offset "snd (timeout_fragments now i s1)" n2 s2] i(1)
        by (auto simp: r2_def split_beta split: if_splits)
    next
      case False
      then show ?thesis using r2 ok1 by (simp add: r2_def)
    qed
    have "add_fragment now maxage tag frag_size offset s = (if n2 > 0 then
        (let f = frag_info s2 ! i; f = f\<lparr>fi_reassembled_len := fi_reassembled_len f + word_of_int n2\<rparr>
         in Some (Some i, s2\<lparr>frag_info := (frag_info s2)[i := f]\<rparr>)) else Some (None, s2))"
      using False Some st r2 by (simp add: add_fragment_def r2_def)
    then show ?thesis using assms(1) ok2 i(1)
      by (auto simp: Let_def map_fi_len_update split: if_splits intro: frag_ok_same [OF ok2])
  qed
qed

subsection \<open>Decompression changes no session\<close>

definition same_rest :: "'a hc_scheme \<Rightarrow> 'a hc_scheme \<Rightarrow> bool" where
  "same_rest s s' \<longleftrightarrow> packetbuf s' = packetbuf s \<and> packetbuf_ptr s' = packetbuf_ptr s \<and> hc.more s' = hc.more s"

lemma same_rest_updates:
  "same_rest s s' \<Longrightarrow> same_rest s (advance n s')" "same_rest s s' \<Longrightarrow> same_rest s (s'\<lparr>hc06_ptr := p\<rparr>)"
  "same_rest s s' \<Longrightarrow> same_rest s (s'\<lparr>packetbuf_hdr_len := h\<rparr>)" "same_rest s s' \<Longrightarrow> same_rest s (s'\<lparr>uncomp_hdr_len := u\<rparr>)"
  by (simp_all add: same_rest_def advance_def)

lemma same_rest_addr:
  "uncompress_addr s' buf a prefix pc l = Some (s'', b) \<Longrightarrow> same_rest s s' \<Longrightarrow> same_rest s s''"
  by (auto simp: uncompress_addr_def Let_def same_rest_updates split: if_splits Option.bind_splits)

lemma same_rest_tf: "uncompress_tf i (s', buf) = Some (s'', b) \<Longrightarrow> same_rest s s' \<Longrightarrow> same_rest s s''"
  by (auto simp: uncompress_tf_def Let_def same_rest_updates split: if_splits Option.bind_splits)

lemma same_rest_nh: "uncompress_nh i (s', buf) = Some (s'', b) \<Longrightarrow> same_rest s s' \<Longrightarrow> same_rest s s''"
  by (auto simp: uncompress_nh_def same_rest_updates split: if_splits Option.bind_splits)

lemma same_rest_ttl: "uncompress_ttl i (s', buf) = Some (s'', b) \<Longrightarrow> same_rest s s' \<Longrightarrow> same_rest s s''"
  by (auto simp: uncompress_ttl_def same_rest_updates split: if_splits Option.bind_splits)

lemma same_rest_src: "uncompress_src cs l i (s', buf) = Some (r, s'', b) \<Longrightarrow> same_rest s s' \<Longrightarrow> same_rest s s''"
  by (auto simp: uncompress_src_def Let_def split: if_splits Option.bind_splits option.splits dest: same_rest_addr)

lemma same_rest_dest: "uncompress_dest cs l i (s', buf) = Some (r, s'', b) \<Longrightarrow> same_rest s s' \<Longrightarrow> same_rest s s''"
  by (auto simp: uncompress_dest_def Let_def same_rest_updates split: if_splits Option.bind_splits option.splits
      dest!: same_rest_addr [of _ _ _ _ _ _ _ _ s])

lemma same_rest_udp: "uncompress_udp (s', buf) = Some (s'', b) \<Longrightarrow> same_rest s s' \<Longrightarrow> same_rest s s''"
  by (auto simp: uncompress_udp_def Let_def same_rest_updates split: if_splits Option.bind_splits)

lemma same_rest_len: "uncompress_len d n (s', buf) = Some (s'', b) \<Longrightarrow> same_rest s s' \<Longrightarrow> same_rest s s''"
  by (auto simp: uncompress_len_def Let_def split: if_splits Option.bind_splits)

lemma uncompress_hdr_iphc_rest:
  assumes "uncompress_hdr_iphc cs sl dl d n (s, buf) = Some (s', b)"
  shows "same_rest s s'"
proof -
  have 0: "same_rest s (s\<lparr>hc06_ptr := p\<rparr>)" for p by (simp add: same_rest_def)
  note steps = same_rest_tf same_rest_nh same_rest_ttl same_rest_src same_rest_dest same_rest_udp same_rest_len
  show ?thesis using assms 0
    by (auto simp: uncompress_hdr_iphc_def Let_def same_rest_updates split: if_splits Option.bind_splits
        dest!: steps [where s = s])
qed

lemma same_rest_frag:
  fixes s s' :: sics
  assumes "same_rest s s'"
  shows "frag_info s' = frag_info s" "frag_buf s' = frag_buf s" "uip_buf s' = uip_buf s" "pb_datalen s' = pb_datalen s"
    "pb_sender s' = pb_sender s" "pb_dataptr s' = pb_dataptr s" "uip_len s' = uip_len s"
  using assms unfolding same_rest_def by (cases s; cases s'; simp)+

lemma frag_ok_write: "frag_ok s \<Longrightarrow> frag_ok (write_buffer b m s)"
  by (cases b) (auto simp: write_buffer_def map_fi_len_update intro: frag_ok_same)

lemma frag_ok_simps [simp]:
  "frag_ok (s\<lparr>packetbuf_hdr_len := h\<rparr>) = frag_ok s" "frag_ok (s\<lparr>uncomp_hdr_len := u\<rparr>) = frag_ok s"
  "frag_ok (s\<lparr>packetbuf_ptr := p\<rparr>) = frag_ok s" "frag_ok (s\<lparr>packetbuf_payload_len := n\<rparr>) = frag_ok s"
  "frag_ok (s\<lparr>uip_len := l\<rparr>) = frag_ok s" "frag_ok (s\<lparr>uip_buf := m\<rparr>) = frag_ok s"
  by (simp_all add: frag_ok_def)

lemma input_fragment_ok:
  "input_fragment now maxage s = Some (l, s') \<Longrightarrow> frag_ok s \<Longrightarrow> frag_ok s'"
  by (auto simp: input_fragment_def Let_def split: Option.bind_splits option.splits if_splits dest!: add_fragment_ok)

lemma input_header_ok:
  assumes "input_header cs l s = Some (k, s')" and "frag_ok s"
  shows "frag_ok s'"
proof -
  have "frag_ok t" if "same_rest s t" for t
    using frag_ok_same [OF assms(2), of t] same_rest_frag [OF that] by simp
  then show ?thesis using assms
    by (auto simp: input_header_def Let_def frag_ok_write split: Option.bind_splits if_splits dest!: uncompress_hdr_iphc_rest)
qed

lemma copy_frags2uip_ok: "copy_frags2uip c s = Some s' \<Longrightarrow> frag_ok s \<Longrightarrow> frag_ok s'"
  by (auto simp: copy_frags2uip_def clear_fragments_ok split: Option.bind_splits)

lemma frag_ok_info: "frag_ok s \<Longrightarrow> fi_len f = fi_len (frag_info s ! c) \<Longrightarrow> frag_ok (s\<lparr>frag_info := (frag_info s)[c := f]\<rparr>)"
  by (rule frag_ok_same) (simp_all add: map_fi_len_update)

lemma fi_len_update: "fi_len f = fi_len (xs ! c) \<Longrightarrow> fi_len (xs[c := f] ! c) = fi_len (xs ! c)"
  by (cases "c < length xs") (simp_all add: list_update_beyond)

lemma frag_ok_payload: "frag_ok (s\<lparr>packetbuf_payload_len := n, frag_info := v\<rparr>) = frag_ok (s\<lparr>frag_info := v\<rparr>)"
  by (simp add: frag_ok_def)

lemma input_payload_ok: "input_payload l s = Some (d, s') \<Longrightarrow> frag_ok s \<Longrightarrow> frag_ok s'"
  by (auto simp: input_payload_def Let_def frag_ok_write frag_ok_info frag_ok_payload fi_len_update
      split: Option.bind_splits if_splits dest!: copy_frags2uip_ok)

lemma sicslowpan_input_ok: "sicslowpan_input now maxage cs s = Some (d, s') \<Longrightarrow> frag_ok s \<Longrightarrow> frag_ok s'"
  by (auto simp: sicslowpan_input_def Let_def split: Option.bind_splits option.splits if_splits
      dest!: input_fragment_ok input_header_ok input_payload_ok)

subsection \<open>Frames of fragments\<close>

definition frag1_header :: "u16 \<Rightarrow> u16 \<Rightarrow> u8 list" where
  "frag1_header n tag = [hi (0xc000 OR n), lo (0xc000 OR n), hi tag, lo tag]"

definition fragn_header :: "u16 \<Rightarrow> u16 \<Rightarrow> u8 \<Rightarrow> u8 list" where
  "fragn_header n tag offset = [hi (0xe000 OR n), lo (0xe000 OR n), hi tag, lo tag, offset]"

lemma bytes_at_pairs:
  assumes "bytes_at m p [a, b, c, d]"
  shows "bytes_at m (p + 0) [a, b]" and "bytes_at m (p + 2) [c, d]"
  using assms by (simp_all add: bytes_at_Cons)

lemma size_bits:
  assumes "n < (2048 :: u16)"
  shows "(0xc000 OR n) AND 0x07ff = n" "drop_bit 8 ((0xc000 OR n) AND 0xf800) = 0xc0"
    "(0xe000 OR n) AND 0x07ff = n" "drop_bit 8 ((0xe000 OR n) AND 0xf800) = 0xe0"
  using dispatch_bits [OF assms, of "0xc000"] dispatch_bits [OF assms, of "0xe000"] by simp_all

definition no_fragment :: frag_locals where
  "no_fragment = \<lparr>lo_frag_size = 0, lo_frag_offset = 0, lo_is_fragment = False, lo_context = 0, lo_first = False, lo_last = False, lo_buffer = Buf_uip\<rparr>"

lemma input_fragment_1:
  assumes "bytes_at (packetbuf s) (packetbuf_ptr s) (frag1_header n tag)" and "n < 2048"
  shows "input_fragment now maxage s = do {
    (c, s) \<leftarrow> add_fragment now maxage tag n 0 (s\<lparr>packetbuf_hdr_len := packetbuf_hdr_len s + 4\<rparr>);
    case c of None \<Rightarrow> Some (None, s)
    | Some c \<Rightarrow> Some (Some (no_fragment\<lparr>lo_frag_size := n, lo_is_fragment := True, lo_context := c, lo_first := True, lo_buffer := Buf_first c\<rparr>), s) }"
proof -
  note b = bytes_at_pairs [OF assms(1) [unfolded frag1_header_def]]
  note g = get16_bytes [OF b(1)] get16_bytes [OF b(2)]
  show ?thesis
    unfolding input_fragment_def Let_def g Option.bind.bind_lunit size_bits [OF assms(2)] no_fragment_def
    by (simp add: SICSLOWPAN_DISPATCH_FRAG1_def SICSLOWPAN_FRAG1_HDR_LEN_def)
qed

lemma input_fragment_n:
  assumes "bytes_at (packetbuf s) (packetbuf_ptr s) (fragn_header n tag offset)" and "n < 2048"
  shows "input_fragment now maxage s = do {
    (c, s) \<leftarrow> add_fragment now maxage tag n offset (s\<lparr>packetbuf_hdr_len := packetbuf_hdr_len s + 5\<rparr>);
    case c of None \<Rightarrow> Some (None, s)
    | Some c \<Rightarrow> Some (Some (no_fragment\<lparr>lo_frag_size := n, lo_frag_offset := offset, lo_is_fragment := True, lo_context := c,
        lo_last := (fi_reassembled_len (frag_info s ! c) \<ge> n), lo_buffer := Buf_NULL\<rparr>), s) }"
proof -
  have h: "fragn_header n tag offset = [hi (0xe000 OR n), lo (0xe000 OR n), hi tag, lo tag] @ [offset]" by (simp add: fragn_header_def)
  have b: "bytes_at (packetbuf s) (packetbuf_ptr s + 0) [hi (0xe000 OR n), lo (0xe000 OR n)]"
    "bytes_at (packetbuf s) (packetbuf_ptr s + 2) [hi tag, lo tag]" "packetbuf s (packetbuf_ptr s + 4) = Some offset"
    using assms(1) unfolding h bytes_at_append by (simp_all add: bytes_at_Cons numeral_eq_Suc)
  note g = get16_bytes [OF b(1)] get16_bytes [OF b(2)]
  show ?thesis
    unfolding input_fragment_def Let_def g b(3) Option.bind.bind_lunit size_bits [OF assms(2)] no_fragment_def
    by (simp add: SICSLOWPAN_DISPATCH_FRAG1_def SICSLOWPAN_DISPATCH_FRAGN_def SICSLOWPAN_FRAGN_HDR_LEN_def)
qed

subsection \<open>A fragment longer than its buffer\<close>

lemma store_loop_overflow:
  assumes "i \<in> set is" and "fb_len (frag_buf s ! i) = 0"
    and "\<And>j q. j \<in> set is \<Longrightarrow> 110 \<le> q \<Longrightarrow> fb_data (frag_buf s ! j) q = None"
    and "pb_datalen s > unat (packetbuf_hdr_len s) + 110"
  shows "store_loop is index offset s = None"
  using assms(1-3)
proof (induction "is")
  case (Cons k ks)
  show ?case
  proof (cases "fb_len (frag_buf s ! k) = 0")
    case True
    let ?n = "int (pb_datalen s) - int (unat (packetbuf_hdr_len s))"
    have "fb_data (frag_buf s ! k) (0 + 110) = None" using Cons.prems(3) [of k 110] by simp
    moreover have "110 < nat ?n" using assms(4) by linarith
    ultimately have "\<not> accessible (fb_data (frag_buf s ! k)) 0 (nat ?n)" unfolding accessible_def by blast
    then have "memcpy (fb_data (frag_buf s ! k)) 0 (packetbuf s) (packetbuf_ptr s + unat (packetbuf_hdr_len s)) ?n = None"
      by (auto simp: memcpy_def load_list_bytes intro!: store_list_None split: Option.bind_splits)
    then show ?thesis using True by (simp add: Let_def)
  next
    case False
    then show ?thesis using Cons by auto
  qed
qed simp

text \<open>
  C34: A later fragment of an open session whose payload is longer than 110 bytes is copied beyond the end of the fragment buffer: \<open>input\<close>
  does not check the length of a fragment against the buffer before it stores it.
\<close>

theorem sicslowpan_fragment_overflow:
  assumes "bytes_at (packetbuf s) (pb_dataptr s) (fragn_header n tag offset @ payload)"
    and "pb_datalen s = length (fragn_header n tag offset @ payload)"
    and "n < 2048" and "offset \<noteq> 0" and "110 < length payload"
    and "i < SICSLOWPAN_REASS_CONTEXTS" and "same_session tag (pb_sender s) (frag_info s ! i)"
    and "j < SICSLOWPAN_FRAGMENT_BUFFERS" and "fb_len (frag_buf s ! j) = 0"
    and "\<forall>b \<in> set (frag_buf s). \<forall>q \<ge> SICSLOWPAN_FRAGMENT_SIZE. fb_data b q = None" and "frag_ok s"
  shows "sicslowpan_input now maxage cs s = None"
proof -
  let ?s0 = "s\<lparr>uncomp_hdr_len := 0, packetbuf_hdr_len := 0, packetbuf_ptr := pb_dataptr s\<rparr>"
  let ?s1 = "?s0\<lparr>packetbuf_hdr_len := packetbuf_hdr_len ?s0 + 5\<rparr>"
  have b: "bytes_at (packetbuf ?s0) (packetbuf_ptr ?s0) (fragn_header n tag offset)" using assms(1) by (simp add: bytes_at_append)
  obtain k where k: "find (\<lambda>i. same_session tag (pb_sender ?s1) (frag_info ?s1 ! i)) [0..<SICSLOWPAN_REASS_CONTEXTS] = Some k"
    using assms(6,7) by (cases "find (\<lambda>i. same_session tag (pb_sender s) (frag_info s ! i)) [0..<SICSLOWPAN_REASS_CONTEXTS]")
      (auto simp: find_None_iff)
  have "store_fragment k offset ?s1 = None"
    unfolding store_fragment_def
  proof (rule store_loop_overflow)
    show "j \<in> set [0..<SICSLOWPAN_FRAGMENT_BUFFERS]" "fb_len (frag_buf ?s1 ! j) = 0" using assms(8,9) by simp_all
    show "fb_data (frag_buf ?s1 ! j) q = None" if "j \<in> set [0..<SICSLOWPAN_FRAGMENT_BUFFERS]" "110 \<le> q" for j q
      using that assms(10,11) by (simp add: frag_ok_def SICSLOWPAN_FRAGMENT_SIZE_def)
    show "pb_datalen ?s1 > unat (packetbuf_hdr_len ?s1) + 110" using assms(2,5) by (simp add: fragn_header_def)
  qed
  then have "add_fragment now maxage tag n offset ?s1 = None" using assms(4) k by (simp add: add_fragment_def)
  then have "input_fragment now maxage ?s0 = None" using input_fragment_n [OF b assms(3)] by simp
  then show ?thesis by (simp add: sicslowpan_input_def)
qed

subsection \<open>Receiving frames\<close>

definition array :: "u8 list \<Rightarrow> mem" where
  "array bs p = (if p < length bs then Some (bs ! p) else None)"

lemma array_end: "length bs \<le> p \<Longrightarrow> array bs p = None"
  by (simp add: array_def)

lemma bytes_at_array: "bytes_at (array bs) 0 bs"
  by (simp add: bytes_at_def array_def)

definition blank_info :: sicslowpan_frag_info where
  "blank_info = \<lparr>fi_sender = linkaddr_null, fi_tag = 0, fi_len = 0, fi_reassembled_len = 0, fi_reass_timer = \<lparr>tm_start = 0, tm_interval = 0\<rparr>,
     fi_first_frag_len = 0, fi_first_frag = array (replicate 148 0)\<rparr>"

definition blank_buf :: sicslowpan_frag_buf where
  "blank_buf = \<lparr>fb_index = 0, fb_offset = 0, fb_len = 0, fb_data = array (replicate 110 0)\<rparr>"

definition receiver :: sics where
  "receiver = \<lparr>packetbuf = array [], packetbuf_ptr = 0, packetbuf_hdr_len = 0, uncomp_hdr_len = 0, hc06_ptr = 0,
     packetbuf_payload_len = 0, last_tx_status = MAC_TX_OK, my_tag = 0, frag_info = replicate 2 blank_info, frag_buf = replicate 4 blank_buf,
     uip_buf = array (replicate 350 0), uip_len = 0, pb_dataptr = 0, pb_datalen = 0, pb_sender = linkaddr_null, pb_receiver = linkaddr_null, frames_sent = []\<rparr>"

text \<open>The framer and the driver have put the payload of a received frame and the addresses into the packet buffer.\<close>

definition frame_in :: "linkaddr \<Rightarrow> linkaddr \<Rightarrow> u8 list \<Rightarrow> sics \<Rightarrow> sics" where
  "frame_in src dst bs s = s\<lparr>packetbuf := array bs, pb_dataptr := 0, pb_datalen := length bs, pb_sender := src, pb_receiver := dst\<rparr>"

lemma frag_ok_receiver: "frag_ok (frame_in src dst bs receiver)"
  by (simp add: frag_ok_def frame_in_def receiver_def blank_buf_def SICSLOWPAN_REASS_CONTEXTS_def SICSLOWPAN_FRAGMENT_BUFFERS_def)

definition opened :: sics where
  "opened = snd (the (sicslowpan_input 0 10 [] (frame_in linkaddr_null linkaddr_null [0xc1, 0x23, 0, 7, 0] receiver)))"

lemma opened_result: "sicslowpan_input 0 10 [] (frame_in linkaddr_null linkaddr_null [0xc1, 0x23, 0, 7, 0] receiver) = Some (False, opened)"
  "fi_len (frag_info opened ! 0) = 0x123"
proof -
  have "map_option fst (sicslowpan_input 0 10 [] (frame_in linkaddr_null linkaddr_null [0xc1, 0x23, 0, 7, 0] receiver)) = Some False" by code_simp
  then show "sicslowpan_input 0 10 [] (frame_in linkaddr_null linkaddr_null [0xc1, 0x23, 0, 7, 0] receiver) = Some (False, opened)"
    by (auto simp: opened_def)
  show "fi_len (frag_info opened ! 0) = 0x123" by code_simp
qed

definition in_session :: sics where
  "in_session = receiver\<lparr>frag_info := [blank_info\<lparr>fi_tag := 7, fi_len := 0x123\<rparr>, blank_info]\<rparr>"

theorem sicslowpan_fragment_overflow_witness:
  "sicslowpan_input 1 10 [] (frame_in linkaddr_null linkaddr_null (fragn_header 0x123 7 16 @ replicate 111 0) in_session) = None"
  by (rule sicslowpan_fragment_overflow [where n = "0x123" and tag = 7 and offset = 16 and payload = "replicate 111 0" and i = 0 and j = 0])
    (simp_all add: frame_in_def in_session_def receiver_def bytes_at_array frag_ok_def blank_buf_def blank_info_def array_end same_session_def
      linkaddr_cmp_def SICSLOWPAN_REASS_CONTEXTS_def SICSLOWPAN_FRAGMENT_BUFFERS_def SICSLOWPAN_FRAGMENT_SIZE_def)

end
