(* ===== verification/Sicslowpan_Reassembly.thy ===== *)
theory Sicslowpan_Reassembly
  imports Sicslowpan_Session
begin

section \<open>Reassembly of fragments\<close>

text \<open>
  A first fragment opens a session (\<open>receive_first\<close>), each later one is stored (\<open>receive_later\<close>), and the one that completes the
  size of the packet copies all of them to the IP buffer (\<open>receive_last\<close>): \<open>receive_fragments\<close>, for fragments that
  arrive in any order behind the first one. The invariant in between is \<open>collecting\<close>.
\<close>

subsection \<open>Expired sessions\<close>

text \<open>Sessions that are closed lose their length and their buffers; nothing else changes.\<close>

definition info_freed :: "sicslowpan_frag_info \<Rightarrow> sicslowpan_frag_info \<Rightarrow> bool" where
  "info_freed f f' \<longleftrightarrow> f' = f \<or> f' = f\<lparr>fi_len := 0\<rparr>"

definition buf_freed :: "sicslowpan_frag_buf \<Rightarrow> sicslowpan_frag_buf \<Rightarrow> bool" where
  "buf_freed b b' \<longleftrightarrow> b' = b \<or> b' = b\<lparr>fb_len := 0\<rparr>"

definition freed :: "sics \<Rightarrow> sics \<Rightarrow> bool" where
  "freed s s' \<longleftrightarrow> s' = s\<lparr>frag_info := frag_info s', frag_buf := frag_buf s'\<rparr> \<and>
     list_all2 info_freed (frag_info s) (frag_info s') \<and> list_all2 buf_freed (frag_buf s) (frag_buf s')"

lemma info_freed_trans: "info_freed f g \<Longrightarrow> info_freed g h \<Longrightarrow> info_freed f h"
  by (auto simp: info_freed_def)

lemma buf_freed_trans: "buf_freed f g \<Longrightarrow> buf_freed g h \<Longrightarrow> buf_freed f h"
  by (auto simp: buf_freed_def)

lemma freed_refl: "freed s s"
  by (simp add: freed_def list_all2_refl info_freed_def buf_freed_def)

lemma freed_trans:
  assumes "freed s t" and "freed t u"
  shows "freed s u"
proof -
  obtain a b where t: "t = s\<lparr>frag_info := a, frag_buf := b\<rparr>" using assms(1) unfolding freed_def by blast
  obtain c d where u: "u = t\<lparr>frag_info := c, frag_buf := d\<rparr>" using assms(2) unfolding freed_def by blast
  have "u = s\<lparr>frag_info := frag_info u, frag_buf := frag_buf u\<rparr>" unfolding t u by simp
  then show ?thesis
    using assms unfolding freed_def by (auto intro: list_all2_trans [OF info_freed_trans] list_all2_trans [OF buf_freed_trans])
qed

lemma freed_clear: "freed s (snd (clear_fragments i s))"
proof -
  have "list_all2 info_freed xs (xs[i := (xs ! i)\<lparr>fi_len := 0\<rparr>])" for xs
    by (cases "i < length xs") (simp_all add: list_all2_conv_all_nth info_freed_def nth_list_update list_update_beyond)
  moreover have "list_all2 buf_freed bs (map (fb_clear i) bs)" for bs
    by (auto simp: list_all2_conv_all_nth buf_freed_def fb_clear_def)
  ultimately show ?thesis by (simp add: freed_def clear_fragments_def)
qed

lemma freed_first_step: "freed s (snd r) \<Longrightarrow> freed s (snd (first_step now i r))"
  by (auto simp: first_step_def split_beta Let_def intro: freed_clear freed_trans)

lemma freed_first_steps: "freed s (snd (fold (first_step now) is (c, s)))"
proof -
  have "freed s (snd r) \<Longrightarrow> freed s (snd (fold (first_step now) is r))" for r
    by (induction "is" arbitrary: r) (simp_all add: freed_first_step)
  from this [of "(c, s)"] show ?thesis by (simp add: freed_refl)
qed

lemma freedD:
  assumes "freed s s'"
  shows "length (frag_info s') = length (frag_info s)" and "length (frag_buf s') = length (frag_buf s)"
    and "i < length (frag_info s) \<Longrightarrow> info_freed (frag_info s ! i) (frag_info s' ! i)"
    and "j < length (frag_buf s) \<Longrightarrow> buf_freed (frag_buf s ! j) (frag_buf s' ! j)"
    and "s' = s\<lparr>frag_info := frag_info s', frag_buf := frag_buf s'\<rparr>"
proof -
  note d = assms [unfolded freed_def]
  show "length (frag_info s') = length (frag_info s)" "length (frag_buf s') = length (frag_buf s)"
    using d list_all2_lengthD by fastforce+
  show "i < length (frag_info s) \<Longrightarrow> info_freed (frag_info s ! i) (frag_info s' ! i)"
    "j < length (frag_buf s) \<Longrightarrow> buf_freed (frag_buf s ! j) (frag_buf s' ! j)"
    using d list_all2_nthD by blast+
  show "s' = s\<lparr>frag_info := frag_info s', frag_buf := frag_buf s'\<rparr>" using d by blast
qed

lemma freed_fields:
  assumes "freed s s'"
  shows "pb_sender s' = pb_sender s" "pb_receiver s' = pb_receiver s" "pb_datalen s' = pb_datalen s" "packetbuf s' = packetbuf s"
    "packetbuf_ptr s' = packetbuf_ptr s" "packetbuf_hdr_len s' = packetbuf_hdr_len s" "uncomp_hdr_len s' = uncomp_hdr_len s" "uip_buf s' = uip_buf s"
proof -
  obtain a b where t: "s' = s\<lparr>frag_info := a, frag_buf := b\<rparr>" using assms unfolding freed_def by blast
  show "pb_sender s' = pb_sender s" "pb_receiver s' = pb_receiver s" "pb_datalen s' = pb_datalen s" "packetbuf s' = packetbuf s"
    "packetbuf_ptr s' = packetbuf_ptr s" "packetbuf_hdr_len s' = packetbuf_hdr_len s" "uncomp_hdr_len s' = uncomp_hdr_len s" "uip_buf s' = uip_buf s"
    unfolding t by simp_all
qed

text \<open>A first fragment gets a context when one is free.\<close>

lemma first_step_free:
  assumes "fst r \<noteq> None \<or> fi_len (frag_info (snd r) ! i) = 0"
  shows "fst (first_step now i r) \<noteq> None"
  using assms by (auto simp: first_step_def split_beta Let_def)

lemma first_step_keeps: "fst r \<noteq> None \<Longrightarrow> fst (first_step now i r) \<noteq> None"
  by (auto simp: first_step_def split_beta Let_def)

lemma first_steps_free:
  assumes "i \<in> set is" and "fi_len (frag_info s ! i) = 0" and "\<forall>j \<in> set is. j < length (frag_info s)"
  shows "fst (fold (first_step now) is (None, s)) \<noteq> None"
proof -
  have keep: "fst r \<noteq> None \<Longrightarrow> fst (fold (first_step now) js r) \<noteq> None" for js r
  proof (induction js arbitrary: r)
    case (Cons j js)
    show ?case unfolding fold_Cons o_apply by (rule Cons.IH [OF first_step_keeps [OF Cons.prems]])
  qed simp
  obtain xs ys where "is": "is = xs @ i # ys" using assms(1) by (auto simp: in_set_conv_decomp)
  let ?r = "fold (first_step now) xs (None, s)"
  have "fi_len (frag_info (snd ?r) ! i) = 0"
    using freedD(3) [OF freed_first_steps [of s now xs None], of i] assms(1-3) by (auto simp: info_freed_def)
  then have "fst (first_step now i ?r) \<noteq> None" using first_step_free by blast
  then show ?thesis unfolding "is" using keep by simp
qed

lemma add_first_fragment:
  assumes "frag_ok s" and "i < 2" and "fi_len (frag_info s ! i) = 0"
  obtains c s' where "freed s s'" and "frag_ok s'" and "c < 2" and "fi_len (frag_info s' ! c) = 0"
    and "add_fragment now maxage tag n 0 s = Some (Some c, s'\<lparr>frag_info := (frag_info s')[c := (frag_info s' ! c)\<lparr>fi_len := n, fi_tag := tag,
        fi_sender := linkaddr_copy (fi_sender (frag_info s' ! c)) (pb_sender s), fi_reass_timer := timer_set now (fi_reass_timer (frag_info s' ! c)) maxage\<rparr>]\<rparr>)"
proof -
  let ?r = "fold (first_step now) [0..<SICSLOWPAN_REASS_CONTEXTS] (None, s)"
  have "fst ?r \<noteq> None"
    by (rule first_steps_free [of i]) (use assms frag_okD(1) [OF assms(1)] in \<open>simp_all add: SICSLOWPAN_REASS_CONTEXTS_def\<close>)
  then obtain c where c: "fst ?r = Some c" by blast
  have r: "?r = (Some c, snd ?r)" using c by (metis prod.collapse)
  note p = freed_fields(1) [OF freed_first_steps [of s now "[0..<SICSLOWPAN_REASS_CONTEXTS]" None]]
  show thesis
  proof (rule that [of "snd ?r" c])
    show "freed s (snd ?r)" by (rule freed_first_steps)
    show "frag_ok (snd ?r)" "c < 2" "fi_len (frag_info (snd ?r) ! c) = 0" using first_steps_found [OF assms(1)] c by auto
    show "add_fragment now maxage tag n 0 s = Some (Some c, (snd ?r)\<lparr>frag_info := (frag_info (snd ?r))[c := (frag_info (snd ?r) ! c)\<lparr>fi_len := n, fi_tag := tag,
        fi_sender := linkaddr_copy (fi_sender (frag_info (snd ?r) ! c)) (pb_sender s), fi_reass_timer := timer_set now (fi_reass_timer (frag_info (snd ?r) ! c)) maxage\<rparr>]\<rparr>)"
      unfolding add_fragment_def by (subst r, unfold option.case prod.case Let_def) (simp add: p)
  qed
qed

subsection \<open>A session that collects fragments\<close>

text \<open>The sizes of the arrays.\<close>

definition arrays :: "sics \<Rightarrow> bool" where
  "arrays s \<longleftrightarrow> (\<forall>f \<in> set (frag_info s). accessible (fi_first_frag f) 0 SICSLOWPAN_FIRST_FRAGMENT_SIZE \<and> length (fi_sender f) = LINKADDR_SIZE) \<and>
     (\<forall>b \<in> set (frag_buf s). accessible (fb_data b) 0 SICSLOWPAN_FRAGMENT_SIZE) \<and> accessible (uip_buf s) 0 UIP_BUFSIZE"

definition free_bufs :: "sics \<Rightarrow> nat" where
  "free_bufs s = length (filter (\<lambda>b. fb_len b = 0) (frag_buf s))"

text \<open>A buffer that holds the fragment with an offset and some bytes.\<close>

definition holds :: "nat \<Rightarrow> sicslowpan_frag_buf \<Rightarrow> u8 \<times> u8 list \<Rightarrow> bool" where
  "holds c b fr \<longleftrightarrow> fb_len b > 0 \<and> unat (fb_index b) = c \<and> fb_offset b = fst fr \<and> unat (fb_len b) = length (snd fr) \<and> bytes_at (fb_data b) 0 (snd fr)"

definition total :: "(u8 \<times> u8 list) list \<Rightarrow> nat" where
  "total frs = sum_list (map (length \<circ> snd) frs)"

text \<open>
  Session \<open>c\<close> has the first \<open>k\<close> bytes of the packet \<open>P\<close> and the fragments \<open>frs\<close> of it, and no other session has this tag and sender.
\<close>

definition collecting :: "nat \<Rightarrow> u16 \<Rightarrow> linkaddr \<Rightarrow> u8 list \<Rightarrow> nat \<Rightarrow> (u8 \<times> u8 list) list \<Rightarrow> sics \<Rightarrow> bool" where
  "collecting c tag src P k frs s \<longleftrightarrow> c < 2 \<and> frag_ok s \<and> arrays s \<and> (\<forall>i < 2. same_session tag src (frag_info s ! i) \<longleftrightarrow> i = c) \<and>
     fi_len (frag_info s ! c) = of_nat (length P) \<and> fi_reassembled_len (frag_info s ! c) = of_nat (k + total frs) \<and>
     fi_first_frag_len (frag_info s ! c) = of_nat k \<and> bytes_at (fi_first_frag (frag_info s ! c)) 0 (take k P) \<and>
     (\<forall>j < 4. fb_len (frag_buf s ! j) > 0 \<and> unat (fb_index (frag_buf s ! j)) = c \<longrightarrow> (\<exists>fr \<in> set frs. holds c (frag_buf s ! j) fr)) \<and>
     (\<forall>fr \<in> set frs. \<exists>j < 4. holds c (frag_buf s ! j) fr)"

lemma freed_arrays: "freed s s' \<Longrightarrow> arrays s \<Longrightarrow> arrays s'"
proof -
  assume f: "freed s s'" and a: "arrays s"
  have "accessible (fi_first_frag g) 0 SICSLOWPAN_FIRST_FRAGMENT_SIZE \<and> length (fi_sender g) = LINKADDR_SIZE" if g: "g \<in> set (frag_info s')" for g
  proof -
    obtain i where i: "i < length (frag_info s')" "g = frag_info s' ! i" using g by (metis in_set_conv_nth)
    then have "frag_info s ! i \<in> set (frag_info s)" using freedD(1) [OF f] by simp
    then have "accessible (fi_first_frag (frag_info s ! i)) 0 SICSLOWPAN_FIRST_FRAGMENT_SIZE \<and> length (fi_sender (frag_info s ! i)) = LINKADDR_SIZE"
      using a unfolding arrays_def by blast
    then show ?thesis using freedD(1) [OF f] freedD(3) [OF f, of i] i unfolding info_freed_def by auto
  qed
  moreover have "accessible (fb_data b) 0 SICSLOWPAN_FRAGMENT_SIZE" if b: "b \<in> set (frag_buf s')" for b
  proof -
    obtain j where j: "j < length (frag_buf s')" "b = frag_buf s' ! j" using b by (metis in_set_conv_nth)
    then have "frag_buf s ! j \<in> set (frag_buf s)" using freedD(2) [OF f] by simp
    then have "accessible (fb_data (frag_buf s ! j)) 0 SICSLOWPAN_FRAGMENT_SIZE" using a unfolding arrays_def by blast
    then show ?thesis using freedD(2) [OF f] freedD(4) [OF f, of j] j unfolding buf_freed_def by auto
  qed
  ultimately show ?thesis using a freed_fields(8) [OF f] by (simp add: arrays_def)
qed

lemma freed_bufs: "freed s s' \<Longrightarrow> free_bufs s \<le> free_bufs s'"
proof -
  have "list_all2 buf_freed bs bs' \<Longrightarrow> length (filter (\<lambda>b. fb_len b = 0) bs) \<le> length (filter (\<lambda>b. fb_len b = 0) bs')" for bs bs'
    by (induction rule: list_all2_induct) (auto simp: buf_freed_def)
  moreover have "freed s s' \<Longrightarrow> list_all2 buf_freed (frag_buf s) (frag_buf s')" unfolding freed_def by blast
  ultimately show "freed s s' \<Longrightarrow> ?thesis" by (simp add: free_bufs_def)
qed

lemma freed_same_session:
  "freed s s' \<Longrightarrow> i < length (frag_info s) \<Longrightarrow> same_session tag src (frag_info s' ! i) \<Longrightarrow> same_session tag src (frag_info s ! i)"
  using freedD(3) [of s s' i] by (auto simp: info_freed_def same_session_def)

subsection \<open>Headers of frames\<close>

lemma iphc_bytes_head: "\<exists>b bs. iphc_bytes cs sl dl h = b # bs \<and> b AND 0xe0 = 0x60"
proof -
  have f: "tf_flags h AND 0xe0 = 0" "nh_flag h AND 0xe0 = 0" "ttl_flag h AND 0xe0 = 0"
    by (auto simp: tf_flags_def nh_flag_def ttl_flag_def)
  have "(0x60 OR tf_flags h OR nh_flag h OR ttl_flag h) AND 0xe0 = 0x60" by (simp add: bit.conj_disj_distrib2 f)
  then show ?thesis by (simp add: iphc_bytes_def split_beta Let_def)
qed

lemma input_header_iphc:
  assumes "length h = 48" and "drop_bit 4 (h_vtc h) = 6" and "contexts_ok cs" and "\<not> src_prefix_lost cs h"
    and "length (pb_sender s) = 8" and "length (pb_receiver s) = 8" and "L = length (iphc_bytes cs (pb_sender s) (pb_receiver s) h)"
    and "bytes_at (packetbuf s) (packetbuf_ptr s + unat (packetbuf_hdr_len s)) (iphc_bytes cs (pb_sender s) (pb_receiver s) h)"
    and "accessible (read_buffer (lo_buffer l) s) 0 48"
  shows "input_header cs l s = Some (True, write_buffer (lo_buffer l)
    (put_headers h (ip_payload_len (uncompressed h L s) (pb_datalen s) (lo_frag_size l)) (read_buffer (lo_buffer l) s)) (uncompressed h L s))"
proof -
  obtain b bs where b: "iphc_bytes cs (pb_sender s) (pb_receiver s) h = b # bs" "b AND 0xe0 = 0x60" using iphc_bytes_head by blast
  then have "packetbuf s (packetbuf_ptr s + unat (packetbuf_hdr_len s)) = Some b" using assms(8) by (simp add: bytes_at_Cons)
  then show ?thesis
    using b(2) uncompress_hdr_iphc_bytes [OF assms(1-6) assms(8,9), of "pb_datalen s" "lo_frag_size l"] assms(7)
    by (simp add: input_header_def SICSLOWPAN_DISPATCH_IPHC_def)
qed

definition first_locals :: "u16 \<Rightarrow> nat \<Rightarrow> frag_locals" where
  "first_locals n c = no_fragment\<lparr>lo_frag_size := n, lo_is_fragment := True, lo_context := c, lo_first := True, lo_buffer := Buf_first c\<rparr>"

lemma input_payload_first:
  assumes "c < length (frag_info s)" and "bytes_at (packetbuf s) (packetbuf_ptr s + unat (packetbuf_hdr_len s)) payload"
    and "pb_datalen s = unat (packetbuf_hdr_len s) + length payload" and "unat (uncomp_hdr_len s) + length payload \<le> 148"
    and "accessible (fi_first_frag (frag_info s ! c)) 0 148" and "0 < n"
  shows "input_payload (first_locals n c) s = Some (False, s\<lparr>packetbuf_payload_len := int (length payload), frag_info := (frag_info s)[c := (frag_info s ! c)
    \<lparr>fi_first_frag := put (fi_first_frag (frag_info s ! c)) (unat (uncomp_hdr_len s)) payload,
     fi_reassembled_len := of_nat (unat (uncomp_hdr_len s) + length payload), fi_first_frag_len := of_nat (unat (uncomp_hdr_len s) + length payload)\<rparr>]\<rparr>)"
proof -
  have "accessible (fi_first_frag (frag_info s ! c)) (unat (uncomp_hdr_len s)) (length payload)"
    by (rule accessible_mono [OF assms(5)]) (use assms(4) in simp_all)
  then have "memcpy (fi_first_frag (frag_info s ! c)) (unat (uncomp_hdr_len s)) (packetbuf s) (packetbuf_ptr s + unat (packetbuf_hdr_len s)) (int (length payload))
     = Some (put (fi_first_frag (frag_info s ! c)) (unat (uncomp_hdr_len s)) payload)"
    using memcpy_put [OF _ assms(2)] by blast
  moreover have "\<not> 350 < uint (uncomp_hdr_len s) + int (length payload)" using assms(4) unfolding uint_nat by linarith
  ultimately show ?thesis using assms
    by (simp add: input_payload_def first_locals_def no_fragment_def Let_def read_buffer_def write_buffer_def UIP_BUFSIZE_def)
qed

definition hdr_size :: "u8 list \<Rightarrow> nat" where
  "hdr_size h = (if h_proto h = UIP_PROTO_UDP then 48 else 40)"

text \<open>A packet whose header can be restored: version 6, lengths that are right, and no source prefix that gets lost.\<close>

definition sound_header :: "sicslowpan_addr_context list \<Rightarrow> u8 list \<Rightarrow> u8 list \<Rightarrow> bool" where
  "sound_header cs h P \<longleftrightarrow> length h = 48 \<and> drop_bit 4 (h_vtc h) = 6 \<and> contexts_ok cs \<and> \<not> src_prefix_lost cs h \<and>
     hdr_size h \<le> length P \<and> take (hdr_size h) P = take (hdr_size h) h \<and> [h ! 4, h ! 5] = len_bytes (int (length P) - 40) \<and>
     (h_proto h = UIP_PROTO_UDP \<longrightarrow> [h ! 44, h ! 45] = len_bytes (int (length P) - 40))"

lemma put_headers_sound:
  assumes "sound_header cs h P"
  shows "bytes_at (put_headers h (int (length P) - 40) buf) 0 (take (hdr_size h) P)"
proof -
  have "take (hdr_size h) P = (if h_proto h = UIP_PROTO_UDP then h else take 40 h)"
    using assms by (simp add: sound_header_def hdr_size_def)
  then show ?thesis using put_headers_bytes [of h "int (length P) - 40" buf] assms by (simp add: sound_header_def)
qed

text \<open>The state at the start of \<open>input\<close>.\<close>

definition started :: "linkaddr \<Rightarrow> linkaddr \<Rightarrow> u8 list \<Rightarrow> sics \<Rightarrow> sics" where
  "started src dst bs s = (frame_in src dst bs s)\<lparr>uncomp_hdr_len := 0, packetbuf_hdr_len := 0, packetbuf_ptr := 0\<rparr>"

lemma started_fields [simp]:
  "packetbuf (started src dst bs s) = array bs" "packetbuf_ptr (started src dst bs s) = 0" "packetbuf_hdr_len (started src dst bs s) = 0"
  "uncomp_hdr_len (started src dst bs s) = 0" "pb_datalen (started src dst bs s) = length bs" "pb_sender (started src dst bs s) = src"
  "pb_receiver (started src dst bs s) = dst" "frag_info (started src dst bs s) = frag_info s" "frag_buf (started src dst bs s) = frag_buf s"
  "uip_buf (started src dst bs s) = uip_buf s" "frag_ok (started src dst bs s) = frag_ok s" "arrays (started src dst bs s) = arrays s"
  "free_bufs (started src dst bs s) = free_bufs s"
  by (simp_all add: started_def frame_in_def frag_ok_def arrays_def free_bufs_def)

lemma sicslowpan_input_started:
  "sicslowpan_input now maxage cs (frame_in src dst bs s) = do {
     (l, s) \<leftarrow> input_fragment now maxage (started src dst bs s);
     case l of None \<Rightarrow> Some (False, s)
     | Some l \<Rightarrow>
         if lo_is_fragment l \<and> \<not> lo_first l then input_payload l s
         else do {
           (known, s) \<leftarrow> input_header cs l s;
           if known then input_payload l s else Some (False, s)
         }
   }"
  by (simp add: sicslowpan_input_def started_def frame_in_def)

lemma bytes_at_array_append: "bytes_at (array (xs @ ys)) (length xs) ys"
  using bytes_at_array [of "xs @ ys"] by (simp add: bytes_at_append)

lemma hdr_len_first: "L \<le> 48 \<Longrightarrow> unat (4 + of_nat L :: u8) = 4 + L"
  by (simp add: unat_word_ariths unat_of_nat)

lemma put_headers_array:
  assumes "length h = 48" and "accessible buf 0 n" and "48 \<le> n"
  shows "accessible (put_headers h k buf) 0 n"
proof -
  have 48: "accessible buf 0 48" by (rule accessible_mono [OF assms(2)]) (use assms(3) in simp_all)
  show ?thesis unfolding accessible_def
  proof (intro allI impI)
    fix i assume i: "i < n"
    show "put_headers h k buf (0 + i) \<noteq> None"
    proof (cases "i < 48")
      case True
      then show ?thesis using put_headers_accessible [OF assms(1) 48, of k] unfolding accessible_def by blast
    next
      case False
      then show ?thesis using put_headers_outside [OF assms(1), of i k buf] assms(2) i unfolding accessible_def by simp
    qed
  qed
qed

lemma arrays_info:
  "arrays s \<Longrightarrow> accessible (fi_first_frag f) 0 148 \<Longrightarrow> length (fi_sender f) = 8 \<Longrightarrow> arrays (s\<lparr>frag_info := (frag_info s)[c := f]\<rparr>)"
  by (auto simp: arrays_def SICSLOWPAN_FIRST_FRAGMENT_SIZE_def SICSLOWPAN_FRAGMENT_SIZE_def LINKADDR_SIZE_def
      dest!: set_update_subset_insert [THEN subsetD])

lemma arraysD:
  assumes "arrays s" and "frag_ok s"
  shows "c < 2 \<Longrightarrow> accessible (fi_first_frag (frag_info s ! c)) 0 148" and "c < 2 \<Longrightarrow> length (fi_sender (frag_info s ! c)) = 8"
    and "j < 4 \<Longrightarrow> accessible (fb_data (frag_buf s ! j)) 0 110" and "accessible (uip_buf s) 0 350"
  using assms frag_okD [OF assms(2)] nth_mem [of c "frag_info s"] nth_mem [of j "frag_buf s"]
  by (auto simp: arrays_def SICSLOWPAN_FIRST_FRAGMENT_SIZE_def SICSLOWPAN_FRAGMENT_SIZE_def LINKADDR_SIZE_def UIP_BUFSIZE_def)

text \<open>The state behind the fragment header of a first fragment.\<close>

lemma input_first_session:
  assumes "frag_ok s" and "arrays s" and "i < 2" and "fi_len (frag_info s ! i) = 0" and "length src = 8" and "n < 2048" "0 < n"
    and "\<forall>j < 2. \<not> same_session tag src (frag_info s ! j)"
  obtains c s' where "input_fragment now maxage (started src dst (frag1_header n tag @ bs) s) = Some (Some (first_locals n c), s')"
    and "c < 2" and "frag_ok s'" and "arrays s'" and "free_bufs s \<le> free_bufs s'" and "packetbuf s' = array (frag1_header n tag @ bs)" and "packetbuf_ptr s' = 0"
    and "packetbuf_hdr_len s' = 4" and "uncomp_hdr_len s' = 0" and "pb_datalen s' = 4 + length bs" and "pb_sender s' = src" and "pb_receiver s' = dst"
    and "fi_len (frag_info s' ! c) = n" and "\<forall>j < 2. same_session tag src (frag_info s' ! j) \<longleftrightarrow> j = c"
    and "\<forall>j < 4. \<not> (fb_len (frag_buf s' ! j) > 0 \<and> unat (fb_index (frag_buf s' ! j)) = c)"
proof -
  let ?s0 = "started src dst (frag1_header n tag @ bs) s"
  let ?s1 = "?s0\<lparr>packetbuf_hdr_len := packetbuf_hdr_len ?s0 + 4\<rparr>"
  have b: "bytes_at (packetbuf ?s0) (packetbuf_ptr ?s0) (frag1_header n tag)" using bytes_at_array [of "frag1_header n tag @ bs"] by (simp add: bytes_at_append)
  have ok1: "frag_ok ?s1" "fi_len (frag_info ?s1 ! i) = 0" "arrays ?s1" using assms(1,2,4) by (simp_all add: arrays_def)
  obtain c s2 where s2: "freed ?s1 s2" "frag_ok s2" "c < 2" "fi_len (frag_info s2 ! c) = 0"
    "add_fragment now maxage tag n 0 ?s1 = Some (Some c, s2\<lparr>frag_info := (frag_info s2)[c := (frag_info s2 ! c)\<lparr>fi_len := n, fi_tag := tag,
        fi_sender := linkaddr_copy (fi_sender (frag_info s2 ! c)) (pb_sender ?s1), fi_reass_timer := timer_set now (fi_reass_timer (frag_info s2 ! c)) maxage\<rparr>]\<rparr>)"
    by (rule add_first_fragment [OF ok1(1) assms(3) ok1(2)])
  have a2: "arrays s2" by (rule freed_arrays [OF s2(1) ok1(3)])
  note ad = arraysD [OF a2 s2(2)]
  have cp: "linkaddr_copy (fi_sender (frag_info s2 ! c)) (pb_sender ?s1) = src"
    using linkaddr_copy_eq [of "fi_sender (frag_info s2 ! c)" src] ad(2) [OF s2(3)] assms(5) by (simp add: LINKADDR_SIZE_def)
  let ?f = "(frag_info s2 ! c)\<lparr>fi_len := n, fi_tag := tag, fi_sender := src, fi_reass_timer := timer_set now (fi_reass_timer (frag_info s2 ! c)) maxage\<rparr>"
  let ?s3 = "s2\<lparr>frag_info := (frag_info s2)[c := ?f]\<rparr>"
  note l = frag_okD [OF s2(2)]
  note ff = freed_fields [OF s2(1)]
  show thesis
  proof (rule that [of c ?s3])
    show "input_fragment now maxage ?s0 = Some (Some (first_locals n c), ?s3)"
      unfolding input_fragment_1 [OF b assms(6)] s2(5) cp by (simp add: first_locals_def)
    show "c < 2" by (rule s2(3))
    show "frag_ok ?s3" by (rule frag_ok_open [OF s2(2,4,3)])
    show "arrays ?s3" by (rule arrays_info [OF a2]) (use ad s2(3) assms(5) in simp_all)
    show "free_bufs s \<le> free_bufs ?s3" using freed_bufs [OF s2(1)] by (simp add: free_bufs_def)
    show "packetbuf ?s3 = array (frag1_header n tag @ bs)" "packetbuf_ptr ?s3 = 0" "packetbuf_hdr_len ?s3 = 4" "uncomp_hdr_len ?s3 = 0"
      "pb_datalen ?s3 = 4 + length bs" "pb_sender ?s3 = src" "pb_receiver ?s3 = dst"
      using ff by (simp_all add: frag1_header_def)
    show "fi_len (frag_info ?s3 ! c) = n" using l s2(3) by simp
    show "\<forall>j < 2. same_session tag src (frag_info ?s3 ! j) \<longleftrightarrow> j = c"
    proof (intro allI impI)
      fix j :: nat assume j: "j < 2"
      have "same_session tag src ?f" using assms(7) by (simp add: same_session_def linkaddr_cmp_def)
      moreover have "\<not> same_session tag src (frag_info s2 ! j)"
        using freed_same_session [OF s2(1), of j tag src] assms(8) j frag_okD(1) [OF assms(1)] by auto
      ultimately show "same_session tag src (frag_info ?s3 ! j) \<longleftrightarrow> j = c" using l s2(3) j by (cases "j = c") simp_all
    qed
    show "\<forall>j < 4. \<not> (fb_len (frag_buf ?s3 ! j) > 0 \<and> unat (fb_index (frag_buf ?s3 ! j)) = c)"
    proof (intro allI impI notI)
      fix j :: nat assume j: "j < 4" and u: "fb_len (frag_buf ?s3 ! j) > 0 \<and> unat (fb_index (frag_buf ?s3 ! j)) = c"
      then have "fi_len (frag_info s2 ! c) > 0" using s2(2) l(2) nth_mem [of j "frag_buf s2"] unfolding frag_ok_def by auto
      then show False using s2(4) by simp
    qed
  qed
qed

text \<open>A first fragment opens a session that has the first bytes of the packet.\<close>

lemma receive_first:
  assumes "frag_ok s" and "arrays s" and "i < 2" and "fi_len (frag_info s ! i) = 0" and "\<forall>j < 2. \<not> same_session tag src (frag_info s ! j)"
    and "length src = 8" and "length dst = 8" and "sound_header cs h P" and "length P \<le> 350"
    and "k = hdr_size h + length payload" and "k \<le> 148" and "take k P = take (hdr_size h) P @ payload"
  obtains c s' where "sicslowpan_input now maxage cs (frame_in src dst (frag1_header (of_nat (length P)) tag @ iphc_bytes cs src dst h @ payload) s) = Some (False, s')"
    and "collecting c tag src P k [] s'" and "free_bufs s \<le> free_bufs s'"
proof -
  let ?n = "of_nat (length P) :: u16" and ?z = "iphc_bytes cs src dst h" and ?u = "hdr_size h"
  let ?L = "length ?z" and ?frame = "frag1_header (of_nat (length P)) tag @ ?z @ payload"
  note h = assms(8) [unfolded sound_header_def]
  have un: "unat ?n = length P" using assms(9) by (simp add: unat_of_nat)
  have p40: "40 \<le> length P" using h by (simp add: hdr_size_def split: if_splits)
  have n: "?n < 2048" "0 < ?n" unfolding word_less_nat_alt un using assms(9) p40 by (simp_all, auto)
  obtain c s1 where s1: "input_fragment now maxage (started src dst ?frame s) = Some (Some (first_locals ?n c), s1)"
    "c < 2" "frag_ok s1" "arrays s1" "free_bufs s \<le> free_bufs s1" "packetbuf s1 = array ?frame" "packetbuf_ptr s1 = 0"
    "packetbuf_hdr_len s1 = 4" "uncomp_hdr_len s1 = 0" "pb_datalen s1 = 4 + length (?z @ payload)" "pb_sender s1 = src" "pb_receiver s1 = dst"
    "fi_len (frag_info s1 ! c) = ?n" "\<forall>j < 2. same_session tag src (frag_info s1 ! j) \<longleftrightarrow> j = c"
    "\<forall>j < 4. \<not> (fb_len (frag_buf s1 ! j) > 0 \<and> unat (fb_index (frag_buf s1 ! j)) = c)"
    by (rule input_first_session [OF assms(1-4,6) n assms(5)])
  let ?ff = "fi_first_frag (frag_info s1 ! c)"
  note ad = arraysD [OF s1(4,3)]
  have acc: "accessible ?ff 0 148" by (rule ad(1) [OF s1(2)])
  have acc48: "accessible ?ff 0 48" by (rule accessible_mono [OF acc]) simp_all
  have l4: "length (frag1_header ?n tag) = 4" by (simp add: frag1_header_def)
  have L: "?L \<le> 48" by (rule iphc_bytes_length)
  let ?m = "put_headers h (int (length P) - 40) ?ff"
  let ?s2 = "(uncompressed h ?L s1)\<lparr>frag_info := (frag_info s1)[c := (frag_info s1 ! c)\<lparr>fi_first_frag := ?m\<rparr>]\<rparr>"
  have bz: "bytes_at (packetbuf s1) (packetbuf_ptr s1 + unat (packetbuf_hdr_len s1)) ?z"
    using bytes_at_array_append [of "frag1_header ?n tag" "?z @ payload"] s1(6-8) l4 by (simp add: bytes_at_append)
  have n0: "?n \<noteq> 0" using n(2) by auto
  have iplen: "ip_payload_len (uncompressed h ?L s1) (pb_datalen s1) ?n = int (length P) - 40"
    using n0 un by (simp add: ip_payload_len_def)
  have "input_header cs (first_locals ?n c) s1 = Some (True, ?s2)"
    using input_header_iphc [of h cs s1 ?L "first_locals ?n c"] h assms(6,7) s1(11,12) bz acc48 iplen
    by (simp add: first_locals_def no_fragment_def read_buffer_def write_buffer_def uncompressed_def)
  then have step: "sicslowpan_input now maxage cs (frame_in src dst ?frame s) = input_payload (first_locals ?n c) ?s2"
    unfolding sicslowpan_input_started s1(1) by (simp add: first_locals_def no_fragment_def)
  note l = frag_okD [OF s1(3)]
  have uh: "unat (packetbuf_hdr_len ?s2) = 4 + ?L" using s1(8) hdr_len_first [OF L] by (simp add: uncompressed_def)
  have uu: "unat (uncomp_hdr_len ?s2) = ?u" using s1(9) by (simp add: uncompressed_def hdr_size_def)
  have accm: "accessible ?m 0 148" by (rule put_headers_array) (use h acc in simp_all)
  have bp: "bytes_at (packetbuf ?s2) (packetbuf_ptr ?s2 + unat (packetbuf_hdr_len ?s2)) payload"
    using bytes_at_array_append [of "frag1_header ?n tag @ ?z" payload] uh s1(6,7) l4 by (simp add: uncompressed_def)
  let ?f = "(frag_info s1 ! c)\<lparr>fi_first_frag := put ?m ?u payload, fi_reassembled_len := of_nat k, fi_first_frag_len := of_nat k\<rparr>"
  let ?s3 = "?s2\<lparr>packetbuf_payload_len := int (length payload), frag_info := (frag_info s1)[c := ?f]\<rparr>"
  have c2: "c < length (frag_info ?s2)" "frag_info ?s2 ! c = (frag_info s1 ! c)\<lparr>fi_first_frag := ?m\<rparr>" using s1(2) l(1) by simp_all
  have d2: "pb_datalen ?s2 = unat (packetbuf_hdr_len ?s2) + length payload" unfolding uh using s1(10) by (simp add: uncompressed_def)
  have k2: "unat (uncomp_hdr_len ?s2) + length payload \<le> 148" unfolding uu using assms(10,11) by simp
  have a2: "accessible (fi_first_frag (frag_info ?s2 ! c)) 0 148" unfolding c2(2) using accm by simp
  have s3: "sicslowpan_input now maxage cs (frame_in src dst ?frame s) = Some (False, ?s3)"
    unfolding step input_payload_first [OF c2(1) bp d2 k2 a2 n(2)] uu c2(2) assms(10) by simp
  have u: "length (take ?u P) = ?u" using h by (simp add: hdr_size_def)
  have k: "bytes_at (put ?m ?u payload) 0 (take k P)"
    unfolding assms(12) bytes_at_append u
    using put_headers_sound [OF assms(8), of ?ff] u by (simp add: bytes_at_put bytes_at_put_outside min_absorb2)
  have acp: "accessible (put ?m ?u payload) 0 148"
  proof -
    have "accessible ?m ?u (length payload)" by (rule accessible_mono [OF accm]) (use assms(10,11) in simp_all)
    then show ?thesis using accm by simp
  qed
  have ok3: "frag_ok ?s3" by (rule sicslowpan_input_ok [OF s3]) (use assms(1) in \<open>simp add: frame_in_def frag_ok_def\<close>)
  have ar3: "arrays ?s3"
    using arrays_info [OF s1(4), of ?f c] acp ad(2) [OF s1(2)] by (simp add: arrays_def uncompressed_def)
  have "collecting c tag src P k [] ?s3"
    unfolding collecting_def
  proof (intro conjI)
    show "\<forall>j < 2. same_session tag src (frag_info ?s3 ! j) \<longleftrightarrow> j = c"
    proof (intro allI impI)
      fix j :: nat assume j: "j < 2"
      then show "same_session tag src (frag_info ?s3 ! j) \<longleftrightarrow> j = c"
        using s1(14) l(1) by (cases "j = c") (auto simp: same_session_def)
    qed
    show "\<forall>j < 4. fb_len (frag_buf ?s3 ! j) > 0 \<and> unat (fb_index (frag_buf ?s3 ! j)) = c \<longrightarrow> (\<exists>fr \<in> set []. holds c (frag_buf ?s3 ! j) fr)"
      using s1(15) by (simp add: uncompressed_def)
    show "bytes_at (fi_first_frag (frag_info ?s3 ! c)) 0 (take k P)" using k s1(2) l(1) by simp
  qed (use s1(2,13) l(1) ok3 ar3 in \<open>simp_all add: total_def\<close>)
  moreover have "free_bufs s \<le> free_bufs ?s3" using s1(5) by (simp add: free_bufs_def uncompressed_def)
  ultimately show thesis using that s3 by blast
qed

subsection \<open>Later fragments\<close>

text \<open>A fragment of a packet: its offset in units of 8 bytes and its bytes.\<close>

definition fragment_of :: "u8 list \<Rightarrow> u8 \<times> u8 list \<Rightarrow> bool" where
  "fragment_of P fr \<longleftrightarrow> fst fr \<noteq> 0 \<and> snd fr \<noteq> [] \<and> length (snd fr) \<le> SICSLOWPAN_FRAGMENT_SIZE \<and>
     8 * unat (fst fr) + length (snd fr) \<le> length P \<and> snd fr = take (length (snd fr)) (drop (8 * unat (fst fr)) P)"

lemma filter_update_length:
  "j < length xs \<Longrightarrow> Q (xs ! j) \<Longrightarrow> length (filter Q xs) \<le> Suc (length (filter Q (xs[j := x])))"
proof (induction xs arbitrary: j)
  case (Cons y ys)
  then show ?case by (cases j) fastforce+
qed simp

definition stored :: "nat \<Rightarrow> u8 \<Rightarrow> u8 list \<Rightarrow> sicslowpan_frag_buf \<Rightarrow> sicslowpan_frag_buf" where
  "stored c offset bs b = b\<lparr>fb_offset := offset, fb_len := of_nat (length bs), fb_index := of_nat c, fb_data := put (fb_data b) 0 bs\<rparr>"

lemma store_loop_stores:
  assumes "\<exists>j \<in> set js. fb_len (frag_buf s ! j) = 0" and "\<And>j. j \<in> set js \<Longrightarrow> accessible (fb_data (frag_buf s ! j)) 0 (length bs)"
    and "bytes_at (packetbuf s) (packetbuf_ptr s + unat (packetbuf_hdr_len s)) bs" and "pb_datalen s = unat (packetbuf_hdr_len s) + length bs"
    and "length bs < 256"
  shows "\<exists>j \<in> set js. fb_len (frag_buf s ! j) = 0 \<and>
    store_loop js c offset s = Some (int (length bs), s\<lparr>frag_buf := (frag_buf s)[j := stored c offset bs (frag_buf s ! j)]\<rparr>)"
proof -
  have "unat (of_nat (length bs) :: u8) = length bs" using assms(5) by (simp add: unat_of_nat)
  then have u: "uint (of_nat (length bs) :: u8) = int (length bs)" by (metis uint_nat)
  show ?thesis using assms(1,2)
  proof (induction js)
    case (Cons j js)
    show ?case
    proof (cases "fb_len (frag_buf s ! j) = 0")
      case True
      have a: "accessible (fb_data (frag_buf s ! j)) 0 (length bs)" using Cons.prems(2) by simp
      have "store_loop (j # js) c offset s = Some (int (length bs), s\<lparr>frag_buf := (frag_buf s)[j := stored c offset bs (frag_buf s ! j)]\<rparr>)"
        using True memcpy_put [OF a assms(3) refl] assms(4) u by (simp add: Let_def stored_def)
      then show ?thesis using True by simp
    next
      case False
      then show ?thesis using Cons by auto
    qed
  qed simp
qed

lemma free_bufs_ex: "0 < free_bufs s \<Longrightarrow> length (frag_buf s) = 4 \<Longrightarrow> \<exists>j < 4. fb_len (frag_buf s ! j) = 0"
  unfolding free_bufs_def length_greater_0_conv filter_empty_conv by (metis in_set_conv_nth)

lemma holds_stored: "c < 2 \<Longrightarrow> bs \<noteq> [] \<Longrightarrow> length bs < 256 \<Longrightarrow> holds c (stored c offset bs b) (offset, bs)"
  by (auto simp: holds_def stored_def unat_of_nat bytes_at_put word_less_nat_alt)

lemma collecting_cong:
  "frag_info s' = frag_info s \<Longrightarrow> frag_buf s' = frag_buf s \<Longrightarrow> uip_buf s' = uip_buf s \<Longrightarrow>
    collecting c tag src P k frs s' \<longleftrightarrow> collecting c tag src P k frs s"
  by (simp add: collecting_def frag_ok_def arrays_def)

lemma collecting_store:
  assumes "collecting c tag src P k frs s" and "j < 4" and "fb_len (frag_buf s ! j) = 0" and "fragment_of P (offset, bs)"
  shows "collecting c tag src P k ((offset, bs) # frs) (s\<lparr>frag_buf := (frag_buf s)[j := stored c offset bs (frag_buf s ! j)],
     frag_info := (frag_info s)[c := (frag_info s ! c)\<lparr>fi_reassembled_len := fi_reassembled_len (frag_info s ! c) + of_nat (length bs)\<rparr>]\<rparr>)"
    (is "collecting c tag src P k _ ?s")
proof -
  note col = assms(1) [unfolded collecting_def]
  have l: "length (frag_info s) = 2" "length (frag_buf s) = 4" using col frag_okD by blast+
  have bs: "bs \<noteq> []" "length bs \<le> 110" using assms(4) by (simp_all add: fragment_of_def SICSLOWPAN_FRAGMENT_SIZE_def)
  let ?b = "stored c offset bs (frag_buf s ! j)"
  have h: "holds c ?b (offset, bs)" by (rule holds_stored) (use col bs in simp_all)
  have acc: "accessible (fb_data (frag_buf s ! j)) 0 110" using arraysD(3) col assms(2) by blast
  then have accb: "accessible (fb_data ?b) 0 110"
    using bs(2) accessible_mono [OF acc, of 0 "length bs"] by (simp add: stored_def)
  have fo: "fi_len (frag_info s ! c) > 0" using col unfolding same_session_def by blast
  have "frag_ok ?s"
  proof -
    have ix: "unat (fb_index ?b) = c" using h by (simp add: holds_def)
    have len: "fi_len (frag_info ?s ! i) = fi_len (frag_info s ! i)" if "i < 2" for i
      using that l by (cases "i = c") simp_all
    have "unat (fb_index b) < 2 \<and> fi_len (frag_info ?s ! unat (fb_index b)) > 0" if "b \<in> set (frag_buf ?s)" "fb_len b > 0" for b
    proof (cases "b = ?b")
      case True
      then show ?thesis using ix fo col len [of c] by simp
    next
      case False
      then have "b \<in> set (frag_buf s)" using that(1) set_update_subset_insert [of "frag_buf s" j ?b] by auto
      then have "unat (fb_index b) < 2 \<and> fi_len (frag_info s ! unat (fb_index b)) > 0"
        using col that(2) by (simp add: frag_ok_def SICSLOWPAN_REASS_CONTEXTS_def)
      then show ?thesis using len by metis
    qed
    then show ?thesis using l by (simp add: frag_ok_def SICSLOWPAN_REASS_CONTEXTS_def SICSLOWPAN_FRAGMENT_BUFFERS_def)
  qed
  moreover have "arrays ?s"
  proof -
    have "arrays (s\<lparr>frag_info := frag_info ?s\<rparr>)"
      using arrays_info [of s "(frag_info s ! c)\<lparr>fi_reassembled_len := fi_reassembled_len (frag_info s ! c) + of_nat (length bs)\<rparr>" c]
        arraysD(1,2) [of s c] col by simp
    then show ?thesis using accb
      by (auto simp: arrays_def SICSLOWPAN_FRAGMENT_SIZE_def dest!: set_update_subset_insert [THEN subsetD])
  qed
  moreover have "\<forall>i < 2. same_session tag src (frag_info ?s ! i) \<longleftrightarrow> i = c"
  proof (intro allI impI)
    fix i :: nat assume i: "i < 2"
    have "same_session tag src (frag_info ?s ! i) \<longleftrightarrow> same_session tag src (frag_info s ! i)"
      using l i by (cases "i = c") (simp_all add: same_session_def)
    then show "same_session tag src (frag_info ?s ! i) \<longleftrightarrow> i = c" using col i by blast
  qed
  moreover have "\<forall>i < 4. fb_len (frag_buf ?s ! i) > 0 \<and> unat (fb_index (frag_buf ?s ! i)) = c \<longrightarrow>
    (\<exists>fr \<in> set ((offset, bs) # frs). holds c (frag_buf ?s ! i) fr)"
  proof (intro allI impI)
    fix i :: nat assume i: "i < 4" "fb_len (frag_buf ?s ! i) > 0 \<and> unat (fb_index (frag_buf ?s ! i)) = c"
    show "\<exists>fr \<in> set ((offset, bs) # frs). holds c (frag_buf ?s ! i) fr"
    proof (cases "i = j")
      case True
      then show ?thesis using h l assms(2) by simp
    next
      case False
      then have "\<exists>fr \<in> set frs. holds c (frag_buf s ! i) fr" using col i by simp
      then show ?thesis using False by simp
    qed
  qed
  moreover have "\<forall>fr \<in> set ((offset, bs) # frs). \<exists>i < 4. holds c (frag_buf ?s ! i) fr"
  proof
    fix fr assume fr: "fr \<in> set ((offset, bs) # frs)"
    show "\<exists>i < 4. holds c (frag_buf ?s ! i) fr"
    proof (cases "fr = (offset, bs)")
      case True
      then show ?thesis using h l assms(2) by (intro exI [of _ j]) simp
    next
      case False
      then obtain i where i: "i < 4" "holds c (frag_buf s ! i) fr" using fr col by auto
      then have "i \<noteq> j" using assms(3) by (auto simp: holds_def)
      then show ?thesis using i by (intro exI [of _ i]) simp
    qed
  qed
  ultimately show ?thesis using col l unfolding collecting_def by (simp add: total_def algebra_simps)
qed

lemma add_later_fragment:
  assumes "collecting c tag src P k frs s" and "0 < free_bufs s" and "fragment_of P (offset, bs)" and "pb_sender s = src"
    and "bytes_at (packetbuf s) (packetbuf_ptr s + unat (packetbuf_hdr_len s)) bs" and "pb_datalen s = unat (packetbuf_hdr_len s) + length bs"
  obtains infos bufs where "add_fragment now maxage tag n offset s = Some (Some c, s\<lparr>frag_info := infos, frag_buf := bufs\<rparr>)"
    and "collecting c tag src P k ((offset, bs) # frs) (s\<lparr>frag_info := infos, frag_buf := bufs\<rparr>)"
    and "free_bufs s \<le> Suc (free_bufs (s\<lparr>frag_info := infos, frag_buf := bufs\<rparr>))"
proof -
  note col = assms(1) [unfolded collecting_def]
  have l: "length (frag_info s) = 2" "length (frag_buf s) = 4" using col frag_okD by blast+
  have bs: "bs \<noteq> []" "length bs \<le> 110" "offset \<noteq> 0" using assms(3) by (simp_all add: fragment_of_def SICSLOWPAN_FRAGMENT_SIZE_def)
  have find: "find (\<lambda>i. same_session tag (pb_sender s) (frag_info s ! i)) [0..<SICSLOWPAN_REASS_CONTEXTS] = Some c"
  proof -
    have u: "[0..<SICSLOWPAN_REASS_CONTEXTS] = [0, 1]" by (simp add: SICSLOWPAN_REASS_CONTEXTS_def upt_rec)
    have "same_session tag src (frag_info s ! 0) \<longleftrightarrow> c = 0" "same_session tag src (frag_info s ! 1) \<longleftrightarrow> c = 1" using col by auto
    moreover have "c = 0 \<or> c = 1" using col by auto
    ultimately show ?thesis unfolding u assms(4) by auto
  qed
  have a: "accessible (fb_data (frag_buf s ! j)) 0 (length bs)" if "j \<in> set [0..<SICSLOWPAN_FRAGMENT_BUFFERS]" for j
  proof -
    have "j < 4" using that by (simp add: SICSLOWPAN_FRAGMENT_BUFFERS_def)
    then have "accessible (fb_data (frag_buf s ! j)) 0 110" using arraysD(3) col by blast
    then show ?thesis by (rule accessible_mono) (use bs(2) in simp_all)
  qed
  have f: "\<exists>j \<in> set [0..<SICSLOWPAN_FRAGMENT_BUFFERS]. fb_len (frag_buf s ! j) = 0"
    using free_bufs_ex [OF assms(2) l(2)] by (auto simp: SICSLOWPAN_FRAGMENT_BUFFERS_def)
  obtain j where j: "j < 4" "fb_len (frag_buf s ! j) = 0"
    "store_fragment c offset s = Some (int (length bs), s\<lparr>frag_buf := (frag_buf s)[j := stored c offset bs (frag_buf s ! j)]\<rparr>)"
    using store_loop_stores [OF f a assms(5,6), of c offset] bs(2) unfolding store_fragment_def
    by (auto simp: SICSLOWPAN_FRAGMENT_BUFFERS_def)
  let ?is = "(frag_info s)[c := (frag_info s ! c)\<lparr>fi_reassembled_len := fi_reassembled_len (frag_info s ! c) + of_nat (length bs)\<rparr>]"
  let ?bufs = "(frag_buf s)[j := stored c offset bs (frag_buf s ! j)]"
  have e: "s\<lparr>frag_buf := ?bufs, frag_info := ?is\<rparr> = s\<lparr>frag_info := ?is, frag_buf := ?bufs\<rparr>" by simp
  show thesis
  proof (rule that)
    show "add_fragment now maxage tag n offset s = Some (Some c, s\<lparr>frag_info := ?is, frag_buf := ?bufs\<rparr>)"
      using find j(3) bs by (simp add: add_fragment_def Let_def)
    show "collecting c tag src P k ((offset, bs) # frs) (s\<lparr>frag_info := ?is, frag_buf := ?bufs\<rparr>)"
      using collecting_store [OF assms(1) j(1,2) assms(3)] unfolding e .
    show "free_bufs s \<le> Suc (free_bufs (s\<lparr>frag_info := ?is, frag_buf := ?bufs\<rparr>))"
      using filter_update_length [of j "frag_buf s" "\<lambda>b. fb_len b = 0" "stored c offset bs (frag_buf s ! j)"] j(1,2) l(2)
      by (simp add: free_bufs_def)
  qed
qed

text \<open>Every buffer of the session is copied to its place; what is written agrees with the packet.\<close>

definition covers :: "u8 \<times> u8 list \<Rightarrow> nat \<Rightarrow> bool" where
  "covers fr p \<longleftrightarrow> 8 * unat (fst fr) \<le> p \<and> p < 8 * unat (fst fr) + length (snd fr)"

lemma holds_unique: "holds c b fr \<Longrightarrow> holds c b fr' \<Longrightarrow> fr = fr'"
  using bytes_at_unique [of "fb_data b" 0 "snd fr" "snd fr'"] by (simp add: holds_def prod_eq_iff)

lemma shift_3: "unat (push_bit 3 (ucast (w :: u8)) :: u16) = 8 * unat w"
proof -
  have "unat w < 2 ^ LENGTH(8)" by (rule unsigned_less)
  then have "unat w * 8 < 65536" by simp
  then have "unat (ucast w :: u16) = unat w" by (simp add: unsigned_ucast_eq take_bit_eq_mod)
  with \<open>unat w * 8 < 65536\<close> show ?thesis by (simp add: push_bit_eq_mult unat_word_ariths mult.commute)
qed

lemma put_fragment:
  assumes "fragment_of P fr" and "p < length P" and "m p = Some (P ! p) \<or> covers fr p"
  shows "put m (8 * unat (fst fr)) (snd fr) p = Some (P ! p)"
proof (cases "covers fr p")
  case True
  have "snd fr ! (p - 8 * unat (fst fr)) = take (length (snd fr)) (drop (8 * unat (fst fr)) P) ! (p - 8 * unat (fst fr))"
    using assms(1) by (metis fragment_of_def)
  moreover have "8 * unat (fst fr) \<le> length P" using assms(1) by (simp add: fragment_of_def)
  moreover have "take (length (snd fr)) (drop (8 * unat (fst fr)) P) ! (p - 8 * unat (fst fr)) = P ! p"
    using True calculation(2) by (subst nth_take) (simp_all add: covers_def, linarith)
  ultimately have "snd fr ! (p - 8 * unat (fst fr)) = P ! p" by simp
  then show ?thesis using True by (simp add: put_def covers_def)
next
  case False
  then show ?thesis using assms(3) by (auto simp: put_def covers_def)
qed

lemma copy_loop_agrees:
  assumes "\<forall>b \<in> set bs. fb_len b > 0 \<and> unat (fb_index b) = c \<longrightarrow> (\<exists>fr. fragment_of P fr \<and> holds c b fr)"
    and "accessible uip 0 350" and "length P \<le> 350"
  shows "\<exists>m. copy_loop c bs uip = Some m \<and> accessible m 0 350 \<and>
    (\<forall>p < length P. uip p = Some (P ! p) \<or> (\<exists>b \<in> set bs. \<exists>fr. holds c b fr \<and> covers fr p) \<longrightarrow> m p = Some (P ! p))"
  using assms(1,2)
proof (induction bs arbitrary: uip)
  case (Cons b bs)
  show ?case
  proof (cases "fb_len b > 0 \<and> unat (fb_index b) = c")
    case True
    then obtain fr where fr: "fragment_of P fr" "holds c b fr" using Cons.prems(1) by auto
    let ?m = "put uip (8 * unat (fst fr)) (snd fr)"
    have acc: "accessible uip (8 * unat (fst fr)) (length (snd fr))"
      by (rule accessible_mono [OF Cons.prems(2)]) (use fr(1) assms(3) in \<open>simp_all add: fragment_of_def\<close>)
    have f: "fb_offset b = fst fr" "unat (fb_len b) = length (snd fr)" "bytes_at (fb_data b) 0 (snd fr)" using fr(2) by (simp_all add: holds_def)
    have "memcpy uip (unat (push_bit 3 (ucast (fb_offset b)) :: u16)) (fb_data b) 0 (int (unat (fb_len b))) = Some ?m"
      unfolding shift_3 f(1,2) by (rule memcpy_put [OF acc f(3) refl])
    then have step: "copy_loop c (b # bs) uip = copy_loop c bs ?m" using True by simp
    have "accessible ?m 0 350" using acc Cons.prems(2) by simp
    then obtain m where m: "copy_loop c bs ?m = Some m" "accessible m 0 350"
      "\<forall>p < length P. ?m p = Some (P ! p) \<or> (\<exists>b \<in> set bs. \<exists>fr. holds c b fr \<and> covers fr p) \<longrightarrow> m p = Some (P ! p)"
      using Cons.IH [of ?m] Cons.prems(1) by auto
    have "m p = Some (P ! p)" if "p < length P" "uip p = Some (P ! p) \<or> (\<exists>b' \<in> set (b # bs). \<exists>fr. holds c b' fr \<and> covers fr p)" for p
    proof -
      have "uip p = Some (P ! p) \<or> covers fr p \<or> (\<exists>b' \<in> set bs. \<exists>fr. holds c b' fr \<and> covers fr p)"
        using that(2) holds_unique [OF fr(2)] by auto
      then show ?thesis using m(3) that(1) put_fragment [OF fr(1) that(1), of uip] by blast
    qed
    then show ?thesis using step m(1,2) by auto
  next
    case False
    then have n: "\<not> holds c b fr" for fr by (auto simp: holds_def)
    have "copy_loop c (b # bs) uip = copy_loop c bs uip" unfolding copy_loop.simps by (rule if_not_P [OF False])
    then show ?thesis using Cons.IH [OF _ Cons.prems(2)] Cons.prems(1) n by simp
  qed
qed simp

text \<open>The fragments are all there is behind the first \<open>k\<close> bytes.\<close>

definition complete :: "u8 list \<Rightarrow> nat \<Rightarrow> (u8 \<times> u8 list) list \<Rightarrow> bool" where
  "complete P k frs \<longleftrightarrow> k < length P \<and> (\<forall>fr \<in> set frs. fragment_of P fr) \<and> k + total frs = length P \<and>
     (\<forall>p. k \<le> p \<and> p < length P \<longrightarrow> (\<exists>fr \<in> set frs. covers fr p))"

lemma copy_collected:
  assumes "collecting c tag src P k frs s" and "complete P k frs" and "length P \<le> 350" and "k \<le> 148"
  obtains m where "copy_frags2uip c s = Some (snd (clear_fragments c (s\<lparr>uip_buf := m\<rparr>)))" and "bytes_at m 0 P" and "accessible m 0 350"
proof -
  note col = assms(1) [unfolded collecting_def] and com = assms(2) [unfolded complete_def]
  have uk: "unat (of_nat k :: u16) = k" using assms(4) by (simp add: unat_of_nat)
  have acc: "accessible (uip_buf s) 0 350" using arraysD(4) col by blast
  let ?t = "take k P" and ?m0 = "put (uip_buf s) 0 (take k P)"
  have lt: "length ?t = k" using com by simp
  have "accessible (uip_buf s) 0 (length ?t)" by (rule accessible_mono [OF acc]) (use assms(4) lt in simp_all)
  then have cp: "memcpy (uip_buf s) 0 (fi_first_frag (frag_info s ! c)) 0 (int (unat (fi_first_frag_len (frag_info s ! c)))) = Some ?m0" and acc0: "accessible ?m0 0 350"
    using memcpy_put [of "uip_buf s" 0 ?t "fi_first_frag (frag_info s ! c)" 0] col uk lt acc by simp_all
  have l: "length (frag_buf s) = 4" using frag_okD col by blast
  have "\<forall>b \<in> set (frag_buf s). fb_len b > 0 \<and> unat (fb_index b) = c \<longrightarrow> (\<exists>fr. fragment_of P fr \<and> holds c b fr)"
    using col com l by (metis in_set_conv_nth)
  from copy_loop_agrees [OF this acc0 assms(3)] obtain m where m: "copy_loop c (frag_buf s) ?m0 = Some m" "accessible m 0 350"
    "\<forall>p < length P. ?m0 p = Some (P ! p) \<or> (\<exists>b \<in> set (frag_buf s). \<exists>fr. holds c b fr \<and> covers fr p) \<longrightarrow> m p = Some (P ! p)" by auto
  have "m p = Some (P ! p)" if p: "p < length P" for p
  proof (cases "p < k")
    case True
    then have "?m0 p = Some (P ! p)" using lt by (simp add: put_def)
    then show ?thesis using m(3) p by blast
  next
    case False
    then have "\<exists>fr \<in> set frs. covers fr p" using com p by (metis not_less)
    then obtain fr where "fr \<in> set frs" "covers fr p" by blast
    then obtain j where "j < 4" "holds c (frag_buf s ! j) fr" using col by blast
    then show ?thesis using m(3) p \<open>covers fr p\<close> l nth_mem [of j "frag_buf s"] by metis
  qed
  then have "bytes_at m 0 P" by (simp add: bytes_at_def)
  moreover have "copy_frags2uip c s = Some (snd (clear_fragments c (s\<lparr>uip_buf := m\<rparr>)))" using cp m(1) by (simp add: copy_frags2uip_def)
  ultimately show thesis using that m(2) by blast
qed

definition later_frame :: "u8 list \<Rightarrow> u16 \<Rightarrow> u8 \<times> u8 list \<Rightarrow> u8 list" where
  "later_frame P tag fr = fragn_header (of_nat (length P)) tag (fst fr) @ snd fr"

definition later_locals :: "u16 \<Rightarrow> nat \<Rightarrow> u8 \<Rightarrow> bool \<Rightarrow> frag_locals" where
  "later_locals n c offset is_last = no_fragment\<lparr>lo_frag_size := n, lo_frag_offset := offset, lo_is_fragment := True, lo_context := c,
     lo_last := is_last, lo_buffer := Buf_NULL\<rparr>"

lemma later_session:
  assumes "collecting c tag src P k frs s" and "0 < free_bufs s" and "fragment_of P fr" and "length P \<le> 350" and "k + total (fr # frs) \<le> 350"
  obtains s' where "input_fragment now maxage (started src dst (later_frame P tag fr) s) =
      Some (Some (later_locals (of_nat (length P)) c (fst fr) (length P \<le> k + total (fr # frs))), s')"
    and "collecting c tag src P k (fr # frs) s'" and "free_bufs s \<le> Suc (free_bufs s')"
    and "packetbuf_hdr_len s' = 5" and "uncomp_hdr_len s' = 0" and "pb_datalen s' = 5 + length (snd fr)"
proof -
  let ?n = "of_nat (length P) :: u16" and ?s0 = "started src dst (later_frame P tag fr) s"
  let ?s1 = "?s0\<lparr>packetbuf_hdr_len := packetbuf_hdr_len ?s0 + 5\<rparr>"
  obtain offset bs where fr: "fr = (offset, bs)" by (cases fr)
  have un: "unat ?n = length P" using assms(4) by (simp add: unat_of_nat)
  have n: "?n < 2048" unfolding word_less_nat_alt un using assms(4) by simp
  have b: "bytes_at (packetbuf ?s0) (packetbuf_ptr ?s0) (fragn_header ?n tag offset)"
    using bytes_at_array [of "later_frame P tag fr"] fr by (simp add: later_frame_def bytes_at_append)
  have col: "collecting c tag src P k frs ?s1"
    by (rule collecting_cong [THEN iffD2, OF _ _ _ assms(1)]) simp_all
  have l5: "length (fragn_header ?n tag offset) = 5" by (simp add: fragn_header_def)
  have bp: "bytes_at (packetbuf ?s1) (packetbuf_ptr ?s1 + unat (packetbuf_hdr_len ?s1)) bs"
    using bytes_at_array_append [of "fragn_header ?n tag offset" bs] fr l5 by (simp add: later_frame_def)
  have f: "0 < free_bufs ?s1" "fragment_of P (offset, bs)" "pb_sender ?s1 = src" "pb_datalen ?s1 = unat (packetbuf_hdr_len ?s1) + length bs"
    using assms(2,3) fr l5 by (simp_all add: free_bufs_def later_frame_def started_def frame_in_def)
  obtain infos bufs where add: "add_fragment now maxage tag ?n offset ?s1 = Some (Some c, ?s1\<lparr>frag_info := infos, frag_buf := bufs\<rparr>)"
    "collecting c tag src P k ((offset, bs) # frs) (?s1\<lparr>frag_info := infos, frag_buf := bufs\<rparr>)"
    "free_bufs ?s1 \<le> Suc (free_bufs (?s1\<lparr>frag_info := infos, frag_buf := bufs\<rparr>))"
    by (rule add_later_fragment [OF col f(1-3) bp f(4)])
  let ?s2 = "?s1\<lparr>frag_info := infos, frag_buf := bufs\<rparr>"
  have "fi_reassembled_len (frag_info ?s2 ! c) = of_nat (k + total (fr # frs))" using add(2) fr by (simp add: collecting_def)
  moreover have "unat (of_nat (k + total (fr # frs)) :: u16) = k + total (fr # frs)"
    using assms(5) by (simp add: unat_of_nat del: of_nat_add)
  ultimately have lst: "?n \<le> fi_reassembled_len (frag_info ?s2 ! c) \<longleftrightarrow> length P \<le> k + total (fr # frs)"
    by (simp only: word_le_nat_alt un)
  show thesis
  proof (rule that [of ?s2])
    show "input_fragment now maxage ?s0 = Some (Some (later_locals ?n c (fst fr) (length P \<le> k + total (fr # frs))), ?s2)"
      unfolding input_fragment_n [OF b n] add(1) Option.bind.bind_lunit prod.case option.case lst
      by (simp add: later_locals_def fr)
    show "free_bufs s \<le> Suc (free_bufs ?s2)" using add(3) by (simp add: free_bufs_def)
  qed (use add(2) fr f(4) in simp_all)
qed

lemma later_req:
  assumes "fragment_of P fr" and "length P \<le> 350"
  shows "\<not> 350 < int (unat (push_bit 3 (ucast (fst fr)) :: u16)) + int (length (snd fr))"
proof -
  have "8 * unat (fst fr) + length (snd fr) \<le> length P" using assms(1) by (simp add: fragment_of_def)
  then show ?thesis unfolding shift_3 using assms(2) by linarith
qed

lemma receive_later:
  assumes "collecting c tag src P k frs s" and "0 < free_bufs s" and "fragment_of P fr" and "length P \<le> 350" and "k + total (fr # frs) < length P"
  obtains s' where "sicslowpan_input now maxage cs (frame_in src dst (later_frame P tag fr) s) = Some (False, s')"
    and "collecting c tag src P k (fr # frs) s'" and "free_bufs s \<le> Suc (free_bufs s')"
proof -
  have le: "k + total (fr # frs) \<le> 350" using assms(4,5) by simp
  obtain s1 where s1: "input_fragment now maxage (started src dst (later_frame P tag fr) s) =
      Some (Some (later_locals (of_nat (length P)) c (fst fr) (length P \<le> k + total (fr # frs))), s1)"
    "collecting c tag src P k (fr # frs) s1" "free_bufs s \<le> Suc (free_bufs s1)"
    "packetbuf_hdr_len s1 = 5" "uncomp_hdr_len s1 = 0" "pb_datalen s1 = 5 + length (snd fr)"
    by (rule later_session [OF assms(1-4) le])
  let ?s2 = "s1\<lparr>packetbuf_payload_len := int (length (snd fr))\<rparr>"
  have "input_payload (later_locals (of_nat (length P)) c (fst fr) False) s1 = Some (False, ?s2)"
    using s1(4-6) later_req [OF assms(3,4)]
    by (simp add: input_payload_def later_locals_def no_fragment_def Let_def UIP_BUFSIZE_def)
  then have "sicslowpan_input now maxage cs (frame_in src dst (later_frame P tag fr) s) = Some (False, ?s2)"
    unfolding sicslowpan_input_started s1(1) using assms(5) by (simp add: later_locals_def no_fragment_def)
  moreover have "collecting c tag src P k (fr # frs) ?s2" using s1(2) by (subst collecting_cong [of _ s1]) simp_all
  moreover have "free_bufs ?s2 = free_bufs s1" by (simp add: free_bufs_def)
  ultimately show thesis using that s1(3) by metis
qed

lemma receive_last:
  assumes "collecting c tag src P k frs s" and "0 < free_bufs s" and "length P \<le> 350" and "complete P k (fr # frs)" and "k \<le> 148"
  obtains s' where "sicslowpan_input now maxage cs (frame_in src dst (later_frame P tag fr) s) = Some (True, s')"
    and "bytes_at (uip_buf s') 0 P" and "uip_len s' = of_nat (length P)" and "fi_len (frag_info s' ! c) = 0" and "frag_ok s'"
proof -
  let ?n = "of_nat (length P) :: u16"
  have fr: "fragment_of P fr" "k + total (fr # frs) = length P" "0 < length P" using assms(4) by (auto simp: complete_def)
  have le: "k + total (fr # frs) \<le> 350" using assms(3) fr(2) by simp
  obtain s1 where s1: "input_fragment now maxage (started src dst (later_frame P tag fr) s) =
      Some (Some (later_locals ?n c (fst fr) (length P \<le> k + total (fr # frs))), s1)"
    "collecting c tag src P k (fr # frs) s1" "free_bufs s \<le> Suc (free_bufs s1)"
    "packetbuf_hdr_len s1 = 5" "uncomp_hdr_len s1 = 0" "pb_datalen s1 = 5 + length (snd fr)"
    by (rule later_session [OF assms(1,2) fr(1) assms(3) le])
  note col = s1(2) [unfolded collecting_def]
  have c: "c < 2" "length (frag_info s1) = 2" using col frag_okD by blast+
  have un: "unat ?n = length P" using assms(3) by (simp add: unat_of_nat)
  have n0: "0 < ?n" unfolding word_less_nat_alt un using fr(3) by simp
  let ?s2 = "s1\<lparr>packetbuf_payload_len := int (length (snd fr))\<rparr>"
  have "(frag_info s1 ! c)\<lparr>fi_reassembled_len := ?n\<rparr> = frag_info s1 ! c" using col fr(2) by simp
  then have id: "?s2\<lparr>frag_info := (frag_info ?s2)[c := (frag_info ?s2 ! c)\<lparr>fi_reassembled_len := ?n\<rparr>]\<rparr> = ?s2"
    using c by (cases s1) (simp add: list_update_id)
  have col2: "collecting c tag src P k (fr # frs) ?s2" using s1(2) by (subst collecting_cong [of _ s1]) simp_all
  obtain m where m: "copy_frags2uip c ?s2 = Some (snd (clear_fragments c (?s2\<lparr>uip_buf := m\<rparr>)))" "bytes_at m 0 P" "accessible m 0 350"
    by (rule copy_collected [OF col2 assms(4,3,5)])
  let ?s3 = "(snd (clear_fragments c (?s2\<lparr>uip_buf := m\<rparr>)))\<lparr>uip_len := ?n\<rparr>"
  have "input_payload (later_locals ?n c (fst fr) True) s1 = Some (True, ?s3)"
    using s1(4-6) later_req [OF fr(1) assms(3)] id m(1) n0
    by (simp add: input_payload_def later_locals_def no_fragment_def Let_def UIP_BUFSIZE_def)
  then have s3: "sicslowpan_input now maxage cs (frame_in src dst (later_frame P tag fr) s) = Some (True, ?s3)"
    unfolding sicslowpan_input_started s1(1) using fr(2) by (simp add: later_locals_def no_fragment_def)
  have "frag_ok ?s3" by (rule sicslowpan_input_ok [OF s3]) (use assms(1) in \<open>simp add: collecting_def frame_in_def frag_ok_def\<close>)
  then show thesis using that [OF s3] m(2) c by (simp add: clear_fragments_def)
qed

subsection \<open>A packet in fragments\<close>

text \<open>Frames that arrive one after another from one sender, each with its time; which of them complete a packet.\<close>

fun receive :: "u32 \<Rightarrow> sicslowpan_addr_context list \<Rightarrow> linkaddr \<Rightarrow> linkaddr \<Rightarrow> (u32 \<times> u8 list) list \<Rightarrow> sics \<Rightarrow> (bool list \<times> sics) option" where
  "receive maxage cs src dst [] s = Some ([], s)"
| "receive maxage cs src dst ((now, bs) # frames) s = do {
     (d, s) \<leftarrow> sicslowpan_input now maxage cs (frame_in src dst bs s);
     (ds, s) \<leftarrow> receive maxage cs src dst frames s;
     Some (d # ds, s)
   }"

definition later_frames :: "u8 list \<Rightarrow> u16 \<Rightarrow> (u32 \<times> u8 \<times> u8 list) list \<Rightarrow> (u32 \<times> u8 list) list" where
  "later_frames P tag tfrs = map (\<lambda>(now, fr). (now, later_frame P tag fr)) tfrs"

lemma receive_rest:
  assumes "collecting c tag src P k frs s" and "length tfrs \<le> free_bufs s" and "length P \<le> 350" and "complete P k (map snd tfrs @ frs)" and "k \<le> 148"
    and "tfrs \<noteq> []"
  shows "\<exists>s'. receive maxage cs src dst (later_frames P tag tfrs) s = Some (replicate (length tfrs - 1) False @ [True], s') \<and>
    bytes_at (uip_buf s') 0 P \<and> uip_len s' = of_nat (length P) \<and> fi_len (frag_info s' ! c) = 0 \<and> frag_ok s'"
  using assms(1,2,4,6)
proof (induction tfrs arbitrary: frs s)
  case (Cons tfr tfrs)
  obtain now fr where tfr: "tfr = (now, fr)" by (cases tfr)
  have f: "0 < free_bufs s" "fragment_of P fr" using Cons.prems(2,3) tfr by (auto simp: complete_def)
  show ?case
  proof (cases "tfrs = []")
    case True
    then have com: "complete P k (fr # frs)" using Cons.prems(3) tfr by simp
    obtain s' where "sicslowpan_input now maxage cs (frame_in src dst (later_frame P tag fr) s) = Some (True, s')"
      "bytes_at (uip_buf s') 0 P" "uip_len s' = of_nat (length P)" "fi_len (frag_info s' ! c) = 0" "frag_ok s'"
      by (rule receive_last [OF Cons.prems(1) f(1) assms(3) com assms(5)])
    then show ?thesis using tfr True by (simp add: later_frames_def)
  next
    case False
    then obtain t0 fr0 rest where rest: "tfrs = (t0, fr0) # rest" by (metis list.exhaust prod.exhaust)
    have com: "complete P k (map snd tfrs @ fr # frs)" using Cons.prems(3) tfr by (auto simp: complete_def total_def)
    have "snd fr0 \<noteq> []" using Cons.prems(3) rest by (simp add: complete_def fragment_of_def)
    then have "0 < length (snd fr0)" by blast
    moreover have "k + (length (snd fr0) + (total (map snd rest) + total (fr # frs))) = length P"
      using com rest by (simp add: complete_def total_def)
    ultimately have lt: "k + total (fr # frs) < length P" by linarith
    obtain s1 where s1: "sicslowpan_input now maxage cs (frame_in src dst (later_frame P tag fr) s) = Some (False, s1)"
      "collecting c tag src P k (fr # frs) s1" "free_bufs s \<le> Suc (free_bufs s1)"
      by (rule receive_later [OF Cons.prems(1) f assms(3) lt])
    have "length tfrs \<le> free_bufs s1" using Cons.prems(2) s1(3) by simp
    from Cons.IH [OF s1(2) this com False] obtain s' where
      "receive maxage cs src dst (later_frames P tag tfrs) s1 = Some (replicate (length tfrs - 1) False @ [True], s')"
      "bytes_at (uip_buf s') 0 P" "uip_len s' = of_nat (length P)" "fi_len (frag_info s' ! c) = 0" "frag_ok s'" by blast
    moreover have "receive maxage cs src dst (later_frames P tag (tfr # tfrs)) s =
        (do { (ds, s) \<leftarrow> receive maxage cs src dst (later_frames P tag tfrs) s1; Some (False # ds, s) })"
      by (simp add: later_frames_def tfr s1(1))
    moreover have "replicate (length (tfr # tfrs) - 1) False = False # replicate (length tfrs - 1) False" using False by (cases tfrs) simp_all
    ultimately show ?thesis by simp
  qed
qed simp

definition first_frame :: "sicslowpan_addr_context list \<Rightarrow> linkaddr \<Rightarrow> linkaddr \<Rightarrow> u8 list \<Rightarrow> u8 list \<Rightarrow> u16 \<Rightarrow> u8 list \<Rightarrow> u8 list" where
  "first_frame cs src dst h P tag payload = frag1_header (of_nat (length P)) tag @ iphc_bytes cs src dst h @ payload"

text \<open>A receiver that can take a packet with this tag from this sender: a free session and no other with the same tag.\<close>

definition ready :: "u16 \<Rightarrow> linkaddr \<Rightarrow> sics \<Rightarrow> bool" where
  "ready tag src s \<longleftrightarrow> frag_ok s \<and> arrays s \<and> (\<exists>i < 2. fi_len (frag_info s ! i) = 0) \<and> (\<forall>j < 2. \<not> same_session tag src (frag_info s ! j))"

lemma receive_fragments:
  assumes "ready tag src s" and "length src = 8" and "length dst = 8" and "sound_header cs h P" and "length P \<le> 350"
    and "k = hdr_size h + length payload" and "k \<le> 148" and "take k P = take (hdr_size h) P @ payload"
    and "complete P k (map snd tfrs)" and "length tfrs \<le> free_bufs s"
  shows "\<exists>s'. receive maxage cs src dst ((now, first_frame cs src dst h P tag payload) # later_frames P tag tfrs) s =
      Some (replicate (length tfrs) False @ [True], s') \<and>
    bytes_at (uip_buf s') 0 P \<and> uip_len s' = of_nat (length P) \<and> frag_ok s'"
proof -
  obtain i where i: "frag_ok s" "arrays s" "i < 2" "fi_len (frag_info s ! i) = 0" "\<forall>j < 2. \<not> same_session tag src (frag_info s ! j)"
    using assms(1) unfolding ready_def by blast
  obtain c s1 where s1: "sicslowpan_input now maxage cs
      (frame_in src dst (frag1_header (of_nat (length P)) tag @ iphc_bytes cs src dst h @ payload) s) = Some (False, s1)"
    "collecting c tag src P k [] s1" "free_bufs s \<le> free_bufs s1"
    by (rule receive_first [OF i assms(2-8)])
  have ne: "tfrs \<noteq> []" using assms(9) by (auto simp: complete_def total_def)
  have l: "length tfrs \<le> free_bufs s1" using assms(10) s1(3) by simp
  have com: "complete P k (map snd tfrs @ [])" using assms(9) by simp
  obtain s' where s': "receive maxage cs src dst (later_frames P tag tfrs) s1 = Some (replicate (length tfrs - 1) False @ [True], s')"
    "bytes_at (uip_buf s') 0 P" "uip_len s' = of_nat (length P)" "frag_ok s'"
    using receive_rest [OF s1(2) l assms(5) com assms(7) ne] by blast
  have "replicate (length tfrs) False = False # replicate (length tfrs - 1) False" using ne by (cases tfrs) simp_all
  then show ?thesis using s1(1) s' by (simp add: first_frame_def)
qed

end
