(* ===== verification/Sicslowpan_Total.thy ===== *)
theory Sicslowpan_Total
  imports Sicslowpan_Reassembly
begin

section \<open>What input keeps, and the frames it always takes\<close>

text \<open>
  \<open>input\<close> keeps the sessions and buffers well formed. A later fragment that fits a fragment buffer is always taken or dropped
  without leaving a buffer, provided that the fragments that are already there lie within the packet buffer of IPv6.
\<close>

text \<open>The arrays have their sizes, and what is stored lies within them and, at its offset, within the packet buffer.\<close>

definition within :: "sics \<Rightarrow> bool" where
  "within s \<longleftrightarrow> length (frag_info s) = SICSLOWPAN_REASS_CONTEXTS \<and> length (frag_buf s) = SICSLOWPAN_FRAGMENT_BUFFERS \<and> arrays s \<and>
     (\<forall>f \<in> set (frag_info s). unat (fi_first_frag_len f) \<le> SICSLOWPAN_FIRST_FRAGMENT_SIZE) \<and>
     (\<forall>b \<in> set (frag_buf s). fb_len b > 0 \<longrightarrow>
       unat (fb_len b) \<le> SICSLOWPAN_FRAGMENT_SIZE \<and> 8 * unat (fb_offset b) + unat (fb_len b) \<le> UIP_BUFSIZE)"

lemmas sics_sizes = SICSLOWPAN_REASS_CONTEXTS_def SICSLOWPAN_FRAGMENT_BUFFERS_def SICSLOWPAN_FIRST_FRAGMENT_SIZE_def
  SICSLOWPAN_FRAGMENT_SIZE_def UIP_BUFSIZE_def

lemma withinD:
  assumes "within s"
  shows "length (frag_info s) = 2" "length (frag_buf s) = 4" "arrays s" "accessible (uip_buf s) 0 350"
    and "b \<in> set (frag_buf s) \<Longrightarrow> accessible (fb_data b) 0 110"
    and "b \<in> set (frag_buf s) \<Longrightarrow> fb_len b > 0 \<Longrightarrow> unat (fb_len b) \<le> 110 \<and> 8 * unat (fb_offset b) + unat (fb_len b) \<le> 350"
    and "i < 2 \<Longrightarrow> unat (fi_first_frag_len (frag_info s ! i)) \<le> 148 \<and> accessible (fi_first_frag (frag_info s ! i)) 0 148"
  using assms nth_mem [of i "frag_info s"] by (auto simp: within_def arrays_def sics_sizes)

lemma within_cong: "frag_info s' = frag_info s \<Longrightarrow> frag_buf s' = frag_buf s \<Longrightarrow> uip_buf s' = uip_buf s \<Longrightarrow> within s' = within s"
  by (simp add: within_def arrays_def)

lemma within_info:
  assumes "within s" and "i < 2" and "fi_first_frag f = fi_first_frag (frag_info s ! i)" and "fi_sender f = fi_sender (frag_info s ! i)"
    and "fi_first_frag_len f = fi_first_frag_len (frag_info s ! i)"
  shows "within (s\<lparr>frag_info := (frag_info s)[i := f]\<rparr>)"
proof -
  have m: "frag_info s ! i \<in> set (frag_info s)" using withinD(1) [OF assms(1)] assms(2) by simp
  have P: "\<forall>f \<in> set ((frag_info s)[i := f]). P f" if "\<forall>f \<in> set (frag_info s). P f" "P f" for P
    using that set_update_subset_insert [of "frag_info s" i f] by blast
  have "arrays (s\<lparr>frag_info := (frag_info s)[i := f]\<rparr>)" unfolding arrays_def
    using withinD(3) [OF assms(1), unfolded arrays_def] m assms(3,4)
      P [of "\<lambda>f. accessible (fi_first_frag f) 0 SICSLOWPAN_FIRST_FRAGMENT_SIZE \<and> length (fi_sender f) = LINKADDR_SIZE"]
    by simp
  moreover have "\<forall>f \<in> set ((frag_info s)[i := f]). unat (fi_first_frag_len f) \<le> SICSLOWPAN_FIRST_FRAGMENT_SIZE"
    using assms(1) [unfolded within_def] m assms(5) by (intro P) simp_all
  ultimately show ?thesis using assms(1) unfolding within_def by simp
qed

lemma within_freed:
  assumes "freed s s'" and "within s"
  shows "within s'"
proof -
  note l = freedD(1,2) [OF assms(1)]
  have "unat (fi_first_frag_len f) \<le> 148" if f: "f \<in> set (frag_info s')" for f
  proof -
    obtain i where i: "i < length (frag_info s')" "f = frag_info s' ! i" using f by (metis in_set_conv_nth)
    then show ?thesis using freedD(3) [OF assms(1), of i] withinD(7) [OF assms(2), of i] withinD(1) [OF assms(2)] l by (auto simp: info_freed_def)
  qed
  moreover have "unat (fb_len b) \<le> 110 \<and> 8 * unat (fb_offset b) + unat (fb_len b) \<le> 350" if b: "b \<in> set (frag_buf s')" "fb_len b > 0" for b
  proof -
    obtain j where j: "j < length (frag_buf s')" "b = frag_buf s' ! j" using b by (metis in_set_conv_nth)
    then have "frag_buf s ! j \<in> set (frag_buf s)" using l by simp
    then show ?thesis using freedD(4) [OF assms(1), of j] withinD(6) [OF assms(2), of "frag_buf s ! j"] j b(2) l by (auto simp: buf_freed_def)
  qed
  ultimately show ?thesis using freed_arrays [OF assms(1)] assms(2) l by (auto simp: within_def sics_sizes)
qed

lemma freed_timeout: "freed s (snd (timeout_fragments now j s))"
proof -
  have "freed s (snd r) \<Longrightarrow> freed s (snd (timeout_step now j i r))" for i r
    by (auto simp: timeout_step_def split_beta Let_def intro: freed_clear freed_trans)
  then have "freed s (snd r) \<Longrightarrow> freed s (snd (fold (timeout_step now j) is r))" for "is" r
    by (induction "is" arbitrary: r) simp_all
  from this [of "(0, s)"] show ?thesis by (simp add: timeout_fragments_def freed_refl)
qed

text \<open>The payload of a fragment in the frame; a buffer takes it, or none is free.\<close>

definition has_payload :: "u8 list \<Rightarrow> sics \<Rightarrow> bool" where
  "has_payload bs s \<longleftrightarrow> bytes_at (packetbuf s) (packetbuf_ptr s + unat (packetbuf_hdr_len s)) bs \<and>
     pb_datalen s = unat (packetbuf_hdr_len s) + length bs \<and> uncomp_hdr_len s = 0"

lemma has_payload_freed: "freed s s' \<Longrightarrow> has_payload bs s \<Longrightarrow> has_payload bs s'"
  using freed_fields [of s s'] by (simp add: has_payload_def)

lemma store_loop_full: "\<forall>j \<in> set js. fb_len (frag_buf s ! j) \<noteq> 0 \<Longrightarrow> store_loop js c offset s = Some (-1, s)"
  by (induction js) simp_all

lemma store_fragment_returns:
  assumes "within s" and "has_payload bs s" and "length bs \<le> 110" and "c < 2"
  shows "\<exists>n s'. store_fragment c offset s = Some (n, s') \<and> has_payload bs s' \<and> (8 * unat offset + length bs \<le> 350 \<longrightarrow> within s') \<and>
    (n < 0 \<longrightarrow> s' = s)"
proof (cases "\<exists>j \<in> set [0..<SICSLOWPAN_FRAGMENT_BUFFERS]. fb_len (frag_buf s ! j) = 0")
  case False
  then have "store_fragment c offset s = Some (-1, s)" unfolding store_fragment_def by (intro store_loop_full) blast
  then show ?thesis using assms by blast
next
  case True
  have a: "accessible (fb_data (frag_buf s ! j)) 0 (length bs)" if "j \<in> set [0..<SICSLOWPAN_FRAGMENT_BUFFERS]" for j
  proof -
    have "frag_buf s ! j \<in> set (frag_buf s)" using that withinD(2) [OF assms(1)] by (simp add: SICSLOWPAN_FRAGMENT_BUFFERS_def)
    then show ?thesis using assms(3) by (intro accessible_mono [OF withinD(5) [OF assms(1)]]) simp_all
  qed
  note p = assms(2) [unfolded has_payload_def]
  obtain j where j: "j < 4" "fb_len (frag_buf s ! j) = 0"
    "store_fragment c offset s = Some (int (length bs), s\<lparr>frag_buf := (frag_buf s)[j := stored c offset bs (frag_buf s ! j)]\<rparr>)"
    using store_loop_stores [OF True a, of c offset] p assms(3) unfolding store_fragment_def by (auto simp: SICSLOWPAN_FRAGMENT_BUFFERS_def)
  let ?b = "stored c offset bs (frag_buf s ! j)" and ?s = "s\<lparr>frag_buf := (frag_buf s)[j := stored c offset bs (frag_buf s ! j)]\<rparr>"
  have jb: "j < length (frag_buf s)" using withinD(2) [OF assms(1)] j(1) by simp
  have sub: "b \<in> set (frag_buf ?s) \<Longrightarrow> b = ?b \<or> b \<in> set (frag_buf s)" for b
    using set_update_subset_insert [of "frag_buf s" j ?b] by auto
  have len: "unat (of_nat (length bs) :: u8) = length bs" using assms(3) by (simp add: unat_of_nat)
  have "accessible (fb_data ?b) 0 110"
    using a [of j] j(1) withinD(5) [OF assms(1) nth_mem [OF jb]] by (simp add: stored_def SICSLOWPAN_FRAGMENT_BUFFERS_def)
  then have arr: "arrays ?s" using withinD(3) [OF assms(1)] sub by (auto simp: arrays_def SICSLOWPAN_FRAGMENT_SIZE_def)
  have "within ?s" if o: "8 * unat offset + length bs \<le> 350"
  proof -
    have "unat (fb_len b) \<le> 110 \<and> 8 * unat (fb_offset b) + unat (fb_len b) \<le> 350" if "b \<in> set (frag_buf ?s)" "fb_len b > 0" for b
      using sub [OF that(1)] withinD(6) [OF assms(1) _ that(2)] o assms(3) len by (auto simp: stored_def)
    then show ?thesis using assms(1) arr by (auto simp: within_def sics_sizes)
  qed
  moreover have "has_payload bs ?s" using p by (simp add: has_payload_def)
  ultimately show ?thesis using j(3) by (intro exI [of _ "int (length bs)"] exI [of _ ?s]) simp
qed

lemma add_fragment_returns:
  assumes "within s" and "has_payload bs s" and "length bs \<le> 110" and "offset \<noteq> 0"
  shows "\<exists>c s'. add_fragment now maxage tag n offset s = Some (c, s') \<and> has_payload bs s' \<and> (8 * unat offset + length bs \<le> 350 \<longrightarrow> within s') \<and>
    (\<forall>i. c = Some i \<longrightarrow> i < 2)"
proof (cases "find (\<lambda>i. same_session tag (pb_sender s) (frag_info s ! i)) [0..<SICSLOWPAN_REASS_CONTEXTS]")
  case None
  then show ?thesis using assms by (simp add: add_fragment_def)
next
  case (Some i)
  then have i: "i < 2" unfolding find_Some_iff by (auto simp: SICSLOWPAN_REASS_CONTEXTS_def)
  obtain k s1 where s1: "store_fragment i offset s = Some (k, s1)" "has_payload bs s1" "8 * unat offset + length bs \<le> 350 \<longrightarrow> within s1" "k < 0 \<longrightarrow> s1 = s"
    using store_fragment_returns [OF assms(1-3) i] by blast
  let ?again = "if k < 0 then (let (n, s) = timeout_fragments now i s1 in if n > 0 then store_fragment i offset s else Some (k, s)) else Some (k, s1)"
  obtain k2 s2 where s2: "?again = Some (k2, s2)" "has_payload bs s2" "8 * unat offset + length bs \<le> 350 \<longrightarrow> within s2"
  proof (cases "k < 0")
    case True
    then have e: "s1 = s" using s1(4) by simp
    obtain m t where t: "timeout_fragments now i s = (m, t)" by (cases "timeout_fragments now i s")
    have f: "freed s t" using freed_timeout [of s now i] unfolding t by simp
    note w = within_freed [OF f assms(1)] has_payload_freed [OF f assms(2)]
    show ?thesis
    proof (cases "m > 0")
      case True
      obtain k2 s2 where "store_fragment i offset t = Some (k2, s2)" "has_payload bs s2" "8 * unat offset + length bs \<le> 350 \<longrightarrow> within s2"
        using store_fragment_returns [OF w assms(3) i] by blast
      then show ?thesis using that [of k2 s2] \<open>k < 0\<close> True t e by simp
    next
      case False
      then show ?thesis using that [of k t] \<open>k < 0\<close> t e w by simp
    qed
  next
    case False
    then show ?thesis using that [of k s1] s1 by simp
  qed
  let ?f = "(frag_info s2 ! i)\<lparr>fi_reassembled_len := fi_reassembled_len (frag_info s2 ! i) + word_of_int k2\<rparr>"
  have upd: "within s2 \<Longrightarrow> within (s2\<lparr>frag_info := (frag_info s2)[i := ?f]\<rparr>)" by (rule within_info [OF _ i]) simp_all
  have "add_fragment now maxage tag n offset s = (if k2 > 0 then Some (Some i, s2\<lparr>frag_info := (frag_info s2)[i := ?f]\<rparr>) else Some (None, s2))"
    using assms(4) Some s1(1) s2(1) by (simp add: add_fragment_def Let_def)
  moreover have "has_payload bs (s2\<lparr>frag_info := (frag_info s2)[i := ?f]\<rparr>)" using s2(2) by (simp add: has_payload_def)
  ultimately show ?thesis using s2(2,3) upd i by (cases "k2 > 0") auto
qed

lemma memcpy_returns:
  assumes "accessible dst p n" and "accessible src q n"
  shows "\<exists>m. memcpy dst p src q (int n) = Some m \<and> (\<forall>r k. accessible m r k = accessible dst r k)"
proof -
  obtain vs where vs: "bytes_at src q vs" "length vs = n" using accessible_load [OF assms(2)] by (auto simp: load_list_bytes)
  then have "accessible dst p (length vs)" using assms(1) by simp
  from memcpy_put [OF this vs(1), of "int n"] accessible_put [OF this] vs(2) show ?thesis by simp
qed

text \<open>Fragments within the packet buffer can be put together.\<close>

lemma copy_loop_returns:
  assumes "\<forall>b \<in> set bs. accessible (fb_data b) 0 110 \<and> (fb_len b > 0 \<longrightarrow> unat (fb_len b) \<le> 110 \<and> 8 * unat (fb_offset b) + unat (fb_len b) \<le> 350)"
    and "accessible uip 0 350"
  shows "\<exists>m. copy_loop c bs uip = Some m"
  using assms
proof (induction bs arbitrary: uip)
  case (Cons b bs)

  show ?case
  proof (cases "fb_len b > 0 \<and> unat (fb_index b) = c")
    case True
    then have b: "accessible (fb_data b) 0 110" "unat (fb_len b) \<le> 110" "8 * unat (fb_offset b) + unat (fb_len b) \<le> 350"
      using Cons.prems(1) by simp_all
    have "accessible uip (8 * unat (fb_offset b)) (unat (fb_len b))" by (rule accessible_mono [OF Cons.prems(2)]) (use b in simp_all)
    moreover have "accessible (fb_data b) 0 (unat (fb_len b))" by (rule accessible_mono [OF b(1)]) (use b in simp_all)
    ultimately obtain m where m: "memcpy uip (8 * unat (fb_offset b)) (fb_data b) 0 (int (unat (fb_len b))) = Some m" "accessible m 0 350"
      using memcpy_returns Cons.prems(2) by metis
    then obtain m' where "copy_loop c bs m = Some m'" using Cons.IH [OF _ m(2)] Cons.prems(1) by auto
    then show ?thesis using True m(1) by (simp only: copy_loop.simps shift_3 if_True Option.bind.bind_lunit) simp
  next
    case False
    then have "copy_loop c (b # bs) uip = copy_loop c bs uip" by auto
    then show ?thesis using Cons.IH [OF _ Cons.prems(2)] Cons.prems(1) by simp
  qed
qed simp

lemma copy_frags2uip_returns:
  assumes "within s" and "c < 2"
  shows "\<exists>s'. copy_frags2uip c s = Some s'"
proof -
  note f = withinD(7) [OF assms]
  have "accessible (uip_buf s) 0 (unat (fi_first_frag_len (frag_info s ! c)))" "accessible (fi_first_frag (frag_info s ! c)) 0 (unat (fi_first_frag_len (frag_info s ! c)))"
    using f by (auto intro: accessible_mono [OF withinD(4) [OF assms(1)]] accessible_mono [of _ 0 148])
  then obtain m where m: "memcpy (uip_buf s) 0 (fi_first_frag (frag_info s ! c)) 0 (int (unat (fi_first_frag_len (frag_info s ! c)))) = Some m" "accessible m 0 350"
    using memcpy_returns withinD(4) [OF assms(1)] by metis
  obtain m' where "copy_loop c (frag_buf s) m = Some m'"
    using copy_loop_returns [OF _ m(2), of "frag_buf s" c] withinD(5,6) [OF assms(1)] by blast
  then show ?thesis using m(1) by (simp add: copy_frags2uip_def)
qed

lemma input_payload_returns:
  assumes "has_payload bs s" and "8 * unat offset + length bs \<le> 350 \<Longrightarrow> within s" and "c < 2"
  shows "\<exists>d s'. input_payload (no_fragment\<lparr>lo_frag_size := n, lo_frag_offset := offset, lo_is_fragment := True, lo_context := c,
    lo_last := last_one, lo_buffer := Buf_NULL\<rparr>) s = Some (d, s')"
proof -
  let ?l = "no_fragment\<lparr>lo_frag_size := n, lo_frag_offset := offset, lo_is_fragment := True, lo_context := c, lo_last := last_one, lo_buffer := Buf_NULL\<rparr>"
  let ?s = "s\<lparr>packetbuf_payload_len := int (length bs)\<rparr>"
  let ?f = "(frag_info ?s ! c)\<lparr>fi_reassembled_len := n\<rparr>"
  note p = assms(1) [unfolded has_payload_def]
  have len: "\<not> pb_datalen s < unat (packetbuf_hdr_len s)" "int (pb_datalen s) - int (unat (packetbuf_hdr_len s)) = int (length bs)"
    "int (unat (uncomp_hdr_len s)) = 0" using p by simp_all
  show ?thesis
  proof (cases "8 * unat offset + length bs \<le> 350")
    case False
    then have "int (unat (push_bit 3 (ucast offset) :: u16)) + int (length bs) > int UIP_BUFSIZE" unfolding shift_3 UIP_BUFSIZE_def by linarith
    then show ?thesis using len by (simp add: input_payload_def Let_def no_fragment_def) blast
  next
    case True
    then have "\<not> int (unat (push_bit 3 (ucast offset) :: u16)) + int (length bs) > int UIP_BUFSIZE" unfolding shift_3 UIP_BUFSIZE_def by linarith
    moreover have "within ?s" using assms(2) [OF True] by (subst within_cong [of _ s]) simp_all
    then have "within (?s\<lparr>frag_info := (frag_info ?s)[c := ?f]\<rparr>)" by (rule within_info [OF _ assms(3)]) simp_all
    then obtain s' where "copy_frags2uip c (?s\<lparr>frag_info := (frag_info ?s)[c := ?f]\<rparr>) = Some s'"
      using copy_frags2uip_returns [OF _ assms(3)] by blast
    ultimately show ?thesis using len by (auto simp: input_payload_def Let_def no_fragment_def)
  qed
qed

lemma sicslowpan_input_returns:
  assumes "within s" and "n < 2048" and "offset \<noteq> 0" and "length payload \<le> 110"
  shows "\<exists>d s'. sicslowpan_input now maxage cs (frame_in src dst (fragn_header n tag offset @ payload) s) = Some (d, s')"
proof -
  let ?s0 = "started src dst (fragn_header n tag offset @ payload) s"
  let ?s1 = "?s0\<lparr>packetbuf_hdr_len := packetbuf_hdr_len ?s0 + 5\<rparr>"
  have l5: "length (fragn_header n tag offset) = 5" by (simp add: fragn_header_def)
  have b: "bytes_at (packetbuf ?s0) (packetbuf_ptr ?s0) (fragn_header n tag offset)"
    using bytes_at_array [of "fragn_header n tag offset @ payload"] by (simp add: bytes_at_append)
  have w: "within ?s1" using assms(1) by (subst within_cong [of _ s]) simp_all
  have p: "has_payload payload ?s1" using bytes_at_array_append [of "fragn_header n tag offset" payload] l5 by (simp add: has_payload_def)
  obtain c s2 where add: "add_fragment now maxage tag n offset ?s1 = Some (c, s2)" "has_payload payload s2"
    "8 * unat offset + length payload \<le> 350 \<longrightarrow> within s2" "\<And>i. c = Some i \<Longrightarrow> i < 2"
    using add_fragment_returns [OF w p assms(4,3), of now maxage tag n] by blast
  show ?thesis
  proof (cases c)
    case None
    then show ?thesis unfolding sicslowpan_input_started input_fragment_n [OF b assms(2)] add(1) by simp blast
  next
    case (Some i)
    have i: "i < 2" by (rule add(4) [OF Some])
    show ?thesis unfolding sicslowpan_input_started input_fragment_n [OF b assms(2)] add(1)
      using input_payload_returns [OF add(2) _ i, where n = n and offset = offset and last_one = "n \<le> fi_reassembled_len (frag_info s2 ! i)"] add(3) Some
      by (simp add: no_fragment_def)
  qed
qed

subsection \<open>The property\<close>

lemma frag_ok_frame: "frag_ok (frame_in src dst bs s) = frag_ok s"
  by (simp add: frag_ok_def frame_in_def)

text \<open>
  C11: \<open>input\<close> keeps the table of sessions and the fragment buffers well formed as long as no access leaves a buffer: their numbers are
  the configured ones and every buffer in use belongs to an open session, so that no buffer is leaked when a session ends or expires. Where an
  access does leave a buffer (\<open>input\<close> is then \<open>None\<close>), the code goes on with what it overwrote and nothing is claimed; later fragments of
  more than 110 bytes of an open session are such frames (\<open>sicslowpan_fragment_overflow\<close>). A later fragment of at most 110 bytes, with any size, tag and offset, from any sender, always returns,
  provided that the stored fragments lie within their arrays and the packet buffer (\<open>within\<close>).
\<close>

theorem sicslowpan_input_keeps_sessions:
  assumes "frag_ok s"
  shows "(\<forall>d s'. sicslowpan_input now maxage cs s = Some (d, s') \<longrightarrow> frag_ok s') \<and>
    (within s \<and> n < 2048 \<and> offset \<noteq> 0 \<and> length payload \<le> SICSLOWPAN_FRAGMENT_SIZE \<longrightarrow>
      (\<exists>d s'. sicslowpan_input now maxage cs (frame_in src dst (fragn_header n tag offset @ payload) s) = Some (d, s') \<and> frag_ok s'))"
proof (intro conjI allI impI)
  show "frag_ok s'" if "sicslowpan_input now maxage cs s = Some (d, s')" for d s'
    using that assms by (rule sicslowpan_input_ok)
  assume "within s \<and> n < 2048 \<and> offset \<noteq> 0 \<and> length payload \<le> SICSLOWPAN_FRAGMENT_SIZE"
  then obtain d s' where "sicslowpan_input now maxage cs (frame_in src dst (fragn_header n tag offset @ payload) s) = Some (d, s')"
    using sicslowpan_input_returns by (metis SICSLOWPAN_FRAGMENT_SIZE_def)
  then show "\<exists>d s'. sicslowpan_input now maxage cs (frame_in src dst (fragn_header n tag offset @ payload) s) = Some (d, s') \<and> frag_ok s'"
    using sicslowpan_input_ok assms frag_ok_frame by blast
qed

text \<open>A first fragment with an unknown header opens a session, and a later fragment of 110 bytes is taken in it.\<close>

lemma accessible_array: "p + n \<le> length bs \<Longrightarrow> accessible (array bs) p n"
  by (simp add: accessible_def array_def)

lemma in_session_within: "frag_ok in_session" "within in_session"
  by (auto simp: frag_ok_def within_def arrays_def in_session_def receiver_def blank_buf_def blank_info_def sics_sizes LINKADDR_SIZE_def
      linkaddr_null_def intro!: accessible_array)

theorem sicslowpan_input_keeps_sessions_witness:
  "frag_ok opened \<and> fi_len (frag_info opened ! 0) = 0x123 \<and>
    (\<exists>d s'. sicslowpan_input 1 10 [] (frame_in linkaddr_null linkaddr_null (fragn_header 0x123 7 16 @ replicate 110 5) in_session) = Some (d, s') \<and>
      frag_ok s')"
proof -
  have "frag_ok opened" using conjunct1 [OF sicslowpan_input_keeps_sessions [OF frag_ok_receiver]] opened_result(1) by blast
  moreover have "\<exists>d s'. sicslowpan_input 1 10 [] (frame_in linkaddr_null linkaddr_null (fragn_header 0x123 7 16 @ replicate 110 5) in_session) =
      Some (d, s') \<and> frag_ok s'"
    using conjunct2 [OF sicslowpan_input_keeps_sessions [OF in_session_within(1)]] in_session_within(2)
    by (simp add: SICSLOWPAN_FRAGMENT_SIZE_def)
  ultimately show ?thesis using opened_result(2) by simp
qed

end
