(* ===== verification/Sicslowpan_Transport.thy ===== *)
theory Sicslowpan_Transport
  imports Sicslowpan_Reassembly "HOL-Library.Multiset"
begin

section \<open>From sender to receiver\<close>

text \<open>
  What \<open>output\<close> sends: one frame with the compressed header and the payload, or a first fragment and later ones whose
  bytes make up the packet. With the theory of reassembly, the receiver has the packet again.
\<close>

subsection \<open>A packet in one frame\<close>

lemma not_a_fragment:
  assumes "b AND 0xe0 = (0x60 :: u8)"
  shows "drop_bit 8 ((push_bit 8 (ucast b) OR ucast (b' :: u8) :: u16) AND 0xf800) \<noteq> 0xc0"
    and "drop_bit 8 ((push_bit 8 (ucast b) OR ucast (b' :: u8) :: u16) AND 0xf800) \<noteq> 0xe0"
proof -
  let ?w = "drop_bit 8 ((push_bit 8 (ucast b) OR ucast b' :: u16) AND 0xf800)"
  have f: "bit (0x60 :: u8) 7 \<longleftrightarrow> False" by simp
  have "bit (b AND 0xe0) 7 \<longleftrightarrow> False" unfolding assms by simp
  then have b: "\<not> bit b 7" by (simp add: bit_and_iff)
  have "bit (0xf800 :: u16) 15" "\<not> bit (ucast b' :: u16) 15" by (simp_all add: bit_ucast_iff u8_no_bit)
  then have w: "\<not> bit ?w 7" using b by (simp add: bit_drop_bit_eq bit_and_iff bit_or_iff bit_push_bit_iff bit_ucast_iff)
  have "bit (0xc0 :: u16) 7" "bit (0xe0 :: u16) 7" by simp_all
  then show "?w \<noteq> 0xc0" "?w \<noteq> 0xe0" using w by auto
qed

lemma input_no_fragment:
  assumes "bytes_at (packetbuf s) (packetbuf_ptr s) (b # b' # bs)" and "b AND 0xe0 = 0x60"
  shows "input_fragment now maxage s = Some (Some no_fragment, s)"
proof -
  have m: "packetbuf s (packetbuf_ptr s + 0) = Some b" "packetbuf s (packetbuf_ptr s + 0 + 1) = Some b'"
    using assms(1) by (simp_all add: bytes_at_Cons)
  note g = get16 [OF m]
  show ?thesis
    unfolding input_fragment_def Let_def g Option.bind.bind_lunit no_fragment_def
    using not_a_fragment [OF assms(2), of b'] by (simp add: SICSLOWPAN_DISPATCH_FRAG1_def SICSLOWPAN_DISPATCH_FRAGN_def)
qed

lemma iphc_bytes_two: "\<exists>b b' bs. iphc_bytes cs sl dl h = b # b' # bs \<and> b AND 0xe0 = 0x60"
  using iphc_bytes_head [of cs sl dl h] by (auto simp: iphc_bytes_def)

lemma receive_whole:
  assumes "frag_ok s" and "arrays s" and "length src = 8" and "length dst = 8" and "sound_header cs h P" and "length P \<le> 350"
    and "P = take (hdr_size h) P @ payload"
  shows "\<exists>s'. sicslowpan_input now maxage cs (frame_in src dst (iphc_bytes cs src dst h @ payload) s) = Some (True, s') \<and>
    bytes_at (uip_buf s') 0 P \<and> uip_len s' = of_nat (length P) \<and> frag_ok s'"
proof -
  let ?z = "iphc_bytes cs src dst h" and ?u = "hdr_size h"
  let ?L = "length ?z" and ?s0 = "started src dst (iphc_bytes cs src dst h @ payload) s"
  note h = assms(5) [unfolded sound_header_def]
  have L: "?L \<le> 48" by (rule iphc_bytes_length)
  have uL: "unat (of_nat ?L :: u8) = ?L" using L by (simp add: unat_of_nat)
  have len: "length P = ?u + length payload"
    using arg_cong [OF assms(7), of length] h by (simp add: hdr_size_def)
  have acc: "accessible (uip_buf s) 0 350" using arraysD(4) assms(1,2) by blast
  have acc48: "accessible (uip_buf s) 0 48" by (rule accessible_mono [OF acc]) simp_all
  have b: "bytes_at (packetbuf ?s0) (packetbuf_ptr ?s0) (?z @ payload)" by (simp add: bytes_at_array)
  have nf: "input_fragment now maxage ?s0 = Some (Some no_fragment, ?s0)"
    using iphc_bytes_two [of cs src dst h] b input_no_fragment [of ?s0] by auto
  let ?m = "put_headers h (int (length P) - 40) (uip_buf s)"
  let ?s1 = "(uncompressed h ?L ?s0)\<lparr>uip_buf := ?m\<rparr>"
  have iplen: "ip_payload_len (uncompressed h ?L ?s0) (pb_datalen ?s0) 0 = int (length P) - 40"
    using len L uL by (simp add: ip_payload_len_def uncompressed_def hdr_size_def)
  have bz: "bytes_at (array (?z @ payload)) 0 ?z" using bytes_at_array [of "?z @ payload"] by (simp add: bytes_at_append)
  have "input_header cs no_fragment ?s0 = Some (True, ?s1)"
    using input_header_iphc [of h cs ?s0 ?L no_fragment] h assms(3,4) bz acc48 iplen
    by (simp add: no_fragment_def read_buffer_def write_buffer_def uncompressed_def)
  then have step: "sicslowpan_input now maxage cs (frame_in src dst (?z @ payload) s) = input_payload no_fragment ?s1"
    unfolding sicslowpan_input_started nf by (simp add: no_fragment_def)
  have f: "unat (packetbuf_hdr_len ?s1) = ?L" "unat (uncomp_hdr_len ?s1) = ?u" "pb_datalen ?s1 = ?L + length payload" "packetbuf_ptr ?s1 = 0"
    "packetbuf ?s1 = array (?z @ payload)"
    using uL by (simp_all add: uncompressed_def hdr_size_def)
  have accm: "accessible ?m 0 350" by (rule put_headers_array) (use h acc in simp_all)
  have au: "accessible ?m ?u (length payload)" by (rule accessible_mono [OF accm]) (use assms(6) len in simp_all)
  have cp: "memcpy ?m ?u (array (?z @ payload)) ?L (int (length payload)) = Some (put ?m ?u payload)"
    by (rule memcpy_put [OF au bytes_at_array_append refl])
  have req: "\<not> 350 < int ?u + int (length payload)" using assms(6) len by linarith
  let ?s2 = "?s1\<lparr>packetbuf_payload_len := int (length payload), uip_buf := put ?m ?u payload, uip_len := of_nat (length P)\<rparr>"
  have uw: "ucast (uncomp_hdr_len (uncompressed h ?L ?s0)) = (of_nat ?u :: u16)" by (simp add: uncompressed_def hdr_size_def)
  have "input_payload no_fragment ?s1 = Some (True, ?s2)"
    unfolding input_payload_def no_fragment_def Let_def f using cp req len f uw
    by (simp add: UIP_BUFSIZE_def read_buffer_def write_buffer_def)
  then have s2: "sicslowpan_input now maxage cs (frame_in src dst (?z @ payload) s) = Some (True, ?s2)" using step by simp
  have u: "length (take ?u P) = ?u" using len by simp
  have "bytes_at (put ?m ?u payload) 0 (take ?u P @ payload)"
    unfolding bytes_at_append u using put_headers_sound [OF assms(5), of "uip_buf s"] u by (simp add: bytes_at_put bytes_at_put_outside)
  then have "bytes_at (uip_buf ?s2) 0 P" using assms(7) by simp
  moreover have "frag_ok ?s2" by (rule sicslowpan_input_ok [OF s2]) (use assms(1) in \<open>simp add: frame_in_def frag_ok_def\<close>)
  ultimately show ?thesis using s2 by auto
qed

subsection \<open>Sending\<close>

text \<open>Every transmission succeeds, or its status is not reported before the driver returns.\<close>

definition lossless :: "out_env \<Rightarrow> bool" where
  "lossless env \<longleftrightarrow> (\<forall>fs. oe_queuebuf env fs \<and> oe_status env fs \<in> {None, Some MAC_TX_OK})"

definition max_payload_of :: "int \<Rightarrow> int" where
  "max_payload_of hl = MAC_MAX_PAYLOAD - (if hl < 0 then SICSLOWPAN_FIXED_HDRLEN else hl)"

lemma send_packet_frame:
  assumes "bytes_at (packetbuf s) (pb_dataptr s) frame" and "pb_datalen s = length frame"
  shows "\<exists>st. send_packet env dest s = Some (s\<lparr>pb_receiver := dest, frames_sent := frames_sent s @ [frame], last_tx_status := st\<rparr>) \<and>
    (lossless env \<and> last_tx_status s = MAC_TX_OK \<longrightarrow> st = MAC_TX_OK)"
proof -
  let ?s = "s\<lparr>pb_receiver := dest, frames_sent := frames_sent s @ [frame]\<rparr>"
  have l: "load_list (packetbuf s) (pb_dataptr s) (pb_datalen s) = Some frame" using load_bytes [OF assms(1)] assms(2) by simp
  have e: "?s = ?s\<lparr>last_tx_status := last_tx_status s\<rparr>" by (cases s) simp
  show ?thesis
  proof (cases "oe_status env (frames_sent s @ [frame])")
    case None
    then have "send_packet env dest s = Some ?s" using l by (simp add: send_packet_def)
    then show ?thesis using e by (intro exI [of _ "last_tx_status s"]) simp
  next
    case (Some st)
    then have "lossless env \<longrightarrow> st = MAC_TX_OK" unfolding lossless_def by (metis insert_iff option.distinct(1) option.inject singletonD)
    then show ?thesis using Some l by (intro exI [of _ st]) (simp add: send_packet_def)
  qed
qed

lemma send_fragment_frame:
  assumes "lossless env" and "last_tx_status s = MAC_TX_OK" and "bytes_at (packetbuf s) (pb_dataptr s) frame" and "pb_datalen s = length frame"
  shows "send_fragment env dest s = Some (True, s\<lparr>pb_receiver := dest, frames_sent := frames_sent s @ [frame], last_tx_status := MAC_TX_OK\<rparr>)"
  using send_packet_frame [OF assms(3,4), of env dest] assms(1,2) by (auto simp: send_fragment_def lossless_def)

lemma mult_8_bounds: "n - 7 \<le> mult_8 n" "mult_8 n \<le> n" "8 dvd mult_8 n"
proof -
  have m: "0 \<le> n mod 8" "n mod 8 < 8" by simp_all
  show "n - 7 \<le> mult_8 n" "mult_8 n \<le> n" using m unfolding mult_8_def by linarith+
  show "8 dvd mult_8 n" by (simp add: mult_8_def minus_mod_eq_mult_div)
qed

text \<open>The bytes behind the first \<open>q\<close> of a packet are sent as fragments.\<close>

definition rest_of :: "u8 list \<Rightarrow> nat \<Rightarrow> (u8 \<times> u8 list) list \<Rightarrow> bool" where
  "rest_of P q frs \<longleftrightarrow> (\<forall>fr \<in> set frs. fragment_of P fr) \<and> q + total frs = length P \<and>
     (\<forall>p. q \<le> p \<and> p < length P \<longrightarrow> (\<exists>fr \<in> set frs. covers fr p))"

definition sending :: "u8 list \<Rightarrow> u16 \<Rightarrow> sics \<Rightarrow> bool" where
  "sending P tag s \<longleftrightarrow> uip_len s = of_nat (length P) \<and> bytes_at (uip_buf s) 0 P \<and> accessible (packetbuf s) 0 128 \<and>
     bytes_at (packetbuf s) 0 [hi (0xe000 OR of_nat (length P)), lo (0xe000 OR of_nat (length P)), hi tag, lo tag] \<and>
     packetbuf_ptr s = 0 \<and> pb_dataptr s = 0 \<and> packetbuf_hdr_len s = 5 \<and> last_tx_status s = MAC_TX_OK"

lemma rest_of_step:
  assumes "rest_of P (q + n) frs" and "8 dvd q" and "0 < q" and "0 < n" and "n \<le> 110" and "q + n \<le> length P" and "length P \<le> 350"
  shows "rest_of P q ((of_nat (q div 8), take n (drop q P)) # frs)"
proof -
  have q: "8 * (q div 8) = q" "q div 8 < 256" "q div 8 \<noteq> 0" using assms(2,3,6,7) by auto
  have u: "unat (of_nat (q div 8) :: u8) = q div 8" using q(2) by (simp add: unat_of_nat)
  then have nz: "(of_nat (q div 8) :: u8) \<noteq> 0" using q(3) by (metis unat_0)
  have l: "length (take n (drop q P)) = n" using assms(6) by simp
  have f: "fragment_of P (of_nat (q div 8), take n (drop q P))"
    using nz u q(1) l assms(4-6) by (auto simp: fragment_of_def SICSLOWPAN_FRAGMENT_SIZE_def)
  have c: "covers (of_nat (q div 8), take n (drop q P)) p \<longleftrightarrow> q \<le> p \<and> p < q + n" for p
    using u q(1) l by (simp add: covers_def)
  have "\<exists>fr \<in> set ((of_nat (q div 8), take n (drop q P)) # frs). covers fr p" if p: "q \<le> p" "p < length P" for p
  proof (cases "p < q + n")
    case True
    then show ?thesis using c p(1) by auto
  next
    case False
    then show ?thesis using assms(1) p(2) by (auto simp: rest_of_def)
  qed
  then show ?thesis using assms(1) f l unfolding rest_of_def by (simp add: total_def)
qed

lemma offset_byte: "q \<le> 350 \<Longrightarrow> ucast (drop_bit 3 (of_nat q :: u16)) = (of_nat (q div 8) :: u8)"
proof -
  assume "q \<le> 350"
  then have "unat (of_nat q :: u16) = q" by (simp add: unat_of_nat)
  then have "unat (drop_bit 3 (of_nat q :: u16)) = q div 8" by (simp add: drop_bit_eq_div unat_div)
  then show ?thesis by (metis of_nat_unat)
qed

lemma fragn_loop_step:
  assumes "sending P tag s" and "lossless env" and "q < length P" and "length P \<le> 350" and "8 dvd q" and "0 < n" and "n \<le> 110"
    and "int n = (if int (length P - q) < packetbuf_payload_len s then int (length P - q) else packetbuf_payload_len s)" and "q + n \<le> length P"
  obtains s' where "fragn_loop env dest (of_nat q) s = fragn_loop env dest (of_nat (q + n)) s'" and "sending P tag s'"
    and "packetbuf_payload_len s' = int n" and "frames_sent s' = frames_sent s @ [later_frame P tag (of_nat (q div 8), take n (drop q P))]"
proof -
  note sd = assms(1) [unfolded sending_def]
  have uq: "unat (of_nat q :: u16) = q" "unat (of_nat (length P) :: u16) = length P" using assms(3,4) by (simp_all add: unat_of_nat)
  have lt: "(of_nat q :: u16) < uip_len s" using sd uq assms(3) by (simp add: word_less_nat_alt)
  let ?hd = "[hi (0xe000 OR of_nat (length P)), lo (0xe000 OR of_nat (length P)), hi tag, lo tag]"
  let ?o = "of_nat (q div 8) :: u8" and ?bs = "take n (drop q P)"
  let ?m1 = "put (packetbuf s) 4 [?o]" and ?m2 = "put (put (packetbuf s) 4 [?o]) 5 (take n (drop q P))"
  have lb: "length ?bs = n" using assms(9) by simp
  have a4: "accessible (packetbuf s) 4 (length [?o])" using accessible_mono [of "packetbuf s" 0 128 4 1] sd by simp
  have st: "store (packetbuf s) (packetbuf_ptr s + 4) (ucast (drop_bit 3 (of_nat q :: u16))) = Some ?m1"
    using store_list_put [OF a4] sd assms(3,4) offset_byte [of q] by (simp add: store_def)
  have acc1: "accessible ?m1 0 128" using a4 sd by simp
  have a5: "accessible ?m1 5 (length ?bs)" by (rule accessible_mono [OF acc1]) (use lb assms(7) in simp_all)
  have bu: "bytes_at (uip_buf s) q ?bs"
    using bytes_at_take [OF bytes_at_drop [of "uip_buf s" 0 P q], of n] sd assms(3) by simp
  have rest: "int (unat (uip_len s)) - int q = int (length P - q)" using sd uq(2) assms(3) by simp
  have cp: "memcpy ?m1 (packetbuf_ptr s + unat (packetbuf_hdr_len s)) (uip_buf s) (unat (of_nat q :: u16)) (int n) = Some ?m2"
    using memcpy_put [OF a5 bu, of "int n"] lb sd uq(1) by simp
  let ?s1 = "s\<lparr>packetbuf := ?m2, packetbuf_payload_len := int n, pb_datalen := nat (int n + int (unat (packetbuf_hdr_len s)))\<rparr>"
  have frame: "bytes_at ?m2 0 (later_frame P tag (?o, ?bs))"
  proof -
    have "later_frame P tag (?o, ?bs) = ?hd @ [?o] @ ?bs" by (simp add: later_frame_def fragn_header_def)
    moreover have "bytes_at ?m2 0 ?hd" using sd by (simp add: bytes_at_put_outside)
    moreover have "bytes_at ?m2 4 [?o]" using bytes_at_put [of "packetbuf s" 4 "[?o]"] by (simp add: bytes_at_put_outside)
    moreover have "bytes_at ?m2 5 ?bs" by (rule bytes_at_put)
    moreover have "0 + length ?hd = 4" "4 + length [?o] = 5" by simp_all
    ultimately show ?thesis by (metis bytes_at_append)
  qed
  have sf: "send_fragment env dest ?s1 = Some (True, ?s1\<lparr>pb_receiver := dest, frames_sent := frames_sent ?s1 @ [later_frame P tag (?o, ?bs)], last_tx_status := MAC_TX_OK\<rparr>)"
    by (rule send_fragment_frame [OF assms(2)]) (use sd frame lb in \<open>simp_all add: later_frame_def fragn_header_def\<close>)
  let ?s2 = "?s1\<lparr>pb_receiver := dest, frames_sent := frames_sent ?s1 @ [later_frame P tag (?o, ?bs)], last_tx_status := MAC_TX_OK\<rparr>"
  have h5: "nat (int n + 5) = n + 5" "packetbuf_hdr_len s = 5" using sd by simp_all
  have "fragn_loop env dest (of_nat q) s = fragn_loop env dest (of_nat q + word_of_int (int n)) ?s2"
    unfolding fragn_loop.simps [of env dest "of_nat q" s] Let_def st Option.bind.bind_lunit uq(1) rest assms(8) [symmetric] cp [unfolded uq(1)] sf prod.case
    using lt by simp
  moreover have "(of_nat q + word_of_int (int n) :: u16) = of_nat (q + n)" by simp
  moreover have "sending P tag ?s2"
    using sd acc1 a5 frame lb by (simp add: sending_def later_frame_def fragn_header_def bytes_at_Cons)
  ultimately show thesis using that [of ?s2] by simp
qed

lemma fragn_loop_frames:
  assumes "lossless env" and "length P \<le> 350" and "8 dvd Q" and "0 < Q" and "Q \<le> 110"
    and "sending P tag s" and "q \<le> length P" and "q = length P \<or> 8 dvd q \<and> 0 < q \<and> packetbuf_payload_len s = int Q"
  shows "\<exists>frs s'. fragn_loop env dest (of_nat q) s = Some (1, s') \<and> frames_sent s' = frames_sent s @ map (later_frame P tag) frs \<and> rest_of P q frs \<and>
    length frs * Q < length P - q + Q"
  using assms(6-8)
proof (induction "length P - q" arbitrary: q s rule: less_induct)
  case less
  show ?case
  proof (cases "q = length P")
    case True
    have "uip_len s = of_nat q" using less.prems(1) True by (simp add: sending_def)
    then have "fragn_loop env dest (of_nat q) s = Some (1, s)" by (subst fragn_loop.simps) simp
    moreover have "rest_of P q []" using True by (simp add: rest_of_def total_def)
    ultimately show ?thesis using assms(4) by (intro exI [of _ "[]"] exI [of _ s]) simp
  next
    case False
    then have q: "q < length P" "8 dvd q" "0 < q" "packetbuf_payload_len s = int Q" using less.prems by auto
    let ?n = "min (length P - q) Q"
    have n: "0 < ?n" "?n \<le> 110" "q + ?n \<le> length P" using q(1) assms(4,5) by auto
    have nn: "int ?n = (if int (length P - q) < packetbuf_payload_len s then int (length P - q) else packetbuf_payload_len s)"
      unfolding q(4) by (simp add: min_def)
    obtain s1 where s1: "fragn_loop env dest (of_nat q) s = fragn_loop env dest (of_nat (q + ?n)) s1" "sending P tag s1"
      "packetbuf_payload_len s1 = int ?n" "frames_sent s1 = frames_sent s @ [later_frame P tag (of_nat (q div 8), take ?n (drop q P))]"
      by (rule fragn_loop_step [OF less.prems(1) assms(1) q(1) assms(2) q(2) n(1,2) nn n(3)])
    have "q + ?n = length P \<or> 8 dvd q + ?n \<and> 0 < q + ?n \<and> packetbuf_payload_len s1 = int Q"
    proof (cases "length P - q \<le> Q")
      case True
      then show ?thesis using q(1) by simp
    next
      case False
      then have "?n = Q" by simp
      then show ?thesis using s1(3) q(2,3) assms(3) by simp
    qed
    moreover have "length P - (q + ?n) < length P - q" using n(1) q(1) by linarith
    ultimately obtain frs s2 where IH: "fragn_loop env dest (of_nat (q + ?n)) s1 = Some (1, s2)"
      "frames_sent s2 = frames_sent s1 @ map (later_frame P tag) frs" "rest_of P (q + ?n) frs"
      "length frs * Q < length P - (q + ?n) + Q"
      using less.hyps [of "q + ?n" s1] s1(2) n(3) by blast
    have "rest_of P q ((of_nat (q div 8), take ?n (drop q P)) # frs)"
      by (rule rest_of_step [OF IH(3) q(2,3) n assms(2)])
    moreover have "length ((of_nat (q div 8) :: u8, take ?n (drop q P)) # frs) * Q < length P - q + Q"
    proof (cases "length P - q \<le> Q")
      case True
      then have "length frs * Q < 1 * Q" using IH(4) q(1) by simp
      then have "length frs = 0" using mult_less_cancel2 by (metis less_one)
      then show ?thesis using q(1) by simp
    next
      case False
      then show ?thesis using IH(4) by simp
    qed
    ultimately show ?thesis using s1(1,4) IH(1,2)
      by (intro exI [of _ "(of_nat (q div 8), take ?n (drop q P)) # frs"] exI [of _ s2]) simp
  qed
qed

lemma mult_8_nonneg: "0 \<le> n \<Longrightarrow> 0 \<le> mult_8 n"
  unfolding mult_8_def minus_mod_eq_mult_div by (simp add: pos_imp_zdiv_nonneg_iff)

text \<open>The state behind the compression of the header: its bytes \<open>z\<close> at the start of the packet buffer, a header of \<open>u\<close> bytes.\<close>

definition compressed :: "u8 list \<Rightarrow> nat \<Rightarrow> u8 list \<Rightarrow> sics \<Rightarrow> bool" where
  "compressed z u P s \<longleftrightarrow> packetbuf_ptr s = 0 \<and> pb_dataptr s = 0 \<and> packetbuf_hdr_len s = of_nat (length z) \<and> length z \<le> 48 \<and>
     bytes_at (packetbuf s) 0 z \<and> accessible (packetbuf s) 0 128 \<and> uncomp_hdr_len s = of_nat u \<and> (u = 40 \<or> u = 48) \<and> u \<le> length P \<and>
     uip_len s = of_nat (length P) \<and> bytes_at (uip_buf s) 0 P \<and> length P \<le> 350"

lemma compressed_sizes:
  assumes "compressed z u P s"
  shows "unat (packetbuf_hdr_len s) = length z" and "unat (packetbuf_hdr_len s + 4) = length z + 4" and "unat (uncomp_hdr_len s) = u" and "unat (uip_len s) = length P"
proof -
  note c = assms [unfolded compressed_def]
  show "unat (packetbuf_hdr_len s) = length z" using c by (simp add: unat_of_nat)
  have "packetbuf_hdr_len s + 4 = 4 + of_nat (length z)" using c by simp
  then show "unat (packetbuf_hdr_len s + 4) = length z + 4" using hdr_len_first [of "length z"] c by (metis add.commute)
  show "unat (uncomp_hdr_len s) = u" using c by auto
  show "unat (uip_len s) = length P" using c by (simp add: unat_of_nat)
qed

lemma send_whole:
  assumes "compressed z u P s" and "int (length P) - int u \<le> max_payload - int (length z)" and "max_payload \<le> 125"
  shows "\<exists>s'. (do {
      let n = int (unat (uip_len s)) - int (unat (uncomp_hdr_len s));
      m \<leftarrow> memcpy (packetbuf s) (packetbuf_ptr s + unat (packetbuf_hdr_len s)) (uip_buf s) (unat (uncomp_hdr_len s)) n;
      let s = s\<lparr>packetbuf := m, pb_datalen := nat (n + int (unat (packetbuf_hdr_len s)))\<rparr>;
      s \<leftarrow> send_packet env dest s;
      Some ((1 :: nat), s)
    }) = Some (1, s') \<and> frames_sent s' = frames_sent s @ [z @ drop u P]"
proof -
  note c = assms(1) [unfolded compressed_def] and sz = compressed_sizes [OF assms(1)]
  let ?m = "put (packetbuf s) (length z) (drop u P)"
  have acc: "accessible (packetbuf s) (length z) (length (drop u P))"
    by (rule accessible_mono [of _ 0 128]) (use c assms(2,3) in simp_all)
  have bu: "bytes_at (uip_buf s) u (drop u P)" using bytes_at_drop [of "uip_buf s" 0 P u] c by simp
  have n: "int (length P) - int u = int (length (drop u P))" using c by simp
  have cp: "memcpy (packetbuf s) (packetbuf_ptr s + length z) (uip_buf s) u (int (length P) - int u) = Some ?m"
    using memcpy_put [OF acc bu n] c by simp
  let ?s1 = "s\<lparr>packetbuf := ?m, pb_datalen := nat (int (length P) - int u + int (length z))\<rparr>"
  have "bytes_at (packetbuf ?s1) (pb_dataptr ?s1) (z @ drop u P)" using c by (simp add: bytes_at_append bytes_at_put bytes_at_put_outside)
  moreover have "pb_datalen ?s1 = length (z @ drop u P)" using c by simp
  ultimately obtain st where "send_packet env dest ?s1 =
      Some (?s1\<lparr>pb_receiver := dest, frames_sent := frames_sent ?s1 @ [z @ drop u P], last_tx_status := st\<rparr>)"
    using send_packet_frame [of ?s1 "z @ drop u P" env dest] by blast
  then show ?thesis unfolding sz Let_def cp Option.bind.bind_lunit by simp
qed

lemma output_fragments_frames:
  assumes "compressed z u P s" and "lossless env" and "int (length P) - int u > max_payload - int (length z)" and "max_payload \<le> 110" and "52 \<le> max_payload"
    and "oe_numfree env - 1 \<ge> int (length P) sdiv (max_payload - 5) + 1"
  shows "\<exists>payload frs s'. output_fragments env dest max_payload s = Some (1, s') \<and> u + length payload < length P \<and> payload = take (length payload) (drop u P) \<and>
    int (length payload) = mult_8 (max_payload - int (length z + 4)) \<and>
    frames_sent s' = frames_sent s @ (frag1_header (of_nat (length P)) (my_tag s) @ z @ payload) # map (later_frame P (my_tag s)) frs \<and>
    rest_of P (u + length payload) frs \<and> int (length frs) * mult_8 (max_payload - 5) < int (length P) - int (u + length payload) + mult_8 (max_payload - 5)"
proof -
  note c = assms(1) [unfolded compressed_def] and sz = compressed_sizes [OF assms(1)]
  let ?L = "length z" and ?n = "of_nat (length P) :: u16" and ?tag = "my_tag s"
  define N where "N = nat (mult_8 (max_payload - int (?L + 4)))"
  have N0: "int N = mult_8 (max_payload - int (?L + 4))"
    using mult_8_nonneg [of "max_payload - int (?L + 4)"] c assms(5) unfolding N_def by simp
  have N: "u + N < length P" "8 dvd N" "?L + 4 + N \<le> 125"
    using mult_8_bounds [of "max_payload - int (?L + 4)"] c assms(3,4) int_dvd_int_iff [of 8 N] unfolding N0 [symmetric] by simp_all
  define payload where "payload = take N (drop u P)"
  have lp: "length payload = N" using N(1) by (simp add: payload_def)
  let ?s1 = "s\<lparr>last_tx_status := MAC_TX_OK\<rparr>"
  have acc: "accessible (packetbuf s) 0 128" using c by blast
  have mv: "memmove (packetbuf s) 4 0 ?L = Some (put (packetbuf s) 4 z)"
  proof -
    have a: "accessible (packetbuf s) 4 ?L" "accessible (packetbuf s) 0 ?L" using accessible_mono [OF acc, of 4 ?L] accessible_mono [OF acc, of 0 ?L] c by simp_all
    obtain vs where vs: "bytes_at (packetbuf s) 0 vs" "length vs = ?L" "memmove (packetbuf s) 4 0 ?L = Some (put (packetbuf s) 4 vs)"
      using memmove_put [OF a] by blast
    then have "vs = z" using bytes_at_unique [of "packetbuf s" 0 vs z] c by simp
    then show ?thesis using vs(3) by simp
  qed
  let ?m1 = "put (packetbuf s) 4 z"
  have a1: "accessible ?m1 0 128" by (rule accessible_put_buf [OF acc]) (use c in simp)
  let ?m2 = "put ?m1 0 [hi (0xc000 OR ?n), lo (0xc000 OR ?n)]"
  have s1: "SET16 0 0 (0xc000 OR uip_len s) ?m1 = Some ?m2"
    using set16_put [of ?m1 0 0 "0xc000 OR uip_len s"] accessible_mono [OF a1, of 0 2] c by simp
  have a2: "accessible ?m2 0 128" by (rule accessible_put_buf [OF a1]) simp
  let ?m3 = "put ?m2 2 [hi ?tag, lo ?tag]"
  have s2: "SET16 0 2 ?tag ?m2 = Some ?m3"
    by (rule set16_put [of ?m2 0 2 ?tag, unfolded add_0]) (rule accessible_mono [OF a2], simp_all)
  have a3: "accessible ?m3 0 128" by (rule accessible_put_buf [OF a2]) simp
  let ?m4 = "put ?m3 (?L + 4) payload"
  have bu: "bytes_at (uip_buf s) u payload"
    unfolding payload_def using bytes_at_take [OF bytes_at_drop [of "uip_buf s" 0 P u], of N] c by simp
  have a34: "accessible ?m3 (?L + 4) (length payload)" by (rule accessible_mono [OF a3]) (use N(3) lp in simp_all)
  have cp: "memcpy ?m3 (?L + 4) (uip_buf s) u (int N) = Some ?m4" by (rule memcpy_put [OF a34 bu]) (simp add: lp)
  have a4: "accessible ?m4 0 128" using a3 a34 by simp
  let ?frame = "frag1_header ?n ?tag @ z @ payload"
  have frame: "bytes_at ?m4 0 ?frame"
  proof -
    have "?frame = [hi (0xc000 OR ?n), lo (0xc000 OR ?n)] @ [hi ?tag, lo ?tag] @ z @ payload" by (simp add: frag1_header_def)
    moreover have "bytes_at ?m4 0 [hi (0xc000 OR ?n), lo (0xc000 OR ?n)]" using bytes_at_put [of ?m1 0 "[hi (0xc000 OR ?n), lo (0xc000 OR ?n)]"]
      by (simp add: bytes_at_put_outside)
    moreover have "bytes_at ?m4 2 [hi ?tag, lo ?tag]" using bytes_at_put [of ?m2 2 "[hi ?tag, lo ?tag]"] by (simp add: bytes_at_put_outside)
    moreover have "bytes_at ?m4 4 z" using bytes_at_put [of "packetbuf s" 4 z] by (simp add: bytes_at_put_outside)
    moreover have "bytes_at ?m4 (?L + 4) payload" by (rule bytes_at_put)
    moreover have "0 + length [hi (0xc000 OR ?n), lo (0xc000 OR ?n)] = 2" "2 + length [hi ?tag, lo ?tag] = 4" "4 + length z = ?L + 4" by simp_all
    ultimately show ?thesis by (metis bytes_at_append)
  qed
  let ?s2 = "?s1\<lparr>my_tag := ?tag + 1, packetbuf_hdr_len := packetbuf_hdr_len s + SICSLOWPAN_FRAG1_HDR_LEN\<rparr>"
  let ?s3 = "?s2\<lparr>packetbuf := ?m4, packetbuf_payload_len := int N, pb_datalen := nat (int N + int (?L + 4))\<rparr>"
  let ?s4 = "?s3\<lparr>pb_receiver := dest, frames_sent := frames_sent ?s3 @ [?frame], last_tx_status := MAC_TX_OK\<rparr>"
  have sf: "send_fragment env dest ?s3 = Some (True, ?s4)"
    by (rule send_fragment_frame [OF assms(2)]) (use c frame lp in \<open>simp_all add: frag1_header_def\<close>)
  let ?m5 = "put ?m4 0 [hi (0xe000 OR ?n), lo (0xe000 OR ?n)]"
  have s5: "SET16 0 0 (0xe000 OR uip_len s) ?m4 = Some ?m5"
    using set16_put [of ?m4 0 0 "0xe000 OR uip_len s"] accessible_mono [OF a4, of 0 2] c by simp
  let ?s5 = "?s4\<lparr>packetbuf_hdr_len := SICSLOWPAN_FRAGN_HDR_LEN, packetbuf := ?m5, packetbuf_payload_len := mult_8 (max_payload - 5)\<rparr>"
  define Q where "Q = nat (mult_8 (max_payload - 5))"
  have Q0: "int Q = mult_8 (max_payload - 5)" using mult_8_nonneg [of "max_payload - 5"] assms(5) unfolding Q_def by simp
  have Q: "8 dvd Q" "0 < Q" "Q \<le> 110"
    using mult_8_bounds [of "max_payload - 5"] assms(4,5) int_dvd_int_iff [of 8 Q] unfolding Q0 [symmetric] by simp_all
  have sd: "sending P ?tag ?s5"
  proof -
    have "bytes_at ?m5 0 ([hi (0xe000 OR ?n), lo (0xe000 OR ?n)] @ [hi ?tag, lo ?tag])"
    proof -
      have "bytes_at ?m5 2 [hi ?tag, lo ?tag]" using bytes_at_put [of ?m2 2 "[hi ?tag, lo ?tag]"] by (simp add: bytes_at_put_outside)
      moreover have "0 + length [hi (0xe000 OR ?n), lo (0xe000 OR ?n)] = 2" by simp
      ultimately show ?thesis using bytes_at_put [of ?m4 0 "[hi (0xe000 OR ?n), lo (0xe000 OR ?n)]"] by (metis bytes_at_append)
    qed
    moreover have "accessible ?m5 0 128" by (rule accessible_put_buf [OF a4]) simp
    ultimately show ?thesis using c by (simp add: sending_def SICSLOWPAN_FRAGN_HDR_LEN_def)
  qed
  have "8 dvd u + N" "0 < u + N" using c N(2) by auto
  then obtain frs s' where loop: "fragn_loop env dest (of_nat (u + N)) ?s5 = Some (1, s')" "frames_sent s' = frames_sent ?s5 @ map (later_frame P ?tag) frs"
    "rest_of P (u + N) frs" "length frs * Q < length P - (u + N) + Q"
    using fragn_loop_frames [OF assms(2) _ Q sd, of "u + N" dest] c N(1) Q0 by auto
  have pr: "word_of_int (int N) + ucast (uncomp_hdr_len ?s4) = (of_nat (u + N) :: u16)" using c by auto
  have h4: "unat (packetbuf_hdr_len s + SICSLOWPAN_FRAG1_HDR_LEN) = ?L + 4" using sz(2) by (simp add: SICSLOWPAN_FRAG1_HDR_LEN_def)
  have "output_fragments env dest max_payload s = Some (1, s')"
  proof -
    have c1: "\<not> max_payload = 5" "\<not> oe_numfree env - 1 < int (length P) sdiv (max_payload - 5) + 1" using assms(5,6) by simp_all
    have p: "packetbuf_ptr s = 0" using c by simp
    have f1: "packetbuf_ptr ?s1 = 0" "packetbuf_hdr_len ?s1 = packetbuf_hdr_len s" "packetbuf ?s1 = packetbuf s" "uip_len ?s1 = uip_len s"
      "my_tag ?s1 = ?tag" using p by simp_all
    have f2: "packetbuf_hdr_len ?s2 = packetbuf_hdr_len s + SICSLOWPAN_FRAG1_HDR_LEN" "uip_buf ?s2 = uip_buf s" "uncomp_hdr_len ?s2 = uncomp_hdr_len s" by simp_all
    have f4: "last_tx_status ?s4 \<notin> {MAC_TX_COLLISION, MAC_TX_ERR, MAC_TX_ERR_FATAL}"
      "uip_len (?s4\<lparr>packetbuf_hdr_len := SICSLOWPAN_FRAGN_HDR_LEN\<rparr>) = uip_len s" "packetbuf (?s4\<lparr>packetbuf_hdr_len := SICSLOWPAN_FRAGN_HDR_LEN\<rparr>) = ?m4"
      "packetbuf_hdr_len (?s4\<lparr>packetbuf_hdr_len := SICSLOWPAN_FRAGN_HDR_LEN\<rparr>) = SICSLOWPAN_FRAGN_HDR_LEN" by simp_all
    have h5: "int (unat SICSLOWPAN_FRAGN_HDR_LEN) = 5" by (simp add: SICSLOWPAN_FRAGN_HDR_LEN_def)
    show ?thesis
      unfolding output_fragments_def if_not_P [OF c1(1)] sz(4) if_not_P [OF c1(2)] Let_def f1 f2 add_0 sz(1,3) h4 mv s1 s2 Option.bind.bind_lunit N0 [symmetric] cp
        sf prod.case not_True_eq_False if_False if_not_P [OF f4(1)] f4(2-4) s5 h5 pr loop(1) ..
  qed
  moreover have "int (length frs) * mult_8 (max_payload - 5) < int (length P) - int (u + N) + mult_8 (max_payload - 5)"
    unfolding Q0 [symmetric] using loop(4) N(1) by (simp flip: of_nat_mult)
  ultimately show ?thesis using loop(2,3) lp N0 N(1) payload_def
    by (intro exI [of _ payload] exI [of _ frs] exI [of _ s']) simp
qed

lemma mset_map_preimage:
  "mset ys = mset (map f xs) \<Longrightarrow> \<exists>xs'. ys = map f xs' \<and> mset xs' = mset xs"
proof (induction ys arbitrary: xs)
  case (Cons y ys)
  then have "y \<in> set (map f xs)" by (metis list.set_intros(1) mset_eq_setD)
  then obtain x where x: "x \<in> set xs" "y = f x" by auto
  then have "mset xs = add_mset x (mset (remove1 x xs))" by simp
  then have "mset (map f xs) = add_mset y (mset (map f (remove1 x xs)))" unfolding mset_map x(2) by (metis image_mset_add_mset)
  then have "mset ys = mset (map f (remove1 x xs))" using Cons.prems by simp
  then obtain xs' where "ys = map f xs'" "mset xs' = mset (remove1 x xs)" using Cons.IH by blast
  then show ?case using x by (intro exI [of _ "x # xs'"]) simp
qed simp

lemma rest_of_mset:
  assumes "rest_of P q frs" and "mset frs' = mset frs"
  shows "rest_of P q frs'"
proof -
  have "total frs' = total frs" unfolding total_def by (metis assms(2) mset_map sum_mset_sum_list)
  moreover have "set frs' = set frs" by (rule mset_eq_setD [OF assms(2)])
  ultimately show ?thesis using assms(1) by (simp add: rest_of_def)
qed

lemma output_compressed:
  assumes "accessible (packetbuf s) 0 128" and "load_list (uip_buf s) 0 48 = Some h" and "oe_framer_length env = Some hl"
    and "sound_header cs h P" and "length P \<le> 350" and "uip_len s = of_nat (length P)" and "bytes_at (uip_buf s) 0 P"
  obtains s1 where "compressed (iphc_bytes cs src dst h) (hdr_size h) P s1" and "frames_sent s1 = frames_sent s" and "my_tag s1 = my_tag s"
    and "sicslowpan_output env cs src (Some dst) s =
      (if int (length P) - int (hdr_size h) > max_payload_of hl - int (length (iphc_bytes cs src dst h))
       then output_fragments env dst (max_payload_of hl) s1
       else do {
         let n = int (unat (uip_len s1)) - int (unat (uncomp_hdr_len s1));
         m \<leftarrow> memcpy (packetbuf s1) (packetbuf_ptr s1 + unat (packetbuf_hdr_len s1)) (uip_buf s1) (unat (uncomp_hdr_len s1)) n;
         let s = s1\<lparr>packetbuf := m, pb_datalen := nat (n + int (unat (packetbuf_hdr_len s1)))\<rparr>;
         s \<leftarrow> send_packet env dst s;
         Some (1, s)
       })"
proof -
  let ?z = "iphc_bytes cs src dst h"
  let ?s0 = "s\<lparr>uncomp_hdr_len := 0, packetbuf_hdr_len := 0, pb_dataptr := 0, pb_datalen := 0, pb_sender := linkaddr_null, pb_receiver := linkaddr_null, packetbuf_ptr := 0\<rparr>"
  have a: "accessible (packetbuf ?s0) (packetbuf_ptr ?s0) 48" using accessible_mono [OF assms(1), of 0 48] by simp
  let ?s1 = "?s0\<lparr>packetbuf := put (packetbuf ?s0) (packetbuf_ptr ?s0) ?z, hc06_ptr := packetbuf_ptr ?s0 + length ?z, packetbuf_hdr_len := of_nat (length ?z),
    uncomp_hdr_len := if h_proto h = UIP_PROTO_UDP then 48 else 40, pb_receiver := dst\<rparr>"
  have ch: "compress_hdr_iphc cs src dst h ?s0 = Some (?s0\<lparr>packetbuf := put (packetbuf ?s0) (packetbuf_ptr ?s0) ?z, hc06_ptr := packetbuf_ptr ?s0 + length ?z,
     packetbuf_hdr_len := of_nat (length ?z), uncomp_hdr_len := if h_proto h = UIP_PROTO_UDP then 48 else 40\<rparr>)" and L: "length ?z \<le> 48"
    using compress_hdr_iphc_put [OF a, of cs src dst h] by simp_all
  have c: "compressed ?z (hdr_size h) P ?s1"
    using assms L accessible_put_buf [OF assms(1), of 0 ?z]
    by (auto simp: compressed_def bytes_at_put hdr_size_def sound_header_def)
  note sz = compressed_sizes [OF c]
  have "sicslowpan_output env cs src (Some dst) s =
      (if int (length P) - int (hdr_size h) > max_payload_of hl - int (length ?z)
       then output_fragments env dst (max_payload_of hl) ?s1
       else do {
         let n = int (unat (uip_len ?s1)) - int (unat (uncomp_hdr_len ?s1));
         m \<leftarrow> memcpy (packetbuf ?s1) (packetbuf_ptr ?s1 + unat (packetbuf_hdr_len ?s1)) (uip_buf ?s1) (unat (uncomp_hdr_len ?s1)) n;
         let s = ?s1\<lparr>packetbuf := m, pb_datalen := nat (n + int (unat (packetbuf_hdr_len ?s1)))\<rparr>;
         s \<leftarrow> send_packet env dst s;
         Some (1, s)
       })"
  proof -
    have e: "pb_dataptr (s\<lparr>uncomp_hdr_len := 0, packetbuf_hdr_len := 0, pb_dataptr := 0, pb_datalen := 0, pb_sender := linkaddr_null, pb_receiver := linkaddr_null\<rparr>) = 0"
      "uip_buf ?s0 = uip_buf s" "UIP_IPH_LEN + UIP_UDPH_LEN = 48" by (simp_all add: iphc_consts)
    have t: "uip_len ?s0 \<ge> COMPRESSION_THRESHOLD" by (simp add: COMPRESSION_THRESHOLD_def)
    show ?thesis
      unfolding sicslowpan_output_def Let_def e option.case assms(2,3) Option.bind.bind_lunit if_P [OF t] ch sz max_payload_of_def by simp
  qed
  then show thesis using that [of ?s1] c by simp
qed

definition delivers :: "u8 list \<Rightarrow> nat \<Rightarrow> (bool list \<times> sics) option \<Rightarrow> bool" where
  "delivers P n r \<longleftrightarrow> (\<exists>s'. r = Some (replicate n False @ [True], s') \<and> bytes_at (uip_buf s') 0 P \<and> uip_len s' = of_nat (length P) \<and> frag_ok s')"

lemma iphc_bytes_longer: "3 \<le> length (iphc_bytes cs sl dl h)"
proof -
  have "1 \<le> length (inline_bytes cs sl dl h)" using inline_bytes_nonempty [of cs sl dl h] by (cases "inline_bytes cs sl dl h") simp_all
  then show ?thesis unfolding iphc_bytes_def by simp
qed

text \<open>
  C1: An IPv6 packet of up to 350 bytes that \<open>output\<close> sends over a link without losses is delivered by \<open>input\<close> of a receiver with a free session and free
  buffers, byte for byte and with its length: whether it goes in one frame or in fragments, and in whatever order the
  fragments behind the first one arrive; no earlier frame is delivered as a packet.
\<close>

theorem sicslowpan_end_to_end:
  assumes "lossless env" and "oe_framer_length env = Some hl" and "hl < 0 \<or> 15 \<le> hl \<and> hl \<le> 48"
    and "oe_numfree env - 1 \<ge> int (length P) sdiv (max_payload_of hl - 5) + 1"
    and "accessible (packetbuf s) 0 128" and "bytes_at (uip_buf s) 0 P" and "uip_len s = of_nat (length P)" and "load_list (uip_buf s) 0 48 = Some h"
    and "sound_header cs h P" and "length P \<le> UIP_BUFSIZE" and "length src = LINKADDR_SIZE" and "length dst = LINKADDR_SIZE"
    and "ready (my_tag s) src r" and "free_bufs r = SICSLOWPAN_FRAGMENT_BUFFERS"
  shows "\<exists>s' first rest. sicslowpan_output env cs src (Some dst) s = Some (1, s') \<and> frames_sent s' = frames_sent s @ first # rest \<and>
    (\<forall>now later. mset (map snd later) = mset rest \<longrightarrow>
      delivers P (length rest) (receive maxage cs src dst ((now, first) # later) r))"
proof -
  let ?z = "iphc_bytes cs src dst h" and ?u = "hdr_size h" and ?mp = "max_payload_of hl"
  have P: "length P \<le> 350" and ln: "length src = 8" "length dst = 8" using assms(10-12) by (simp_all add: UIP_BUFSIZE_def LINKADDR_SIZE_def)
  have mp: "?mp \<le> 110" "77 \<le> ?mp" "52 \<le> ?mp" using assms(3) by (auto simp: max_payload_of_def MAC_MAX_PAYLOAD_def SICSLOWPAN_FIXED_HDRLEN_def)
  have rd: "frag_ok r" "arrays r" using assms(13) by (simp_all add: ready_def)
  have u: "?u \<le> length P" "?u \<le> 48" using assms(9) by (simp_all add: sound_header_def hdr_size_def)
  obtain s1 where s1: "compressed ?z ?u P s1" "frames_sent s1 = frames_sent s" "my_tag s1 = my_tag s"
    "sicslowpan_output env cs src (Some dst) s =
      (if int (length P) - int ?u > ?mp - int (length ?z) then output_fragments env dst ?mp s1
       else do {
         let n = int (unat (uip_len s1)) - int (unat (uncomp_hdr_len s1));
         m \<leftarrow> memcpy (packetbuf s1) (packetbuf_ptr s1 + unat (packetbuf_hdr_len s1)) (uip_buf s1) (unat (uncomp_hdr_len s1)) n;
         let s = s1\<lparr>packetbuf := m, pb_datalen := nat (n + int (unat (packetbuf_hdr_len s1)))\<rparr>;
         s \<leftarrow> send_packet env dst s;
         Some (1, s)
       })"
    by (rule output_compressed [OF assms(5,8,2,9) P assms(7,6)])
  show ?thesis
  proof (cases "int (length P) - int ?u > ?mp - int (length ?z)")
    case True
    obtain payload frs s' where o: "output_fragments env dst ?mp s1 = Some (1, s')" "?u + length payload < length P"
      "payload = take (length payload) (drop ?u P)" "int (length payload) = mult_8 (?mp - int (length ?z + 4))"
      "frames_sent s' = frames_sent s1 @ (frag1_header (of_nat (length P)) (my_tag s1) @ ?z @ payload) # map (later_frame P (my_tag s1)) frs"
      "rest_of P (?u + length payload) frs" "int (length frs) * mult_8 (?mp - 5) < int (length P) - int (?u + length payload) + mult_8 (?mp - 5)"
      using output_fragments_frames [OF s1(1) assms(1) True mp(1,3) assms(4)] by blast
    let ?k = "?u + length payload" and ?tag = "my_tag s"
    have k: "?k \<le> 148"
    proof -
      have "int (length payload) \<le> 103" using o(4) mult_8_bounds(2) [of "?mp - int (length ?z + 4)"] mp(1) iphc_bytes_longer [of cs src dst h] by linarith
      moreover have "8 dvd length payload" using o(4) mult_8_bounds(3) [of "?mp - int (length ?z + 4)"] int_dvd_int_iff [of 8 "length payload"] by simp
      ultimately show ?thesis using u(2) by presburger
    qed
    have n: "length frs \<le> free_bufs r"
    proof (rule ccontr)
      assume "\<not> length frs \<le> free_bufs r"
      then have "5 \<le> int (length frs)" using assms(14) by (simp add: SICSLOWPAN_FRAGMENT_BUFFERS_def)
      moreover have Q: "72 \<le> mult_8 (?mp - 5)" using mult_8_bounds(1,3) [of "?mp - 5"] mp(2) by presburger
      ultimately have "5 * mult_8 (?mp - 5) \<le> int (length frs) * mult_8 (?mp - 5)" by (intro mult_right_mono) simp_all
      moreover have "24 \<le> int (length payload)"
      proof -
        have "18 \<le> int (length payload)" using o(4) mult_8_bounds(1) [of "?mp - int (length ?z + 4)"] mp(2) iphc_bytes_length [of cs src dst h] by linarith
        moreover have "8 dvd int (length payload)" unfolding o(4) by (rule mult_8_bounds)
        ultimately show ?thesis by presburger
      qed
      moreover have "40 \<le> int ?u" by (simp add: hdr_size_def)
      ultimately show False using o(7) Q P by linarith
    qed
    have tk: "take ?k P = take ?u P @ payload" using o(3) by (simp add: take_add)
    have "delivers P (length frs) (receive maxage cs src dst ((now, first_frame cs src dst h P ?tag payload) # later) r)"
      if later: "mset (map snd later) = mset (map (later_frame P ?tag) frs)" for now later
    proof -
      obtain frs' where frs': "map snd later = map (later_frame P ?tag) frs'" "mset frs' = mset frs" using mset_map_preimage [OF later] by blast
      let ?tfrs = "zip (map fst later) frs'"
      have l: "length frs' = length frs" "length later = length frs'" using frs' by (metis size_mset) (metis frs'(1) length_map)
      have "later = later_frames P ?tag ?tfrs"
      proof (rule nth_equalityI)
        fix i assume "i < length later"
        then show "later ! i = later_frames P ?tag ?tfrs ! i"
          using arg_cong [OF frs'(1), of "\<lambda>xs. xs ! i"] l(2) by (simp add: later_frames_def prod_eq_iff)
      qed (simp add: later_frames_def l)
      moreover have "complete P ?k (map snd ?tfrs)"
        using rest_of_mset [OF o(6) frs'(2)] o(2) l by (simp add: rest_of_def complete_def)
      moreover have "length ?tfrs = length frs" using l by simp
      ultimately show ?thesis
        using receive_fragments [OF assms(13) ln assms(9) P refl k tk, of ?tfrs maxage now] n unfolding delivers_def by simp
    qed
    then show ?thesis using True o(1,5) s1(2-4)
      by (intro exI [of _ s'] exI [of _ "first_frame cs src dst h P ?tag payload"] exI [of _ "map (later_frame P ?tag) frs"]) (simp add: first_frame_def)
  next
    case False
    let ?b = "drop ?u P"
    have "int (length P) - int ?u \<le> ?mp - int (length ?z)" using False by simp
    from send_whole [OF s1(1) this, of env dst] obtain s' where s': "sicslowpan_output env cs src (Some dst) s = Some (1, s')"
      "frames_sent s' = frames_sent s @ [?z @ ?b]"
      using mp(1) s1(2,4) False by auto
    have "P = take ?u P @ ?b" by simp
    have "delivers P 0 (receive maxage cs src dst ((now, ?z @ ?b) # []) r)" for now
      using receive_whole [OF rd ln assms(9) P \<open>P = take ?u P @ ?b\<close>, of now maxage] unfolding delivers_def by auto
    then show ?thesis using s' by (intro exI [of _ s'] exI [of _ "?z @ ?b"] exI [of _ "[]"]) simp
  qed
qed

text \<open>A packet of 300 bytes in three frames, whose last two arrive in the other order.\<close>

definition long_header :: "u8 list" where
  "long_header = sample_header[4 := 1, 5 := 4, 44 := 1, 45 := 4]"

definition long_packet :: "u8 list" where
  "long_packet = long_header @ replicate 252 7"

definition sender :: sics where
  "sender = receiver\<lparr>packetbuf := array (replicate 128 0), uip_buf := array (long_packet @ replicate 50 0), uip_len := 300\<rparr>"

definition good_link :: out_env where
  "good_link = \<lparr>oe_framer_length = Some 21, oe_numfree = 8, oe_queuebuf = (\<lambda>_. True), oe_status = (\<lambda>_. Some MAC_TX_OK)\<rparr>"

lemma long_lengths: "length long_header = 48" "length long_packet = 300"
  by (simp_all add: long_header_def long_packet_def sample_header_length)

lemma long_sound: "sound_header sample_contexts long_header long_packet"
proof -
  have "\<not> src_prefix_lost sample_contexts long_header"
    by (simp add: src_prefix_lost_def u16s_zero_def u16_zero_def long_header_def sample_header_def numeral_eq_Suc)
  moreover have "drop_bit 4 (h_vtc long_header) = 6" "[long_header ! 4, long_header ! 5] = len_bytes 260"
    "[long_header ! 44, long_header ! 45] = len_bytes 260" "h_proto long_header = UIP_PROTO_UDP"
    by (simp_all add: long_header_def sample_header_def len_bytes_def UIP_PROTO_UDP_def)
  ultimately show ?thesis
    using sample_contexts_ok long_lengths by (simp add: sound_header_def hdr_size_def long_packet_def)
qed

lemma sender_fields:
  "accessible (packetbuf sender) 0 128" "bytes_at (uip_buf sender) 0 long_packet" "uip_len sender = of_nat (length long_packet)"
  "load_list (uip_buf sender) 0 48 = Some long_header"
proof -
  have b: "bytes_at (uip_buf sender) 0 (long_packet @ replicate 50 0)" by (simp add: sender_def bytes_at_array)
  then show "bytes_at (uip_buf sender) 0 long_packet" by (simp add: bytes_at_append)
  then show "load_list (uip_buf sender) 0 48 = Some long_header"
    using load_bytes [of "uip_buf sender" 0 long_header 48] long_lengths by (simp add: long_packet_def bytes_at_append)
  show "uip_len sender = of_nat (length long_packet)" by (simp add: sender_def long_lengths)
  show "accessible (packetbuf sender) 0 128" by (simp add: sender_def accessible_def array_def)
qed

lemma receiver_ready: "ready 0 sample_lladdr receiver" "free_bufs receiver = SICSLOWPAN_FRAGMENT_BUFFERS"
proof -
  have "frag_ok receiver" using frag_ok_receiver by (simp add: frag_ok_def frame_in_def)
  then show "ready 0 sample_lladdr receiver"
    by (auto simp: ready_def arrays_def receiver_def blank_info_def blank_buf_def accessible_def array_def same_session_def linkaddr_null_def
        SICSLOWPAN_FIRST_FRAGMENT_SIZE_def SICSLOWPAN_FRAGMENT_SIZE_def UIP_BUFSIZE_def less_2_cases_iff intro!: exI [of _ 0])
  show "free_bufs receiver = SICSLOWPAN_FRAGMENT_BUFFERS"
    by (simp add: free_bufs_def receiver_def blank_buf_def SICSLOWPAN_FRAGMENT_BUFFERS_def)
qed

theorem sicslowpan_end_to_end_witness:
  "\<exists>s' first rest. sicslowpan_output good_link sample_contexts sample_lladdr (Some sample_lladdr) sender = Some (1, s') \<and>
    frames_sent s' = first # rest \<and>
    delivers long_packet (length rest) (receive 20 sample_contexts sample_lladdr sample_lladdr ((0, first) # map (Pair 1) (rev rest)) receiver)"
proof -
  have l: "lossless good_link" "oe_framer_length good_link = Some 21" "(21 :: int) < 0 \<or> 15 \<le> (21 :: int) \<and> (21 :: int) \<le> 48"
    by (simp_all add: good_link_def lossless_def)
  have q: "oe_numfree good_link - 1 \<ge> int (length long_packet) sdiv (max_payload_of 21 - 5) + 1"
    unfolding long_lengths by (simp add: good_link_def max_payload_of_def MAC_MAX_PAYLOAD_def signed_divide_int_def)
  have a: "length long_packet \<le> UIP_BUFSIZE" "length sample_lladdr = LINKADDR_SIZE"
    by (simp_all add: long_lengths UIP_BUFSIZE_def sample_lladdr_def LINKADDR_SIZE_def)
  have t: "ready (my_tag sender) sample_lladdr receiver" using receiver_ready(1) by (simp add: sender_def receiver_def)
  obtain s' first rest where "sicslowpan_output good_link sample_contexts sample_lladdr (Some sample_lladdr) sender = Some (1, s')"
    "frames_sent s' = frames_sent sender @ first # rest"
    "\<forall>now later. mset (map snd later) = mset rest \<longrightarrow> delivers long_packet (length rest)
        (receive 20 sample_contexts sample_lladdr sample_lladdr ((now, first) # later) receiver)"
    using sicslowpan_end_to_end [OF l q sender_fields long_sound a a(2) t receiver_ready(2)] by blast
  moreover have "mset (map snd (map (Pair (1 :: u32)) (rev rest))) = mset rest" by (simp add: comp_def)
  moreover have "frames_sent sender = []" by (simp add: sender_def receiver_def)
  ultimately show ?thesis by (metis append_Nil)
qed

end
