(* ===== verification/Coap_Packet.thy ===== *)
theory Coap_Packet
  imports Bytemem
begin

section \<open>CoAP packets: fields, option map, getters and setters (emb6/src/apl/er-coap/er-coap.c)\<close>

text \<open>
  The parsed message of the Erbium CoAP implementation and the functions that read and set its fields. Strings and
  the payload are pointers into memory with a length; tokens and entity tags are arrays of the message itself.
  A \<open>size_t\<close> is a natural number. A getter that has an output parameter returns what it wrote there, \<open>None\<close> when it
  leaves it alone.
\<close>

subsection \<open>Constants\<close>

definition COAP_OPTION_IF_MATCH :: nat where "COAP_OPTION_IF_MATCH = 1"
definition COAP_OPTION_URI_HOST :: nat where "COAP_OPTION_URI_HOST = 3"
definition COAP_OPTION_ETAG :: nat where "COAP_OPTION_ETAG = 4"
definition COAP_OPTION_IF_NONE_MATCH :: nat where "COAP_OPTION_IF_NONE_MATCH = 5"
definition COAP_OPTION_OBSERVE :: nat where "COAP_OPTION_OBSERVE = 6"
definition COAP_OPTION_URI_PORT :: nat where "COAP_OPTION_URI_PORT = 7"
definition COAP_OPTION_LOCATION_PATH :: nat where "COAP_OPTION_LOCATION_PATH = 8"
definition COAP_OPTION_URI_PATH :: nat where "COAP_OPTION_URI_PATH = 11"
definition COAP_OPTION_CONTENT_FORMAT :: nat where "COAP_OPTION_CONTENT_FORMAT = 12"
definition COAP_OPTION_MAX_AGE :: nat where "COAP_OPTION_MAX_AGE = 14"
definition COAP_OPTION_URI_QUERY :: nat where "COAP_OPTION_URI_QUERY = 15"
definition COAP_OPTION_ACCEPT :: nat where "COAP_OPTION_ACCEPT = 17"
definition COAP_OPTION_LOCATION_QUERY :: nat where "COAP_OPTION_LOCATION_QUERY = 20"
definition COAP_OPTION_BLOCK2 :: nat where "COAP_OPTION_BLOCK2 = 23"
definition COAP_OPTION_BLOCK1 :: nat where "COAP_OPTION_BLOCK1 = 27"
definition COAP_OPTION_SIZE2 :: nat where "COAP_OPTION_SIZE2 = 28"
definition COAP_OPTION_PROXY_URI :: nat where "COAP_OPTION_PROXY_URI = 35"
definition COAP_OPTION_PROXY_SCHEME :: nat where "COAP_OPTION_PROXY_SCHEME = 39"
definition COAP_OPTION_SIZE1 :: nat where "COAP_OPTION_SIZE1 = 60"

lemmas coap_numbers =
  COAP_OPTION_IF_MATCH_def COAP_OPTION_URI_HOST_def COAP_OPTION_ETAG_def COAP_OPTION_IF_NONE_MATCH_def COAP_OPTION_OBSERVE_def COAP_OPTION_URI_PORT_def
  COAP_OPTION_LOCATION_PATH_def COAP_OPTION_URI_PATH_def COAP_OPTION_CONTENT_FORMAT_def COAP_OPTION_MAX_AGE_def COAP_OPTION_URI_QUERY_def
  COAP_OPTION_ACCEPT_def COAP_OPTION_LOCATION_QUERY_def COAP_OPTION_BLOCK2_def COAP_OPTION_BLOCK1_def COAP_OPTION_SIZE2_def COAP_OPTION_PROXY_URI_def COAP_OPTION_PROXY_SCHEME_def COAP_OPTION_SIZE1_def

definition COAP_TOKEN_LEN :: nat where "COAP_TOKEN_LEN = 8"
definition COAP_ETAG_LEN :: nat where "COAP_ETAG_LEN = 8"
definition COAP_DEFAULT_MAX_AGE :: u32 where "COAP_DEFAULT_MAX_AGE = 60"
definition REST_MAX_CHUNK_SIZE :: nat where "REST_MAX_CHUNK_SIZE = 512"
definition OPTION_MAP_SIZE :: nat where "OPTION_MAP_SIZE = 8"

subsection \<open>The packet\<close>

record coap_packet =
  cp_buffer :: ptr
  cp_version :: u8
  cp_type :: u8
  cp_code :: u8
  cp_mid :: u16
  cp_token_len :: u8
  cp_token :: "u8 list"
  cp_options :: "u8 list"
  cp_content_format :: u16
  cp_max_age :: u32
  cp_etag_len :: u8
  cp_etag :: "u8 list"
  cp_proxy_uri_len :: nat
  cp_proxy_uri :: ptr
  cp_proxy_scheme_len :: nat
  cp_proxy_scheme :: ptr
  cp_uri_host_len :: nat
  cp_uri_host :: ptr
  cp_location_path_len :: nat
  cp_location_path :: ptr
  cp_uri_port :: u16
  cp_location_query_len :: nat
  cp_location_query :: ptr
  cp_uri_path_len :: nat
  cp_uri_path :: ptr
  cp_observe :: u32
  cp_accept :: u16
  cp_if_match_len :: u8
  cp_if_match :: "u8 list"
  cp_block2_num :: u32
  cp_block2_more :: u8
  cp_block2_size :: u16
  cp_block2_offset :: u32
  cp_block1_num :: u32
  cp_block1_more :: u8
  cp_block1_size :: u16
  cp_block1_offset :: u32
  cp_size2 :: u32
  cp_size1 :: u32
  cp_uri_query_len :: nat
  cp_uri_query :: ptr
  cp_if_none_match :: u8
  cp_payload_len :: u16
  cp_payload :: ptr

definition zero_packet :: coap_packet where
  "zero_packet = \<lparr>cp_buffer = NULL, cp_version = 0, cp_type = 0, cp_code = 0, cp_mid = 0, cp_token_len = 0,
     cp_token = replicate COAP_TOKEN_LEN 0, cp_options = replicate 8 0, cp_content_format = 0, cp_max_age = 0,
     cp_etag_len = 0, cp_etag = replicate COAP_ETAG_LEN 0, cp_proxy_uri_len = 0, cp_proxy_uri = NULL,
     cp_proxy_scheme_len = 0, cp_proxy_scheme = NULL, cp_uri_host_len = 0, cp_uri_host = NULL,
     cp_location_path_len = 0, cp_location_path = NULL, cp_uri_port = 0, cp_location_query_len = 0,
     cp_location_query = NULL, cp_uri_path_len = 0, cp_uri_path = NULL, cp_observe = 0, cp_accept = 0,
     cp_if_match_len = 0, cp_if_match = replicate COAP_ETAG_LEN 0, cp_block2_num = 0, cp_block2_more = 0,
     cp_block2_size = 0, cp_block2_offset = 0, cp_block1_num = 0, cp_block1_more = 0, cp_block1_size = 0,
     cp_block1_offset = 0, cp_size2 = 0, cp_size1 = 0, cp_uri_query_len = 0, cp_uri_query = NULL,
     cp_if_none_match = 0, cp_payload_len = 0, cp_payload = NULL\<rparr>"

text \<open>
  The map of the options that are set has one bit for each number below 64. An update beyond it is out of the
  bounds of the array; whoever sets an option of arbitrary number asks \<open>in_option_map\<close> first.
\<close>

definition in_option_map :: "coap_packet \<Rightarrow> nat \<Rightarrow> bool" where
  "in_option_map pkt opt \<longleftrightarrow> opt div OPTION_MAP_SIZE < length (cp_options pkt)"

definition SET_OPTION :: "nat \<Rightarrow> coap_packet \<Rightarrow> coap_packet" where
  "SET_OPTION opt pkt =
     (let i = opt div OPTION_MAP_SIZE
      in pkt\<lparr>cp_options := (cp_options pkt)[i := cp_options pkt ! i OR push_bit (opt mod OPTION_MAP_SIZE) 1]\<rparr>)"

definition IS_OPTION :: "coap_packet \<Rightarrow> nat \<Rightarrow> bool" where
  "IS_OPTION pkt opt \<longleftrightarrow> cp_options pkt ! (opt div OPTION_MAP_SIZE) AND push_bit (opt mod OPTION_MAP_SIZE) 1 \<noteq> 0"

definition coap_init_message :: "u8 \<Rightarrow> u8 \<Rightarrow> u16 \<Rightarrow> coap_packet" where
  "coap_init_message ty code mid = zero_packet\<lparr>cp_type := ty, cp_code := code, cp_mid := mid\<rparr>"

text \<open>The argument is the global \<open>current_mid\<close>.\<close>

definition coap_get_mid :: "u16 \<Rightarrow> u16 \<times> u16" where
  "coap_get_mid current_mid = (current_mid + 1, current_mid + 1)"

definition coap_set_status_code :: "u32 \<Rightarrow> coap_packet \<Rightarrow> int \<times> coap_packet" where
  "coap_set_status_code code pkt = (if code \<le> 0xff then (1, pkt\<lparr>cp_code := ucast code\<rparr>) else (0, pkt))"

definition coap_set_token :: "mem \<Rightarrow> ptr \<Rightarrow> nat \<Rightarrow> coap_packet \<Rightarrow> (int \<times> coap_packet) option" where
  "coap_set_token m token token_len pkt = do {
     let n = min COAP_TOKEN_LEN token_len;
     bs \<leftarrow> load_list m token n;
     Some (int n, pkt\<lparr>cp_token_len := of_nat n, cp_token := bs @ drop n (cp_token pkt)\<rparr>)
   }"

subsection \<open>Numeric options\<close>

definition coap_get_header_content_format :: "coap_packet \<Rightarrow> int \<times> u32 option" where
  "coap_get_header_content_format pkt =
     (if \<not> IS_OPTION pkt COAP_OPTION_CONTENT_FORMAT then (0, None) else (1, Some (ucast (cp_content_format pkt))))"

definition coap_set_header_content_format :: "u32 \<Rightarrow> coap_packet \<Rightarrow> int \<times> coap_packet" where
  "coap_set_header_content_format v pkt = (1, SET_OPTION COAP_OPTION_CONTENT_FORMAT (pkt\<lparr>cp_content_format := ucast v\<rparr>))"

definition coap_get_header_accept :: "coap_packet \<Rightarrow> int \<times> u32 option" where
  "coap_get_header_accept pkt =
     (if \<not> IS_OPTION pkt COAP_OPTION_ACCEPT then (0, None) else (1, Some (ucast (cp_accept pkt))))"

definition coap_set_header_accept :: "u32 \<Rightarrow> coap_packet \<Rightarrow> int \<times> coap_packet" where
  "coap_set_header_accept v pkt = (1, SET_OPTION COAP_OPTION_ACCEPT (pkt\<lparr>cp_accept := ucast v\<rparr>))"

definition coap_get_header_max_age :: "coap_packet \<Rightarrow> int \<times> u32 option" where
  "coap_get_header_max_age pkt =
     (if \<not> IS_OPTION pkt COAP_OPTION_MAX_AGE then (1, Some COAP_DEFAULT_MAX_AGE) else (1, Some (cp_max_age pkt)))"

definition coap_set_header_max_age :: "u32 \<Rightarrow> coap_packet \<Rightarrow> int \<times> coap_packet" where
  "coap_set_header_max_age v pkt = (1, SET_OPTION COAP_OPTION_MAX_AGE (pkt\<lparr>cp_max_age := v\<rparr>))"

definition coap_get_header_observe :: "coap_packet \<Rightarrow> int \<times> u32 option" where
  "coap_get_header_observe pkt =
     (if \<not> IS_OPTION pkt COAP_OPTION_OBSERVE then (0, None) else (1, Some (cp_observe pkt)))"

definition coap_set_header_observe :: "u32 \<Rightarrow> coap_packet \<Rightarrow> int \<times> coap_packet" where
  "coap_set_header_observe v pkt = (1, SET_OPTION COAP_OPTION_OBSERVE (pkt\<lparr>cp_observe := v\<rparr>))"

definition coap_get_header_size2 :: "coap_packet \<Rightarrow> int \<times> u32 option" where
  "coap_get_header_size2 pkt =
     (if \<not> IS_OPTION pkt COAP_OPTION_SIZE2 then (0, None) else (1, Some (cp_size2 pkt)))"

definition coap_set_header_size2 :: "u32 \<Rightarrow> coap_packet \<Rightarrow> int \<times> coap_packet" where
  "coap_set_header_size2 v pkt = (1, SET_OPTION COAP_OPTION_SIZE2 (pkt\<lparr>cp_size2 := v\<rparr>))"

definition coap_get_header_size1 :: "coap_packet \<Rightarrow> int \<times> u32 option" where
  "coap_get_header_size1 pkt =
     (if \<not> IS_OPTION pkt COAP_OPTION_SIZE1 then (0, None) else (1, Some (cp_size1 pkt)))"

definition coap_set_header_size1 :: "u32 \<Rightarrow> coap_packet \<Rightarrow> int \<times> coap_packet" where
  "coap_set_header_size1 v pkt = (1, SET_OPTION COAP_OPTION_SIZE1 (pkt\<lparr>cp_size1 := v\<rparr>))"

definition coap_get_header_if_none_match :: "coap_packet \<Rightarrow> int" where
  "coap_get_header_if_none_match pkt = (if IS_OPTION pkt COAP_OPTION_IF_NONE_MATCH then 1 else 0)"

definition coap_set_header_if_none_match :: "coap_packet \<Rightarrow> int \<times> coap_packet" where
  "coap_set_header_if_none_match pkt = (1, SET_OPTION COAP_OPTION_IF_NONE_MATCH pkt)"

subsection \<open>Entity tags\<close>

definition coap_get_header_etag :: "coap_packet \<Rightarrow> int \<times> u8 list option" where
  "coap_get_header_etag pkt =
     (if \<not> IS_OPTION pkt COAP_OPTION_ETAG then (0, None) else (uint (cp_etag_len pkt), Some (cp_etag pkt)))"

definition coap_set_header_etag :: "mem \<Rightarrow> ptr \<Rightarrow> nat \<Rightarrow> coap_packet \<Rightarrow> (int \<times> coap_packet) option" where
  "coap_set_header_etag m etag etag_len pkt = do {
     let n = min COAP_ETAG_LEN etag_len;
     bs \<leftarrow> load_list m etag n;
     Some (int n, SET_OPTION COAP_OPTION_ETAG (pkt\<lparr>cp_etag_len := of_nat n, cp_etag := bs @ drop n (cp_etag pkt)\<rparr>))
   }"

definition coap_get_header_if_match :: "coap_packet \<Rightarrow> int \<times> u8 list option" where
  "coap_get_header_if_match pkt =
     (if \<not> IS_OPTION pkt COAP_OPTION_IF_MATCH then (0, None) else (uint (cp_if_match_len pkt), Some (cp_if_match pkt)))"

definition coap_set_header_if_match :: "mem \<Rightarrow> ptr \<Rightarrow> nat \<Rightarrow> coap_packet \<Rightarrow> (int \<times> coap_packet) option" where
  "coap_set_header_if_match m etag etag_len pkt = do {
     let n = min COAP_ETAG_LEN etag_len;
     bs \<leftarrow> load_list m etag n;
     Some (int n, SET_OPTION COAP_OPTION_IF_MATCH (pkt\<lparr>cp_if_match_len := of_nat n, cp_if_match := bs @ drop n (cp_if_match pkt)\<rparr>))
   }"

subsection \<open>Strings\<close>

text \<open>Skipping leading separators.\<close>

partial_function (option) skip_char :: "mem \<Rightarrow> u8 \<Rightarrow> ptr \<Rightarrow> ptr option" where
  "skip_char m ch p = do { c \<leftarrow> m p; if c = ch then skip_char m ch (Suc p) else Some p }"

declare skip_char.simps [simp del]

definition slash :: u8 where "slash = 0x2f"
definition question :: u8 where "question = 0x3f"
definition ampersand :: u8 where "ampersand = 0x26"
definition equals :: u8 where "equals = 0x3d"

definition coap_get_header_proxy_uri :: "coap_packet \<Rightarrow> int \<times> ptr option" where
  "coap_get_header_proxy_uri pkt =
     (if \<not> IS_OPTION pkt COAP_OPTION_PROXY_URI then (0, None) else (int (cp_proxy_uri_len pkt), Some (cp_proxy_uri pkt)))"

definition coap_set_header_proxy_uri :: "mem \<Rightarrow> ptr \<Rightarrow> coap_packet \<Rightarrow> (int \<times> coap_packet) option" where
  "coap_set_header_proxy_uri m s pkt = do {
     n \<leftarrow> strlen m s;
     Some (int n, SET_OPTION COAP_OPTION_PROXY_URI (pkt\<lparr>cp_proxy_uri := s, cp_proxy_uri_len := n\<rparr>))
   }"

definition coap_get_header_uri_host :: "coap_packet \<Rightarrow> int \<times> ptr option" where
  "coap_get_header_uri_host pkt =
     (if \<not> IS_OPTION pkt COAP_OPTION_URI_HOST then (0, None) else (int (cp_uri_host_len pkt), Some (cp_uri_host pkt)))"

definition coap_set_header_uri_host :: "mem \<Rightarrow> ptr \<Rightarrow> coap_packet \<Rightarrow> (int \<times> coap_packet) option" where
  "coap_set_header_uri_host m s pkt = do {
     n \<leftarrow> strlen m s;
     Some (int n, SET_OPTION COAP_OPTION_URI_HOST (pkt\<lparr>cp_uri_host := s, cp_uri_host_len := n\<rparr>))
   }"

definition coap_get_header_uri_path :: "coap_packet \<Rightarrow> int \<times> ptr option" where
  "coap_get_header_uri_path pkt =
     (if \<not> IS_OPTION pkt COAP_OPTION_URI_PATH then (0, None) else (int (cp_uri_path_len pkt), Some (cp_uri_path pkt)))"

definition coap_set_header_uri_path :: "mem \<Rightarrow> ptr \<Rightarrow> coap_packet \<Rightarrow> (int \<times> coap_packet) option" where
  "coap_set_header_uri_path m s pkt = do {
     s \<leftarrow> skip_char m slash s;
     n \<leftarrow> strlen m s;
     Some (int n, SET_OPTION COAP_OPTION_URI_PATH (pkt\<lparr>cp_uri_path := s, cp_uri_path_len := n\<rparr>))
   }"

definition coap_get_header_uri_query :: "coap_packet \<Rightarrow> int \<times> ptr option" where
  "coap_get_header_uri_query pkt =
     (if \<not> IS_OPTION pkt COAP_OPTION_URI_QUERY then (0, None) else (int (cp_uri_query_len pkt), Some (cp_uri_query pkt)))"

definition coap_set_header_uri_query :: "mem \<Rightarrow> ptr \<Rightarrow> coap_packet \<Rightarrow> (int \<times> coap_packet) option" where
  "coap_set_header_uri_query m s pkt = do {
     s \<leftarrow> skip_char m question s;
     n \<leftarrow> strlen m s;
     Some (int n, SET_OPTION COAP_OPTION_URI_QUERY (pkt\<lparr>cp_uri_query := s, cp_uri_query_len := n\<rparr>))
   }"

definition coap_get_header_location_query :: "coap_packet \<Rightarrow> int \<times> ptr option" where
  "coap_get_header_location_query pkt =
     (if \<not> IS_OPTION pkt COAP_OPTION_LOCATION_QUERY then (0, None) else (int (cp_location_query_len pkt), Some (cp_location_query pkt)))"

definition coap_set_header_location_query :: "mem \<Rightarrow> ptr \<Rightarrow> coap_packet \<Rightarrow> (int \<times> coap_packet) option" where
  "coap_set_header_location_query m s pkt = do {
     s \<leftarrow> skip_char m question s;
     n \<leftarrow> strlen m s;
     Some (int n, SET_OPTION COAP_OPTION_LOCATION_QUERY (pkt\<lparr>cp_location_query := s, cp_location_query_len := n\<rparr>))
   }"

definition coap_get_header_location_path :: "coap_packet \<Rightarrow> int \<times> ptr option" where
  "coap_get_header_location_path pkt =
     (if \<not> IS_OPTION pkt COAP_OPTION_LOCATION_PATH then (0, None) else (int (cp_location_path_len pkt), Some (cp_location_path pkt)))"

definition coap_set_header_location_path :: "mem \<Rightarrow> ptr \<Rightarrow> coap_packet \<Rightarrow> (int \<times> coap_packet) option" where
  "coap_set_header_location_path m path pkt = do {
     path \<leftarrow> skip_char m slash path;
     query \<leftarrow> strchr m path question;
     pkt \<leftarrow> (if query \<noteq> NULL then do {
              (_, pkt) \<leftarrow> coap_set_header_location_query m (query + 1) pkt;
              Some (pkt\<lparr>cp_location_path_len := query - path\<rparr>)
            } else do {
              n \<leftarrow> strlen m path;
              Some (pkt\<lparr>cp_location_path_len := n\<rparr>)
            });
     let pkt = pkt\<lparr>cp_location_path := path\<rparr>;
     let pkt = (if cp_location_path_len pkt > 0 then SET_OPTION COAP_OPTION_LOCATION_PATH pkt else pkt);
     Some (int (cp_location_path_len pkt), pkt)
   }"

subsection \<open>Block options\<close>

text \<open>The outputs are the number, the more flag, the size and the offset; a caller may leave some of them out.\<close>

definition coap_get_header_block2 :: "coap_packet \<Rightarrow> int \<times> (u32 \<times> u8 \<times> u16 \<times> u32) option" where
  "coap_get_header_block2 pkt =
     (if \<not> IS_OPTION pkt COAP_OPTION_BLOCK2 then (0, None)
      else (1, Some (cp_block2_num pkt, cp_block2_more pkt, cp_block2_size pkt, cp_block2_offset pkt)))"

definition coap_set_header_block2 :: "u32 \<Rightarrow> u8 \<Rightarrow> u16 \<Rightarrow> coap_packet \<Rightarrow> int \<times> coap_packet" where
  "coap_set_header_block2 num mr sz pkt =
     (if sz < 16 then (0, pkt)
      else if sz > 2048 then (0, pkt)
      else if num > 0x0fffff then (0, pkt)
      else (1, SET_OPTION COAP_OPTION_BLOCK2
        (pkt\<lparr>cp_block2_num := num, cp_block2_more := (if mr \<noteq> 0 then 1 else 0), cp_block2_size := sz\<rparr>)))"

definition coap_get_header_block1 :: "coap_packet \<Rightarrow> int \<times> (u32 \<times> u8 \<times> u16 \<times> u32) option" where
  "coap_get_header_block1 pkt =
     (if \<not> IS_OPTION pkt COAP_OPTION_BLOCK1 then (0, None)
      else (1, Some (cp_block1_num pkt, cp_block1_more pkt, cp_block1_size pkt, cp_block1_offset pkt)))"

definition coap_set_header_block1 :: "u32 \<Rightarrow> u8 \<Rightarrow> u16 \<Rightarrow> coap_packet \<Rightarrow> int \<times> coap_packet" where
  "coap_set_header_block1 num mr sz pkt =
     (if sz < 16 then (0, pkt)
      else if sz > 2048 then (0, pkt)
      else if num > 0x0fffff then (0, pkt)
      else (1, SET_OPTION COAP_OPTION_BLOCK1
        (pkt\<lparr>cp_block1_num := num, cp_block1_more := mr, cp_block1_size := sz\<rparr>)))"

subsection \<open>Payload and variables\<close>

definition coap_get_payload :: "coap_packet \<Rightarrow> int \<times> ptr" where
  "coap_get_payload pkt = (if cp_payload pkt \<noteq> NULL then (uint (cp_payload_len pkt), cp_payload pkt) else (0, NULL))"

definition coap_set_payload :: "ptr \<Rightarrow> nat \<Rightarrow> coap_packet \<Rightarrow> int \<times> coap_packet" where
  "coap_set_payload payload len pkt =
     (let n = min REST_MAX_CHUNK_SIZE len in (int n, pkt\<lparr>cp_payload := payload, cp_payload_len := of_nat n\<rparr>))"

text \<open>The search for a variable from \<open>start\<close> on; the result is the length of the value and where it starts.\<close>

function variable_loop :: "mem \<Rightarrow> ptr \<Rightarrow> ptr \<Rightarrow> ptr \<Rightarrow> nat \<Rightarrow> ptr \<Rightarrow> (int \<times> ptr) option" where
  "variable_loop m buffer end name name_len start =
     (if start + name_len < end then do {
        at_start \<leftarrow> (if start = buffer then Some True else do { c \<leftarrow> m (start - 1); Some (c = ampersand) });
        eq \<leftarrow> (if at_start then do { c \<leftarrow> m (start + name_len); Some (c = equals) } else Some False);
        found \<leftarrow> (if eq then strncmp_eq m name start name_len else Some False);
        if found then do {
          let start = start + name_len + 1;
          value_end \<leftarrow> memchr m start ampersand (end - start);
          Some (int (if value_end = NULL then end else value_end) - int start, start)
        } else variable_loop m buffer end name name_len (Suc start)
      } else Some (0, NULL))"
  by pat_completeness auto
termination by (relation "measure (\<lambda>(m, buffer, end, name, name_len, start). end - start)") auto

declare variable_loop.simps [simp del]

definition coap_get_variable :: "mem \<Rightarrow> ptr \<Rightarrow> nat \<Rightarrow> ptr \<Rightarrow> (int \<times> ptr) option" where
  "coap_get_variable m buffer len name = do {
     name_len \<leftarrow> strlen m name;
     variable_loop m buffer (buffer + len) name name_len buffer
   }"

text \<open>The output of these two is left alone when there is nothing to search.\<close>

definition coap_get_query_variable :: "mem \<Rightarrow> ptr \<Rightarrow> coap_packet \<Rightarrow> (int \<times> ptr option) option" where
  "coap_get_query_variable m name pkt =
     (if IS_OPTION pkt COAP_OPTION_URI_QUERY then do {
        (n, out) \<leftarrow> coap_get_variable m (cp_uri_query pkt) (cp_uri_query_len pkt) name;
        Some (n, Some out)
      } else Some (0, None))"

definition coap_get_post_variable :: "mem \<Rightarrow> ptr \<Rightarrow> coap_packet \<Rightarrow> (int \<times> ptr option) option" where
  "coap_get_post_variable m name pkt =
     (if cp_payload_len pkt \<noteq> 0 then do {
        (n, out) \<leftarrow> coap_get_variable m (cp_payload pkt) (unat (cp_payload_len pkt)) name;
        Some (n, Some out)
      } else Some (0, None))"

subsection \<open>The option map\<close>

definition packet_ok :: "coap_packet \<Rightarrow> bool" where
  "packet_ok pkt \<longleftrightarrow> length (cp_options pkt) = 8 \<and> length (cp_token pkt) = 8 \<and> length (cp_etag pkt) = 8 \<and> length (cp_if_match pkt) = 8"

lemma zero_packet_ok: "packet_ok zero_packet"
  by (simp add: packet_ok_def zero_packet_def COAP_TOKEN_LEN_def COAP_ETAG_LEN_def)

lemma IS_OPTION_bit: "IS_OPTION pkt opt \<longleftrightarrow> bit (cp_options pkt ! (opt div 8)) (opt mod 8)"
  by (simp add: IS_OPTION_def OPTION_MAP_SIZE_def bit_iff_and_push_bit_not_eq_0)

lemma IS_OPTION_SET:
  assumes "length (cp_options pkt) = 8" and "opt < 64" and "opt' < 64"
  shows "IS_OPTION (SET_OPTION opt pkt) opt' \<longleftrightarrow> opt' = opt \<or> IS_OPTION pkt opt'"
proof -
  have i: "opt div 8 < 8" "opt' div 8 < 8" using assms(2,3) by linarith+
  have b: "bit (w OR 2 ^ (opt mod 8) :: u8) (opt' mod 8) \<longleftrightarrow> bit w (opt' mod 8) \<or> opt' mod 8 = opt mod 8" for w
    by (auto simp: bit_or_iff bit_exp_iff)
  show ?thesis
  proof (cases "opt' div 8 = opt div 8")
    case True
    then have "opt' mod 8 = opt mod 8 \<longleftrightarrow> opt' = opt" by (metis div_mult_mod_eq)
    then show ?thesis using True i assms(1)
      by (simp add: IS_OPTION_bit SET_OPTION_def Let_def OPTION_MAP_SIZE_def b) blast
  next
    case False
    then show ?thesis using i assms(1)
      by (auto simp: IS_OPTION_bit SET_OPTION_def Let_def OPTION_MAP_SIZE_def)
  qed
qed

lemma zero_packet_options: "opt < 64 \<Longrightarrow> \<not> IS_OPTION zero_packet opt"
  by (simp add: IS_OPTION_bit zero_packet_def nth_replicate less_mult_imp_div_less)

lemma SET_OPTION_fields [simp]:
  "cp_content_format (SET_OPTION n p) = cp_content_format p" "cp_accept (SET_OPTION n p) = cp_accept p"
  "cp_max_age (SET_OPTION n p) = cp_max_age p" "cp_observe (SET_OPTION n p) = cp_observe p"
  "cp_size2 (SET_OPTION n p) = cp_size2 p" "cp_size1 (SET_OPTION n p) = cp_size1 p"
  "cp_block2_num (SET_OPTION n p) = cp_block2_num p" "cp_block2_more (SET_OPTION n p) = cp_block2_more p"
  "cp_block2_size (SET_OPTION n p) = cp_block2_size p" "cp_block2_offset (SET_OPTION n p) = cp_block2_offset p"
  "cp_block1_num (SET_OPTION n p) = cp_block1_num p" "cp_block1_more (SET_OPTION n p) = cp_block1_more p"
  "cp_block1_size (SET_OPTION n p) = cp_block1_size p" "cp_block1_offset (SET_OPTION n p) = cp_block1_offset p"
  "cp_etag (SET_OPTION n p) = cp_etag p" "cp_etag_len (SET_OPTION n p) = cp_etag_len p"
  "cp_if_match (SET_OPTION n p) = cp_if_match p" "cp_if_match_len (SET_OPTION n p) = cp_if_match_len p"
  "cp_uri_path (SET_OPTION n p) = cp_uri_path p" "cp_uri_path_len (SET_OPTION n p) = cp_uri_path_len p"
  "cp_uri_query (SET_OPTION n p) = cp_uri_query p" "cp_uri_query_len (SET_OPTION n p) = cp_uri_query_len p"
  "cp_location_path (SET_OPTION n p) = cp_location_path p" "cp_location_path_len (SET_OPTION n p) = cp_location_path_len p"
  "cp_location_query (SET_OPTION n p) = cp_location_query p" "cp_location_query_len (SET_OPTION n p) = cp_location_query_len p"
  "cp_token (SET_OPTION n p) = cp_token p" "cp_token_len (SET_OPTION n p) = cp_token_len p"
  "cp_payload (SET_OPTION n p) = cp_payload p" "cp_payload_len (SET_OPTION n p) = cp_payload_len p"
  "length (cp_options (SET_OPTION n p)) = length (cp_options p)"
  by (simp_all add: SET_OPTION_def Let_def)

text \<open>
  Each numeric option reads back as it was set, formats cut to their 16 bits; block options are refused out of
  their ranges; Max-Age has its default while it is not set. Setting an option sets its own bit in the map and
  changes no other one.
\<close>

theorem coap_options_get_set:
  assumes "packet_ok p"
  shows "coap_get_header_content_format (snd (coap_set_header_content_format v p)) = (1, Some (ucast (ucast v :: u16))) \<and>
    coap_get_header_accept (snd (coap_set_header_accept v p)) = (1, Some (ucast (ucast v :: u16))) \<and>
    coap_get_header_max_age (snd (coap_set_header_max_age v p)) = (1, Some v) \<and>
    (\<not> IS_OPTION p COAP_OPTION_MAX_AGE \<longrightarrow> coap_get_header_max_age p = (1, Some 60)) \<and>
    coap_get_header_observe (snd (coap_set_header_observe v p)) = (1, Some v) \<and>
    coap_get_header_size2 (snd (coap_set_header_size2 v p)) = (1, Some v) \<and>
    coap_get_header_size1 (snd (coap_set_header_size1 v p)) = (1, Some v) \<and>
    coap_get_header_if_none_match (snd (coap_set_header_if_none_match p)) = 1 \<and>
    (16 \<le> sz \<and> sz \<le> 2048 \<and> v \<le> 0xfffff \<longrightarrow>
      coap_get_header_block2 (snd (coap_set_header_block2 v mr sz p)) = (1, Some (v, if mr \<noteq> 0 then 1 else 0, sz, cp_block2_offset p)) \<and>
      coap_get_header_block1 (snd (coap_set_header_block1 v mr sz p)) = (1, Some (v, mr, sz, cp_block1_offset p))) \<and>
    (\<not> (16 \<le> sz \<and> sz \<le> 2048 \<and> v \<le> 0xfffff) \<longrightarrow>
      coap_set_header_block2 v mr sz p = (0, p) \<and> coap_set_header_block1 v mr sz p = (0, p)) \<and>
    (\<forall>n < 64. \<forall>k < 64. IS_OPTION (SET_OPTION n p) k \<longleftrightarrow> k = n \<or> IS_OPTION p k)"
proof -
  have len: "length (cp_options p) = 8" using assms by (simp add: packet_ok_def)
  have self: "IS_OPTION (SET_OPTION n q) n" if "length (cp_options q) = 8" "n < 64" for n and q :: coap_packet
    using IS_OPTION_SET [OF that that(2)] by simp
  have "coap_get_header_content_format (snd (coap_set_header_content_format v p)) = (1, Some (ucast (ucast v :: u16)))"
    "coap_get_header_accept (snd (coap_set_header_accept v p)) = (1, Some (ucast (ucast v :: u16)))"
    using len by (simp_all add: coap_get_header_content_format_def coap_set_header_content_format_def
        coap_get_header_accept_def coap_set_header_accept_def coap_numbers self)
  moreover have "coap_get_header_max_age (snd (coap_set_header_max_age v p)) = (1, Some v)"
    "\<not> IS_OPTION p COAP_OPTION_MAX_AGE \<longrightarrow> coap_get_header_max_age p = (1, Some 60)"
    using len by (simp_all add: coap_get_header_max_age_def coap_set_header_max_age_def coap_numbers self COAP_DEFAULT_MAX_AGE_def)
  moreover have "coap_get_header_observe (snd (coap_set_header_observe v p)) = (1, Some v)"
    "coap_get_header_size2 (snd (coap_set_header_size2 v p)) = (1, Some v)"
    "coap_get_header_size1 (snd (coap_set_header_size1 v p)) = (1, Some v)"
    "coap_get_header_if_none_match (snd (coap_set_header_if_none_match p)) = 1"
    using len by (simp_all add: coap_get_header_observe_def coap_set_header_observe_def coap_get_header_size2_def
        coap_set_header_size2_def coap_get_header_size1_def coap_set_header_size1_def coap_get_header_if_none_match_def
        coap_set_header_if_none_match_def coap_numbers self)
  moreover have "16 \<le> sz \<and> sz \<le> 2048 \<and> v \<le> 0xfffff \<longrightarrow>
      coap_get_header_block2 (snd (coap_set_header_block2 v mr sz p)) = (1, Some (v, if mr \<noteq> 0 then 1 else 0, sz, cp_block2_offset p)) \<and>
      coap_get_header_block1 (snd (coap_set_header_block1 v mr sz p)) = (1, Some (v, mr, sz, cp_block1_offset p))"
    using len by (simp add: coap_get_header_block2_def coap_set_header_block2_def coap_get_header_block1_def
        coap_set_header_block1_def coap_numbers self leD)
  moreover have "\<not> (16 \<le> sz \<and> sz \<le> 2048 \<and> v \<le> 0xfffff) \<longrightarrow>
      coap_set_header_block2 v mr sz p = (0, p) \<and> coap_set_header_block1 v mr sz p = (0, p)"
    by (simp add: coap_set_header_block2_def coap_set_header_block1_def not_le)
  ultimately show ?thesis using IS_OPTION_SET [OF len] by (intro conjI) blast+
qed

theorem coap_options_get_set_witness:
  "coap_get_header_observe (snd (coap_set_header_observe 7 zero_packet)) = (1, Some 7) \<and>
    coap_set_header_block2 0x100000 0 64 zero_packet = (0, zero_packet)"
proof -
  have "coap_get_header_observe (snd (coap_set_header_observe 7 zero_packet)) = (1, Some 7)"
    using coap_options_get_set [OF zero_packet_ok, where v = 7] by blast
  moreover have "\<not> (16 \<le> (64 :: u16) \<and> (64 :: u16) \<le> 2048 \<and> (0x100000 :: u32) \<le> 0xfffff)" by simp
  then have "coap_set_header_block2 0x100000 0 64 zero_packet = (0, zero_packet)"
    using coap_options_get_set [OF zero_packet_ok, where v = "0x100000" and sz = 64 and mr = 0] by blast
  ultimately show ?thesis by blast
qed

subsection \<open>String options\<close>

lemma skip_char_cstring:
  "cstring m p (replicate k ch @ s) \<Longrightarrow> s = [] \<or> hd s \<noteq> ch \<Longrightarrow> ch \<noteq> 0 \<Longrightarrow> skip_char m ch p = Some (p + k)"
proof (induction k arbitrary: p)
  case 0
  then show ?case by (cases s) (auto simp: cstring_Nil cstring_Cons skip_char.simps)
next
  case (Suc k)
  then show ?case by (simp add: cstring_Cons skip_char.simps [of m ch p])
qed

lemma location_query_set:
  assumes "cstring m p s" and "s = [] \<or> hd s \<noteq> question"
  shows "coap_set_header_location_query m p pkt = Some (int (length s),
    SET_OPTION COAP_OPTION_LOCATION_QUERY (pkt\<lparr>cp_location_query := p, cp_location_query_len := length s\<rparr>))"
  using skip_char_cstring [of m p 0 question s] strlen_cstring [OF assms(1)] assms
  by (simp add: coap_set_header_location_query_def question_def)

text \<open>
  A location is split at the first question mark: what is before becomes the path, without the leading slashes,
  what is after becomes the query; without a question mark the whole is the path and the query is left alone. The
  option of the path is set when the path is not empty.
\<close>

theorem coap_location_path_splits:
  assumes "packet_ok p" and "a \<noteq> NULL" and "question \<notin> set path" and "path = [] \<or> hd path \<noteq> slash"
    and "query = [] \<or> hd query \<noteq> question" and "q = a + k"
  shows "(cstring m a (replicate k slash @ path) \<longrightarrow>
      (\<exists>p'. coap_set_header_location_path m a p = Some (int (length path), p') \<and>
        cp_location_path p' = q \<and> cp_location_path_len p' = length path \<and> cp_location_query p' = cp_location_query p \<and>
        (\<forall>n < 64. IS_OPTION p' n \<longleftrightarrow> IS_OPTION p n \<or> n = COAP_OPTION_LOCATION_PATH \<and> path \<noteq> []))) \<and>
    (cstring m a (replicate k slash @ path @ question # query) \<longrightarrow>
      (\<exists>p'. coap_set_header_location_path m a p = Some (int (length path), p') \<and>
        cp_location_path p' = q \<and> cp_location_path_len p' = length path \<and>
        cp_location_query p' = q + length path + 1 \<and> cp_location_query_len p' = length query \<and>
        (\<forall>n < 64. IS_OPTION p' n \<longleftrightarrow> IS_OPTION p n \<or> n = COAP_OPTION_LOCATION_QUERY \<or>
          n = COAP_OPTION_LOCATION_PATH \<and> path \<noteq> [])))"
proof -
  have len: "length (cp_options p) = 8" using assms(1) by (simp add: packet_ok_def)
  have nz: "question \<noteq> 0" "slash \<noteq> 0" "question \<noteq> slash" by (simp_all add: question_def slash_def)
  have opt: "IS_OPTION (x\<lparr>cp_location_path_len := n, cp_location_path := b\<rparr>) = IS_OPTION x"
    "IS_OPTION (x\<lparr>cp_location_path_len := n\<rparr>) = IS_OPTION x"
    "IS_OPTION (x\<lparr>cp_location_query := b, cp_location_query_len := n\<rparr>) = IS_OPTION x" for x :: coap_packet and n b
    by (auto simp: IS_OPTION_def)
  have one: "\<exists>p'. coap_set_header_location_path m a p = Some (int (length path), p') \<and>
        cp_location_path p' = q \<and> cp_location_path_len p' = length path \<and> cp_location_query p' = cp_location_query p \<and>
        (\<forall>n < 64. IS_OPTION p' n \<longleftrightarrow> IS_OPTION p n \<or> n = COAP_OPTION_LOCATION_PATH \<and> path \<noteq> [])"
    if c: "cstring m a (replicate k slash @ path)"
  proof -
    have s: "skip_char m slash a = Some q" using skip_char_cstring [OF c assms(4) nz(2)] assms(6) by simp
    have d: "cstring m q path" using cstring_drop [OF c, of k] assms(6) by simp
    show ?thesis
      using s strchr_cstring [OF d nz(1)] strlen_cstring [OF d] assms(3) len
      by (auto simp: coap_set_header_location_path_def Let_def opt IS_OPTION_SET coap_numbers)
  qed
  have two: "\<exists>p'. coap_set_header_location_path m a p = Some (int (length path), p') \<and>
        cp_location_path p' = q \<and> cp_location_path_len p' = length path \<and>
        cp_location_query p' = q + length path + 1 \<and> cp_location_query_len p' = length query \<and>
        (\<forall>n < 64. IS_OPTION p' n \<longleftrightarrow> IS_OPTION p n \<or> n = COAP_OPTION_LOCATION_QUERY \<or>
          n = COAP_OPTION_LOCATION_PATH \<and> path \<noteq> [])"
    if c: "cstring m a (replicate k slash @ path @ question # query)"
  proof -
    have h: "path @ question # query = [] \<or> hd (path @ question # query) \<noteq> slash" using assms(4) nz(3) by (cases path) auto
    have s: "skip_char m slash a = Some q" using skip_char_cstring [OF c h nz(2)] assms(6) by simp
    have d: "cstring m q (path @ question # query)" using cstring_drop [OF c, of k] assms(6) by simp
    have "cstring m (q + (length path + 1)) query" using cstring_drop [OF d, of "length path + 1"] by simp
    note lq = location_query_set [OF this assms(5)]
    have "takeWhile (\<lambda>c. c \<noteq> question) (path @ question # query) = path"
      using assms(3) by (induction path) auto
    then have sc: "strchr m q question = Some (q + length path)" using strchr_cstring [OF d nz(1)] by simp
    have "q + length path \<noteq> NULL" using assms(2,6) by simp
    then show ?thesis
      using s sc lq len
      by (auto simp: coap_set_header_location_path_def Let_def opt IS_OPTION_SET coap_numbers add.assoc)
  qed
  show ?thesis using one two by blast
qed

theorem coap_location_path_splits_witness:
  "\<exists>p'. coap_set_header_location_path (mem_of 100 ([slash, 0x61, question, 0x78])) 100 zero_packet = Some (1, p') \<and>
    cp_location_path p' = 101 \<and> cp_location_query p' = 103"
proof -
  have "cstring (mem_of 100 [slash, 0x61, question, 0x78]) 100 (replicate 1 slash @ [0x61] @ question # [0x78])"
    using cstring_mem_of [of "[slash, 0x61, question, 0x78]" 100] by (simp add: slash_def question_def)
  moreover have "question \<notin> set [0x61]" "hd [0x61] \<noteq> slash" "hd [0x78] \<noteq> question" by (simp_all add: slash_def question_def)
  ultimately show ?thesis
    using coap_location_path_splits [OF zero_packet_ok, of 100 "[0x61]" "[0x78]" 101 1
        "mem_of 100 [slash, 0x61, question, 0x78]"] by auto
qed

subsection \<open>Variables of queries and forms\<close>

definition variable_at :: "u8 list \<Rightarrow> u8 list \<Rightarrow> nat \<Rightarrow> bool" where
  "variable_at bs nm i \<longleftrightarrow> (i = 0 \<or> bs ! (i - 1) = ampersand) \<and> bs ! (i + length nm) = equals \<and> take (length nm) (drop i bs) = nm"

lemma variable_loop_correct:
  assumes b: "bytes_at m b bs" and nm: "bytes_at m q nm" "0 \<notin> set nm"
  shows "variable_loop m b (b + length bs) q (length nm) (b + i) =
    Some (case find (variable_at bs nm) [i..<length bs - length nm] of
        None \<Rightarrow> (0, NULL)
      | Some j \<Rightarrow> (int (length (takeWhile (\<lambda>c. c \<noteq> ampersand) (drop (j + length nm + 1) bs))), b + j + length nm + 1))"
proof (induction "length bs - length nm - i" arbitrary: i)
  case 0
  then show ?case by (simp add: variable_loop.simps [of m b _ q _ "b + i"])
next
  case (Suc k)
  let ?n = "length nm"
  have lt: "i + ?n < length bs" using Suc.hyps(2) by simp
  have up: "[i..<length bs - ?n] = i # [Suc i..<length bs - ?n]" using lt by (simp add: upt_conv_Cons)
  have m1: "m (b + i - 1) = Some (bs ! (i - 1))" if "i \<noteq> 0"
  proof -
    have "i - 1 < length bs" using lt by simp
    then have "m (b + (i - 1)) = Some (bs ! (i - 1))" using b unfolding bytes_at_def by blast
    moreover have "b + (i - 1) = b + i - 1" using that by simp
    ultimately show ?thesis by simp
  qed
  have m2: "m (b + i + ?n) = Some (bs ! (i + ?n))" using b lt by (simp add: bytes_at_def add.assoc)
  have sub: "bytes_at m (b + i) (take ?n (drop i bs))" "length (take ?n (drop i bs)) = ?n"
    using bytes_at_take [OF bytes_at_drop [OF b, of i], of ?n] lt by simp_all
  have cmp: "strncmp_eq m q (b + i) ?n = Some (nm = take ?n (drop i bs))"
    using strncmp_bytes [OF nm(1) sub(1) refl sub(2) nm(2)] .
  have cont: "b + length bs - (b + i + ?n + 1) = length (drop (i + ?n + 1) bs)" by simp
  have tail: "bytes_at m (b + i + ?n + 1) (drop (i + ?n + 1) bs)"
    using bytes_at_drop [OF b, of "i + ?n + 1"] lt by (simp add: add.assoc)
  note mc = memchr_bytes [OF tail refl, of ampersand]
  show ?case
  proof (cases "variable_at bs nm i")
    case False
    then have "variable_loop m b (b + length bs) q ?n (b + i) = variable_loop m b (b + length bs) q ?n (b + Suc i)"
      using lt m1 m2 cmp unfolding variable_at_def
      by (auto simp: variable_loop.simps [of m b _ q _ "b + i"])
    also have "\<dots> = Some (case find (variable_at bs nm) [Suc i..<length bs - ?n] of
        None \<Rightarrow> (0, NULL)
      | Some j \<Rightarrow> (int (length (takeWhile (\<lambda>c. c \<noteq> ampersand) (drop (j + ?n + 1) bs))), b + j + ?n + 1))"
      using Suc.hyps(2) by (intro Suc.hyps(1)) simp
    finally show ?thesis using False up by simp
  next
    case True
    let ?d = "drop (i + ?n + 1) bs" and ?v = "takeWhile (\<lambda>c. c \<noteq> ampersand) (drop (i + ?n + 1) bs)"
    have all: "?v = ?d" if "ampersand \<notin> set ?d" using that by (auto simp: takeWhile_eq_all_conv)
    have e: "variable_loop m b (b + length bs) q ?n (b + i) =
        (do { value_end \<leftarrow> memchr m (b + i + ?n + 1) ampersand (b + length bs - (b + i + ?n + 1));
           Some (int (if value_end = NULL then b + length bs else value_end) - int (b + i + ?n + 1), b + i + ?n + 1) })"
      using True lt m1 m2 cmp unfolding variable_at_def
      by (auto simp: variable_loop.simps [of m b _ q _ "b + i"])
    also have "\<dots> = Some (int (length ?v), b + i + ?n + 1)"
    proof (cases "ampersand \<in> set ?d")
      case True then show ?thesis unfolding cont mc by simp
    next
      case False
      have "int (b + length bs) - int (b + i + ?n + 1) = int (length ?d)" using lt by simp
      then show ?thesis unfolding cont mc all [OF False] using False by simp
    qed
    finally show ?thesis using True up by (simp add: Let_def)
  qed
qed

text \<open>
  The value of a variable that is found is that of the first occurrence of its name which stands at the start or
  behind an ampersand and is followed by an equals sign, and reaches to the next ampersand or the end; when there is
  no occurrence, the length is 0 and the output pointer null.
\<close>

theorem coap_variable_first_match:
  assumes "bytes_at m b bs" and "cstring m q nm"
  shows "coap_get_variable m b (length bs) q =
    Some (case find (variable_at bs nm) [0..<length bs - length nm] of
        None \<Rightarrow> (0, NULL)
      | Some j \<Rightarrow> (int (length (takeWhile (\<lambda>c. c \<noteq> ampersand) (drop (j + length nm + 1) bs))), b + j + length nm + 1))"
proof -
  have nm: "bytes_at m q nm" "0 \<notin> set nm" using assms(2) by (simp_all add: cstring_def bytes_at_append)
  show ?thesis
    using variable_loop_correct [OF assms(1) nm, of 0] strlen_cstring [OF assms(2)]
    by (simp add: coap_get_variable_def Let_def)
qed

theorem coap_variable_first_match_witness:
  "coap_get_variable (put (mem_of 300 [0x62]) 100 [0x61, 0x3d, 0x31, 0x26, 0x62, 0x3d, 0x37]) 100 7 300 = Some (1, 106)"
proof -
  let ?bs = "[0x61, 0x3d, 0x31, 0x26, 0x62, 0x3d, 0x37] :: u8 list"
  let ?m = "put (mem_of 300 [0x62]) 100 ?bs"
  have b: "bytes_at ?m 100 ?bs" by (rule bytes_at_put)
  have n: "cstring ?m 300 [0x62]"
    using cstring_mem_of [of "[0x62]" 300] by (simp add: cstring_def bytes_at_put_outside)
  have u: "[0..<length ?bs - length [0x62 :: u8]] = [0, 1, 2, 3, 4, 5]" by (simp add: upt_rec)
  have f: "find (variable_at ?bs [0x62]) [0, 1, 2, 3, 4, 5] = Some 4"
    by (simp add: variable_at_def ampersand_def equals_def nth_Cons')
  have v: "length (takeWhile (\<lambda>c. c \<noteq> ampersand) (drop (4 + length [0x62 :: u8] + 1) ?bs)) = 1"
    by (simp add: ampersand_def)
  have l: "length ?bs = 7" by simp
  show ?thesis
    using coap_variable_first_match [OF b n] unfolding u f option.case v unfolding l by simp
qed

end
