(* ===== verification/Coap_Codec.thy ===== *)
theory Coap_Codec
  imports Coap_Packet
begin

section \<open>CoAP messages: writing and parsing (emb6/src/apl/er-coap/er-coap.c)\<close>

text \<open>
  \<open>coap_serialize_message\<close> and \<open>coap_parse_message\<close> with their helpers, over the byte-addressed memory. The option
  macros of er-coap.h are functions on the running position, option number and memory. Values of type \<open>unsigned int\<close> and
  \<open>size_t\<close> are natural numbers; the option number of the parser wraps at 32 bits.
\<close>

subsection \<open>Helpers\<close>

function log2_loop :: "u16 \<Rightarrow> u16 \<Rightarrow> u16" where
  "log2_loop val result =
     (let val = drop_bit 1 val; result = result + 1
      in if val \<noteq> 0 then log2_loop val result else result)"
  by pat_completeness auto
termination
proof (relation "measure (\<lambda>(val, result). unat val)", simp, goal_cases)
  case (1 val result v r)
  then have "v = val div 2" by (simp add: drop_bit_eq_div)
  then have "unat v = unat val div unat (2 :: u16)" by (simp only: unat_div)
  then have "unat v = unat val div 2" by simp
  moreover have "unat v \<noteq> 0" using 1 by (simp add: unat_eq_0)
  ultimately show ?case by simp
qed

declare log2_loop.simps [simp del]

definition coap_log_2 :: "u16 \<Rightarrow> u16" where
  "coap_log_2 value = (let result = log2_loop value 0 in if result \<noteq> 0 then result - 1 else result)"

fun parse_int_loop :: "mem \<Rightarrow> ptr \<Rightarrow> nat \<Rightarrow> u32 \<Rightarrow> u32 option" where
  "parse_int_loop m p 0 var = Some var"
| "parse_int_loop m p (Suc n) var = do { b \<leftarrow> m p; parse_int_loop m (Suc p) n (push_bit 8 var OR ucast b) }"

definition coap_parse_int_option :: "mem \<Rightarrow> ptr \<Rightarrow> nat \<Rightarrow> u32 option" where
  "coap_parse_int_option m bytes len = parse_int_loop m bytes len 0"

definition coap_option_nibble :: "nat \<Rightarrow> u8" where
  "coap_option_nibble value = (if value < 13 then of_nat value else if value \<le> 0xff + 13 then 13 else 14)"

text \<open>The extension of a delta or a length behind the first byte: the new position and the memory.\<close>

definition write_extension :: "nat \<Rightarrow> mem \<Rightarrow> ptr \<Rightarrow> (ptr \<times> mem) option" where
  "write_extension value m p =
     (if value > 268 then do {
        m \<leftarrow> store m p (of_nat ((value - 269) div 256));
        m \<leftarrow> store m (p + 1) (of_nat (value - 269));
        Some (p + 2, m)
      } else if value > 12 then do {
        m \<leftarrow> store m p (of_nat (value - 13));
        Some (p + 1, m)
      } else Some (p, m))"

definition coap_set_option_header :: "nat \<Rightarrow> nat \<Rightarrow> mem \<Rightarrow> ptr \<Rightarrow> (nat \<times> mem) option" where
  "coap_set_option_header delta len m buffer = do {
     m \<leftarrow> store m buffer (push_bit 4 (coap_option_nibble delta) OR coap_option_nibble len);
     (p, m) \<leftarrow> write_extension delta m (buffer + 1);
     (p, m) \<leftarrow> write_extension len m p;
     Some (p - buffer, m)
   }"

definition coap_serialize_int_option :: "nat \<Rightarrow> nat \<Rightarrow> mem \<Rightarrow> ptr \<Rightarrow> u32 \<Rightarrow> (nat \<times> mem) option" where
  "coap_serialize_int_option number current_number m buffer value = do {
     let i = (if 0xff000000 AND value \<noteq> 0 then 1 else 0);
     let i = (if 0xffff0000 AND value \<noteq> 0 then i + 1 else i);
     let i = (if 0xffffff00 AND value \<noteq> 0 then i + 1 else i);
     let i = (if 0xffffffff AND value \<noteq> 0 then i + 1 else i);
     (i, m) \<leftarrow> coap_set_option_header (number - current_number) i m buffer;
     (i, m) \<leftarrow> (if 0xff000000 AND value \<noteq> 0
       then do { m \<leftarrow> store m (buffer + i) (ucast (drop_bit 24 value)); Some (i + 1, m) } else Some (i, m));
     (i, m) \<leftarrow> (if 0xffff0000 AND value \<noteq> 0
       then do { m \<leftarrow> store m (buffer + i) (ucast (drop_bit 16 value)); Some (i + 1, m) } else Some (i, m));
     (i, m) \<leftarrow> (if 0xffffff00 AND value \<noteq> 0
       then do { m \<leftarrow> store m (buffer + i) (ucast (drop_bit 8 value)); Some (i + 1, m) } else Some (i, m));
     (i, m) \<leftarrow> (if 0xffffffff AND value \<noteq> 0
       then do { m \<leftarrow> store m (buffer + i) (ucast value); Some (i + 1, m) } else Some (i, m));
     Some (i, m)
   }"

text \<open>
  The bytes an option is made of are an array of the packet, or a string in memory, which is read while the memory
  is being written.
\<close>

type_synonym byte_array = "mem \<Rightarrow> nat \<Rightarrow> u8 option"

definition in_memory :: "ptr \<Rightarrow> byte_array" where
  "in_memory p = (\<lambda>m j. m (p + j))"

definition in_packet :: "u8 list \<Rightarrow> byte_array" where
  "in_packet xs = (\<lambda>m j. if j < length xs then Some (xs ! j) else None)"

fun load_array :: "byte_array \<Rightarrow> mem \<Rightarrow> nat \<Rightarrow> nat \<Rightarrow> u8 list option" where
  "load_array a m j 0 = Some []"
| "load_array a m j (Suc n) = do { v \<leftarrow> a m j; vs \<leftarrow> load_array a m (Suc j) n; Some (v # vs) }"

text \<open>One option of a part of the array: header, then the bytes.\<close>

definition serialize_part :: "nat \<Rightarrow> mem \<Rightarrow> ptr \<Rightarrow> byte_array \<Rightarrow> nat \<Rightarrow> nat \<Rightarrow> (nat \<times> mem) option" where
  "serialize_part delta m buffer array part_start temp_length = do {
     (i, m) \<leftarrow> coap_set_option_header delta temp_length m buffer;
     vs \<leftarrow> load_array array m part_start temp_length;
     m \<leftarrow> store_list m (buffer + i) vs;
     Some (i + temp_length, m)
   }"

function split_loop :: "nat \<Rightarrow> nat \<Rightarrow> mem \<Rightarrow> ptr \<Rightarrow> byte_array \<Rightarrow> nat \<Rightarrow> u8 \<Rightarrow> nat \<Rightarrow> nat \<Rightarrow> nat \<Rightarrow> (nat \<times> mem) option" where
  "split_loop number current_number m buffer array len split_char j part_start i =
     (if j \<le> len + 1 then do {
        c \<leftarrow> array m j;
        if c = split_char \<or> j = len then do {
          (w, m) \<leftarrow> serialize_part (number - current_number) m (buffer + i) array part_start (j - part_start);
          split_loop number number m buffer array len split_char (j + 2) (j + 1) (i + w)
        } else split_loop number current_number m buffer array len split_char (j + 1) part_start i
      } else Some (i, m))"
  by pat_completeness auto
termination
  by (relation "measure (\<lambda>(number, current_number, m, buffer, array, len, split_char, j, part_start, i). len + 2 - j)") auto

declare split_loop.simps [simp del]

definition coap_serialize_array_option ::
  "nat \<Rightarrow> nat \<Rightarrow> mem \<Rightarrow> ptr \<Rightarrow> byte_array \<Rightarrow> nat \<Rightarrow> u8 \<Rightarrow> (nat \<times> mem) option" where
  "coap_serialize_array_option number current_number m buffer array len split_char =
     (if split_char \<noteq> 0 then split_loop number current_number m buffer array len split_char 0 0 0
      else serialize_part (number - current_number) m buffer array 0 len)"

text \<open>The new destination, its length and the memory.\<close>

definition coap_merge_multi_option :: "mem \<Rightarrow> ptr \<Rightarrow> nat \<Rightarrow> ptr \<Rightarrow> nat \<Rightarrow> u8 \<Rightarrow> (ptr \<times> nat \<times> mem) option" where
  "coap_merge_multi_option m dst dst_len opt option_len separator =
     (if dst_len > 0 then do {
        m \<leftarrow> store m (dst + dst_len) separator;
        let dst_len = dst_len + 1;
        m \<leftarrow> memmove m (dst + dst_len) opt option_len;
        Some (dst, dst_len + option_len, m)
      } else Some (opt, option_len, m))"

subsection \<open>Writing a message\<close>

definition COAP_HEADER_LEN :: nat where "COAP_HEADER_LEN = 4"
definition COAP_MAX_HEADER_SIZE :: nat where
  "COAP_MAX_HEADER_SIZE = 4 + COAP_TOKEN_LEN + 3 + 1 + COAP_ETAG_LEN + 4 + 4 + 30"

text \<open>The position of the next option, the number of the previous one and the memory.\<close>

type_synonym ser = "ptr \<times> nat \<times> mem"

definition COAP_SERIALIZE_INT_OPTION :: "coap_packet \<Rightarrow> nat \<Rightarrow> u32 \<Rightarrow> ser \<Rightarrow> ser option" where
  "COAP_SERIALIZE_INT_OPTION pkt number value = (\<lambda>(opt, current_number, m).
     if IS_OPTION pkt number then do {
       (w, m) \<leftarrow> coap_serialize_int_option number current_number m opt value;
       Some (opt + w, number, m)
     } else Some (opt, current_number, m))"

definition COAP_SERIALIZE_BYTE_OPTION :: "coap_packet \<Rightarrow> nat \<Rightarrow> u8 list \<Rightarrow> u8 \<Rightarrow> ser \<Rightarrow> ser option" where
  "COAP_SERIALIZE_BYTE_OPTION pkt number field field_len = (\<lambda>(opt, current_number, m).
     if IS_OPTION pkt number then do {
       (w, m) \<leftarrow> coap_serialize_array_option number current_number m opt (in_packet field) (unat field_len) 0;
       Some (opt + w, number, m)
     } else Some (opt, current_number, m))"

definition COAP_SERIALIZE_STRING_OPTION :: "coap_packet \<Rightarrow> nat \<Rightarrow> ptr \<Rightarrow> nat \<Rightarrow> u8 \<Rightarrow> ser \<Rightarrow> ser option" where
  "COAP_SERIALIZE_STRING_OPTION pkt number field field_len splitter = (\<lambda>(opt, current_number, m).
     if IS_OPTION pkt number then do {
       (w, m) \<leftarrow> coap_serialize_array_option number current_number m opt (in_memory field) field_len splitter;
       Some (opt + w, number, m)
     } else Some (opt, current_number, m))"

definition block_value :: "u32 \<Rightarrow> u8 \<Rightarrow> u16 \<Rightarrow> u32" where
  "block_value num mr sz =
     (let block = push_bit 4 num; block = (if mr \<noteq> 0 then block OR 0x8 else block)
      in block OR (0xf AND ucast (coap_log_2 (sz div 16))))"

definition COAP_SERIALIZE_BLOCK_OPTION :: "coap_packet \<Rightarrow> nat \<Rightarrow> u32 \<Rightarrow> u8 \<Rightarrow> u16 \<Rightarrow> ser \<Rightarrow> ser option" where
  "COAP_SERIALIZE_BLOCK_OPTION pkt number num mr sz = (\<lambda>(opt, current_number, m).
     if IS_OPTION pkt number then do {
       (w, m) \<leftarrow> coap_serialize_int_option number current_number m opt (block_value num mr sz);
       Some (opt + w, number, m)
     } else Some (opt, current_number, m))"

definition serialize_options :: "coap_packet \<Rightarrow> ser \<Rightarrow> ser option" where
  "serialize_options p s = do {
     s \<leftarrow> COAP_SERIALIZE_BYTE_OPTION p COAP_OPTION_IF_MATCH (cp_if_match p) (cp_if_match_len p) s;
     s \<leftarrow> COAP_SERIALIZE_STRING_OPTION p COAP_OPTION_URI_HOST (cp_uri_host p) (cp_uri_host_len p) 0 s;
     s \<leftarrow> COAP_SERIALIZE_BYTE_OPTION p COAP_OPTION_ETAG (cp_etag p) (cp_etag_len p) s;
     s \<leftarrow> COAP_SERIALIZE_INT_OPTION p COAP_OPTION_IF_NONE_MATCH (ucast (cp_content_format p - cp_content_format p)) s;
     s \<leftarrow> COAP_SERIALIZE_INT_OPTION p COAP_OPTION_OBSERVE (cp_observe p) s;
     s \<leftarrow> COAP_SERIALIZE_INT_OPTION p COAP_OPTION_URI_PORT (ucast (cp_uri_port p)) s;
     s \<leftarrow> COAP_SERIALIZE_STRING_OPTION p COAP_OPTION_LOCATION_PATH (cp_location_path p) (cp_location_path_len p) slash s;
     s \<leftarrow> COAP_SERIALIZE_STRING_OPTION p COAP_OPTION_URI_PATH (cp_uri_path p) (cp_uri_path_len p) slash s;
     s \<leftarrow> COAP_SERIALIZE_INT_OPTION p COAP_OPTION_CONTENT_FORMAT (ucast (cp_content_format p)) s;
     s \<leftarrow> COAP_SERIALIZE_INT_OPTION p COAP_OPTION_MAX_AGE (cp_max_age p) s;
     s \<leftarrow> COAP_SERIALIZE_STRING_OPTION p COAP_OPTION_URI_QUERY (cp_uri_query p) (cp_uri_query_len p) ampersand s;
     s \<leftarrow> COAP_SERIALIZE_INT_OPTION p COAP_OPTION_ACCEPT (ucast (cp_accept p)) s;
     s \<leftarrow> COAP_SERIALIZE_STRING_OPTION p COAP_OPTION_LOCATION_QUERY (cp_location_query p) (cp_location_query_len p) ampersand s;
     s \<leftarrow> COAP_SERIALIZE_BLOCK_OPTION p COAP_OPTION_BLOCK2 (cp_block2_num p) (cp_block2_more p) (cp_block2_size p) s;
     s \<leftarrow> COAP_SERIALIZE_BLOCK_OPTION p COAP_OPTION_BLOCK1 (cp_block1_num p) (cp_block1_more p) (cp_block1_size p) s;
     s \<leftarrow> COAP_SERIALIZE_INT_OPTION p COAP_OPTION_SIZE2 (cp_size2 p) s;
     s \<leftarrow> COAP_SERIALIZE_STRING_OPTION p COAP_OPTION_PROXY_URI (cp_proxy_uri p) (cp_proxy_uri_len p) 0 s;
     s \<leftarrow> COAP_SERIALIZE_STRING_OPTION p COAP_OPTION_PROXY_SCHEME (cp_proxy_scheme p) (cp_proxy_scheme_len p) 0 s;
     COAP_SERIALIZE_INT_OPTION p COAP_OPTION_SIZE1 (cp_size1 p) s
   }"

definition header_byte :: "coap_packet \<Rightarrow> u8" where
  "header_byte p = (0xc0 AND push_bit 6 (cp_version p)) OR (0x30 AND push_bit 4 (cp_type p)) OR (0x0f AND cp_token_len p)"

text \<open>The length of the message, 0 when its header is too long, the packet and the memory.\<close>

definition coap_serialize_message :: "coap_packet \<Rightarrow> ptr \<Rightarrow> mem \<Rightarrow> (nat \<times> coap_packet \<times> mem) option" where
  "coap_serialize_message pkt buffer m = do {
     let p = pkt\<lparr>cp_buffer := buffer, cp_version := 1\<rparr>;
     m \<leftarrow> store m buffer (header_byte p);
     m \<leftarrow> store m (buffer + 1) (cp_code p);
     m \<leftarrow> store m (buffer + 2) (ucast (drop_bit 8 (cp_mid p)));
     m \<leftarrow> store m (buffer + 3) (ucast (cp_mid p));
     if cp_code p = 0 then Some (4, p, m)
     else do {
       token \<leftarrow> load_array (in_packet (cp_token p)) m 0 (unat (cp_token_len p));
       m \<leftarrow> store_list m (buffer + COAP_HEADER_LEN) token;
       (opt, _, m) \<leftarrow> serialize_options p (buffer + COAP_HEADER_LEN + unat (cp_token_len p), 0, m);
       if opt - buffer \<le> COAP_MAX_HEADER_SIZE then do {
         (opt, m) \<leftarrow> (if cp_payload_len p \<noteq> 0 then do { m \<leftarrow> store m opt 0xff; Some (opt + 1, m) } else Some (opt, m));
         m \<leftarrow> memmove m opt (cp_payload p) (unat (cp_payload_len p));
         Some (opt - buffer + unat (cp_payload_len p), p, m)
       } else Some (0, p\<lparr>cp_buffer := NULL\<rparr>, m)
     }
   }"

subsection \<open>Parsing a message\<close>

datatype coap_status =
    NO_ERROR | CREATED_2_01 | DELETED_2_02 | VALID_2_03 | CHANGED_2_04 | CONTENT_2_05 | CONTINUE_2_31
  | BAD_REQUEST_4_00 | UNAUTHORIZED_4_01 | BAD_OPTION_4_02 | FORBIDDEN_4_03 | NOT_FOUND_4_04
  | METHOD_NOT_ALLOWED_4_05 | NOT_ACCEPTABLE_4_06 | PRECONDITION_FAILED_4_12 | REQUEST_ENTITY_TOO_LARGE_4_13
  | UNSUPPORTED_MEDIA_TYPE_4_15 | INTERNAL_SERVER_ERROR_5_00 | NOT_IMPLEMENTED_5_01 | BAD_GATEWAY_5_02
  | SERVICE_UNAVAILABLE_5_03 | GATEWAY_TIMEOUT_5_04 | PROXYING_NOT_SUPPORTED_5_05 | MEMORY_ALLOCATION_ERROR
  | PACKET_SERIALIZATION_ERROR | MANUAL_RESPONSE | PING_RESPONSE

text \<open>The code of a status, as it is sent.\<close>

fun status_code :: "coap_status \<Rightarrow> u8" where
  "status_code NO_ERROR = 0"
| "status_code CREATED_2_01 = 65"
| "status_code DELETED_2_02 = 66"
| "status_code VALID_2_03 = 67"
| "status_code CHANGED_2_04 = 68"
| "status_code CONTENT_2_05 = 69"
| "status_code CONTINUE_2_31 = 95"
| "status_code BAD_REQUEST_4_00 = 128"
| "status_code UNAUTHORIZED_4_01 = 129"
| "status_code BAD_OPTION_4_02 = 130"
| "status_code FORBIDDEN_4_03 = 131"
| "status_code NOT_FOUND_4_04 = 132"
| "status_code METHOD_NOT_ALLOWED_4_05 = 133"
| "status_code NOT_ACCEPTABLE_4_06 = 134"
| "status_code PRECONDITION_FAILED_4_12 = 140"
| "status_code REQUEST_ENTITY_TOO_LARGE_4_13 = 141"
| "status_code UNSUPPORTED_MEDIA_TYPE_4_15 = 143"
| "status_code INTERNAL_SERVER_ERROR_5_00 = 160"
| "status_code NOT_IMPLEMENTED_5_01 = 161"
| "status_code BAD_GATEWAY_5_02 = 162"
| "status_code SERVICE_UNAVAILABLE_5_03 = 163"
| "status_code GATEWAY_TIMEOUT_5_04 = 164"
| "status_code PROXYING_NOT_SUPPORTED_5_05 = 165"
| "status_code MEMORY_ALLOCATION_ERROR = 192"
| "status_code PACKET_SERIALIZATION_ERROR = 193"
| "status_code MANUAL_RESPONSE = 194"
| "status_code PING_RESPONSE = 195"

text \<open>
  The parser ends with a status, or writes to the option map beyond its end because of an option number it received,
  which is an outcome of its own.
\<close>

datatype parse_outcome = Parsed coap_status coap_packet mem | Option_map_overflow nat

text \<open>The value of a delta or length field and the position behind its extension.\<close>

definition read_extension :: "mem \<Rightarrow> nat \<Rightarrow> ptr \<Rightarrow> (nat \<times> ptr) option" where
  "read_extension m value p =
     (if value = 13 then do { b \<leftarrow> m p; Some (value + unat b, p + 1) }
      else if value = 14 then do {
        b1 \<leftarrow> m p;
        b0 \<leftarrow> m (p + 1);
        Some (value + 255 + unat b1 * 256 + unat b0, p + 2)
      } else Some (value, p))"

definition block_more_of :: "u32 \<Rightarrow> u8" where
  "block_more_of num = ucast (drop_bit 3 (num AND 0x8))"

definition block_size_of :: "u32 \<Rightarrow> u16" where
  "block_size_of num = push_bit (unat (num AND 0x7)) 16"

definition block_offset_of :: "u32 \<Rightarrow> u32" where
  "block_offset_of num = push_bit (unat (num AND 0x7)) (num AND 0xfffffff0)"

datatype option_result = Next coap_packet mem | Stop coap_status coap_packet

definition parse_option :: "mem \<Rightarrow> nat \<Rightarrow> ptr \<Rightarrow> nat \<Rightarrow> coap_packet \<Rightarrow> option_result option" where
  "parse_option m number p len pkt =
     (if number = COAP_OPTION_CONTENT_FORMAT then do {
        v \<leftarrow> coap_parse_int_option m p len; Some (Next (pkt\<lparr>cp_content_format := ucast v\<rparr>) m)
      } else if number = COAP_OPTION_MAX_AGE then do {
        v \<leftarrow> coap_parse_int_option m p len; Some (Next (pkt\<lparr>cp_max_age := v\<rparr>) m)
      } else if number = COAP_OPTION_ETAG then do {
        let n = min COAP_ETAG_LEN len;
        vs \<leftarrow> load_list m p n; Some (Next (pkt\<lparr>cp_etag_len := of_nat n, cp_etag := vs @ drop n (cp_etag pkt)\<rparr>) m)
      } else if number = COAP_OPTION_ACCEPT then do {
        v \<leftarrow> coap_parse_int_option m p len; Some (Next (pkt\<lparr>cp_accept := ucast v\<rparr>) m)
      } else if number = COAP_OPTION_IF_MATCH then do {
        let n = min COAP_ETAG_LEN len;
        vs \<leftarrow> load_list m p n; Some (Next (pkt\<lparr>cp_if_match_len := of_nat n, cp_if_match := vs @ drop n (cp_if_match pkt)\<rparr>) m)
      } else if number = COAP_OPTION_IF_NONE_MATCH then Some (Next (pkt\<lparr>cp_if_none_match := 1\<rparr>) m)
      else if number = COAP_OPTION_PROXY_URI then Some (Stop PROXYING_NOT_SUPPORTED_5_05 pkt)
      else if number = COAP_OPTION_PROXY_SCHEME then Some (Stop PROXYING_NOT_SUPPORTED_5_05 pkt)
      else if number = COAP_OPTION_URI_HOST then Some (Next (pkt\<lparr>cp_uri_host := p, cp_uri_host_len := len\<rparr>) m)
      else if number = COAP_OPTION_URI_PORT then do {
        v \<leftarrow> coap_parse_int_option m p len; Some (Next (pkt\<lparr>cp_uri_port := ucast v\<rparr>) m)
      } else if number = COAP_OPTION_URI_PATH then do {
        (d, n, m) \<leftarrow> coap_merge_multi_option m (cp_uri_path pkt) (cp_uri_path_len pkt) p len slash;
        Some (Next (pkt\<lparr>cp_uri_path := d, cp_uri_path_len := n\<rparr>) m)
      } else if number = COAP_OPTION_URI_QUERY then do {
        (d, n, m) \<leftarrow> coap_merge_multi_option m (cp_uri_query pkt) (cp_uri_query_len pkt) p len ampersand;
        Some (Next (pkt\<lparr>cp_uri_query := d, cp_uri_query_len := n\<rparr>) m)
      } else if number = COAP_OPTION_LOCATION_PATH then do {
        (d, n, m) \<leftarrow> coap_merge_multi_option m (cp_location_path pkt) (cp_location_path_len pkt) p len slash;
        Some (Next (pkt\<lparr>cp_location_path := d, cp_location_path_len := n\<rparr>) m)
      } else if number = COAP_OPTION_LOCATION_QUERY then do {
        (d, n, m) \<leftarrow> coap_merge_multi_option m (cp_location_query pkt) (cp_location_query_len pkt) p len ampersand;
        Some (Next (pkt\<lparr>cp_location_query := d, cp_location_query_len := n\<rparr>) m)
      } else if number = COAP_OPTION_OBSERVE then do {
        v \<leftarrow> coap_parse_int_option m p len; Some (Next (pkt\<lparr>cp_observe := v\<rparr>) m)
      } else if number = COAP_OPTION_BLOCK2 then do {
        v \<leftarrow> coap_parse_int_option m p len;
        Some (Next (pkt\<lparr>cp_block2_num := drop_bit 4 v, cp_block2_more := block_more_of v,
          cp_block2_size := block_size_of v, cp_block2_offset := block_offset_of v\<rparr>) m)
      } else if number = COAP_OPTION_BLOCK1 then do {
        v \<leftarrow> coap_parse_int_option m p len;
        Some (Next (pkt\<lparr>cp_block1_num := drop_bit 4 v, cp_block1_more := block_more_of v,
          cp_block1_size := block_size_of v, cp_block1_offset := block_offset_of v\<rparr>) m)
      } else if number = COAP_OPTION_SIZE2 then do {
        v \<leftarrow> coap_parse_int_option m p len; Some (Next (pkt\<lparr>cp_size2 := v\<rparr>) m)
      } else if number = COAP_OPTION_SIZE1 then do {
        v \<leftarrow> coap_parse_int_option m p len; Some (Next (pkt\<lparr>cp_size1 := v\<rparr>) m)
      } else if odd number then Some (Stop BAD_OPTION_4_02 pkt)
      else Some (Next pkt m))"

definition parse_payload :: "mem \<Rightarrow> ptr \<Rightarrow> u16 \<Rightarrow> ptr \<Rightarrow> coap_packet \<Rightarrow> parse_outcome option" where
  "parse_payload m data data_len current pkt = do {
     let p = current + 1;
     let n = data_len - of_nat (p - data);
     let n = (if unat n > REST_MAX_CHUNK_SIZE then of_nat REST_MAX_CHUNK_SIZE else n);
     m \<leftarrow> store m (p + unat n) 0;
     Some (Parsed NO_ERROR (pkt\<lparr>cp_payload := p, cp_payload_len := n\<rparr>) m)
   }"

definition option_header :: "mem \<Rightarrow> ptr \<Rightarrow> u8 \<Rightarrow> (nat \<times> nat \<times> ptr) option" where
  "option_header m p b = do {
     (delta, p) \<leftarrow> read_extension m (unat (drop_bit 4 b)) p;
     (len, p) \<leftarrow> read_extension m (unat (b AND 0x0f)) p;
     Some (delta, len, p)
   }"

lemma read_extension_ge: "read_extension m v p = Some (w, q) \<Longrightarrow> p \<le> q \<and> q \<le> p + 2"
  by (auto simp: read_extension_def split: if_splits Option.bind_splits)

lemma option_header_ge: "option_header m p b = Some (d, l, q) \<Longrightarrow> p \<le> q \<and> q \<le> p + 4"
  by (auto simp: option_header_def split: Option.bind_splits dest!: read_extension_ge)

function parse_loop :: "mem \<Rightarrow> ptr \<Rightarrow> u16 \<Rightarrow> ptr \<Rightarrow> nat \<Rightarrow> coap_packet \<Rightarrow> parse_outcome option" where
  "parse_loop m data data_len current option_number pkt =
     (if current < data + unat data_len then do {
        b \<leftarrow> m current;
        if b AND 0xf0 = 0xf0 then parse_payload m data data_len current pkt
        else do {
          (delta, len, p) \<leftarrow> option_header m (current + 1) b;
          let option_number = (option_number + delta) mod 2 ^ 32;
          if \<not> in_option_map pkt option_number then Some (Option_map_overflow option_number)
          else do {
            r \<leftarrow> parse_option m option_number p len (SET_OPTION option_number pkt);
            case r of
              Stop status pkt \<Rightarrow> Some (Parsed status pkt m)
            | Next pkt m \<Rightarrow> parse_loop m data data_len (p + len) option_number pkt
          }
        }
      } else Some (Parsed NO_ERROR pkt m))"
  by pat_completeness auto
termination
  by (relation "measure (\<lambda>(m, data, data_len, current, option_number, pkt). data + unat data_len - current)")
    (auto dest!: option_header_ge)

declare parse_loop.simps [simp del]

definition coap_parse_message :: "mem \<Rightarrow> ptr \<Rightarrow> u16 \<Rightarrow> parse_outcome option" where
  "coap_parse_message m data data_len = do {
     b0 \<leftarrow> m data;
     b1 \<leftarrow> m (data + 1);
     b2 \<leftarrow> m (data + 2);
     b3 \<leftarrow> m (data + 3);
     let pkt = zero_packet\<lparr>cp_buffer := data, cp_version := drop_bit 6 (0xc0 AND b0), cp_type := drop_bit 4 (0x30 AND b0),
       cp_token_len := 0x0f AND b0, cp_code := b1, cp_mid := push_bit 8 (ucast b2) OR ucast b3\<rparr>;
     if cp_version pkt \<noteq> 1 then Some (Parsed BAD_REQUEST_4_00 pkt m)
     else if unat (cp_token_len pkt) > COAP_TOKEN_LEN then Some (Parsed BAD_REQUEST_4_00 pkt m)
     else do {
       let current = data + COAP_HEADER_LEN;
       let n = unat (cp_token_len pkt);
       token \<leftarrow> load_list m current n;
       let pkt = pkt\<lparr>cp_token := token @ drop n (cp_token pkt), cp_options := replicate 8 0\<rparr>;
       parse_loop m data data_len (current + n) 0 pkt
     }
   }"

subsection \<open>Option headers\<close>

text \<open>The bytes of an extension and of an option header.\<close>

definition ext :: "nat \<Rightarrow> u8 list" where
  "ext v = (if v > 268 then [of_nat ((v - 269) div 256), of_nat (v - 269)] else if v > 12 then [of_nat (v - 13)] else [])"

definition hdr :: "nat \<Rightarrow> nat \<Rightarrow> u8 list" where
  "hdr delta len = (push_bit 4 (coap_option_nibble delta) OR coap_option_nibble len) # ext delta @ ext len"

lemma write_extension_put:
  "accessible m p (length (ext v)) \<Longrightarrow> write_extension v m p = Some (p + length (ext v), put m p (ext v))"
  by (auto simp: write_extension_def ext_def accessible_Suc store_def put_Cons split: if_splits)

lemma coap_set_option_header_put:
  assumes "accessible m p (length (hdr d l))"
  shows "coap_set_option_header d l m p = Some (length (hdr d l), put m p (hdr d l))"
proof -
  let ?b = "push_bit 4 (coap_option_nibble d) OR coap_option_nibble l"
  have h: "length (hdr d l) = Suc (length (ext d) + length (ext l))" by (simp add: hdr_def)
  have a: "m p \<noteq> None" "accessible m (p + 1) (length (ext d))" "accessible m (p + 1 + length (ext d)) (length (ext l))"
    using assms unfolding h accessible_Suc accessible_add by simp_all
  have s: "store m p ?b = Some (m(p \<mapsto> ?b))" using a(1) by (simp add: store_def)
  have "accessible (m(p \<mapsto> ?b)) (p + 1) (length (ext d))" using a(2) by (auto simp: accessible_def)
  note e1 = write_extension_put [OF this]
  have "accessible (put (m(p \<mapsto> ?b)) (p + 1) (ext d)) (p + 1 + length (ext d)) (length (ext l))"
    using a(2,3) by (auto simp: accessible_def put_def)
  note e2 = write_extension_put [OF this]
  have "put m p (hdr d l) = put (put (m(p \<mapsto> ?b)) (p + 1) (ext d)) (p + 1 + length (ext d)) (ext l)"
    by (simp add: hdr_def put_Cons put_append)
  then show ?thesis using s e1 e2 h by (simp add: coap_set_option_header_def)
qed

lemma unat_nibble: "unat (coap_option_nibble v) = (if v < 13 then v else if v \<le> 268 then 13 else 14)"
  by (simp add: coap_option_nibble_def unat_of_nat)

lemma unat_of_nat_u8: "k < 256 \<Longrightarrow> unat (of_nat k :: u8) = k"
  by (simp add: unat_of_nat)

lemma read_extension_ext:
  assumes "v \<le> 65804" and "bytes_at m p (ext v)"
  shows "read_extension m (unat (coap_option_nibble v)) p = Some (v, p + length (ext v))"
proof -
  consider "v < 13" | "13 \<le> v" "v \<le> 268" | "268 < v" by linarith
  then show ?thesis
  proof cases
    case 1
    then show ?thesis by (simp add: read_extension_def unat_nibble ext_def)
  next
    case 2
    then have "m p = Some (of_nat (v - 13))" using assms(2) by (simp add: ext_def bytes_at_Cons)
    moreover have "unat (of_nat (v - 13) :: u8) = v - 13" using 2 by (intro unat_of_nat_u8) simp
    ultimately show ?thesis using 2 by (simp add: read_extension_def unat_nibble ext_def)
  next
    case 3
    then have "m p = Some (of_nat ((v - 269) div 256))" "m (p + 1) = Some (of_nat (v - 269))"
      using assms(2) by (simp_all add: ext_def bytes_at_Cons)
    moreover have "unat (of_nat ((v - 269) div 256) :: u8) = (v - 269) div 256" using assms(1) by (simp add: unat_of_nat)
    moreover have "unat (of_nat (v - 269) :: u8) = (v - 269) mod 256" by (simp add: unat_of_nat)
    moreover have "269 + ((v - 269) div 256 * 256 + (v - 269) mod 256) = v" using 3 by (simp only: div_mult_mod_eq)
    ultimately show ?thesis using 3 by (simp add: read_extension_def unat_nibble ext_def)
  qed
qed

lemma nibble_or:
  fixes a b :: u8
  assumes "unat a < 16" and "unat b < 16"
  shows "drop_bit 4 (push_bit 4 a OR b) = a" and "(push_bit 4 a OR b) AND 0x0f = b"
    and "(push_bit 4 a OR b) AND 0xf0 = 0xf0 \<longleftrightarrow> a = 15"
proof -
  have m: "(0x0f :: u8) = mask 4" "(0xf0 :: u8) = push_bit 4 (mask 4)" "(15 :: u8) = mask 4" by (simp_all add: mask_eq_exp_minus_1)
  have s: "\<not> bit w n" if "unat w < 16" "4 \<le> n" for w :: u8 and n
  proof -
    have "take_bit 4 w = w" using that(1) by (simp add: take_bit_eq_mod word_unat_eq_iff unat_mod)
    then show ?thesis using that(2) by (metis bit_take_bit_iff not_less)
  qed
  note nb = s [OF assms(1)] s [OF assms(2)]
  have nb4: "bit a n \<Longrightarrow> n < 4" "bit b n \<Longrightarrow> n < 4" for n using nb [of n] by (auto simp: not_le [symmetric])
  show "drop_bit 4 (push_bit 4 a OR b) = a"
    by (rule bit_word_eqI) (use nb in \<open>auto simp: bit_drop_bit_eq bit_or_iff bit_push_bit_iff dest: nb4\<close>)
  show "(push_bit 4 a OR b) AND 0x0f = b"
    unfolding m(1) by (rule bit_word_eqI) (use nb in \<open>auto simp: bit_and_iff bit_mask_iff bit_or_iff bit_push_bit_iff not_less dest: nb4\<close>)
  have e: "(push_bit 4 a OR b) AND 0xf0 = push_bit 4 a"
    unfolding m(2) by (rule bit_word_eqI) (auto simp: bit_and_iff bit_mask_iff bit_or_iff bit_push_bit_iff not_less dest: nb4)
  have "push_bit 4 a = push_bit 4 (mask 4) \<longleftrightarrow> a = mask 4"
  proof
    assume "push_bit 4 a = push_bit 4 (mask 4)"
    then have "drop_bit 4 (push_bit 4 a) = drop_bit 4 (push_bit 4 (mask 4 :: u8))" by simp
    moreover have "drop_bit 4 (push_bit 4 w) = w" if "\<And>n. 4 \<le> n \<Longrightarrow> \<not> bit w n" for w :: u8
      by (rule bit_word_eqI) (use that in \<open>auto simp: bit_drop_bit_eq bit_push_bit_iff not_less [symmetric]\<close>)
    ultimately show "a = mask 4" using nb(1) by (simp add: bit_mask_iff)
  qed simp
  then show "(push_bit 4 a OR b) AND 0xf0 = 0xf0 \<longleftrightarrow> a = 15" unfolding e unfolding m(2,3) .
qed

lemma option_header_hdr:
  assumes "d \<le> 65804" and "l \<le> 65804" and "bytes_at m p (hdr d l)"
  shows "\<exists>b. m p = Some b \<and> b AND 0xf0 \<noteq> 0xf0 \<and> option_header m (p + 1) b = Some (d, l, p + length (hdr d l))"
proof -
  let ?b = "push_bit 4 (coap_option_nibble d) OR coap_option_nibble l"
  have small: "unat (coap_option_nibble v) < 16" for v by (simp add: unat_nibble)
  have "coap_option_nibble d \<noteq> 15" by (simp add: word_unat_eq_iff unat_nibble)
  note n = nibble_or [OF small small, of d l] this
  have b: "m p = Some ?b" "bytes_at m (p + 1) (ext d)" "bytes_at m (p + 1 + length (ext d)) (ext l)"
    using assms(3) by (simp_all add: hdr_def bytes_at_Cons bytes_at_append)
  show ?thesis
    using b(1) n read_extension_ext [OF assms(1) b(2)] read_extension_ext [OF assms(2) b(3)]
    by (intro exI [of _ ?b]) (simp add: option_header_def hdr_def)
qed

text \<open>
  The header of an option, as it is written, is what the parser reads: for every difference of numbers and every
  length up to 65804 it recognises an option, not the payload marker, and finds the same difference and length and the
  byte behind the header.
\<close>

theorem option_header_roundtrip:
  assumes "d \<le> 65804" and "l \<le> 65804" and "accessible m p 5"
  shows "\<exists>n m' b. coap_set_option_header d l m p = Some (n, m') \<and> 1 \<le> n \<and> n \<le> 5 \<and>
    m' p = Some b \<and> b AND 0xf0 \<noteq> 0xf0 \<and> option_header m' (p + 1) b = Some (d, l, p + n) \<and>
    (\<forall>q. q < p \<or> p + n \<le> q \<longrightarrow> m' q = m q)"
proof -
  have n: "1 \<le> length (hdr d l)" "length (hdr d l) \<le> 5" by (simp_all add: hdr_def ext_def)
  then have "accessible m p (length (hdr d l))" using assms(3) by (intro accessible_mono [OF assms(3)]) simp_all
  from coap_set_option_header_put [OF this] option_header_hdr [OF assms(1,2) bytes_at_put, of m p] n
  show ?thesis by (auto simp: put_outside)
qed

theorem option_header_roundtrip_witness:
  "\<exists>n m' b. coap_set_option_header 11 300 (mem_of 100 []) 100 = Some (n, m') \<and> m' 100 = Some b \<and>
    option_header m' 101 b = Some (11, 300, 100 + n)"
proof -
  have "(100 :: nat) + 1 = 101" by simp
  then show ?thesis using option_header_roundtrip [of 11 300 "mem_of 100 []" 100] accessible_mem_of by fastforce
qed

end
