(* ===== verification/Coap_Encode.thy ===== *)
theory Coap_Encode
  imports Coap_Codec
begin

section \<open>What the CoAP serializer writes\<close>

text \<open>
  \<open>coap_serialize_message\<close> as an encoder: the bytes it stores are the encoding of the list of options of the packet,
  where a path or a query is one option for each of its segments. The lemmas of this theory carry the theorem on
  messages that are written and then parsed.
\<close>

subsection \<open>Encoded options\<close>

fun enc :: "nat \<Rightarrow> (nat \<times> u8 list) list \<Rightarrow> u8 list" where
  "enc cur [] = []"
| "enc cur ((n, bs) # os) = hdr (n - cur) (length bs) @ bs @ enc n os"

definition last_number :: "nat \<Rightarrow> (nat \<times> u8 list) list \<Rightarrow> nat" where
  "last_number cur os = (if os = [] then cur else fst (last os))"

lemma last_number_simps [simp]:
  "last_number cur [] = cur" "last_number cur ((n, bs) # os) = last_number n os" "last_number cur (os @ [(n, bs)]) = n"
  by (simp_all add: last_number_def)

lemma enc_append: "enc cur (xs @ ys) = enc cur xs @ enc (last_number cur xs) ys"
  by (induction cur xs rule: enc.induct) simp_all

lemma last_number_append: "last_number cur (xs @ ys) = last_number (last_number cur xs) ys"
  by (simp add: last_number_def)

lemma last_number_group: "segs \<noteq> [] \<Longrightarrow> last_number cur (map (Pair n) segs) = n"
  by (simp add: last_number_def last_map)

subsection \<open>Integers\<close>

definition int_bytes :: "u32 \<Rightarrow> u8 list" where
  "int_bytes v =
     (if 0xff000000 AND v \<noteq> 0 then [ucast (drop_bit 24 v), ucast (drop_bit 16 v), ucast (drop_bit 8 v), ucast v]
      else if 0xffff0000 AND v \<noteq> 0 then [ucast (drop_bit 16 v), ucast (drop_bit 8 v), ucast v]
      else if 0xffffff00 AND v \<noteq> 0 then [ucast (drop_bit 8 v), ucast v]
      else if v \<noteq> 0 then [ucast v] else [])"

definition be_int :: "u8 list \<Rightarrow> u32" where
  "be_int bs = foldl (\<lambda>v b. push_bit 8 v OR ucast b) 0 bs"

lemma high_mask:
  "(0xff000000 AND v \<noteq> 0) \<longleftrightarrow> (\<exists>n. 24 \<le> n \<and> bit v n)" "(0xffff0000 AND v \<noteq> 0) \<longleftrightarrow> (\<exists>n. 16 \<le> n \<and> bit v n)"
  "(0xffffff00 AND v \<noteq> 0) \<longleftrightarrow> (\<exists>n. 8 \<le> n \<and> bit v n)" for v :: u32
proof -
  have k: "(push_bit k (mask (32 - k)) AND v \<noteq> 0) \<longleftrightarrow> (\<exists>n. k \<le> n \<and> bit v n)" for k
  proof -
    have "bit (push_bit k (mask (32 - k)) AND v) n \<longleftrightarrow> k \<le> n \<and> bit v n" for n
      by (auto simp: bit_and_iff bit_push_bit_iff bit_mask_iff dest: bit_imp_le_length)
    then show ?thesis by (metis bit_eq_iff bit_0_eq bot_apply bot_bool_def)
  qed
  show "(0xff000000 AND v \<noteq> 0) \<longleftrightarrow> (\<exists>n. 24 \<le> n \<and> bit v n)" using k [of 24] by (simp add: mask_eq_exp_minus_1)
  show "(0xffff0000 AND v \<noteq> 0) \<longleftrightarrow> (\<exists>n. 16 \<le> n \<and> bit v n)" using k [of 16] by (simp add: mask_eq_exp_minus_1)
  show "(0xffffff00 AND v \<noteq> 0) \<longleftrightarrow> (\<exists>n. 8 \<le> n \<and> bit v n)" using k [of 8] by (simp add: mask_eq_exp_minus_1)
qed

lemma bit_join_byte:
  "bit (push_bit 8 w OR ucast b :: u32) n \<longleftrightarrow> (if n < 8 then bit b n else n < 32 \<and> bit w (n - 8))" for b :: u8
  by (auto simp: bit_or_iff bit_push_bit_iff bit_ucast_iff dest: bit_imp_le_length)

lemma bit_cut_byte: "bit (ucast (drop_bit k v) :: u8) n \<longleftrightarrow> n < 8 \<and> bit v (k + n)" for v :: u32
  by (auto simp: bit_ucast_iff bit_drop_bit_eq)

lemma be_int_int_bytes: "be_int (int_bytes v) = v"
proof -
  have b: "bit v n \<Longrightarrow> n < 32" for n using bit_imp_le_length [of v n] by simp
  let ?c = "\<lambda>k. ucast (drop_bit k v) :: u8"
  let ?j = "\<lambda>w b. push_bit 8 w OR ucast (b :: u8) :: u32"
  have z: "\<not> bit v n" if "\<not> (\<exists>n. k \<le> n \<and> bit v n)" "k \<le> n" for n k using that by blast
  have y: "n < k" if "\<not> (\<exists>n. k \<le> n \<and> bit v n)" "bit v n" for n k using that not_le by blast
  have w: "x = v" if "\<And>n. n < 32 \<Longrightarrow> bit x n = bit v n" for x using that by (intro bit_word_eqI) simp
  have e0: "v = 0" if "\<not> (\<exists>n. 0 \<le> n \<and> bit v n)" by (rule w [symmetric]) (use that in simp)
  have e1: "?j 0 (?c 0) = v" if "\<not> (\<exists>n. 8 \<le> n \<and> bit v n)"
  proof (rule w)
    fix n
    show "n < 32 \<Longrightarrow> bit (?j 0 (?c 0)) n = bit v n" using y [OF that, of n]
      by (cases "n < 8"; cases "n < 16"; cases "n < 24"; auto simp: bit_or_iff bit_push_bit_iff bit_ucast_iff bit_drop_bit_eq)
  qed
  have e2: "?j (?j 0 (?c 8)) (?c 0) = v" if "\<not> (\<exists>n. 16 \<le> n \<and> bit v n)"
  proof (rule w)
    fix n
    show "n < 32 \<Longrightarrow> bit (?j (?j 0 (?c 8)) (?c 0)) n = bit v n" using y [OF that, of n]
      by (cases "n < 8"; cases "n < 16"; cases "n < 24"; auto simp: bit_or_iff bit_push_bit_iff bit_ucast_iff bit_drop_bit_eq)
  qed
  have e3: "?j (?j (?j 0 (?c 16)) (?c 8)) (?c 0) = v" if "\<not> (\<exists>n. 24 \<le> n \<and> bit v n)"
  proof (rule w)
    fix n
    show "n < 32 \<Longrightarrow> bit (?j (?j (?j 0 (?c 16)) (?c 8)) (?c 0)) n = bit v n" using y [OF that, of n]
      by (cases "n < 8"; cases "n < 16"; cases "n < 24"; auto simp: bit_or_iff bit_push_bit_iff bit_ucast_iff bit_drop_bit_eq)
  qed
  have e4: "?j (?j (?j (?j 0 (?c 24)) (?c 16)) (?c 8)) (?c 0) = v"
  proof (rule w)
    fix n
    show "n < 32 \<Longrightarrow> bit (?j (?j (?j (?j 0 (?c 24)) (?c 16)) (?c 8)) (?c 0)) n = bit v n"
      by (cases "n < 8"; cases "n < 16"; cases "n < 24"; auto simp: bit_or_iff bit_push_bit_iff bit_ucast_iff bit_drop_bit_eq)
  qed
  have v0: "drop_bit 0 v = v" by simp
  consider "\<exists>n. 24 \<le> n \<and> bit v n" | "\<not> (\<exists>n. 24 \<le> n \<and> bit v n)" "\<exists>n. 16 \<le> n \<and> bit v n"
    | "\<not> (\<exists>n. 24 \<le> n \<and> bit v n)" "\<not> (\<exists>n. 16 \<le> n \<and> bit v n)" "\<exists>n. 8 \<le> n \<and> bit v n"
    | "\<not> (\<exists>n. 24 \<le> n \<and> bit v n)" "\<not> (\<exists>n. 16 \<le> n \<and> bit v n)" "\<not> (\<exists>n. 8 \<le> n \<and> bit v n)" by blast
  then show ?thesis
  proof cases
    case 1
    then have "int_bytes v = [?c 24, ?c 16, ?c 8, ?c 0]" unfolding int_bytes_def high_mask v0 by (simp only: if_True if_False)
    then show ?thesis using e4 by (simp add: be_int_def)
  next
    case 2
    then have "int_bytes v = [?c 16, ?c 8, ?c 0]" unfolding int_bytes_def high_mask v0 by (simp only: if_True if_False)
    then show ?thesis using e3 [OF 2(1)] by (simp add: be_int_def)
  next
    case 3
    then have "int_bytes v = [?c 8, ?c 0]" unfolding int_bytes_def high_mask v0 by (simp only: if_True if_False)
    then show ?thesis using e2 [OF 3(2)] by (simp add: be_int_def)
  next
    case 4
    then have "int_bytes v = (if v \<noteq> 0 then [?c 0] else [])" unfolding int_bytes_def high_mask v0 by (simp only: if_True if_False)
    then show ?thesis using e1 [OF 4(3)] by (auto simp: be_int_def)
  qed
qed

subsection \<open>Writing one option\<close>

text \<open>The option macros do not depend on how its value came to be: what they all do is \<open>emit\<close> it.\<close>

definition emit :: "nat \<Rightarrow> nat \<Rightarrow> u8 list \<Rightarrow> mem \<Rightarrow> ptr \<Rightarrow> nat \<times> mem" where
  "emit number cur bs m p = (length (hdr (number - cur) (length bs) @ bs), put m p (hdr (number - cur) (length bs) @ bs))"

lemma length_int_bytes: "length (int_bytes v) \<le> 4"
  by (simp add: int_bytes_def)

lemma coap_serialize_int_option_emit:
  assumes "accessible m p (length (hdr (n - cur) (length (int_bytes v)) @ int_bytes v))"
  shows "coap_serialize_int_option n cur m p v = Some (emit n cur (int_bytes v) m p)"
proof -
  let ?h = "hdr (n - cur) (length (int_bytes v))"
  have a: "accessible m p (length ?h)" "accessible m (p + length ?h) (length (int_bytes v))"
    using assms by (simp_all add: accessible_add)
  note h = coap_set_option_header_put [OF a(1)]
  have "accessible (put m p ?h) (p + length ?h) (length (int_bytes v))" using a by simp
  from store_list_put [OF this] have s: "store_list (put m p ?h) (p + length ?h) (int_bytes v) =
      Some (put m p (?h @ int_bytes v))" by (simp add: put_append)
  have nz: "0xff000000 AND v \<noteq> 0 \<Longrightarrow> 0xffff0000 AND v \<noteq> 0" "0xffff0000 AND v \<noteq> 0 \<Longrightarrow> 0xffffff00 AND v \<noteq> 0"
      "0xffffff00 AND v \<noteq> 0 \<Longrightarrow> v \<noteq> 0"
    by (auto simp only: high_mask bit_0_eq) (metis le_trans numeral_le_iff semiring_norm(69,71,68,72,73) | force)+
  have "(0xffffffff :: u32) = - 1" by simp
  then have one: "0xffffffff AND v = v" by (metis and.left_neutral)
  let ?m = "put m p ?h"
  let ?goal = "coap_serialize_int_option n cur m p v = Some (emit n cur (int_bytes v) m p)"
  note def = coap_serialize_int_option_def emit_def Let_def one
  consider "0xff000000 AND v \<noteq> 0" | "0xff000000 AND v = 0" "0xffff0000 AND v \<noteq> 0"
    | "0xffff0000 AND v = 0" "0xffffff00 AND v \<noteq> 0" | "0xffffff00 AND v = 0" "v \<noteq> 0" | "v = 0" by blast
  then show ?thesis
  proof cases
    case 1
    then have c: "0xff000000 AND v \<noteq> 0" "0xffff0000 AND v \<noteq> 0" "0xffffff00 AND v \<noteq> 0" "v \<noteq> 0" using nz by blast+
    then have "int_bytes v = [ucast (drop_bit 24 v), ucast (drop_bit 16 v), ucast (drop_bit 8 v), ucast v]" by (simp only: int_bytes_def if_True not_False_eq_True)
    with s h show ?thesis by (auto simp: def c bind_eq_Some_conv)
  next
    case 2
    then have c: "0xff000000 AND v = 0" "0xffff0000 AND v \<noteq> 0" "0xffffff00 AND v \<noteq> 0" "v \<noteq> 0" using nz by blast+
    then have "int_bytes v = [ucast (drop_bit 16 v), ucast (drop_bit 8 v), ucast v]" by (simp add: int_bytes_def)
    with s h show ?thesis by (auto simp: def c bind_eq_Some_conv)
  next
    case 3
    then have c: "0xff000000 AND v = 0" "0xffff0000 AND v = 0" "0xffffff00 AND v \<noteq> 0" "v \<noteq> 0" using nz by blast+
    then have "int_bytes v = [ucast (drop_bit 8 v), ucast v]" by (simp add: int_bytes_def)
    with s h show ?thesis by (auto simp: def c bind_eq_Some_conv)
  next
    case 4
    then have c: "0xff000000 AND v = 0" "0xffff0000 AND v = 0" "0xffffff00 AND v = 0" "v \<noteq> 0" using nz by blast+
    then have "int_bytes v = [ucast v]" by (simp add: int_bytes_def)
    with s h show ?thesis by (auto simp: def c bind_eq_Some_conv)
  next
    case 5
    then have "int_bytes v = []" by (simp add: int_bytes_def)
    with s h 5 show ?thesis by (simp add: def)
  qed
qed

lemma load_array_nth: "(\<And>i. i < length bs \<Longrightarrow> a m (s + i) = Some (bs ! i)) \<Longrightarrow> load_array a m s (length bs) = Some bs"
proof (induction bs arbitrary: s)
  case (Cons b bs)
  have "a m s = Some b" using Cons.prems [of 0] by simp
  moreover have "load_array a m (Suc s) (length bs) = Some bs"
    using Cons.prems [of "Suc _"] by (intro Cons.IH) simp
  ultimately show ?case by simp
qed simp

lemma load_in_memory: "bytes_at m (q + s) bs \<Longrightarrow> load_array (in_memory q) m s (length bs) = Some bs"
  by (rule load_array_nth) (simp add: in_memory_def bytes_at_def add.assoc)

lemma load_in_packet: "n \<le> length xs \<Longrightarrow> load_array (in_packet xs) m 0 n = Some (take n xs)"
  using load_array_nth [of "take n xs" "in_packet xs" m 0] by (simp add: in_packet_def min_absorb2)

lemma serialize_part_emit:
  assumes "accessible m p (length (hdr (n - cur) (length bs) @ bs))"
    and "load_array a (put m p (hdr (n - cur) (length bs))) s (length bs) = Some bs"
  shows "serialize_part (n - cur) m p a s (length bs) = Some (emit n cur bs m p)"
proof -
  let ?h = "hdr (n - cur) (length bs)"
  have a: "accessible m p (length ?h)" "accessible m (p + length ?h) (length bs)"
    using assms(1) by (simp_all add: accessible_add)
  have "accessible (put m p ?h) (p + length ?h) (length bs)" using a by simp
  from store_list_put [OF this] show ?thesis
    using coap_set_option_header_put [OF a(1)] assms(2) by (simp add: serialize_part_def emit_def put_append)
qed

subsection \<open>Strings in parts\<close>

text \<open>The parts of a string, put together with the separator between them.\<close>

fun joins :: "u8 \<Rightarrow> u8 list list \<Rightarrow> u8 list" where
  "joins c [] = []"
| "joins c [s] = s"
| "joins c (s # t # ss) = s @ c # joins c (t # ss)"

text \<open>One option for each part, behind the option \<open>cur\<close>.\<close>

abbreviation enc_parts :: "nat \<Rightarrow> nat \<Rightarrow> u8 list list \<Rightarrow> u8 list" where
  "enc_parts cur n segs \<equiv> enc cur (map (Pair n) segs)"

lemma split_loop_scan:
  assumes "j \<le> e" and "e \<le> len" and "\<And>t. j \<le> t \<Longrightarrow> t < e \<Longrightarrow> \<exists>v. array m t = Some v \<and> v \<noteq> c"
  shows "split_loop n cur m buf array len c j ps i = split_loop n cur m buf array len c e ps i"
  using assms
proof (induction "e - j" arbitrary: j)
  case (Suc k)
  then have "j < e" by simp
  moreover obtain v where "array m j = Some v" "v \<noteq> c" using Suc.prems(3) [of j] \<open>j < e\<close> by auto
  ultimately have "split_loop n cur m buf array len c j ps i = split_loop n cur m buf array len c (j + 1) ps i"
    using Suc.prems(2) by (subst split_loop.simps) simp
  also have "\<dots> = split_loop n cur m buf array len c e ps i"
    using Suc.hyps(2) Suc.prems \<open>j < e\<close> by (intro Suc.hyps(1)) auto
  finally show ?case .
qed simp

text \<open>One step: the part from \<open>ps\<close> to \<open>e\<close> is written and the search goes on behind the separator.\<close>

lemma split_loop_part:
  assumes "ps \<le> j" and "j \<le> ps + length s" and "c \<notin> set s" and "bytes_at m (q + ps) s" and "ps + length s \<le> len"
    and "m (q + (ps + length s)) = Some x" and "x = c \<or> ps + length s = len"
    and "accessible m (buf + i) (length (hdr (n - cur) (length s) @ s))"
    and "q + len < buf + i \<or> buf + i + length (hdr (n - cur) (length s)) \<le> q"
  shows "split_loop n cur m buf (in_memory q) len c j ps i =
    split_loop n n (put m (buf + i) (hdr (n - cur) (length s) @ s)) buf (in_memory q) len c (ps + length s + 2) (ps + length s + 1)
      (i + length (hdr (n - cur) (length s) @ s))"
proof -
  let ?e = "ps + length s"
  have "split_loop n cur m buf (in_memory q) len c j ps i = split_loop n cur m buf (in_memory q) len c ?e ps i"
  proof (rule split_loop_scan [OF assms(2,5)])
    fix t assume t: "j \<le> t" "t < ?e"
    then have "t - ps < length s" using assms(1) by simp
    then have "m (q + ps + (t - ps)) = Some (s ! (t - ps))" using assms(4) unfolding bytes_at_def by blast
    moreover have "s ! (t - ps) \<in> set s" using t assms(1) by simp
    ultimately show "\<exists>v. in_memory q m t = Some v \<and> v \<noteq> c" using t(1) assms(1,3) by (auto simp: in_memory_def)
  qed
  moreover have "bytes_at (put m (buf + i) (hdr (n - cur) (length s))) (q + ps) s"
    using assms(4,5,9) by (subst bytes_at_put_outside) auto
  from serialize_part_emit [OF assms(8) load_in_memory [OF this]]
  have "serialize_part (n - cur) m (buf + i) (in_memory q) ps (?e - ps) = Some (emit n cur s m (buf + i))" by simp
  moreover have "in_memory q m ?e = Some x" using assms(6) by (simp add: in_memory_def)
  ultimately show ?thesis using assms(5,7)
    by (subst (asm) split_loop.simps [of n cur m buf _ len c ?e]) (auto simp: emit_def)
qed

lemma split_loop_parts:
  "segs \<noteq> [] \<Longrightarrow> \<forall>s \<in> set segs. c \<notin> set s \<Longrightarrow> \<forall>s \<in> set (tl segs). s \<noteq> [] \<Longrightarrow>
    ps \<le> j \<Longrightarrow> j \<le> ps + length (hd segs) \<Longrightarrow> bytes_at m (q + ps) (joins c segs) \<Longrightarrow> len = ps + length (joins c segs) \<Longrightarrow>
    m (q + len) \<noteq> None \<Longrightarrow> accessible m (buf + i) (length (enc_parts cur n segs)) \<Longrightarrow>
    q + len < buf + i \<or> buf + i + length (enc_parts cur n segs) \<le> q \<Longrightarrow>
    split_loop n cur m buf (in_memory q) len c j ps i =
      Some (i + length (enc_parts cur n segs), put m (buf + i) (enc_parts cur n segs))"
proof (induction segs arbitrary: cur m j ps i rule: induct_list012)
  case (2 s)
  then obtain x where x: "m (q + (ps + length s)) = Some x" by auto
  have "split_loop n cur m buf (in_memory q) len c j ps i =
    split_loop n n (put m (buf + i) (hdr (n - cur) (length s) @ s)) buf (in_memory q) len c (ps + length s + 2) (ps + length s + 1)
      (i + length (hdr (n - cur) (length s) @ s))"
    by (rule split_loop_part [where q = q and s = s and x = x]) (use x "2.prems" in auto)
  also have "\<dots> = Some (i + length (enc_parts cur n [s]), put m (buf + i) (enc_parts cur n [s]))"
    using "2.prems" by (subst split_loop.simps) simp
  finally show ?case .
next
  case (3 s t ss)
  let ?h = "hdr (n - cur) (length s) @ s"
  let ?m = "put m (buf + i) ?h"
  have enc: "enc_parts cur n (s # t # ss) = ?h @ enc_parts n n (t # ss)" by simp
  have a: "accessible m (buf + i) (length ?h)" "accessible m (buf + i + length ?h) (length (enc_parts n n (t # ss)))"
    using "3.prems"(9) unfolding enc length_append [of ?h] accessible_add by simp_all
  have b: "bytes_at m (q + ps) s" "m (q + (ps + length s)) = Some c" "bytes_at m (q + (ps + length s + 1)) (joins c (t # ss))"
    using "3.prems"(6) by (simp_all add: bytes_at_append bytes_at_Cons add.assoc)
  have len: "len = ps + length s + 1 + length (joins c (t # ss))" using "3.prems"(7) by simp
  have d: "q + len < buf + i \<or> buf + i + length ?h + length (enc_parts n n (t # ss)) \<le> q"
    using "3.prems"(10) unfolding enc length_append [of ?h] by (simp only: add.assoc)
  have "split_loop n cur m buf (in_memory q) len c j ps i =
    split_loop n n ?m buf (in_memory q) len c (ps + length s + 2) (ps + length s + 1) (i + length ?h)"
    by (rule split_loop_part [where q = q and s = s and x = c]) (use b "3.prems" a len d in auto)
  also have "\<dots> = Some (i + length ?h + length (enc_parts n n (t # ss)), put ?m (buf + (i + length ?h)) (enc_parts n n (t # ss)))"
  proof (rule "3.IH"(2))
    have "t \<noteq> []" using "3.prems"(3) by simp
    then show "ps + length s + 2 \<le> ps + length s + 1 + length (hd (t # ss))" by (cases t) simp_all
    show "bytes_at ?m (q + (ps + length s + 1)) (joins c (t # ss))"
      using b(3) d len by (subst bytes_at_put_outside) auto
    show "?m (q + len) \<noteq> None" using "3.prems"(8) d by (subst put_outside) auto
    show "accessible ?m (buf + (i + length ?h)) (length (enc_parts n n (t # ss)))"
      using a by (simp only: accessible_put add.assoc)
  qed (use "3.prems" len d in auto)
  finally show ?case unfolding enc by (simp add: put_append add.assoc)
qed simp

subsection \<open>Writing all options\<close>

fun parts :: "u8 \<Rightarrow> u8 list \<Rightarrow> u8 list list" where
  "parts c [] = [[]]"
| "parts c (x # xs) = (if x = c then [] # parts c xs else (x # hd (parts c xs)) # tl (parts c xs))"

lemma parts_not_Nil [simp]: "parts c xs \<noteq> []"
  by (cases xs) simp_all

lemma joins_parts: "joins c (parts c xs) = xs"
proof (induction xs)
  case (Cons x xs)
  then show ?case by (cases "parts c xs"; cases "tl (parts c xs)") auto
qed simp

lemma parts_no_separator: "s \<in> set (parts c xs) \<Longrightarrow> c \<notin> set s"
proof (induction xs arbitrary: s)
  case (Cons x xs)
  then show ?case by (cases "parts c xs") (auto split: if_splits)
qed simp

definition content :: "mem \<Rightarrow> ptr \<Rightarrow> nat \<Rightarrow> u8 list" where
  "content m p n = map (\<lambda>i. the (m (p + i))) [0..<n]"

lemma length_content [simp]: "length (content m p n) = n"
  by (simp add: content_def)

lemma bytes_at_content: "accessible m p n \<Longrightarrow> bytes_at m p (content m p n)"
  by (auto simp: accessible_def bytes_at_def content_def)

lemma content_eq: "bytes_at m p bs \<Longrightarrow> length bs = n \<Longrightarrow> content m p n = bs"
  by (auto simp: content_def bytes_at_def intro: nth_equalityI)

definition ser_state :: "mem \<Rightarrow> ptr \<Rightarrow> (nat \<times> u8 list) list \<Rightarrow> ser" where
  "ser_state m p os = (p + length (enc 0 os), last_number 0 os, put m p (enc 0 os))"

definition step_ok :: "mem \<Rightarrow> ptr \<Rightarrow> nat \<Rightarrow> (ser \<Rightarrow> ser option) \<Rightarrow> (nat \<times> u8 list) list \<Rightarrow> bool" where
  "step_ok m p room f g \<longleftrightarrow> (\<forall>os. length (enc 0 (os @ g)) \<le> room \<longrightarrow> f (ser_state m p os) = Some (ser_state m p (os @ g)))"

fun run :: "('s \<Rightarrow> 's option) list \<Rightarrow> 's \<Rightarrow> 's option" where
  "run [] s = Some s"
| "run (f # fs) s = do { s \<leftarrow> f s; run fs s }"

lemma run_unfold: "run [] = Some" "run (f # fs) = (\<lambda>s. f s \<bind> run fs)"
  by (rule ext, simp)+

lemma run_steps:
  "list_all2 (step_ok m p room) fs gs \<Longrightarrow> length (enc 0 (os @ concat gs)) \<le> room \<Longrightarrow>
    run fs (ser_state m p os) = Some (ser_state m p (os @ concat gs))"
proof (induction fs gs arbitrary: os rule: list_all2_induct)
  case (Cons f fs g gs)
  then have "length (enc 0 (os @ g)) \<le> room" by (simp add: enc_append)
  with Cons show ?case by (simp add: step_ok_def)
qed simp

lemma emit_state:
  "emit n (last_number 0 os) bs (put m p (enc 0 os)) (p + length (enc 0 os)) =
    (length (enc (last_number 0 os) [(n, bs)]), put m p (enc 0 (os @ [(n, bs)])))"
  by (simp add: emit_def enc_append put_append)

lemma room_left:
  assumes "accessible m p room" and "length (enc 0 (os @ g)) \<le> room"
  shows "accessible (put m p (enc 0 os)) (p + length (enc 0 os)) (length (enc (last_number 0 os) g))"
proof -
  have l: "length (enc 0 os) + length (enc (last_number 0 os) g) \<le> room" using assms(2) by (simp add: enc_append)
  have "accessible m p (length (enc 0 os))" "accessible m (p + length (enc 0 os)) (length (enc (last_number 0 os) g))"
    using l by (intro accessible_mono [OF assms(1)]; simp)+
  then show ?thesis by simp
qed

text \<open>A string that is read where nothing is written.\<close>

definition apart :: "mem \<Rightarrow> ptr \<Rightarrow> nat \<Rightarrow> ptr \<Rightarrow> nat \<Rightarrow> bool" where
  "apart m p room q len \<longleftrightarrow> accessible m q (len + 1) \<and> (q + len < p \<or> p + room \<le> q)"

lemma int_step: "accessible m p room \<Longrightarrow> step_ok m p room (COAP_SERIALIZE_INT_OPTION pkt n v) (if IS_OPTION pkt n then [(n, int_bytes v)] else [])"
  using coap_serialize_int_option_emit room_left [of m p room _ "[(n, int_bytes v)]"]
  by (auto simp: step_ok_def COAP_SERIALIZE_INT_OPTION_def ser_state_def emit_state enc_append)

lemma block_step:
  "accessible m p room \<Longrightarrow> step_ok m p room (COAP_SERIALIZE_BLOCK_OPTION pkt n num mr sz)
    (if IS_OPTION pkt n then [(n, int_bytes (block_value num mr sz))] else [])"
  using int_step by (simp add: COAP_SERIALIZE_BLOCK_OPTION_def COAP_SERIALIZE_INT_OPTION_def)

lemma byte_step:
  assumes acc: "accessible m p room" and len: "unat len \<le> length field"
  shows "step_ok m p room (COAP_SERIALIZE_BYTE_OPTION pkt n field len) (if IS_OPTION pkt n then [(n, take (unat len) field)] else [])"
proof -
  have "coap_serialize_array_option n (last_number 0 os) (put m p (enc 0 os)) (p + length (enc 0 os)) (in_packet field) (unat len) 0 =
      Some (emit n (last_number 0 os) (take (unat len) field) (put m p (enc 0 os)) (p + length (enc 0 os)))"
    if "length (enc 0 (os @ [(n, take (unat len) field)])) \<le> room" for os
    using serialize_part_emit [where bs = "take (unat len) field" and a = "in_packet field" and s = 0] room_left [OF acc that]
      load_in_packet [OF len] by (simp add: coap_serialize_array_option_def min_absorb2 [OF len])
  then show ?thesis by (auto simp: step_ok_def COAP_SERIALIZE_BYTE_OPTION_def ser_state_def emit_state enc_append)
qed

lemma string_step:
  assumes acc: "accessible m p room" and ap: "apart m p room q len"
    and segs: "c = 0 \<and> segs = [content m q len] \<or> c \<noteq> 0 \<and> segs = parts c (content m q len) \<and> [] \<notin> set (tl segs)"
  shows "step_ok m p room (COAP_SERIALIZE_STRING_OPTION pkt n q len c) (if IS_OPTION pkt n then map (Pair n) segs else [])"
proof -
  have q: "accessible m q len" "m (q + len) \<noteq> None" "q + len < p \<or> p + room \<le> q"
    using ap by (auto simp: apart_def accessible_add accessible_def)
  note b = bytes_at_content [OF q(1)]
  have "coap_serialize_array_option n (last_number 0 os) (put m p (enc 0 os)) (p + length (enc 0 os)) (in_memory q) len c =
      Some (length (enc_parts (last_number 0 os) n segs), put m p (enc 0 (os @ map (Pair n) segs)))"
    if r: "length (enc 0 (os @ map (Pair n) segs)) \<le> room" for os
  proof -
    let ?m = "put m p (enc 0 os)" and ?p = "p + length (enc 0 os)" and ?cur = "last_number 0 os"
    have lr: "length (enc 0 os) + length (enc_parts ?cur n segs) \<le> room" using r by (simp add: enc_append)
    have d: "q + len < ?p \<or> ?p + length (enc_parts ?cur n segs) \<le> q" "q + len < p \<or> p + length (enc 0 os) \<le> q"
      using q(3) lr by linarith+
    have b': "bytes_at ?m q (content m q len)" using b d(2) by (subst bytes_at_put_outside) auto
    note a = room_left [OF acc r]
    from segs show ?thesis
    proof
      assume s: "c = 0 \<and> segs = [content m q len]"
      let ?bs = "content m q len"
      have "bytes_at (put ?m ?p (hdr (n - ?cur) (length ?bs))) (q + 0) ?bs"
        using b' d(1) s by (subst bytes_at_put_outside) auto
      from serialize_part_emit [OF _ load_in_memory [OF this]] show ?thesis
        using a s by (simp add: coap_serialize_array_option_def emit_state emit_def enc_append put_append)
    next
      assume s: "c \<noteq> 0 \<and> segs = parts c (content m q len) \<and> [] \<notin> set (tl segs)"
      have "split_loop n ?cur ?m ?p (in_memory q) len c 0 0 0 =
          Some (0 + length (enc_parts ?cur n segs), put ?m (?p + 0) (enc_parts ?cur n segs))"
      proof (rule split_loop_parts)
        show "\<forall>s \<in> set segs. c \<notin> set s" using s parts_no_separator by blast
        show "?m (q + len) \<noteq> None" using q(2) d(2) by (subst put_outside) auto
      qed (use s b' d a joins_parts [of c "content m q len"] in auto)
      then show ?thesis using s by (simp add: coap_serialize_array_option_def enc_append put_append)
    qed
  qed
  moreover have "segs \<noteq> []" using segs by (metis list.distinct(1) parts_not_Nil)
  ultimately show ?thesis
    by (auto simp: step_ok_def COAP_SERIALIZE_STRING_OPTION_def ser_state_def enc_append last_number_append last_number_group)
qed

subsection \<open>Messages\<close>

text \<open>The options of a packet in the order of their numbers, each with the values it is sent as.\<close>

definition packet_groups :: "mem \<Rightarrow> coap_packet \<Rightarrow> (nat \<times> u8 list list) list" where
  "packet_groups m p =
    [(COAP_OPTION_IF_MATCH, [take (unat (cp_if_match_len p)) (cp_if_match p)]),
     (COAP_OPTION_URI_HOST, [content m (cp_uri_host p) (cp_uri_host_len p)]),
     (COAP_OPTION_ETAG, [take (unat (cp_etag_len p)) (cp_etag p)]),
     (COAP_OPTION_IF_NONE_MATCH, [int_bytes 0]),
     (COAP_OPTION_OBSERVE, [int_bytes (cp_observe p)]),
     (COAP_OPTION_URI_PORT, [int_bytes (ucast (cp_uri_port p))]),
     (COAP_OPTION_LOCATION_PATH, parts slash (content m (cp_location_path p) (cp_location_path_len p))),
     (COAP_OPTION_URI_PATH, parts slash (content m (cp_uri_path p) (cp_uri_path_len p))),
     (COAP_OPTION_CONTENT_FORMAT, [int_bytes (ucast (cp_content_format p))]),
     (COAP_OPTION_MAX_AGE, [int_bytes (cp_max_age p)]),
     (COAP_OPTION_URI_QUERY, parts ampersand (content m (cp_uri_query p) (cp_uri_query_len p))),
     (COAP_OPTION_ACCEPT, [int_bytes (ucast (cp_accept p))]),
     (COAP_OPTION_LOCATION_QUERY, parts ampersand (content m (cp_location_query p) (cp_location_query_len p))),
     (COAP_OPTION_BLOCK2, [int_bytes (block_value (cp_block2_num p) (cp_block2_more p) (cp_block2_size p))]),
     (COAP_OPTION_BLOCK1, [int_bytes (block_value (cp_block1_num p) (cp_block1_more p) (cp_block1_size p))]),
     (COAP_OPTION_SIZE2, [int_bytes (cp_size2 p)]),
     (COAP_OPTION_PROXY_URI, [content m (cp_proxy_uri p) (cp_proxy_uri_len p)]),
     (COAP_OPTION_PROXY_SCHEME, [content m (cp_proxy_scheme p) (cp_proxy_scheme_len p)]),
     (COAP_OPTION_SIZE1, [int_bytes (cp_size1 p)])]"

definition flat :: "(nat \<times> u8 list list) list \<Rightarrow> (nat \<times> u8 list) list" where
  "flat gs = concat (map (\<lambda>(n, segs). map (Pair n) segs) gs)"

definition packet_options :: "mem \<Rightarrow> coap_packet \<Rightarrow> (nat \<times> u8 list) list" where
  "packet_options m p = flat (filter (\<lambda>(n, _). IS_OPTION p n) (packet_groups m p))"

text \<open>
  The strings of the packet are readable, none is where the message is written, and a string that is split has no empty
  part behind the first one.
\<close>

definition string_ok :: "mem \<Rightarrow> ptr \<Rightarrow> nat \<Rightarrow> u8 \<Rightarrow> ptr \<Rightarrow> nat \<Rightarrow> bool" where
  "string_ok m buf room c q len \<longleftrightarrow> apart m buf room q len \<and> [] \<notin> set (tl (parts c (content m q len)))"

definition strings_ok :: "mem \<Rightarrow> ptr \<Rightarrow> nat \<Rightarrow> coap_packet \<Rightarrow> bool" where
  "strings_ok m buf room p \<longleftrightarrow>
     (IS_OPTION p COAP_OPTION_URI_HOST \<longrightarrow> apart m buf room (cp_uri_host p) (cp_uri_host_len p)) \<and>
     (IS_OPTION p COAP_OPTION_PROXY_URI \<longrightarrow> apart m buf room (cp_proxy_uri p) (cp_proxy_uri_len p)) \<and>
     (IS_OPTION p COAP_OPTION_PROXY_SCHEME \<longrightarrow> apart m buf room (cp_proxy_scheme p) (cp_proxy_scheme_len p)) \<and>
     (IS_OPTION p COAP_OPTION_LOCATION_PATH \<longrightarrow> string_ok m buf room slash (cp_location_path p) (cp_location_path_len p)) \<and>
     (IS_OPTION p COAP_OPTION_URI_PATH \<longrightarrow> string_ok m buf room slash (cp_uri_path p) (cp_uri_path_len p)) \<and>
     (IS_OPTION p COAP_OPTION_URI_QUERY \<longrightarrow> string_ok m buf room ampersand (cp_uri_query p) (cp_uri_query_len p)) \<and>
     (IS_OPTION p COAP_OPTION_LOCATION_QUERY \<longrightarrow> string_ok m buf room ampersand (cp_location_query p) (cp_location_query_len p))"

definition lengths_ok :: "coap_packet \<Rightarrow> bool" where
  "lengths_ok p \<longleftrightarrow> packet_ok p \<and> unat (cp_token_len p) \<le> 8 \<and> unat (cp_etag_len p) \<le> 8 \<and> unat (cp_if_match_len p) \<le> 8"

text \<open>A step whose option is not set does nothing, whatever its value is.\<close>

lemma step_unset:
  "\<not> IS_OPTION pkt n \<Longrightarrow> step_ok m p room (COAP_SERIALIZE_STRING_OPTION pkt n q len c) []"
  by (simp add: step_ok_def COAP_SERIALIZE_STRING_OPTION_def ser_state_def)

lemma string_step_single:
  assumes "accessible m p room" and "IS_OPTION pkt n \<longrightarrow> apart m p room q len"
  shows "step_ok m p room (COAP_SERIALIZE_STRING_OPTION pkt n q len 0) (if IS_OPTION pkt n then [(n, content m q len)] else [])"
proof (cases "IS_OPTION pkt n")
  case True
  then show ?thesis using string_step [OF assms(1), of q len 0 "[content m q len]" pkt n] assms(2) by simp
qed (simp add: step_unset)

lemma string_step_parts:
  assumes "accessible m p room" and "IS_OPTION pkt n \<longrightarrow> string_ok m p room c q len" and "c \<noteq> 0"
  shows "step_ok m p room (COAP_SERIALIZE_STRING_OPTION pkt n q len c)
    (if IS_OPTION pkt n then map (Pair n) (parts c (content m q len)) else [])"
proof (cases "IS_OPTION pkt n")
  case True
  then show ?thesis using string_step [OF assms(1), of q len c "parts c (content m q len)" pkt n] assms(2,3)
    by (simp add: string_ok_def)
qed (simp add: step_unset)

lemma serialize_options_put:
  assumes acc: "accessible m buf room" and str: "strings_ok m buf room p" and len: "lengths_ok p"
    and room: "length (enc 0 (packet_options m p)) \<le> room"
  shows "serialize_options p (buf, 0, m) = Some (ser_state m buf (packet_options m p))"
proof -
  let ?fs = "[COAP_SERIALIZE_BYTE_OPTION p COAP_OPTION_IF_MATCH (cp_if_match p) (cp_if_match_len p),
     COAP_SERIALIZE_STRING_OPTION p COAP_OPTION_URI_HOST (cp_uri_host p) (cp_uri_host_len p) 0,
     COAP_SERIALIZE_BYTE_OPTION p COAP_OPTION_ETAG (cp_etag p) (cp_etag_len p),
     COAP_SERIALIZE_INT_OPTION p COAP_OPTION_IF_NONE_MATCH (ucast (cp_content_format p - cp_content_format p)),
     COAP_SERIALIZE_INT_OPTION p COAP_OPTION_OBSERVE (cp_observe p),
     COAP_SERIALIZE_INT_OPTION p COAP_OPTION_URI_PORT (ucast (cp_uri_port p)),
     COAP_SERIALIZE_STRING_OPTION p COAP_OPTION_LOCATION_PATH (cp_location_path p) (cp_location_path_len p) slash,
     COAP_SERIALIZE_STRING_OPTION p COAP_OPTION_URI_PATH (cp_uri_path p) (cp_uri_path_len p) slash,
     COAP_SERIALIZE_INT_OPTION p COAP_OPTION_CONTENT_FORMAT (ucast (cp_content_format p)),
     COAP_SERIALIZE_INT_OPTION p COAP_OPTION_MAX_AGE (cp_max_age p),
     COAP_SERIALIZE_STRING_OPTION p COAP_OPTION_URI_QUERY (cp_uri_query p) (cp_uri_query_len p) ampersand,
     COAP_SERIALIZE_INT_OPTION p COAP_OPTION_ACCEPT (ucast (cp_accept p)),
     COAP_SERIALIZE_STRING_OPTION p COAP_OPTION_LOCATION_QUERY (cp_location_query p) (cp_location_query_len p) ampersand,
     COAP_SERIALIZE_BLOCK_OPTION p COAP_OPTION_BLOCK2 (cp_block2_num p) (cp_block2_more p) (cp_block2_size p),
     COAP_SERIALIZE_BLOCK_OPTION p COAP_OPTION_BLOCK1 (cp_block1_num p) (cp_block1_more p) (cp_block1_size p),
     COAP_SERIALIZE_INT_OPTION p COAP_OPTION_SIZE2 (cp_size2 p),
     COAP_SERIALIZE_STRING_OPTION p COAP_OPTION_PROXY_URI (cp_proxy_uri p) (cp_proxy_uri_len p) 0,
     COAP_SERIALIZE_STRING_OPTION p COAP_OPTION_PROXY_SCHEME (cp_proxy_scheme p) (cp_proxy_scheme_len p) 0,
     COAP_SERIALIZE_INT_OPTION p COAP_OPTION_SIZE1 (cp_size1 p)]"
  let ?gs = "map (\<lambda>(n, segs). if IS_OPTION p n then map (Pair n) segs else []) (packet_groups m p)"
  have c: "slash \<noteq> 0" "ampersand \<noteq> 0" by (simp_all add: slash_def ampersand_def)
  have l: "unat (cp_if_match_len p) \<le> length (cp_if_match p)" "unat (cp_etag_len p) \<le> length (cp_etag p)"
    using len by (simp_all add: lengths_ok_def packet_ok_def)
  have z: "ucast (cp_content_format p - cp_content_format p) = (0 :: u32)" by simp
  have "list_all2 (step_ok m buf room) ?fs ?gs"
    unfolding packet_groups_def list.map list_all2_Cons prod.case z
    by (intro conjI int_step [OF acc] block_step [OF acc] byte_step [OF acc l(1)] byte_step [OF acc l(2)]
        string_step_single [OF acc] string_step_parts [OF acc])
      (use str c in \<open>simp_all add: strings_ok_def\<close>)
  moreover have "concat ?gs = packet_options m p"
  proof -
    have "concat (map (\<lambda>(n, segs). if IS_OPTION p n then map (Pair n) segs else []) gs) = flat (filter (\<lambda>(n, _). IS_OPTION p n) gs)" for gs
      by (induction gs) (auto simp: flat_def)
    then show ?thesis by (simp only: packet_options_def)
  qed
  moreover have "ser_state m buf [] = (buf, 0, m)" by (simp add: ser_state_def)
  moreover have "serialize_options p s = run ?fs s" for s
    by (simp only: serialize_options_def run_unfold Option.bind_runit)
  ultimately show ?thesis using run_steps [of m buf room ?fs ?gs "[]"] room by simp
qed

text \<open>Strings that are read where nothing is written are the same while the beginning of the message is in place.\<close>

lemma content_cong: "(\<And>i. i < n \<Longrightarrow> m' (q + i) = m (q + i)) \<Longrightarrow> content m' q n = content m q n"
  by (simp add: content_def)

lemma apart_put:
  assumes "apart m p room q len" and "accessible m p room" and "length bs \<le> room"
  shows "apart (put m p bs) (p + length bs) (room - length bs) q len" and "content (put m p bs) q len = content m q len"
proof -
  have "accessible m p (length bs)" using accessible_mono [OF assms(2)] assms(3) by simp
  then show "apart (put m p bs) (p + length bs) (room - length bs) q len" using assms(1,3) by (auto simp: apart_def)
  show "content (put m p bs) q len = content m q len"
    using assms(1,3) by (intro content_cong put_outside) (auto simp: apart_def)
qed

lemma filter_set_options:
  "list_all2 (\<lambda>g h. fst g = fst h \<and> (IS_OPTION p (fst g) \<longrightarrow> g = h)) gs hs \<Longrightarrow>
    filter (\<lambda>(n, _). IS_OPTION p n) gs = filter (\<lambda>(n, _). IS_OPTION p n) hs"
  by (induction rule: list_all2_induct) auto

lemma strings_ok_put:
  assumes "strings_ok m buf room p" and "accessible m buf room" and "length bs \<le> room"
  shows "strings_ok (put m buf bs) (buf + length bs) (room - length bs) p"
    and "packet_options (put m buf bs) p = packet_options m p"
proof -
  note a = apart_put [OF _ assms(2,3)]
  show "strings_ok (put m buf bs) (buf + length bs) (room - length bs) p"
    using assms(1) a unfolding strings_ok_def string_ok_def by metis
  have e:
    "IS_OPTION p COAP_OPTION_URI_HOST \<Longrightarrow> content (put m buf bs) (cp_uri_host p) (cp_uri_host_len p) = content m (cp_uri_host p) (cp_uri_host_len p)"
    "IS_OPTION p COAP_OPTION_PROXY_URI \<Longrightarrow> content (put m buf bs) (cp_proxy_uri p) (cp_proxy_uri_len p) = content m (cp_proxy_uri p) (cp_proxy_uri_len p)"
    "IS_OPTION p COAP_OPTION_PROXY_SCHEME \<Longrightarrow> content (put m buf bs) (cp_proxy_scheme p) (cp_proxy_scheme_len p) = content m (cp_proxy_scheme p) (cp_proxy_scheme_len p)"
    "IS_OPTION p COAP_OPTION_LOCATION_PATH \<Longrightarrow> content (put m buf bs) (cp_location_path p) (cp_location_path_len p) = content m (cp_location_path p) (cp_location_path_len p)"
    "IS_OPTION p COAP_OPTION_URI_PATH \<Longrightarrow> content (put m buf bs) (cp_uri_path p) (cp_uri_path_len p) = content m (cp_uri_path p) (cp_uri_path_len p)"
    "IS_OPTION p COAP_OPTION_URI_QUERY \<Longrightarrow> content (put m buf bs) (cp_uri_query p) (cp_uri_query_len p) = content m (cp_uri_query p) (cp_uri_query_len p)"
    "IS_OPTION p COAP_OPTION_LOCATION_QUERY \<Longrightarrow> content (put m buf bs) (cp_location_query p) (cp_location_query_len p) = content m (cp_location_query p) (cp_location_query_len p)"
    using assms(1) a(2) unfolding strings_ok_def string_ok_def by blast+
  have "filter (\<lambda>(n, _). IS_OPTION p n) (packet_groups (put m buf bs) p) = filter (\<lambda>(n, _). IS_OPTION p n) (packet_groups m p)"
    unfolding packet_groups_def by (rule filter_set_options) (simp add: e)
  then show "packet_options (put m buf bs) p = packet_options m p" by (simp only: packet_options_def)
qed

text \<open>The message of a packet.\<close>

definition head_bytes :: "coap_packet \<Rightarrow> u8 list" where
  "head_bytes p = [header_byte (p\<lparr>cp_version := 1\<rparr>), cp_code p, ucast (drop_bit 8 (cp_mid p)), ucast (cp_mid p)] @
     take (unat (cp_token_len p)) (cp_token p)"

definition header_bytes :: "mem \<Rightarrow> coap_packet \<Rightarrow> u8 list" where
  "header_bytes m p = head_bytes p @ enc 0 (packet_options m p)"

definition payload_bytes :: "mem \<Rightarrow> coap_packet \<Rightarrow> u8 list" where
  "payload_bytes m p = (if cp_payload_len p \<noteq> 0 then 0xff # content m (cp_payload p) (unat (cp_payload_len p)) else [])"

definition message_bytes :: "mem \<Rightarrow> coap_packet \<Rightarrow> u8 list" where
  "message_bytes m p = header_bytes m p @ payload_bytes m p"

definition payload_ok :: "mem \<Rightarrow> ptr \<Rightarrow> nat \<Rightarrow> coap_packet \<Rightarrow> bool" where
  "payload_ok m buf room p \<longleftrightarrow> accessible m (cp_payload p) (unat (cp_payload_len p)) \<and>
     (cp_payload p + unat (cp_payload_len p) \<le> buf \<or> buf + room \<le> cp_payload p)"

lemma serialize_payload:
  assumes "payload_ok m buf room p" and "accessible m buf room" and "length hs + length (payload_bytes m p) \<le> room"
  shows "do {
      (opt, m) \<leftarrow> (if cp_payload_len p \<noteq> 0 then do { m \<leftarrow> store (put m buf hs) (buf + length hs) 0xff; Some (buf + length hs + 1, m) }
        else Some (buf + length hs, put m buf hs));
      m \<leftarrow> memmove m opt (cp_payload p) (unat (cp_payload_len p));
      Some (opt - buf + unat (cp_payload_len p), m)
    } = Some (length (hs @ payload_bytes m p), put m buf (hs @ payload_bytes m p))"
proof -
  let ?n = "unat (cp_payload_len p)" and ?q = "cp_payload p" and ?m = "put m buf hs" and ?e = "buf + length hs"
  have acc: "accessible ?m r k \<longleftrightarrow> accessible m r k" for r k
    using accessible_mono [OF assms(2), of buf "length hs"] assms(3) by simp
  show ?thesis
  proof (cases "cp_payload_len p = 0")
    case True
    have "memmove ?m ?e ?q 0 = Some ?m" by (simp add: memmove_def)
    then show ?thesis using True by (simp add: payload_bytes_def)
  next
    case False
    have l: "length hs + (1 + ?n) \<le> room" using assms(3) False by (simp add: payload_bytes_def)
    have a: "accessible ?m ?e (1 + ?n)" unfolding acc by (rule accessible_mono [OF assms(2)]) (use l in simp_all)
    then have a1: "accessible ?m ?e 1" "accessible ?m (?e + 1) ?n" unfolding accessible_add by simp_all
    have s: "store ?m ?e 0xff = Some (put ?m ?e [0xff])" using a1(1) by (intro store_put) (simp add: accessible_def)
    let ?bs = "content m ?q ?n"
    have q: "bytes_at m ?q ?bs" using assms(1) by (intro bytes_at_content) (simp add: payload_ok_def)
    have d: "?q + ?n \<le> buf \<or> buf + room \<le> ?q" using assms(1) by (simp add: payload_ok_def)
    have "bytes_at (put ?m ?e [0xff]) ?q ?bs"
      using q d l by (simp add: bytes_at_put_outside put_append [symmetric]) (subst bytes_at_put_outside; auto)
    then have ld: "load_list (put ?m ?e [0xff]) ?q ?n = Some ?bs" using load_list_bytes by simp
    have "accessible (put ?m ?e [0xff]) (?e + 1) (length ?bs)" using a1 by simp
    from store_list_put [OF this] ld have "memmove (put ?m ?e [0xff]) (?e + 1) ?q ?n = Some (put (put ?m ?e [0xff]) (?e + 1) ?bs)"
      by (simp add: memmove_def)
    moreover have "put (put ?m ?e [0xff]) (?e + 1) ?bs = put m buf (hs @ 0xff # ?bs)"
      by (simp add: put_append put_Cons)
    ultimately show ?thesis using s False by (simp add: payload_bytes_def)
  qed
qed

lemma store_four:
  assumes "accessible m p 4"
  shows "do { m \<leftarrow> store m p a; m \<leftarrow> store m (p + 1) b; m \<leftarrow> store m (p + 2) c; m \<leftarrow> store m (p + 3) d; f m } = f (put m p [a, b, c, d])"
proof -
  have "store_list m p [a, b, c, d] = Some (put m p [a, b, c, d])" using assms by (intro store_list_put) (simp add: numeral_eq_Suc)
  then show ?thesis by (auto simp: bind_eq_Some_conv numeral_3_eq_3)
qed

lemma serialize_message_put:
  assumes "cp_code p \<noteq> 0" and "lengths_ok p" and "accessible m buf room" and "strings_ok m buf room p" and "payload_ok m buf room p"
    and "length (message_bytes m p) \<le> room"
  shows "coap_serialize_message p buf m = Some (
    if length (header_bytes m p) \<le> COAP_MAX_HEADER_SIZE
    then (length (message_bytes m p), p\<lparr>cp_buffer := buf, cp_version := 1\<rparr>, put m buf (message_bytes m p))
    else (0, p\<lparr>cp_buffer := NULL, cp_version := 1\<rparr>, put m buf (header_bytes m p)))"
proof -
  let ?p = "p\<lparr>cp_buffer := buf, cp_version := 1\<rparr>"
  let ?b0 = "header_byte (p\<lparr>cp_version := 1\<rparr>)" and ?b1 = "cp_code p" and ?b2 = "ucast (drop_bit 8 (cp_mid p)) :: u8" and ?b3 = "ucast (cp_mid p) :: u8"
  let ?t = "take (unat (cp_token_len p)) (cp_token p)" and ?k = "length (head_bytes p)"
  have tl: "length ?t = unat (cp_token_len p)" using assms(2) by (simp add: lengths_ok_def packet_ok_def)
  have hb: "header_byte ?p = ?b0" by (simp add: header_byte_def)
  have sizes: "?k + length (enc 0 (packet_options m p)) + length (payload_bytes m p) \<le> room" "?k = 4 + unat (cp_token_len p)"
    using assms(6) tl by (simp_all add: message_bytes_def header_bytes_def head_bytes_def)
  have acc: "accessible m buf 4" "accessible m (buf + 4) (length ?t)" "accessible m buf ?k"
    using sizes tl by (intro accessible_mono [OF assms(3)]; simp)+
  let ?m4 = "put m buf [?b0, ?b1, ?b2, ?b3]"
  note four = store_four [OF acc(1)]
  have tok: "load_array (in_packet (cp_token p)) ?m4 0 (unat (cp_token_len p)) = Some ?t"
    using assms(2) by (intro load_in_packet) (simp add: lengths_ok_def packet_ok_def)
  have "accessible m buf (length [?b0, ?b1, ?b2, ?b3])" using acc(1) by (simp add: numeral_eq_Suc)
  from accessible_put [OF this] acc(2) have "accessible ?m4 (buf + 4) (length ?t)" by blast
  from store_list_put [OF this] have st: "store_list ?m4 (buf + COAP_HEADER_LEN) ?t = Some (put m buf (head_bytes p))"
  proof -
    have "length [?b0, ?b1, ?b2, ?b3] = 4" by simp
    then have "put m buf (head_bytes p) = put ?m4 (buf + 4) ?t" unfolding head_bytes_def put_append by (simp only:)
    then show "store_list ?m4 (buf + 4) ?t = Some (put ?m4 (buf + 4) ?t) \<Longrightarrow> ?thesis" by (simp only: COAP_HEADER_LEN_def)
  qed
  let ?mh = "put m buf (head_bytes p)"
  have so: "serialize_options ?p s = serialize_options p s" for s by (simp add: serialize_options_def COAP_SERIALIZE_INT_OPTION_def COAP_SERIALIZE_BLOCK_OPTION_def COAP_SERIALIZE_BYTE_OPTION_def COAP_SERIALIZE_STRING_OPTION_def IS_OPTION_def)
  note sp = strings_ok_put [OF assms(4,3), of "head_bytes p"]
  have "serialize_options p (buf + ?k, 0, ?mh) = Some (ser_state ?mh (buf + ?k) (packet_options ?mh p))"
  proof (rule serialize_options_put [OF _ sp(1) assms(2)])
    show "accessible ?mh (buf + ?k) (room - ?k)" using sizes acc(3) accessible_mono [OF assms(3), of "buf + ?k" "room - ?k"] by simp
  qed (use sizes sp(2) in simp_all)
  moreover have "ser_state ?mh (buf + ?k) (packet_options ?mh p) =
      (buf + length (header_bytes m p), last_number 0 (packet_options m p), put m buf (header_bytes m p))"
    using sp(2) sizes by (simp add: ser_state_def header_bytes_def put_append)
  ultimately have opts: "serialize_options ?p (buf + COAP_HEADER_LEN + unat (cp_token_len p), 0, ?mh) =
      Some (buf + length (header_bytes m p), last_number 0 (packet_options m p), put m buf (header_bytes m p))"
    using so sizes(2) by (simp add: COAP_HEADER_LEN_def add.assoc)
  have pl: "length (header_bytes m p) + length (payload_bytes m p) \<le> room" using sizes by (simp add: header_bytes_def)
  note py = serialize_payload [OF assms(5,3) pl]
  have fields: "cp_code ?p = cp_code p" "cp_mid ?p = cp_mid p" "cp_token ?p = cp_token p" "cp_token_len ?p = cp_token_len p"
    "cp_payload ?p = cp_payload p" "cp_payload_len ?p = cp_payload_len p" by simp_all
  let ?hs = "header_bytes m p"
  have whole: "coap_serialize_message p buf m = (if length ?hs \<le> COAP_MAX_HEADER_SIZE then do {
        (opt, m) \<leftarrow> (if cp_payload_len p \<noteq> 0 then do { m \<leftarrow> store (put m buf ?hs) (buf + length ?hs) 0xff; Some (buf + length ?hs + 1, m) }
           else Some (buf + length ?hs, put m buf ?hs));
        m \<leftarrow> memmove m opt (cp_payload p) (unat (cp_payload_len p));
        Some (opt - buf + unat (cp_payload_len p), ?p, m)
      } else Some (0, ?p\<lparr>cp_buffer := NULL\<rparr>, put m buf ?hs))"
    unfolding coap_serialize_message_def Let_def
    by (simp only: fields hb four) (simp only: assms(1) if_False tok opts st Option.bind.bind_lunit prod.case add_diff_cancel_left' cong: if_cong)
  show ?thesis
  proof (cases "length (header_bytes m p) \<le> COAP_MAX_HEADER_SIZE")
    case True
    then show ?thesis using py unfolding whole message_bytes_def
      by (auto simp: bind_eq_Some_conv split: if_splits)
  qed (simp add: whole)
qed


end
