(* ===== verification/Coap_Parse.thy ===== *)
theory Coap_Parse
  imports Coap_Codec
begin

section \<open>The CoAP parser on arbitrary datagrams\<close>

text \<open>
  What \<open>coap_parse_message\<close> does with any datagram: it ends, its result stays within the datagram, and what it can reach
  beyond. The strings of a packet are pointers into the buffer, and merging several options of a number moves their
  bytes together, so the proofs follow where these strings are.
\<close>

subsection \<open>Strings in the buffer\<close>

definition str_in :: "ptr \<Rightarrow> ptr \<Rightarrow> ptr \<Rightarrow> nat \<Rightarrow> bool" where
  "str_in lo hi p n \<longleftrightarrow> (0 < n \<longrightarrow> lo \<le> p \<and> p + n \<le> hi)"

definition strings_in :: "ptr \<Rightarrow> ptr \<Rightarrow> coap_packet \<Rightarrow> bool" where
  "strings_in lo hi pkt \<longleftrightarrow> str_in lo hi (cp_uri_path pkt) (cp_uri_path_len pkt) \<and>
     str_in lo hi (cp_uri_query pkt) (cp_uri_query_len pkt) \<and>
     str_in lo hi (cp_location_path pkt) (cp_location_path_len pkt) \<and>
     str_in lo hi (cp_location_query pkt) (cp_location_query_len pkt)"

lemma str_in_mono: "str_in lo hi p n \<Longrightarrow> hi \<le> hi' \<Longrightarrow> str_in lo hi' p n"
  by (auto simp: str_in_def)

text \<open>The memory outside a range, and what is accessible, is as before.\<close>

definition changes_within :: "ptr \<Rightarrow> ptr \<Rightarrow> mem \<Rightarrow> mem \<Rightarrow> bool" where
  "changes_within lo hi m m' \<longleftrightarrow> (\<forall>q. (m' q = None \<longleftrightarrow> m q = None) \<and> (q < lo \<or> hi \<le> q \<longrightarrow> m' q = m q))"

lemma changes_within_refl [simp]: "changes_within lo hi m m"
  by (simp add: changes_within_def)

lemma changes_within_trans:
  "changes_within lo hi m m' \<Longrightarrow> changes_within lo hi' m' m'' \<Longrightarrow> hi \<le> hi' \<Longrightarrow> changes_within lo hi' m m''"
  by (force simp: changes_within_def)

lemma changes_within_accessible: "changes_within lo hi m m' \<Longrightarrow> accessible m' p n \<longleftrightarrow> accessible m p n"
  by (simp add: changes_within_def accessible_def)

lemma changes_within_put:
  "accessible m p (length vs) \<Longrightarrow> lo \<le> p \<Longrightarrow> p + length vs \<le> hi \<Longrightarrow> changes_within lo hi m (put m p vs)"
proof -
  assume a: "accessible m p (length vs)" "lo \<le> p" "p + length vs \<le> hi"
  have "put m p vs q = None \<longleftrightarrow> m q = None" for q
    using accessible_put [OF a(1), of q 1] by (cases "put m p vs q"; cases "m q") (auto simp: accessible_def)
  moreover have "put m p vs q = m q" if "q < lo \<or> hi \<le> q" for q using that a(2,3) by (intro put_outside) linarith
  ultimately show ?thesis by (simp add: changes_within_def)
qed

lemma coap_merge_multi_option_in:
  assumes "str_in lo cur dst n" and "cur < p" and "lo \<le> p" and "accessible m lo k" and "p + len \<le> lo + k"
  shows "\<exists>d n' m'. coap_merge_multi_option m dst n p len c = Some (d, n', m') \<and> str_in lo (p + len) d n' \<and>
    changes_within lo (p + len) m m'"
proof (cases "n = 0")
  case True
  then show ?thesis using assms(3) by (simp add: coap_merge_multi_option_def str_in_def)
next
  case False
  then have d: "lo \<le> dst" "dst + n \<le> cur" using assms(1) by (simp_all add: str_in_def)
  have a: "accessible m (dst + n) 1" "accessible m (dst + n + 1) len" "accessible m p len"
    using d assms(2,3,5) by (intro accessible_mono [OF assms(4)]; linarith)+
  let ?m = "put m (dst + n) [c]"
  have s: "store m (dst + n) c = Some ?m" using a(1) by (intro store_put) (simp add: accessible_def)
  have am: "accessible ?m (dst + n + 1) len" "accessible ?m p len" using a by (simp_all add: accessible_put)
  from memmove_put [OF this] obtain vs where v: "length vs = len" "memmove ?m (dst + n + 1) p len = Some (put ?m (dst + n + 1) vs)"
    by blast
  have "changes_within lo (p + len) m ?m" using a(1) d assms(2) by (intro changes_within_put) simp_all
  moreover have "changes_within lo (p + len) ?m (put ?m (dst + n + 1) vs)"
    using am(1) d assms(2) v(1) by (intro changes_within_put) simp_all
  ultimately have "changes_within lo (p + len) m (put ?m (dst + n + 1) vs)" by (rule changes_within_trans) simp
  moreover have "str_in lo (p + len) dst (n + 1 + len)" using d assms(2) by (simp add: str_in_def)
  ultimately show ?thesis using s v(2) False by (simp add: coap_merge_multi_option_def Let_def)
qed

lemma parse_int_loop_Some: "accessible m p n \<Longrightarrow> \<exists>v. parse_int_loop m p n w = Some v"
  by (induction n arbitrary: p w) (auto simp: accessible_Suc)

lemma coap_parse_int_option_Some: "accessible m p n \<Longrightarrow> \<exists>v. coap_parse_int_option m p n = Some v"
  unfolding coap_parse_int_option_def by (rule parse_int_loop_Some)

text \<open>What parsing one option keeps.\<close>

definition same_frame :: "coap_packet \<Rightarrow> coap_packet \<Rightarrow> bool" where
  "same_frame p q \<longleftrightarrow> cp_payload q = cp_payload p \<and> cp_payload_len q = cp_payload_len p \<and>
     length (cp_options q) = length (cp_options p) \<and> cp_token q = cp_token p \<and> cp_token_len q = cp_token_len p \<and>
     cp_code q = cp_code p \<and> cp_mid q = cp_mid p \<and> cp_version q = cp_version p \<and> cp_type q = cp_type p"

lemma same_frame_refl [simp]: "same_frame p p"
  by (simp add: same_frame_def)

lemma same_frame_trans: "same_frame p q \<Longrightarrow> same_frame q r \<Longrightarrow> same_frame p r"
  by (simp add: same_frame_def)

lemma same_frame_SET [simp]: "same_frame p (SET_OPTION n p)"
  by (simp add: same_frame_def SET_OPTION_def Let_def)

definition parser_errors :: "coap_status set" where
  "parser_errors = {BAD_REQUEST_4_00, BAD_OPTION_4_02, PROXYING_NOT_SUPPORTED_5_05}"

definition option_ok :: "ptr \<Rightarrow> ptr \<Rightarrow> mem \<Rightarrow> coap_packet \<Rightarrow> option_result \<Rightarrow> bool" where
  "option_ok lo hi m pkt r \<longleftrightarrow> (case r of
     Next pkt' m' \<Rightarrow> same_frame pkt pkt' \<and> strings_in lo hi pkt' \<and> changes_within lo hi m m'
   | Stop st pkt' \<Rightarrow> same_frame pkt pkt' \<and> st \<in> parser_errors)"

lemma parse_option_ok:
  assumes "strings_in lo cur pkt" and "cur < p" and "lo \<le> p" and "accessible m lo k" and "p + len \<le> lo + k"
  shows "\<exists>r. parse_option m number p len pkt = Some r \<and> option_ok lo (p + len) m pkt r"
proof -
  have acc: "accessible m p l" if "l \<le> len" for l using that assms by (intro accessible_mono [OF assms(4)]) simp_all
  obtain v where v: "coap_parse_int_option m p len = Some v" using coap_parse_int_option_Some [OF acc] by blast
  obtain vs where vs: "load_list m p (min COAP_ETAG_LEN len) = Some vs" using accessible_load [OF acc [of "min COAP_ETAG_LEN len"]] by auto
  have s: "strings_in lo (p + len) pkt" using assms(1,2) by (auto simp: strings_in_def intro: str_in_mono)
  have mrg: "str_in lo cur d n \<Longrightarrow> \<exists>d' n' m'. coap_merge_multi_option m d n p len c = Some (d', n', m') \<and>
      str_in lo (p + len) d' n' \<and> changes_within lo (p + len) m m'" for d n c
    using coap_merge_multi_option_in [OF _ assms(2-5)] by blast
  note [simp] = option_ok_def same_frame_def strings_in_def parser_errors_def coap_numbers
  consider "number \<in> {COAP_OPTION_URI_PATH, COAP_OPTION_URI_QUERY, COAP_OPTION_LOCATION_PATH, COAP_OPTION_LOCATION_QUERY}"
    | "number \<notin> {COAP_OPTION_URI_PATH, COAP_OPTION_URI_QUERY, COAP_OPTION_LOCATION_PATH, COAP_OPTION_LOCATION_QUERY}" by blast
  then show ?thesis
  proof cases
    case 1
    then show ?thesis
      using s assms(1) mrg [of "cp_uri_path pkt" "cp_uri_path_len pkt" slash] mrg [of "cp_uri_query pkt" "cp_uri_query_len pkt" ampersand]
        mrg [of "cp_location_path pkt" "cp_location_path_len pkt" slash] mrg [of "cp_location_query pkt" "cp_location_query_len pkt" ampersand]
      by (auto simp: parse_option_def)
  next
    case 2
    then show ?thesis using s v vs by (auto simp: parse_option_def Let_def)
  qed
qed

subsection \<open>The loop over the options\<close>

lemma unat_u8_le: "unat (b :: u8) \<le> 255"
  using unsigned_less [of b, where ?'a = nat] by simp

lemma read_extension_le:
  assumes "read_extension m v p = Some (w, q)" and "v \<le> 15"
  shows "w \<le> 65804 \<and> p \<le> q \<and> q \<le> p + 2"
proof -
  have "unat b * 256 + unat c \<le> 65535" "unat b \<le> 65791" for b c :: u8
    using unat_u8_le [of b] unat_u8_le [of c] by linarith+
  then show ?thesis using assms
    by (auto simp: read_extension_def add.assoc split: if_splits Option.bind_splits)
qed

lemma read_extension_Some:
  assumes "accessible m p 2"
  shows "\<exists>w q. read_extension m v p = Some (w, q)"
proof -
  have "m p \<noteq> None" "m (p + 1) \<noteq> None"
    using assms unfolding accessible_def by (metis add.right_neutral zero_less_numeral, metis one_less_numeral_iff semiring_norm(76))
  then show ?thesis by (auto simp: read_extension_def)
qed

lemma option_header_Some:
  assumes "accessible m p 4"
  shows "\<exists>d l q. option_header m p b = Some (d, l, q) \<and> d \<le> 65804 \<and> l \<le> 65804 \<and> p \<le> q \<and> q \<le> p + 4"
proof -
  have n: "unat (drop_bit 4 b) \<le> 15" "unat (b AND 0x0f) \<le> 15"
  proof -
    show "unat (drop_bit 4 b) \<le> 15" using unat_u8_le [of b] by (simp add: drop_bit_eq_div unat_div)
    have "b AND 0x0f \<le> 0x0f" by (rule word_and_le1)
    then show "unat (b AND 0x0f) \<le> 15" by (simp add: word_le_nat_alt)
  qed
  have "accessible m p 2" by (rule accessible_mono [OF assms]) simp_all
  then obtain d q where d: "read_extension m (unat (drop_bit 4 b)) p = Some (d, q)" using read_extension_Some by blast
  note dl = read_extension_le [OF d n(1)]
  then have "accessible m q 2" by (intro accessible_mono [OF assms]) simp_all
  then obtain l r where l: "read_extension m (unat (b AND 0x0f)) q = Some (l, r)" using read_extension_Some by blast
  show ?thesis using d l dl read_extension_le [OF l n(2)] by (auto simp: option_header_def)
qed

text \<open>The longest header and the longest option that can follow the last byte of a datagram.\<close>

definition parse_margin :: nat where "parse_margin = 65808"

definition result_ok :: "ptr \<Rightarrow> nat \<Rightarrow> mem \<Rightarrow> coap_packet \<Rightarrow> parse_outcome \<Rightarrow> bool" where
  "result_ok data n m pkt r \<longleftrightarrow> (case r of
     Option_map_overflow k \<Rightarrow> 64 \<le> k
   | Parsed st pkt' m' \<Rightarrow> st \<in> insert NO_ERROR parser_errors \<and> cp_token pkt' = cp_token pkt \<and> cp_token_len pkt' = cp_token_len pkt \<and>
       unat (cp_payload_len pkt') \<le> REST_MAX_CHUNK_SIZE \<and>
       (cp_payload pkt' \<noteq> NULL \<longrightarrow> data < cp_payload pkt' \<and> cp_payload pkt' + unat (cp_payload_len pkt') \<le> data + n) \<and>
       changes_within data (data + n + parse_margin) m m')"

lemma result_ok_frame:
  "result_ok data n m' pkt' r \<Longrightarrow> same_frame pkt pkt' \<Longrightarrow> changes_within data (data + n + parse_margin) m m' \<Longrightarrow> result_ok data n m pkt r"
  by (auto simp: result_ok_def same_frame_def split: parse_outcome.splits intro: changes_within_trans)

lemma parse_payload_ok:
  assumes "data \<le> current" and "current < data + unat data_len" and "accessible m data (unat data_len + parse_margin)"
  shows "\<exists>r. parse_payload m data data_len current pkt = Some r \<and> result_ok data (unat data_len) m pkt r"
proof -
  let ?k = "current + 1 - data"
  let ?n = "data_len - of_nat ?k"
  have "unat (of_nat ?k :: u16) = ?k" using assms(2) unsigned_less [of data_len, where ?'a = nat] by (simp add: unat_of_nat)
  then have n: "unat ?n = unat data_len - ?k" using assms(1,2) by (simp add: unat_sub word_le_nat_alt)
  define l where "l = (if unat ?n > REST_MAX_CHUNK_SIZE then of_nat REST_MAX_CHUNK_SIZE else ?n)"
  have l: "unat l \<le> unat data_len - ?k" "unat l \<le> REST_MAX_CHUNK_SIZE"
    using n unfolding l_def by (auto simp: REST_MAX_CHUNK_SIZE_def)
  let ?p = "current + 1 + unat l"
  have "accessible m ?p 1" using l(1) assms(1,2) by (intro accessible_mono [OF assms(3)]) (simp_all add: parse_margin_def)
  then have "store m ?p 0 = Some (put m ?p [0])" "changes_within data (data + unat data_len + parse_margin) m (put m ?p [0])"
    using l(1) assms(1,2) by (auto intro!: store_put changes_within_put simp: accessible_def parse_margin_def)
  moreover have "parse_payload m data data_len current pkt = do {
      m \<leftarrow> store m ?p 0; Some (Parsed NO_ERROR (pkt\<lparr>cp_payload := current + 1, cp_payload_len := l\<rparr>) m) }"
    unfolding parse_payload_def Let_def l_def [symmetric] ..
  ultimately show ?thesis using l assms(1,2) by (auto simp: result_ok_def)
qed

lemma parse_loop_ok:
  "data \<le> current \<Longrightarrow> accessible m data (unat data_len + parse_margin) \<Longrightarrow> strings_in data current pkt \<Longrightarrow>
    length (cp_options pkt) = 8 \<Longrightarrow> cp_payload pkt = NULL \<Longrightarrow> cp_payload_len pkt = 0 \<Longrightarrow>
    \<exists>r. parse_loop m data data_len current option_number pkt = Some r \<and> result_ok data (unat data_len) m pkt r"
proof (induction m data data_len current option_number pkt rule: parse_loop.induct)
  case (1 m data data_len current option_number pkt)
  show ?case
  proof (cases "current < data + unat data_len")
    case False
    then show ?thesis using "1.prems" by (simp add: parse_loop.simps result_ok_def same_frame_def)
  next
    case True
    note acc = "1.prems"(2)
    have "m current \<noteq> None"
      using accessible_mono [OF acc, of current 1] True "1.prems"(1) by (simp add: accessible_def parse_margin_def)
    then obtain b where b: "m current = Some b" by blast
    show ?thesis
    proof (cases "b AND 0xf0 = 0xf0")
      case pl: True
      then show ?thesis using parse_payload_ok [OF "1.prems"(1) True acc] True b by (simp add: parse_loop.simps)
    next
      case no: False
      have "accessible m (current + 1) 4" using True "1.prems"(1)
        by (intro accessible_mono [OF acc]) (simp_all add: parse_margin_def)
      then obtain d l p where h: "option_header m (current + 1) b = Some (d, l, p)" "l \<le> 65804" "current + 1 \<le> p" "p \<le> current + 5"
        using option_header_Some [of m "current + 1" b] by auto
      let ?n = "(option_number + d) mod 2 ^ 32"
      show ?thesis
      proof (cases "in_option_map pkt ?n")
        case out: False
        then have "64 \<le> ?n" using "1.prems"(4) by (simp add: in_option_map_def OPTION_MAP_SIZE_def not_less)
        then show ?thesis using True b no h(1) out by (simp add: parse_loop.simps result_ok_def Let_def)
      next
        case inm: True
        let ?pkt = "SET_OPTION ?n pkt"
        have s: "strings_in data current ?pkt" using "1.prems"(3) by (simp add: strings_in_def)
        have pl: "p + l \<le> data + (unat data_len + parse_margin)" using h True by (simp add: parse_margin_def)
        have "current < p" "data \<le> p" using h(3) "1.prems"(1) by simp_all
        from parse_option_ok [OF s this acc pl, of ?n] obtain r where
          r: "parse_option m ?n p l ?pkt = Some r" "option_ok data (p + l) m ?pkt r" by blast
        have eq: "parse_loop m data data_len current option_number pkt = (case r of
            Stop status pkt \<Rightarrow> Some (Parsed status pkt m)
          | Next pkt m \<Rightarrow> parse_loop m data data_len (p + l) ?n pkt)"
          using True b no h(1) inm r(1) by (subst parse_loop.simps) (simp add: Let_def split: option_result.split)
        show ?thesis
        proof (cases r)
          case (Stop st pkt')
          then have "same_frame pkt pkt'" "st \<in> parser_errors"
            using r(2) same_frame_trans [OF same_frame_SET [of pkt ?n]] by (simp_all add: option_ok_def)
          then show ?thesis using Stop eq "1.prems" by (simp add: result_ok_def same_frame_def)
        next
          case (Next pkt' m')
          then have n: "same_frame pkt pkt'" "strings_in data (p + l) pkt'" "changes_within data (p + l) m m'"
            using r(2) same_frame_trans [OF same_frame_SET [of pkt ?n]] by (simp_all add: option_ok_def)
          have "\<exists>r. parse_loop m' data data_len (p + l) ?n pkt' = Some r \<and> result_ok data (unat data_len) m' pkt' r"
          proof (rule "1.IH" [OF True b no h(1) refl refl])
            show "accessible m' data (unat data_len + parse_margin)" using acc changes_within_accessible [OF n(3)] by blast
          qed (use inm r Next n "1.prems" h(3) in \<open>auto simp: same_frame_def\<close>)
          moreover have "changes_within data (data + unat data_len + parse_margin) m m'"
            using n(3) pl by (force simp: changes_within_def)
          ultimately show ?thesis using result_ok_frame n(1) eq Next by fastforce
        qed
      qed
    qed
  qed
qed

text \<open>The packet behind the first four bytes.\<close>

definition parsed_header :: "ptr \<Rightarrow> u8 \<Rightarrow> u8 \<Rightarrow> u8 \<Rightarrow> u8 \<Rightarrow> coap_packet" where
  "parsed_header data b0 b1 b2 b3 = zero_packet\<lparr>cp_buffer := data, cp_version := drop_bit 6 (0xc0 AND b0),
     cp_type := drop_bit 4 (0x30 AND b0), cp_token_len := 0x0f AND b0, cp_code := b1,
     cp_mid := push_bit 8 (ucast b2) OR ucast b3\<rparr>"

lemma coap_parse_message_bytes:
  assumes "m data = Some b0" and "m (data + 1) = Some b1" and "m (data + 2) = Some b2" and "m (data + 3) = Some b3"
  shows "coap_parse_message m data data_len =
    (let pkt = parsed_header data b0 b1 b2 b3; n = unat (cp_token_len pkt)
     in if cp_version pkt \<noteq> 1 \<or> n > COAP_TOKEN_LEN then Some (Parsed BAD_REQUEST_4_00 pkt m)
        else do {
          token \<leftarrow> load_list m (data + COAP_HEADER_LEN) n;
          parse_loop m data data_len (data + COAP_HEADER_LEN + n) 0
            (pkt\<lparr>cp_token := token @ drop n (cp_token pkt), cp_options := replicate 8 0\<rparr>)
        })"
  unfolding coap_parse_message_def using assms by (simp add: parsed_header_def Let_def)

text \<open>
  C8: The parser ends on every datagram, whatever it holds, or writes outside its map of options, when the memory behind the datagram can be read as far as
  the longest option goes. Its status is no error or one of three errors; the token has at most eight bytes; the payload
  is cut to the chunk size and lies within the datagram; and every change of the memory, by the merging of strings or
  the terminator behind the payload, is in the datagram or at most the longest option behind it. The only other
  outcome is a write outside the map of options, behind which nothing is claimed; the number received is then 64 or more, and a datagram with one such
  option reaches it (\<open>coap_parse_option_overflow\<close>).
\<close>

theorem coap_parse_total:
  assumes "accessible m data (unat data_len + parse_margin)"
  shows "\<exists>r. coap_parse_message m data data_len = Some r \<and> (case r of
     Option_map_overflow k \<Rightarrow> 64 \<le> k
   | Parsed st pkt m' \<Rightarrow> st \<in> {NO_ERROR, BAD_REQUEST_4_00, BAD_OPTION_4_02, PROXYING_NOT_SUPPORTED_5_05} \<and>
       (st \<noteq> BAD_REQUEST_4_00 \<longrightarrow> unat (cp_token_len pkt) \<le> 8 \<and> length (cp_token pkt) = 8) \<and> unat (cp_payload_len pkt) \<le> 512 \<and>
       (cp_payload pkt \<noteq> NULL \<longrightarrow> data < cp_payload pkt \<and> cp_payload pkt + unat (cp_payload_len pkt) \<le> data + unat data_len) \<and>
       (\<forall>q. q < data \<or> data + unat data_len + parse_margin \<le> q \<longrightarrow> m' q = m q))"
proof -
  have "m (data + i) \<noteq> None" if "i < 4" for i using assms that by (simp add: accessible_def parse_margin_def)
  from this [of 0] this [of 1] this [of 2] this [of 3]
  obtain b0 b1 b2 b3 where b: "m data = Some b0" "m (data + 1) = Some b1" "m (data + 2) = Some b2" "m (data + 3) = Some b3"
    by auto
  define pkt where "pkt = parsed_header data b0 b1 b2 b3"
  have z: "cp_payload pkt = NULL" "cp_payload_len pkt = 0" "length (cp_token pkt) = 8"
    by (simp_all add: pkt_def parsed_header_def zero_packet_def COAP_TOKEN_LEN_def)
  let ?n = "unat (cp_token_len pkt)"
  show ?thesis
  proof (cases "cp_version pkt \<noteq> 1 \<or> ?n > COAP_TOKEN_LEN")
    case True
    then have "coap_parse_message m data data_len = Some (Parsed BAD_REQUEST_4_00 pkt m)"
      using coap_parse_message_bytes [OF b] unfolding pkt_def [symmetric] by (auto simp: Let_def)
    then show ?thesis using z by simp
  next
    case False
    have n8: "?n \<le> 8" using False by (simp add: COAP_TOKEN_LEN_def)
    have "accessible m (data + COAP_HEADER_LEN) ?n"
      using n8 by (intro accessible_mono [OF assms]) (simp_all add: COAP_HEADER_LEN_def parse_margin_def)
    then obtain token where t: "load_list m (data + COAP_HEADER_LEN) ?n = Some token" using accessible_load by blast
    then have tl: "length token = ?n" using load_list_bytes by blast
    let ?pkt = "pkt\<lparr>cp_token := token @ drop ?n (cp_token pkt), cp_options := replicate 8 0\<rparr>"
    have eq: "coap_parse_message m data data_len = parse_loop m data data_len (data + COAP_HEADER_LEN + ?n) 0 ?pkt"
      using t False coap_parse_message_bytes [OF b, of data_len] unfolding pkt_def [symmetric] by (simp add: Let_def)
    have "strings_in data (data + COAP_HEADER_LEN + ?n) ?pkt"
      by (simp add: pkt_def parsed_header_def zero_packet_def strings_in_def str_in_def)
    from parse_loop_ok [OF _ assms this, of 0] z(1,2) obtain r where
      r: "coap_parse_message m data data_len = Some r" "result_ok data (unat data_len) m ?pkt r"
      unfolding eq by auto
    then show ?thesis using n8 tl z(3)
      by (intro exI [of _ r]) (auto simp: result_ok_def parser_errors_def REST_MAX_CHUNK_SIZE_def changes_within_def split: parse_outcome.splits)
  qed
qed

theorem coap_parse_total_witness:
  "\<exists>r. coap_parse_message (mem_of 1000 [0x41, 1, 0, 1, 7, 0xff, 5]) 1000 7 = Some r \<and> (case r of
     Option_map_overflow k \<Rightarrow> 64 \<le> k | Parsed st pkt m' \<Rightarrow> unat (cp_payload_len pkt) \<le> 512)"
  using coap_parse_total [OF accessible_mem_of, of 1000 "[0x41, 1, 0, 1, 7, 0xff, 5]" 1000 7]
  by (auto split: parse_outcome.splits)

text \<open>
  C28: An option number of 64 or more, which any sender can put into a datagram, makes the parser write outside the map
  of options: the array has one bit for each number below 64 and the number received is not compared with its size.
\<close>

theorem coap_parse_option_overflow:
  assumes "bytes_at m data ([b0, b1, b2, b3] @ token @ hdr d l)"
    and "drop_bit 6 (0xc0 AND b0) = 1" and "unat (0x0f AND b0) = length token" and "length token \<le> 8"
    and "64 \<le> d" and "d \<le> 65804" and "l \<le> 65804" and "4 + length token < unat data_len"
  shows "coap_parse_message m data data_len = Some (Option_map_overflow d)"
proof -
  have b: "m data = Some b0" "m (data + 1) = Some b1" "m (data + 2) = Some b2" "m (data + 3) = Some b3"
    and t: "bytes_at m (data + COAP_HEADER_LEN) token" and h: "bytes_at m (data + COAP_HEADER_LEN + length token) (hdr d l)"
    using assms(1) by (simp_all add: bytes_at_Cons bytes_at_append COAP_HEADER_LEN_def numeral_3_eq_3 numeral_eq_Suc)
  define pkt where "pkt = parsed_header data b0 b1 b2 b3"
  have n: "unat (cp_token_len pkt) = length token" "cp_version pkt = 1"
    using assms(2,3) unfolding pkt_def parsed_header_def by simp_all
  have l: "load_list m (data + COAP_HEADER_LEN) (length token) = Some token" using t load_list_bytes by blast
  let ?p = "data + COAP_HEADER_LEN + length token"
  obtain b where o: "m ?p = Some b" "b AND 0xf0 \<noteq> 0xf0" "option_header m (?p + 1) b = Some (d, l, ?p + length (hdr d l))"
    using option_header_hdr [OF assms(6,7) h] by blast
  have "coap_parse_message m data data_len = parse_loop m data data_len ?p 0
      (pkt\<lparr>cp_token := token @ drop (length token) (cp_token pkt), cp_options := replicate 8 0\<rparr>)"
    unfolding coap_parse_message_bytes [OF b] pkt_def [symmetric] using n assms(4) l by (simp add: Let_def COAP_TOKEN_LEN_def)
  moreover have "?p < data + unat data_len" using assms(8) by (simp add: COAP_HEADER_LEN_def)
  moreover have "\<not> in_option_map (p\<lparr>cp_options := replicate 8 0\<rparr>) d" for p :: coap_packet
    using assms(5) by (simp add: in_option_map_def OPTION_MAP_SIZE_def)
  moreover have "d mod 2 ^ 32 = d" using assms(6) by simp
  ultimately show ?thesis using o by (simp add: parse_loop.simps [of m data data_len ?p])
qed

theorem coap_parse_option_overflow_witness:
  "coap_parse_message (mem_of 1000 [0x40, 1, 0, 1, 0xd0, 52]) 1000 6 = Some (Option_map_overflow 65)"
proof -
  have "hdr 65 0 = [0xd0, 52]" by (simp add: hdr_def ext_def coap_option_nibble_def)
  then show ?thesis
    using coap_parse_option_overflow [where m = "mem_of 1000 [0x40, 1, 0, 1, 0xd0, 52]" and data = 1000 and token = "[]"
        and d = 65 and l = 0 and data_len = 6] bytes_at_mem_of [where p = 1000 and bs = "[0x40, 1, 0, 1, 0xd0, 52]"] by simp
qed

end
