(* ===== verification/Coap_Roundtrip.thy ===== *)
theory Coap_Roundtrip
  imports Coap_Encode Coap_Parse
begin

section \<open>CoAP messages that are written and then parsed\<close>

text \<open>
  The parser run on the encoding of a list of options: each group of options of one number sets the field of that number,
  the parts of a path or a query are put together in the buffer again, and every other field is left alone. With the
  encoding of \<open>coap_serialize_message\<close> this gives back the packet that was written.
\<close>

subsection \<open>The value of an option\<close>

text \<open>If-None-Match has no value: the getter looks only at whether it is set.\<close>

datatype opt_value = Num u32 | Bytes "u8 list" | Str ptr nat | Block u32 bool u16

definition option_value :: "coap_packet \<Rightarrow> nat \<Rightarrow> opt_value" where
  "option_value p n =
     (if n = COAP_OPTION_IF_MATCH then Bytes (take (unat (cp_if_match_len p)) (cp_if_match p))
      else if n = COAP_OPTION_URI_HOST then Str (cp_uri_host p) (cp_uri_host_len p)
      else if n = COAP_OPTION_ETAG then Bytes (take (unat (cp_etag_len p)) (cp_etag p))
      else if n = COAP_OPTION_IF_NONE_MATCH then Num 1
      else if n = COAP_OPTION_OBSERVE then Num (cp_observe p)
      else if n = COAP_OPTION_URI_PORT then Num (ucast (cp_uri_port p))
      else if n = COAP_OPTION_LOCATION_PATH then Str (cp_location_path p) (cp_location_path_len p)
      else if n = COAP_OPTION_URI_PATH then Str (cp_uri_path p) (cp_uri_path_len p)
      else if n = COAP_OPTION_CONTENT_FORMAT then Num (ucast (cp_content_format p))
      else if n = COAP_OPTION_MAX_AGE then Num (cp_max_age p)
      else if n = COAP_OPTION_URI_QUERY then Str (cp_uri_query p) (cp_uri_query_len p)
      else if n = COAP_OPTION_ACCEPT then Num (ucast (cp_accept p))
      else if n = COAP_OPTION_LOCATION_QUERY then Str (cp_location_query p) (cp_location_query_len p)
      else if n = COAP_OPTION_BLOCK2 then Block (cp_block2_num p) (cp_block2_more p \<noteq> 0) (cp_block2_size p)
      else if n = COAP_OPTION_BLOCK1 then Block (cp_block1_num p) (cp_block1_more p \<noteq> 0) (cp_block1_size p)
      else if n = COAP_OPTION_SIZE2 then Num (cp_size2 p)
      else if n = COAP_OPTION_SIZE1 then Num (cp_size1 p)
      else Num 0)"

definition single_options :: "nat set" where
  "single_options = {COAP_OPTION_IF_MATCH, COAP_OPTION_ETAG, COAP_OPTION_IF_NONE_MATCH, COAP_OPTION_OBSERVE,
     COAP_OPTION_URI_PORT, COAP_OPTION_CONTENT_FORMAT, COAP_OPTION_MAX_AGE, COAP_OPTION_ACCEPT, COAP_OPTION_BLOCK2,
     COAP_OPTION_BLOCK1, COAP_OPTION_SIZE2, COAP_OPTION_SIZE1}"

definition split_options :: "nat set" where
  "split_options = {COAP_OPTION_LOCATION_PATH, COAP_OPTION_URI_PATH, COAP_OPTION_URI_QUERY, COAP_OPTION_LOCATION_QUERY}"

definition separator :: "nat \<Rightarrow> u8" where
  "separator n = (if n = COAP_OPTION_LOCATION_PATH \<or> n = COAP_OPTION_URI_PATH then slash else ampersand)"

text \<open>The value of an option that is not a string, from its bytes.\<close>

definition decoded :: "nat \<Rightarrow> u8 list \<Rightarrow> opt_value" where
  "decoded n bs =
     (if n = COAP_OPTION_IF_MATCH \<or> n = COAP_OPTION_ETAG then Bytes (take 8 bs)
      else if n = COAP_OPTION_IF_NONE_MATCH then Num 1
      else if n = COAP_OPTION_URI_PORT \<or> n = COAP_OPTION_CONTENT_FORMAT \<or> n = COAP_OPTION_ACCEPT
        then Num (ucast (ucast (be_int bs) :: u16))
      else if n = COAP_OPTION_BLOCK2 \<or> n = COAP_OPTION_BLOCK1
        then Block (drop_bit 4 (be_int bs)) (block_more_of (be_int bs) \<noteq> 0) (block_size_of (be_int bs))
      else Num (be_int bs))"

lemma parse_int_loop_foldl:
  "bytes_at m p bs \<Longrightarrow> parse_int_loop m p (length bs) v = Some (foldl (\<lambda>v b. push_bit 8 v OR ucast b) v bs)"
  by (induction bs arbitrary: p v) (simp_all add: bytes_at_Cons)

lemma coap_parse_int_option_be: "bytes_at m p bs \<Longrightarrow> coap_parse_int_option m p (length bs) = Some (be_int bs)"
  by (simp add: coap_parse_int_option_def be_int_def parse_int_loop_foldl)

text \<open>What an option sets, and that it leaves the other options alone.\<close>

definition sets_only :: "nat \<Rightarrow> opt_value \<Rightarrow> coap_packet \<Rightarrow> coap_packet \<Rightarrow> bool" where
  "sets_only n v p q \<longleftrightarrow> option_value q n = v \<and> (\<forall>k. k \<noteq> n \<longrightarrow> option_value q k = option_value p k) \<and>
     cp_options q = cp_options p \<and> same_frame p q \<and> packet_ok q"

lemma parse_single_option:
  assumes "n \<in> single_options" and "bytes_at m p bs" and "packet_ok pkt"
  shows "\<exists>pkt'. parse_option m n p (length bs) pkt = Some (Next pkt' m) \<and> sets_only n (decoded n bs) pkt pkt'"
proof -
  have l: "load_list m p (min COAP_ETAG_LEN (length bs)) = Some (take 8 bs)"
    using bytes_at_take [OF assms(2), of 8] by (simp add: load_list_bytes COAP_ETAG_LEN_def min.commute)
  have u: "unat (of_nat (min 8 (length bs)) :: u8) = min 8 (length bs)" by (simp add: unat_of_nat)
  have ok: "length (cp_etag pkt) = 8" "length (cp_if_match pkt) = 8" using assms(3) by (simp_all add: packet_ok_def)
  have t: "take (min 8 (length bs)) bs = take 8 bs" "min (length bs) 8 + 8 - min 8 (length bs) = 8" by (simp_all add: min_def)
  note i = coap_parse_int_option_be [OF assms(2)]
  show ?thesis using assms(1)
    unfolding single_options_def insert_iff empty_iff
    by (elim disjE)
      (use assms(3) i l u ok t in \<open>simp_all add: parse_option_def sets_only_def same_frame_def packet_ok_def coap_numbers Let_def
        option_value_def decoded_def COAP_ETAG_LEN_def\<close>)
qed

lemma parse_host_option:
  assumes "packet_ok pkt"
  shows "\<exists>pkt'. parse_option m COAP_OPTION_URI_HOST p len pkt = Some (Next pkt' m) \<and> sets_only COAP_OPTION_URI_HOST (Str p len) pkt pkt'"
  using assms by (simp add: parse_option_def sets_only_def same_frame_def packet_ok_def coap_numbers option_value_def)

lemma parse_split_option:
  assumes "n \<in> split_options" and "option_value pkt n = Str d l" and "packet_ok pkt"
    and "coap_merge_multi_option m d l p len (separator n) = Some (d', l', m')"
  shows "\<exists>pkt'. parse_option m n p len pkt = Some (Next pkt' m') \<and> sets_only n (Str d' l') pkt pkt'"
  using assms(1) unfolding split_options_def insert_iff empty_iff
  by (elim disjE)
    (use assms(2-4) in \<open>simp_all add: parse_option_def sets_only_def same_frame_def packet_ok_def coap_numbers option_value_def separator_def\<close>)

subsection \<open>Groups of options\<close>

lemma parse_loop_option:
  assumes "bytes_at m p (hdr (n - cur) (length bs))" and "p < data + unat data_len" and "cur \<le> n" and "n < 64"
    and "length bs \<le> 65804" and "length (cp_options pkt) = 8"
    and "parse_option m n (p + length (hdr (n - cur) (length bs))) (length bs) (SET_OPTION n pkt) = Some (Next pkt' m')"
  shows "parse_loop m data data_len p cur pkt =
    parse_loop m' data data_len (p + length (hdr (n - cur) (length bs)) + length bs) n pkt'"
proof -
  have "n - cur \<le> 65804" using assms(4) by simp
  from option_header_hdr [OF this assms(5,1)] obtain b where b: "m p = Some b" "b AND 0xf0 \<noteq> 0xf0"
    "option_header m (p + 1) b = Some (n - cur, length bs, p + length (hdr (n - cur) (length bs)))" by auto
  have "in_option_map pkt n" using assms(4,6) by (simp add: in_option_map_def OPTION_MAP_SIZE_def less_mult_imp_div_less)
  moreover have "(cur + (n - cur)) mod 2 ^ 32 = n" using assms(3,4) by simp
  ultimately show ?thesis using b assms(2,7) by (subst parse_loop.simps) (simp add: Let_def)
qed

text \<open>What a group of options leaves in the packet and the memory.\<close>

definition got :: "mem \<Rightarrow> ptr \<Rightarrow> ptr \<Rightarrow> coap_packet \<Rightarrow> nat \<Rightarrow> u8 list list \<Rightarrow> bool" where
  "got m lo hi pkt n segs \<longleftrightarrow>
     (if n \<in> single_options then option_value pkt n = decoded n (hd segs)
      else \<exists>d. option_value pkt n = Str d (length (joins (separator n) segs)) \<and> bytes_at m d (joins (separator n) segs) \<and>
        str_in lo hi d (length (joins (separator n) segs)))"

definition group_ok :: "nat \<Rightarrow> u8 list list \<Rightarrow> bool" where
  "group_ok n segs \<longleftrightarrow> n < 64 \<and> (\<forall>s \<in> set segs. length s \<le> 65804) \<and>
     (n \<in> single_options \<union> {COAP_OPTION_URI_HOST} \<and> (\<exists>bs. segs = [bs]) \<or>
      n \<in> split_options \<and> (segs = [[]] \<or> segs \<noteq> [] \<and> [] \<notin> set segs))"

definition result_of :: "nat \<Rightarrow> coap_packet \<Rightarrow> coap_packet \<Rightarrow> bool" where
  "result_of n p q \<longleftrightarrow> (\<forall>k. k \<noteq> n \<longrightarrow> option_value q k = option_value p k) \<and>
     (\<forall>k < 64. IS_OPTION q k \<longleftrightarrow> k = n \<or> IS_OPTION p k) \<and> same_frame p q \<and> packet_ok q"

lemma option_value_SET [simp]: "option_value (SET_OPTION n p) k = option_value p k"
  by (simp add: option_value_def SET_OPTION_def Let_def)

lemma packet_ok_SET [simp]: "packet_ok (SET_OPTION n p) \<longleftrightarrow> packet_ok p"
  by (simp add: packet_ok_def SET_OPTION_def Let_def)

lemma sets_only_result:
  assumes "sets_only n v (SET_OPTION n p) q" and "packet_ok p" and "n < 64"
  shows "result_of n p q"
proof -
  have "IS_OPTION q k = IS_OPTION (SET_OPTION n p) k" for k using assms(1) by (simp add: sets_only_def IS_OPTION_def)
  then have "\<forall>k < 64. IS_OPTION q k \<longleftrightarrow> k = n \<or> IS_OPTION p k"
    using IS_OPTION_SET [of p n] assms(2,3) by (simp add: packet_ok_def)
  then show ?thesis using assms(1) same_frame_trans [OF same_frame_SET [of p n]]
    by (simp add: result_of_def sets_only_def)
qed

lemma result_of_again: "result_of n p q \<Longrightarrow> result_of n q r \<Longrightarrow> result_of n p r"
  unfolding result_of_def using same_frame_trans by metis

lemma merge_put:
  assumes "0 < l" and "accessible m (d + l) (1 + length bs)" and "bytes_at m p bs" and "d + l < p"
  shows "coap_merge_multi_option m d l p (length bs) c = Some (d, l + 1 + length bs, put m (d + l) (c # bs))"
proof -
  let ?m = "put m (d + l) [c]"
  have a: "accessible m (d + l) 1" "accessible m (d + l + 1) (length bs)" using assms(2) unfolding accessible_add by simp_all
  have s: "store m (d + l) c = Some ?m" using a(1) by (intro store_put) (simp add: accessible_def)
  have "bytes_at ?m p bs" using assms(3,4) by (subst bytes_at_put_outside) auto
  then have "load_list ?m p (length bs) = Some bs" using load_list_bytes by blast
  moreover have "accessible ?m (d + l + 1) (length bs)" using a by simp
  note store_list_put [OF this]
  moreover have "put ?m (d + l + 1) bs = put m (d + l) (c # bs)" by (simp add: put_Cons)
  ultimately show ?thesis using assms(1) s by (simp add: coap_merge_multi_option_def memmove_def Let_def)
qed

text \<open>The parts of a string behind the first one, put together with what is there.\<close>

lemma parse_more_parts:
  "segs \<noteq> [] \<Longrightarrow> [] \<notin> set segs \<Longrightarrow> \<forall>s \<in> set segs. length s \<le> 65804 \<Longrightarrow> n \<in> split_options \<Longrightarrow> n < 64 \<Longrightarrow> packet_ok pkt \<Longrightarrow>
    bytes_at m p (enc_parts n n segs) \<Longrightarrow> p + length (enc_parts n n segs) \<le> data + unat data_len \<Longrightarrow>
    option_value pkt n = Str d (length acc) \<Longrightarrow> bytes_at m d acc \<Longrightarrow> acc \<noteq> [] \<Longrightarrow> lo \<le> d \<Longrightarrow> d + length acc \<le> p \<Longrightarrow>
    accessible m lo k \<Longrightarrow> p + length (enc_parts n n segs) \<le> lo + k \<Longrightarrow>
    \<exists>m' pkt'. parse_loop m data data_len p n pkt = parse_loop m' data data_len (p + length (enc_parts n n segs)) n pkt' \<and>
      option_value pkt' n = Str d (length (acc @ separator n # joins (separator n) segs)) \<and>
      bytes_at m' d (acc @ separator n # joins (separator n) segs) \<and>
      d + length (acc @ separator n # joins (separator n) segs) \<le> p + length (enc_parts n n segs) \<and>
      result_of n pkt pkt' \<and> changes_within lo (p + length (enc_parts n n segs)) m m'"
proof (induction segs arbitrary: m p pkt acc)
  case (Cons s segs)
  let ?h = "hdr (n - n) (length s)" and ?c = "separator n"
  let ?q = "p + length ?h" and ?e = "p + length ?h + length s"
  have enc: "enc_parts n n (s # segs) = ?h @ s @ enc_parts n n segs" by simp
  have b: "bytes_at m p ?h" "bytes_at m ?q s" "bytes_at m ?e (enc_parts n n segs)"
    using Cons.prems(7) unfolding enc bytes_at_append by simp_all
  have h1: "1 \<le> length ?h" by (simp add: hdr_def)
  have le: "?e + length (enc_parts n n segs) \<le> data + unat data_len" "?e + length (enc_parts n n segs) \<le> lo + k"
    using Cons.prems(8,15) unfolding enc by simp_all
  let ?a = "d + length acc" and ?m = "put m (d + length acc) (?c # s)" and ?acc = "acc @ ?c # s"
  have acc: "accessible m ?a (1 + length s)"
    using Cons.prems(12,13) h1 le(2) by (intro accessible_mono [OF Cons.prems(14)]) simp_all
  have mrg: "coap_merge_multi_option m d (length acc) ?q (length s) ?c = Some (d, length acc + 1 + length s, ?m)"
    using Cons.prems(11,13) h1 by (intro merge_put [OF _ acc b(2)]) auto
  obtain pkt1 where p1: "parse_option m n ?q (length s) (SET_OPTION n pkt) = Some (Next pkt1 ?m)"
    "sets_only n (Str d (length acc + 1 + length s)) (SET_OPTION n pkt) pkt1"
    using parse_split_option [OF Cons.prems(4) _ _ mrg, of "SET_OPTION n pkt"] Cons.prems(6,9) by auto
  note r1 = sets_only_result [OF p1(2) Cons.prems(6,5)]
  have step: "parse_loop m data data_len p n pkt = parse_loop ?m data data_len ?e n pkt1"
  proof (rule parse_loop_option [OF b(1) _ _ Cons.prems(5)])
    show "p < data + unat data_len" using le(1) h1 by simp
    show "length (cp_options pkt) = 8" using Cons.prems(6) by (simp add: packet_ok_def)
  qed (use Cons.prems(3) p1(1) in simp_all)
  have v1: "option_value pkt1 n = Str d (length ?acc)" using p1(2) by (simp add: sets_only_def)
  have b1: "bytes_at ?m d ?acc" using Cons.prems(10) by (simp only: bytes_at_append bytes_at_put) (simp add: bytes_at_put_outside)
  have w1: "d + length ?acc \<le> ?e" using Cons.prems(13) h1 by simp
  have c1: "changes_within lo ?e m ?m" using acc Cons.prems(12) w1 by (intro changes_within_put) simp_all
  show ?case
  proof (cases "segs = []")
    case True
    then show ?thesis using step v1 b1 w1 r1 c1 by (intro exI [of _ ?m] exI [of _ pkt1]) (simp add: add.assoc)
  next
    case False
    have "bytes_at ?m ?e (enc_parts n n segs)" using b(3) w1 by (subst bytes_at_put_outside) auto
    moreover have "accessible ?m lo k" using Cons.prems(14) changes_within_accessible [OF c1] by blast
    moreover have "packet_ok pkt1" using r1 by (simp add: result_of_def)
    ultimately obtain m' pkt' where ih: "parse_loop ?m data data_len ?e n pkt1 = parse_loop m' data data_len (?e + length (enc_parts n n segs)) n pkt'"
      "option_value pkt' n = Str d (length (?acc @ ?c # joins ?c segs))" "bytes_at m' d (?acc @ ?c # joins ?c segs)"
      "d + length (?acc @ ?c # joins ?c segs) \<le> ?e + length (enc_parts n n segs)" "result_of n pkt1 pkt'"
      "changes_within lo (?e + length (enc_parts n n segs)) ?m m'"
      using Cons.IH [OF False _ _ Cons.prems(4,5) _ _ le(1) v1 b1 _ Cons.prems(12) w1 _ le(2)] Cons.prems(2,3) by auto
    have j: "acc @ ?c # joins ?c (s # segs) = ?acc @ ?c # joins ?c segs" using False by (cases segs) simp_all
    have e: "p + length (enc_parts n n (s # segs)) = ?e + length (enc_parts n n segs)" unfolding enc by simp
    show ?thesis unfolding j e
      using step ih result_of_again [OF r1 ih(5)] changes_within_trans [OF c1 ih(6)]
      by (intro exI [of _ m'] exI [of _ pkt']) simp
  qed
qed simp

text \<open>One group: a single option, or all the parts of a string.\<close>

lemma parse_group:
  assumes "group_ok n segs" and "cur \<le> n" and "packet_ok pkt" and "bytes_at m p (enc_parts cur n segs)"
    and "p + length (enc_parts cur n segs) \<le> data + unat data_len"
    and "n \<in> split_options \<longrightarrow> (\<exists>d. option_value pkt n = Str d 0)"
  shows "\<exists>m' pkt'. parse_loop m data data_len p cur pkt = parse_loop m' data data_len (p + length (enc_parts cur n segs)) n pkt' \<and>
    got m' p (p + length (enc_parts cur n segs)) pkt' n segs \<and> result_of n pkt pkt' \<and>
    changes_within p (p + length (enc_parts cur n segs)) m m'"
proof -
  obtain s ss where segs: "segs = s # ss" using assms(1) by (auto simp: group_ok_def neq_Nil_conv)
  let ?h = "hdr (n - cur) (length s)"
  let ?q = "p + length ?h" and ?e = "p + length ?h + length s"
  have enc: "enc_parts cur n segs = ?h @ s @ enc_parts n n ss" by (simp add: segs)
  have b: "bytes_at m p ?h" "bytes_at m ?q s" "bytes_at m ?e (enc_parts n n ss)"
    using assms(4) unfolding enc bytes_at_append by simp_all
  have n: "n < 64" "length s \<le> 65804" using assms(1) segs by (simp_all add: group_ok_def)
  have h1: "1 \<le> length ?h" by (simp add: hdr_def)
  have lim: "p < data + unat data_len" using assms(5) h1 unfolding enc by simp
  have l8: "length (cp_options pkt) = 8" using assms(3) by (simp add: packet_ok_def)
  note step = parse_loop_option [OF b(1) lim assms(2) n l8]
  consider "n \<in> single_options" | "n = COAP_OPTION_URI_HOST" | "n \<in> split_options" using assms(1) by (auto simp: group_ok_def)
  then show ?thesis
  proof cases
    case 1
    then have ss: "ss = []" using assms(1) segs by (auto simp: group_ok_def single_options_def split_options_def coap_numbers)
    obtain pkt' where q: "parse_option m n ?q (length s) (SET_OPTION n pkt) = Some (Next pkt' m)"
      "sets_only n (decoded n s) (SET_OPTION n pkt) pkt'"
      using parse_single_option [OF 1 b(2), of "SET_OPTION n pkt"] assms(3) by auto
    show ?thesis using step [OF q(1)] sets_only_result [OF q(2) assms(3) n(1)] q(2) 1 unfolding enc
      by (intro exI [of _ m] exI [of _ pkt']) (simp add: ss segs got_def sets_only_def add.assoc)
  next
    case 2
    then have ss: "ss = []" "n \<notin> single_options" using assms(1) segs by (auto simp: group_ok_def single_options_def split_options_def coap_numbers)
    obtain pkt' where q: "parse_option m n ?q (length s) (SET_OPTION n pkt) = Some (Next pkt' m)"
      "sets_only n (Str ?q (length s)) (SET_OPTION n pkt) pkt'"
      using parse_host_option [of "SET_OPTION n pkt" m ?q "length s"] 2 assms(3) by auto
    show ?thesis using step [OF q(1)] sets_only_result [OF q(2) assms(3) n(1)] q(2) ss b(2) unfolding enc
      by (intro exI [of _ m] exI [of _ pkt']) (simp add: segs got_def sets_only_def str_in_def add.assoc)
  next
    case 3
    then have ns: "n \<notin> single_options" by (auto simp: single_options_def split_options_def coap_numbers)
    obtain d where "option_value pkt n = Str d 0" using assms(6) 3 by blast
    then obtain pkt1 where q: "parse_option m n ?q (length s) (SET_OPTION n pkt) = Some (Next pkt1 m)"
      "sets_only n (Str ?q (length s)) (SET_OPTION n pkt) pkt1"
      using parse_split_option [OF 3, of "SET_OPTION n pkt" d 0 m ?q "length s" ?q "length s" m] assms(3)
      by (auto simp: coap_merge_multi_option_def)
    note r1 = sets_only_result [OF q(2) assms(3) n(1)]
    have v1: "option_value pkt1 n = Str ?q (length s)" using q(2) by (simp add: sets_only_def)
    show ?thesis
    proof (cases "ss = []")
      case True
      then show ?thesis using step [OF q(1)] r1 v1 ns b(2) unfolding enc
        by (intro exI [of _ m] exI [of _ pkt1]) (simp add: segs got_def str_in_def add.assoc)
    next
      case False
      then have good: "s \<noteq> []" "[] \<notin> set ss" "\<forall>s \<in> set ss. length s \<le> 65804"
        using assms(1) segs 3 by (auto simp: group_ok_def single_options_def split_options_def coap_numbers)
      have lim2: "?e + length (enc_parts n n ss) \<le> data + unat data_len" using assms(5) unfolding enc by simp
      have "accessible m p (length (enc_parts cur n segs))" using bytes_at_accessible [OF assms(4)] .
      moreover have "packet_ok pkt1" using r1 by (simp add: result_of_def)
      ultimately obtain m' pkt' where ih: "parse_loop m data data_len ?e n pkt1 = parse_loop m' data data_len (?e + length (enc_parts n n ss)) n pkt'"
        "option_value pkt' n = Str ?q (length (s @ separator n # joins (separator n) ss))"
        "bytes_at m' ?q (s @ separator n # joins (separator n) ss)"
        "?q + length (s @ separator n # joins (separator n) ss) \<le> ?e + length (enc_parts n n ss)"
        "result_of n pkt1 pkt'" "changes_within p (?e + length (enc_parts n n ss)) m m'"
        using parse_more_parts [OF False good(2,3) 3 n(1) _ b(3) lim2 v1 b(2) good(1), of p "length (enc_parts cur n segs)"]
        unfolding enc by auto
      have j: "joins (separator n) segs = s @ separator n # joins (separator n) ss" using False segs by (cases ss) simp_all
      have e: "p + length (enc_parts cur n segs) = ?e + length (enc_parts n n ss)" unfolding enc by simp
      show ?thesis unfolding e
        using step [OF q(1)] ih ns result_of_again [OF r1 ih(5)]
        by (intro exI [of _ m'] exI [of _ pkt']) (simp add: got_def str_in_def j)
    qed
  qed
qed

lemma changes_within_bytes:
  "changes_within lo hi m m' \<Longrightarrow> p + length bs \<le> lo \<or> hi \<le> p \<Longrightarrow> bytes_at m p bs \<Longrightarrow> bytes_at m' p bs"
  by (force simp: changes_within_def bytes_at_def)

lemma got_later:
  assumes "got m lo hi pkt n segs" and "option_value pkt' n = option_value pkt n" and "changes_within hi hi' m m'" and "hi \<le> hi'" and "lo' \<le> lo"
  shows "got m' lo' hi' pkt' n segs"
proof (cases "n \<in> single_options")
  case False
  let ?s = "joins (separator n) segs"
  from assms(1) False obtain d where d: "option_value pkt n = Str d (length ?s)" "bytes_at m d ?s" "str_in lo hi d (length ?s)"
    by (auto simp: got_def)
  have "bytes_at m' d ?s"
  proof (cases "?s = []")
    case False
    then have "d + length ?s \<le> hi" using d(3) by (simp add: str_in_def)
    then show ?thesis using changes_within_bytes [OF assms(3) _ d(2)] by blast
  qed simp
  moreover have "str_in lo' hi' d (length ?s)" using d(3) assms(4,5) by (auto simp: str_in_def)
  ultimately show ?thesis using False d(1) assms(2) by (simp add: got_def)
qed (use assms(1,2) in \<open>simp add: got_def\<close>)

lemma flat_simps [simp]: "flat [] = []" "flat ((n, segs) # gs) = map (Pair n) segs @ flat gs"
  by (simp_all add: flat_def)

text \<open>All groups, in the order of their numbers.\<close>

lemma parse_groups:
  "sorted_wrt (<) (cur # map fst gs) \<Longrightarrow> \<forall>(n, segs) \<in> set gs. group_ok n segs \<Longrightarrow> packet_ok pkt \<Longrightarrow> bytes_at m p (enc cur (flat gs)) \<Longrightarrow>
    p + length (enc cur (flat gs)) \<le> data + unat data_len \<Longrightarrow>
    \<forall>n \<in> fst ` set gs \<inter> split_options. \<exists>d. option_value pkt n = Str d 0 \<Longrightarrow>
    \<exists>m' pkt' cur'. parse_loop m data data_len p cur pkt = parse_loop m' data data_len (p + length (enc cur (flat gs))) cur' pkt' \<and>
      (\<forall>(n, segs) \<in> set gs. got m' p (p + length (enc cur (flat gs))) pkt' n segs) \<and>
      (\<forall>k. k \<notin> fst ` set gs \<longrightarrow> option_value pkt' k = option_value pkt k) \<and>
      (\<forall>k < 64. IS_OPTION pkt' k \<longleftrightarrow> k \<in> fst ` set gs \<or> IS_OPTION pkt k) \<and> same_frame pkt pkt' \<and> packet_ok pkt' \<and>
      changes_within p (p + length (enc cur (flat gs))) m m'"
proof (induction gs arbitrary: cur m p pkt)
  case (Cons g gs)
  obtain n segs where g: "g = (n, segs)" by (cases g)
  have ok: "group_ok n segs" "segs \<noteq> []" "cur \<le> n" using Cons.prems(1,2) g by (auto simp: group_ok_def)
  have enc: "enc cur (flat (g # gs)) = enc_parts cur n segs @ enc n (flat gs)"
    using ok(2) by (simp add: g enc_append last_number_group)
  let ?e = "p + length (enc_parts cur n segs)"
  have b: "bytes_at m p (enc_parts cur n segs)" "bytes_at m ?e (enc n (flat gs))"
    using Cons.prems(4) unfolding enc bytes_at_append by simp_all
  have le: "?e + length (enc n (flat gs)) \<le> data + unat data_len" using Cons.prems(5) unfolding enc by simp
  have le1: "?e \<le> data + unat data_len" using le by simp
  have sp: "n \<in> split_options \<longrightarrow> (\<exists>d. option_value pkt n = Str d 0)" using Cons.prems(6) g by simp
  obtain m1 pkt1 where 1: "parse_loop m data data_len p cur pkt = parse_loop m1 data data_len ?e n pkt1"
    "got m1 p ?e pkt1 n segs" "result_of n pkt pkt1" "changes_within p ?e m m1"
    using parse_group [OF ok(1,3) Cons.prems(3) b(1) le1 sp] by blast
  have new: "n \<notin> fst ` set gs" "sorted_wrt (<) (n # map fst gs)" using Cons.prems(1) g by auto
  have A1: "\<forall>k \<in> fst ` set gs \<inter> split_options. \<exists>d. option_value pkt1 k = Str d 0"
  proof
    fix k assume k: "k \<in> fst ` set gs \<inter> split_options"
    then have "k \<noteq> n" using new(1) by blast
    then have "option_value pkt1 k = option_value pkt k" using 1(3) by (simp add: result_of_def)
    moreover have "k \<in> fst ` set (g # gs) \<inter> split_options" using k by simp
    note bspec [OF Cons.prems(6) this]
    ultimately show "\<exists>d. option_value pkt1 k = Str d 0" by simp
  qed
  have A2: "bytes_at m1 ?e (enc n (flat gs))" using changes_within_bytes [OF 1(4) _ b(2)] by blast
  have A3: "\<forall>(n, segs) \<in> set gs. group_ok n segs" "packet_ok pkt1" using Cons.prems(2) 1(3) by (simp_all add: result_of_def)
  from Cons.IH [OF new(2) A3 A2 le A1] obtain m' pkt' cur' where 2:
    "parse_loop m1 data data_len ?e n pkt1 = parse_loop m' data data_len (?e + length (enc n (flat gs))) cur' pkt'"
    "\<forall>(k, ss) \<in> set gs. got m' ?e (?e + length (enc n (flat gs))) pkt' k ss"
    "\<forall>k. k \<notin> fst ` set gs \<longrightarrow> option_value pkt' k = option_value pkt1 k"
    "\<forall>k < 64. IS_OPTION pkt' k \<longleftrightarrow> k \<in> fst ` set gs \<or> IS_OPTION pkt1 k" "same_frame pkt1 pkt'" "packet_ok pkt'"
    "changes_within ?e (?e + length (enc n (flat gs))) m1 m'"
    by (elim exE conjE) (rule that)
  let ?f = "?e + length (enc n (flat gs))"
  have f: "p + length (enc cur (flat (g # gs))) = ?f" unfolding enc by simp
  have "got m' p ?f pkt' n segs" using got_later [OF 1(2) _ 2(7)] 2(3) new(1) by simp
  moreover have "got m' p ?f pkt' k ss" if "(k, ss) \<in> set gs" for k ss
  proof -
    have "got m' ?e ?f pkt' k ss" using 2(2) that by blast
    then show ?thesis by (rule got_later) simp_all
  qed
  ultimately have "\<forall>(n, segs) \<in> set (g # gs). got m' p ?f pkt' n segs" using g by auto
  moreover have "changes_within p ?f m m'" using 1(4) 2(7) by (force simp: changes_within_def)
  moreover have "same_frame pkt pkt'" using same_frame_trans 1(3) 2(5) unfolding result_of_def by blast
  moreover have "\<forall>k < 64. IS_OPTION pkt' k \<longleftrightarrow> k \<in> fst ` set (g # gs) \<or> IS_OPTION pkt k"
    using 2(4) 1(3) g by (auto simp: result_of_def)
  moreover have "\<forall>k. k \<notin> fst ` set (g # gs) \<longrightarrow> option_value pkt' k = option_value pkt k"
    using 2(3) 1(3) g by (auto simp: result_of_def)
  moreover have "parse_loop m data data_len p cur pkt = parse_loop m' data data_len ?f cur' pkt'" using 1(1) 2(1) by (rule trans)
  ultimately show ?case unfolding f using 2(6) by (intro exI conjI)
next
  case (Nil cur m p pkt)
  then show ?case by (intro exI [of _ m] exI [of _ pkt] exI [of _ cur]) simp
qed


subsection \<open>Values that are written and read\<close>

lemma log2_power: "k < 8 \<Longrightarrow> coap_log_2 (push_bit k 16 div 16) = of_nat k"
proof -
  assume "k < 8"
  then consider "k = 0" | "k = 1" | "k = 2" | "k = 3" | "k = 4" | "k = 5" | "k = 6" | "k = 7" by linarith
  then show ?thesis by cases (simp_all add: coap_log_2_def log2_loop.simps Let_def push_bit_eq_mult drop_bit_eq_div)
qed

lemma low_bits:
  fixes num c :: u32
  assumes "unat c < 16" and "unat num < 2 ^ 28"
  shows "drop_bit 4 (push_bit 4 num OR c) = num" and "(push_bit 4 num OR c) AND 0x8 = c AND 0x8" and "(push_bit 4 num OR c) AND 0x7 = c AND 0x7"
proof -
  have hi: "n < k" if "bit w n" "unat w < 2 ^ k" for w :: u32 and n k
  proof -
    have "take_bit k w = w" using that(2) unfolding word_unat_eq_iff unsigned_take_bit_eq by (rule take_bit_nat_eq_self)
    then show ?thesis using that(1) by (metis bit_take_bit_iff)
  qed
  have c: "bit c n \<Longrightarrow> n < 4" for n using hi [of c n 4] assms(1) by simp
  have num: "bit num n \<Longrightarrow> n < 28" for n using hi [of num n 28] assms(2) by simp
  have low: "\<not> bit (push_bit 4 num) n" if "n < 4" for n using that by (simp add: bit_push_bit_iff)
  have m: "(0x7 :: u32) = mask 3" by (simp add: mask_eq_exp_minus_1)
  have "(8 :: u32) = push_bit 3 1" by simp
  then have eight: "bit (8 :: u32) n \<longleftrightarrow> n = 3" for n by (simp only: bit_push_bit_iff) (auto simp: bit_1_iff)
  show "drop_bit 4 (push_bit 4 num OR c) = num"
  proof (rule bit_word_eqI)
    fix n assume "n < LENGTH(32)"
    have "\<not> bit c (4 + n)" using c [of "4 + n"] by auto
    then show "bit (drop_bit 4 (push_bit 4 num OR c)) n = bit num n"
      using num [of n] by (auto simp: bit_drop_bit_eq bit_or_iff bit_push_bit_iff)
  qed
  show "(push_bit 4 num OR c) AND 0x8 = c AND 0x8"
  proof (rule bit_word_eqI)
    fix n
    have "\<not> bit (push_bit 4 num) 3" by (rule low) simp
    then show "bit ((push_bit 4 num OR c) AND 0x8) n = bit (c AND 0x8) n"
      unfolding bit_and_iff eight by (auto simp only: bit_or_iff)
  qed
  show "(push_bit 4 num OR c) AND 0x7 = c AND 0x7"
    unfolding m by (rule bit_word_eqI) (auto simp: bit_and_iff bit_or_iff bit_mask_iff low)
qed

lemma block_value_decoded:
  fixes mr :: u8
  assumes "k < 8" and "unat num < 2 ^ 28"
  defines "v \<equiv> block_value num mr (push_bit k 16)"
  shows "drop_bit 4 v = num" and "block_more_of v \<noteq> 0 \<longleftrightarrow> mr \<noteq> 0" and "block_size_of v = push_bit k 16"
proof -
  define c :: u32 where "c = (if mr \<noteq> 0 then 8 else 0) OR (0xf AND of_nat k)"
  from assms(1) consider "k = 0" | "k = 1" | "k = 2" | "k = 3" | "k = 4" | "k = 5" | "k = 6" | "k = 7" by linarith
  note ks = this
  have u: "ucast (of_nat k :: u16) = (of_nat k :: u32)" using ks by cases simp_all
  have v: "v = push_bit 4 num OR c"
    unfolding v_def block_value_def Let_def c_def log2_power [OF assms(1)] u by (simp add: or.assoc)
  from ks  have c: "unat c < 16" "c AND 0x7 = of_nat k" "c AND 0x8 = (if mr \<noteq> 0 then 8 else 0)"
    by (cases; simp add: c_def)+
  note l = low_bits [OF c(1) assms(2)]
  show "drop_bit 4 v = num" unfolding v by (rule l(1))
  show "block_more_of v \<noteq> 0 \<longleftrightarrow> mr \<noteq> 0" unfolding v block_more_of_def l(2) c(3) by simp
  have "unat (of_nat k :: u32) = k" using assms(1) by (simp add: unat_of_nat)
  then show "block_size_of v = push_bit k 16" unfolding v block_size_of_def l(3) c(2) by simp
qed

text \<open>The groups that are sent carry the values of the packet.\<close>

definition block_ok :: "u32 \<Rightarrow> u16 \<Rightarrow> bool" where
  "block_ok num sz \<longleftrightarrow> unat num < 2 ^ 28 \<and> (\<exists>k < 8. sz = push_bit k 16)"

definition known_options :: "nat set" where
  "known_options = single_options \<union> split_options \<union> {COAP_OPTION_URI_HOST}"

text \<open>
  The values that the parser accepts and that survive. Only the options below 64 that the parser stores are set: Proxy-Uri and Proxy-Scheme,
  which the serializer writes too, make the parser stop with \<open>PROXYING_NOT_SUPPORTED_5_05\<close>. A block size is a power of two from 16 to 2048.
  A path or a query does not begin with its separator: the setters skip it, and a packet that has it nevertheless loses it on the way.
\<close>

definition values_ok :: "mem \<Rightarrow> coap_packet \<Rightarrow> bool" where
  "values_ok m p \<longleftrightarrow> (\<forall>n < 64. IS_OPTION p n \<longrightarrow> n \<in> known_options) \<and>
     (IS_OPTION p COAP_OPTION_BLOCK2 \<longrightarrow> block_ok (cp_block2_num p) (cp_block2_size p)) \<and>
     (IS_OPTION p COAP_OPTION_BLOCK1 \<longrightarrow> block_ok (cp_block1_num p) (cp_block1_size p)) \<and>
     (\<forall>n \<in> split_options. \<forall>q l. IS_OPTION p n \<and> option_value p n = Str q l \<and> 0 < l \<longrightarrow> hd (content m q l) \<noteq> separator n)"

definition sent_groups :: "mem \<Rightarrow> coap_packet \<Rightarrow> (nat \<times> u8 list list) list" where
  "sent_groups m p = filter (\<lambda>(n, _). IS_OPTION p n) (packet_groups m p)"

lemma sent_groups_sorted: "sorted_wrt (<) (0 # map fst (sent_groups m p))"
proof -
  have "sorted_wrt (<) (map fst (packet_groups m p))" "\<forall>n \<in> set (map fst (packet_groups m p)). 0 < n"
    by (simp_all add: packet_groups_def coap_numbers)
  moreover have "map fst (sent_groups m p) = filter (IS_OPTION p) (map fst (packet_groups m p))"
    by (simp add: sent_groups_def filter_map comp_def case_prod_beta')
  ultimately show ?thesis using sorted_wrt_filter [of "(<)"] by auto
qed

lemma packet_groups_numbers:
  "fst ` set (packet_groups m p) = known_options \<union> {COAP_OPTION_PROXY_URI, COAP_OPTION_PROXY_SCHEME}"
  by (auto simp: packet_groups_def known_options_def single_options_def split_options_def)

lemma known_less_64: "n \<in> known_options \<Longrightarrow> n < 64"
  by (auto simp: known_options_def single_options_def split_options_def coap_numbers)

lemma sent_numbers:
  assumes "values_ok m p"
  shows "fst ` set (sent_groups m p) = {n. n < 64 \<and> IS_OPTION p n}"
proof -
  have "fst ` set (sent_groups m p) = {n \<in> fst ` set (packet_groups m p). IS_OPTION p n}"
    by (force simp: sent_groups_def)
  also have "\<dots> = {n. n < 64 \<and> IS_OPTION p n}"
    unfolding packet_groups_numbers using assms known_less_64 by (auto simp: values_ok_def coap_numbers)
  finally show ?thesis .
qed

lemma decoded_single:
  assumes "values_ok m p" and "lengths_ok p" and "(n, segs) \<in> set (sent_groups m p)" and "n \<in> single_options"
  shows "\<exists>bs. segs = [bs] \<and> decoded n bs = option_value p n"
proof -
  have len: "min 8 (unat (cp_etag_len p)) = unat (cp_etag_len p)" "min 8 (unat (cp_if_match_len p)) = unat (cp_if_match_len p)"
    using assms(2) by (simp_all add: lengths_ok_def)
  have vo: "IS_OPTION p COAP_OPTION_BLOCK2 \<longrightarrow> block_ok (cp_block2_num p) (cp_block2_size p)"
    "IS_OPTION p COAP_OPTION_BLOCK1 \<longrightarrow> block_ok (cp_block1_num p) (cp_block1_size p)"
    using assms(1) by (simp_all add: values_ok_def)
  have u: "ucast (ucast (ucast w :: u32) :: u16) = (ucast w :: u32)" for w :: u16
    by (rule bit_word_eqI) (auto simp: bit_ucast_iff dest: bit_imp_le_length)
  have blk: "decoded n (int_bytes (block_value num mr sz)) = Block num (mr \<noteq> 0) sz"
    if "block_ok num sz" "n = COAP_OPTION_BLOCK2 \<or> n = COAP_OPTION_BLOCK1" for num mr sz
  proof -
    note ok = that
    obtain k where "k < 8" "sz = push_bit k 16" "unat num < 2 ^ 28" using ok(1) unfolding block_ok_def by blast
    then show ?thesis using block_value_decoded [of k num mr] that(2) by (auto simp: decoded_def be_int_int_bytes coap_numbers)
  qed
  have g: "(n, segs) \<in> set (packet_groups m p)" "IS_OPTION p n" using assms(3) by (auto simp: sent_groups_def)
  from assms(4) show ?thesis unfolding single_options_def insert_iff empty_iff
    by (elim disjE)
      (use g vo blk in \<open>simp_all add: packet_groups_def coap_numbers decoded_def option_value_def
        be_int_int_bytes u len\<close>)
qed

lemma enc_length: "(n, bs) \<in> set os \<Longrightarrow> length bs \<le> length (enc cur os)"
  by (induction cur os rule: enc.induct) auto

lemma string_group:
  assumes "(n, segs) \<in> set (sent_groups m p)" and "n \<notin> single_options" and "values_ok m p" and "strings_ok m buf room p"
  shows "\<exists>q l. option_value p n = Str q l \<and> joins (separator n) segs = content m q l \<and> apart m buf room q l \<and>
    (n = COAP_OPTION_URI_HOST \<and> segs = [content m q l] \<or> n \<in> split_options \<and> (segs = [[]] \<or> [] \<notin> set segs))"
proof -
  have g: "(n, segs) \<in> set (packet_groups m p)" "IS_OPTION p n" using assms(1) by (auto simp: sent_groups_def)
  have "n < 64" using g(1) by (auto simp: packet_groups_def coap_numbers)
  then have "n \<in> known_options" using assms(3) g(2) by (simp add: values_ok_def)
  then have n: "n \<in> split_options \<or> n = COAP_OPTION_URI_HOST" using assms(2) by (auto simp: known_options_def)
  have so: "\<And>q l. option_value p n = Str q l \<Longrightarrow> segs = parts (separator n) (content m q l) \<Longrightarrow> string_ok m buf room (separator n) q l \<Longrightarrow> n \<in> split_options \<Longrightarrow>
      joins (separator n) segs = content m q l \<and> apart m buf room q l \<and> (segs = [[]] \<or> [] \<notin> set segs)"
  proof -
    fix q l
    assume a: "option_value p n = Str q l" "segs = parts (separator n) (content m q l)" "string_ok m buf room (separator n) q l" "n \<in> split_options"
    have "segs = [[]] \<or> [] \<notin> set segs"
    proof (cases "content m q l")
      case (Cons c cs)
      then have "c \<noteq> separator n" using assms(3) a(1,4) g(2) length_content [of m q l] by (auto simp: values_ok_def)
      then have "hd segs \<noteq> []" using a(2) Cons by simp
      moreover have "[] \<notin> set (tl segs)" using a(2,3) by (simp add: string_ok_def)
      ultimately show ?thesis by (cases segs) auto
    qed (simp add: a(2))
    then show "joins (separator n) segs = content m q l \<and> apart m buf room q l \<and> (segs = [[]] \<or> [] \<notin> set segs)"
      using a(2,3) joins_parts by (simp add: string_ok_def)
  qed
  show ?thesis
  proof (cases "n = COAP_OPTION_URI_HOST")
    case True
    then show ?thesis using g assms(4) by (simp add: packet_groups_def coap_numbers option_value_def strings_ok_def)
  next
    case False
    then have sp: "n \<in> split_options" using n by blast
    then have "\<exists>q l. option_value p n = Str q l \<and> segs = parts (separator n) (content m q l) \<and> string_ok m buf room (separator n) q l"
      using g assms(4) unfolding split_options_def insert_iff empty_iff
      by (elim disjE) (simp_all add: packet_groups_def coap_numbers option_value_def strings_ok_def separator_def)
    then show ?thesis using so sp False by blast
  qed
qed

lemma sent_group_ok:
  assumes "(n, segs) \<in> set (sent_groups m p)" and "values_ok m p" and "lengths_ok p" and "strings_ok m buf room p"
    and "length (enc 0 (packet_options m p)) \<le> 65804"
  shows "group_ok n segs"
proof -
  have g: "(n, segs) \<in> set (packet_groups m p)" using assms(1) by (auto simp: sent_groups_def)
  have "length s \<le> 65804" if "s \<in> set segs" for s
  proof -
    have "(n, s) \<in> set (packet_options m p)" using assms(1) that unfolding packet_options_def flat_def sent_groups_def [symmetric] by force
    from enc_length [OF this, of 0] show ?thesis using assms(5) by simp
  qed
  moreover have "n < 64" using g by (auto simp: packet_groups_def coap_numbers)
  moreover have "n \<in> single_options \<union> {COAP_OPTION_URI_HOST} \<and> (\<exists>bs. segs = [bs]) \<or> n \<in> split_options \<and> (segs = [[]] \<or> segs \<noteq> [] \<and> [] \<notin> set segs)"
  proof (cases "n \<in> single_options")
    case True
    then show ?thesis using decoded_single [OF assms(2,3,1)] by blast
  next
    case False
    obtain q l where "joins (separator n) segs = content m q l"
      "n = COAP_OPTION_URI_HOST \<and> segs = [content m q l] \<or> n \<in> split_options \<and> (segs = [[]] \<or> [] \<notin> set segs)"
      using string_group [OF assms(1) False assms(2,4)] by blast
    moreover have "segs \<noteq> []" using g by (auto simp: packet_groups_def parts_not_Nil [symmetric])
    ultimately show ?thesis by blast
  qed
  ultimately show ?thesis by (simp add: group_ok_def)
qed

lemma header_fields:
  assumes "unat t \<le> 3" and "unat l \<le> 8"
  defines "b \<equiv> (0xc0 AND push_bit 6 1) OR (0x30 AND push_bit 4 t) OR (0x0f AND l) :: u8"
  shows "drop_bit 6 (0xc0 AND b) = 1" and "drop_bit 4 (0x30 AND b) = t" and "0x0f AND b = l"
proof -
  have t: "t = 0 \<or> t = 1 \<or> t = 2 \<or> t = 3" using assms(1) by (auto simp: word_unat_eq_iff)
  have l: "l = 0 \<or> l = 1 \<or> l = 2 \<or> l = 3 \<or> l = 4 \<or> l = 5 \<or> l = 6 \<or> l = 7 \<or> l = 8" using assms(2) by (auto simp: word_unat_eq_iff)
  show "drop_bit 6 (0xc0 AND b) = 1" "drop_bit 4 (0x30 AND b) = t" "0x0f AND b = l"
    using t l unfolding b_def by (elim disjE; simp)+
qed

lemma mid_bytes: "push_bit 8 (ucast (ucast (drop_bit 8 v) :: u8)) OR ucast (ucast v :: u8) = v" for v :: u16
  by (rule bit_word_eqI) (auto simp: bit_or_iff bit_push_bit_iff bit_ucast_iff bit_drop_bit_eq dest: bit_imp_le_length)

subsection \<open>The round trip\<close>

text \<open>
  A packet that can be sent from this memory into a buffer of this size: it is not the empty message, its strings and payload can be read and are
  apart from the buffer, its values are as above, and header and payload fit into the sizes that the parser and the serializer have.
\<close>

definition sendable :: "mem \<Rightarrow> ptr \<Rightarrow> nat \<Rightarrow> coap_packet \<Rightarrow> bool" where
  "sendable m buf room p \<longleftrightarrow> cp_code p \<noteq> 0 \<and> unat (cp_type p) \<le> 3 \<and> lengths_ok p \<and> strings_ok m buf room p \<and>
     payload_ok m buf room p \<and> values_ok m p \<and> unat (cp_payload_len p) \<le> REST_MAX_CHUNK_SIZE \<and>
     length (header_bytes m p) \<le> COAP_MAX_HEADER_SIZE \<and> length (message_bytes m p) < room \<and> accessible m buf room"

text \<open>An option has the same value in two packets; strings are compared by what they point to.\<close>

definition same_option :: "mem \<Rightarrow> coap_packet \<Rightarrow> mem \<Rightarrow> coap_packet \<Rightarrow> nat \<Rightarrow> bool" where
  "same_option m p m' p' n \<longleftrightarrow> (case option_value p n of
     Str q l \<Rightarrow> \<exists>q'. option_value p' n = Str q' l \<and> content m' q' l = content m q l
   | v \<Rightarrow> option_value p' n = v)"

lemma got_same_option:
  assumes "got m' lo hi p' n segs" and "(n, segs) \<in> set (sent_groups m p)" and "values_ok m p" and "lengths_ok p" and "strings_ok m buf room p"
    and "\<And>q. lo \<le> q \<Longrightarrow> q < hi \<Longrightarrow> m2 q = m' q"
  shows "same_option m p m2 p' n"
proof (cases "n \<in> single_options")
  case True
  then have "option_value p' n = option_value p n"
    using decoded_single [OF assms(3,4,2)] assms(1) by (auto simp: got_def)
  moreover have "option_value p n \<noteq> Str q l" for q l
    using True unfolding single_options_def insert_iff empty_iff by (elim disjE) (simp_all add: option_value_def coap_numbers)
  ultimately show ?thesis by (simp add: same_option_def split: opt_value.split)
next
  case False
  obtain q l where ql: "option_value p n = Str q l" "joins (separator n) segs = content m q l"
    using string_group [OF assms(2) False assms(3,5)] by blast
  obtain d where d: "option_value p' n = Str d l" "bytes_at m' d (content m q l)" "str_in lo hi d l"
    using assms(1) False ql(2) by (auto simp: got_def)
  have "bytes_at m2 d (content m q l)"
    using d(2,3) assms(6) by (force simp: bytes_at_def str_in_def)
  then have "content m2 d l = content m q l" by (rule content_eq) simp
  then show ?thesis using ql(1) d(1) by (simp add: same_option_def)
qed

text \<open>The end of a datagram: nothing, or the marker and the payload.\<close>

lemma parse_end:
  assumes "bytes_at m e (payload_bytes m0 p)" and "data \<le> e" and "e + length (payload_bytes m0 p) = data + unat data_len"
    and "unat (cp_payload_len p) \<le> REST_MAX_CHUNK_SIZE" and "m (data + unat data_len) \<noteq> None"
    and "cp_payload_len pkt = 0"
  shows "\<exists>pkt' m'. parse_loop m data data_len e cur pkt = Some (Parsed NO_ERROR pkt' m') \<and>
    (\<exists>q. pkt' = pkt\<lparr>cp_payload := q, cp_payload_len := cp_payload_len p\<rparr>) \<and>
    content m' (cp_payload pkt') (unat (cp_payload_len p)) = content m0 (cp_payload p) (unat (cp_payload_len p)) \<and>
    (\<forall>q < e. m' q = m q)"
proof (cases "cp_payload_len p = 0")
  case True
  then have "parse_loop m data data_len e cur pkt = Some (Parsed NO_ERROR pkt m)"
    using assms(3) by (subst parse_loop.simps) (simp add: payload_bytes_def)
  moreover have "pkt = pkt\<lparr>cp_payload := cp_payload pkt, cp_payload_len := cp_payload_len p\<rparr>" using True assms(6) by simp
  then have "\<exists>q. pkt = pkt\<lparr>cp_payload := q, cp_payload_len := cp_payload_len p\<rparr>" by blast
  ultimately show ?thesis using True by (intro exI [of _ pkt] exI [of _ m] conjI) (auto simp: content_def)
next
  case False
  let ?n = "unat (cp_payload_len p)" and ?c = "content m0 (cp_payload p) (unat (cp_payload_len p))"
  have b: "m e = Some 0xff" "bytes_at m (e + 1) ?c" using assms(1) False by (simp_all add: payload_bytes_def bytes_at_Cons)
  have e: "e + 1 + ?n = data + unat data_len" using assms(3) False by (simp add: payload_bytes_def)
  let ?k = "e + 1 - data"
  have "?k < 2 ^ LENGTH(16)" using e assms(2) unsigned_less [of data_len, where ?'a = nat] by simp
  then have "unat (of_nat ?k :: u16) = ?k" unfolding unat_of_nat by (rule mod_less)
  then have "unat (data_len - of_nat ?k) = ?n" using e assms(2) by (simp add: unat_sub word_le_nat_alt)
  then have n: "data_len - of_nat ?k = cp_payload_len p" by (simp add: word_unat_eq_iff)
  have s: "store m (e + 1 + ?n) 0 = Some (put m (e + 1 + ?n) [0])" using assms(5) unfolding e by (rule store_put)
  let ?pkt = "pkt\<lparr>cp_payload := e + 1, cp_payload_len := cp_payload_len p\<rparr>" and ?m = "put m (e + 1 + ?n) [0]"
  have "parse_payload m data data_len e pkt = Some (Parsed NO_ERROR ?pkt ?m)"
    unfolding parse_payload_def Let_def n using assms(4) s by simp
  then have "parse_loop m data data_len e cur pkt = Some (Parsed NO_ERROR ?pkt ?m)"
    using b(1) e by (subst parse_loop.simps) simp
  moreover have "bytes_at ?m (e + 1) ?c" using b(2) by (subst bytes_at_put_outside) auto
  then have "content ?m (e + 1) ?n = ?c" by (rule content_eq) simp
  ultimately show ?thesis by (intro exI [of _ ?pkt] exI [of _ ?m]) (auto intro!: put_outside)
qed


subsection \<open>A sample request\<close>

definition sample_memory :: mem where
  "sample_memory = mem_of 1000 [0x61, 0x2f, 0x62]"

definition sample_packet :: coap_packet where
  "sample_packet = SET_OPTION COAP_OPTION_URI_PATH (zero_packet\<lparr>cp_code := 1, cp_mid := 0x1234, cp_token_len := 1,
     cp_token := 0xab # replicate 7 0, cp_uri_path := 1000, cp_uri_path_len := 3\<rparr>)"

lemma sample_option: "n < 64 \<Longrightarrow> IS_OPTION sample_packet n \<longleftrightarrow> n = 11"
proof -
  assume n: "n < 64"
  let ?z = "zero_packet\<lparr>cp_code := 1, cp_mid := 0x1234, cp_token_len := 1, cp_token := 0xab # replicate 7 0,
     cp_uri_path := 1000, cp_uri_path_len := 3\<rparr>"
  have "\<not> IS_OPTION ?z n" using zero_packet_options [OF n] by (simp add: IS_OPTION_def)
  then show ?thesis using IS_OPTION_SET [of ?z 11 n] n zero_packet_ok by (simp add: sample_packet_def COAP_OPTION_URI_PATH_def packet_ok_def)
qed

lemma sample_fields:
  "cp_code sample_packet = 1" "cp_mid sample_packet = 0x1234" "cp_token_len sample_packet = 1" "cp_type sample_packet = 0"
  "cp_token sample_packet = [0xab, 0, 0, 0, 0, 0, 0, 0]" "cp_uri_path sample_packet = 1000" "cp_uri_path_len sample_packet = 3"
  "cp_payload_len sample_packet = 0" "cp_etag_len sample_packet = 0" "cp_if_match_len sample_packet = 0"
  by (simp_all add: sample_packet_def SET_OPTION_def Let_def zero_packet_def numeral_eq_Suc)

lemma sample_path: "content sample_memory 1000 3 = [0x61, 0x2f, 0x62]"
  unfolding sample_memory_def by (rule content_eq [OF bytes_at_mem_of]) simp

lemma sample_message:
  "header_bytes sample_memory sample_packet = [0x41, 1, 0x12, 0x34, 0xab, 0xb1, 0x61, 0x01, 0x62]"
  "message_bytes sample_memory sample_packet = [0x41, 1, 0x12, 0x34, 0xab, 0xb1, 0x61, 0x01, 0x62]"
proof -
  have "packet_options sample_memory sample_packet = [(11, [0x61]), (11, [0x62])]"
    by (simp add: packet_options_def packet_groups_def coap_numbers sample_option sample_fields sample_path slash_def)
  then show "header_bytes sample_memory sample_packet = [0x41, 1, 0x12, 0x34, 0xab, 0xb1, 0x61, 0x01, 0x62]"
    by (simp add: header_bytes_def head_bytes_def sample_fields header_byte_def hdr_def ext_def coap_option_nibble_def)
  then show "message_bytes sample_memory sample_packet = [0x41, 1, 0x12, 0x34, 0xab, 0xb1, 0x61, 0x01, 0x62]"
    by (simp add: message_bytes_def payload_bytes_def sample_fields)
qed

lemma sample_sendable: "sendable sample_memory 100 20 sample_packet"
proof -
  have ok: "packet_ok sample_packet" using zero_packet_ok by (simp add: sample_packet_def packet_ok_def)
  have acc: "accessible sample_memory q n" for q n by (simp add: sample_memory_def accessible_mem_of)
  have "strings_ok sample_memory 100 20 sample_packet"
    by (simp add: strings_ok_def coap_numbers sample_option string_ok_def apart_def acc sample_fields sample_path slash_def)
  moreover have "values_ok sample_memory sample_packet"
    by (auto simp: values_ok_def sample_option known_options_def split_options_def coap_numbers option_value_def sample_fields
        sample_path separator_def slash_def ampersand_def)
  moreover have "payload_ok sample_memory 100 20 sample_packet"
    using acc by (simp add: payload_ok_def sample_fields sample_packet_def SET_OPTION_def zero_packet_def Let_def)
  ultimately show ?thesis
    using ok acc by (simp add: sendable_def lengths_ok_def sample_fields sample_message COAP_MAX_HEADER_SIZE_def COAP_TOKEN_LEN_def
        COAP_ETAG_LEN_def REST_MAX_CHUNK_SIZE_def)
qed



end
