(* ===== verification/Spec2Isabelle.thy ===== *)
theory Spec2Isabelle
  imports Clist Memb Ringbufs Evproc Timers Rt_Tmr Nbr_Table_Add Mac_Sequence Oma_Tlv Tsch_Queue Tsch_Schedule Ie802154e
    Mmem Crc Ccm_Star Sicslowpan_Total Sicslowpan_Transport Coap_Roundtrip
begin

text \<open>
  A verification development of emb6, a network stack for wireless sensor nodes in C. The stack runs on one thread: an
  event processor (utils/src/evproc.c) calls handlers, timers post events, and the network and application layers are
  such handlers, with data in statically allocated pools, intrusive lists and ring buffers. The development models the
  utilities that everything rests on and, of the layers above, the scheduling, queueing and frame elements of
  the TSCH link layer, the authenticated encryption of frames, the neighbour tables, 6LoWPAN with its header compression and
  fragmentation, and the CoAP message layer.

  How the code is modelled. A pointer is a natural number and 0 is the null pointer. Objects that are linked
  by pointers live in explicit stores: a function from addresses to records, or a function from addresses to next
  pointers. Memory that is read and written byte by byte is a partial function from addresses to bytes, where an access outside
  of what is accessible is \<open>None\<close>. Unsigned integers are words of their width, so they wrap around; \<open>int\<close> and
  \<open>size_t\<close> values that cannot overflow for the sizes of the code's data are integers or natural numbers. A loop over a
  linked structure, which need not end on a cyclic one, is a partial function: not returning is \<open>None\<close>. Callbacks, random
  numbers and drivers are parameters. Debug output is left out.

  Theories, in the order in which they build on one another:
  \<^item> Emb6_Prelude: types, named collections of rewrite rules and lemmas on lists and words that the others
    share.
  \<^item> Clist: intrusive singly linked lists (utils/src/list.c): \<open>list_add\<close>,
    \<open>list_remove\<close>, \<open>list_pop\<close> and the others over a store of next pointers; that each keeps
    a well-formed list and what it does to the sequence of items; when they return.
  \<^item> Memb: the allocator of fixed-size blocks (utils/src/memb.c): soundness of allocation, first fit for runs of
    blocks, disjointness.
  \<^item> Ringbufs: ring buffer indices (utils/src/ringbufindex.c) on 8-bit words and the byte ring
    (utils/src/ringbuffer.c): refinement of queues of bounded capacity.
  \<^item> Evproc: the event processor (utils/src/evproc.c): registration of callbacks, the queue as a refinement of a
    deque, dispatch in the order of the queue.
  \<^item> Timers: timers (timer.c, stimer.c), event timers (etimer.c) and callback timers (ctimer.c): expiry across
    the wrap of the tick counter, the earliest deadline, the events they post.
  \<^item> Rt_Tmr: real-time timers (utils/src/rt_tmr.c) on a doubly linked list sorted by deadline: starting,
    stopping, the tick interrupt.
  \<^item> Linkaddr: link-layer addresses (dll/dllc/linkaddr.c).
  \<^item> Bytemem: byte-addressed memory and the string functions of the C library that the CoAP code calls.
  \<^item> Nbr_Table: neighbour tables (net/ipv6/nbr-table.c): keys shared by all tables, maps of uses and locks, and
    the choice of the neighbour to evict.
  \<^item> Nbr_Table_Add: adding neighbours, eviction, changing an address, and iterating over a table.
  \<^item> Mac_Sequence: sequence numbers of received frames (dll/tsch/mac-sequence.c): what is reported as a
    duplicate, over histories of frames.
  \<^item> Oma_Tlv: the binary encoding of LWM2M values (apl/oma-lwm2m/oma-tlv.c and its reader and writer): what
    fits, integers and floating point numbers read back.
  \<^item> Tsch_Queue: neighbours and packet queues of TSCH (dll/tsch/tsch-queue.c): allocation, queueing, backoff,
    the time source.
  \<^item> Tsch_Schedule: slotframes and links of TSCH (dll/tsch/tsch-schedule.c, tsch-asn.h): adding and removing,
    the next active link, slot number arithmetic.
  \<^item> Ie802154e: information elements of IEEE 802.15.4e (dll/tsch/frame802154e-ie.c): writers, the parser as a
    state machine, round trips and bounds.
  \<^item> Mmem: managed memory (utils/src/mmem.c): blocks without gaps, exact allocation, and freeing by compaction,
    which keeps the contents of the other blocks.
  \<^item> Crc: cyclic redundancy checks (utils/src/crc.c): the table of the 32-bit check is the bitwise division, the
    16-bit check detects a wrong byte.
  \<^item> Aes: the AES-128 driver (utils/src/aes-128.c): its encryption is the cipher of FIPS 197, over the field of
    256 elements.
  \<^item> Ccm_Star: authenticated encryption (utils/src/ccm-star.c): it is CCM of RFC 3610, opening undoes sealing,
    and when its loops end.
  \<^item> Iphc: header compression of 6LoWPAN (net/sicslowpan/sicslowpan.c): compressing and decompressing the
    headers of IPv6 and UDP.
  \<^item> Iphc_Encode: what the compression writes: exactly the compressed form of the header.
  \<^item> Iphc_Roundtrip: decompression of that form, the round trip, and the source prefix that it loses.
  \<^item> Sicslowpan: fragmentation, input and output of 6LoWPAN (net/sicslowpan/sicslowpan.c).
  \<^item> Sicslowpan_Session: the sessions of fragments: lemmas for the invariant of their tables, and the write
    beyond a fragment buffer.
  \<^item> Sicslowpan_Reassembly: fragments in any order are put together to the packet.
  \<^item> Sicslowpan_Total: that input keeps the sessions, and the fragments it always takes.
  \<^item> Sicslowpan_Transport: the frames that are sent, and that the receiver of them has the packet.
  \<^item> Coap_Packet: CoAP packets and their accessors (apl/er-coap/er-coap.c, er-coap.h).
  \<^item> Coap_Codec: the serializer and the parser of CoAP messages as they are written, and option headers.
  \<^item> Coap_Parse: the parser on arbitrary datagrams: it ends, its results are inside the datagram; the write
    outside the option map.
  \<^item> Coap_Encode: the serializer as an encoder of a list of options.
  \<^item> Coap_Roundtrip: the parser on encoded messages, and the round trip.

  Interfaces. Where one part relies on another, or several operations share a contract, the contract is a locale, interpreted on the
  operations of the model: \<open>intrusive_list\<close> (Clist, as \<open>il\<close>) for adding and removing items of a list, \<open>block_pool\<close> (Memb, as \<open>bp\<close>) for
  allocating and freeing, \<open>index_ring\<close> (Ringbufs, as \<open>ri\<close>) for a client that keeps its items in an array beside the ring, and
  \<open>event_deque\<close> (Evproc, as \<open>ev\<close>) for the queue of events, and \<open>block_cipher\<close> (Ccm_Star, as \<open>aes\<close>) for the cipher under CCM* and its reference.

  Bounds. No operation takes fuel. The recursive functions of the model end by a measure, each given with its definition, or are
  partial functions; that they return is a theorem of its own where it matters (\<open>list_length_returns_iff\<close>,
  \<open>rt_tmr_update_fires_due\<close>, \<open>tsch_queue_free_unused_exact\<close>, \<open>remove_slotframes_terminates_iff_unlocked\<close>, \<open>aead_returns_iff\<close>). The bound \<open>parse_margin\<close> of
  Coap_Parse is the longest option header, 4 bytes behind the first one, and the longest option, 65804 bytes.

  Not modelled. The IPv6 stack (net/ipv6, with neighbour discovery, routing tables and multicast, but for the neighbour tables),
  RPL (net/rpl), DTLS with its cryptography (net/dtls), DNS (apl/dns), LWM2M (apl/oma-lwm2m, but for the binary encoding), the CoAP engine on top of messages and
  transactions, the slot operation of TSCH with its interrupts and radio timing, the MAC, PHY and
  framer drivers, the sockets, and everything under target, demo and freertos. They are event handlers over large global buffers
  and hardware drivers; the manifest lists each with its reason. Of the modelled files, debug output and functions that only call
  a driver or a socket are left out.
\<close>

end
